(* ===== verification/Prelude.thy ===== *)
theory Prelude
  imports Main "HOL-Library.Word" "HOL-Library.Signed_Division"
begin

unbundle bit_operations_syntax

text \<open>
  Shared vocabulary of the development: the machine integer types of the C code, first-failure
  chains for its sequences of guarded early returns, and generic lemmas on lists, options and
  words that the component theories use.
\<close>

section \<open>Machine integers\<close>

text \<open>
  A C \<open>int64_t\<close> is a \<open>64 word\<close> read by \<open>sint\<close>, a \<open>uint32_t\<close> a \<open>32 word\<close>, a byte an
  \<open>8 word\<close>. Value numbers (C \<open>int\<close>, used as array indices with \<open>-1\<close> for none) are HOL
  integers. Signed addition, subtraction and multiplication wrap in two's complement.
\<close>

type_synonym i64 = "64 word"
type_synonym u64 = "64 word"
type_synonym u32 = "32 word"
type_synonym u16 = "16 word"
type_synonym u8 = "8 word"

definition INT64_MIN :: i64 where
  "INT64_MIN = 0x8000000000000000"

definition INT64_MAX :: i64 where
  "INT64_MAX = 0x7FFFFFFFFFFFFFFF"

definition nonneg :: "i64 \<Rightarrow> bool" where
  "nonneg w \<longleftrightarrow> 0 \<le> sint w"

definition is_i32 :: "int \<Rightarrow> bool" where
  "is_i32 x \<longleftrightarrow> - (2 ^ 31) \<le> x \<and> x < 2 ^ 31"

lemma sint_i64: "sint (w :: i64) = (if uint w < 2 ^ 63 then uint w else uint w - 2 ^ 64)"
proof -
  have "sint w = take_bit 64 (uint w + 2 ^ 63) - 2 ^ 63"
    by (simp add: sint_uint signed_take_bit_eq_take_bit_shift)
  moreover have "uint w < 2 ^ 64"
    using uint_lt2p [of w] by simp
  moreover have "(uint w + 2 ^ 63) mod 2 ^ 64 = uint w - 2 ^ 63" if "\<not> uint w < 2 ^ 63" "uint w < 2 ^ 64"
    using that by (subst mod_pos_geq) auto
  ultimately show ?thesis
    by (auto simp: take_bit_eq_mod)
qed

lemma sint_i64_bounds: "- (2 ^ 63) \<le> sint (w :: i64)" "sint (w :: i64) < 2 ^ 63"
  using sint_range_size [of w] by (simp_all add: word_size)

lemma unat_of_nonneg: "0 \<le> sint (w :: i64) \<Longrightarrow> int (unat w) = sint w"
  using uint_lt2p [of w] by (auto simp: sint_i64 split: if_splits)

text \<open>The bytes of a C string as characters.\<close>

definition byte_of :: "char \<Rightarrow> u8" where
  "byte_of c = of_nat (of_char c)"

definition char_of_byte :: "u8 \<Rightarrow> char" where
  "char_of_byte b = char_of (unat b)"

lemma char_byte [simp]: "char_of_byte (byte_of c) = c"
  by (simp add: char_of_byte_def byte_of_def unat_of_nat)

lemma byte_char [simp]: "byte_of (char_of_byte b) = b"
proof -
  have "unat b < 256"
    using unsigned_less [of b] by simp
  then show ?thesis
    by (simp add: char_of_byte_def byte_of_def)
qed

section \<open>Fact collections\<close>

named_theorems effect_simps \<open>equations of the effect masks and metadata of an instruction\<close>
named_theorems frame_simps \<open>fields that an operation leaves unchanged\<close>

section \<open>Chains of guarded early returns\<close>

text \<open>
  A C routine of the form \<open>if (c1) return err(r1); if (c2) return err(r2); ...\<close> is the list
  of its guards with their reasons; the routine reports the reason of the first guard that holds.
\<close>

fun first_fail :: "(bool \<times> 'e) list \<Rightarrow> 'e option" where
  "first_fail [] = None"
| "first_fail ((c, r) # rest) = (if c then Some r else first_fail rest)"

lemma first_fail_None_iff: "first_fail xs = None \<longleftrightarrow> (\<forall>(c, r) \<in> set xs. \<not> c)"
  by (induction xs rule: first_fail.induct) auto

lemma first_fail_append:
  "first_fail (xs @ ys) = (case first_fail xs of Some r \<Rightarrow> Some r | None \<Rightarrow> first_fail ys)"
  by (induction xs rule: first_fail.induct) auto

section \<open>Left-to-right scans\<close>

text \<open>
  A C loop that rewrites an array in place while it threads a state: the output list, and the
  state with which the loop reaches element \<open>k\<close>.
\<close>

fun scan_map :: "('s \<Rightarrow> 'a \<Rightarrow> 'b \<times> 's) \<Rightarrow> 's \<Rightarrow> 'a list \<Rightarrow> 'b list" where
  "scan_map step st [] = []"
| "scan_map step st (x # xs) = (case step st x of (y, st') \<Rightarrow> y # scan_map step st' xs)"

definition scan_at :: "('s \<Rightarrow> 'a \<Rightarrow> 'b \<times> 's) \<Rightarrow> 's \<Rightarrow> 'a list \<Rightarrow> nat \<Rightarrow> 's" where
  "scan_at step st xs k = foldl (\<lambda>s x. snd (step s x)) st (take k xs)"

lemma length_scan_map [simp]: "length (scan_map step st xs) = length xs"
  by (induction xs arbitrary: st) (simp_all split: prod.splits)

lemma scan_at_0 [simp]: "scan_at step st xs 0 = st"
  by (simp add: scan_at_def)

lemma scan_at_Suc:
  "k < length xs \<Longrightarrow> scan_at step st xs (Suc k) = snd (step (scan_at step st xs k) (xs ! k))"
  by (simp add: scan_at_def take_Suc_conv_app_nth)

lemma scan_map_nth:
  "k < length xs \<Longrightarrow> scan_map step st xs ! k = fst (step (scan_at step st xs k) (xs ! k))"
  by (induction xs arbitrary: st k)
     (auto simp: scan_at_def less_Suc_eq_0_disj nth_Cons' split: prod.splits)

lemma foldl_take_Suc:
  "k < length xs \<Longrightarrow> foldl g st (take (Suc k) xs) = g (foldl g st (take k xs)) (xs ! k)"
  by (simp add: take_Suc_conv_app_nth)

end
