(* ===== verification/Nyir_Types.thy ===== *)
theory Nyir_Types
  imports Prelude
begin

text \<open>
  The data of the native intermediate representation NYIR, as declared in
  \<open>src/code/native/ir.h\<close>: opcodes, comparison predicates, instructions and functions.
\<close>

section \<open>Enumerations\<close>

datatype ny_nir_op =
  NY_NIR_NOP
| NY_NIR_CONST_I64
| NY_NIR_COPY
| NY_NIR_ADD_I64
| NY_NIR_SUB_I64
| NY_NIR_MUL_I64
| NY_NIR_DIV_I64
| NY_NIR_MOD_I64
| NY_NIR_AND_I64
| NY_NIR_OR_I64
| NY_NIR_XOR_I64
| NY_NIR_SHL_I64
| NY_NIR_SAR_I64
| NY_NIR_CMP_I64
| NY_NIR_LABEL
| NY_NIR_LOAD_LOCAL
| NY_NIR_STORE_LOCAL
| NY_NIR_CALL
| NY_NIR_RET
| NY_NIR_BR
| NY_NIR_BR_IF
| NYIR_CONST_F64
| NYIR_ADD_F64
| NYIR_SUB_F64
| NYIR_MUL_F64
| NYIR_DIV_F64
| NYIR_I64_TO_F64
| NYIR_CMP_F64
| NYIR_CONST_F32
| NYIR_ADD_F32
| NYIR_SUB_F32
| NYIR_MUL_F32
| NYIR_DIV_F32
| NYIR_I64_TO_F32
| NYIR_F64_TO_F32
| NYIR_F32_TO_F64
| NYIR_CMP_F32
| NYIR_ADDR_LOCAL
| NYIR_LOAD_I64
| NYIR_STORE_I64
| NYIR_ADDR_SYMBOL
| NYIR_ALLOCA
| NYIR_COPY_STRUCT
| NYIR_CAPTURE_RET
| NYIR_OP_COUNT


text \<open>The numbers the C enumeration gives the opcodes, and the opcode of a number.\<close>

primrec op_code :: "ny_nir_op \<Rightarrow> nat" where
  "op_code NY_NIR_NOP = 0"
| "op_code NY_NIR_CONST_I64 = 1"
| "op_code NY_NIR_COPY = 2"
| "op_code NY_NIR_ADD_I64 = 3"
| "op_code NY_NIR_SUB_I64 = 4"
| "op_code NY_NIR_MUL_I64 = 5"
| "op_code NY_NIR_DIV_I64 = 6"
| "op_code NY_NIR_MOD_I64 = 7"
| "op_code NY_NIR_AND_I64 = 8"
| "op_code NY_NIR_OR_I64 = 9"
| "op_code NY_NIR_XOR_I64 = 10"
| "op_code NY_NIR_SHL_I64 = 11"
| "op_code NY_NIR_SAR_I64 = 12"
| "op_code NY_NIR_CMP_I64 = 13"
| "op_code NY_NIR_LABEL = 14"
| "op_code NY_NIR_LOAD_LOCAL = 15"
| "op_code NY_NIR_STORE_LOCAL = 16"
| "op_code NY_NIR_CALL = 17"
| "op_code NY_NIR_RET = 18"
| "op_code NY_NIR_BR = 19"
| "op_code NY_NIR_BR_IF = 20"
| "op_code NYIR_CONST_F64 = 21"
| "op_code NYIR_ADD_F64 = 22"
| "op_code NYIR_SUB_F64 = 23"
| "op_code NYIR_MUL_F64 = 24"
| "op_code NYIR_DIV_F64 = 25"
| "op_code NYIR_I64_TO_F64 = 26"
| "op_code NYIR_CMP_F64 = 27"
| "op_code NYIR_CONST_F32 = 28"
| "op_code NYIR_ADD_F32 = 29"
| "op_code NYIR_SUB_F32 = 30"
| "op_code NYIR_MUL_F32 = 31"
| "op_code NYIR_DIV_F32 = 32"
| "op_code NYIR_I64_TO_F32 = 33"
| "op_code NYIR_F64_TO_F32 = 34"
| "op_code NYIR_F32_TO_F64 = 35"
| "op_code NYIR_CMP_F32 = 36"
| "op_code NYIR_ADDR_LOCAL = 37"
| "op_code NYIR_LOAD_I64 = 38"
| "op_code NYIR_STORE_I64 = 39"
| "op_code NYIR_ADDR_SYMBOL = 40"
| "op_code NYIR_ALLOCA = 41"
| "op_code NYIR_COPY_STRUCT = 42"
| "op_code NYIR_CAPTURE_RET = 43"
| "op_code NYIR_OP_COUNT = 44"

definition all_ops :: "ny_nir_op list" where
  "all_ops = [NY_NIR_NOP, NY_NIR_CONST_I64, NY_NIR_COPY, NY_NIR_ADD_I64, NY_NIR_SUB_I64, NY_NIR_MUL_I64, NY_NIR_DIV_I64, NY_NIR_MOD_I64, NY_NIR_AND_I64, NY_NIR_OR_I64, NY_NIR_XOR_I64, NY_NIR_SHL_I64, NY_NIR_SAR_I64, NY_NIR_CMP_I64, NY_NIR_LABEL, NY_NIR_LOAD_LOCAL, NY_NIR_STORE_LOCAL, NY_NIR_CALL, NY_NIR_RET, NY_NIR_BR, NY_NIR_BR_IF, NYIR_CONST_F64, NYIR_ADD_F64, NYIR_SUB_F64, NYIR_MUL_F64, NYIR_DIV_F64, NYIR_I64_TO_F64, NYIR_CMP_F64, NYIR_CONST_F32, NYIR_ADD_F32, NYIR_SUB_F32, NYIR_MUL_F32, NYIR_DIV_F32, NYIR_I64_TO_F32, NYIR_F64_TO_F32, NYIR_F32_TO_F64, NYIR_CMP_F32, NYIR_ADDR_LOCAL, NYIR_LOAD_I64, NYIR_STORE_I64, NYIR_ADDR_SYMBOL, NYIR_ALLOCA, NYIR_COPY_STRUCT, NYIR_CAPTURE_RET, NYIR_OP_COUNT]"

definition op_of_code :: "nat \<Rightarrow> ny_nir_op" where
  "op_of_code n = (if n < 45 then all_ops ! n else NYIR_OP_COUNT)"

text \<open>
  The comparison predicates. A C enumeration variable can hold a number outside its
  enumerators; \<open>NY_NIR_CMP_OTHER n\<close> is the number \<open>n + 6\<close>.
\<close>

datatype ny_nir_cmp =
  NY_NIR_CMP_EQ
| NY_NIR_CMP_NE
| NY_NIR_CMP_LT
| NY_NIR_CMP_LE
| NY_NIR_CMP_GT
| NY_NIR_CMP_GE
| NY_NIR_CMP_OTHER nat

fun cmp_code :: "ny_nir_cmp \<Rightarrow> nat" where
  "cmp_code NY_NIR_CMP_EQ = 0"
| "cmp_code NY_NIR_CMP_NE = 1"
| "cmp_code NY_NIR_CMP_LT = 2"
| "cmp_code NY_NIR_CMP_LE = 3"
| "cmp_code NY_NIR_CMP_GT = 4"
| "cmp_code NY_NIR_CMP_GE = 5"
| "cmp_code (NY_NIR_CMP_OTHER n) = n + 6"

definition cmp_of_code :: "nat \<Rightarrow> ny_nir_cmp" where
  "cmp_of_code n =
     (if n = 0 then NY_NIR_CMP_EQ else if n = 1 then NY_NIR_CMP_NE
      else if n = 2 then NY_NIR_CMP_LT else if n = 3 then NY_NIR_CMP_LE
      else if n = 4 then NY_NIR_CMP_GT else if n = 5 then NY_NIR_CMP_GE
      else NY_NIR_CMP_OTHER (n - 6))"

section \<open>Effect masks, flags and packed argument metadata\<close>

definition NY_NIR_EFFECT_NONE :: u32 where "NY_NIR_EFFECT_NONE = 0"
definition NY_NIR_EFFECT_READ_LOCAL :: u32 where "NY_NIR_EFFECT_READ_LOCAL = 1"
definition NY_NIR_EFFECT_WRITE_LOCAL :: u32 where "NY_NIR_EFFECT_WRITE_LOCAL = 2"
definition NY_NIR_EFFECT_CALL :: u32 where "NY_NIR_EFFECT_CALL = 4"
definition NY_NIR_EFFECT_CONTROL :: u32 where "NY_NIR_EFFECT_CONTROL = 8"

lemmas effect_masks [effect_simps] =
  NY_NIR_EFFECT_NONE_def NY_NIR_EFFECT_READ_LOCAL_def NY_NIR_EFFECT_WRITE_LOCAL_def
  NY_NIR_EFFECT_CALL_def NY_NIR_EFFECT_CONTROL_def

definition NY_NIR_INST_F_EXTERN :: u32 where "NY_NIR_INST_F_EXTERN = 1"
definition NY_NIR_INST_F_RET_F64 :: u32 where "NY_NIR_INST_F_RET_F64 = 2"
definition NY_NIR_INST_F_RET_F32 :: u32 where "NY_NIR_INST_F_RET_F32 = 4"

definition NY_NIR_ARG_AGG_SIZE :: "u32 \<Rightarrow> u32" where
  "NY_NIR_ARG_AGG_SIZE v = v AND 0x00ffffff"

definition NY_NIR_ARG_AGG_CLASS :: "u32 \<Rightarrow> nat \<Rightarrow> u32" where
  "NY_NIR_ARG_AGG_CLASS v n = drop_bit (if n \<noteq> 0 then 28 else 24) v AND 0x0f"

definition NY_NIR_ARG_CLASS_MEMORY :: u32 where "NY_NIR_ARG_CLASS_MEMORY = 3"
definition NY_NIR_ARG_CLASS_UNSUPPORTED :: u32 where "NY_NIR_ARG_CLASS_UNSUPPORTED = 4"

definition NY_NIR_CALL_MAX_ARGS :: nat where "NY_NIR_CALL_MAX_ARGS = 64"

section \<open>Instructions and functions\<close>

record ny_nir_debug_loc =
  dl_file :: "string option"
  dl_line :: u32
  dl_column :: u32

record ny_nir_range =
  has_min :: bool
  has_max :: bool
  rg_min :: i64
  rg_max :: i64

text \<open>
  The operands \<open>a\<close> to \<open>f\<close> and \<open>dst\<close> are value numbers, \<open>-1\<close> for none. A \<open>NULL\<close> pointer is
  \<open>None\<close> for strings and for \<open>arg_sizes\<close>. \<open>extra_args\<close> is the array the pointer designates,
  \<open>[]\<close> for \<open>NULL\<close>: the code never allocates it with zero elements. Its length field is separate,
  since \<open>ny_nir_normalize_operands\<close> sets it from \<open>imm\<close> alone.
\<close>

record ny_nir_inst =
  i_op :: ny_nir_op
  i_dst :: int
  i_a :: int
  i_b :: int
  i_c :: int
  i_d :: int
  i_e :: int
  i_f :: int
  i_imm :: i64
  i_cmp :: ny_nir_cmp
  i_symbol :: "string option"
  i_flags :: u32
  i_effects :: u32
  i_debug :: ny_nir_debug_loc
  i_range :: ny_nir_range
  i_extra_args :: "int list"
  i_extra_args_len :: nat
  i_arg_sizes :: "u32 list option"

record ny_nir_func =
  fn_data :: "ny_nir_inst list"
  fn_next_value :: int

abbreviation fn_len :: "ny_nir_func \<Rightarrow> nat" where
  "fn_len f \<equiv> length (fn_data f)"

text \<open>
  The C designated initialiser \<open>(ny_nir_inst_t){...}\<close> zeroes every field it does not name; in
  particular operands that are not named become value 0, not \<open>-1\<close>.
\<close>

definition zero_debug :: ny_nir_debug_loc where
  "zero_debug = \<lparr>dl_file = None, dl_line = 0, dl_column = 0\<rparr>"

definition zero_range :: ny_nir_range where
  "zero_range = \<lparr>has_min = False, has_max = False, rg_min = 0, rg_max = 0\<rparr>"

definition full_range :: "i64 \<Rightarrow> i64 \<Rightarrow> ny_nir_range" where
  "full_range lo hi = \<lparr>has_min = True, has_max = True, rg_min = lo, rg_max = hi\<rparr>"

definition zero_inst :: ny_nir_inst where
  "zero_inst =
     \<lparr>i_op = NY_NIR_NOP, i_dst = 0, i_a = 0, i_b = 0, i_c = 0, i_d = 0, i_e = 0, i_f = 0,
      i_imm = 0, i_cmp = NY_NIR_CMP_EQ, i_symbol = None, i_flags = 0, i_effects = 0,
      i_debug = zero_debug, i_range = zero_range, i_extra_args = [], i_extra_args_len = 0,
      i_arg_sizes = None\<rparr>"

text \<open>An instruction with no operand: the shape the passes write for a discarded instruction.\<close>

definition blank_inst :: ny_nir_inst where
  "blank_inst =
     zero_inst\<lparr>i_dst := -1, i_a := -1, i_b := -1, i_c := -1, i_d := -1, i_e := -1, i_f := -1\<rparr>"

text \<open>\<open>symbol && symbol[0]\<close>: a string that is present and not empty.\<close>

definition nonempty_str :: "string option \<Rightarrow> bool" where
  "nonempty_str s \<longleftrightarrow> (case s of None \<Rightarrow> False | Some t \<Rightarrow> t \<noteq> [])"

lemma nonempty_str_simps [simp]:
  "\<not> nonempty_str None" "nonempty_str (Some t) \<longleftrightarrow> t \<noteq> []"
  by (simp_all add: nonempty_str_def)

section \<open>Opcode numbers are a bijection\<close>

lemma op_code_le: "op_code op \<le> 44"
  by (cases op) simp_all

lemma op_of_code_op_code [simp]: "op_of_code (op_code op) = op"
  by (cases op) (simp_all add: op_of_code_def all_ops_def)

lemma cmp_of_code_cmp_code [simp]: "cmp_of_code (cmp_code c) = c"
  by (cases c) (simp_all add: cmp_of_code_def)

lemma op_code_inject: "op_code p = op_code q \<longleftrightarrow> p = q"
  by (metis op_of_code_op_code)

end
