(* ===== verification/Nyir_Build.thy ===== *)
theory Nyir_Build
  imports Nyir_Types
begin

text \<open>
  Construction of NYIR functions, from \<open>src/code/native/ir/init.c\<close>: the effect mask and the
  range metadata of an instruction, the normal form of its operands, \<open>ny_nir_emit\<close>, the in-place
  discard of an instruction, the decoding of call arguments and the instruction statistics.
\<close>

section \<open>Call arguments\<close>

datatype call_args_error =
  CallInvalidInput
| CallTooManyArgs int
| CallInvalidArg nat int

text \<open>The operand that carries argument \<open>k\<close>: \<open>a\<close> to \<open>f\<close>, then \<open>extra_args\<close>, \<open>-1\<close> if there is none.\<close>

definition call_operand :: "ny_nir_inst \<Rightarrow> nat \<Rightarrow> int" where
  "call_operand i k =
     (if k < 6 then [i_a i, i_b i, i_c i, i_d i, i_e i, i_f i] ! k
      else if i_extra_args i \<noteq> [] \<and> k - 6 < i_extra_args_len i then i_extra_args i ! (k - 6)
      else -1)"

fun call_args_loop :: "ny_nir_inst \<Rightarrow> int \<Rightarrow> nat list \<Rightarrow> call_args_error + int list" where
  "call_args_loop i value_count [] = Inr []"
| "call_args_loop i value_count (k # ks) =
     (let v = call_operand i k in
      if v < 0 \<or> v \<ge> value_count then Inl (CallInvalidArg k v)
      else (case call_args_loop i value_count ks of
              Inl e \<Rightarrow> Inl e
            | Inr vs \<Rightarrow> Inr (v # vs)))"

text \<open>\<open>(int)in->imm\<close> keeps the low 32 bits of the immediate as a signed number.\<close>

definition ny_nir_call_args :: "ny_nir_inst \<Rightarrow> int \<Rightarrow> nat \<Rightarrow> call_args_error + int list" where
  "ny_nir_call_args i value_count args_cap =
     (if i_op i \<noteq> NY_NIR_CALL then Inl CallInvalidInput
      else let argc = signed_take_bit 31 (sint (i_imm i)) in
        if argc < 0 \<or> argc > int NY_NIR_CALL_MAX_ARGS \<or> nat argc > args_cap
        then Inl (CallTooManyArgs argc)
        else call_args_loop i value_count [0..<nat argc])"

section \<open>Effects and metadata\<close>

primrec ny_nir_op_name :: "ny_nir_op \<Rightarrow> string" where
  "ny_nir_op_name NY_NIR_NOP = ''nop''"
| "ny_nir_op_name NY_NIR_CONST_I64 = ''const.i64''"
| "ny_nir_op_name NY_NIR_COPY = ''copy''"
| "ny_nir_op_name NY_NIR_ADD_I64 = ''add.i64''"
| "ny_nir_op_name NY_NIR_SUB_I64 = ''sub.i64''"
| "ny_nir_op_name NY_NIR_MUL_I64 = ''mul.i64''"
| "ny_nir_op_name NY_NIR_DIV_I64 = ''div.i64''"
| "ny_nir_op_name NY_NIR_MOD_I64 = ''mod.i64''"
| "ny_nir_op_name NY_NIR_AND_I64 = ''and.i64''"
| "ny_nir_op_name NY_NIR_OR_I64 = ''or.i64''"
| "ny_nir_op_name NY_NIR_XOR_I64 = ''xor.i64''"
| "ny_nir_op_name NY_NIR_SHL_I64 = ''shl.i64''"
| "ny_nir_op_name NY_NIR_SAR_I64 = ''sar.i64''"
| "ny_nir_op_name NY_NIR_CMP_I64 = ''cmp.i64''"
| "ny_nir_op_name NY_NIR_LABEL = ''label''"
| "ny_nir_op_name NY_NIR_LOAD_LOCAL = ''load.local''"
| "ny_nir_op_name NY_NIR_STORE_LOCAL = ''store.local''"
| "ny_nir_op_name NY_NIR_CALL = ''call''"
| "ny_nir_op_name NY_NIR_RET = ''ret''"
| "ny_nir_op_name NY_NIR_BR = ''br''"
| "ny_nir_op_name NY_NIR_BR_IF = ''br.if''"
| "ny_nir_op_name NYIR_CONST_F64 = ''const.f64''"
| "ny_nir_op_name NYIR_ADD_F64 = ''add.f64''"
| "ny_nir_op_name NYIR_SUB_F64 = ''sub.f64''"
| "ny_nir_op_name NYIR_MUL_F64 = ''mul.f64''"
| "ny_nir_op_name NYIR_DIV_F64 = ''div.f64''"
| "ny_nir_op_name NYIR_I64_TO_F64 = ''i64.to.f64''"
| "ny_nir_op_name NYIR_CMP_F64 = ''cmp.f64''"
| "ny_nir_op_name NYIR_CONST_F32 = ''const.f32''"
| "ny_nir_op_name NYIR_ADD_F32 = ''add.f32''"
| "ny_nir_op_name NYIR_SUB_F32 = ''sub.f32''"
| "ny_nir_op_name NYIR_MUL_F32 = ''mul.f32''"
| "ny_nir_op_name NYIR_DIV_F32 = ''div.f32''"
| "ny_nir_op_name NYIR_I64_TO_F32 = ''i64.to.f32''"
| "ny_nir_op_name NYIR_F64_TO_F32 = ''f64.to.f32''"
| "ny_nir_op_name NYIR_F32_TO_F64 = ''f32.to.f64''"
| "ny_nir_op_name NYIR_CMP_F32 = ''cmp.f32''"
| "ny_nir_op_name NYIR_ADDR_LOCAL = ''addr.local''"
| "ny_nir_op_name NYIR_LOAD_I64 = ''load.i64''"
| "ny_nir_op_name NYIR_STORE_I64 = ''store.i64''"
| "ny_nir_op_name NYIR_ADDR_SYMBOL = ''addr.symbol''"
| "ny_nir_op_name NYIR_ALLOCA = ''alloca''"
| "ny_nir_op_name NYIR_COPY_STRUCT = ''copy.struct''"
| "ny_nir_op_name NYIR_CAPTURE_RET = ''capture.ret''"
| "ny_nir_op_name NYIR_OP_COUNT = ''unknown''"

definition ny_nir_inst_effects :: "ny_nir_inst \<Rightarrow> u32" where
  "ny_nir_inst_effects i =
     (case i_op i of
        NY_NIR_LOAD_LOCAL \<Rightarrow> NY_NIR_EFFECT_READ_LOCAL
      | NY_NIR_STORE_LOCAL \<Rightarrow> NY_NIR_EFFECT_WRITE_LOCAL
      | NYIR_LOAD_I64 \<Rightarrow> NY_NIR_EFFECT_CALL
      | NYIR_STORE_I64 \<Rightarrow> NY_NIR_EFFECT_CALL OR NY_NIR_EFFECT_WRITE_LOCAL
      | NY_NIR_CALL \<Rightarrow> NY_NIR_EFFECT_CALL
      | NY_NIR_RET \<Rightarrow> NY_NIR_EFFECT_CONTROL
      | NY_NIR_BR \<Rightarrow> NY_NIR_EFFECT_CONTROL
      | NY_NIR_BR_IF \<Rightarrow> NY_NIR_EFFECT_CONTROL
      | _ \<Rightarrow> NY_NIR_EFFECT_NONE)"

definition is_cmp_op :: "ny_nir_op \<Rightarrow> bool" where
  "is_cmp_op op \<longleftrightarrow> op = NY_NIR_CMP_I64 \<or> op = NYIR_CMP_F64 \<or> op = NYIR_CMP_F32"

definition ny_nir_init_inst_metadata :: "ny_nir_inst \<Rightarrow> ny_nir_inst" where
  "ny_nir_init_inst_metadata i0 =
     (let i = i0\<lparr>i_effects := ny_nir_inst_effects i0\<rparr> in
      if i_op i = NY_NIR_CONST_I64 \<and> \<not> has_min (i_range i) \<and> \<not> has_max (i_range i)
      then i\<lparr>i_range := full_range (i_imm i) (i_imm i)\<rparr>
      else if is_cmp_op (i_op i) \<and> \<not> has_min (i_range i) \<and> \<not> has_max (i_range i)
      then i\<lparr>i_range := full_range 0 1\<rparr>
      else i)"

text \<open>The three groups of operand fields that \<open>ny_nir_normalize_operands\<close> resets.\<close>

definition clear_c_f :: "ny_nir_inst \<Rightarrow> ny_nir_inst" where
  "clear_c_f i = i\<lparr>i_c := -1, i_d := -1, i_e := -1, i_f := -1\<rparr>"

definition clear_b_f :: "ny_nir_inst \<Rightarrow> ny_nir_inst" where
  "clear_b_f i = clear_c_f (i\<lparr>i_b := -1\<rparr>)"

definition clear_a_f :: "ny_nir_inst \<Rightarrow> ny_nir_inst" where
  "clear_a_f i = clear_b_f (i\<lparr>i_a := -1\<rparr>)"

definition normalize_call :: "ny_nir_inst \<Rightarrow> ny_nir_inst" where
  "normalize_call i =
     (let n = sint (i_imm i);
          j = i\<lparr>i_a := if n \<le> 0 then -1 else i_a i,
                i_b := if n \<le> 1 then -1 else i_b i,
                i_c := if n \<le> 2 then -1 else i_c i,
                i_d := if n \<le> 3 then -1 else i_d i,
                i_e := if n \<le> 4 then -1 else i_e i,
                i_f := if n \<le> 5 then -1 else i_f i\<rparr>
      in if n \<le> 6 then j\<lparr>i_extra_args := [], i_extra_args_len := 0\<rparr>
         else j\<lparr>i_extra_args_len := nat (n - 6)\<rparr>)"

definition ny_nir_normalize_operands :: "ny_nir_inst \<Rightarrow> ny_nir_inst" where
  "ny_nir_normalize_operands i =
     (case i_op i of
        NY_NIR_COPY \<Rightarrow> clear_b_f i
      | NYIR_I64_TO_F64 \<Rightarrow> clear_b_f i
      | NYIR_I64_TO_F32 \<Rightarrow> clear_b_f i
      | NYIR_F64_TO_F32 \<Rightarrow> clear_b_f i
      | NYIR_F32_TO_F64 \<Rightarrow> clear_b_f i
      | NYIR_LOAD_I64 \<Rightarrow> clear_b_f i
      | NY_NIR_RET \<Rightarrow> clear_b_f i
      | NY_NIR_BR_IF \<Rightarrow> clear_b_f i
      | NYIR_ADDR_LOCAL \<Rightarrow> clear_a_f i
      | NYIR_ADDR_SYMBOL \<Rightarrow> clear_a_f i
      | NYIR_ALLOCA \<Rightarrow> clear_a_f i
      | NYIR_CAPTURE_RET \<Rightarrow> clear_a_f i
      | NY_NIR_STORE_LOCAL \<Rightarrow> clear_b_f (i\<lparr>i_dst := -1\<rparr>)
      | NYIR_STORE_I64 \<Rightarrow> i\<lparr>i_dst := -1, i_d := -1, i_e := -1, i_f := -1, i_b := -1\<rparr>
      | NYIR_COPY_STRUCT \<Rightarrow> i\<lparr>i_dst := -1, i_d := -1, i_e := -1, i_f := -1, i_c := -1\<rparr>
      | NY_NIR_CALL \<Rightarrow> normalize_call i
      | NY_NIR_ADD_I64 \<Rightarrow> clear_c_f i
      | NY_NIR_SUB_I64 \<Rightarrow> clear_c_f i
      | NY_NIR_MUL_I64 \<Rightarrow> clear_c_f i
      | NY_NIR_DIV_I64 \<Rightarrow> clear_c_f i
      | NY_NIR_MOD_I64 \<Rightarrow> clear_c_f i
      | NYIR_ADD_F64 \<Rightarrow> clear_c_f i
      | NYIR_SUB_F64 \<Rightarrow> clear_c_f i
      | NYIR_MUL_F64 \<Rightarrow> clear_c_f i
      | NYIR_DIV_F64 \<Rightarrow> clear_c_f i
      | NYIR_ADD_F32 \<Rightarrow> clear_c_f i
      | NYIR_SUB_F32 \<Rightarrow> clear_c_f i
      | NYIR_MUL_F32 \<Rightarrow> clear_c_f i
      | NYIR_DIV_F32 \<Rightarrow> clear_c_f i
      | NY_NIR_AND_I64 \<Rightarrow> clear_c_f i
      | NY_NIR_OR_I64 \<Rightarrow> clear_c_f i
      | NY_NIR_XOR_I64 \<Rightarrow> clear_c_f i
      | NY_NIR_SHL_I64 \<Rightarrow> clear_c_f i
      | NY_NIR_SAR_I64 \<Rightarrow> clear_c_f i
      | NY_NIR_CMP_I64 \<Rightarrow> clear_c_f i
      | NYIR_CMP_F64 \<Rightarrow> clear_c_f i
      | NYIR_CMP_F32 \<Rightarrow> clear_c_f i
      | NY_NIR_NOP \<Rightarrow> clear_a_f i
      | NY_NIR_CONST_I64 \<Rightarrow> clear_a_f i
      | NYIR_CONST_F64 \<Rightarrow> clear_a_f i
      | NYIR_CONST_F32 \<Rightarrow> clear_a_f i
      | NY_NIR_LABEL \<Rightarrow> clear_a_f i
      | NY_NIR_LOAD_LOCAL \<Rightarrow> clear_a_f i
      | NY_NIR_BR \<Rightarrow> clear_a_f i
      | NYIR_OP_COUNT \<Rightarrow> i)"

lemmas normalize_defs = ny_nir_normalize_operands_def normalize_call_def
  clear_a_f_def clear_b_f_def clear_c_f_def

text \<open>One iteration of the loop of \<open>ny_nir_refresh_metadata\<close>, and the whole function.\<close>

definition refresh_inst :: "ny_nir_inst \<Rightarrow> ny_nir_inst" where
  "refresh_inst i0 =
     (let i1 = ny_nir_normalize_operands i0;
          i = i1\<lparr>i_effects := ny_nir_inst_effects i1\<rparr>
      in if i_op i = NY_NIR_CONST_I64 then i\<lparr>i_range := full_range (i_imm i) (i_imm i)\<rparr>
         else if is_cmp_op (i_op i) then i\<lparr>i_range := full_range 0 1\<rparr>
         else i)"

definition ny_nir_refresh_metadata :: "ny_nir_func \<Rightarrow> ny_nir_func" where
  "ny_nir_refresh_metadata f = f\<lparr>fn_data := map refresh_inst (fn_data f)\<rparr>"

section \<open>Emitting and discarding instructions\<close>

definition emit_needs_dst :: "ny_nir_op \<Rightarrow> bool" where
  "emit_needs_dst op \<longleftrightarrow>
     op \<noteq> NY_NIR_STORE_LOCAL \<and> op \<noteq> NY_NIR_RET \<and> op \<noteq> NY_NIR_BR \<and> op \<noteq> NY_NIR_BR_IF \<and>
     op \<noteq> NY_NIR_LABEL \<and> op \<noteq> NY_NIR_NOP"

text \<open>Appends an instruction; the second component is the value it returns.\<close>

definition ny_nir_emit :: "ny_nir_func \<Rightarrow> ny_nir_inst \<Rightarrow> ny_nir_func \<times> int" where
  "ny_nir_emit f inst0 =
     (let i1 = ny_nir_normalize_operands inst0;
          fresh = i_dst i1 < 0 \<and> emit_needs_dst (i_op i1);
          i2 = (if fresh then i1\<lparr>i_dst := fn_next_value f\<rparr> else i1);
          i3 = ny_nir_init_inst_metadata i2
      in (f\<lparr>fn_data := fn_data f @ [i3],
            fn_next_value := fn_next_value f + (if fresh then 1 else 0)\<rparr>,
          i_dst i3))"

definition ny_nir_inst_discard :: "ny_nir_inst \<Rightarrow> ny_nir_inst" where
  "ny_nir_inst_discard i = blank_inst"

text \<open>Instruction count, value count and the number of instructions of each opcode below \<open>op_count\<close>.\<close>

definition ny_nir_collect_stats :: "ny_nir_func \<Rightarrow> nat \<Rightarrow> nat \<times> int \<times> nat list" where
  "ny_nir_collect_stats f op_count =
     (fn_len f, fn_next_value f,
      map (\<lambda>k. length (filter (\<lambda>i. op_code (i_op i) = k) (fn_data f))) [0..<op_count])"

end
