(* ===== verification/Nyir_Verify.thy ===== *)
theory Nyir_Verify
  imports Nyir_Build
begin

text \<open>
  The structural verifier of \<open>src/code/native/ir/verify.c\<close>: \<open>ny_nir_verify\<close> and
  \<open>ny_nir_validate_constraints\<close>, with the constant folding they and the virtual machine share.
\<close>

section \<open>Errors\<close>

text \<open>
  \<open>ny_nir_err\<close> reports a message, \<open>ny_nir_inst_err\<close> the index of an instruction and a reason; the
  other fields of its message are read off that instruction.
\<close>

datatype nir_error = NirErr string | NirInstErr nat string

section \<open>Constant folding\<close>

text \<open>
  \<open>ny_nir_analyze_binary_fold\<close>. Division truncates towards zero; the shift counts and the two
  division traps are refused. Additions, subtractions and products wrap.
\<close>

definition ny_nir_analyze_binary_fold :: "ny_nir_op \<Rightarrow> i64 \<Rightarrow> i64 \<Rightarrow> i64 option" where
  "ny_nir_analyze_binary_fold op a b =
     (case op of
        NY_NIR_ADD_I64 \<Rightarrow> Some (a + b)
      | NY_NIR_SUB_I64 \<Rightarrow> Some (a - b)
      | NY_NIR_MUL_I64 \<Rightarrow> Some (a * b)
      | NY_NIR_DIV_I64 \<Rightarrow>
          if b = 0 \<or> a = INT64_MIN \<and> b = -1 then None
          else Some (word_of_int (sint a sdiv sint b))
      | NY_NIR_MOD_I64 \<Rightarrow>
          if b = 0 \<or> a = INT64_MIN \<and> b = -1 then None
          else Some (word_of_int (sint a smod sint b))
      | NY_NIR_AND_I64 \<Rightarrow> Some (a AND b)
      | NY_NIR_OR_I64 \<Rightarrow> Some (a OR b)
      | NY_NIR_XOR_I64 \<Rightarrow> Some (a XOR b)
      | NY_NIR_SHL_I64 \<Rightarrow>
          if sint b < 0 \<or> sint b \<ge> 64 then None else Some (push_bit (unat b) a)
      | NY_NIR_SAR_I64 \<Rightarrow>
          if sint b < 0 \<or> sint b \<ge> 64 then None else Some (signed_drop_bit (unat b) a)
      | _ \<Rightarrow> None)"

definition bit_of :: "bool \<Rightarrow> i64" where
  "bit_of p = (if p then 1 else 0)"

fun ny_nir_analyze_cmp_fold :: "ny_nir_cmp \<Rightarrow> i64 \<Rightarrow> i64 \<Rightarrow> i64 option" where
  "ny_nir_analyze_cmp_fold NY_NIR_CMP_EQ a b = Some (bit_of (a = b))"
| "ny_nir_analyze_cmp_fold NY_NIR_CMP_NE a b = Some (bit_of (a \<noteq> b))"
| "ny_nir_analyze_cmp_fold NY_NIR_CMP_LT a b = Some (bit_of (sint a < sint b))"
| "ny_nir_analyze_cmp_fold NY_NIR_CMP_LE a b = Some (bit_of (sint a \<le> sint b))"
| "ny_nir_analyze_cmp_fold NY_NIR_CMP_GT a b = Some (bit_of (sint a > sint b))"
| "ny_nir_analyze_cmp_fold NY_NIR_CMP_GE a b = Some (bit_of (sint a \<ge> sint b))"
| "ny_nir_analyze_cmp_fold (NY_NIR_CMP_OTHER n) a b = None"

section \<open>Tables indexed by value numbers\<close>

text \<open>
  The C code pairs an array \<open>known[]\<close> with an array \<open>value[]\<close> that is read only where \<open>known\<close> is
  set; the model is one list of optional values. \<open>tab_get\<close> reads such a table and \<open>tab_set\<close>
  writes it at a value number inside the table.
\<close>

type_synonym const_tab = "i64 option list"

definition tab_get :: "'a option list \<Rightarrow> int \<Rightarrow> 'a option" where
  "tab_get t v = (if 0 \<le> v \<and> nat v < length t then t ! nat v else None)"

definition tab_set :: "'a option list \<Rightarrow> int \<Rightarrow> 'a option \<Rightarrow> 'a option list" where
  "tab_set t v x = (if 0 \<le> v then t[nat v := x] else t)"

section \<open>The verifier\<close>

definition nir_value_valid :: "ny_nir_func \<Rightarrow> int \<Rightarrow> bool" where
  "nir_value_valid f v \<longleftrightarrow> 0 \<le> v \<and> v < fn_next_value f"

definition nir_value_defined :: "ny_nir_func \<Rightarrow> bool list \<Rightarrow> int \<Rightarrow> bool" where
  "nir_value_defined f dfn v \<longleftrightarrow> nir_value_valid f v \<and> nat v < length dfn \<and> dfn ! nat v"

definition nir_label_exists :: "ny_nir_func \<Rightarrow> i64 \<Rightarrow> bool" where
  "nir_label_exists f label \<longleftrightarrow>
     (\<exists>i \<in> set (fn_data f). i_op i = NY_NIR_LABEL \<and> i_imm i = label)"

definition ny_nir_label_referenced :: "ny_nir_func \<Rightarrow> i64 \<Rightarrow> bool" where
  "ny_nir_label_referenced f label \<longleftrightarrow>
     (\<exists>i \<in> set (fn_data f). (i_op i = NY_NIR_BR \<or> i_op i = NY_NIR_BR_IF) \<and> i_imm i = label)"

definition nir_known_effect_mask :: u32 where
  "nir_known_effect_mask =
     NY_NIR_EFFECT_READ_LOCAL OR NY_NIR_EFFECT_WRITE_LOCAL OR NY_NIR_EFFECT_CALL OR
     NY_NIR_EFFECT_CONTROL"

text \<open>The checks that every instruction undergoes before the switch over its opcode.\<close>

definition verify_common :: "ny_nir_func \<Rightarrow> bool list \<Rightarrow> ny_nir_inst \<Rightarrow> (bool \<times> string) list" where
  "verify_common f dfn i =
     [(i_op i \<noteq> NY_NIR_CALL \<and> i_arg_sizes i \<noteq> None,
       ''non-call instruction has aggregate argument metadata''),
      (i_op i = NYIR_OP_COUNT, ''unknown opcode''),
      (is_cmp_op (i_op i) \<and> cmp_code (i_cmp i) > 5, ''unknown comparison predicate''),
      (i_effects i AND NOT nir_known_effect_mask \<noteq> 0, ''invalid effect mask''),
      (i_effects i \<noteq> ny_nir_inst_effects i, ''effect mask does not match opcode effects''),
      (has_min (i_range i) \<noteq> has_max (i_range i), ''incomplete range fact''),
      (has_min (i_range i) \<and> has_max (i_range i) \<and>
         sint (rg_min (i_range i)) > sint (rg_max (i_range i)), ''invalid range fact''),
      ((dl_line (i_debug i) = 0 \<and> dl_column (i_debug i) \<noteq> 0) \<or>
       (dl_line (i_debug i) = 0 \<and> nonempty_str (dl_file (i_debug i))), ''invalid debug location''),
      (i_dst i \<ge> fn_next_value f, ''invalid destination value''),
      (i_dst i \<ge> 0 \<and> nat (i_dst i) < length dfn \<and> dfn ! nat (i_dst i),
       ''destination value is already defined'')]"

definition agg_metadata_bad :: "u32 \<Rightarrow> bool" where
  "agg_metadata_bad packed \<longleftrightarrow>
     packed \<noteq> 0 \<and>
     (NY_NIR_ARG_AGG_SIZE packed = 0 \<or>
      NY_NIR_ARG_AGG_CLASS packed 0 > NY_NIR_ARG_CLASS_UNSUPPORTED \<or>
      NY_NIR_ARG_AGG_CLASS packed 1 > NY_NIR_ARG_CLASS_UNSUPPORTED)"

text \<open>The checks of a call: arity against operands, argument values, and the stack arguments.\<close>

definition verify_call :: "ny_nir_func \<Rightarrow> bool list \<Rightarrow> ny_nir_inst \<Rightarrow> (bool \<times> string) list" where
  "verify_call f dfn i =
     (let n = sint (i_imm i); def = nir_value_defined f dfn in
     [(\<not> nonempty_str (i_symbol i), ''call has no symbol''),
      (n < 0, ''negative call arg count''),
      (n = 0 \<and> (i_a i \<ge> 0 \<or> i_b i \<ge> 0 \<or> i_c i \<ge> 0 \<or> i_d i \<ge> 0 \<or> i_e i \<ge> 0 \<or> i_f i \<ge> 0),
       ''zero-argument call has value operands''),
      (n = 1 \<and> (i_b i \<ge> 0 \<or> i_c i \<ge> 0 \<or> i_d i \<ge> 0 \<or> i_e i \<ge> 0 \<or> i_f i \<ge> 0),
       ''one-argument call has extra value operand''),
      (n = 2 \<and> (i_c i \<ge> 0 \<or> i_d i \<ge> 0 \<or> i_e i \<ge> 0 \<or> i_f i \<ge> 0),
       ''two-argument call has extra value operand''),
      (n = 3 \<and> (i_d i \<ge> 0 \<or> i_e i \<ge> 0 \<or> i_f i \<ge> 0),
       ''three-argument call has extra value operand''),
      (n = 4 \<and> (i_e i \<ge> 0 \<or> i_f i \<ge> 0), ''four-argument call has extra value operand''),
      (n = 5 \<and> i_f i \<ge> 0, ''five-argument call has extra value operand''),
      (n > 0 \<and> \<not> def (i_a i), ''call arg0 is invalid''),
      (n > 1 \<and> \<not> def (i_b i), ''call arg1 is invalid''),
      (n > 2 \<and> \<not> def (i_c i), ''call arg2 is invalid''),
      (n > 3 \<and> \<not> def (i_d i), ''call arg3 is invalid''),
      (n > 4 \<and> \<not> def (i_e i), ''call arg4 is invalid''),
      (n > 5 \<and> \<not> def (i_f i), ''call arg5 is invalid''),
      (n > int NY_NIR_CALL_MAX_ARGS, ''call exceeds the maximum supported argument count''),
      (i_arg_sizes i \<noteq> None \<and> n \<le> 0, ''zero-argument call has aggregate argument metadata''),
      (case i_arg_sizes i of None \<Rightarrow> False
       | Some sizes \<Rightarrow> (\<exists>p \<in> set (take (nat n) sizes). agg_metadata_bad p),
       ''invalid aggregate argument metadata''),
      (n \<le> 6 \<and> (i_extra_args i \<noteq> [] \<or> i_extra_args_len i \<noteq> 0),
       ''call has stray stack-args for a register-only arity''),
      (n > 6 \<and> (i_extra_args i = [] \<or> i_extra_args_len i \<noteq> nat (n - 6)),
       ''call stack-arg count does not match arity''),
      (n > 6 \<and> (\<exists>v \<in> set (take (nat (n - 6)) (i_extra_args i)). \<not> def v),
       ''call stack-arg is invalid'')])"

text \<open>The switch over the opcode; the default branch is that of the binary operators.\<close>

definition verify_unary :: "ny_nir_func \<Rightarrow> bool list \<Rightarrow> ny_nir_inst \<Rightarrow> (bool \<times> string) list" where
  "verify_unary f dfn i =
     [(i_dst i < 0 \<or> \<not> nir_value_defined f dfn (i_a i), ''invalid unary value operand'')]"

definition verify_switch ::
  "ny_nir_func \<Rightarrow> bool list \<Rightarrow> nat \<Rightarrow> ny_nir_inst \<Rightarrow> (bool \<times> string) list" where
  "verify_switch f dfn k i =
     (let def = nir_value_defined f dfn; imm_neg = sint (i_imm i) < 0 in
      case i_op i of
        NY_NIR_NOP \<Rightarrow> []
      | NY_NIR_LABEL \<Rightarrow>
          [(\<exists>j \<in> set (take k (fn_data f)). i_op j = NY_NIR_LABEL \<and> i_imm j = i_imm i,
            ''duplicate label'')]
      | NY_NIR_CONST_I64 \<Rightarrow> [(i_dst i < 0, ''constant has no destination'')]
      | NYIR_CONST_F64 \<Rightarrow> [(i_dst i < 0, ''constant has no destination'')]
      | NYIR_CONST_F32 \<Rightarrow> [(i_dst i < 0, ''constant has no destination'')]
      | NY_NIR_COPY \<Rightarrow> verify_unary f dfn i
      | NYIR_I64_TO_F64 \<Rightarrow> verify_unary f dfn i
      | NYIR_I64_TO_F32 \<Rightarrow> verify_unary f dfn i
      | NYIR_F64_TO_F32 \<Rightarrow> verify_unary f dfn i
      | NYIR_F32_TO_F64 \<Rightarrow> verify_unary f dfn i
      | NYIR_LOAD_I64 \<Rightarrow> verify_unary f dfn i
      | NY_NIR_LOAD_LOCAL \<Rightarrow> [(i_dst i < 0 \<or> imm_neg, ''invalid local load'')]
      | NYIR_ADDR_LOCAL \<Rightarrow> [(i_dst i < 0 \<or> imm_neg, ''invalid local address'')]
      | NYIR_ADDR_SYMBOL \<Rightarrow>
          [(i_dst i < 0 \<or> \<not> nonempty_str (i_symbol i),
            ''addr.symbol requires a non-empty symbol'')]
      | NYIR_ALLOCA \<Rightarrow>
          [(i_dst i < 0 \<or> imm_neg,
            ''alloca requires a valid destination and positive size'')]
      | NYIR_COPY_STRUCT \<Rightarrow>
          [(i_a i < 0 \<or> i_b i < 0 \<or> imm_neg,
            ''copy.struct requires valid src, dst, and size'')]
      | NYIR_CAPTURE_RET \<Rightarrow>
          [(i_dst i < 0 \<or> imm_neg \<or> sint (i_imm i) > 3 \<or> k = 0 \<or>
            (i_op (fn_data f ! (k - 1)) \<noteq> NY_NIR_CALL \<and>
             i_op (fn_data f ! (k - 1)) \<noteq> NYIR_CAPTURE_RET),
            ''capture.ret requires a call/capture chain immediately before it and selector 0..3'')]
      | NY_NIR_STORE_LOCAL \<Rightarrow> [(imm_neg \<or> \<not> def (i_a i), ''invalid local store'')]
      | NYIR_STORE_I64 \<Rightarrow> [(\<not> def (i_a i) \<or> \<not> def (i_c i), ''invalid memory store'')]
      | NY_NIR_RET \<Rightarrow> [(i_a i \<ge> 0 \<and> \<not> def (i_a i), ''invalid return value'')]
      | NY_NIR_BR \<Rightarrow> [(\<not> nir_label_exists f (i_imm i), ''missing branch target label'')]
      | NY_NIR_BR_IF \<Rightarrow>
          [(\<not> def (i_a i) \<or> \<not> nir_label_exists f (i_imm i),
            ''invalid conditional branch operand or target'')]
      | NY_NIR_CALL \<Rightarrow> verify_call f dfn i
      | _ \<Rightarrow> [(\<not> def (i_a i) \<or> \<not> def (i_b i), ''invalid value operands'')])"

definition verify_inst ::
  "ny_nir_func \<Rightarrow> bool list \<Rightarrow> nat \<Rightarrow> ny_nir_inst \<Rightarrow> string option" where
  "verify_inst f dfn k i = first_fail (verify_common f dfn i @ verify_switch f dfn k i)"

definition mark_defined :: "bool list \<Rightarrow> ny_nir_inst \<Rightarrow> bool list" where
  "mark_defined dfn i = (if i_dst i \<ge> 0 then dfn[nat (i_dst i) := True] else dfn)"

fun verify_loop ::
  "ny_nir_func \<Rightarrow> bool list \<Rightarrow> nat \<Rightarrow> ny_nir_inst list \<Rightarrow> nir_error option" where
  "verify_loop f dfn k [] = None"
| "verify_loop f dfn k (i # rest) =
     (case verify_inst f dfn k i of
        Some r \<Rightarrow> Some (NirInstErr k r)
      | None \<Rightarrow> verify_loop f (mark_defined dfn i) (Suc k) rest)"

section \<open>Constraints on constants\<close>

definition constraint_checks :: "const_tab \<Rightarrow> ny_nir_inst \<Rightarrow> (bool \<times> string) list" where
  "constraint_checks cs i =
     [(i_op i = NYIR_OP_COUNT, ''unknown opcode''),
      (has_min (i_range i) \<and> has_max (i_range i) \<and>
         sint (rg_min (i_range i)) > sint (rg_max (i_range i)), ''range minimum exceeds maximum''),
      ((i_op i = NY_NIR_SHL_I64 \<or> i_op i = NY_NIR_SAR_I64) \<and>
         (case tab_get cs (i_b i) of None \<Rightarrow> False | Some b \<Rightarrow> sint b < 0 \<or> sint b \<ge> 64),
       ''constant shift amount out of range''),
      ((i_op i = NY_NIR_DIV_I64 \<or> i_op i = NY_NIR_MOD_I64) \<and> tab_get cs (i_b i) = Some 0,
       ''constant divide/modulo by zero''),
      ((i_op i = NY_NIR_DIV_I64 \<or> i_op i = NY_NIR_MOD_I64) \<and>
         tab_get cs (i_a i) = Some INT64_MIN \<and> tab_get cs (i_b i) = Some (-1),
       ''constant signed divide/modulo overflow'')]"

text \<open>How an instruction updates the table of known constants: constants and copies of them.\<close>

definition note_const :: "const_tab \<Rightarrow> ny_nir_inst \<Rightarrow> const_tab" where
  "note_const cs i =
     tab_set cs (i_dst i)
       (if i_op i = NY_NIR_CONST_I64 then Some (i_imm i)
        else if i_op i = NY_NIR_COPY then tab_get cs (i_a i)
        else None)"

fun constraints_loop :: "const_tab \<Rightarrow> nat \<Rightarrow> ny_nir_inst list \<Rightarrow> nir_error option" where
  "constraints_loop cs k [] = None"
| "constraints_loop cs k (i # rest) =
     (case first_fail (constraint_checks cs i) of
        Some r \<Rightarrow> Some (NirInstErr k r)
      | None \<Rightarrow> constraints_loop (note_const cs i) (Suc k) rest)"

definition empty_tab :: "ny_nir_func \<Rightarrow> 'a option list" where
  "empty_tab f = replicate (nat (fn_next_value f)) None"

definition ny_nir_validate_constraints :: "ny_nir_func \<Rightarrow> nir_error option" where
  "ny_nir_validate_constraints f = constraints_loop (empty_tab f) 0 (fn_data f)"

text \<open>The whole verifier: \<open>None\<close> when the function is accepted.\<close>

definition ny_nir_verify :: "ny_nir_func \<Rightarrow> nir_error option" where
  "ny_nir_verify f =
     (if fn_next_value f < 0 then Some (NirErr ''native NYIR verify: invalid value count'')
      else case verify_loop f (replicate (nat (fn_next_value f)) False) 0 (fn_data f) of
             Some e \<Rightarrow> Some e
           | None \<Rightarrow> ny_nir_validate_constraints f)"

abbreviation verified :: "ny_nir_func \<Rightarrow> bool" where
  "verified f \<equiv> ny_nir_verify f = None"

end
