(* ===== verification/Nyir_Eval.thy ===== *)
theory Nyir_Eval
  imports Nyir_Verify
begin

text \<open>
  The NYIR virtual machine of \<open>src/code/native/ir/eval.c\<close>: \<open>ny_nir_eval_with_calls\<close> as a step
  function on an explicit machine state and its bounded loop.
\<close>

section \<open>The environment of a run\<close>

text \<open>
  Floating-point arithmetic acts on bit patterns. What the C compiler's \<open>double\<close> and \<open>float\<close>
  operators compute is a parameter: the arithmetic operators, the conversions, and equality,
  less-than and less-or-equal, from which C's other comparisons follow.
\<close>

record fp_ops =
  fp_add64 :: "u64 \<Rightarrow> u64 \<Rightarrow> u64"
  fp_sub64 :: "u64 \<Rightarrow> u64 \<Rightarrow> u64"
  fp_mul64 :: "u64 \<Rightarrow> u64 \<Rightarrow> u64"
  fp_div64 :: "u64 \<Rightarrow> u64 \<Rightarrow> u64"
  fp_add32 :: "u32 \<Rightarrow> u32 \<Rightarrow> u32"
  fp_sub32 :: "u32 \<Rightarrow> u32 \<Rightarrow> u32"
  fp_mul32 :: "u32 \<Rightarrow> u32 \<Rightarrow> u32"
  fp_div32 :: "u32 \<Rightarrow> u32 \<Rightarrow> u32"
  fp_i64_to_f64 :: "i64 \<Rightarrow> u64"
  fp_i64_to_f32 :: "i64 \<Rightarrow> u32"
  fp_f64_to_f32 :: "u64 \<Rightarrow> u32"
  fp_f32_to_f64 :: "u32 \<Rightarrow> u64"
  fp_eq64 :: "u64 \<Rightarrow> u64 \<Rightarrow> bool"
  fp_lt64 :: "u64 \<Rightarrow> u64 \<Rightarrow> bool"
  fp_le64 :: "u64 \<Rightarrow> u64 \<Rightarrow> bool"
  fp_eq32 :: "u32 \<Rightarrow> u32 \<Rightarrow> bool"
  fp_lt32 :: "u32 \<Rightarrow> u32 \<Rightarrow> bool"
  fp_le32 :: "u32 \<Rightarrow> u32 \<Rightarrow> bool"

text \<open>
  Memory is the array of locals, which starts at the address \<open>env_lbase\<close>, and the other
  eight-byte cells the machine may dereference. A call resolver maps the symbol, the arguments and
  the memory to an error message or to a result and the new memory; \<open>None\<close> is the \<open>NULL\<close> resolver.
\<close>

type_synonym vm_mem = "i64 list \<times> (i64 \<rightharpoonup> i64)"
type_synonym call_resolver = "string option \<Rightarrow> i64 list \<Rightarrow> vm_mem \<Rightarrow> string + i64 \<times> vm_mem"

record vm_env =
  env_fp :: fp_ops
  env_lbase :: i64
  env_resolver :: "call_resolver option"

section \<open>Machine state, profile and errors\<close>

record ny_nir_eval_result =
  er_returned :: bool
  er_result :: i64
  er_steps :: nat
  er_op_counts :: "nat list"
  er_branch_taken :: nat
  er_branch_not_taken :: nat
  er_call_count :: nat
  er_max_value_index :: nat
  er_max_local_index :: nat
  er_max_pc :: nat

text \<open>\<open>vm_vals\<close> pairs the arrays \<open>values[]\<close> and \<open>known[]\<close>.\<close>

record vm_state =
  vm_vals :: "i64 option list"
  vm_locals :: "i64 list"
  vm_heap :: "i64 \<rightharpoonup> i64"
  vm_pc :: nat
  vm_prof :: ny_nir_eval_result

text \<open>
  \<open>VmFault\<close> is an access outside the modelled memory: a dereference of an address that is neither
  a local nor a heap cell, or a write to \<open>values[dst]\<close> with \<open>dst\<close> outside the array.
\<close>

datatype vm_error =
  VmRejected nir_error
| VmInvalidValueCount
| VmStepLimit
| VmMissingValue nat
| VmBadLocal nat
| VmMissingLabel nat
| VmUnsupported nat
| VmNoResolver nat
| VmTooManyArgs nat
| VmCallFailed string
| VmFault nat

datatype step_result = Next vm_state | Done vm_state

definition empty_result :: ny_nir_eval_result where
  "empty_result =
     \<lparr>er_returned = False, er_result = 0, er_steps = 0, er_op_counts = replicate 44 0,
      er_branch_taken = 0, er_branch_not_taken = 0, er_call_count = 0, er_max_value_index = 0,
      er_max_local_index = 0, er_max_pc = 0\<rparr>"

section \<open>Labels, values and memory\<close>

text \<open>The table of label positions: the index after the last label instruction of each number.\<close>

fun label_table :: "nat \<Rightarrow> ny_nir_inst list \<Rightarrow> (i64 \<rightharpoonup> nat)" where
  "label_table k [] = Map.empty"
| "label_table k (i # rest) =
     (if i_op i = NY_NIR_LABEL \<and> sint (i_imm i) \<ge> 0
      then Map.empty(i_imm i \<mapsto> Suc k) ++ label_table (Suc k) rest
      else label_table (Suc k) rest)"

definition label_pc :: "ny_nir_func \<Rightarrow> i64 \<Rightarrow> nat option" where
  "label_pc f l = label_table 0 (fn_data f) l"

text \<open>The unused linear search that the table replaced.\<close>

fun find_label_from :: "nat \<Rightarrow> ny_nir_inst list \<Rightarrow> i64 \<Rightarrow> nat option" where
  "find_label_from k [] label = None"
| "find_label_from k (i # rest) label =
     (if i_op i = NY_NIR_LABEL \<and> i_imm i = label then Some (Suc k)
      else find_label_from (Suc k) rest label)"

definition ny_nir_eval_find_label :: "ny_nir_func \<Rightarrow> i64 \<Rightarrow> nat option" where
  "ny_nir_eval_find_label f label = find_label_from 0 (fn_data f) label"

definition ny_nir_eval_read_value :: "vm_state \<Rightarrow> int \<Rightarrow> i64 option" where
  "ny_nir_eval_read_value s v = tab_get (vm_vals s) v"

definition ny_nir_eval_note_value :: "int \<Rightarrow> vm_state \<Rightarrow> vm_state" where
  "ny_nir_eval_note_value v s =
     (if 0 \<le> v \<and> nat v > er_max_value_index (vm_prof s)
      then s\<lparr>vm_prof := (vm_prof s)\<lparr>er_max_value_index := nat v\<rparr>\<rparr> else s)"

definition ny_nir_eval_note_local :: "i64 \<Rightarrow> vm_state \<Rightarrow> vm_state" where
  "ny_nir_eval_note_local l s =
     (if 0 \<le> sint l \<and> unat l > er_max_local_index (vm_prof s)
      then s\<lparr>vm_prof := (vm_prof s)\<lparr>er_max_local_index := unat l\<rparr>\<rparr> else s)"

text \<open>\<open>values[dst] = v; known[dst] = true\<close>, at instruction \<open>k\<close>.\<close>

definition write_value :: "nat \<Rightarrow> vm_state \<Rightarrow> int \<Rightarrow> i64 \<Rightarrow> vm_error + step_result" where
  "write_value k s dst v =
     (if 0 \<le> dst \<and> nat dst < length (vm_vals s)
      then Inr (Next ((ny_nir_eval_note_value dst s)\<lparr>vm_vals := (vm_vals s)[nat dst := Some v]\<rparr>))
      else Inl (VmFault k))"

definition local_addr :: "vm_env \<Rightarrow> nat \<Rightarrow> i64" where
  "local_addr env n = env_lbase env + of_nat (8 * n)"

text \<open>The local whose slot is at an address.\<close>

definition addr_local :: "vm_env \<Rightarrow> vm_state \<Rightarrow> i64 \<Rightarrow> nat option" where
  "addr_local env s p = find (\<lambda>n. local_addr env n = p) [0..<length (vm_locals s)]"

definition mem_load :: "vm_env \<Rightarrow> vm_state \<Rightarrow> i64 \<Rightarrow> i64 option" where
  "mem_load env s p =
     (case addr_local env s p of
        Some n \<Rightarrow> Some (vm_locals s ! n)
      | None \<Rightarrow> vm_heap s p)"

definition mem_store :: "vm_env \<Rightarrow> vm_state \<Rightarrow> i64 \<Rightarrow> i64 \<Rightarrow> vm_state option" where
  "mem_store env s p v =
     (case addr_local env s p of
        Some n \<Rightarrow> Some (s\<lparr>vm_locals := (vm_locals s)[n := v]\<rparr>)
      | None \<Rightarrow>
          (case vm_heap s p of
             None \<Rightarrow> None
           | Some old \<Rightarrow> Some (s\<lparr>vm_heap := (vm_heap s)(p \<mapsto> v)\<rparr>)))"

section \<open>Executing one instruction\<close>

text \<open>
  Each routine executes the instruction \<open>i\<close> at index \<open>k\<close> in a state whose program counter is
  already \<open>k + 1\<close>.
\<close>

definition exec_const :: "nat \<Rightarrow> ny_nir_inst \<Rightarrow> vm_state \<Rightarrow> vm_error + step_result" where
  "exec_const k i s =
     (if i_dst i \<ge> 0 then write_value k s (i_dst i) (i_imm i) else Inr (Next s))"

text \<open>\<open>ny_nir_f32_to_bits\<close> zero-extends the 32-bit pattern, \<open>ny_nir_bits_to_f32\<close> truncates to it.\<close>

definition ny_nir_f32_to_bits :: "u32 \<Rightarrow> i64" where
  "ny_nir_f32_to_bits v = ucast v"

definition ny_nir_bits_to_f32 :: "i64 \<Rightarrow> u32" where
  "ny_nir_bits_to_f32 b = ucast b"

definition convert_value :: "fp_ops \<Rightarrow> ny_nir_op \<Rightarrow> i64 \<Rightarrow> i64" where
  "convert_value fp op a =
     (if op = NYIR_I64_TO_F64 then fp_i64_to_f64 fp a
      else if op = NYIR_I64_TO_F32 then ny_nir_f32_to_bits (fp_i64_to_f32 fp a)
      else if op = NYIR_F64_TO_F32 then ny_nir_f32_to_bits (fp_f64_to_f32 fp a)
      else if op = NYIR_F32_TO_F64 then fp_f32_to_f64 fp (ny_nir_bits_to_f32 a)
      else a)"

definition exec_unary :: "vm_env \<Rightarrow> nat \<Rightarrow> ny_nir_inst \<Rightarrow> vm_state \<Rightarrow> vm_error + step_result" where
  "exec_unary env k i s =
     (case ny_nir_eval_read_value s (i_a i) of
        None \<Rightarrow> Inl (VmMissingValue k)
      | Some a \<Rightarrow> write_value k s (i_dst i) (convert_value (env_fp env) (i_op i) a))"

definition exec_load :: "vm_env \<Rightarrow> nat \<Rightarrow> ny_nir_inst \<Rightarrow> vm_state \<Rightarrow> vm_error + step_result" where
  "exec_load env k i s =
     (case ny_nir_eval_read_value s (i_a i) of
        None \<Rightarrow> Inl (VmMissingValue k)
      | Some a \<Rightarrow>
          if a = 0 then Inl (VmUnsupported k)
          else (case mem_load env s a of
                  None \<Rightarrow> Inl (VmFault k)
                | Some v \<Rightarrow> write_value k s (i_dst i) v))"

definition local_in_range :: "ny_nir_inst \<Rightarrow> vm_state \<Rightarrow> bool" where
  "local_in_range i s \<longleftrightarrow> 0 \<le> sint (i_imm i) \<and> unat (i_imm i) < length (vm_locals s)"

definition exec_addr_local ::
  "vm_env \<Rightarrow> nat \<Rightarrow> ny_nir_inst \<Rightarrow> vm_state \<Rightarrow> vm_error + step_result" where
  "exec_addr_local env k i s =
     (if \<not> local_in_range i s then Inl (VmBadLocal k)
      else write_value k (ny_nir_eval_note_local (i_imm i) s) (i_dst i)
             (local_addr env (unat (i_imm i))))"

definition exec_store :: "vm_env \<Rightarrow> nat \<Rightarrow> ny_nir_inst \<Rightarrow> vm_state \<Rightarrow> vm_error + step_result" where
  "exec_store env k i s =
     (case (ny_nir_eval_read_value s (i_a i), ny_nir_eval_read_value s (i_c i)) of
        (Some a, Some v) \<Rightarrow>
          if a = 0 then Inl (VmUnsupported k)
          else (case mem_store env s a v of
                  None \<Rightarrow> Inl (VmFault k)
                | Some s' \<Rightarrow> Inr (Next s'))
      | _ \<Rightarrow> Inl (VmMissingValue k))"

definition exec_load_local :: "nat \<Rightarrow> ny_nir_inst \<Rightarrow> vm_state \<Rightarrow> vm_error + step_result" where
  "exec_load_local k i s =
     (if \<not> local_in_range i s then Inl (VmBadLocal k)
      else write_value k (ny_nir_eval_note_local (i_imm i) s) (i_dst i)
             (vm_locals s ! unat (i_imm i)))"

definition exec_store_local :: "nat \<Rightarrow> ny_nir_inst \<Rightarrow> vm_state \<Rightarrow> vm_error + step_result" where
  "exec_store_local k i s =
     (if \<not> local_in_range i s then Inl (VmBadLocal k)
      else (case ny_nir_eval_read_value s (i_a i) of
              None \<Rightarrow> Inl (VmMissingValue k)
            | Some a \<Rightarrow>
                Inr (Next ((ny_nir_eval_note_local (i_imm i) s)
                       \<lparr>vm_locals := (vm_locals s)[unat (i_imm i) := a]\<rparr>))))"

fun fp_cmp :: "('w \<Rightarrow> 'w \<Rightarrow> bool) \<Rightarrow> ('w \<Rightarrow> 'w \<Rightarrow> bool) \<Rightarrow> ('w \<Rightarrow> 'w \<Rightarrow> bool) \<Rightarrow>
    ny_nir_cmp \<Rightarrow> 'w \<Rightarrow> 'w \<Rightarrow> i64 option" where
  "fp_cmp eq lt le NY_NIR_CMP_EQ x y = Some (bit_of (eq x y))"
| "fp_cmp eq lt le NY_NIR_CMP_NE x y = Some (bit_of (\<not> eq x y))"
| "fp_cmp eq lt le NY_NIR_CMP_LT x y = Some (bit_of (lt x y))"
| "fp_cmp eq lt le NY_NIR_CMP_LE x y = Some (bit_of (le x y))"
| "fp_cmp eq lt le NY_NIR_CMP_GT x y = Some (bit_of (lt y x))"
| "fp_cmp eq lt le NY_NIR_CMP_GE x y = Some (bit_of (le y x))"
| "fp_cmp eq lt le (NY_NIR_CMP_OTHER n) x y = None"

definition compare_values :: "fp_ops \<Rightarrow> ny_nir_op \<Rightarrow> ny_nir_cmp \<Rightarrow> i64 \<Rightarrow> i64 \<Rightarrow> i64 option" where
  "compare_values fp op cmp a b =
     (if op = NYIR_CMP_F64 then fp_cmp (fp_eq64 fp) (fp_lt64 fp) (fp_le64 fp) cmp a b
      else if op = NYIR_CMP_F32
      then fp_cmp (fp_eq32 fp) (fp_lt32 fp) (fp_le32 fp) cmp
             (ny_nir_bits_to_f32 a) (ny_nir_bits_to_f32 b)
      else ny_nir_analyze_cmp_fold cmp a b)"

definition float_arith :: "fp_ops \<Rightarrow> ny_nir_op \<Rightarrow> i64 \<Rightarrow> i64 \<Rightarrow> i64 option" where
  "float_arith fp op a b =
     (let x = ny_nir_bits_to_f32 a; y = ny_nir_bits_to_f32 b in
      case op of
        NYIR_ADD_F64 \<Rightarrow> Some (fp_add64 fp a b)
      | NYIR_SUB_F64 \<Rightarrow> Some (fp_sub64 fp a b)
      | NYIR_MUL_F64 \<Rightarrow> Some (fp_mul64 fp a b)
      | NYIR_DIV_F64 \<Rightarrow> Some (fp_div64 fp a b)
      | NYIR_ADD_F32 \<Rightarrow> Some (ny_nir_f32_to_bits (fp_add32 fp x y))
      | NYIR_SUB_F32 \<Rightarrow> Some (ny_nir_f32_to_bits (fp_sub32 fp x y))
      | NYIR_MUL_F32 \<Rightarrow> Some (ny_nir_f32_to_bits (fp_mul32 fp x y))
      | NYIR_DIV_F32 \<Rightarrow> Some (ny_nir_f32_to_bits (fp_div32 fp x y))
      | _ \<Rightarrow> None)"

text \<open>Reading two operands and combining them: comparisons, integer and float arithmetic.\<close>

definition exec_binary ::
  "(i64 \<Rightarrow> i64 \<Rightarrow> i64 option) \<Rightarrow> nat \<Rightarrow> ny_nir_inst \<Rightarrow> vm_state \<Rightarrow> vm_error + step_result" where
  "exec_binary g k i s =
     (case (ny_nir_eval_read_value s (i_a i), ny_nir_eval_read_value s (i_b i)) of
        (Some a, Some b) \<Rightarrow>
          (case g a b of
             None \<Rightarrow> Inl (VmUnsupported k)
           | Some v \<Rightarrow> write_value k s (i_dst i) v)
      | _ \<Rightarrow> Inl (VmMissingValue k))"

definition exec_br :: "ny_nir_func \<Rightarrow> nat \<Rightarrow> ny_nir_inst \<Rightarrow> vm_state \<Rightarrow> vm_error + step_result" where
  "exec_br f k i s =
     (case label_pc f (i_imm i) of
        None \<Rightarrow> Inl (VmMissingLabel k)
      | Some p \<Rightarrow> Inr (Next (s\<lparr>vm_pc := p\<rparr>)))"

definition note_branch :: "bool \<Rightarrow> vm_state \<Rightarrow> vm_state" where
  "note_branch taken s =
     s\<lparr>vm_prof :=
         (if taken
          then (vm_prof s)\<lparr>er_branch_taken := Suc (er_branch_taken (vm_prof s))\<rparr>
          else (vm_prof s)\<lparr>er_branch_not_taken := Suc (er_branch_not_taken (vm_prof s))\<rparr>)\<rparr>"

definition exec_br_if :: "ny_nir_func \<Rightarrow> nat \<Rightarrow> ny_nir_inst \<Rightarrow> vm_state \<Rightarrow> vm_error + step_result" where
  "exec_br_if f k i s =
     (case ny_nir_eval_read_value s (i_a i) of
        None \<Rightarrow> Inl (VmMissingValue k)
      | Some a \<Rightarrow>
          if a \<noteq> 0 then exec_br f k i (note_branch True s)
          else Inr (Next (note_branch False s)))"

definition exec_ret :: "nat \<Rightarrow> nat \<Rightarrow> ny_nir_inst \<Rightarrow> vm_state \<Rightarrow> vm_error + step_result" where
  "exec_ret steps k i s =
     (let s1 = s\<lparr>vm_prof := (vm_prof s)\<lparr>er_returned := True, er_steps := steps\<rparr>\<rparr> in
      if i_a i \<ge> 0 then
        (case ny_nir_eval_read_value s (i_a i) of
           None \<Rightarrow> Inl (VmMissingValue k)
         | Some a \<Rightarrow> Inr (Done (s1\<lparr>vm_prof := (vm_prof s1)\<lparr>er_result := a\<rparr>\<rparr>)))
      else Inr (Done s1))"

fun read_values :: "vm_state \<Rightarrow> int list \<Rightarrow> i64 list option" where
  "read_values s [] = Some []"
| "read_values s (v # vs) =
     (case ny_nir_eval_read_value s v of
        None \<Rightarrow> None
      | Some x \<Rightarrow> map_option (Cons x) (read_values s vs))"

definition exec_call :: "vm_env \<Rightarrow> nat \<Rightarrow> ny_nir_inst \<Rightarrow> vm_state \<Rightarrow> vm_error + step_result" where
  "exec_call env k i s0 =
     (let s = s0\<lparr>vm_prof := (vm_prof s0)\<lparr>er_call_count := Suc (er_call_count (vm_prof s0))\<rparr>\<rparr> in
      case env_resolver env of
        None \<Rightarrow> Inl (VmNoResolver k)
      | Some resolver \<Rightarrow>
          if sint (i_imm i) < 0 \<or> sint (i_imm i) > int NY_NIR_CALL_MAX_ARGS
          then Inl (VmTooManyArgs k)
          else (case read_values s (map (call_operand i) [0..<unat (i_imm i)]) of
                  None \<Rightarrow> Inl (VmMissingValue k)
                | Some args \<Rightarrow>
                    (case resolver (i_symbol i) args (vm_locals s, vm_heap s) of
                       Inl msg \<Rightarrow> Inl (VmCallFailed msg)
                     | Inr (out, ls, h) \<Rightarrow>
                         let s' = s\<lparr>vm_locals := ls, vm_heap := h\<rparr> in
                         if i_dst i \<ge> 0 then write_value k s' (i_dst i) out
                         else Inr (Next s'))))"

text \<open>The switch of the machine's loop.\<close>

definition exec_inst ::
  "vm_env \<Rightarrow> ny_nir_func \<Rightarrow> nat \<Rightarrow> nat \<Rightarrow> ny_nir_inst \<Rightarrow> vm_state \<Rightarrow> vm_error + step_result" where
  "exec_inst env f steps k i s =
     (case i_op i of
        NY_NIR_NOP \<Rightarrow> Inr (Next s)
      | NY_NIR_LABEL \<Rightarrow> Inr (Next s)
      | NY_NIR_CONST_I64 \<Rightarrow> exec_const k i s
      | NYIR_CONST_F64 \<Rightarrow> exec_const k i s
      | NYIR_CONST_F32 \<Rightarrow> exec_const k i s
      | NY_NIR_COPY \<Rightarrow> exec_unary env k i s
      | NYIR_I64_TO_F64 \<Rightarrow> exec_unary env k i s
      | NYIR_I64_TO_F32 \<Rightarrow> exec_unary env k i s
      | NYIR_F64_TO_F32 \<Rightarrow> exec_unary env k i s
      | NYIR_F32_TO_F64 \<Rightarrow> exec_unary env k i s
      | NYIR_LOAD_I64 \<Rightarrow> exec_load env k i s
      | NYIR_ADDR_LOCAL \<Rightarrow> exec_addr_local env k i s
      | NYIR_ADDR_SYMBOL \<Rightarrow> Inl (VmUnsupported k)
      | NYIR_ALLOCA \<Rightarrow> Inl (VmUnsupported k)
      | NYIR_COPY_STRUCT \<Rightarrow> Inl (VmUnsupported k)
      | NYIR_CAPTURE_RET \<Rightarrow> Inl (VmUnsupported k)
      | NYIR_STORE_I64 \<Rightarrow> exec_store env k i s
      | NY_NIR_LOAD_LOCAL \<Rightarrow> exec_load_local k i s
      | NY_NIR_STORE_LOCAL \<Rightarrow> exec_store_local k i s
      | NY_NIR_CMP_I64 \<Rightarrow> exec_binary (compare_values (env_fp env) (i_op i) (i_cmp i)) k i s
      | NYIR_CMP_F64 \<Rightarrow> exec_binary (compare_values (env_fp env) (i_op i) (i_cmp i)) k i s
      | NYIR_CMP_F32 \<Rightarrow> exec_binary (compare_values (env_fp env) (i_op i) (i_cmp i)) k i s
      | NY_NIR_ADD_I64 \<Rightarrow> exec_binary (ny_nir_analyze_binary_fold (i_op i)) k i s
      | NY_NIR_SUB_I64 \<Rightarrow> exec_binary (ny_nir_analyze_binary_fold (i_op i)) k i s
      | NY_NIR_MUL_I64 \<Rightarrow> exec_binary (ny_nir_analyze_binary_fold (i_op i)) k i s
      | NY_NIR_DIV_I64 \<Rightarrow> exec_binary (ny_nir_analyze_binary_fold (i_op i)) k i s
      | NY_NIR_MOD_I64 \<Rightarrow> exec_binary (ny_nir_analyze_binary_fold (i_op i)) k i s
      | NY_NIR_AND_I64 \<Rightarrow> exec_binary (ny_nir_analyze_binary_fold (i_op i)) k i s
      | NY_NIR_OR_I64 \<Rightarrow> exec_binary (ny_nir_analyze_binary_fold (i_op i)) k i s
      | NY_NIR_XOR_I64 \<Rightarrow> exec_binary (ny_nir_analyze_binary_fold (i_op i)) k i s
      | NY_NIR_SHL_I64 \<Rightarrow> exec_binary (ny_nir_analyze_binary_fold (i_op i)) k i s
      | NY_NIR_SAR_I64 \<Rightarrow> exec_binary (ny_nir_analyze_binary_fold (i_op i)) k i s
      | NYIR_ADD_F64 \<Rightarrow> exec_binary (float_arith (env_fp env) (i_op i)) k i s
      | NYIR_SUB_F64 \<Rightarrow> exec_binary (float_arith (env_fp env) (i_op i)) k i s
      | NYIR_MUL_F64 \<Rightarrow> exec_binary (float_arith (env_fp env) (i_op i)) k i s
      | NYIR_DIV_F64 \<Rightarrow> exec_binary (float_arith (env_fp env) (i_op i)) k i s
      | NYIR_ADD_F32 \<Rightarrow> exec_binary (float_arith (env_fp env) (i_op i)) k i s
      | NYIR_SUB_F32 \<Rightarrow> exec_binary (float_arith (env_fp env) (i_op i)) k i s
      | NYIR_MUL_F32 \<Rightarrow> exec_binary (float_arith (env_fp env) (i_op i)) k i s
      | NYIR_DIV_F32 \<Rightarrow> exec_binary (float_arith (env_fp env) (i_op i)) k i s
      | NY_NIR_BR \<Rightarrow> exec_br f k i s
      | NY_NIR_BR_IF \<Rightarrow> exec_br_if f k i s
      | NY_NIR_RET \<Rightarrow> exec_ret steps k i s
      | NY_NIR_CALL \<Rightarrow> exec_call env k i s
      | NYIR_OP_COUNT \<Rightarrow> Inl (VmUnsupported k))"

text \<open>One turn of the loop: the profile is updated and the program counter advanced first.\<close>

definition fetch :: "vm_state \<Rightarrow> ny_nir_op \<Rightarrow> vm_state" where
  "fetch s op =
     (let p = vm_prof s;
          p1 = p\<lparr>er_max_pc := max (vm_pc s) (er_max_pc p)\<rparr>;
          c = op_code op;
          p2 = (if c < 44 then p1\<lparr>er_op_counts := (er_op_counts p1)[c := Suc (er_op_counts p1 ! c)]\<rparr>
                else p1)
      in s\<lparr>vm_pc := Suc (vm_pc s), vm_prof := p2\<rparr>)"

definition eval_step ::
  "vm_env \<Rightarrow> ny_nir_func \<Rightarrow> nat \<Rightarrow> vm_state \<Rightarrow> vm_error + step_result" where
  "eval_step env f steps s =
     (let k = vm_pc s; i = fn_data f ! k in exec_inst env f steps k i (fetch s (i_op i)))"

text \<open>
  The loop. The counter \<open>left\<close> is \<open>max_steps - steps\<close>: the turn that would exceed the limit fails.
\<close>

fun eval_loop ::
  "vm_env \<Rightarrow> ny_nir_func \<Rightarrow> nat \<Rightarrow> nat \<Rightarrow> vm_state \<Rightarrow> vm_error + vm_state" where
  "eval_loop env f steps left s =
     (if vm_pc s < fn_len f then
        (case left of
           0 \<Rightarrow> Inl VmStepLimit
         | Suc left' \<Rightarrow>
             (case eval_step env f (Suc steps) s of
                Inl e \<Rightarrow> Inl e
              | Inr (Done s') \<Rightarrow> Inr s'
              | Inr (Next s') \<Rightarrow> eval_loop env f (Suc steps) left' s'))
      else Inr (s\<lparr>vm_prof := (vm_prof s)\<lparr>er_steps := steps\<rparr>\<rparr>))"

definition init_state :: "ny_nir_func \<Rightarrow> i64 list \<Rightarrow> (i64 \<rightharpoonup> i64) \<Rightarrow> vm_state" where
  "init_state f ls h =
     \<lparr>vm_vals = empty_tab f, vm_locals = ls, vm_heap = h, vm_pc = 0, vm_prof = empty_result\<rparr>"

definition step_budget :: "nat \<Rightarrow> nat" where
  "step_budget max_steps = (if max_steps = 0 then 1000000 else max_steps)"

text \<open>
  The machine after the verifier, and the whole of \<open>ny_nir_eval_with_calls\<close>: the final state
  holds the profile (\<open>result\<close>), the locals and the heap.
\<close>

definition eval_run ::
  "vm_env \<Rightarrow> ny_nir_func \<Rightarrow> i64 list \<Rightarrow> (i64 \<rightharpoonup> i64) \<Rightarrow> nat \<Rightarrow> vm_error + vm_state" where
  "eval_run env f ls h max_steps = eval_loop env f 0 (step_budget max_steps) (init_state f ls h)"

definition ny_nir_eval_with_calls ::
  "vm_env \<Rightarrow> ny_nir_func \<Rightarrow> i64 list \<Rightarrow> (i64 \<rightharpoonup> i64) \<Rightarrow> nat \<Rightarrow> vm_error + vm_state" where
  "ny_nir_eval_with_calls env f ls h max_steps =
     (case ny_nir_verify f of
        Some e \<Rightarrow> Inl (VmRejected e)
      | None \<Rightarrow>
          if fn_next_value f < 0 then Inl VmInvalidValueCount
          else eval_run env f ls h max_steps)"

definition ny_nir_eval ::
  "vm_env \<Rightarrow> ny_nir_func \<Rightarrow> i64 list \<Rightarrow> (i64 \<rightharpoonup> i64) \<Rightarrow> nat \<Rightarrow> vm_error + vm_state" where
  "ny_nir_eval env f ls h max_steps =
     ny_nir_eval_with_calls (env\<lparr>env_resolver := None\<rparr>) f ls h max_steps"

declare eval_loop.simps [simp del]

end
