(* ===== verification/Nyir_Verify_Facts.thy ===== *)
theory Nyir_Verify_Facts
  imports Nyir_Verify
begin

text \<open>
  What acceptance by \<open>ny_nir_verify\<close> means: every instruction passes its checks against the values
  defined by the instructions before it, so destinations are unique, operands are defined earlier
  in the instruction list, labels are unique and branch targets exist.
\<close>

section \<open>Tables\<close>

lemma length_tab_set [simp]: "length (tab_set t v x) = length t"
  by (simp add: tab_set_def)

lemma tab_get_tab_set:
  "tab_get (tab_set t d x) v = (if v = d \<and> 0 \<le> d \<and> nat d < length t then x else tab_get t v)"
  by (auto simp: tab_get_def tab_set_def nth_list_update)

lemma tab_get_same [simp]: "0 \<le> d \<Longrightarrow> nat d < length t \<Longrightarrow> tab_get (tab_set t d x) d = x"
  by (simp add: tab_get_tab_set)

lemma tab_get_empty [simp]: "tab_get (empty_tab f) v = None"
  by (simp add: tab_get_def empty_tab_def)

lemma tab_get_neg [simp]: "v < 0 \<Longrightarrow> tab_get t v = None"
  by (simp add: tab_get_def)

lemma tab_get_SomeD: "tab_get t v = Some x \<Longrightarrow> 0 \<le> v \<and> nat v < length t"
  by (auto simp: tab_get_def split: if_splits)

lemma length_empty_tab [simp]: "length (empty_tab f) = nat (fn_next_value f)"
  by (simp add: empty_tab_def)

section \<open>The verifier's loop\<close>

text \<open>The table \<open>defined[]\<close> when the loop reaches instruction \<open>k\<close>.\<close>

definition dfn_at :: "ny_nir_func \<Rightarrow> nat \<Rightarrow> bool list" where
  "dfn_at f k = foldl mark_defined (replicate (nat (fn_next_value f)) False) (take k (fn_data f))"

definition defined_before :: "ny_nir_func \<Rightarrow> nat \<Rightarrow> int \<Rightarrow> bool" where
  "defined_before f k v \<longleftrightarrow> 0 \<le> v \<and> (\<exists>j<k. j < fn_len f \<and> i_dst (fn_data f ! j) = v)"

lemma verify_loop_None_iff:
  "verify_loop f dfn k is = None \<longleftrightarrow>
     (\<forall>j<length is. verify_inst f (foldl mark_defined dfn (take j is)) (k + j) (is ! j) = None)"
proof (induction f dfn k "is" rule: verify_loop.induct)
  case (1 f dfn k)
  then show ?case by simp
next
  case (2 f dfn k i rest)
  have "(\<forall>j<length (i # rest).
          verify_inst f (foldl mark_defined dfn (take j (i # rest))) (k + j) ((i # rest) ! j) = None) \<longleftrightarrow>
        verify_inst f dfn k i = None \<and>
        (\<forall>j<length rest. verify_inst f (foldl mark_defined (mark_defined dfn i) (take j rest))
           (Suc k + j) (rest ! j) = None)"
    by (simp add: All_less_Suc2)
  then show ?case
    using 2 by (auto split: option.splits)
qed


lemma length_foldl_mark [simp]: "length (foldl mark_defined dfn is) = length dfn"
  by (induction "is" arbitrary: dfn) (simp_all add: mark_defined_def)

lemma length_dfn_at [simp]: "length (dfn_at f k) = nat (fn_next_value f)"
  by (simp add: dfn_at_def)

lemma foldl_mark_nth:
  "n < length dfn \<Longrightarrow>
   foldl mark_defined dfn is ! n \<longleftrightarrow> dfn ! n \<or> (\<exists>i \<in> set is. i_dst i = int n)"
proof (induction "is" arbitrary: dfn)
  case Nil
  then show ?case by simp
next
  case (Cons i rest)
  have "mark_defined dfn i ! n \<longleftrightarrow> dfn ! n \<or> i_dst i = int n"
    using Cons.prems by (cases "nat (i_dst i) = n") (auto simp: mark_defined_def)
  then show ?case
    using Cons.IH [of "mark_defined dfn i"] Cons.prems
    by (auto simp: mark_defined_def)
qed

lemma bex_set_take: "(\<exists>x \<in> set (take k xs). P x) \<longleftrightarrow> (\<exists>j<k. j < length xs \<and> P (xs ! j))"
  by (metis in_set_conv_nth length_take min_less_iff_conj nth_take)

lemma dfn_at_iff:
  assumes "nir_value_valid f v"
  shows "dfn_at f k ! nat v \<longleftrightarrow> defined_before f k v"
proof -
  have "nat v < nat (fn_next_value f)" "int (nat v) = v"
    using assms by (auto simp: nir_value_valid_def)
  then show ?thesis
    using assms by (auto simp: dfn_at_def foldl_mark_nth bex_set_take defined_before_def nir_value_valid_def)
qed

lemma value_defined_dfn_at:
  "nir_value_defined f (dfn_at f k) v \<longleftrightarrow> nir_value_valid f v \<and> defined_before f k v"
  by (auto simp: nir_value_defined_def dfn_at_iff nir_value_valid_def)

lemma defined_before_mono: "defined_before f j v \<Longrightarrow> j \<le> k \<Longrightarrow> defined_before f k v"
  using order_less_le_trans by (fastforce simp: defined_before_def)

section \<open>Consequences of acceptance\<close>

lemma verified_next_value: "verified f \<Longrightarrow> 0 \<le> fn_next_value f"
  by (auto simp: ny_nir_verify_def split: if_splits)

lemma verified_constraints: "verified f \<Longrightarrow> ny_nir_validate_constraints f = None"
  by (auto simp: ny_nir_verify_def split: if_splits option.splits)

lemma verified_inst:
  assumes "verified f" "k < fn_len f"
  shows "verify_inst f (dfn_at f k) k (fn_data f ! k) = None"
proof -
  have "verify_loop f (replicate (nat (fn_next_value f)) False) 0 (fn_data f) = None"
    using assms(1) by (auto simp: ny_nir_verify_def split: if_splits option.splits)
  then show ?thesis
    using assms(2) by (simp add: verify_loop_None_iff dfn_at_def)
qed

lemma verified_common:
  assumes "verified f" "k < fn_len f"
  shows "first_fail (verify_common f (dfn_at f k) (fn_data f ! k)) = None"
  using verified_inst [OF assms] by (simp add: verify_inst_def first_fail_append split: option.splits)

lemma verified_switch:
  assumes "verified f" "k < fn_len f"
  shows "first_fail (verify_switch f (dfn_at f k) k (fn_data f ! k)) = None"
  using verified_inst [OF assms] by (simp add: verify_inst_def first_fail_append split: option.splits)

lemma verified_dst_less:
  "verified f \<Longrightarrow> k < fn_len f \<Longrightarrow> i_dst (fn_data f ! k) < fn_next_value f"
  using verified_common [of f k] by (auto simp: verify_common_def split: if_splits)

lemma verified_op: "verified f \<Longrightarrow> k < fn_len f \<Longrightarrow> i_op (fn_data f ! k) \<noteq> NYIR_OP_COUNT"
  using verified_common [of f k] by (auto simp: verify_common_def split: if_splits)

lemma verified_effects:
  "verified f \<Longrightarrow> k < fn_len f \<Longrightarrow> i_effects (fn_data f ! k) = ny_nir_inst_effects (fn_data f ! k)"
  using verified_common [of f k] by (auto simp: verify_common_def split: if_splits)

lemma verified_arg_sizes:
  "verified f \<Longrightarrow> k < fn_len f \<Longrightarrow> i_op (fn_data f ! k) \<noteq> NY_NIR_CALL \<Longrightarrow>
   i_arg_sizes (fn_data f ! k) = None"
  using verified_common [of f k] by (auto simp: verify_common_def split: if_splits)

lemma verified_range_flags:
  "verified f \<Longrightarrow> k < fn_len f \<Longrightarrow>
   has_min (i_range (fn_data f ! k)) = has_max (i_range (fn_data f ! k))"
  using verified_common [of f k] by (auto simp: verify_common_def split: if_splits)

lemma verified_dst_fresh:
  assumes "verified f" "k < fn_len f" "0 \<le> i_dst (fn_data f ! k)"
  shows "\<not> defined_before f k (i_dst (fn_data f ! k))"
proof -
  have v: "nir_value_valid f (i_dst (fn_data f ! k))"
    using assms verified_dst_less by (auto simp: nir_value_valid_def)
  have "\<not> dfn_at f k ! nat (i_dst (fn_data f ! k))"
    using verified_common [OF assms(1,2)] assms(3) v
    by (auto simp: verify_common_def nir_value_valid_def split: if_splits)
  then show ?thesis
    using v by (simp add: dfn_at_iff)
qed

lemma verified_dst_unique:
  assumes "verified f" "j < fn_len f" "k < fn_len f"
    "i_dst (fn_data f ! j) = i_dst (fn_data f ! k)" "0 \<le> i_dst (fn_data f ! k)"
  shows "j = k"
  using verified_dst_fresh [of f j] verified_dst_fresh [of f k] assms
  unfolding defined_before_def by (metis nat_neq_iff)

lemma verified_label_unique:
  assumes "verified f" "j < fn_len f" "k < fn_len f"
    "i_op (fn_data f ! j) = NY_NIR_LABEL" "i_op (fn_data f ! k) = NY_NIR_LABEL"
    "i_imm (fn_data f ! j) = i_imm (fn_data f ! k)"
  shows "j = k"
proof -
  have "\<not> j' < k'"
    if "k' < fn_len f" "i_op (fn_data f ! j') = NY_NIR_LABEL" "i_op (fn_data f ! k') = NY_NIR_LABEL"
      "i_imm (fn_data f ! j') = i_imm (fn_data f ! k')" for j' k'
    using verified_switch [OF assms(1) that(1)] that
    by (simp add: verify_switch_def bex_set_take split: if_splits) (metis order_less_trans)
  then show ?thesis
    using assms by (metis nat_neq_iff)
qed

lemma verified_branch_target:
  assumes "verified f" "k < fn_len f"
    "i_op (fn_data f ! k) = NY_NIR_BR \<or> i_op (fn_data f ! k) = NY_NIR_BR_IF"
  shows "\<exists>j < fn_len f. i_op (fn_data f ! j) = NY_NIR_LABEL \<and>
           i_imm (fn_data f ! j) = i_imm (fn_data f ! k)"
proof -
  have "nir_label_exists f (i_imm (fn_data f ! k))"
    using verified_switch [OF assms(1,2)] assms(3)
    by (auto simp: verify_switch_def split: if_splits)
  then show ?thesis
    unfolding nir_label_exists_def by (metis in_set_conv_nth)
qed


section \<open>The values an instruction reads\<close>

text \<open>The operands the virtual machine reads when it executes an instruction.\<close>

definition inst_reads :: "ny_nir_inst \<Rightarrow> int list" where
  "inst_reads i =
     (case i_op i of
        NY_NIR_NOP \<Rightarrow> []
      | NY_NIR_LABEL \<Rightarrow> []
      | NY_NIR_CONST_I64 \<Rightarrow> []
      | NYIR_CONST_F64 \<Rightarrow> []
      | NYIR_CONST_F32 \<Rightarrow> []
      | NY_NIR_LOAD_LOCAL \<Rightarrow> []
      | NYIR_ADDR_LOCAL \<Rightarrow> []
      | NYIR_ADDR_SYMBOL \<Rightarrow> []
      | NYIR_ALLOCA \<Rightarrow> []
      | NYIR_COPY_STRUCT \<Rightarrow> []
      | NYIR_CAPTURE_RET \<Rightarrow> []
      | NY_NIR_BR \<Rightarrow> []
      | NYIR_OP_COUNT \<Rightarrow> []
      | NY_NIR_COPY \<Rightarrow> [i_a i]
      | NYIR_I64_TO_F64 \<Rightarrow> [i_a i]
      | NYIR_I64_TO_F32 \<Rightarrow> [i_a i]
      | NYIR_F64_TO_F32 \<Rightarrow> [i_a i]
      | NYIR_F32_TO_F64 \<Rightarrow> [i_a i]
      | NYIR_LOAD_I64 \<Rightarrow> [i_a i]
      | NY_NIR_STORE_LOCAL \<Rightarrow> [i_a i]
      | NY_NIR_BR_IF \<Rightarrow> [i_a i]
      | NY_NIR_RET \<Rightarrow> (if i_a i \<ge> 0 then [i_a i] else [])
      | NYIR_STORE_I64 \<Rightarrow> [i_a i, i_c i]
      | NY_NIR_CALL \<Rightarrow> map (call_operand i) [0..<unat (i_imm i)]
      | _ \<Rightarrow> [i_a i, i_b i])"

lemma verified_call_operands:
  assumes v: "verified f" and k: "k < fn_len f" and op: "i_op (fn_data f ! k) = NY_NIR_CALL"
    and n: "n < unat (i_imm (fn_data f ! k))"
    and len: "i_extra_args_len (fn_data f ! k) \<le> length (i_extra_args (fn_data f ! k))"
  shows "nir_value_valid f (call_operand (fn_data f ! k) n) \<and>
         defined_before f k (call_operand (fn_data f ! k) n)"
proof -
  let ?i = "fn_data f ! k"
  let ?def = "\<lambda>v. nir_value_defined f (dfn_at f k) v"
  have chk: "first_fail (verify_call f (dfn_at f k) ?i) = None"
    using verified_switch [OF v k] op by (simp add: verify_switch_def)
  have m: "0 \<le> sint (i_imm ?i)"
    using chk by (simp add: verify_call_def Let_def split: if_splits)
  then have imm: "int (unat (i_imm ?i)) = sint (i_imm ?i)"
    by (rule unat_of_nonneg)
  have "?def (call_operand ?i n)"
  proof (cases "n < 6")
    case True
    then have "n = 0 \<or> n = 1 \<or> n = 2 \<or> n = 3 \<or> n = 4 \<or> n = 5"
      by arith
    then show ?thesis
      using chk n imm
      by (elim disjE) (simp_all add: verify_call_def Let_def call_operand_def split: if_splits)
  next
    case False
    have el: "i_extra_args ?i \<noteq> []" "i_extra_args_len ?i = nat (sint (i_imm ?i) - 6)"
      using chk n imm False by (auto simp: verify_call_def Let_def split: if_splits)
    have all: "\<forall>x \<in> set (take (nat (sint (i_imm ?i) - 6)) (i_extra_args ?i)). ?def x"
      using chk n imm False by (auto simp: verify_call_def Let_def split: if_splits)
    have n6: "n - 6 < nat (sint (i_imm ?i) - 6)"
      using n imm False by linarith
    then have "i_extra_args ?i ! (n - 6) \<in> set (take (nat (sint (i_imm ?i) - 6)) (i_extra_args ?i))"
      using el len by (auto simp: in_set_conv_nth intro!: exI [of _ "n - 6"])
    then show ?thesis
      using all el n6 False by (simp add: call_operand_def)
  qed
  then show ?thesis
    by (simp add: value_defined_dfn_at)
qed

text \<open>The array of stack arguments has at least the length its length field says.\<close>

definition extra_args_ok :: "ny_nir_inst \<Rightarrow> bool" where
  "extra_args_ok i \<longleftrightarrow> i_extra_args_len i \<le> length (i_extra_args i)"

definition arrays_ok :: "ny_nir_func \<Rightarrow> bool" where
  "arrays_ok f \<longleftrightarrow> list_all extra_args_ok (fn_data f)"

lemma verified_reads:
  assumes v: "verified f" and k: "k < fn_len f" and x: "extra_args_ok (fn_data f ! k)"
    and r: "u \<in> set (inst_reads (fn_data f ! k))"
  shows "nir_value_valid f u \<and> defined_before f k u"
proof (cases "i_op (fn_data f ! k) = NY_NIR_CALL")
  case True
  then show ?thesis
    using r verified_call_operands [OF v k True] x
    by (auto simp: inst_reads_def extra_args_ok_def)
next
  case False
  then show ?thesis
    using verified_switch [OF v k] verified_op [OF v k] r
    by (cases "i_op (fn_data f ! k)")
       (auto simp: verify_switch_def verify_unary_def inst_reads_def value_defined_dfn_at
             split: if_splits)
qed

lemma arrays_okD: "arrays_ok f \<Longrightarrow> k < fn_len f \<Longrightarrow> extra_args_ok (fn_data f ! k)"
  by (simp add: arrays_ok_def list_all_length)

text \<open>A value that an instruction reads is not the destination of that or a later instruction.\<close>

lemma verified_reads_not_later:
  assumes f: "verified f" "arrays_ok f" and j: "j \<le> k" "k < fn_len f"
    and v: "v \<in> set (inst_reads (fn_data f ! j))"
  shows "i_dst (fn_data f ! k) \<noteq> v"
proof
  assume dst: "i_dst (fn_data f ! k) = v"
  have "defined_before f j v"
    using verified_reads [OF f(1) _ arrays_okD [OF f(2)] v] j by simp
  then have "defined_before f k v" "0 \<le> v"
    using defined_before_mono [OF _ j(1)] by (auto simp: defined_before_def)
  then show False
    using verified_dst_fresh [OF f(1) j(2)] dst by simp
qed

section \<open>Tables that a scan fills in\<close>

text \<open>
  A scan that changes, at instruction \<open>k\<close>, only the entry of the destination of \<open>k\<close> leaves the entry
  of a value alone before and after the one instruction that defines it.
\<close>

lemma ssa_stable:
  assumes "verified f" "j < fn_len f" "i_dst (fn_data f ! j) = v" "0 \<le> v"
    and frame: "\<And>k. k < fn_len f \<Longrightarrow> i_dst (fn_data f ! k) \<noteq> v \<Longrightarrow> T (Suc k) = T k"
  shows "Suc j \<le> k \<Longrightarrow> k \<le> fn_len f \<Longrightarrow> T k = T (Suc j)"
proof (induction k)
  case (Suc k)
  show ?case
  proof (cases "Suc j \<le> k")
    case True
    have "i_dst (fn_data f ! k) \<noteq> v"
      using verified_dst_unique [OF assms(1,2), of k] assms(3,4) Suc.prems True by auto
    then show ?thesis
      using Suc True frame [of k] by simp
  next
    case False
    then show ?thesis
      using Suc.prems by (simp add: le_Suc_eq)
  qed
qed simp

lemma ssa_before:
  assumes "\<And>k. k < fn_len f \<Longrightarrow> i_dst (fn_data f ! k) \<noteq> v \<Longrightarrow> T (Suc k) = T k" "0 \<le> v"
  shows "k \<le> fn_len f \<Longrightarrow> \<not> defined_before f k v \<Longrightarrow> T k = T 0"
proof (induction k)
  case (Suc k)
  have "\<not> defined_before f k v" "i_dst (fn_data f ! k) \<noteq> v"
    using Suc.prems assms(2) defined_before_mono [of f k v "Suc k"] by (auto simp: defined_before_def)
  then show ?case
    using Suc assms(1) [of k] by simp
qed simp

end
