(* ===== verification/Nyir_Sem.thy ===== *)
theory Nyir_Sem
  imports Nyir_Eval Nyir_Verify_Facts
begin

text \<open>
  An abstract semantics of NYIR and the proof that the virtual machine implements it. An
  instruction reads a list of values, and what it does is a function of those values and of the
  memory; the abstract machine has no profile and no error messages. The correctness of the
  optimizer passes is proved against this semantics and carried over to the virtual machine.
\<close>

section \<open>What an instruction does\<close>

text \<open>
  \<open>Flow v m p\<close> continues with memory \<open>m\<close>, writes \<open>v\<close> to the destination if it is a value, and jumps
  to \<open>p\<close> if it is an index. \<open>Return v\<close> ends the run with result \<open>v\<close>, 0 when nothing is returned.
\<close>

datatype inst_out = Flow "i64 option" vm_mem "nat option" | Return i64

definition addr_local_in :: "vm_env \<Rightarrow> nat \<Rightarrow> i64 \<Rightarrow> nat option" where
  "addr_local_in env n p = find (\<lambda>k. local_addr env k = p) [0..<n]"

definition load_mem :: "vm_env \<Rightarrow> vm_mem \<Rightarrow> i64 \<Rightarrow> i64 option" where
  "load_mem env m p =
     (if p = 0 then None
      else case addr_local_in env (length (fst m)) p of
             Some n \<Rightarrow> Some (fst m ! n)
           | None \<Rightarrow> snd m p)"

definition store_mem :: "vm_env \<Rightarrow> vm_mem \<Rightarrow> i64 \<Rightarrow> i64 \<Rightarrow> vm_mem option" where
  "store_mem env m p v =
     (if p = 0 then None
      else case addr_local_in env (length (fst m)) p of
             Some n \<Rightarrow> Some ((fst m)[n := v], snd m)
           | None \<Rightarrow> (case snd m p of None \<Rightarrow> None | Some _ \<Rightarrow> Some (fst m, (snd m)(p \<mapsto> v))))"

definition local_ok :: "ny_nir_inst \<Rightarrow> vm_mem \<Rightarrow> bool" where
  "local_ok i m \<longleftrightarrow> 0 \<le> sint (i_imm i) \<and> unat (i_imm i) < length (fst m)"

text \<open>The operators: a value from one or two operands.\<close>

definition is_unary_op :: "ny_nir_op \<Rightarrow> bool" where
  "is_unary_op op \<longleftrightarrow>
     op = NY_NIR_COPY \<or> op = NYIR_I64_TO_F64 \<or> op = NYIR_I64_TO_F32 \<or> op = NYIR_F64_TO_F32 \<or>
     op = NYIR_F32_TO_F64"

definition is_int_binary :: "ny_nir_op \<Rightarrow> bool" where
  "is_int_binary op \<longleftrightarrow>
     op = NY_NIR_ADD_I64 \<or> op = NY_NIR_SUB_I64 \<or> op = NY_NIR_MUL_I64 \<or> op = NY_NIR_DIV_I64 \<or>
     op = NY_NIR_MOD_I64 \<or> op = NY_NIR_AND_I64 \<or> op = NY_NIR_OR_I64 \<or> op = NY_NIR_XOR_I64 \<or>
     op = NY_NIR_SHL_I64 \<or> op = NY_NIR_SAR_I64"

definition is_const_op :: "ny_nir_op \<Rightarrow> bool" where
  "is_const_op op \<longleftrightarrow> op = NY_NIR_CONST_I64 \<or> op = NYIR_CONST_F64 \<or> op = NYIR_CONST_F32"

definition is_float_binary :: "ny_nir_op \<Rightarrow> bool" where
  "is_float_binary op \<longleftrightarrow>
     op = NYIR_ADD_F64 \<or> op = NYIR_SUB_F64 \<or> op = NYIR_MUL_F64 \<or> op = NYIR_DIV_F64 \<or>
     op = NYIR_ADD_F32 \<or> op = NYIR_SUB_F32 \<or> op = NYIR_MUL_F32 \<or> op = NYIR_DIV_F32"

lemmas op_classes = is_unary_op_def is_int_binary_def is_const_op_def is_float_binary_def
  is_cmp_op_def

definition is_binary_op :: "ny_nir_op \<Rightarrow> bool" where
  "is_binary_op op \<longleftrightarrow> is_int_binary op \<or> is_cmp_op op \<or> is_float_binary op"

definition binary_value :: "vm_env \<Rightarrow> ny_nir_inst \<Rightarrow> i64 \<Rightarrow> i64 \<Rightarrow> i64 option" where
  "binary_value env i a b =
     (if is_int_binary (i_op i) then ny_nir_analyze_binary_fold (i_op i) a b
      else if is_cmp_op (i_op i) then compare_values (env_fp env) (i_op i) (i_cmp i) a b
      else float_arith (env_fp env) (i_op i) a b)"

text \<open>The value an instruction without effect computes from its operands.\<close>

definition pure_value :: "vm_env \<Rightarrow> ny_nir_inst \<Rightarrow> i64 list \<Rightarrow> i64 option" where
  "pure_value env i vs =
     (if is_const_op (i_op i) then Some (i_imm i)
      else if is_unary_op (i_op i) then Some (convert_value (env_fp env) (i_op i) (vs ! 0))
      else if is_int_binary (i_op i) \<or> is_cmp_op (i_op i) \<or> is_float_binary (i_op i)
      then binary_value env i (vs ! 0) (vs ! 1)
      else None)"

definition call_sem :: "vm_env \<Rightarrow> ny_nir_inst \<Rightarrow> i64 list \<Rightarrow> vm_mem \<Rightarrow> inst_out option" where
  "call_sem env i vs m =
     (case env_resolver env of
        None \<Rightarrow> None
      | Some resolver \<Rightarrow>
          if sint (i_imm i) < 0 \<or> sint (i_imm i) > int NY_NIR_CALL_MAX_ARGS then None
          else (case resolver (i_symbol i) vs m of
                  Inl msg \<Rightarrow> None
                | Inr (out, m') \<Rightarrow> Some (Flow (if i_dst i \<ge> 0 then Some out else None) m' None)))"

definition jump_sem :: "(i64 \<Rightarrow> nat option) \<Rightarrow> ny_nir_inst \<Rightarrow> vm_mem \<Rightarrow> inst_out option" where
  "jump_sem lbl i m = map_option (\<lambda>p. Flow None m (Some p)) (lbl (i_imm i))"

definition inst_sem ::
  "vm_env \<Rightarrow> (i64 \<Rightarrow> nat option) \<Rightarrow> ny_nir_inst \<Rightarrow> i64 list \<Rightarrow> vm_mem \<Rightarrow> inst_out option" where
  "inst_sem env lbl i vs m =
     (case i_op i of
        NY_NIR_NOP \<Rightarrow> Some (Flow None m None)
      | NY_NIR_LABEL \<Rightarrow> Some (Flow None m None)
      | NYIR_LOAD_I64 \<Rightarrow> map_option (\<lambda>v. Flow (Some v) m None) (load_mem env m (vs ! 0))
      | NYIR_STORE_I64 \<Rightarrow>
          map_option (\<lambda>m'. Flow None m' None) (store_mem env m (vs ! 0) (vs ! 1))
      | NYIR_ADDR_LOCAL \<Rightarrow>
          if local_ok i m then Some (Flow (Some (local_addr env (unat (i_imm i)))) m None) else None
      | NY_NIR_LOAD_LOCAL \<Rightarrow>
          if local_ok i m then Some (Flow (Some (fst m ! unat (i_imm i))) m None) else None
      | NY_NIR_STORE_LOCAL \<Rightarrow>
          if local_ok i m then Some (Flow None ((fst m)[unat (i_imm i) := vs ! 0], snd m) None)
          else None
      | NY_NIR_CALL \<Rightarrow> call_sem env i vs m
      | NY_NIR_BR \<Rightarrow> jump_sem lbl i m
      | NY_NIR_BR_IF \<Rightarrow> if vs ! 0 \<noteq> 0 then jump_sem lbl i m else Some (Flow None m None)
      | NY_NIR_RET \<Rightarrow> Some (Return (if i_a i \<ge> 0 then vs ! 0 else 0))
      | _ \<Rightarrow>
          if is_const_op (i_op i) \<and> i_dst i < 0 then Some (Flow None m None)
          else map_option (\<lambda>v. Flow (Some v) m None) (pure_value env i vs))"

section \<open>The abstract machine\<close>

record core =
  c_vals :: "i64 option list"
  c_mem :: vm_mem
  c_pc :: nat

datatype core_out = Cont core | Stop i64 vm_mem

fun reads :: "i64 option list \<Rightarrow> int list \<Rightarrow> i64 list option" where
  "reads t [] = Some []"
| "reads t (v # vs) =
     (case tab_get t v of None \<Rightarrow> None | Some x \<Rightarrow> map_option (Cons x) (reads t vs))"

definition write_dst :: "ny_nir_inst \<Rightarrow> i64 option \<Rightarrow> i64 option list \<Rightarrow> i64 option list option" where
  "write_dst i x t =
     (case x of
        None \<Rightarrow> Some t
      | Some v \<Rightarrow>
          if 0 \<le> i_dst i \<and> nat (i_dst i) < length t then Some (t[nat (i_dst i) := Some v]) else None)"

definition finish :: "ny_nir_inst \<Rightarrow> core \<Rightarrow> inst_out \<Rightarrow> core_out option" where
  "finish i c out =
     (case out of
        Return v \<Rightarrow> Some (Stop v (c_mem c))
      | Flow x m p \<Rightarrow>
          map_option
            (\<lambda>t. Cont \<lparr>c_vals = t, c_mem = m, c_pc = (case p of None \<Rightarrow> Suc (c_pc c) | Some q \<Rightarrow> q)\<rparr>)
            (write_dst i x (c_vals c)))"

definition sem_at ::
  "vm_env \<Rightarrow> (i64 \<Rightarrow> nat option) \<Rightarrow> ny_nir_inst \<Rightarrow> core \<Rightarrow> core_out option" where
  "sem_at env lbl i c =
     (case reads (c_vals c) (inst_reads i) of
        None \<Rightarrow> None
      | Some vs \<Rightarrow>
          (case inst_sem env lbl i vs (c_mem c) of
             None \<Rightarrow> None
           | Some out \<Rightarrow> finish i c out))"

definition core_step :: "vm_env \<Rightarrow> ny_nir_func \<Rightarrow> core \<Rightarrow> core_out option" where
  "core_step env f c = sem_at env (label_pc f) (fn_data f ! c_pc c) c"

text \<open>
  A finished run: whether a return was executed, the value returned, the memory and the number of
  steps. Running off the end of the instructions ends the run as well.
\<close>

record outcome =
  o_returned :: bool
  o_result :: i64
  o_mem :: vm_mem
  o_steps :: nat

fun core_loop :: "vm_env \<Rightarrow> ny_nir_func \<Rightarrow> nat \<Rightarrow> nat \<Rightarrow> core \<Rightarrow> outcome option" where
  "core_loop env f steps left c =
     (if c_pc c < fn_len f then
        (case left of
           0 \<Rightarrow> None
         | Suc left' \<Rightarrow>
             (case core_step env f c of
                None \<Rightarrow> None
              | Some (Stop v m) \<Rightarrow>
                  Some \<lparr>o_returned = True, o_result = v, o_mem = m, o_steps = Suc steps\<rparr>
              | Some (Cont c') \<Rightarrow> core_loop env f (Suc steps) left' c'))
      else Some \<lparr>o_returned = False, o_result = 0, o_mem = c_mem c, o_steps = steps\<rparr>)"

declare core_loop.simps [simp del]

definition core_init :: "ny_nir_func \<Rightarrow> i64 list \<Rightarrow> (i64 \<rightharpoonup> i64) \<Rightarrow> core" where
  "core_init f ls h = \<lparr>c_vals = empty_tab f, c_mem = (ls, h), c_pc = 0\<rparr>"

definition core_run ::
  "vm_env \<Rightarrow> ny_nir_func \<Rightarrow> i64 list \<Rightarrow> (i64 \<rightharpoonup> i64) \<Rightarrow> nat \<Rightarrow> outcome option" where
  "core_run env f ls h max_steps = core_loop env f 0 (step_budget max_steps) (core_init f ls h)"

section \<open>The virtual machine implements the abstract machine\<close>

definition core_of :: "vm_state \<Rightarrow> core" where
  "core_of s = \<lparr>c_vals = vm_vals s, c_mem = (vm_locals s, vm_heap s), c_pc = vm_pc s\<rparr>"

definition outcome_of :: "vm_state \<Rightarrow> outcome" where
  "outcome_of s =
     \<lparr>o_returned = er_returned (vm_prof s), o_result = er_result (vm_prof s),
      o_mem = (vm_locals s, vm_heap s), o_steps = er_steps (vm_prof s)\<rparr>"

text \<open>Until the return instruction the profile holds no result.\<close>

definition running :: "vm_state \<Rightarrow> bool" where
  "running s \<longleftrightarrow> \<not> er_returned (vm_prof s) \<and> er_result (vm_prof s) = 0"

definition abs_step :: "vm_error + step_result \<Rightarrow> core_out option" where
  "abs_step r =
     (case r of
        Inl e \<Rightarrow> None
      | Inr (Next s) \<Rightarrow> Some (Cont (core_of s))
      | Inr (Done s) \<Rightarrow> Some (Stop (er_result (vm_prof s)) (vm_locals s, vm_heap s)))"

text \<open>A result that keeps a running machine running, and ends it with \<open>er_returned\<close> set.\<close>

definition keeps_running :: "nat \<Rightarrow> vm_error + step_result \<Rightarrow> bool" where
  "keeps_running n r \<longleftrightarrow>
     (case r of
        Inl e \<Rightarrow> True
      | Inr (Next s) \<Rightarrow> running s
      | Inr (Done s) \<Rightarrow> er_returned (vm_prof s) \<and> er_steps (vm_prof s) = n)"

lemma abs_step_simps [simp]:
  "abs_step (Inl e) = None"
  "abs_step (Inr (Next s)) = Some (Cont (core_of s))"
  "abs_step (Inr (Done s)) = Some (Stop (er_result (vm_prof s)) (vm_locals s, vm_heap s))"
  by (simp_all add: abs_step_def)

lemma keeps_running_simps [simp]:
  "keeps_running n (Inl e)"
  "keeps_running n (Inr (Next s)) \<longleftrightarrow> running s"
  "keeps_running n (Inr (Done s)) \<longleftrightarrow> er_returned (vm_prof s) \<and> er_steps (vm_prof s) = n"
  by (simp_all add: keeps_running_def)

lemma core_of_notes [frame_simps]:
  "core_of (ny_nir_eval_note_value v s) = core_of s"
  "core_of (ny_nir_eval_note_local l s) = core_of s"
  "core_of (note_branch b s) = core_of s"
  "core_of (fetch s op) = (core_of s)\<lparr>c_pc := Suc (vm_pc s)\<rparr>"
  by (simp_all add: core_of_def ny_nir_eval_note_value_def ny_nir_eval_note_local_def note_branch_def
        fetch_def Let_def)

lemma running_notes [frame_simps]:
  "running (ny_nir_eval_note_value v s) = running s"
  "running (ny_nir_eval_note_local l s) = running s"
  "running (note_branch b s) = running s"
  "running (fetch s op) = running s"
  by (simp_all add: running_def ny_nir_eval_note_value_def ny_nir_eval_note_local_def note_branch_def
        fetch_def Let_def)

lemma vm_fields_notes [frame_simps]:
  "vm_vals (ny_nir_eval_note_value v s) = vm_vals s"
  "vm_vals (ny_nir_eval_note_local l s) = vm_vals s"
  "vm_vals (note_branch b s) = vm_vals s"
  "vm_vals (fetch s op) = vm_vals s"
  "vm_locals (ny_nir_eval_note_value v s) = vm_locals s"
  "vm_locals (ny_nir_eval_note_local l s) = vm_locals s"
  "vm_locals (note_branch b s) = vm_locals s"
  "vm_locals (fetch s op) = vm_locals s"
  "vm_heap (ny_nir_eval_note_value v s) = vm_heap s"
  "vm_heap (ny_nir_eval_note_local l s) = vm_heap s"
  "vm_heap (note_branch b s) = vm_heap s"
  "vm_heap (fetch s op) = vm_heap s"
  "vm_pc (ny_nir_eval_note_value v s) = vm_pc s"
  "vm_pc (ny_nir_eval_note_local l s) = vm_pc s"
  "vm_pc (note_branch b s) = vm_pc s"
  "vm_pc (fetch s op) = Suc (vm_pc s)"
  by (simp_all add: ny_nir_eval_note_value_def ny_nir_eval_note_local_def note_branch_def
        fetch_def Let_def)

lemma running_update [simp]:
  "running (s\<lparr>vm_vals := t\<rparr>) = running s" "running (s\<lparr>vm_locals := ls\<rparr>) = running s"
  "running (s\<lparr>vm_heap := h\<rparr>) = running s" "running (s\<lparr>vm_pc := p\<rparr>) = running s"
  "running (s\<lparr>vm_prof := (vm_prof s)\<lparr>er_call_count := m\<rparr>\<rparr>) = running s"
  by (simp_all add: running_def)

lemma reads_read_values: "read_values s vs = reads (vm_vals s) vs"
  by (induction vs) (simp_all add: ny_nir_eval_read_value_def split: option.splits)

lemma mem_load_eq: "p \<noteq> 0 \<Longrightarrow> mem_load env s p = load_mem env (vm_locals s, vm_heap s) p"
  by (simp add: mem_load_def load_mem_def addr_local_def addr_local_in_def split: option.splits)

lemma mem_store_eq:
  "p \<noteq> 0 \<Longrightarrow> map_option core_of (mem_store env s p v) =
     map_option (\<lambda>m. (core_of s)\<lparr>c_mem := m\<rparr>) (store_mem env (vm_locals s, vm_heap s) p v)"
  by (auto simp: mem_store_def store_mem_def addr_local_def addr_local_in_def core_of_def
        split: option.splits)

lemma mem_store_running: "mem_store env s p v = Some s' \<Longrightarrow> running s' = running s"
  by (auto simp: mem_store_def split: option.splits)

lemma load_store_mem_0 [simp]: "load_mem env m 0 = None" "store_mem env m 0 v = None"
  by (simp_all add: load_mem_def store_mem_def)

lemma abs_write_value:
  "vm_pc s = Suc (c_pc c) \<Longrightarrow> vm_vals s = c_vals c \<Longrightarrow> (vm_locals s, vm_heap s) = m \<Longrightarrow>
   abs_step (write_value k s (i_dst i) v) = finish i c (Flow (Some v) m None)"
  by (auto simp: write_value_def finish_def write_dst_def core_of_def frame_simps)

lemma running_write_value:
  "running s \<Longrightarrow> keeps_running n (write_value k s d v)"
  by (auto simp: write_value_def frame_simps)

lemmas exec_defs = exec_const_def exec_unary_def exec_load_def exec_addr_local_def exec_store_def
  exec_load_local_def exec_store_local_def exec_binary_def exec_br_def exec_br_if_def exec_ret_def
  exec_call_def

lemma keeps_running_exec:
  assumes "running s"
  shows "keeps_running n (exec_inst env f n k i s)"
  using assms
  by (cases "i_op i")
     (auto simp: exec_inst_def exec_defs Let_def frame_simps mem_store_running
        intro!: running_write_value split: option.splits sum.splits prod.splits)
lemma inst_reads_pure:
  "is_const_op (i_op i) \<Longrightarrow> inst_reads i = []"
  "is_unary_op (i_op i) \<Longrightarrow> inst_reads i = [i_a i]"
  "is_binary_op (i_op i) \<Longrightarrow> inst_reads i = [i_a i, i_b i]"
  by (cases "i_op i"; simp add: inst_reads_def is_binary_op_def op_classes)+

lemma op_class_disjoint:
  "is_unary_op op \<Longrightarrow> \<not> is_const_op op" "is_binary_op op \<Longrightarrow> \<not> is_const_op op"
  "is_binary_op op \<Longrightarrow> \<not> is_unary_op op"
  by (cases op; simp add: is_binary_op_def op_classes)+

lemma inst_sem_pure:
  "is_const_op (i_op i) \<or> is_unary_op (i_op i) \<or> is_binary_op (i_op i) \<Longrightarrow>
   inst_sem env lbl i vs m =
     (if is_const_op (i_op i) \<and> i_dst i < 0 then Some (Flow None m None)
      else map_option (\<lambda>v. Flow (Some v) m None) (pure_value env i vs))"
  by (cases "i_op i"; simp add: inst_sem_def is_binary_op_def op_classes)

lemma pure_value_binary:
  "is_binary_op (i_op i) \<Longrightarrow> pure_value env i [a, b] = binary_value env i a b"
  by (auto simp: pure_value_def op_class_disjoint is_binary_op_def)

lemma pure_value_unary:
  "is_unary_op (i_op i) \<Longrightarrow> pure_value env i [a] = Some (convert_value (env_fp env) (i_op i) a)"
  by (auto simp: pure_value_def op_class_disjoint)

lemma exec_inst_binary:
  "is_binary_op (i_op i) \<Longrightarrow> exec_inst env f n k i s = exec_binary (binary_value env i) k i s"
  by (cases "i_op i"; simp add: exec_inst_def is_binary_op_def binary_value_def [abs_def] op_classes)

lemma exec_inst_unary:
  "is_unary_op (i_op i) \<Longrightarrow> exec_inst env f n k i s = exec_unary env k i s"
  by (cases "i_op i"; simp add: exec_inst_def op_classes)

lemma exec_inst_const:
  "is_const_op (i_op i) \<Longrightarrow> exec_inst env f n k i s = exec_const k i s"
  by (cases "i_op i"; simp add: exec_inst_def op_classes)

definition sees :: "vm_state \<Rightarrow> core \<Rightarrow> bool" where
  "sees s c \<longleftrightarrow>
     vm_pc s = Suc (c_pc c) \<and> vm_vals s = c_vals c \<and> (vm_locals s, vm_heap s) = c_mem c"

lemma abs_exec_pure:
  assumes "sees s c" "is_const_op (i_op i) \<or> is_unary_op (i_op i) \<or> is_binary_op (i_op i)"
  shows "abs_step (exec_inst env f n k i s) = sem_at env (label_pc f) i c"
proof -
  have w: "abs_step (write_value k s (i_dst i) v) = finish i c (Flow (Some v) (c_mem c) None)" for v
    using assms(1) by (intro abs_write_value) (auto simp: sees_def)
  have v: "vm_vals s = c_vals c" 
    using assms(1) by (simp add: sees_def)
  have n: "finish i c (Flow None (c_mem c) None) = Some (Cont (core_of s))"
    using assms(1) by (simp add: finish_def write_dst_def core_of_def sees_def)
  consider (const) "is_const_op (i_op i)" | (un) "is_unary_op (i_op i)" | (bin) "is_binary_op (i_op i)"
    using assms(2) by blast
  then show ?thesis
  proof cases
    case const
    then show ?thesis
      by (auto simp: sem_at_def inst_sem_pure inst_reads_pure exec_inst_const exec_const_def w n pure_value_def)
  next
    case un
    then show ?thesis
      by (auto simp: sem_at_def inst_sem_pure inst_reads_pure exec_inst_unary exec_unary_def w v
          pure_value_unary op_class_disjoint ny_nir_eval_read_value_def split: option.splits)
  next
    case bin
    then show ?thesis
      by (auto simp: sem_at_def inst_sem_pure inst_reads_pure exec_inst_binary exec_binary_def w v
          pure_value_binary op_class_disjoint ny_nir_eval_read_value_def split: option.splits)
  qed
qed

lemma abs_exec_call:
  assumes "sees s c" "i_op i = NY_NIR_CALL"
  shows "abs_step (exec_call env k i s) = sem_at env lbl i c"
proof -
  obtain ls h where m: "c_mem c = (ls, h)" by (cases "c_mem c")
  show ?thesis
  using assms m
  by (simp add: exec_call_def sem_at_def reads_read_values inst_reads_def Let_def sees_def
      inst_sem_def call_sem_def abs_write_value finish_def write_dst_def core_of_def
      split: option.splits sum.splits prod.splits)
qed
lemma abs_exec_store:
  assumes "sees s c" "i_op i = NYIR_STORE_I64"
  shows "abs_step (exec_store env k i s) = sem_at env lbl i c"
proof -
  have st: "abs_step (case mem_store env s a v of None \<Rightarrow> Inl (VmFault k) | Some s' \<Rightarrow> Inr (Next s')) =
        (case map_option (\<lambda>m. Flow None m None) (store_mem env (c_mem c) a v) of
           None \<Rightarrow> None | Some out \<Rightarrow> finish i c out)"
    if "a \<noteq> 0" for a v
    using mem_store_eq [OF that, of env s v] assms(1)
    by (cases "store_mem env (c_mem c) a v"; cases "mem_store env s a v")
       (auto simp: finish_def write_dst_def core_of_def sees_def)
  show ?thesis
    using assms
    by (cases "tab_get (c_vals c) (i_a i)"; cases "tab_get (c_vals c) (i_c i)")
       (auto simp: exec_store_def sem_at_def inst_reads_def inst_sem_def sees_def st
          ny_nir_eval_read_value_def)
qed

lemma abs_exec_load:
  assumes "sees s c" "i_op i = NYIR_LOAD_I64"
  shows "abs_step (exec_load env k i s) = sem_at env lbl i c"
proof -
  have w: "abs_step (write_value k s (i_dst i) v) = finish i c (Flow (Some v) (c_mem c) None)" for v
    using assms(1) by (intro abs_write_value) (auto simp: sees_def)
  show ?thesis
    using assms
    by (auto simp: exec_load_def sem_at_def inst_reads_def inst_sem_def sees_def w mem_load_eq
        ny_nir_eval_read_value_def split: option.splits)
qed

lemma abs_exec_local:
  assumes "sees s c"
  shows "i_op i = NY_NIR_LOAD_LOCAL \<Longrightarrow> abs_step (exec_load_local k i s) = sem_at env lbl i c"
    and "i_op i = NYIR_ADDR_LOCAL \<Longrightarrow> abs_step (exec_addr_local env k i s) = sem_at env lbl i c"
    and "i_op i = NY_NIR_STORE_LOCAL \<Longrightarrow> abs_step (exec_store_local k i s) = sem_at env lbl i c"
proof -
  let ?s = "ny_nir_eval_note_local (i_imm i) s"
  have w: "abs_step (write_value k ?s (i_dst i) v) = finish i c (Flow (Some v) (c_mem c) None)" for v
    using assms(1) by (intro abs_write_value) (auto simp: sees_def frame_simps)
  have ok: "local_in_range i s = local_ok i (c_mem c)"
    using assms by (cases "c_mem c") (simp add: local_in_range_def local_ok_def sees_def)
  have m: "fst (c_mem c) = vm_locals s" "snd (c_mem c) = vm_heap s"
    using assms by (cases "c_mem c"; simp add: sees_def)+
  show "abs_step (exec_load_local k i s) = sem_at env lbl i c" if "i_op i = NY_NIR_LOAD_LOCAL"
    using that by (simp add: exec_load_local_def sem_at_def inst_reads_def inst_sem_def w ok m)
  show "abs_step (exec_addr_local env k i s) = sem_at env lbl i c" if "i_op i = NYIR_ADDR_LOCAL"
    using that by (simp add: exec_addr_local_def sem_at_def inst_reads_def inst_sem_def w ok m)
  show "abs_step (exec_store_local k i s) = sem_at env lbl i c" if "i_op i = NY_NIR_STORE_LOCAL"
    using that assms
    by (auto simp: exec_store_local_def sem_at_def inst_reads_def inst_sem_def ok m finish_def
        write_dst_def core_of_def sees_def frame_simps ny_nir_eval_read_value_def split: option.splits)
qed

lemma abs_exec_control:
  assumes "sees s c" "running s"
  shows "i_op i = NY_NIR_BR \<Longrightarrow> abs_step (exec_br f k i s) = sem_at env (label_pc f) i c"
    and "i_op i = NY_NIR_BR_IF \<Longrightarrow> abs_step (exec_br_if f k i s) = sem_at env (label_pc f) i c"
    and "i_op i = NY_NIR_RET \<Longrightarrow> abs_step (exec_ret n k i s) = sem_at env (label_pc f) i c"
  using assms
  by (auto simp: exec_br_def exec_br_if_def exec_ret_def sem_at_def inst_reads_def inst_sem_def
      jump_sem_def finish_def write_dst_def core_of_def sees_def running_def frame_simps Let_def
      ny_nir_eval_read_value_def split: option.splits)

lemma abs_exec_inst:
  assumes "sees s c" "running s"
  shows "abs_step (exec_inst env f n k i s) = sem_at env (label_pc f) i c"
proof (cases "is_const_op (i_op i) \<or> is_unary_op (i_op i) \<or> is_binary_op (i_op i)")
  case True
  then show ?thesis
    by (rule abs_exec_pure [OF assms(1)])
next
  case False
  have c: "finish i c (Flow None (c_mem c) None) = Some (Cont (core_of s))"
    using assms(1) by (simp add: finish_def write_dst_def core_of_def sees_def)
  have inert: "sem_at env (label_pc f) i c = (if i_op i = NY_NIR_NOP \<or> i_op i = NY_NIR_LABEL
      then Some (Cont (core_of s)) else None)"
    if "i_op i \<in> {NY_NIR_NOP, NY_NIR_LABEL, NYIR_ADDR_SYMBOL, NYIR_ALLOCA, NYIR_COPY_STRUCT,
                  NYIR_CAPTURE_RET, NYIR_OP_COUNT}"
    using that by (auto simp: sem_at_def inst_reads_def inst_sem_def c pure_value_def op_classes)
  show ?thesis
    using False
    by (cases "i_op i")
       (simp_all add: exec_inst_def abs_exec_local [OF assms(1)] abs_exec_control [OF assms]
         abs_exec_load [OF assms(1)] abs_exec_store [OF assms(1)] abs_exec_call [OF assms(1)]
         is_binary_op_def op_classes inert)
qed

lemma core_step_refines:
  assumes "running s"
  shows "core_step env f (core_of s) = abs_step (eval_step env f n s)"
proof -
  let ?i = "fn_data f ! vm_pc s"
  have "sees (fetch s (i_op ?i)) (core_of s)"
    by (simp add: sees_def core_of_def frame_simps)
  then have "abs_step (exec_inst env f n (vm_pc s) ?i (fetch s (i_op ?i))) =
             sem_at env (label_pc f) ?i (core_of s)"
    by (rule abs_exec_inst) (simp add: assms frame_simps)
  moreover have "c_pc (core_of s) = vm_pc s"
    by (simp add: core_of_def)
  ultimately show ?thesis
    by (simp add: core_step_def eval_step_def Let_def)
qed

lemma eval_step_running: "running s \<Longrightarrow> keeps_running n (eval_step env f n s)"
  by (simp add: eval_step_def Let_def keeps_running_exec frame_simps)

definition abs_run :: "vm_error + vm_state \<Rightarrow> outcome option" where
  "abs_run r = (case r of Inl e \<Rightarrow> None | Inr s \<Rightarrow> Some (outcome_of s))"

lemma core_loop_refines:
  "running s \<Longrightarrow> abs_run (eval_loop env f n left s) = core_loop env f n left (core_of s)"
proof (induction left arbitrary: n s)
  case 0
  then show ?case
    by (simp add: eval_loop.simps core_loop.simps abs_run_def outcome_of_def running_def core_of_def)
next
  case (Suc left)
  note refines = core_step_refines [OF Suc.prems, of env f "Suc n"]
  note keeps = eval_step_running [OF Suc.prems, of "Suc n" env f]
  show ?case
  proof (cases "eval_step env f (Suc n) s")
    case (Inl e)
    then show ?thesis
      using refines Suc.prems
      by (simp add: eval_loop.simps [of env f n] core_loop.simps [of env f n] abs_run_def outcome_of_def running_def core_of_def)
  next
    case (Inr r)
    then show ?thesis
      using refines keeps Suc.prems Suc.IH
      by (cases r) (simp_all add: eval_loop.simps [of env f n] core_loop.simps [of env f n] abs_run_def outcome_of_def running_def core_of_def)
  qed
qed

lemma core_run_refines: "abs_run (eval_run env f ls h n) = core_run env f ls h n"
proof -
  have "running (init_state f ls h)" "core_of (init_state f ls h) = core_init f ls h"
    by (simp_all add: running_def init_state_def empty_result_def core_of_def core_init_def)
  then show ?thesis
    by (simp add: eval_run_def core_run_def core_loop_refines)
qed
section \<open>Reachable states\<close>

inductive reachable :: "vm_env \<Rightarrow> ny_nir_func \<Rightarrow> i64 list \<Rightarrow> (i64 \<rightharpoonup> i64) \<Rightarrow> core \<Rightarrow> bool"
  for env f ls h where
  start: "reachable env f ls h (core_init f ls h)"
| move: "reachable env f ls h c \<Longrightarrow> c_pc c < fn_len f \<Longrightarrow> core_step env f c = Some (Cont c') \<Longrightarrow>
    reachable env f ls h c'"

inductive_cases reachableE: "reachable env f ls h c"

text \<open>A number of steps at once, none of them a return.\<close>

fun core_iter :: "vm_env \<Rightarrow> ny_nir_func \<Rightarrow> nat \<Rightarrow> core \<Rightarrow> core option" where
  "core_iter env f 0 c = Some c"
| "core_iter env f (Suc n) c =
     (if c_pc c < fn_len f then
        (case core_step env f c of Some (Cont c') \<Rightarrow> core_iter env f n c' | _ \<Rightarrow> None)
      else None)"

lemma core_iter_reachable:
  "reachable env f ls h c \<Longrightarrow> core_iter env f n c = Some c' \<Longrightarrow> reachable env f ls h c'"
  by (induction n arbitrary: c) (auto intro: reachable.move split: if_splits option.splits core_out.splits)

end
