(* ===== verification/Nyir_Analysis.thy ===== *)
theory Nyir_Analysis
  imports Nyir_Verify
begin

text \<open>
  Value analysis of \<open>src/code/native/ir/verify.c\<close>: checked 64-bit arithmetic, interval arithmetic
  on range facts, \<open>ny_nir_analyze_values\<close> and the metadata summary.
\<close>

section \<open>Value facts\<close>

record ny_nir_value_fact =
  vf_known_const :: bool
  vf_const_value :: i64
  vf_range :: ny_nir_range
  vf_use_count :: nat
  vf_effects :: u32

definition zero_fact :: ny_nir_value_fact where
  "zero_fact =
     \<lparr>vf_known_const = False, vf_const_value = 0, vf_range = zero_range, vf_use_count = 0,
      vf_effects = 0\<rparr>"

definition ny_nir_fact_set_const :: "ny_nir_value_fact \<Rightarrow> i64 \<Rightarrow> ny_nir_value_fact" where
  "ny_nir_fact_set_const d v =
     d\<lparr>vf_known_const := True, vf_const_value := v, vf_range := full_range v v\<rparr>"

section \<open>Checked arithmetic\<close>

definition ny_nir_i64_add_checked :: "i64 \<Rightarrow> i64 \<Rightarrow> i64 option" where
  "ny_nir_i64_add_checked a b =
     (if (sint b > 0 \<and> sint a > sint (INT64_MAX - b)) \<or>
         (sint b < 0 \<and> sint a < sint (INT64_MIN - b))
      then None else Some (a + b))"

definition ny_nir_i64_sub_checked :: "i64 \<Rightarrow> i64 \<Rightarrow> i64 option" where
  "ny_nir_i64_sub_checked a b =
     (if (sint b < 0 \<and> sint a > sint (INT64_MAX + b)) \<or>
         (sint b > 0 \<and> sint a < sint (INT64_MIN + b))
      then None else Some (a - b))"

definition ny_nir_i64_div_checked :: "i64 \<Rightarrow> i64 \<Rightarrow> i64 option" where
  "ny_nir_i64_div_checked a b =
     (if b = 0 \<or> a = INT64_MIN \<and> b = -1 then None
      else Some (word_of_int (sint a sdiv sint b)))"

text \<open>
  Two bodies for the checked product: with GCC and Clang the overflow builtin, which fails exactly
  when the mathematical product is not an \<open>int64_t\<close>; otherwise a case split over the signs.
\<close>

definition fits_i64 :: "int \<Rightarrow> bool" where
  "fits_i64 x \<longleftrightarrow> - (2 ^ 63) \<le> x \<and> x < 2 ^ 63"

definition ny_nir_i64_mul_checked :: "i64 \<Rightarrow> i64 \<Rightarrow> i64 option" where
  "ny_nir_i64_mul_checked a b = (if fits_i64 (sint a * sint b) then Some (a * b) else None)"

definition c_div :: "i64 \<Rightarrow> i64 \<Rightarrow> int" where
  "c_div a b = sint a sdiv sint b"

definition mul_checked_portable :: "i64 \<Rightarrow> i64 \<Rightarrow> i64 option" where
  "mul_checked_portable a b =
     (if a = 0 \<or> b = 0 then Some 0
      else if a = -1 then (if b = INT64_MIN then None else Some (- b))
      else if b = -1 then (if a = INT64_MIN then None else Some (- a))
      else if sint a > 0 then
        (if sint b > 0 then (if sint a > c_div INT64_MAX b then None else Some (a * b))
         else if sint b < c_div INT64_MIN a then None else Some (a * b))
      else
        (if sint b > 0 then (if sint a < c_div INT64_MIN b then None else Some (a * b))
         else if sint b < c_div INT64_MAX a then None else Some (a * b)))"

section \<open>Interval arithmetic\<close>

definition smin :: "i64 \<Rightarrow> i64 \<Rightarrow> i64" where
  "smin lo v = (if sint v < sint lo then v else lo)"

definition smax :: "i64 \<Rightarrow> i64 \<Rightarrow> i64" where
  "smax hi v = (if sint v > sint hi then v else hi)"

fun ny_nir_range_from_corners :: "i64 list \<Rightarrow> ny_nir_range option" where
  "ny_nir_range_from_corners [] = None"
| "ny_nir_range_from_corners (v # vs) = Some (full_range (foldl smin v vs) (foldl smax v vs))"

definition range_full :: "ny_nir_range \<Rightarrow> bool" where
  "range_full r \<longleftrightarrow> has_min r \<and> has_max r"

text \<open>The interval of the four corner results of \<open>g\<close>, when all four are defined.\<close>

definition corner_range ::
  "(i64 \<Rightarrow> i64 \<Rightarrow> i64 option) \<Rightarrow> ny_nir_range \<Rightarrow> ny_nir_range \<Rightarrow> ny_nir_range option" where
  "corner_range g ra rb =
     (case (g (rg_min ra) (rg_min rb), g (rg_min ra) (rg_max rb),
            g (rg_max ra) (rg_min rb), g (rg_max ra) (rg_max rb)) of
        (Some c0, Some c1, Some c2, Some c3) \<Rightarrow> ny_nir_range_from_corners [c0, c1, c2, c3]
      | _ \<Rightarrow> None)"

definition pair_opt :: "'a option \<Rightarrow> 'b option \<Rightarrow> ('a \<times> 'b) option" where
  "pair_opt x y = (case (x, y) of (Some p, Some q) \<Rightarrow> Some (p, q) | _ \<Rightarrow> None)"

text \<open>The bounds \<open>(lo, hi)\<close> that the switch computes for the operators without corners.\<close>

definition range_bounds ::
  "ny_nir_op \<Rightarrow> ny_nir_value_fact \<Rightarrow> ny_nir_value_fact \<Rightarrow> (i64 \<times> i64) option" where
  "range_bounds op fa fb =
     (let ra = vf_range fa; rb = vf_range fb; cb = vf_const_value fb in
      case op of
        NY_NIR_ADD_I64 \<Rightarrow>
          pair_opt (ny_nir_i64_add_checked (rg_min ra) (rg_min rb))
                   (ny_nir_i64_add_checked (rg_max ra) (rg_max rb))
      | NY_NIR_SUB_I64 \<Rightarrow>
          pair_opt (ny_nir_i64_sub_checked (rg_min ra) (rg_max rb))
                   (ny_nir_i64_sub_checked (rg_max ra) (rg_min rb))
      | NY_NIR_MOD_I64 \<Rightarrow>
          if \<not> vf_known_const fb \<or> cb = 0 \<or> cb = INT64_MIN then None
          else let hi = (if sint cb < 0 then - cb - 1 else cb - 1);
                   lo = (if sint (rg_min ra) < 0 then - hi else 0)
               in Some (lo, if sint (rg_max ra) \<le> 0 then 0 else hi)
      | NY_NIR_SHL_I64 \<Rightarrow>
          if \<not> vf_known_const fb \<or> sint cb < 0 \<or> sint cb \<ge> 63 \<or> sint (rg_min ra) < 0 then None
          else pair_opt (ny_nir_i64_mul_checked (rg_min ra) (push_bit (unat cb) 1))
                        (ny_nir_i64_mul_checked (rg_max ra) (push_bit (unat cb) 1))
      | NY_NIR_SAR_I64 \<Rightarrow>
          if \<not> vf_known_const fb \<or> sint cb < 0 \<or> sint cb \<ge> 64 then None
          else Some (signed_drop_bit (unat cb) (rg_min ra), signed_drop_bit (unat cb) (rg_max ra))
      | NY_NIR_AND_I64 \<Rightarrow>
          if sint (rg_min ra) < 0 \<or> sint (rg_min rb) < 0 then None
          else Some (0, rg_max ra OR rg_max rb)
      | NY_NIR_OR_I64 \<Rightarrow>
          if sint (rg_min ra) < 0 \<or> sint (rg_min rb) < 0 then None
          else Some (0, rg_max ra OR rg_max rb)
      | NY_NIR_XOR_I64 \<Rightarrow>
          if sint (rg_min ra) < 0 \<or> sint (rg_min rb) < 0 then None
          else Some (0, rg_max ra OR rg_max rb)
      | _ \<Rightarrow> None)"

definition ny_nir_fact_binary_range ::
  "ny_nir_op \<Rightarrow> ny_nir_value_fact \<Rightarrow> ny_nir_value_fact \<Rightarrow> ny_nir_range option" where
  "ny_nir_fact_binary_range op fa fb =
     (let ra = vf_range fa; rb = vf_range fb in
      if op = NY_NIR_AND_I64 \<and> vf_known_const fb \<and> sint (vf_const_value fb) \<ge> 0
      then Some (full_range 0 (vf_const_value fb))
      else if op = NY_NIR_AND_I64 \<and> vf_known_const fa \<and> sint (vf_const_value fa) \<ge> 0
      then Some (full_range 0 (vf_const_value fa))
      else if \<not> range_full ra \<or> \<not> range_full rb then None
      else if op = NY_NIR_MUL_I64 then corner_range ny_nir_i64_mul_checked ra rb
      else if op = NY_NIR_DIV_I64 then
        (if sint (rg_min rb) \<le> 0 \<and> sint (rg_max rb) \<ge> 0 then None
         else corner_range ny_nir_i64_div_checked ra rb)
      else (case range_bounds op fa fb of
              None \<Rightarrow> None
            | Some (lo, hi) \<Rightarrow> if sint lo > sint hi then None else Some (full_range lo hi)))"

section \<open>The forward analysis\<close>

definition fact_at :: "ny_nir_value_fact list \<Rightarrow> int \<Rightarrow> ny_nir_value_fact option" where
  "fact_at facts v = (if 0 \<le> v \<and> nat v < length facts then Some (facts ! nat v) else None)"

definition count_use :: "int \<Rightarrow> ny_nir_value_fact list \<Rightarrow> ny_nir_value_fact list" where
  "count_use v facts =
     (if 0 \<le> v \<and> nat v < length facts
      then facts[nat v := (facts ! nat v)\<lparr>vf_use_count := Suc (vf_use_count (facts ! nat v))\<rparr>]
      else facts)"

text \<open>Only operands \<open>a\<close> and \<open>b\<close> and the stack arguments of calls count as uses.\<close>

definition count_uses :: "ny_nir_inst \<Rightarrow> ny_nir_value_fact list \<Rightarrow> ny_nir_value_fact list" where
  "count_uses i facts =
     fold count_use
       ([i_a i, i_b i] @
        (if i_op i = NY_NIR_CALL then take (i_extra_args_len i) (i_extra_args i) else []))
       facts"

text \<open>The fact of the destination: the part common to all opcodes, then the switch.\<close>

definition dst_base_fact :: "ny_nir_inst \<Rightarrow> ny_nir_value_fact \<Rightarrow> ny_nir_value_fact" where
  "dst_base_fact i d =
     (let d1 = d\<lparr>vf_effects := vf_effects d OR (i_effects i OR ny_nir_inst_effects i)\<rparr> in
      if has_min (i_range i) \<or> has_max (i_range i) then d1\<lparr>vf_range := i_range i\<rparr> else d1)"

text \<open>The constants of both operands, when both facts exist and are constants.\<close>

definition both_const ::
  "ny_nir_value_fact option \<Rightarrow> ny_nir_value_fact option \<Rightarrow> (i64 \<times> i64) option" where
  "both_const fa fb =
     (case (fa, fb) of
        (Some x, Some y) \<Rightarrow>
          if vf_known_const x \<and> vf_known_const y then Some (vf_const_value x, vf_const_value y)
          else None
      | _ \<Rightarrow> None)"

definition dst_cmp_fact ::
  "ny_nir_inst \<Rightarrow> ny_nir_value_fact option \<Rightarrow> ny_nir_value_fact option \<Rightarrow>
   ny_nir_value_fact \<Rightarrow> ny_nir_value_fact" where
  "dst_cmp_fact i fa fb d0 =
     (let d = d0\<lparr>vf_range := full_range 0 1\<rparr> in
      case both_const fa fb of
        None \<Rightarrow> d
      | Some (x, y) \<Rightarrow>
          (case ny_nir_analyze_cmp_fold (i_cmp i) x y of
             None \<Rightarrow> d
           | Some v \<Rightarrow> ny_nir_fact_set_const d v))"

definition dst_binary_fact ::
  "ny_nir_inst \<Rightarrow> ny_nir_value_fact option \<Rightarrow> ny_nir_value_fact option \<Rightarrow>
   ny_nir_value_fact \<Rightarrow> ny_nir_value_fact" where
  "dst_binary_fact i fa fb d =
     (case (case both_const fa fb of
              None \<Rightarrow> None
            | Some (x, y) \<Rightarrow> ny_nir_analyze_binary_fold (i_op i) x y) of
        Some v \<Rightarrow> ny_nir_fact_set_const d v
      | None \<Rightarrow>
          (case (fa, fb) of
             (Some x, Some y) \<Rightarrow>
               (case ny_nir_fact_binary_range (i_op i) x y of
                  None \<Rightarrow> d
                | Some r \<Rightarrow> d\<lparr>vf_range := r\<rparr>)
           | _ \<Rightarrow> d))"

definition dst_fact ::
  "ny_nir_inst \<Rightarrow> ny_nir_value_fact list \<Rightarrow> ny_nir_value_fact \<Rightarrow> ny_nir_value_fact" where
  "dst_fact i facts d =
     (let fa = fact_at facts (i_a i); fb = fact_at facts (i_b i)
      in if i_op i = NY_NIR_CONST_I64 then ny_nir_fact_set_const d (i_imm i)
         else if i_op i = NY_NIR_COPY then
           (case fa of
              None \<Rightarrow> d
            | Some x \<Rightarrow>
                d\<lparr>vf_known_const := vf_known_const x, vf_const_value := vf_const_value x,
                  vf_range := vf_range x\<rparr>)
         else if i_op i = NY_NIR_CMP_I64 then dst_cmp_fact i fa fb d
         else dst_binary_fact i fa fb d)"

definition analyze_inst ::
  "ny_nir_inst \<Rightarrow> ny_nir_value_fact list \<Rightarrow> ny_nir_value_fact list" where
  "analyze_inst i facts0 =
     (let facts = count_uses i facts0 in
      case fact_at facts (i_dst i) of
        None \<Rightarrow> facts
      | Some d0 \<Rightarrow>
          let d = dst_base_fact i d0; facts1 = facts[nat (i_dst i) := d]
          in facts1[nat (i_dst i) := dst_fact i facts1 d])"

fun analyze_loop ::
  "ny_nir_value_fact list \<Rightarrow> nat \<Rightarrow> ny_nir_inst list \<Rightarrow> nir_error + ny_nir_value_fact list" where
  "analyze_loop facts k [] = Inr facts"
| "analyze_loop facts k (i # rest) =
     (if i_op i = NYIR_OP_COUNT then Inl (NirInstErr k ''unknown opcode'')
      else analyze_loop (analyze_inst i facts) (Suc k) rest)"

definition ny_nir_analyze_values ::
  "ny_nir_func \<Rightarrow> nat \<Rightarrow> nir_error + ny_nir_value_fact list" where
  "ny_nir_analyze_values f fact_count =
     (if fn_next_value f < 0
      then Inl (NirErr ''native NYIR analysis: invalid value count'')
      else if nat (fn_next_value f) > fact_count
      then Inl (NirErr ''native NYIR analysis: fact table too small'')
      else analyze_loop (replicate fact_count zero_fact) 0 (fn_data f))"

section \<open>The metadata summary\<close>

record ny_nir_metadata_summary =
  ms_instructions :: nat
  ms_values :: nat
  ms_locals :: nat
  ms_labels :: nat
  ms_branches :: nat
  ms_conditional_branches :: nat
  ms_calls :: nat
  ms_returns :: nat
  ms_range_facts :: nat
  ms_debug_locs :: nat
  ms_effect_mask :: u32
  ms_ops :: "nat list"

definition count_if :: "(ny_nir_inst \<Rightarrow> bool) \<Rightarrow> ny_nir_func \<Rightarrow> nat" where
  "count_if p f = length (filter p (fn_data f))"

definition uses_local :: "ny_nir_inst \<Rightarrow> bool" where
  "uses_local i \<longleftrightarrow>
     i_op i = NY_NIR_LOAD_LOCAL \<or> i_op i = NYIR_ADDR_LOCAL \<or> i_op i = NY_NIR_STORE_LOCAL"

text \<open>The running maximum of the local numbers, \<open>-1\<close> when no instruction names one.\<close>

definition max_local :: "ny_nir_inst list \<Rightarrow> int" where
  "max_local is =
     foldl (\<lambda>m i. if uses_local i \<and> sint (i_imm i) > m then sint (i_imm i) else m) (-1) is"

definition ny_nir_metadata_summary :: "ny_nir_func \<Rightarrow> nir_error + ny_nir_metadata_summary" where
  "ny_nir_metadata_summary f =
     (case ny_nir_verify f of
        Some e \<Rightarrow> Inl e
      | None \<Rightarrow>
          Inr \<lparr>ms_instructions = fn_len f,
               ms_values = nat (fn_next_value f),
               ms_locals = nat (max_local (fn_data f) + 1),
               ms_labels = count_if (\<lambda>i. i_op i = NY_NIR_LABEL) f,
               ms_branches = count_if (\<lambda>i. i_op i = NY_NIR_BR \<or> i_op i = NY_NIR_BR_IF) f,
               ms_conditional_branches = count_if (\<lambda>i. i_op i = NY_NIR_BR_IF) f,
               ms_calls = count_if (\<lambda>i. i_op i = NY_NIR_CALL) f,
               ms_returns = count_if (\<lambda>i. i_op i = NY_NIR_RET) f,
               ms_range_facts = count_if (\<lambda>i. has_min (i_range i) \<or> has_max (i_range i)) f,
               ms_debug_locs =
                 count_if (\<lambda>i. dl_line (i_debug i) \<noteq> 0 \<or> nonempty_str (dl_file (i_debug i))) f,
               ms_effect_mask =
                 foldl (\<lambda>m i. m OR (i_effects i OR ny_nir_inst_effects i)) 0 (fn_data f),
               ms_ops =
                 map (\<lambda>c. length (filter (\<lambda>i. op_code (i_op i) = c) (fn_data f))) [0..<44]\<rparr>)"

end
