(* ===== verification/Nyir_Opt.thy ===== *)
theory Nyir_Opt
  imports Nyir_Analysis
begin

text \<open>
  The optimizer passes of \<open>src/code/native/ir/opt.c\<close>. A pass maps a function to the function it
  leaves behind, or to \<open>None\<close> where the C routine returns \<open>false\<close>.
\<close>

section \<open>Constant folding\<close>

text \<open>The optimizer has its own copies of the folding routines.\<close>

definition nir_binary_fold :: "ny_nir_op \<Rightarrow> i64 \<Rightarrow> i64 \<Rightarrow> i64 option" where
  "nir_binary_fold op a b =
     (case op of
        NY_NIR_ADD_I64 \<Rightarrow> Some (a + b)
      | NY_NIR_SUB_I64 \<Rightarrow> Some (a - b)
      | NY_NIR_MUL_I64 \<Rightarrow> Some (a * b)
      | NY_NIR_DIV_I64 \<Rightarrow>
          if b = 0 \<or> a = INT64_MIN \<and> b = -1 then None
          else Some (word_of_int (sint a sdiv sint b))
      | NY_NIR_MOD_I64 \<Rightarrow>
          if b = 0 \<or> a = INT64_MIN \<and> b = -1 then None
          else Some (word_of_int (sint a smod sint b))
      | NY_NIR_AND_I64 \<Rightarrow> Some (a AND b)
      | NY_NIR_OR_I64 \<Rightarrow> Some (a OR b)
      | NY_NIR_XOR_I64 \<Rightarrow> Some (a XOR b)
      | NY_NIR_SHL_I64 \<Rightarrow>
          if sint b < 0 \<or> sint b \<ge> 64 then None else Some (push_bit (unat b) a)
      | NY_NIR_SAR_I64 \<Rightarrow>
          if sint b < 0 \<or> sint b \<ge> 64 then None else Some (signed_drop_bit (unat b) a)
      | _ \<Rightarrow> None)"

definition nir_cmp_fold :: "ny_nir_cmp \<Rightarrow> i64 \<Rightarrow> i64 \<Rightarrow> i64 option" where
  "nir_cmp_fold cmp a b =
     (case cmp of
        NY_NIR_CMP_EQ \<Rightarrow> Some (bit_of (a = b))
      | NY_NIR_CMP_NE \<Rightarrow> Some (bit_of (a \<noteq> b))
      | NY_NIR_CMP_LT \<Rightarrow> Some (bit_of (sint a < sint b))
      | NY_NIR_CMP_LE \<Rightarrow> Some (bit_of (sint a \<le> sint b))
      | NY_NIR_CMP_GT \<Rightarrow> Some (bit_of (sint a > sint b))
      | NY_NIR_CMP_GE \<Rightarrow> Some (bit_of (sint a \<ge> sint b))
      | NY_NIR_CMP_OTHER n \<Rightarrow> None)"

text \<open>
  The state of the forward scan: the known constant of every value and of every local, and the
  locals whose address has been taken so far.
\<close>

record fold_state =
  fs_known :: const_tab
  fs_locals :: "i64 option list"
  fs_addr_taken :: "bool list"

definition fold_init :: "ny_nir_func \<Rightarrow> fold_state" where
  "fold_init f =
     (let n = nat (max_local (fn_data f) + 1) in
      \<lparr>fs_known = empty_tab f, fs_locals = replicate n None, fs_addr_taken = replicate n False\<rparr>)"

definition local_tracked :: "fold_state \<Rightarrow> ny_nir_inst \<Rightarrow> bool" where
  "local_tracked st i \<longleftrightarrow> 0 \<le> sint (i_imm i) \<and> unat (i_imm i) < length (fs_locals st)"

definition fold_to_const :: "ny_nir_inst \<Rightarrow> i64 \<Rightarrow> ny_nir_inst" where
  "fold_to_const i v =
     i\<lparr>i_op := NY_NIR_CONST_I64, i_imm := v, i_a := -1, i_b := -1, i_symbol := None\<rparr>"

definition set_known :: "fold_state \<Rightarrow> int \<Rightarrow> i64 option \<Rightarrow> fold_state" where
  "set_known st v x = st\<lparr>fs_known := tab_set (fs_known st) v x\<rparr>"

definition forget_addr_taken :: "fold_state \<Rightarrow> fold_state" where
  "forget_addr_taken st =
     st\<lparr>fs_locals := map (\<lambda>(x, t). if t then None else x) (zip (fs_locals st) (fs_addr_taken st))\<rparr>"

definition forget_locals :: "fold_state \<Rightarrow> fold_state" where
  "forget_locals st = st\<lparr>fs_locals := map (\<lambda>_. None) (fs_locals st)\<rparr>"

text \<open>A conditional branch on a known value becomes a branch or a no-op.\<close>

definition fold_branch :: "fold_state \<Rightarrow> ny_nir_inst \<Rightarrow> ny_nir_inst" where
  "fold_branch st i =
     (if i_op i = NY_NIR_BR_IF then
        (case tab_get (fs_known st) (i_a i) of
           None \<Rightarrow> i
         | Some v \<Rightarrow>
             if v \<noteq> 0 then i\<lparr>i_op := NY_NIR_BR, i_a := -1, i_b := -1\<rparr>
             else i\<lparr>i_op := NY_NIR_NOP, i_a := -1, i_b := -1, i_imm := 0\<rparr>)
      else i)"

definition clears_locals :: "ny_nir_op \<Rightarrow> bool" where
  "clears_locals op \<longleftrightarrow>
     op = NY_NIR_LABEL \<or> op = NY_NIR_BR \<or> op = NY_NIR_BR_IF \<or> op = NY_NIR_CALL"

definition fold_result :: "const_tab \<Rightarrow> ny_nir_inst \<Rightarrow> i64 option" where
  "fold_result known i =
     (case (tab_get known (i_a i), tab_get known (i_b i)) of
        (Some a, Some b) \<Rightarrow>
          (case nir_binary_fold (i_op i) a b of
             Some v \<Rightarrow> Some v
           | None \<Rightarrow>
               if i_op i = NY_NIR_CMP_I64 then nir_cmp_fold (i_cmp i) a b else None)
      | _ \<Rightarrow> None)"

text \<open>The last part of the loop body: invalidation of locals, branches, binary operators.\<close>

definition fold_general :: "fold_state \<Rightarrow> ny_nir_inst \<Rightarrow> ny_nir_inst \<times> fold_state" where
  "fold_general st0 i0 =
     (let st1 = (if i_op i0 = NYIR_STORE_I64 then forget_addr_taken st0 else st0);
          i = fold_branch st1 i0;
          st = (if clears_locals (i_op i) then forget_locals st1 else st1)
      in if i_dst i \<ge> 0 then
           (case fold_result (fs_known st) i of
              Some v \<Rightarrow> (fold_to_const i v, set_known st (i_dst i) (Some v))
            | None \<Rightarrow> (i, set_known st (i_dst i) None))
         else (i, st))"

definition const_fold_inst :: "fold_state \<Rightarrow> ny_nir_inst \<Rightarrow> ny_nir_inst \<times> fold_state" where
  "const_fold_inst st i =
     (if i_op i = NY_NIR_CONST_I64 \<and> i_dst i \<ge> 0 then
        (i, set_known st (i_dst i) (Some (i_imm i)))
      else if i_op i = NY_NIR_COPY \<and> i_dst i \<ge> 0 then
        (case tab_get (fs_known st) (i_a i) of
           Some v \<Rightarrow> (fold_to_const i v, set_known st (i_dst i) (Some v))
         | None \<Rightarrow> (i, set_known st (i_dst i) None))
      else if i_op i = NY_NIR_STORE_LOCAL \<and> local_tracked st i then
        (i, st\<lparr>fs_locals := (fs_locals st)[unat (i_imm i) := tab_get (fs_known st) (i_a i)]\<rparr>)
      else if i_op i = NY_NIR_LOAD_LOCAL \<and> i_dst i \<ge> 0 \<and> local_tracked st i \<and>
              fs_locals st ! unat (i_imm i) \<noteq> None then
        (let v = the (fs_locals st ! unat (i_imm i))
         in (fold_to_const i v, set_known st (i_dst i) (Some v)))
      else if i_op i = NYIR_ADDR_LOCAL \<and> local_tracked st i then
        (i, set_known
              (st\<lparr>fs_addr_taken := (fs_addr_taken st)[unat (i_imm i) := True],
                  fs_locals := (fs_locals st)[unat (i_imm i) := None]\<rparr>)
              (i_dst i) None)
      else fold_general st i)"

fun const_fold_loop :: "fold_state \<Rightarrow> ny_nir_inst list \<Rightarrow> ny_nir_inst list" where
  "const_fold_loop st [] = []"
| "const_fold_loop st (i # rest) =
     (case const_fold_inst st i of (i', st') \<Rightarrow> i' # const_fold_loop st' rest)"

definition ny_nir_const_fold :: "ny_nir_func \<Rightarrow> ny_nir_func option" where
  "ny_nir_const_fold f =
     (if fn_next_value f \<le> 0 then Some f
      else Some (f\<lparr>fn_data := const_fold_loop (fold_init f) (fn_data f)\<rparr>))"

section \<open>Copy propagation\<close>

definition alias_at :: "int list \<Rightarrow> int \<Rightarrow> int" where
  "alias_at alias v = (if 0 \<le> v \<and> nat v < length alias then alias ! nat v else v)"

fun alias_walk :: "nat \<Rightarrow> int list \<Rightarrow> int \<Rightarrow> int" where
  "alias_walk 0 alias cur = cur"
| "alias_walk (Suc depth) alias cur =
     (if alias_at alias cur \<ge> 0 \<and> alias_at alias cur \<noteq> cur
      then alias_walk depth alias (alias_at alias cur) else cur)"

text \<open>Follows at most 64 links.\<close>

definition nir_alias_find :: "int list \<Rightarrow> int \<Rightarrow> int" where
  "nir_alias_find alias v = (if v < 0 then v else alias_walk 64 alias v)"

definition map_prefix :: "nat \<Rightarrow> ('a \<Rightarrow> 'a) \<Rightarrow> 'a list \<Rightarrow> 'a list" where
  "map_prefix n g xs = map g (take n xs) @ drop n xs"

text \<open>Applies \<open>g\<close> to every operand of an instruction.\<close>

definition map_operands :: "(int \<Rightarrow> int) \<Rightarrow> ny_nir_inst \<Rightarrow> ny_nir_inst" where
  "map_operands g i =
     i\<lparr>i_a := g (i_a i), i_b := g (i_b i), i_c := g (i_c i), i_d := g (i_d i),
       i_e := g (i_e i), i_f := g (i_f i),
       i_extra_args := map_prefix (i_extra_args_len i) g (i_extra_args i)\<rparr>"

definition copy_prop_inst :: "int list \<Rightarrow> ny_nir_inst \<Rightarrow> ny_nir_inst \<times> int list" where
  "copy_prop_inst alias i0 =
     (let i = map_operands (nir_alias_find alias) i0 in
      (i, if i_dst i \<ge> 0
          then alias[nat (i_dst i) :=
                 if i_op i = NY_NIR_COPY \<and> i_a i \<ge> 0 then nir_alias_find alias (i_a i)
                 else i_dst i]
          else alias))"

fun copy_prop_loop :: "int list \<Rightarrow> ny_nir_inst list \<Rightarrow> ny_nir_inst list" where
  "copy_prop_loop alias [] = []"
| "copy_prop_loop alias (i # rest) =
     (case copy_prop_inst alias i of (i', alias') \<Rightarrow> i' # copy_prop_loop alias' rest)"

definition ny_nir_copy_prop :: "ny_nir_func \<Rightarrow> ny_nir_func option" where
  "ny_nir_copy_prop f =
     (if fn_next_value f \<le> 0 then Some f
      else Some (f\<lparr>fn_data :=
             copy_prop_loop (map int [0..<nat (fn_next_value f)]) (fn_data f)\<rparr>))"

section \<open>Peephole simplification\<close>

definition nir_collect_consts :: "ny_nir_func \<Rightarrow> const_tab" where
  "nir_collect_consts f = foldl note_const (empty_tab f) (fn_data f)"

definition nir_make_copy :: "ny_nir_inst \<Rightarrow> int \<Rightarrow> ny_nir_inst" where
  "nir_make_copy i src =
     zero_inst\<lparr>i_op := NY_NIR_COPY, i_dst := i_dst i, i_a := src, i_b := -1\<rparr>"

definition nir_make_const :: "ny_nir_inst \<Rightarrow> i64 \<Rightarrow> ny_nir_inst" where
  "nir_make_const i v =
     zero_inst\<lparr>i_op := NY_NIR_CONST_I64, i_dst := i_dst i, i_a := -1, i_b := -1, i_imm := v\<rparr>"

fun nir_cmp_same_value :: "ny_nir_cmp \<Rightarrow> i64 option" where
  "nir_cmp_same_value NY_NIR_CMP_EQ = Some 1"
| "nir_cmp_same_value NY_NIR_CMP_LE = Some 1"
| "nir_cmp_same_value NY_NIR_CMP_GE = Some 1"
| "nir_cmp_same_value NY_NIR_CMP_NE = Some 0"
| "nir_cmp_same_value NY_NIR_CMP_LT = Some 0"
| "nir_cmp_same_value NY_NIR_CMP_GT = Some 0"
| "nir_cmp_same_value (NY_NIR_CMP_OTHER n) = None"

definition nir_cmp_range_fold :: "ny_nir_cmp \<Rightarrow> ny_nir_range \<Rightarrow> ny_nir_range \<Rightarrow> i64 option" where
  "nir_cmp_range_fold cmp a b =
     (if \<not> has_min a \<or> \<not> has_max a \<or> \<not> has_min b \<or> \<not> has_max b then None
      else
        let amin = sint (rg_min a); amax = sint (rg_max a);
            bmin = sint (rg_min b); bmax = sint (rg_max b);
            disjoint = amax < bmin \<or> bmax < amin
        in case cmp of
             NY_NIR_CMP_EQ \<Rightarrow> if disjoint then Some 0 else None
           | NY_NIR_CMP_NE \<Rightarrow> if disjoint then Some 1 else None
           | NY_NIR_CMP_LT \<Rightarrow>
               if amax < bmin then Some 1 else if amin \<ge> bmax then Some 0 else None
           | NY_NIR_CMP_LE \<Rightarrow>
               if amax \<le> bmin then Some 1 else if amin > bmax then Some 0 else None
           | NY_NIR_CMP_GT \<Rightarrow>
               if amin > bmax then Some 1 else if amax \<le> bmin then Some 0 else None
           | NY_NIR_CMP_GE \<Rightarrow>
               if amin \<ge> bmax then Some 1 else if amax < bmin then Some 0 else None
           | NY_NIR_CMP_OTHER n \<Rightarrow> None)"

text \<open>
  The algebraic simplifications. \<open>av\<close> and \<open>bv\<close> are the known constants of the operands, so the C
  test \<open>bk && bv == 0\<close> is \<open>bv = Some 0\<close>.
\<close>

definition peephole_arith :: "ny_nir_inst \<Rightarrow> i64 option \<Rightarrow> i64 option \<Rightarrow> ny_nir_inst" where
  "peephole_arith i av bv =
     (case i_op i of
        NY_NIR_ADD_I64 \<Rightarrow>
          if bv = Some 0 then nir_make_copy i (i_a i)
          else if av = Some 0 then nir_make_copy i (i_b i) else i
      | NY_NIR_SUB_I64 \<Rightarrow>
          if i_a i = i_b i then nir_make_const i 0
          else if bv = Some 0 then nir_make_copy i (i_a i) else i
      | NY_NIR_MUL_I64 \<Rightarrow>
          if bv = Some 0 \<or> av = Some 0 then nir_make_const i 0
          else if bv = Some 1 then nir_make_copy i (i_a i)
          else if av = Some 1 then nir_make_copy i (i_b i) else i
      | NY_NIR_DIV_I64 \<Rightarrow>
          if bv = Some 1 then nir_make_copy i (i_a i)
          else if av = Some 0 \<and> bv \<noteq> None \<and> bv \<noteq> Some 0 then nir_make_const i 0 else i
      | NY_NIR_MOD_I64 \<Rightarrow>
          if bv = Some 1 \<or> bv = Some (-1) then nir_make_const i 0
          else if av = Some 0 \<and> bv \<noteq> None \<and> bv \<noteq> Some 0 then nir_make_const i 0 else i
      | NY_NIR_AND_I64 \<Rightarrow>
          if i_a i = i_b i then nir_make_copy i (i_a i)
          else if bv = Some 0 \<or> av = Some 0 then nir_make_const i 0
          else if bv = Some (-1) then nir_make_copy i (i_a i)
          else if av = Some (-1) then nir_make_copy i (i_b i) else i
      | NY_NIR_OR_I64 \<Rightarrow>
          if i_a i = i_b i then nir_make_copy i (i_a i)
          else if bv = Some (-1) \<or> av = Some (-1) then nir_make_const i (-1)
          else if bv = Some 0 then nir_make_copy i (i_a i)
          else if av = Some 0 then nir_make_copy i (i_b i) else i
      | NY_NIR_XOR_I64 \<Rightarrow>
          if i_a i = i_b i then nir_make_const i 0
          else if bv = Some 0 then nir_make_copy i (i_a i)
          else if av = Some 0 then nir_make_copy i (i_b i) else i
      | NY_NIR_SHL_I64 \<Rightarrow>
          if bv = Some 0 then nir_make_copy i (i_a i)
          else if av = Some 0 then nir_make_const i 0 else i
      | NY_NIR_SAR_I64 \<Rightarrow>
          if bv = Some 0 then nir_make_copy i (i_a i)
          else if av = Some 0 then nir_make_const i 0 else i
      | _ \<Rightarrow> i)"

definition fact_range :: "ny_nir_value_fact list \<Rightarrow> int \<Rightarrow> ny_nir_range" where
  "fact_range facts v =
     (case fact_at facts v of None \<Rightarrow> zero_range | Some x \<Rightarrow> vf_range x)"

definition peephole_cmp :: "ny_nir_inst \<Rightarrow> ny_nir_value_fact list \<Rightarrow> ny_nir_inst" where
  "peephole_cmp i facts =
     (if i_a i = i_b i then
        (case nir_cmp_same_value (i_cmp i) of
           Some v \<Rightarrow> nir_make_const i v
         | None \<Rightarrow> i)
      else
        (case nir_cmp_range_fold (i_cmp i) (fact_range facts (i_a i)) (fact_range facts (i_b i)) of
           Some v \<Rightarrow> nir_make_const i v
         | None \<Rightarrow> i))"

definition peephole_inst ::
  "const_tab \<Rightarrow> ny_nir_value_fact list \<Rightarrow> ny_nir_inst \<Rightarrow> ny_nir_inst" where
  "peephole_inst cs facts i =
     (if i_dst i < 0 \<or> i_a i < 0 \<or> i_b i < 0 then i
      else if i_op i = NY_NIR_CMP_I64 then peephole_cmp i facts
      else peephole_arith i (tab_get cs (i_a i)) (tab_get cs (i_b i)))"

definition ny_nir_peephole :: "ny_nir_func \<Rightarrow> ny_nir_func option" where
  "ny_nir_peephole f =
     (if fn_next_value f \<le> 0 then Some f
      else (case ny_nir_analyze_values f (nat (fn_next_value f)) of
              Inl e \<Rightarrow> None
            | Inr facts \<Rightarrow>
                Some (f\<lparr>fn_data := map (peephole_inst (nir_collect_consts f) facts) (fn_data f)\<rparr>)))"

section \<open>Control-flow simplification\<close>

text \<open>The instruction at \<open>nir_next_non_nop\<close>, searched in the instructions that follow.\<close>

fun nir_next_non_nop :: "ny_nir_inst list \<Rightarrow> ny_nir_inst option" where
  "nir_next_non_nop [] = None"
| "nir_next_non_nop (i # rest) =
     (if i_op i \<noteq> NY_NIR_NOP then Some i else nir_next_non_nop rest)"

definition cfg_nop :: ny_nir_inst where
  "cfg_nop = zero_inst\<lparr>i_dst := -1, i_a := -1, i_b := -1\<rparr>"

definition cfg_branch :: "i64 \<Rightarrow> ny_nir_inst" where
  "cfg_branch target =
     zero_inst\<lparr>i_op := NY_NIR_BR, i_dst := -1, i_a := -1, i_b := -1, i_imm := target\<rparr>"

definition cfg_fold_branch :: "const_tab \<Rightarrow> ny_nir_inst \<Rightarrow> ny_nir_inst" where
  "cfg_fold_branch cs i =
     (if i_op i = NY_NIR_BR_IF then
        (case tab_get cs (i_a i) of
           None \<Rightarrow> i
         | Some v \<Rightarrow> if v \<noteq> 0 then cfg_branch (i_imm i) else cfg_nop)
      else i)"

definition jumps_to_next :: "ny_nir_inst \<Rightarrow> ny_nir_inst list \<Rightarrow> bool" where
  "jumps_to_next i rest \<longleftrightarrow>
     i_op i = NY_NIR_BR \<and>
     (case nir_next_non_nop rest of
        None \<Rightarrow> False
      | Some j \<Rightarrow> i_op j = NY_NIR_LABEL \<and> i_imm j = i_imm i)"

fun cfg_loop :: "const_tab \<Rightarrow> ny_nir_inst list \<Rightarrow> ny_nir_inst list" where
  "cfg_loop cs [] = []"
| "cfg_loop cs (i # rest) =
     (let j = cfg_fold_branch cs i
      in (if jumps_to_next j rest then cfg_nop else j) # cfg_loop cs rest)"

definition ny_nir_cfg_simplify :: "ny_nir_func \<Rightarrow> ny_nir_func option" where
  "ny_nir_cfg_simplify f = Some (f\<lparr>fn_data := cfg_loop (nir_collect_consts f) (fn_data f)\<rparr>)"

section \<open>Dead code elimination\<close>

definition is_label_op :: "ny_nir_op \<Rightarrow> bool" where
  "is_label_op op \<longleftrightarrow> op = NY_NIR_LABEL \<or> op = NY_NIR_BR \<or> op = NY_NIR_BR_IF"

definition max_label :: "ny_nir_inst list \<Rightarrow> int" where
  "max_label is =
     foldl (\<lambda>m i. if is_label_op (i_op i) \<and> sint (i_imm i) \<ge> 0 \<and> sint (i_imm i) > m
                  then sint (i_imm i) else m) (-1) is"

text \<open>
  \<open>NIR_LABEL_REFERENCED\<close>: a table built from the function as it was at entry answers for labels in
  its range, when it is small enough to be built; otherwise the current instructions are searched.
\<close>

definition label_referenced_now :: "ny_nir_func \<Rightarrow> ny_nir_inst list \<Rightarrow> i64 \<Rightarrow> bool" where
  "label_referenced_now f cur label =
     (let m = max_label (fn_data f) in
      if 0 \<le> m \<and> m \<le> int (fn_len f) * 4 + 1024 \<and> 0 \<le> sint label \<and> sint label \<le> m
      then ny_nir_label_referenced f label
      else ny_nir_label_referenced (f\<lparr>fn_data := cur\<rparr>) label)"

text \<open>The forward pass that discards unreachable instructions; \<open>done\<close> is the part already seen.\<close>

fun dce_reach ::
  "ny_nir_func \<Rightarrow> ny_nir_inst list \<Rightarrow> bool \<Rightarrow> bool \<Rightarrow> bool \<Rightarrow> ny_nir_inst list \<Rightarrow> ny_nir_inst list"
  where
  "dce_reach f seen reachable fallthrough first_inst [] = seen"
| "dce_reach f seen reachable fallthrough first_inst (i # rest) =
     (let here = first_inst \<or> fallthrough \<or> label_referenced_now f (seen @ i # rest) (i_imm i);
          reach1 = (if i_op i = NY_NIR_LABEL then here else reachable);
          fall1 = (if i_op i = NY_NIR_LABEL then here else fallthrough)
      in if \<not> reach1 \<and> i_op i \<noteq> NY_NIR_LABEL
         then dce_reach f (seen @ [ny_nir_inst_discard i]) reach1 fall1 False rest
         else if i_op i = NY_NIR_RET \<or> i_op i = NY_NIR_BR
         then dce_reach f (seen @ [i]) False False False rest
         else if i_op i \<noteq> NY_NIR_NOP
         then dce_reach f (seen @ [i]) reach1 reach1 False rest
         else dce_reach f (seen @ [i]) reach1 fall1 False rest)"

text \<open>The operands that count as uses.\<close>

definition operand_list :: "ny_nir_inst \<Rightarrow> int list" where
  "operand_list i =
     [i_a i, i_b i, i_c i, i_d i, i_e i, i_f i] @ take (i_extra_args_len i) (i_extra_args i)"

definition mark_used :: "bool list \<Rightarrow> ny_nir_inst \<Rightarrow> bool list" where
  "mark_used used i = foldl (\<lambda>u v. if 0 \<le> v then u[nat v := True] else u) used (operand_list i)"

definition dce_keeps :: "ny_nir_func \<Rightarrow> ny_nir_inst list \<Rightarrow> bool list \<Rightarrow> ny_nir_inst \<Rightarrow> bool" where
  "dce_keeps f cur used i \<longleftrightarrow>
     (if i_op i = NY_NIR_LABEL then label_referenced_now f cur (i_imm i)
      else i_effects i \<noteq> NY_NIR_EFFECT_NONE \<or> i_op i = NY_NIR_RET \<or> i_op i = NY_NIR_BR \<or>
           i_op i = NY_NIR_BR_IF) \<or>
     (i_dst i \<ge> 0 \<and> nat (i_dst i) < length used \<and> used ! nat (i_dst i))"

text \<open>The backward sweep over the reversed prefix; \<open>suf\<close> is the part already swept.\<close>

fun dce_sweep ::
  "ny_nir_func \<Rightarrow> bool list \<Rightarrow> ny_nir_inst list \<Rightarrow> ny_nir_inst list \<Rightarrow> ny_nir_inst list" where
  "dce_sweep f used [] suf = suf"
| "dce_sweep f used (i # rprefix) suf =
     (if dce_keeps f (rev rprefix @ i # suf) used i
      then dce_sweep f (mark_used used i) rprefix (i # suf)
      else dce_sweep f used rprefix (ny_nir_inst_discard i # suf))"

definition ny_nir_dce :: "ny_nir_func \<Rightarrow> ny_nir_func option" where
  "ny_nir_dce f =
     (if fn_next_value f \<le> 0 then Some f
      else let live = dce_reach f [] True True True (fn_data f)
           in Some (f\<lparr>fn_data :=
                dce_sweep f (replicate (nat (fn_next_value f)) False) (rev live) []\<rparr>))"

section \<open>Compaction\<close>

text \<open>The renumbering: destinations in order of their instructions.\<close>

fun compact_map :: "int \<Rightarrow> int \<Rightarrow> int list \<Rightarrow> ny_nir_inst list \<Rightarrow> (int list \<times> int) option" where
  "compact_map limit next m [] = Some (m, next)"
| "compact_map limit next m (i # rest) =
     (if i_dst i \<ge> 0 then
        (if i_dst i \<ge> limit then None
         else compact_map limit (next + 1) (m[nat (i_dst i) := next]) rest)
      else compact_map limit next m rest)"

definition nir_remap_value :: "int list \<Rightarrow> int \<Rightarrow> int option" where
  "nir_remap_value m v =
     (if v < 0 then Some v
      else if nat v \<ge> length m \<or> m ! nat v < 0 then None
      else Some (m ! nat v))"

fun remap_list :: "int list \<Rightarrow> int list \<Rightarrow> int list option" where
  "remap_list m [] = Some []"
| "remap_list m (v # vs) =
     (case nir_remap_value m v of
        None \<Rightarrow> None
      | Some w \<Rightarrow> map_option (Cons w) (remap_list m vs))"

definition remap_inst :: "int list \<Rightarrow> ny_nir_inst \<Rightarrow> ny_nir_inst option" where
  "remap_inst m i =
     (case remap_list m [i_dst i, i_a i, i_b i, i_c i, i_d i, i_e i, i_f i] of
        Some [dst, a, b, c, d, e, f] \<Rightarrow>
          (case remap_list m (take (i_extra_args_len i) (i_extra_args i)) of
             None \<Rightarrow> None
           | Some xs \<Rightarrow>
               Some (i\<lparr>i_dst := dst, i_a := a, i_b := b, i_c := c, i_d := d, i_e := e, i_f := f,
                       i_extra_args := xs @ drop (i_extra_args_len i) (i_extra_args i)\<rparr>))
      | _ \<Rightarrow> None)"

fun remap_insts :: "int list \<Rightarrow> ny_nir_inst list \<Rightarrow> ny_nir_inst list option" where
  "remap_insts m [] = Some []"
| "remap_insts m (i # rest) =
     (case remap_inst m i of
        None \<Rightarrow> None
      | Some j \<Rightarrow> map_option (Cons j) (remap_insts m rest))"

definition ny_nir_compact :: "ny_nir_func \<Rightarrow> ny_nir_func option" where
  "ny_nir_compact f =
     (if fn_data f = [] then Some f
      else
        let kept = filter (\<lambda>i. i_op i \<noteq> NY_NIR_NOP) (fn_data f) in
        if fn_next_value f \<le> 0 then Some (f\<lparr>fn_data := kept\<rparr>)
        else
          (case compact_map (fn_next_value f) 0 (replicate (nat (fn_next_value f)) (-1)) kept of
             None \<Rightarrow> None
           | Some (m, next) \<Rightarrow>
               (case remap_insts m kept of
                  None \<Rightarrow> None
                | Some is \<Rightarrow> Some (f\<lparr>fn_data := is, fn_next_value := next\<rparr>))))"

section \<open>The pipeline\<close>

text \<open>A pass followed by a refresh of the metadata, as \<open>timed_pass\<close> runs it.\<close>

definition timed_pass :: "(ny_nir_func \<Rightarrow> ny_nir_func option) \<Rightarrow> ny_nir_func \<Rightarrow> ny_nir_func option" where
  "timed_pass pass f = map_option ny_nir_refresh_metadata (pass f)"

definition opt_passes :: "(ny_nir_func \<Rightarrow> ny_nir_func option) list" where
  "opt_passes =
     [ny_nir_const_fold, ny_nir_peephole, ny_nir_copy_prop, ny_nir_const_fold,
      ny_nir_cfg_simplify, ny_nir_dce, ny_nir_cfg_simplify, ny_nir_compact]"

fun run_passes ::
  "(ny_nir_func \<Rightarrow> ny_nir_func option) list \<Rightarrow> ny_nir_func \<Rightarrow> ny_nir_func option" where
  "run_passes [] f = Some f"
| "run_passes (p # ps) f = (case timed_pass p f of None \<Rightarrow> None | Some g \<Rightarrow> run_passes ps g)"

definition ny_nir_optimize :: "ny_nir_func \<Rightarrow> ny_nir_func option" where
  "ny_nir_optimize f = map_option ny_nir_refresh_metadata (run_passes opt_passes f)"

text \<open>The debug pipeline runs the verifier after every pass and stops at the first rejection.\<close>

definition timed_pass_verified ::
  "(ny_nir_func \<Rightarrow> ny_nir_func option) \<Rightarrow> ny_nir_func \<Rightarrow> ny_nir_func option" where
  "timed_pass_verified pass f =
     (case timed_pass pass f of
        None \<Rightarrow> None
      | Some g \<Rightarrow> if ny_nir_verify g = None then Some g else None)"

fun run_passes_verified ::
  "(ny_nir_func \<Rightarrow> ny_nir_func option) list \<Rightarrow> ny_nir_func \<Rightarrow> ny_nir_func option" where
  "run_passes_verified [] f = Some f"
| "run_passes_verified (p # ps) f =
     (case timed_pass_verified p f of None \<Rightarrow> None | Some g \<Rightarrow> run_passes_verified ps g)"

definition ny_nir_optimize_debug :: "ny_nir_func \<Rightarrow> ny_nir_func option" where
  "ny_nir_optimize_debug f = map_option ny_nir_refresh_metadata (run_passes_verified opt_passes f)"

end
