(* ===== verification/Nyir_Sim.thy ===== *)
theory Nyir_Sim
  imports Nyir_Sem Nyir_Opt
begin

text \<open>
  Simulation between a function and the function a pass makes of it. A pass that keeps the
  positions of all instructions runs in lockstep with the original: the locale states what such a
  pass has to guarantee for one step, and derives that complete runs have the same outcome.
\<close>

section \<open>Label tables\<close>

lemma label_table_SomeD:
  "label_table k is l = Some p \<Longrightarrow>
   \<exists>j<length is. p = Suc (k + j) \<and> i_op (is ! j) = NY_NIR_LABEL \<and> i_imm (is ! j) = l \<and> 0 \<le> sint l"
proof (induction k "is" rule: label_table.induct)
  case (1 k)
  then show ?case by simp
next
  case (2 k i rest)
  show ?case
  proof (cases "label_table (Suc k) rest l")
    case None
    then show ?thesis
      using "2.prems" by (fastforce simp: map_add_def split: if_splits)
  next
    case (Some q)
    then have "p = q"
      using "2.prems" by (auto simp: map_add_def split: if_splits)
    then show ?thesis
      using "2.IH" Some by (cases "i_op i = NY_NIR_LABEL \<and> sint (i_imm i) \<ge> 0") fastforce+
  qed
qed

lemma label_table_exists:
  "j < length is \<Longrightarrow> i_op (is ! j) = NY_NIR_LABEL \<Longrightarrow> i_imm (is ! j) = l \<Longrightarrow> 0 \<le> sint l \<Longrightarrow>
   \<exists>p. label_table k is l = Some p"
proof (induction k "is" arbitrary: j rule: label_table.induct)
  case (1 k)
  then show ?case by simp
next
  case (2 k i rest)
  show ?case
  proof (cases j)
    case 0
    then have "i_op i = NY_NIR_LABEL" "i_imm i = l" "0 \<le> sint (i_imm i)"
      using "2.prems" by simp_all
    then show ?thesis
      by (cases "label_table (Suc k) rest l") (simp_all add: map_add_def)
  next
    case (Suc j')
    then have "\<exists>p. label_table (Suc k) rest l = Some p"
      using "2.prems" "2.IH"(1) [of j'] "2.IH"(2) [of j'] by auto
    then show ?thesis
      by (auto simp: map_add_def)
  qed
qed

lemma label_pc_SomeD:
  "label_pc f l = Some p \<Longrightarrow>
   0 < p \<and> p \<le> fn_len f \<and> i_op (fn_data f ! (p - 1)) = NY_NIR_LABEL \<and>
   i_imm (fn_data f ! (p - 1)) = l \<and> 0 \<le> sint l"
proof -
  assume "label_pc f l = Some p"
  then obtain j where "j < fn_len f" "p = Suc j" "i_op (fn_data f ! j) = NY_NIR_LABEL"
      "i_imm (fn_data f ! j) = l" "0 \<le> sint l"
    unfolding label_pc_def using label_table_SomeD [of 0 "fn_data f" l p] by (metis add_0)
  then show ?thesis
    by simp
qed

lemma label_pc_unique:
  assumes "verified f" "j < fn_len f" "i_op (fn_data f ! j) = NY_NIR_LABEL"
    "i_imm (fn_data f ! j) = l" "0 \<le> sint l"
  shows "label_pc f l = Some (Suc j)"
proof -
  obtain p where p: "label_pc f l = Some p"
    using label_table_exists [OF assms(2-5)] by (auto simp: label_pc_def)
  have d: "0 < p" "p - 1 < fn_len f" "i_op (fn_data f ! (p - 1)) = NY_NIR_LABEL"
      "i_imm (fn_data f ! (p - 1)) = l"
    using label_pc_SomeD [OF p] by (simp_all, linarith)
  have "p - 1 = j"
    by (rule verified_label_unique [OF assms(1) d(2) assms(2) d(3) assms(3)]) (simp only: d(4) assms(4))
  then show ?thesis
    using p d(1) by simp
qed

text \<open>Instructions that agree on the labels they define.\<close>

definition same_label :: "ny_nir_inst \<Rightarrow> ny_nir_inst \<Rightarrow> bool" where
  "same_label i j \<longleftrightarrow>
     (i_op i = NY_NIR_LABEL) = (i_op j = NY_NIR_LABEL) \<and>
     (i_op i = NY_NIR_LABEL \<longrightarrow> i_imm i = i_imm j)"

lemma label_table_cong:
  "list_all2 same_label is js \<Longrightarrow> label_table k is = label_table k js"
  by (induction "is" arbitrary: js k) (auto simp: list_all2_Cons1 same_label_def)

lemma label_pc_cong:
  assumes "fn_len g = fn_len f" "\<And>k. k < fn_len f \<Longrightarrow> same_label (fn_data f ! k) (fn_data g ! k)"
  shows "label_pc g = label_pc f"
proof -
  have "list_all2 same_label (fn_data f) (fn_data g)"
    using assms by (simp add: list_all2_conv_all_nth)
  then show ?thesis
    by (simp add: label_pc_def fun_eq_iff label_table_cong)
qed

fun out_rel :: "(core \<Rightarrow> core \<Rightarrow> bool) \<Rightarrow> core_out \<Rightarrow> core_out \<Rightarrow> bool" where
  "out_rel R (Cont c) (Cont d) \<longleftrightarrow> R c d"
| "out_rel R (Stop v m) (Stop w m') \<longleftrightarrow> v = w \<and> m = m'"
| "out_rel R _ _ \<longleftrightarrow> False"

section \<open>What one step changes\<close>

lemma finish_value:
  "finish i c (Flow (Some v) m p) = Some (Cont c') \<Longrightarrow> 0 \<le> i_dst i \<Longrightarrow> tab_get (c_vals c') (i_dst i) = Some v"
  by (auto simp: finish_def write_dst_def tab_get_def split: if_splits)

lemma finish_mem: "finish i c (Flow x m p) = Some (Cont c') \<Longrightarrow> c_mem c' = m"
  by (auto simp: finish_def)

lemma sem_at_mem:
  assumes "sem_at env lbl i c = Some (Cont c')"
    "i_op i \<noteq> NY_NIR_STORE_LOCAL" "i_op i \<noteq> NY_NIR_CALL" "i_op i \<noteq> NYIR_STORE_I64"
  shows "c_mem c' = c_mem c"
proof -
  obtain vs out where "inst_sem env lbl i vs (c_mem c) = Some out" "finish i c out = Some (Cont c')"
    using assms(1) by (auto simp: sem_at_def split: option.splits)
  then show ?thesis
    using assms(2-4) finish_mem
    by (cases "i_op i") (auto simp: inst_sem_def jump_sem_def finish_def split: if_splits)
qed

lemma inst_sem_jump:
  "inst_sem env lbl i vs m = Some (Flow x m' p) \<Longrightarrow> p = None \<or> p = lbl (i_imm i)"
  by (cases "i_op i")
     (auto simp: inst_sem_def jump_sem_def call_sem_def split: if_splits option.splits sum.splits)

lemma sem_at_finish:
  assumes "sem_at env lbl i c = Some (Cont c')"
  obtains x m p where "finish i c (Flow x m p) = Some (Cont c')" "p = None \<or> p = lbl (i_imm i)"
proof -
  obtain vs out where o: "inst_sem env lbl i vs (c_mem c) = Some out" "finish i c out = Some (Cont c')"
    using assms(1) by (auto simp: sem_at_def split: option.splits)
  then obtain x m p where "out = Flow x m p"
    by (cases out) (simp_all add: finish_def)
  then show ?thesis
    using that o inst_sem_jump [of env lbl i vs "c_mem c"] by blast
qed

lemma sem_at_vals:
  assumes "sem_at env lbl i c = Some (Cont c')" "v \<noteq> i_dst i"
  shows "tab_get (c_vals c') v = tab_get (c_vals c) v"
  using assms(1)
  by (rule sem_at_finish)
     (use assms(2) in \<open>auto simp: finish_def write_dst_def tab_get_def nth_list_update split: option.splits if_splits\<close>)

lemma sem_at_pc:
  assumes "sem_at env lbl i c = Some (Cont c')"
  obtains "c_pc c' = Suc (c_pc c)" | "lbl (i_imm i) = Some (c_pc c')"
  using assms
  by (rule sem_at_finish) (auto simp: finish_def split: option.splits)

lemma sem_at_pc_Suc:
  assumes "sem_at env lbl i c = Some (Cont c')" "i_op i \<noteq> NY_NIR_BR" "i_op i \<noteq> NY_NIR_BR_IF"
  shows "c_pc c' = Suc (c_pc c)"
proof -
  obtain vs out where "inst_sem env lbl i vs (c_mem c) = Some out" "finish i c out = Some (Cont c')"
    using assms(1) by (auto simp: sem_at_def split: option.splits)
  moreover have "inst_sem env lbl i vs m = Some (Flow x m' p) \<Longrightarrow> p = None" for x m m' p
    using assms(2,3) by (cases "i_op i")
      (auto simp: inst_sem_def call_sem_def split: if_splits option.splits sum.splits)
  ultimately show ?thesis
    by (cases out) (fastforce simp: finish_def)+
qed

lemma sem_at_BR:
  "i_op i = NY_NIR_BR \<Longrightarrow> sem_at env lbl i c = Some (Cont c') \<Longrightarrow> lbl (i_imm i) = Some (c_pc c')"
  by (auto simp: sem_at_def inst_reads_def inst_sem_def jump_sem_def finish_def write_dst_def
      split: option.splits)

lemma sem_at_RET: "i_op i = NY_NIR_RET \<Longrightarrow> sem_at env lbl i c \<noteq> Some (Cont c')"
  by (auto simp: sem_at_def inst_sem_def finish_def split: option.splits)

lemma sem_at_no_stop: "sem_at env lbl i c = Some (Stop v m) \<Longrightarrow> i_op i = NY_NIR_RET"
proof -
  assume "sem_at env lbl i c = Some (Stop v m)"
  then obtain vs out where "inst_sem env lbl i vs (c_mem c) = Some out" "finish i c out = Some (Stop v m)"
    by (auto simp: sem_at_def split: option.splits)
  moreover have "inst_sem env lbl i vs m = Some (Return x) \<Longrightarrow> i_op i = NY_NIR_RET" for x m
    by (cases "i_op i")
       (auto simp: inst_sem_def call_sem_def jump_sem_def split: if_splits option.splits sum.splits)
  ultimately show ?thesis
    by (cases out) (auto simp: finish_def)
qed

lemma sem_at_length:
  assumes "sem_at env lbl i c = Some (Cont c')"
  shows "length (c_vals c') = length (c_vals c)"
  by (rule sem_at_finish [OF assms])
     (auto simp: finish_def write_dst_def split: option.splits if_splits)

lemma sem_at_lbl_cong:
  "i_op i \<noteq> NY_NIR_BR \<Longrightarrow> i_op i \<noteq> NY_NIR_BR_IF \<Longrightarrow> sem_at env lbl i c = sem_at env lbl' i c"
proof -
  assume "i_op i \<noteq> NY_NIR_BR" "i_op i \<noteq> NY_NIR_BR_IF"
  then have "inst_sem env lbl i = inst_sem env lbl' i"
    by (cases "i_op i") (simp_all add: fun_eq_iff inst_sem_def)
  then show ?thesis
    unfolding sem_at_def by (simp only:)
qed

lemma sem_at_branch_lbl:
  assumes "i_op i = NY_NIR_BR \<or> i_op i = NY_NIR_BR_IF" "sem_at env lbl i c = Some r"
    "\<And>p. lbl (i_imm i) = Some p \<Longrightarrow> lbl' (i_imm i) = Some p"
  shows "sem_at env lbl' i c = Some r"
  using assms(1)
proof
  assume "i_op i = NY_NIR_BR"
  then show ?thesis
    using assms(2,3)
    by (auto simp: sem_at_def inst_reads_def inst_sem_def jump_sem_def split: option.splits)
next
  assume "i_op i = NY_NIR_BR_IF"
  then show ?thesis
    using assms(2,3)
    by (auto simp: sem_at_def inst_reads_def inst_sem_def jump_sem_def split: option.splits if_splits)
qed

text \<open>
  An instruction depends on the values it reads only: two machine states that agree on those and on
  the memory make the same move, and write the same value.
\<close>

definition agree_on :: "(int \<Rightarrow> bool) \<Rightarrow> core \<Rightarrow> core \<Rightarrow> bool" where
  "agree_on V c d \<longleftrightarrow>
     c_pc d = c_pc c \<and> c_mem d = c_mem c \<and> length (c_vals d) = length (c_vals c) \<and>
     (\<forall>v. V v \<longrightarrow> tab_get (c_vals d) v = tab_get (c_vals c) v)"

lemma reads_cong: "(\<And>v. v \<in> set vs \<Longrightarrow> tab_get t v = tab_get u v) \<Longrightarrow> reads t vs = reads u vs"
  by (induction vs) (auto split: option.splits)

lemma finish_agree:
  assumes "agree_on V c d" "finish i c out = Some r"
  shows "\<exists>r'. finish i d out = Some r' \<and> out_rel (agree_on V) r r'"
proof (cases out)
  case (Return x)
  then show ?thesis
    using assms by (auto simp: finish_def agree_on_def)
next
  case (Flow x m p)
  then show ?thesis
    using assms
    by (cases x; cases p)
       (auto simp: finish_def agree_on_def write_dst_def tab_get_def nth_list_update split: if_splits)
qed

lemma sem_at_agree:
  assumes "agree_on V c d" "sem_at env lbl i c = Some r" "\<And>v. v \<in> set (inst_reads i) \<Longrightarrow> V v"
  shows "\<exists>r'. sem_at env lbl i d = Some r' \<and> out_rel (agree_on V) r r'"
proof -
  have "reads (c_vals d) (inst_reads i) = reads (c_vals c) (inst_reads i)"
    using assms(1,3) by (intro reads_cong) (auto simp: agree_on_def)
  moreover have "c_mem d = c_mem c"
    using assms(1) by (simp add: agree_on_def)
  ultimately show ?thesis
    using assms(2) finish_agree [OF assms(1)] by (auto simp: sem_at_def split: option.splits)
qed

section \<open>Lockstep passes\<close>

locale lockstep_pass =
  fixes pass :: "ny_nir_func \<Rightarrow> ny_nir_func option"
    and ok :: "vm_env \<Rightarrow> ny_nir_func \<Rightarrow> bool"
    and rel :: "vm_env \<Rightarrow> ny_nir_func \<Rightarrow> core \<Rightarrow> core \<Rightarrow> bool"
  assumes pass_len: "pass f = Some g \<Longrightarrow> fn_len g = fn_len f"
    and rel_init: "ok env f \<Longrightarrow> pass f = Some g \<Longrightarrow> rel env f (core_init f ls h) (core_init g ls h)"
    and rel_pc: "rel env f c d \<Longrightarrow> c_pc d = c_pc c"
    and rel_mem: "rel env f c d \<Longrightarrow> c_mem d = c_mem c"
    and rel_step: "ok env f \<Longrightarrow> pass f = Some g \<Longrightarrow> rel env f c d \<Longrightarrow> c_pc c < fn_len f \<Longrightarrow>
           core_step env f c = Some r \<Longrightarrow> \<exists>r'. core_step env g d = Some r' \<and> out_rel (rel env f) r r'"
begin

lemma loop_preserved:
  assumes "ok env f" "pass f = Some g"
  shows "rel env f c d \<Longrightarrow> core_loop env f n left c = Some out \<Longrightarrow> core_loop env g n left d = Some out"
proof (induction left arbitrary: n c d)
  case 0
  then show ?case
    using assms by (auto simp: core_loop.simps pass_len rel_pc rel_mem split: if_splits)
next
  case (Suc left)
  show ?case
  proof (cases "c_pc c < fn_len f")
    case False
    then show ?thesis
      using Suc.prems assms by (auto simp: core_loop.simps pass_len rel_pc rel_mem)
  next
    case True
    then obtain r where r: "core_step env f c = Some r"
      using Suc.prems by (auto simp: core_loop.simps [of env f n] split: option.splits)
    obtain r' where r': "core_step env g d = Some r'" "out_rel (rel env f) r r'"
      using rel_step [OF assms Suc.prems(1) True r] by auto
    show ?thesis
      using Suc True r r' assms
      by (cases r; cases r')
         (auto simp: core_loop.simps [of env f n] core_loop.simps [of env g n] pass_len rel_pc)
  qed
qed

lemma run_preserved:
  "ok env f \<Longrightarrow> pass f = Some g \<Longrightarrow> core_run env f ls h n = Some out \<Longrightarrow> core_run env g ls h n = Some out"
  unfolding core_run_def by (rule loop_preserved [OF _ _ rel_init])

lemma eval_preserved:
  assumes "ok env f" "pass f = Some g" "eval_run env f ls h n = Inr s"
  shows "\<exists>t. eval_run env g ls h n = Inr t \<and> outcome_of t = outcome_of s"
proof -
  have "abs_run (eval_run env g ls h n) = Some (outcome_of s)"
    using run_preserved [OF assms(1,2), of ls h n "outcome_of s"] assms(3)
      core_run_refines [of env f ls h n] core_run_refines [of env g ls h n]
    by (simp add: abs_run_def)
  then show ?thesis
    by (auto simp: abs_run_def split: sum.splits)
qed

end

section \<open>Terminating runs\<close>

text \<open>
  What remains of a finished run when the number of steps is left out: whether it returned, the
  result and the memory. Passes that delete or insert no-ops preserve this much.
\<close>

type_synonym verdict = "bool \<times> i64 \<times> vm_mem"

definition verdict_of :: "outcome \<Rightarrow> verdict" where
  "verdict_of out = (o_returned out, o_result out, o_mem out)"

inductive halts_with :: "vm_env \<Rightarrow> ny_nir_func \<Rightarrow> core \<Rightarrow> verdict \<Rightarrow> bool" for env f where
  off_end: "\<not> c_pc c < fn_len f \<Longrightarrow> halts_with env f c (False, 0, c_mem c)"
| returns: "c_pc c < fn_len f \<Longrightarrow> core_step env f c = Some (Stop v m) \<Longrightarrow> halts_with env f c (True, v, m)"
| goes_on: "c_pc c < fn_len f \<Longrightarrow> core_step env f c = Some (Cont c') \<Longrightarrow> halts_with env f c' r \<Longrightarrow>
    halts_with env f c r"

lemma core_loop_halts:
  "core_loop env f n left c = Some out \<Longrightarrow> halts_with env f c (verdict_of out)"
proof (induction left arbitrary: n c)
  case 0
  then show ?case
    by (auto simp: core_loop.simps verdict_of_def intro: halts_with.off_end split: if_splits)
next
  case (Suc left)
  show ?case
  proof (cases "c_pc c < fn_len f")
    case False
    then show ?thesis
      using Suc.prems by (auto simp: core_loop.simps verdict_of_def intro: halts_with.off_end)
  next
    case True
    then obtain r where r: "core_step env f c = Some r"
      using Suc.prems by (auto simp: core_loop.simps [of env f n] split: option.splits)
    show ?thesis
      using Suc True r
      by (cases r) (auto simp: core_loop.simps [of env f n] verdict_of_def intro: halts_with.intros)
  qed
qed

lemma halts_core_loop:
  "halts_with env f c r \<Longrightarrow> \<exists>k. \<forall>left\<ge>k. \<forall>n. \<exists>out. core_loop env f n left c = Some out \<and> verdict_of out = r"
proof (induction rule: halts_with.induct)
  case (off_end c)
  then show ?case
    by (auto simp: core_loop.simps verdict_of_def)
next
  case (returns c v m)
  then have "\<exists>out. core_loop env f n left c = Some out \<and> verdict_of out = (True, v, m)" if "1 \<le> left" for left n
    using that by (cases left) (simp_all add: core_loop.simps [of env f n] verdict_of_def)
  then show ?case
    by blast
next
  case (goes_on c c' r)
  then obtain k where k: "\<forall>left\<ge>k. \<forall>n. \<exists>out. core_loop env f n left c' = Some out \<and> verdict_of out = r"
    by blast
  then have "\<exists>out. core_loop env f n left c = Some out \<and> verdict_of out = r" if "Suc k \<le> left" for left n
    using that goes_on.hyps by (cases left) (simp_all add: core_loop.simps [of env f n])
  then show ?case
    by blast
qed

lemma halts_iter: "core_iter env f n c = Some c' \<Longrightarrow> halts_with env f c' r \<Longrightarrow> halts_with env f c r"
  by (induction n arbitrary: c) (auto split: if_splits option.splits core_out.splits intro: halts_with.goes_on)

text \<open>
  A run of the virtual machine ends with a verdict iff the abstract machine halts with it, given a
  step limit that is large enough.
\<close>

lemma eval_run_halts:
  assumes "eval_run env f ls h n = Inr s"
  shows "halts_with env f (core_init f ls h) (verdict_of (outcome_of s))"
proof -
  have "core_run env f ls h n = Some (outcome_of s)"
    using core_run_refines [of env f ls h n] assms by (simp add: abs_run_def)
  then show ?thesis
    unfolding core_run_def by (rule core_loop_halts)
qed

lemma halts_eval_run:
  assumes "halts_with env f (core_init f ls h) r"
  shows "\<exists>k. \<forall>n\<ge>k. \<exists>s. eval_run env f ls h n = Inr s \<and> verdict_of (outcome_of s) = r"
proof -
  obtain k where k: "\<And>left. k \<le> left \<Longrightarrow> \<exists>out. core_loop env f 0 left (core_init f ls h) = Some out \<and> verdict_of out = r"
    using halts_core_loop [OF assms] by blast
  have "\<exists>s. eval_run env f ls h n = Inr s \<and> verdict_of (outcome_of s) = r" if n: "Suc k \<le> n" for n
  proof -
    have "k \<le> step_budget n"
      using n by (simp add: step_budget_def)
    then obtain out where "core_run env f ls h n = Some out" "verdict_of out = r"
      using k unfolding core_run_def by blast
    then show ?thesis
      using core_run_refines [of env f ls h n] by (auto simp: abs_run_def split: sum.splits)
  qed
  then show ?thesis
    by blast
qed

section \<open>Passes that simulate\<close>

text \<open>A pass may answer one step of the original function by any number of steps.\<close>

locale simulating_pass =
  fixes pass :: "ny_nir_func \<Rightarrow> ny_nir_func option"
    and ok :: "vm_env \<Rightarrow> ny_nir_func \<Rightarrow> bool"
    and rel :: "vm_env \<Rightarrow> ny_nir_func \<Rightarrow> core \<Rightarrow> core \<Rightarrow> bool"
  assumes sim_init: "ok env f \<Longrightarrow> pass f = Some g \<Longrightarrow> rel env f (core_init f ls h) (core_init g ls h)"
    and sim_end: "ok env f \<Longrightarrow> pass f = Some g \<Longrightarrow> rel env f c d \<Longrightarrow> \<not> c_pc c < fn_len f \<Longrightarrow>
           \<exists>n d'. core_iter env g n d = Some d' \<and> \<not> c_pc d' < fn_len g \<and> c_mem d' = c_mem c"
    and sim_stop: "ok env f \<Longrightarrow> pass f = Some g \<Longrightarrow> rel env f c d \<Longrightarrow> c_pc c < fn_len f \<Longrightarrow>
           core_step env f c = Some (Stop v m) \<Longrightarrow>
           \<exists>n d'. core_iter env g n d = Some d' \<and> c_pc d' < fn_len g \<and> core_step env g d' = Some (Stop v m)"
    and sim_move: "ok env f \<Longrightarrow> pass f = Some g \<Longrightarrow> rel env f c d \<Longrightarrow> c_pc c < fn_len f \<Longrightarrow>
           core_step env f c = Some (Cont c') \<Longrightarrow> \<exists>n d'. core_iter env g n d = Some d' \<and> rel env f c' d'"
begin

lemma halts_preserved:
  assumes "ok env f" "pass f = Some g"
  shows "halts_with env f c r \<Longrightarrow> rel env f c d \<Longrightarrow> halts_with env g d r"
proof (induction arbitrary: d rule: halts_with.induct)
  case (off_end c)
  obtain n d' where d: "core_iter env g n d = Some d'" "\<not> c_pc d' < fn_len g" "c_mem d' = c_mem c"
    using sim_end [OF assms off_end.prems off_end.hyps] by blast
  then show ?case
    using halts_iter [OF d(1)] halts_with.off_end [OF d(2), of env] by simp
next
  case (returns c v m)
  obtain n d' where d: "core_iter env g n d = Some d'" "c_pc d' < fn_len g" "core_step env g d' = Some (Stop v m)"
    using sim_stop [OF assms returns.prems returns.hyps] by blast
  then show ?case
    using halts_iter [OF d(1)] halts_with.returns [OF d(2,3)] by simp
next
  case (goes_on c c' r)
  obtain n d' where d: "core_iter env g n d = Some d'" "rel env f c' d'"
    using sim_move [OF assms goes_on.prems goes_on.hyps(1,2)] by blast
  then show ?case
    using halts_iter [OF d(1)] goes_on.IH by blast
qed

lemma verdict_preserved:
  assumes "ok env f" "pass f = Some g" "eval_run env f ls h n = Inr s"
  shows "\<exists>k. \<forall>n\<ge>k. \<exists>t. eval_run env g ls h n = Inr t \<and> verdict_of (outcome_of t) = verdict_of (outcome_of s)"
  using halts_preserved [OF assms(1,2) eval_run_halts [OF assms(3)] sim_init [OF assms(1,2)]]
  by (rule halts_eval_run)

end

sublocale lockstep_pass \<subseteq> simulating_pass
proof
  fix env f g c d
  assume "ok env f" "pass f = Some g" "rel env f c d" "\<not> c_pc c < fn_len f"
  then show "\<exists>n d'. core_iter env g n d = Some d' \<and> \<not> c_pc d' < fn_len g \<and> c_mem d' = c_mem c"
    using pass_len [of f g] rel_pc [of env f c d] rel_mem [of env f c d]
    by (intro exI [of _ 0] exI [of _ d]) simp
next
  fix env f g c d v m
  assume a: "ok env f" "pass f = Some g" "rel env f c d" "c_pc c < fn_len f" "core_step env f c = Some (Stop v m)"
  then obtain r' where "core_step env g d = Some r'" "out_rel (rel env f) (Stop v m) r'"
    using rel_step by blast
  then show "\<exists>n d'. core_iter env g n d = Some d' \<and> c_pc d' < fn_len g \<and> core_step env g d' = Some (Stop v m)"
    using a pass_len [of f g] rel_pc [of env f c d]
    by (intro exI [of _ 0] exI [of _ d]) (cases r'; simp)
next
  fix env f g c d c'
  assume a: "ok env f" "pass f = Some g" "rel env f c d" "c_pc c < fn_len f" "core_step env f c = Some (Cont c')"
  then obtain r' where r: "core_step env g d = Some r'" "out_rel (rel env f) (Cont c') r'"
    using rel_step by blast
  then obtain d' where "r' = Cont d'" "rel env f c' d'"
    by (cases r') simp_all
  then show "\<exists>n d'. core_iter env g n d = Some d' \<and> rel env f c' d'"
    using a r pass_len [of f g] rel_pc [of env f c d]
    by (intro exI [of _ 1] exI [of _ d']) simp
qed (rule rel_init)


end
