(* ===== verification/Nyir_Samples.thy ===== *)
theory Nyir_Samples
  imports Nyir_Sem
begin

text \<open>
  Small NYIR functions and an environment on which the properties are instantiated.
\<close>

text \<open>An instruction with an opcode, destination, two operands and an immediate, as emitted.\<close>

definition ni :: "ny_nir_op \<Rightarrow> int \<Rightarrow> int \<Rightarrow> int \<Rightarrow> i64 \<Rightarrow> ny_nir_inst" where
  "ni op dst a b imm =
     refresh_inst (blank_inst\<lparr>i_op := op, i_dst := dst, i_a := a, i_b := b, i_imm := imm\<rparr>)"

definition nfunc :: "ny_nir_inst list \<Rightarrow> int \<Rightarrow> ny_nir_func" where
  "nfunc is n = \<lparr>fn_data = is, fn_next_value = n\<rparr>"

text \<open>Floating-point operators that compute on the bit patterns as on integers.\<close>

definition toy_fp :: fp_ops where
  "toy_fp =
     \<lparr>fp_add64 = (+), fp_sub64 = (-), fp_mul64 = (*), fp_div64 = (\<lambda>x y. x),
      fp_add32 = (+), fp_sub32 = (-), fp_mul32 = (*), fp_div32 = (\<lambda>x y. x),
      fp_i64_to_f64 = (\<lambda>x. x), fp_i64_to_f32 = ucast, fp_f64_to_f32 = ucast, fp_f32_to_f64 = ucast,
      fp_eq64 = (=), fp_lt64 = (<), fp_le64 = (\<le>), fp_eq32 = (=), fp_lt32 = (<), fp_le32 = (\<le>)\<rparr>"

definition toy_env :: vm_env where
  "toy_env = \<lparr>env_fp = toy_fp, env_lbase = 0x1000, env_resolver = None\<rparr>"

text \<open>\<open>ok_run p r\<close>: the run succeeds and its final state satisfies \<open>p\<close>.\<close>

definition ok_run :: "(vm_state \<Rightarrow> bool) \<Rightarrow> vm_error + vm_state \<Rightarrow> bool" where
  "ok_run p r \<longleftrightarrow> (case r of Inl e \<Rightarrow> False | Inr s \<Rightarrow> p s)"

lemma ok_runE: "ok_run p r \<Longrightarrow> (\<And>s. r = Inr s \<Longrightarrow> p s \<Longrightarrow> thesis) \<Longrightarrow> thesis"
  by (auto simp: ok_run_def split: sum.splits)

text \<open>
  \<open>6 * 7\<close> through a local and a conditional branch on a constant; the loop counter is in local 1.
\<close>

definition sample_fold :: ny_nir_func where
  "sample_fold = nfunc
     [ni NY_NIR_CONST_I64 0 (-1) (-1) 6, ni NY_NIR_CONST_I64 1 (-1) (-1) 7,
      ni NY_NIR_MUL_I64 2 0 1 0, ni NY_NIR_STORE_LOCAL (-1) 2 (-1) 0,
      ni NY_NIR_LOAD_LOCAL 3 (-1) (-1) 0, ni NY_NIR_BR_IF (-1) 0 (-1) 5,
      ni NY_NIR_RET (-1) 0 (-1) 0, ni NY_NIR_LABEL (-1) (-1) (-1) 5,
      ni NY_NIR_LOAD_LOCAL 4 (-1) (-1) 0, ni NY_NIR_RET (-1) 4 (-1) 0] 5"

text \<open>A loop that counts down local 0, with a dead product, dead code and an unused label.\<close>

definition sample_loop :: ny_nir_func where
  "sample_loop = nfunc
     [ni NY_NIR_CONST_I64 0 (-1) (-1) 3, ni NY_NIR_STORE_LOCAL (-1) 0 (-1) 0,
      ni NY_NIR_LABEL (-1) (-1) (-1) 1, ni NY_NIR_LOAD_LOCAL 1 (-1) (-1) 0,
      ni NY_NIR_CONST_I64 2 (-1) (-1) 1, ni NY_NIR_SUB_I64 3 1 2 0,
      ni NY_NIR_MUL_I64 4 1 1 0, ni NY_NIR_STORE_LOCAL (-1) 3 (-1) 0,
      ni NY_NIR_BR_IF (-1) 3 (-1) 1, ni NY_NIR_RET (-1) 2 (-1) 0,
      ni NY_NIR_CONST_I64 5 (-1) (-1) 9, ni NY_NIR_LABEL (-1) (-1) (-1) 7,
      ni NY_NIR_RET (-1) 5 (-1) 0] 6"

text \<open>A sum with zero and a comparison that the ranges decide.\<close>

definition sample_peep :: ny_nir_func where
  "sample_peep = nfunc
     [ni NY_NIR_LOAD_LOCAL 0 (-1) (-1) 0, ni NY_NIR_CONST_I64 1 (-1) (-1) 7,
      ni NY_NIR_AND_I64 2 0 1 0, ni NY_NIR_CONST_I64 3 (-1) (-1) 9,
      (ni NY_NIR_CMP_I64 4 2 3 0)\<lparr>i_cmp := NY_NIR_CMP_LT\<rparr>, ni NY_NIR_CONST_I64 5 (-1) (-1) 0,
      ni NY_NIR_ADD_I64 6 0 5 0, ni NY_NIR_ADD_I64 7 6 4 0, ni NY_NIR_RET (-1) 7 (-1) 0] 8"

text \<open>\<open>((p and 7) mod 5) or (q and 4) > 5\<close> on locals \<open>p\<close> and \<open>q\<close>.\<close>

definition sample_or :: ny_nir_func where
  "sample_or = nfunc
     [ni NY_NIR_LOAD_LOCAL 0 (-1) (-1) 0, ni NY_NIR_CONST_I64 1 (-1) (-1) 7,
      ni NY_NIR_AND_I64 2 0 1 0, ni NY_NIR_CONST_I64 3 (-1) (-1) 5, ni NY_NIR_MOD_I64 4 2 3 0,
      ni NY_NIR_LOAD_LOCAL 5 (-1) (-1) 1, ni NY_NIR_CONST_I64 6 (-1) (-1) 4,
      ni NY_NIR_AND_I64 7 5 6 0, ni NY_NIR_OR_I64 8 4 7 0,
      (ni NY_NIR_CMP_I64 9 8 3 0)\<lparr>i_cmp := NY_NIR_CMP_GT\<rparr>, ni NY_NIR_RET (-1) 9 (-1) 0] 10"

end
