(* ===== verification/Nyir_Refresh_Correct.thy ===== *)
theory Nyir_Refresh_Correct
  imports Nyir_Sim Nyir_Samples
begin

text \<open>
  \<open>ny_nir_refresh_metadata\<close> rewrites operands that no instruction reads, effect masks and ranges:
  on a function whose calls carry as many stack arguments as their arity says it changes no step of
  the machine, and it is idempotent.
\<close>

definition call_arity_ok :: "ny_nir_inst \<Rightarrow> bool" where
  "call_arity_ok i \<longleftrightarrow>
     (i_op i = NY_NIR_CALL \<longrightarrow> 6 < sint (i_imm i) \<longrightarrow> i_extra_args_len i = nat (sint (i_imm i) - 6))"

lemma refresh_inst_keeps [frame_simps]:
  "i_op (refresh_inst i) = i_op i" "i_imm (refresh_inst i) = i_imm i" "i_cmp (refresh_inst i) = i_cmp i"
  "i_symbol (refresh_inst i) = i_symbol i" "i_flags (refresh_inst i) = i_flags i"
  "i_debug (refresh_inst i) = i_debug i" "i_arg_sizes (refresh_inst i) = i_arg_sizes i"
  by (cases "i_op i"; simp add: refresh_inst_def normalize_defs is_cmp_op_def Let_def)+

lemma refresh_inst_dst:
  "i_op i \<noteq> NY_NIR_STORE_LOCAL \<Longrightarrow> i_op i \<noteq> NYIR_STORE_I64 \<Longrightarrow> i_op i \<noteq> NYIR_COPY_STRUCT \<Longrightarrow>
   i_dst (refresh_inst i) = i_dst i"
  by (cases "i_op i"; simp add: refresh_inst_def normalize_defs is_cmp_op_def Let_def)

lemma refresh_call_operand:
  assumes "i_op i = NY_NIR_CALL" "call_arity_ok i" "k < unat (i_imm i)" "0 \<le> sint (i_imm i)"
  shows "call_operand (refresh_inst i) k = call_operand i k"
proof -
  have "int k < sint (i_imm i)"
    using assms(3) unat_of_nonneg [OF assms(4)] by linarith
  then show ?thesis
    using assms(1,2)
    by (auto simp: refresh_inst_def normalize_defs is_cmp_op_def Let_def call_operand_def call_arity_ok_def
        nth_Cons' split: if_splits)
qed

lemma refresh_reads:
  assumes "call_arity_ok i" "i_op i = NY_NIR_CALL \<Longrightarrow> 0 \<le> sint (i_imm i)"
  shows "inst_reads (refresh_inst i) = inst_reads i"
proof (cases "i_op i = NY_NIR_CALL")
  case True
  then show ?thesis
    using assms refresh_call_operand [OF True] by (simp add: inst_reads_def frame_simps)
next
  case False
  then show ?thesis
    by (cases "i_op i"; simp add: inst_reads_def refresh_inst_def normalize_defs is_cmp_op_def Let_def)
qed

lemma refresh_inst_a: "i_op i = NY_NIR_RET \<Longrightarrow> i_a (refresh_inst i) = i_a i"
  by (simp add: refresh_inst_def normalize_defs is_cmp_op_def Let_def)

lemma refresh_inst_sem:
  "inst_sem env lbl (refresh_inst i) vs m = inst_sem env lbl i vs m"
proof -
  have "call_sem env (refresh_inst i) vs m = call_sem env i vs m" if "i_op i = NY_NIR_CALL"
  proof -
    have "i_dst (refresh_inst i) = i_dst i"
      using that by (simp add: refresh_inst_dst)
    then show ?thesis
      unfolding call_sem_def by (simp only: frame_simps)
  qed
  moreover have "\<not> is_const_op NYIR_COPY_STRUCT"
    by (simp add: is_const_op_def)
  ultimately show ?thesis
    by (cases "i_op i")
       (simp_all add: inst_sem_def frame_simps local_ok_def jump_sem_def pure_value_def
         binary_value_def refresh_inst_dst refresh_inst_a)
qed

lemma finish_dst_cong:
  "i_dst j = i_dst i \<Longrightarrow> finish j c out = finish i c out"
  unfolding finish_def write_dst_def by (simp only:)

lemma refresh_sem_at:
  assumes "call_arity_ok i" "i_op i = NY_NIR_CALL \<Longrightarrow> 0 \<le> sint (i_imm i)"
  shows "sem_at env lbl (refresh_inst i) c = sem_at env lbl i c"
proof (cases "i_op i = NY_NIR_STORE_LOCAL \<or> i_op i = NYIR_STORE_I64 \<or> i_op i = NYIR_COPY_STRUCT")
  case True
  then have "finish (refresh_inst i) c out = finish i c out"
    if "inst_sem env lbl i vs (c_mem c) = Some out" for vs out
    using that
    by (elim disjE)
       (auto simp: inst_sem_def finish_def write_dst_def op_classes pure_value_def split: if_splits)
  then show ?thesis
    by (simp add: sem_at_def refresh_inst_sem refresh_reads [OF assms] split: option.split)
next
  case False
  then have "finish (refresh_inst i) c = finish i c"
    by (intro ext finish_dst_cong) (simp add: refresh_inst_dst)
  moreover have "inst_reads (refresh_inst i) = inst_reads i"
    by (rule refresh_reads [OF assms])
  ultimately show ?thesis
    unfolding sem_at_def by (simp only: refresh_inst_sem)
qed

text \<open>The calls of a verified function carry the stack arguments of their arity.\<close>

lemma verified_call_arity:
  assumes "verified f" "k < fn_len f"
  shows "call_arity_ok (fn_data f ! k)"
    and "i_op (fn_data f ! k) = NY_NIR_CALL \<Longrightarrow> 0 \<le> sint (i_imm (fn_data f ! k))"
proof -
  have "first_fail (verify_call f (dfn_at f k) (fn_data f ! k)) = None"
    if "i_op (fn_data f ! k) = NY_NIR_CALL"
    using verified_switch [OF assms] that by (simp add: verify_switch_def)
  then show "call_arity_ok (fn_data f ! k)"
      "i_op (fn_data f ! k) = NY_NIR_CALL \<Longrightarrow> 0 \<le> sint (i_imm (fn_data f ! k))"
    by (auto simp: call_arity_ok_def verify_call_def Let_def split: if_splits)
qed

text \<open>Functions whose calls carry the stack arguments of their arity.\<close>

definition calls_ok :: "ny_nir_func \<Rightarrow> bool" where
  "calls_ok f \<longleftrightarrow>
     list_all (\<lambda>i. call_arity_ok i \<and> (i_op i = NY_NIR_CALL \<longrightarrow> 0 \<le> sint (i_imm i))) (fn_data f)"

lemma verified_calls_ok: "verified f \<Longrightarrow> calls_ok f"
  using verified_call_arity by (auto simp: calls_ok_def list_all_length)

lemma refresh_core_step:
  assumes "calls_ok f" "c_pc c < fn_len f"
  shows "core_step env (ny_nir_refresh_metadata f) c = core_step env f c"
proof -
  have "label_pc (ny_nir_refresh_metadata f) = label_pc f"
    by (rule label_pc_cong) (simp_all add: ny_nir_refresh_metadata_def same_label_def frame_simps)
  then show ?thesis
    using assms refresh_sem_at
    by (auto simp: core_step_def ny_nir_refresh_metadata_def calls_ok_def list_all_length)
qed

interpretation refresh: lockstep_pass "\<lambda>f. Some (ny_nir_refresh_metadata f)" "\<lambda>env f. calls_ok f"
  "\<lambda>env f c d. d = c"
proof
  fix f g env c d r
  assume "calls_ok f" "Some (ny_nir_refresh_metadata f) = Some g" "d = (c :: core)" "c_pc c < fn_len f"
    "core_step env f c = Some r"
  then show "\<exists>r'. core_step env g d = Some r' \<and> out_rel (\<lambda>c d. d = c) r r'"
    using refresh_core_step [of f c env] by (cases r) auto
qed (auto simp: ny_nir_refresh_metadata_def core_init_def empty_tab_def)

section \<open>Properties\<close>

lemma refresh_core_loop:
  "calls_ok f \<Longrightarrow> core_loop env (ny_nir_refresh_metadata f) n left c = core_loop env f n left c"
proof (induction left arbitrary: n c)
  case 0
  then show ?case
    by (simp add: core_loop.simps ny_nir_refresh_metadata_def)
next
  case (Suc left)
  have "fn_len (ny_nir_refresh_metadata f) = fn_len f"
    by (simp add: ny_nir_refresh_metadata_def)
  then show ?case
    using Suc refresh_core_step [OF Suc.prems, of c env]
    by (simp add: core_loop.simps [of env f n] core_loop.simps [of env "ny_nir_refresh_metadata f" n]
        split: option.split core_out.split)
qed

text \<open>
  C2: refreshing the metadata of a verified function changes no run: both functions fail on the
  same inputs and have the same outcome on the others.
\<close>

theorem refresh_preserves_runs:
  assumes "verified f"
  shows "abs_run (eval_run env (ny_nir_refresh_metadata f) ls h n) = abs_run (eval_run env f ls h n)"
proof -
  have "core_init (ny_nir_refresh_metadata f) ls h = core_init f ls h"
    by (simp add: core_init_def empty_tab_def ny_nir_refresh_metadata_def)
  then show ?thesis
    using refresh_core_loop [OF verified_calls_ok [OF assms]] by (simp add: core_run_refines core_run_def)
qed

theorem refresh_preserves_runs_witness:
  "verified sample_fold \<and>
   abs_run (eval_run toy_env (ny_nir_refresh_metadata sample_fold) [0] Map.empty 50) =
   abs_run (eval_run toy_env sample_fold [0] Map.empty 50)"
proof -
  have "verified sample_fold"
    by code_simp
  then show ?thesis
    using refresh_preserves_runs by blast
qed

end
