(* ===== verification/Nyir_Fold_Correct.thy ===== *)
theory Nyir_Fold_Correct
  imports Nyir_Sim Nyir_Samples
begin

text \<open>
  Correctness of constant folding: on a verified function whose stores through addresses find no
  local constant tracked, the folded function has every run the original has.
\<close>

section \<open>The folding routines agree with the machine\<close>

lemma nir_binary_fold_eq: "nir_binary_fold = ny_nir_analyze_binary_fold"
  by (simp add: fun_eq_iff nir_binary_fold_def ny_nir_analyze_binary_fold_def)

lemma nir_cmp_fold_eq: "nir_cmp_fold = ny_nir_analyze_cmp_fold"
proof (intro ext)
  show "nir_cmp_fold c a b = ny_nir_analyze_cmp_fold c a b" for c a b
    by (cases c) (simp_all add: nir_cmp_fold_def)
qed

lemma binary_fold_SomeD: "ny_nir_analyze_binary_fold op a b = Some v \<Longrightarrow> is_int_binary op"
  by (cases op) (simp_all add: ny_nir_analyze_binary_fold_def is_int_binary_def)

lemma fold_result_sem:
  assumes "fold_result known i = Some v" "tab_get known (i_a i) = Some a" "tab_get known (i_b i) = Some b"
  shows "is_binary_op (i_op i) \<and> binary_value env i a b = Some v"
  using assms binary_fold_SomeD [of "i_op i" a b]
  by (auto simp: fold_result_def nir_binary_fold_eq nir_cmp_fold_eq is_binary_op_def binary_value_def
      compare_values_def is_int_binary_def is_cmp_op_def split: option.splits if_splits)

section \<open>Consistency of a scan state with a machine state\<close>

definition known_ok :: "const_tab \<Rightarrow> i64 option list \<Rightarrow> bool" where
  "known_ok known vals \<longleftrightarrow>
     (\<forall>v x c. tab_get vals v = Some x \<longrightarrow> tab_get known v = Some c \<longrightarrow> x = c)"

definition locals_ok :: "i64 option list \<Rightarrow> vm_mem \<Rightarrow> bool" where
  "locals_ok tracked m \<longleftrightarrow>
     (\<forall>n c. n < length tracked \<longrightarrow> n < length (fst m) \<longrightarrow> tracked ! n = Some c \<longrightarrow> fst m ! n = c)"

lemma known_okD: "known_ok known vals \<Longrightarrow> tab_get vals v = Some x \<Longrightarrow> tab_get known v = Some c \<Longrightarrow> x = c"
  by (auto simp: known_ok_def)

section \<open>One instruction\<close>

lemma fold_to_const_sem:
  "0 \<le> i_dst i \<Longrightarrow> sem_at env lbl (fold_to_const i v) c = finish i c (Flow (Some v) (c_mem c) None)"
  by (simp add: sem_at_def fold_to_const_def inst_reads_def inst_sem_def is_const_op_def
      pure_value_def finish_def write_dst_def)

text \<open>A value computed from operands whose constants are known is the folded one.\<close>

lemma sem_at_binaryD:
  assumes "is_binary_op (i_op i)" "sem_at env lbl i c = Some r"
  obtains a b v where "tab_get (c_vals c) (i_a i) = Some a" "tab_get (c_vals c) (i_b i) = Some b"
    "binary_value env i a b = Some v" "finish i c (Flow (Some v) (c_mem c) None) = Some r"
  using assms
  by (auto simp: sem_at_def inst_reads_pure inst_sem_pure op_class_disjoint pure_value_binary
      split: option.splits)

lemma fold_general_sem:
  assumes k: "known_ok (fs_known st) (c_vals c)" and r: "sem_at env lbl i c = Some r"
    and dst: "0 \<le> i_dst i" and v: "fold_result (fs_known st) i = Some v"
  shows "finish i c (Flow (Some v) (c_mem c) None) = Some r"
proof -
  obtain a b where ab: "tab_get (fs_known st) (i_a i) = Some a" "tab_get (fs_known st) (i_b i) = Some b"
    using v by (auto simp: fold_result_def split: option.splits)
  have bin: "is_binary_op (i_op i)" "binary_value env i a b = Some v"
    using fold_result_sem [OF v ab] by auto
  show ?thesis
    using sem_at_binaryD [OF bin(1) r] bin(2) known_okD [OF k _ ab(1)] known_okD [OF k _ ab(2)]
    by (metis option.inject)
qed

lemma fs_known_frames [frame_simps]:
  "fs_known (forget_addr_taken st) = fs_known st"
  "fs_known (forget_locals st) = fs_known st"
  "fs_locals (set_known st v x) = fs_locals st"
  by (simp_all add: forget_addr_taken_def forget_locals_def set_known_def)

lemma fold_branch_sem:
  assumes k: "known_ok (fs_known st) (c_vals c)" and r: "sem_at env lbl i c = Some r"
  shows "sem_at env lbl (fold_branch st i) c = Some r"
proof (cases "i_op i = NY_NIR_BR_IF")
  case True
  obtain a where a: "tab_get (c_vals c) (i_a i) = Some a"
    using r True by (auto simp: sem_at_def inst_reads_def split: option.splits)
  show ?thesis
    using r True a known_okD [OF k a]
    by (auto simp: fold_branch_def sem_at_def inst_reads_def inst_sem_def jump_sem_def finish_def
        write_dst_def split: option.splits)
qed (simp add: fold_branch_def r)

lemma fold_branch_frame [frame_simps]:
  "i_dst (fold_branch st i) = i_dst i"
  "i_op i \<noteq> NY_NIR_BR_IF \<Longrightarrow> fold_branch st i = i"
  "is_binary_op (i_op (fold_branch st i)) = is_binary_op (i_op i)"
  by (auto simp: fold_branch_def is_binary_op_def op_classes split: option.splits)

lemma fold_branch_forget [frame_simps]:
  "fold_branch (forget_addr_taken st) i = fold_branch st i"
  by (simp add: fold_branch_def frame_simps)

lemma fst_fold_general:
  "fst (fold_general st i) =
     (if 0 \<le> i_dst i
      then (case fold_result (fs_known st) (fold_branch st i) of
              Some v \<Rightarrow> fold_to_const (fold_branch st i) v
            | None \<Rightarrow> fold_branch st i)
      else fold_branch st i)"
  by (simp add: fold_general_def Let_def frame_simps split: option.splits)

lemma fs_known_fold_general:
  "fs_known (snd (fold_general st i)) =
     (if 0 \<le> i_dst i
      then tab_set (fs_known st) (i_dst i) (fold_result (fs_known st) (fold_branch st i))
      else fs_known st)"
  by (simp add: fold_general_def Let_def frame_simps set_known_def split: option.splits)

lemma fs_locals_fold_general:
  "fs_locals (snd (fold_general st i)) =
     (let st1 = (if i_op i = NYIR_STORE_I64 then forget_addr_taken st else st)
      in if clears_locals (i_op (fold_branch st i)) then map (\<lambda>_. None) (fs_locals st1)
         else fs_locals st1)"
  by (cases "i_op i = NYIR_STORE_I64")
     (simp_all add: fold_general_def Let_def frame_simps forget_locals_def set_known_def
       split: option.splits)

lemma const_fold_inst_sem:
  assumes k: "known_ok (fs_known st) (c_vals c)" and l: "locals_ok (fs_locals st) (c_mem c)"
    and r: "sem_at env lbl i c = Some r"
  shows "sem_at env lbl (fst (const_fold_inst st i)) c = Some r"
proof -
  have copy: "finish i c (Flow (Some v) (c_mem c) None) = Some r"
    if "i_op i = NY_NIR_COPY" "tab_get (fs_known st) (i_a i) = Some v" for v
    using r that known_okD [OF k _ that(2)]
    by (auto simp: sem_at_def inst_reads_def inst_sem_def pure_value_def is_const_op_def is_unary_op_def
        convert_value_def split: option.splits)
  have load: "finish i c (Flow (Some v) (c_mem c) None) = Some r"
    if "i_op i = NY_NIR_LOAD_LOCAL" "local_tracked st i" "fs_locals st ! unat (i_imm i) = Some v" for v
    using r that l
    by (auto simp: sem_at_def inst_reads_def inst_sem_def local_ok_def local_tracked_def locals_ok_def
        split: if_splits)
  note br = fold_branch_sem [OF k r]
  have general: "sem_at env lbl (fst (fold_general st i)) c = Some r"
    using br fold_general_sem [OF k br]
    by (simp add: fst_fold_general fold_to_const_sem frame_simps split: option.splits)
  show ?thesis
    using copy load general r
    by (auto simp: const_fold_inst_def Let_def fold_to_const_sem split: option.splits)
qed


text \<open>
  After an instruction the constant recorded for its destination is the value just written,
  provided the destination was not recorded before.
\<close>

lemma fold_result_branch:
  "fold_result known (fold_branch st i) = (if i_op i = NY_NIR_BR_IF then None else fold_result known i)"
  using binary_fold_SomeD
  by (auto simp: fold_branch_def fold_result_def nir_binary_fold_eq ny_nir_analyze_binary_fold_def split: option.splits)

lemma const_fold_inst_value:
  assumes k: "known_ok (fs_known st) (c_vals c)" and l: "locals_ok (fs_locals st) (c_mem c)"
    and r: "sem_at env lbl i c = Some (Cont c')" and fresh: "tab_get (fs_known st) (i_dst i) = None"
    and v: "tab_get (fs_known (snd (const_fold_inst st i))) (i_dst i) = Some v" and dst: "0 \<le> i_dst i"
  shows "tab_get (c_vals c') (i_dst i) = Some v"
proof -
  have "fst (const_fold_inst st i) = fold_to_const i v \<or> i_op i = NY_NIR_CONST_I64 \<and> v = i_imm i"
    using fresh v dst tab_get_SomeD [OF v]
    by (auto simp: const_fold_inst_def Let_def set_known_def fs_known_fold_general fst_fold_general
        fold_result_branch tab_get_tab_set frame_simps
        split: if_splits option.splits)
  then have "finish i c (Flow (Some v) (c_mem c) None) = Some (Cont c')"
  proof
    assume "fst (const_fold_inst st i) = fold_to_const i v"
    then show ?thesis
      using const_fold_inst_sem [OF k l r] dst by (simp add: fold_to_const_sem)
  next
    assume "i_op i = NY_NIR_CONST_I64 \<and> v = i_imm i"
    then show ?thesis
      using r dst by (simp add: sem_at_def inst_reads_def inst_sem_def is_const_op_def pure_value_def)
  qed
  then show ?thesis
    using dst by (rule finish_value)
qed

definition forgets :: "i64 option list \<Rightarrow> i64 option list \<Rightarrow> bool" where
  "forgets L' L \<longleftrightarrow> length L' = length L \<and> (\<forall>n<length L. L' ! n = L ! n \<or> L' ! n = None)"

lemma forgets_locals_ok: "forgets L' L \<Longrightarrow> locals_ok L m \<Longrightarrow> locals_ok L' m"
  by (fastforce simp: forgets_def locals_ok_def)

lemma forgets_refl [simp]: "forgets L L"
  by (simp add: forgets_def)

lemma forgets_None [simp]: "forgets (map (\<lambda>_. None) L) L"
  by (simp add: forgets_def)

lemma forgets_update [simp]: "forgets (L[n := None]) L"
  by (cases "n < length L") (simp_all add: forgets_def nth_list_update)

lemma locals_ok_None [simp]: "locals_ok (map (\<lambda>_. None) L) m"
  by (simp add: locals_ok_def)

lemma forgets_const_fold:
  assumes "i_op i \<noteq> NY_NIR_STORE_LOCAL" "i_op i \<noteq> NYIR_STORE_I64"
  shows "forgets (fs_locals (snd (const_fold_inst st i))) (fs_locals st)"
  using assms
  by (auto simp: const_fold_inst_def fs_locals_fold_general set_known_def Let_def split: option.splits)

lemma const_fold_locals_step:
  assumes k: "known_ok (fs_known st) (c_vals c)" and l: "locals_ok (fs_locals st) (c_mem c)"
    and r: "sem_at env lbl i c = Some (Cont c')"
    and store: "i_op i = NYIR_STORE_I64 \<Longrightarrow> set (fs_locals (snd (const_fold_inst st i))) \<subseteq> {None}"
  shows "locals_ok (fs_locals (snd (const_fold_inst st i))) (c_mem c')"
proof -
  consider (store) "i_op i = NYIR_STORE_I64" | (call) "i_op i = NY_NIR_CALL"
    | (local) "i_op i = NY_NIR_STORE_LOCAL"
    | (other) "i_op i \<noteq> NYIR_STORE_I64" "i_op i \<noteq> NY_NIR_CALL" "i_op i \<noteq> NY_NIR_STORE_LOCAL"
    by blast
  then show ?thesis
  proof cases
    case store
    then show ?thesis
      using assms(4) by (auto simp: locals_ok_def dest!: nth_mem)
  next
    case call
    then have "fs_locals (snd (const_fold_inst st i)) = map (\<lambda>_. None) (fs_locals st)"
      by (simp add: const_fold_inst_def fs_locals_fold_general fold_branch_def clears_locals_def)
    then show ?thesis
      by simp
  next
    case local
    obtain x where x: "tab_get (c_vals c) (i_a i) = Some x" "local_ok i (c_mem c)"
      "c_mem c' = ((fst (c_mem c))[unat (i_imm i) := x], snd (c_mem c))"
      using r local
      by (auto simp: sem_at_def inst_reads_def inst_sem_def finish_def write_dst_def
          split: option.splits if_splits)
    have "fs_locals (snd (const_fold_inst st i)) =
      (if local_tracked st i then (fs_locals st)[unat (i_imm i) := tab_get (fs_known st) (i_a i)]
       else fs_locals st)"
      using local
      by (simp add: const_fold_inst_def fs_locals_fold_general fold_branch_def clears_locals_def)
    moreover have "unat (i_imm i) \<ge> length (fs_locals st)" if "\<not> local_tracked st i"
      using that x(2) by (simp add: local_tracked_def local_ok_def)
    ultimately show ?thesis
      using l x known_okD [OF k x(1)]
      by (auto simp: locals_ok_def local_ok_def local_tracked_def nth_list_update split: if_splits)
  next
    case other
    then show ?thesis
      using forgets_locals_ok [OF forgets_const_fold l] sem_at_mem [OF r] by simp
  qed
qed

section \<open>The whole function\<close>

lemma const_fold_loop_scan: "const_fold_loop st is = scan_map const_fold_inst st is"
  by (induction st "is" rule: const_fold_loop.induct) (simp_all split: prod.splits)

definition fold_at :: "ny_nir_func \<Rightarrow> nat \<Rightarrow> fold_state" where
  "fold_at f k = scan_at const_fold_inst (fold_init f) (fn_data f) k"

lemma fold_at_0: "fold_at f 0 = fold_init f"
  by (simp add: fold_at_def)

lemma fold_at_Suc: "k < fn_len f \<Longrightarrow> fold_at f (Suc k) = snd (const_fold_inst (fold_at f k) (fn_data f ! k))"
  by (simp add: fold_at_def scan_at_Suc)

text \<open>
  No constant of a local is tracked across a store through an address. A store can reach a local
  whose address is taken only later in the instruction list, which the scan does not see.
\<close>

definition stores_untracked :: "ny_nir_func \<Rightarrow> bool" where
  "stores_untracked f \<longleftrightarrow>
     list_all (\<lambda>k. i_op (fn_data f ! k) = NYIR_STORE_I64 \<longrightarrow>
                    list_all (\<lambda>x. x = None) (fs_locals (fold_at f (Suc k)))) [0..<fn_len f]"

lemma stores_untrackedD:
  "stores_untracked f \<Longrightarrow> k < fn_len f \<Longrightarrow> i_op (fn_data f ! k) = NYIR_STORE_I64 \<Longrightarrow>
   set (fs_locals (fold_at f (Suc k))) \<subseteq> {None}"
  by (auto simp: stores_untracked_def list_all_iff)

text \<open>The constant the scan finds for a value, at the instruction that defines it.\<close>

definition const_of :: "ny_nir_func \<Rightarrow> int \<Rightarrow> i64 \<Rightarrow> bool" where
  "const_of f v c \<longleftrightarrow>
     (\<exists>k<fn_len f. i_dst (fn_data f ! k) = v \<and> 0 \<le> v \<and> tab_get (fs_known (fold_at f (Suc k))) v = Some c)"

lemma fs_known_frame:
  "v \<noteq> i_dst i \<Longrightarrow> tab_get (fs_known (snd (const_fold_inst st i))) v = tab_get (fs_known st) v"
  by (auto simp: const_fold_inst_def fs_known_fold_general set_known_def Let_def tab_get_tab_set
      split: option.splits)

lemma known_const_of:
  "k \<le> fn_len f \<Longrightarrow> tab_get (fs_known (fold_at f k)) v = Some c \<Longrightarrow>
   defined_before f k v \<and> const_of f v c"
proof (induction k)
  case 0
  then show ?case
    by (simp add: fold_at_0 fold_init_def Let_def)
next
  case (Suc k)
  show ?case
  proof (cases "v = i_dst (fn_data f ! k)")
    case True
    then show ?thesis
      using Suc.prems tab_get_SomeD [OF Suc.prems(2)] Suc_le_lessD
      unfolding const_of_def defined_before_def by blast
  next
    case False
    then have "tab_get (fs_known (fold_at f k)) v = Some c"
      using Suc.prems by (simp add: fold_at_Suc fs_known_frame)
    then show ?thesis
      using Suc by (auto intro: defined_before_mono [of f k])
  qed
qed

lemma known_fresh:
  "verified f \<Longrightarrow> k < fn_len f \<Longrightarrow> tab_get (fs_known (fold_at f k)) (i_dst (fn_data f ! k)) = None"
  using known_const_of [of k f "i_dst (fn_data f ! k)"] verified_dst_fresh [of f k]
  by (cases "tab_get (fs_known (fold_at f k)) (i_dst (fn_data f ! k))")
     (auto dest: tab_get_SomeD)

definition fold_inv :: "ny_nir_func \<Rightarrow> core \<Rightarrow> bool" where
  "fold_inv f c \<longleftrightarrow>
     (\<forall>v x y. tab_get (c_vals c) v = Some x \<longrightarrow> const_of f v y \<longrightarrow> x = y) \<and>
     locals_ok (fs_locals (fold_at f (c_pc c))) (c_mem c)"

lemma fold_inv_known_ok: "fold_inv f c \<Longrightarrow> k \<le> fn_len f \<Longrightarrow> known_ok (fs_known (fold_at f k)) (c_vals c)"
  by (auto simp: fold_inv_def known_ok_def dest: known_const_of)

lemma label_forgets: 
  assumes "label_pc f l = Some p"
  shows "locals_ok (fs_locals (fold_at f p)) m"
proof -
  have p: "0 < p" "p \<le> fn_len f" "i_op (fn_data f ! (p - 1)) = NY_NIR_LABEL"
    using label_pc_SomeD [OF assms] by simp_all
  then have "fold_at f p = snd (const_fold_inst (fold_at f (p - 1)) (fn_data f ! (p - 1)))"
    using fold_at_Suc [of "p - 1" f] by simp
  then show ?thesis
    using p(3) by (simp add: const_fold_inst_def fs_locals_fold_general fold_branch_def clears_locals_def)
qed

lemma fold_inv_step:
  assumes f: "verified f" "stores_untracked f" and inv: "fold_inv f c" and k: "c_pc c < fn_len f"
    and r: "core_step env f c = Some (Cont c')"
  shows "fold_inv f c'"
proof -
  let ?i = "fn_data f ! c_pc c" and ?st = "fold_at f (c_pc c)"
  have sem: "sem_at env (label_pc f) ?i c = Some (Cont c')"
    using r by (simp add: core_step_def)
  have kn: "known_ok (fs_known ?st) (c_vals c)" and lo: "locals_ok (fs_locals ?st) (c_mem c)"
    using inv k fold_inv_known_ok by (auto simp: fold_inv_def)
  have "x = y" if x: "tab_get (c_vals c') v = Some x" and y: "const_of f v y" for v x y
  proof (cases "v = i_dst ?i")
    case True
    obtain j where j: "j < fn_len f" "i_dst (fn_data f ! j) = v" "0 \<le> v"
      "tab_get (fs_known (fold_at f (Suc j))) v = Some y"
      using y by (auto simp: const_of_def)
    then have "j = c_pc c"
      using verified_dst_unique [OF f(1), of j "c_pc c"] k True by simp
    then have "tab_get (c_vals c') v = Some y"
      using const_fold_inst_value [OF kn lo sem known_fresh [OF f(1) k]] j True k by (simp add: fold_at_Suc)
    then show ?thesis
      using x by simp
  next
    case False
    then show ?thesis
      using sem_at_vals [OF sem, of v] inv x y by (auto simp: fold_inv_def)
  qed
  moreover have "locals_ok (fs_locals (fold_at f (c_pc c'))) (c_mem c')"
  proof (rule sem_at_pc [OF sem])
    assume "c_pc c' = Suc (c_pc c)"
    then show ?thesis
      using const_fold_locals_step [OF kn lo sem] stores_untrackedD [OF f(2) k] k by (simp add: fold_at_Suc)
  next
    fix l assume "label_pc f l = Some (c_pc c')"
    then show ?thesis by (rule label_forgets)
  qed
  ultimately show ?thesis
    by (auto simp: fold_inv_def)
qed


lemma same_label_fold: "same_label i (fst (const_fold_inst st i))"
proof (cases "i_op i = NY_NIR_LABEL")
  case True
  then have "fold_result known i = None" for known
    by (simp add: fold_result_def nir_binary_fold_def split: option.splits)
  then show ?thesis
    using True by (simp add: const_fold_inst_def fst_fold_general fold_branch_def same_label_def)
next
  case False
  have "i_op (fst (const_fold_inst st i)) \<in> {i_op i, NY_NIR_CONST_I64, NY_NIR_BR, NY_NIR_NOP}"
    by (auto simp: const_fold_inst_def fst_fold_general fold_branch_def fold_to_const_def Let_def
        split: option.splits)
  then show ?thesis
    using False by (auto simp: same_label_def)
qed

lemma fold_inv_init: "fold_inv f (core_init f ls h)"
  by (simp add: fold_inv_def core_init_def fold_at_0 fold_init_def Let_def locals_ok_def)

lemma const_fold_nth:
  assumes "ny_nir_const_fold f = Some g" "0 < fn_next_value f" "k < fn_len f"
  shows "fn_data g ! k = fst (const_fold_inst (fold_at f k) (fn_data f ! k))"
  using assms by (auto simp: ny_nir_const_fold_def const_fold_loop_scan scan_map_nth fold_at_def)

lemma const_fold_len: "ny_nir_const_fold f = Some g \<Longrightarrow> fn_len g = fn_len f \<and> fn_next_value g = fn_next_value f"
  by (auto simp: ny_nir_const_fold_def const_fold_loop_scan split: if_splits)

lemma const_fold_step:
  assumes g: "ny_nir_const_fold f = Some g" and inv: "fold_inv f c" and k: "c_pc c < fn_len f"
    and r: "core_step env f c = Some r"
  shows "core_step env g c = Some r"
proof (cases "fn_next_value f \<le> 0")
  case True
  then show ?thesis
    using g r by (simp add: ny_nir_const_fold_def)
next
  case False
  have "label_pc g = label_pc f"
    using const_fold_len [OF g] const_fold_nth [OF g] False same_label_fold
    by (intro label_pc_cong) auto
  then show ?thesis
    using const_fold_inst_sem [OF fold_inv_known_ok [OF inv]] inv k r const_fold_nth [OF g] False
    by (auto simp: core_step_def fold_inv_def)
qed

interpretation const_fold: lockstep_pass ny_nir_const_fold
  "\<lambda>env f. verified f \<and> stores_untracked f" "\<lambda>env f c d. d = c \<and> fold_inv f c"
proof
  fix f g env ls h
  assume "ny_nir_const_fold f = Some g"
  then show "core_init g ls h = core_init f ls h \<and> fold_inv f (core_init f ls h)"
    using const_fold_len fold_inv_init by (auto simp: core_init_def empty_tab_def)
next
  fix f g env c d r
  assume "verified f \<and> stores_untracked f" "ny_nir_const_fold f = Some g" "d = c \<and> fold_inv f c"
    "c_pc c < fn_len f" "core_step env f c = Some r"
  then show "\<exists>r'. core_step env g d = Some r' \<and> out_rel (\<lambda>c d. d = c \<and> fold_inv f c) r r'"
    using const_fold_step [of f g c env r] fold_inv_step [of f c env] by (cases r) auto
qed (auto dest: const_fold_len)

section \<open>Properties\<close>



end
