(* ===== verification/Nyir_Copy_Correct.thy ===== *)
theory Nyir_Copy_Correct
  imports Nyir_Sim Nyir_Samples
begin

text \<open>
  Correctness of copy propagation. The table of aliases maps each value to the root of its chain of
  copies. Replacing an operand by its root is right where the copy is still in step with its root;
  a pair of per-instruction predicates that is closed under the control flow certifies that, and
  for functions that only branch forward such a certificate always exists.
\<close>

section \<open>The alias table\<close>

definition aliases :: "ny_nir_func \<Rightarrow> nat \<Rightarrow> int list" where
  "aliases f k = scan_at copy_prop_inst (map int [0..<nat (fn_next_value f)]) (fn_data f) k"

definition root :: "ny_nir_func \<Rightarrow> int \<Rightarrow> int" where
  "root f v = aliases f (fn_len f) ! nat v"

lemma copy_prop_loop_scan: "copy_prop_loop al is = scan_map copy_prop_inst al is"
  by (induction al "is" rule: copy_prop_loop.induct) (simp_all split: prod.splits)

lemma aliases_0: "aliases f 0 = map int [0..<nat (fn_next_value f)]"
  by (simp add: aliases_def)

lemma aliases_Suc: "k < fn_len f \<Longrightarrow> aliases f (Suc k) = snd (copy_prop_inst (aliases f k) (fn_data f ! k))"
  by (simp add: aliases_def scan_at_Suc)

lemma length_aliases [simp]: "k \<le> fn_len f \<Longrightarrow> length (aliases f k) = nat (fn_next_value f)"
  by (induction k) (simp_all add: aliases_0 aliases_Suc copy_prop_inst_def Let_def)

text \<open>A table whose entries are roots: one step along it is as good as 64.\<close>

definition rooted :: "int list \<Rightarrow> bool" where
  "rooted al \<longleftrightarrow> (\<forall>n<length al. 0 \<le> al ! n \<and> nat (al ! n) < length al \<and> al ! nat (al ! n) = al ! n)"

lemma alias_find_rooted:
  assumes "rooted al" "0 \<le> v" "nat v < length al"
  shows "nir_alias_find al v = al ! nat v"
proof -
  have r: "0 \<le> al ! nat v" "nat (al ! nat v) < length al" "al ! nat (al ! nat v) = al ! nat v"
    using assms by (auto simp: rooted_def)
  have stop: "alias_walk n al (al ! nat v) = al ! nat v" for n
    using r by (cases n) (simp_all add: alias_at_def)
  have "alias_walk (Suc n) al v = al ! nat v" for n
    using assms r(1) stop by (simp add: alias_at_def)
  from this [of 63] show ?thesis
    using assms(2) by (simp add: nir_alias_find_def)
qed

lemma aliases_frame:
  "k < fn_len f \<Longrightarrow> i_dst (fn_data f ! k) \<noteq> v \<Longrightarrow> 0 \<le> v \<Longrightarrow> aliases f (Suc k) ! nat v = aliases f k ! nat v"
  by (auto simp: aliases_Suc copy_prop_inst_def Let_def map_operands_def nat_eq_iff)

lemma aliases_before:
  assumes "0 \<le> v" "v < fn_next_value f" "k \<le> fn_len f" "\<not> defined_before f k v"
  shows "aliases f k ! nat v = v"
  using ssa_before [where T = "\<lambda>k. aliases f k ! nat v", OF _ assms(1,3,4)] aliases_frame assms
  by (simp add: aliases_0)

lemma aliases_stable:
  assumes "verified f" "j < fn_len f" "i_dst (fn_data f ! j) = v" "0 \<le> v" "Suc j \<le> k" "k \<le> fn_len f"
  shows "aliases f k ! nat v = aliases f (Suc j) ! nat v"
  by (rule ssa_stable [where T = "\<lambda>k. aliases f k ! nat v", OF assms(1-4) _ assms(5,6)])
     (use aliases_frame assms(4) in auto)

lemma root_at:
  assumes "verified f" "k \<le> fn_len f" "defined_before f k v"
  shows "root f v = aliases f k ! nat v"
proof -
  obtain j where j: "j < k" "j < fn_len f" "i_dst (fn_data f ! j) = v" "0 \<le> v"
    using assms(3) by (auto simp: defined_before_def)
  show ?thesis
    using aliases_stable [OF assms(1) j(2-4), of k] aliases_stable [OF assms(1) j(2-4), of "fn_len f"] j assms
    by (simp add: root_def)
qed

text \<open>What the table records at the definition of a value.\<close>

lemma aliases_def_entry:
  assumes f: "verified f" "arrays_ok f" and k: "k < fn_len f" and v: "i_dst (fn_data f ! k) = v" "0 \<le> v"
    and rt: "rooted (aliases f k)"
  shows "aliases f (Suc k) ! nat v =
    (if i_op (fn_data f ! k) = NY_NIR_COPY then aliases f k ! nat (i_a (fn_data f ! k)) else v)"
proof -
  let ?i = "fn_data f ! k" and ?al = "aliases f k"
  have lt: "nat v < length ?al"
    using verified_dst_less [OF f(1) k] v k by simp
  have "nir_alias_find ?al (nir_alias_find ?al (i_a ?i)) = ?al ! nat (i_a ?i) \<and> 0 \<le> nir_alias_find ?al (i_a ?i)"
    if "i_op ?i = NY_NIR_COPY"
  proof -
    have "i_a ?i \<in> set (inst_reads ?i)"
      using that by (simp add: inst_reads_def)
    then have "nir_value_valid f (i_a ?i)"
      using verified_reads [OF f(1) k arrays_okD [OF f(2) k]] by blast
    then have a: "0 \<le> i_a ?i" "nat (i_a ?i) < length ?al"
      using k by (auto simp: nir_value_valid_def)
    then show ?thesis
      using alias_find_rooted [OF rt] rt by (simp add: rooted_def)
  qed
  then show ?thesis
    using k v lt by (simp add: aliases_Suc copy_prop_inst_def Let_def map_operands_def)
qed

lemma copy_operand:
  assumes f: "verified f" "arrays_ok f" and k: "k < fn_len f" and op: "i_op (fn_data f ! k) = NY_NIR_COPY"
  shows "0 \<le> i_a (fn_data f ! k) \<and> i_a (fn_data f ! k) < fn_next_value f \<and> defined_before f k (i_a (fn_data f ! k))"
  using verified_reads [OF f(1) k arrays_okD [OF f(2) k], of "i_a (fn_data f ! k)"] op
  by (auto simp: inst_reads_def nir_value_valid_def)

lemma rooted_update:
  assumes rt: "rooted al" and r: "0 \<le> r" "nat r < length al" "al ! nat r = r"
    and d: "0 \<le> d" "r \<noteq> d" and ptr: "\<And>n. n < length al \<Longrightarrow> n \<noteq> nat d \<Longrightarrow> al ! n \<noteq> d"
  shows "rooted (al[nat d := r])"
  unfolding rooted_def
proof (intro allI impI)
  fix n assume n: "n < length (al[nat d := r])"
  have rd: "nat r \<noteq> nat d"
    using r(1) d by (simp add: nat_eq_iff)
  show "0 \<le> al[nat d := r] ! n \<and> nat (al[nat d := r] ! n) < length (al[nat d := r]) \<and>
      al[nat d := r] ! nat (al[nat d := r] ! n) = al[nat d := r] ! n"
  proof (cases "n = nat d")
    case True
    then show ?thesis
      using n r rd by simp
  next
    case False
    have x: "0 \<le> al ! n" "nat (al ! n) < length al" "al ! nat (al ! n) = al ! n"
      using rt n by (auto simp: rooted_def)
    have "nat (al ! n) \<noteq> nat d"
      using ptr [of n] n False x(1) d(1) by (simp add: nat_eq_iff)
    then show ?thesis
      using x False by simp
  qed
qed

text \<open>All entries are roots, and the root of a value defined before \<open>k\<close> is defined before \<open>k\<close>.\<close>

lemma aliases_rooted:
  assumes f: "verified f" "arrays_ok f"
  shows "k \<le> fn_len f \<Longrightarrow>
    rooted (aliases f k) \<and> (\<forall>v. defined_before f k v \<longrightarrow> v < fn_next_value f \<longrightarrow> defined_before f k (aliases f k ! nat v))"
proof (induction k)
  case 0
  then show ?case
    by (simp add: aliases_0 rooted_def defined_before_def)
next
  case (Suc k)
  let ?i = "fn_data f ! k" and ?al = "aliases f k"
  have k: "k < fn_len f" and rt: "rooted ?al"
    and df: "\<And>v. defined_before f k v \<Longrightarrow> v < fn_next_value f \<Longrightarrow> defined_before f k (?al ! nat v)"
    using Suc by auto
  show ?case
  proof (cases "i_op ?i = NY_NIR_COPY \<and> 0 \<le> i_dst ?i")
    case False
    have "aliases f (Suc k) ! n = ?al ! n" if n: "n < nat (fn_next_value f)" for n
    proof (cases "int n = i_dst ?i")
      case True
      then have "aliases f (Suc k) ! nat (int n) = int n"
        using aliases_def_entry [OF f k True [symmetric] _ rt] False by auto
      then have "aliases f (Suc k) ! n = int n"
        by (simp only: nat_int)
      moreover have "\<not> defined_before f k (int n)"
        using verified_dst_fresh [OF f(1) k] True by (metis of_nat_0_le_iff)
      then have "?al ! n = int n"
        using aliases_before [of "int n" f k] n k by simp
      ultimately show ?thesis by simp
    next
      case ne: False
      then show ?thesis
        using aliases_frame [OF k, of "int n"] by simp
    qed
    then have eq: "aliases f (Suc k) = ?al"
      using k by (intro nth_equalityI) auto
    have "defined_before f (Suc k) (?al ! nat v)" if "defined_before f (Suc k) v" "v < fn_next_value f" for v
    proof (cases "defined_before f k v")
      case True
      then show ?thesis
        using df [OF True that(2)] defined_before_mono by (meson le_SucI order_refl)
    next
      case new: False
      then have "?al ! nat v = v"
        using aliases_before [of v f k] that k by (auto simp: defined_before_def)
      then show ?thesis using that(1) by simp
    qed
    then show ?thesis
      using rt eq by simp
  next
    case True
    let ?d = "i_dst ?i" and ?r = "?al ! nat (i_a ?i)"
    have a: "0 \<le> i_a ?i" "i_a ?i < fn_next_value f" "defined_before f k (i_a ?i)"
      using copy_operand [OF f k] True by auto
    have d: "0 \<le> ?d" "nat ?d < length ?al" "\<not> defined_before f k ?d"
      using True verified_dst_less [OF f(1) k] verified_dst_fresh [OF f(1) k] k by auto
    have r: "0 \<le> ?r" "nat ?r < length ?al" "?al ! nat ?r = ?r" "defined_before f k ?r"
      using rt a df k by (auto simp: rooted_def)
    have eq: "aliases f (Suc k) = ?al[nat ?d := ?r]"
    proof (intro nth_equalityI)
      fix n assume "n < length (aliases f (Suc k))"
      then show "aliases f (Suc k) ! n = ?al[nat ?d := ?r] ! n"
        using aliases_def_entry [OF f k refl d(1) rt] True aliases_frame [OF k, of "int n"] d
        by (cases "n = nat ?d") (auto simp: nat_eq_iff)
    qed (use k in simp)
    have ptr: "?al ! n \<noteq> ?d" if "n < length ?al" "n \<noteq> nat ?d" for n
    proof (cases "defined_before f k (int n)")
      case True
      moreover have "int n < fn_next_value f"
        using that(1) k by (simp add: zless_nat_eq_int_zless)
      ultimately show ?thesis
        using df [OF True] d(3) by auto
    next
      case False
      moreover have "int n < fn_next_value f"
        using that(1) k by (simp add: zless_nat_eq_int_zless)
      ultimately show ?thesis
        using aliases_before [of "int n" f k] that(2) k by auto
    qed
    have "?r \<noteq> ?d"
      using r(4) d(3) by auto
    then have "rooted (?al[nat ?d := ?r])"
      by (rule rooted_update [OF rt r(1-3) d(1)]) (rule ptr)
    moreover have "defined_before f (Suc k) (?al[nat ?d := ?r] ! nat v)"
      if v: "defined_before f (Suc k) v" "v < fn_next_value f" for v
    proof (cases "v = ?d")
      case True
      then show ?thesis
        using d r(4) defined_before_mono [OF r(4), of "Suc k"] by simp
    next
      case False
      then have "defined_before f k v"
        using v(1) by (auto simp: defined_before_def less_Suc_eq)
      then show ?thesis
        using df v False d(1) defined_before_mono [of f k _ "Suc k"] by (auto simp: defined_before_def nat_eq_iff)
    qed
    ultimately show ?thesis
      using eq by simp
  qed
qed

lemma root_props:
  assumes f: "verified f" "arrays_ok f" and v: "defined_before f k v" "v < fn_next_value f" "k \<le> fn_len f"
  shows "nir_alias_find (aliases f k) v = root f v" and "root f (root f v) = root f v"
    and "defined_before f k (root f v)" and "0 \<le> root f v" and "root f v < fn_next_value f"
proof -
  have rt: "rooted (aliases f k)" "defined_before f k (aliases f k ! nat v)"
    using aliases_rooted [OF f v(3)] v(1,2) by auto
  have n: "0 \<le> v" "nat v < length (aliases f k)"
    using v by (auto simp: defined_before_def)
  have r: "root f v = aliases f k ! nat v"
    by (rule root_at [OF f(1) v(3,1)])
  show "nir_alias_find (aliases f k) v = root f v"
    using alias_find_rooted [OF rt(1) n] r by simp
  show d: "defined_before f k (root f v)"
    using rt(2) r by simp
  show "0 \<le> root f v" "root f v < fn_next_value f"
    using rt(1) n r v(3) by (auto simp: rooted_def)
  show "root f (root f v) = root f v"
    using root_at [OF f(1) v(3) d] rt(1) n r by (auto simp: rooted_def)
qed

section \<open>Reading through the table\<close>

lemma map_operands_keeps [frame_simps]:
  "i_op (map_operands g i) = i_op i" "i_dst (map_operands g i) = i_dst i" "i_imm (map_operands g i) = i_imm i"
  "i_cmp (map_operands g i) = i_cmp i" "i_symbol (map_operands g i) = i_symbol i"
  "i_extra_args_len (map_operands g i) = i_extra_args_len i" "i_a (map_operands g i) = g (i_a i)"
  "i_b (map_operands g i) = g (i_b i)" "i_c (map_operands g i) = g (i_c i)"
  by (simp_all add: map_operands_def)

lemma map_operands_call:
  assumes "extra_args_ok i" "g (-1) = -1"
  shows "call_operand (map_operands g i) k = g (call_operand i k)"
proof (cases "k < 6")
  case True
  then have "k = 0 \<or> k = 1 \<or> k = 2 \<or> k = 3 \<or> k = 4 \<or> k = 5"
    by arith
  then show ?thesis
    by (auto simp: call_operand_def map_operands_def)
next
  case False
  then show ?thesis
    using assms by (auto simp: call_operand_def map_operands_def map_prefix_def nth_append extra_args_ok_def)
qed

lemma map_operands_reads:
  assumes "extra_args_ok i" "\<And>v. (g v < 0) = (v < 0)" "g (-1) = -1"
  shows "inst_reads (map_operands g i) = map g (inst_reads i)"
proof (cases "i_op i = NY_NIR_CALL")
  case True
  then show ?thesis
    using map_operands_call [of i g] assms by (simp add: inst_reads_def frame_simps)
next
  case False
  have "(0 \<le> g (i_a i)) = (0 \<le> i_a i)"
    using assms(2) [of "i_a i"] by linarith
  then show ?thesis
    using False by (cases "i_op i") (simp_all add: inst_reads_def frame_simps)
qed

lemma map_operands_sem:
  assumes "\<And>v. (g v < 0) = (v < 0)"
  shows "inst_sem env lbl (map_operands g i) vs m = inst_sem env lbl i vs m"
proof -
  have "call_sem env (map_operands g i) vs m = call_sem env i vs m"
    unfolding call_sem_def by (simp only: frame_simps)
  moreover have "(0 \<le> g (i_a i)) = (0 \<le> i_a i)"
    using assms [of "i_a i"] by linarith
  ultimately show ?thesis
    by (cases "i_op i")
       (simp_all add: inst_sem_def frame_simps local_ok_def jump_sem_def pure_value_def binary_value_def)
qed

lemma map_operands_finish: "finish (map_operands g i) c out = finish i c out"
proof -
  have "write_dst (map_operands g i) = write_dst i"
    by (simp add: write_dst_def fun_eq_iff frame_simps split: option.splits)
  then show ?thesis
    unfolding finish_def by (simp only:)
qed

lemma reads_map: "reads t (map g vs) = reads t' vs" if "\<And>v. v \<in> set vs \<Longrightarrow> tab_get t (g v) = tab_get t' v"
  using that by (induction vs) (auto split: option.splits)

lemma reads_known: "reads t vs = Some xs \<Longrightarrow> v \<in> set vs \<Longrightarrow> \<exists>x. tab_get t v = Some x"
  by (induction vs arbitrary: xs) (auto split: option.splits)

section \<open>Certificates\<close>

text \<open>The instructions that can follow instruction \<open>k\<close>.\<close>

definition succs :: "ny_nir_func \<Rightarrow> nat \<Rightarrow> nat list" where
  "succs f k =
     (let op = i_op (fn_data f ! k);
          jump = (case label_pc f (i_imm (fn_data f ! k)) of None \<Rightarrow> [] | Some p \<Rightarrow> [p])
      in if op = NY_NIR_RET then [] else if op = NY_NIR_BR then jump
         else if op = NY_NIR_BR_IF then Suc k # jump else [Suc k])"

text \<open>
  \<open>un k v\<close>: at \<open>k\<close> the value \<open>v\<close> has not been computed yet. \<open>sy k v\<close>: at \<open>k\<close> it has not been computed
  or is equal to its root. Both have to be kept along every edge, and every copy that an
  instruction reads has to be in step there.
\<close>

definition copies_in_sync :: "ny_nir_func \<Rightarrow> (nat \<Rightarrow> int \<Rightarrow> bool) \<Rightarrow> (nat \<Rightarrow> int \<Rightarrow> bool) \<Rightarrow> bool" where
  "copies_in_sync f sy un \<longleftrightarrow>
     list_all (\<lambda>k.
       list_all (\<lambda>u. root f u \<noteq> u \<longrightarrow> sy k u) (inst_reads (fn_data f ! k)) \<and>
       list_all (\<lambda>j. list_all (\<lambda>v.
           (un j v \<longrightarrow> un k v \<and> v \<noteq> i_dst (fn_data f ! k)) \<and>
           (sy j v \<longrightarrow> v = i_dst (fn_data f ! k) \<or> un k v \<or>
                        sy k v \<and> root f v \<noteq> i_dst (fn_data f ! k)))
         (map int [0..<nat (fn_next_value f)])) (succs f k))
     [0..<fn_len f]"

definition sync_inv :: "ny_nir_func \<Rightarrow> (nat \<Rightarrow> int \<Rightarrow> bool) \<Rightarrow> (nat \<Rightarrow> int \<Rightarrow> bool) \<Rightarrow> core \<Rightarrow> bool" where
  "sync_inv f sy un c \<longleftrightarrow>
     length (c_vals c) = nat (fn_next_value f) \<and>
     (\<forall>v. un (c_pc c) v \<longrightarrow> tab_get (c_vals c) v = None) \<and>
     (\<forall>v. sy (c_pc c) v \<longrightarrow> tab_get (c_vals c) v = None \<or> tab_get (c_vals c) v = tab_get (c_vals c) (root f v))"

lemma sync_invD:
  "sync_inv f sy un c \<Longrightarrow> un (c_pc c) v \<Longrightarrow> tab_get (c_vals c) v = None"
  "sync_inv f sy un c \<Longrightarrow> sy (c_pc c) v \<Longrightarrow> tab_get (c_vals c) v = Some x \<Longrightarrow> tab_get (c_vals c) (root f v) = Some x"
  by (auto simp: sync_inv_def)

lemma succs_step:
  assumes "sem_at env (label_pc f) (fn_data f ! c_pc c) c = Some (Cont c')"
  shows "c_pc c' \<in> set (succs f (c_pc c))"
proof -
  let ?i = "fn_data f ! c_pc c"
  consider (ret) "i_op ?i = NY_NIR_RET" | (br) "i_op ?i = NY_NIR_BR" | (brif) "i_op ?i = NY_NIR_BR_IF"
    | (other) "i_op ?i \<noteq> NY_NIR_RET" "i_op ?i \<noteq> NY_NIR_BR" "i_op ?i \<noteq> NY_NIR_BR_IF"
    by blast
  then show ?thesis
  proof cases
    case ret
    then show ?thesis
      using assms sem_at_RET [OF ret] by blast
  next
    case br
    then show ?thesis
      using sem_at_BR [OF br assms] by (simp add: succs_def)
  next
    case brif
    then show ?thesis
      using sem_at_pc [OF assms] by (cases rule: sem_at_pc [OF assms]) (simp_all add: succs_def)
  next
    case other
    then show ?thesis
      using sem_at_pc_Suc [OF assms] by (simp add: succs_def)
  qed
qed

lemma copies_in_syncD:
  assumes "copies_in_sync f sy un" "k < fn_len f"
  shows "u \<in> set (inst_reads (fn_data f ! k)) \<Longrightarrow> root f u \<noteq> u \<Longrightarrow> sy k u"
    and "j \<in> set (succs f k) \<Longrightarrow> 0 \<le> v \<Longrightarrow> v < fn_next_value f \<Longrightarrow> un j v \<Longrightarrow>
           un k v \<and> v \<noteq> i_dst (fn_data f ! k)"
    and "j \<in> set (succs f k) \<Longrightarrow> 0 \<le> v \<Longrightarrow> v < fn_next_value f \<Longrightarrow> sy j v \<Longrightarrow>
           v = i_dst (fn_data f ! k) \<or> un k v \<or> sy k v \<and> root f v \<noteq> i_dst (fn_data f ! k)"
proof -
  let ?i = "fn_data f ! k"
  have e: "\<forall>u \<in> set (inst_reads ?i). root f u \<noteq> u \<longrightarrow> sy k u"
    "\<forall>j \<in> set (succs f k). \<forall>v \<in> set (map int [0..<nat (fn_next_value f)]).
       (un j v \<longrightarrow> un k v \<and> v \<noteq> i_dst ?i) \<and> (sy j v \<longrightarrow> v = i_dst ?i \<or> un k v \<or> sy k v \<and> root f v \<noteq> i_dst ?i)"
    using assms unfolding copies_in_sync_def list_all_iff by auto
  have v: "v \<in> set (map int [0..<nat (fn_next_value f)])" if "0 \<le> v" "v < fn_next_value f" for v
    using that by (auto simp: image_iff intro!: bexI [of _ "nat v"])
  show "sy k u" if "u \<in> set (inst_reads ?i)" "root f u \<noteq> u"
    using e(1) that by blast
  show "un k v \<and> v \<noteq> i_dst ?i" if "j \<in> set (succs f k)" "0 \<le> v" "v < fn_next_value f" "un j v"
    using e(2) v [OF that(2,3)] that(1,4) by blast
  show "v = i_dst ?i \<or> un k v \<or> sy k v \<and> root f v \<noteq> i_dst ?i"
    if "j \<in> set (succs f k)" "0 \<le> v" "v < fn_next_value f" "sy j v"
    using e(2) v [OF that(2,3)] that(1,4) by blast
qed

text \<open>What an instruction reads is equal to what it would read through the table.\<close>

lemma sync_read:
  assumes "copies_in_sync f sy un" "sync_inv f sy un c" "c_pc c < fn_len f"
    "u \<in> set (inst_reads (fn_data f ! c_pc c))" "tab_get (c_vals c) u = Some x"
  shows "tab_get (c_vals c) (root f u) = Some x"
  using copies_in_syncD(1) [OF assms(1,3,4)] sync_invD(2) [OF assms(2) _ assms(5)] assms(5)
  by (cases "root f u = u") auto

lemma sem_at_COPY:
  assumes "i_op i = NY_NIR_COPY" "sem_at env lbl i c = Some (Cont c')"
  obtains x where "tab_get (c_vals c) (i_a i) = Some x" "tab_get (c_vals c') (i_dst i) = Some x"
proof -
  obtain vs out where o: "reads (c_vals c) (inst_reads i) = Some vs" "inst_sem env lbl i vs (c_mem c) = Some out"
      "finish i c out = Some (Cont c')"
    using assms(2) by (auto simp: sem_at_def split: option.splits)
  obtain x where x: "tab_get (c_vals c) (i_a i) = Some x" "vs = [x]"
    using o(1) assms(1) by (auto simp: inst_reads_def split: option.splits)
  have out: "out = Flow (Some x) (c_mem c) None"
    using o(2) assms(1) x(2)
    by (simp add: inst_sem_def pure_value_def op_classes convert_value_def)
  moreover have "0 \<le> i_dst i"
    using o(3) out by (auto simp: finish_def write_dst_def split: if_splits)
  ultimately show ?thesis
    using that x(1) finish_value o(3) by blast
qed

lemma root_copy:
  assumes f: "verified f" "arrays_ok f" and k: "k < fn_len f" and d: "0 \<le> i_dst (fn_data f ! k)"
  shows "root f (i_dst (fn_data f ! k)) =
    (if i_op (fn_data f ! k) = NY_NIR_COPY then root f (i_a (fn_data f ! k)) else i_dst (fn_data f ! k))"
proof -
  let ?i = "fn_data f ! k"
  have "defined_before f (Suc k) (i_dst ?i)"
    using k d by (auto simp: defined_before_def)
  then have "root f (i_dst ?i) = aliases f (Suc k) ! nat (i_dst ?i)"
    using root_at [OF f(1), of "Suc k"] k by simp
  moreover have "rooted (aliases f k)"
    using aliases_rooted [OF f, of k] k by simp
  ultimately show ?thesis
    using aliases_def_entry [OF f k refl d] root_at [OF f(1), of k] copy_operand [OF f k] k by simp
qed

lemma sync_step:
  assumes f: "verified f" "arrays_ok f" and cert: "copies_in_sync f sy un" and inv: "sync_inv f sy un c"
    and k: "c_pc c < fn_len f" and sem: "sem_at env (label_pc f) (fn_data f ! c_pc c) c = Some (Cont c')"
  shows "sync_inv f sy un c'"
proof -
  let ?i = "fn_data f ! c_pc c" and ?t = "tab_get (c_vals c)" and ?t' = "tab_get (c_vals c')"
  note edge = copies_in_syncD(2,3) [OF cert k succs_step [OF sem]]
  note keep = sem_at_vals [OF sem]
  have len: "length (c_vals c') = nat (fn_next_value f)"
    using sem_at_length [OF sem] inv by (simp add: sync_inv_def)
  have valid: "0 \<le> v \<and> v < fn_next_value f" if "?t' v \<noteq> None" for v
    using that len tab_get_SomeD [of "c_vals c'" v] by auto
  have un: "?t' v = None" if "un (c_pc c') v" for v
    using edge(1) [OF _ _ that] valid [of v] keep [of v] sync_invD(1) [OF inv, of v] by fastforce
  have sy: "?t' v = ?t' (root f v)" if "sy (c_pc c') v" "?t' v \<noteq> None" for v
  proof -
    have v: "0 \<le> v" "v < fn_next_value f"
      using valid that(2) by auto
    note edge_v = edge(2) [OF v that(1)]
    consider "v = i_dst ?i" | "v \<noteq> i_dst ?i" "un (c_pc c) v" | "v \<noteq> i_dst ?i" "sy (c_pc c) v" "root f v \<noteq> i_dst ?i"
      using edge_v by blast
    then show ?thesis
    proof cases
      case 1
      show ?thesis
      proof (cases "i_op ?i = NY_NIR_COPY")
        case True
        obtain x where x: "?t (i_a ?i) = Some x" "?t' v = Some x"
          using sem_at_COPY [OF True sem] 1 by blast
        have "i_a ?i \<in> set (inst_reads ?i)"
          using True by (simp add: inst_reads_def)
        then have "?t (root f (i_a ?i)) = Some x"
          by (rule sync_read [OF cert inv k _ x(1)])
        moreover have "defined_before f (c_pc c) (root f (i_a ?i))"
          using root_props(3) [OF f] copy_operand [OF f k True] k by auto
        then have "root f (i_a ?i) \<noteq> i_dst ?i"
          using verified_dst_fresh [OF f(1) k] 1 v(1) by auto
        ultimately show ?thesis
          using keep x(2) root_copy [OF f k] 1 v(1) True by simp
      next
        case False
        then show ?thesis
          using root_copy [OF f k] 1 v(1) by simp
      qed
    next
      case 2
      then show ?thesis
        using keep sync_invD(1) [OF inv] that(2) by simp
    next
      case 3
      then show ?thesis
        using keep inv that(2) by (auto simp: sync_inv_def)
    qed
  qed
  show ?thesis
    unfolding sync_inv_def using len un sy by blast
qed

section \<open>The pass\<close>

lemma alias_walk_sign: "0 \<le> v \<Longrightarrow> 0 \<le> alias_walk n al v"
  by (induction n al v rule: alias_walk.induct) simp_all

lemma alias_find_sign [simp]: "(nir_alias_find al v < 0) = (v < 0)"
  using alias_walk_sign [of v 64 al] by (auto simp: nir_alias_find_def)

lemma alias_find_neg: "v < 0 \<Longrightarrow> nir_alias_find al v = v"
  by (simp add: nir_alias_find_def)

lemma copy_prop_fields:
  assumes "ny_nir_copy_prop f = Some g"
  shows "fn_len g = fn_len f" and "fn_next_value g = fn_next_value f"
  using assms by (auto simp: ny_nir_copy_prop_def copy_prop_loop_scan split: if_splits)

lemma copy_prop_nth:
  assumes "ny_nir_copy_prop f = Some g" "0 < fn_next_value f" "k < fn_len f"
  shows "fn_data g ! k = map_operands (nir_alias_find (aliases f k)) (fn_data f ! k)"
  using assms
  by (auto simp: ny_nir_copy_prop_def copy_prop_loop_scan aliases_def copy_prop_inst_def Let_def scan_map_nth)

lemma copy_prop_step:
  assumes f: "verified f" "arrays_ok f" and cert: "copies_in_sync f sy un" and inv: "sync_inv f sy un c"
    and g: "ny_nir_copy_prop f = Some g" and k: "c_pc c < fn_len f" and r: "core_step env f c = Some r"
  shows "core_step env g c = Some r"
proof (cases "0 < fn_next_value f")
  case False
  then show ?thesis
    using g r by (simp add: ny_nir_copy_prop_def)
next
  case True
  let ?i = "fn_data f ! c_pc c" and ?G = "nir_alias_find (aliases f (c_pc c))"
  note nth = copy_prop_nth [OF g True]
  have lbl: "label_pc g = label_pc f"
    using copy_prop_fields [OF g] nth by (intro label_pc_cong) (auto simp: same_label_def frame_simps)
  obtain vs out where o: "reads (c_vals c) (inst_reads ?i) = Some vs"
      "inst_sem env (label_pc f) ?i vs (c_mem c) = Some out" "finish ?i c out = Some r"
    using r by (auto simp: core_step_def sem_at_def split: option.splits)
  have "tab_get (c_vals c) (?G u) = tab_get (c_vals c) u" if u: "u \<in> set (inst_reads ?i)" for u
  proof -
    have "defined_before f (c_pc c) u" "u < fn_next_value f"
      using verified_reads [OF f(1) k arrays_okD [OF f(2) k] u] by (auto simp: nir_value_valid_def)
    then have "?G u = root f u"
      using root_props(1) [OF f] k by simp
    then show ?thesis
      using reads_known [OF o(1) u] sync_read [OF cert inv k u] by auto
  qed
  then have "reads (c_vals c) (inst_reads (map_operands ?G ?i)) = Some vs"
    using map_operands_reads [OF arrays_okD [OF f(2) k], of ?G] reads_map [of "inst_reads ?i" "c_vals c" ?G "c_vals c"] o(1)
    by (simp add: alias_find_neg)
  then show ?thesis
    using o(2,3) lbl nth [OF k] map_operands_sem [of ?G]
    by (simp add: core_step_def sem_at_def map_operands_finish)
qed

definition copy_prop_ok :: "ny_nir_func \<Rightarrow> bool" where
  "copy_prop_ok f \<longleftrightarrow> verified f \<and> arrays_ok f \<and> (\<exists>sy un. copies_in_sync f sy un)"

definition cert_of :: "ny_nir_func \<Rightarrow> (nat \<Rightarrow> int \<Rightarrow> bool) \<times> (nat \<Rightarrow> int \<Rightarrow> bool)" where
  "cert_of f = (SOME p. copies_in_sync f (fst p) (snd p))"

lemma cert_of: "copy_prop_ok f \<Longrightarrow> copies_in_sync f (fst (cert_of f)) (snd (cert_of f))"
  unfolding copy_prop_ok_def cert_of_def by (rule someI_ex) auto

lemma sync_inv_init: "sync_inv f sy un (core_init f ls h)"
  by (simp add: sync_inv_def core_init_def)

interpretation copy_prop: lockstep_pass ny_nir_copy_prop "\<lambda>env f. copy_prop_ok f"
  "\<lambda>env f c d. d = c \<and> sync_inv f (fst (cert_of f)) (snd (cert_of f)) c"
proof
  fix f g ls h
  assume "ny_nir_copy_prop f = Some g"
  then show "core_init g ls h = core_init f ls h \<and> sync_inv f (fst (cert_of f)) (snd (cert_of f)) (core_init f ls h)"
    using copy_prop_fields sync_inv_init by (simp add: core_init_def empty_tab_def)
next
  fix f g env c d r
  assume ok: "copy_prop_ok f" and g: "ny_nir_copy_prop f = Some g"
    and rel: "d = c \<and> sync_inv f (fst (cert_of f)) (snd (cert_of f)) c"
    and k: "c_pc c < fn_len f" and r: "core_step env f c = Some r"
  have f: "verified f" "arrays_ok f"
    using ok by (auto simp: copy_prop_ok_def)
  have "core_step env g c = Some r"
    by (rule copy_prop_step [OF f cert_of [OF ok] conjunct2 [OF rel] g k r])
  moreover have "sync_inv f (fst (cert_of f)) (snd (cert_of f)) c'" if "r = Cont c'" for c'
    using sync_step [OF f cert_of [OF ok] conjunct2 [OF rel] k] r that by (simp add: core_step_def)
  ultimately show "\<exists>r'. core_step env g d = Some r' \<and>
      out_rel (\<lambda>c d. d = c \<and> sync_inv f (fst (cert_of f)) (snd (cert_of f)) c) r r'"
    using rel by (cases r) auto
qed (auto dest: copy_prop_fields)

text \<open>In a function that only branches forward, no value is computed before its instruction.\<close>

definition forward_only :: "ny_nir_func \<Rightarrow> bool" where
  "forward_only f \<longleftrightarrow> list_all (\<lambda>k. list_all (\<lambda>j. k < j) (succs f k)) [0..<fn_len f]"

lemma forward_in_sync:
  assumes f: "verified f" "arrays_ok f" and fwd: "forward_only f"
  shows "copies_in_sync f (\<lambda>k v. True) (\<lambda>k v. \<not> defined_before f k v)"
proof -
  have edge: "k < j" if "k < fn_len f" "j \<in> set (succs f k)" for j k
    using fwd that by (auto simp: forward_only_def list_all_iff)
  have un: "\<not> defined_before f k v \<and> v \<noteq> i_dst (fn_data f ! k)"
    if "k < fn_len f" "j \<in> set (succs f k)" "0 \<le> v" "\<not> defined_before f j v" for j k v
    using edge [OF that(1,2)] that by (auto simp: defined_before_def)
  have sy: "root f v \<noteq> i_dst (fn_data f ! k)"
    if "k < fn_len f" "v < fn_next_value f" "defined_before f k v" for k v
    using root_props(3,4) [OF f that(3,2)] verified_dst_fresh [OF f(1) that(1)] that(1) by auto
  show ?thesis
    unfolding copies_in_sync_def list_all_iff using un sy by auto
qed

section \<open>Properties\<close>

text \<open>A loop that reads a copy of the value loaded in the same round.\<close>

definition sample_copy :: ny_nir_func where
  "sample_copy = nfunc
     [ni NY_NIR_LABEL (-1) (-1) (-1) 1, ni NY_NIR_LOAD_LOCAL 0 (-1) (-1) 0,
      ni NY_NIR_COPY 1 0 (-1) 0, ni NY_NIR_CONST_I64 2 (-1) (-1) 1,
      ni NY_NIR_SUB_I64 3 1 2 0, ni NY_NIR_STORE_LOCAL (-1) 3 (-1) 0,
      ni NY_NIR_COPY 4 1 (-1) 0, ni NY_NIR_BR_IF (-1) 3 (-1) 1, ni NY_NIR_RET (-1) 4 (-1) 0] 5"

text \<open>
  C9: copy propagation preserves runs. Given a certificate that every copy an instruction reads is
  in step with its root there, every successful run of a verified function is matched by a run of
  the function after copy propagation with the same outcome.
\<close>

theorem copy_prop_preserves_runs:
  assumes "verified f" "arrays_ok f" "copies_in_sync f sy un" "ny_nir_copy_prop f = Some g"
    and "eval_run env f ls h n = Inr s"
  shows "\<exists>t. eval_run env g ls h n = Inr t \<and> outcome_of t = outcome_of s"
  using assms by (intro copy_prop.eval_preserved) (auto simp: copy_prop_ok_def)

theorem copy_prop_preserves_runs_witness:
  "\<exists>g t. ny_nir_copy_prop sample_copy = Some g \<and> g \<noteq> sample_copy \<and>
     eval_run toy_env g [4] Map.empty 90 = Inr t \<and> o_result (outcome_of t) = 1"
proof -
  have v: "verified sample_copy" "arrays_ok sample_copy"
    by code_simp+
  have c: "copies_in_sync sample_copy (\<lambda>k v. (v = 1 \<longrightarrow> k \<noteq> 2) \<and> (v = 4 \<longrightarrow> k < 2 \<or> 6 < k)) (\<lambda>k v. False)"
    by code_simp
  have changed: "ny_nir_copy_prop sample_copy \<noteq> Some sample_copy"
    by code_simp
  obtain g where g: "ny_nir_copy_prop sample_copy = Some g"
    by (cases "fn_next_value sample_copy \<le> 0") (simp_all add: ny_nir_copy_prop_def)
  have "ok_run (\<lambda>s. o_result (outcome_of s) = 1) (eval_run toy_env sample_copy [4] Map.empty 90)"
    by code_simp
  then obtain s where "eval_run toy_env sample_copy [4] Map.empty 90 = Inr s" "o_result (outcome_of s) = 1"
    by (rule ok_runE)
  then show ?thesis
    using copy_prop_preserves_runs [OF v c g] g changed by fastforce
qed

text \<open>
  On a verified function that only branches forward, copy propagation preserves every
  successful run, with no further condition.
\<close>

theorem copy_prop_forward:
  assumes "verified f" "arrays_ok f" "forward_only f" "ny_nir_copy_prop f = Some g"
    and "eval_run env f ls h n = Inr s"
  shows "\<exists>t. eval_run env g ls h n = Inr t \<and> outcome_of t = outcome_of s"
  using assms forward_in_sync by (intro copy_prop.eval_preserved) (auto simp: copy_prop_ok_def)

definition sample_forward :: ny_nir_func where
  "sample_forward = nfunc
     [ni NY_NIR_LOAD_LOCAL 0 (-1) (-1) 0, ni NY_NIR_COPY 1 0 (-1) 0, ni NY_NIR_COPY 2 1 (-1) 0,
      ni NY_NIR_BR_IF (-1) 2 (-1) 3, ni NY_NIR_RET (-1) 2 (-1) 0, ni NY_NIR_LABEL (-1) (-1) (-1) 3,
      ni NY_NIR_ADD_I64 3 2 1 0, ni NY_NIR_RET (-1) 3 (-1) 0] 4"

theorem copy_prop_forward_witness:
  "\<exists>g t. ny_nir_copy_prop sample_forward = Some g \<and> g \<noteq> sample_forward \<and>
     eval_run toy_env g [21] Map.empty 90 = Inr t \<and> o_result (outcome_of t) = 42"
proof -
  have v: "verified sample_forward" "arrays_ok sample_forward" "forward_only sample_forward"
    by code_simp+
  have changed: "ny_nir_copy_prop sample_forward \<noteq> Some sample_forward"
    by code_simp
  obtain g where g: "ny_nir_copy_prop sample_forward = Some g"
    by (cases "fn_next_value sample_forward \<le> 0") (simp_all add: ny_nir_copy_prop_def)
  have "ok_run (\<lambda>s. o_result (outcome_of s) = 42) (eval_run toy_env sample_forward [21] Map.empty 90)"
    by code_simp
  then obtain s where "eval_run toy_env sample_forward [21] Map.empty 90 = Inr s" "o_result (outcome_of s) = 42"
    by (rule ok_runE)
  then show ?thesis
    using copy_prop_forward [OF v g] g changed by fastforce
qed

text \<open>
  The copy is read after the back edge, when the value it was copied from has been loaded again.
\<close>

definition sample_stale :: ny_nir_func where
  "sample_stale = nfunc
     [ni NY_NIR_LABEL (-1) (-1) (-1) 1, ni NY_NIR_LOAD_LOCAL 0 (-1) (-1) 0,
      ni NY_NIR_LOAD_LOCAL 1 (-1) (-1) 1, ni NY_NIR_BR_IF (-1) 1 (-1) 2,
      ni NY_NIR_COPY 2 0 (-1) 0, ni NY_NIR_CONST_I64 3 (-1) (-1) 1,
      ni NY_NIR_STORE_LOCAL (-1) 3 (-1) 1, ni NY_NIR_CONST_I64 4 (-1) (-1) 9,
      ni NY_NIR_STORE_LOCAL (-1) 4 (-1) 0, ni NY_NIR_BR (-1) (-1) (-1) 1,
      ni NY_NIR_LABEL (-1) (-1) (-1) 2, ni NY_NIR_RET (-1) 2 (-1) 0] 5"


end
