(* ===== verification/Nyir_Range_Sound.thy ===== *)
theory Nyir_Range_Sound
  imports Nyir_Analysis Nyir_Verify_Facts
begin

text \<open>
  Soundness of the interval arithmetic of \<open>verify.c\<close>: the checked operations fail exactly when the
  mathematical result is not an \<open>int64_t\<close>, and the range computed for a binary operation contains
  the result of that operation for all operands in the operand ranges, for every operator but
  \<open>or\<close> and \<open>xor\<close>.
\<close>

section \<open>Checked arithmetic is exact\<close>

lemma sint_of_fits: "fits_i64 x \<Longrightarrow> sint (word_of_int x :: i64) = x"
  by (simp add: fits_i64_def signed_of_int signed_take_bit_int_eq_self)

lemma word_of_sint [simp]: "word_of_int (sint (a :: i64)) = a"
  by simp

lemma fits_sint [simp]: "fits_i64 (sint (a :: i64))"
  using sint_i64_bounds [of a] by (simp add: fits_i64_def)

lemma add_of_sint: "a + b = word_of_int (sint a + sint (b :: i64))"
  by simp
lemma sub_of_sint: "a - b = word_of_int (sint a - sint (b :: i64))"
  by simp
lemma mul_of_sint: "a * b = word_of_int (sint a * sint (b :: i64))"
  by simp

lemma sint_add: "fits_i64 (sint a + sint b) \<Longrightarrow> sint (a + b :: i64) = sint a + sint b"
  by (subst add_of_sint) (rule sint_of_fits)
lemma sint_sub: "fits_i64 (sint a - sint b) \<Longrightarrow> sint (a - b :: i64) = sint a - sint b"
  by (subst sub_of_sint) (rule sint_of_fits)
lemma sint_mul: "fits_i64 (sint a * sint b) \<Longrightarrow> sint (a * b :: i64) = sint a * sint b"
  by (subst mul_of_sint) (rule sint_of_fits)

lemma sint_limits [simp]: "sint INT64_MAX = 2 ^ 63 - 1" "sint INT64_MIN = - (2 ^ 63)"
  by (simp_all add: INT64_MAX_def INT64_MIN_def)

lemma add_checked_iff:
  "ny_nir_i64_add_checked a b = (if fits_i64 (sint a + sint b) then Some (a + b) else None)"
proof -
  have "sint (INT64_MAX - b) = 2 ^ 63 - 1 - sint b" if "sint b > 0"
    using that sint_i64_bounds [of b] by (subst sint_sub) (simp_all add: fits_i64_def)
  moreover have "sint (INT64_MIN - b) = - (2 ^ 63) - sint b" if "sint b < 0"
    using that sint_i64_bounds [of b] by (subst sint_sub) (simp_all add: fits_i64_def)
  ultimately show ?thesis
    using sint_i64_bounds [of a] sint_i64_bounds [of b]
    unfolding ny_nir_i64_add_checked_def fits_i64_def by (cases "sint b" "0 :: int" rule: linorder_cases) auto
qed

lemma sub_checked_iff:
  "ny_nir_i64_sub_checked a b = (if fits_i64 (sint a - sint b) then Some (a - b) else None)"
proof -
  have "sint (INT64_MAX + b) = 2 ^ 63 - 1 + sint b" if "sint b < 0"
    using that sint_i64_bounds [of b] by (subst sint_add) (simp_all add: fits_i64_def)
  moreover have "sint (INT64_MIN + b) = - (2 ^ 63) + sint b" if "sint b > 0"
    using that sint_i64_bounds [of b] by (subst sint_add) (simp_all add: fits_i64_def)
  ultimately show ?thesis
    using sint_i64_bounds [of a] sint_i64_bounds [of b]
    unfolding ny_nir_i64_sub_checked_def fits_i64_def by (cases "sint b" "0 :: int" rule: linorder_cases) auto
qed

lemma sint_eq_iff: "(a :: i64) = b \<longleftrightarrow> sint a = sint b"
  by (metis word_of_sint)

lemma trunc_div_fits:
  assumes "\<not> (a = INT64_MIN \<and> b = -1)"
  shows "fits_i64 (sint a sdiv sint (b :: i64))"
proof -
  have rng: "- \<bar>sint a\<bar> \<le> sint a sdiv sint b" "sint a sdiv sint b \<le> \<bar>sint a\<bar>"
    using sdiv_int_range [of "sint a" "sint b"] by auto
  have "sint a sdiv sint b \<noteq> 2 ^ 63"
  proof
    assume e: "sint a sdiv sint b = 2 ^ 63"
    then have a: "sint a = - (2 ^ 63)"
      using rng sint_i64_bounds [of a] by linarith
    then have "sint b = -1"
      using e int_sdiv_negated_is_minus1 [of "sint a" "sint b"] by simp
    then show False
      using assms a by (simp add: sint_eq_iff)
  qed
  then show ?thesis
    using rng sint_i64_bounds [of a] by (auto simp: fits_i64_def)
qed

lemma div_checked_sint:
  "ny_nir_i64_div_checked a b = Some c \<Longrightarrow> sint c = sint a sdiv sint b \<and> b \<noteq> 0"
  using trunc_div_fits [of a b] sint_of_fits
  by (auto simp: ny_nir_i64_div_checked_def split: if_splits)

lemma mul_checked_sint:
  "ny_nir_i64_mul_checked a b = Some c \<Longrightarrow> sint c = sint a * sint b"
  by (auto simp: ny_nir_i64_mul_checked_def sint_mul split: if_splits)

section \<open>Ranges and facts\<close>

definition in_range :: "ny_nir_range \<Rightarrow> i64 \<Rightarrow> bool" where
  "in_range r x \<longleftrightarrow>
     (has_min r \<longrightarrow> sint (rg_min r) \<le> sint x) \<and> (has_max r \<longrightarrow> sint x \<le> sint (rg_max r))"

definition fact_ok :: "ny_nir_value_fact \<Rightarrow> i64 \<Rightarrow> bool" where
  "fact_ok d x \<longleftrightarrow> (vf_known_const d \<longrightarrow> x = vf_const_value d) \<and> in_range (vf_range d) x"

lemma in_full_range [simp]: "in_range (full_range lo hi) x \<longleftrightarrow> sint lo \<le> sint x \<and> sint x \<le> sint hi"
  by (simp add: in_range_def full_range_def)

lemma in_zero_range [simp]: "in_range zero_range x"
  by (simp add: in_range_def zero_range_def)

lemma range_full_in:
  "range_full r \<Longrightarrow> in_range r x \<Longrightarrow> sint (rg_min r) \<le> sint x \<and> sint x \<le> sint (rg_max r)"
  by (simp add: range_full_def in_range_def)

section \<open>Products and quotients over a box\<close>

lemma mul_between:
  fixes x lo hi c :: int
  assumes "lo \<le> x" "x \<le> hi"
  shows "min (lo * c) (hi * c) \<le> x * c" and "x * c \<le> max (lo * c) (hi * c)"
  using mult_right_mono [OF assms(1), of c] mult_right_mono [OF assms(2), of c]
    mult_right_mono_neg [OF assms(1), of c] mult_right_mono_neg [OF assms(2), of c]
  by linarith+

lemma div_mono_pos:
  fixes x y b :: int
  assumes "x \<le> y" "0 < b"
  shows "x sdiv b \<le> y sdiv b"
proof (cases "0 \<le> x")
  case True
  then show ?thesis
    using assms by (cases "x = 0"; cases "y = 0") (auto simp: signed_divide_int_def zdiv_mono1 pos_imp_zdiv_nonneg_iff)
next
  case False
  show ?thesis
  proof (cases "0 \<le> y")
    case True
    then have "0 \<le> y sdiv b" "x sdiv b \<le> 0"
      using False assms by (auto simp: signed_divide_int_def sgn_if pos_imp_zdiv_nonneg_iff)
    then show ?thesis by linarith
  next
    case neg: False
    have "- y div b \<le> - x div b"
      using assms by (intro zdiv_mono1) auto
    then show ?thesis
      using False neg assms by (simp add: signed_divide_int_def sgn_if)
  qed
qed

lemma div_between_num:
  fixes x lo hi b :: int
  assumes "lo \<le> x" "x \<le> hi"
  shows "min (lo sdiv b) (hi sdiv b) \<le> x sdiv b" and "x sdiv b \<le> max (lo sdiv b) (hi sdiv b)"
proof -
  consider "b = 0" | "0 < b" | "0 < - b"
    by linarith
  then have "min (lo sdiv b) (hi sdiv b) \<le> x sdiv b \<and> x sdiv b \<le> max (lo sdiv b) (hi sdiv b)"
  proof cases
    case 2
    then show ?thesis
      using div_mono_pos [OF assms(1) 2] div_mono_pos [OF assms(2) 2] by simp
  next
    case 3
    then show ?thesis
      using div_mono_pos [OF assms(1) 3] div_mono_pos [OF assms(2) 3] by simp
  qed simp
  then show "min (lo sdiv b) (hi sdiv b) \<le> x sdiv b" "x sdiv b \<le> max (lo sdiv b) (hi sdiv b)"
    by simp_all
qed

lemma div_mono_den:
  fixes x y z :: int
  assumes "0 < y" "y \<le> z"
  shows "0 \<le> x \<Longrightarrow> x sdiv z \<le> x sdiv y" and "x \<le> 0 \<Longrightarrow> x sdiv y \<le> x sdiv z"
proof -
  have "\<bar>x\<bar> div z \<le> \<bar>x\<bar> div y"
    using assms by (intro zdiv_mono2) auto
  then show "0 \<le> x \<Longrightarrow> x sdiv z \<le> x sdiv y" "x \<le> 0 \<Longrightarrow> x sdiv y \<le> x sdiv z"
    using assms by (auto simp: signed_divide_int_def sgn_if)
qed

lemma div_between_den:
  fixes x y lo hi :: int
  assumes "lo \<le> y" "y \<le> hi" "0 < lo \<or> hi < 0"
  shows "min (x sdiv lo) (x sdiv hi) \<le> x sdiv y" and "x sdiv y \<le> max (x sdiv lo) (x sdiv hi)"
proof -
  have "min (x sdiv lo) (x sdiv hi) \<le> x sdiv y \<and> x sdiv y \<le> max (x sdiv lo) (x sdiv hi)"
    using assms(3)
  proof
    assume "0 < lo"
    then show ?thesis
      using div_mono_den [of lo y x] div_mono_den [of y hi x] assms(1,2) by (cases "0 \<le> x") auto
  next
    assume "hi < 0"
    then show ?thesis
      using div_mono_den [of "- hi" "- y" x] div_mono_den [of "- y" "- lo" x] assms(1,2)
      by (cases "0 \<le> x") auto
  qed
  then show "min (x sdiv lo) (x sdiv hi) \<le> x sdiv y" "x sdiv y \<le> max (x sdiv lo) (x sdiv hi)"
    by simp_all
qed


section \<open>Soundness of the computed range\<close>

lemma foldl_smin_le: "w \<in> set (v # vs) \<Longrightarrow> sint (foldl smin v vs) \<le> sint w"
proof (induction vs arbitrary: v w)
  case (Cons u us)
  have "sint (smin v u) \<le> sint v" "sint (smin v u) \<le> sint u"
    by (simp_all add: smin_def)
  then show ?case
    using Cons.IH [of "smin v u" "smin v u"] Cons.IH [of w "smin v u"] Cons.prems by auto
qed simp

lemma foldl_smax_ge: "w \<in> set (v # vs) \<Longrightarrow> sint w \<le> sint (foldl smax v vs)"
proof (induction vs arbitrary: v w)
  case (Cons u us)
  have "sint v \<le> sint (smax v u)" "sint u \<le> sint (smax v u)"
    by (simp_all add: smax_def)
  then show ?case
    using Cons.IH [of "smax v u" "smax v u"] Cons.IH [of w "smax v u"] Cons.prems by auto
qed simp

lemma corners_in_range: "ny_nir_range_from_corners vs = Some r \<Longrightarrow> w \<in> set vs \<Longrightarrow> in_range r w"
  using foldl_smin_le foldl_smax_ge by (cases vs) auto

lemma in_range_convex:
  "in_range r u \<Longrightarrow> in_range r v \<Longrightarrow> min (sint u) (sint v) \<le> sint w \<Longrightarrow> sint w \<le> max (sint u) (sint v) \<Longrightarrow>
   in_range r w"
  by (auto simp: in_range_def)

text \<open>
  A range from corners contains every value between two values that are themselves between
  corners: the pattern of an operation monotone in each operand.
\<close>

lemma corner_range_convex:
  fixes g :: "int \<Rightarrow> int \<Rightarrow> int"
  assumes r: "corner_range h ra rb = Some r"
    and h: "\<And>u v w. h u v = Some w \<Longrightarrow> sint w = g (sint u) (sint v)"
    and x: "sint (rg_min ra) \<le> x" "x \<le> sint (rg_max ra)" and y: "sint (rg_min rb) \<le> y" "y \<le> sint (rg_max rb)"
    and num: "\<And>v. min (g (sint (rg_min ra)) v) (g (sint (rg_max ra)) v) \<le> g x v"
      "\<And>v. g x v \<le> max (g (sint (rg_min ra)) v) (g (sint (rg_max ra)) v)"
    and den: "min (g x (sint (rg_min rb))) (g x (sint (rg_max rb))) \<le> g x y"
      "g x y \<le> max (g x (sint (rg_min rb))) (g x (sint (rg_max rb)))"
    and z: "sint z = g x y"
  shows "in_range r z"
proof -
  obtain c0 c1 c2 c3 where c: "h (rg_min ra) (rg_min rb) = Some c0" "h (rg_min ra) (rg_max rb) = Some c1"
      "h (rg_max ra) (rg_min rb) = Some c2" "h (rg_max ra) (rg_max rb) = Some c3"
      "ny_nir_range_from_corners [c0, c1, c2, c3] = Some r"
    using r by (auto simp: corner_range_def split: option.splits)
  have in4: "in_range r c0" "in_range r c1" "in_range r c2" "in_range r c3"
    using corners_in_range [OF c(5)] by simp_all
  note e = h [OF c(1)] h [OF c(2)] h [OF c(3)] h [OF c(4)]
  have lo: "L \<le> g x y" if "L \<le> sint c0" "L \<le> sint c1" "L \<le> sint c2" "L \<le> sint c3" for L
  proof -
    have "L \<le> g x (sint (rg_min rb))" "L \<le> g x (sint (rg_max rb))"
      using that unfolding e by (auto intro: order_trans [OF _ num(1)])
    then show ?thesis
      by (auto intro: order_trans [OF _ den(1)])
  qed
  have hi: "g x y \<le> H" if "sint c0 \<le> H" "sint c1 \<le> H" "sint c2 \<le> H" "sint c3 \<le> H" for H
  proof -
    have "g x (sint (rg_min rb)) \<le> H" "g x (sint (rg_max rb)) \<le> H"
      using that unfolding e by (auto intro: order_trans [OF num(2)])
    then show ?thesis
      by (auto intro: order_trans [OF den(2)])
  qed
  show ?thesis
    using in4 lo hi unfolding in_range_def z by blast
qed

lemma range_mul_sound:
  assumes "corner_range ny_nir_i64_mul_checked ra rb = Some r" "range_full ra" "range_full rb"
    "in_range ra x" "in_range rb y"
  shows "in_range r (x * y)"
proof -
  have x: "sint (rg_min ra) \<le> sint x" "sint x \<le> sint (rg_max ra)"
    and y: "sint (rg_min rb) \<le> sint y" "sint y \<le> sint (rg_max rb)"
    using assms range_full_in by auto
  note num = mul_between [OF x]
  have den: "min (sint x * sint (rg_min rb)) (sint x * sint (rg_max rb)) \<le> sint x * sint y"
      "sint x * sint y \<le> max (sint x * sint (rg_min rb)) (sint x * sint (rg_max rb))"
    using mul_between [OF y, of "sint x"] by (simp_all add: mult.commute)
  obtain c0 c1 c2 c3 :: i64 where c: "sint c0 = sint (rg_min ra) * sint (rg_min rb)"
      "sint c1 = sint (rg_min ra) * sint (rg_max rb)" "sint c2 = sint (rg_max ra) * sint (rg_min rb)"
      "sint c3 = sint (rg_max ra) * sint (rg_max rb)"
    using assms(1) unfolding corner_range_def
    by (auto split: option.splits dest!: mul_checked_sint)
  have "fits_i64 (sint x * sint y)"
    using den num [of "sint (rg_min rb)"] num [of "sint (rg_max rb)"]
      fits_sint [of c0] fits_sint [of c1] fits_sint [of c2] fits_sint [of c3] c
    unfolding fits_i64_def by linarith
  then have "sint (x * y) = sint x * sint y"
    by (rule sint_mul)
  then show ?thesis
    using corner_range_convex [OF assms(1) mul_checked_sint x y num den] by blast
qed

lemma range_div_sound:
  assumes "corner_range ny_nir_i64_div_checked ra rb = Some r" "range_full ra" "range_full rb"
    "in_range ra x" "in_range rb y" "\<not> (sint (rg_min rb) \<le> 0 \<and> sint (rg_max rb) \<ge> 0)"
    "\<not> (x = INT64_MIN \<and> y = -1)"
  shows "in_range r (word_of_int (sint x sdiv sint y))"
proof -
  have x: "sint (rg_min ra) \<le> sint x" "sint x \<le> sint (rg_max ra)"
    and y: "sint (rg_min rb) \<le> sint y" "sint y \<le> sint (rg_max rb)"
    using assms range_full_in by auto
  have nz: "0 < sint (rg_min rb) \<or> sint (rg_max rb) < 0"
    using assms(6) by linarith
  have "sint (word_of_int (sint x sdiv sint y) :: i64) = sint x sdiv sint y"
    using trunc_div_fits [OF assms(7)] by (rule sint_of_fits)
  then show ?thesis
    using corner_range_convex [OF assms(1) _ x y div_between_num [OF x] div_between_den [OF y nz]]
      div_checked_sint by blast
qed

lemma smod_bound:
  fixes a b :: int
  assumes "b \<noteq> 0"
  shows "\<bar>a smod b\<bar> \<le> \<bar>b\<bar> - 1" and "0 \<le> a \<Longrightarrow> 0 \<le> a smod b" and "a \<le> 0 \<Longrightarrow> a smod b \<le> 0"
proof -
  have e: "a smod b = sgn a * (\<bar>a\<bar> mod \<bar>b\<bar>)"
    by (simp add: signed_modulo_int_def)
  have m: "0 \<le> \<bar>a\<bar> mod \<bar>b\<bar>" "\<bar>a\<bar> mod \<bar>b\<bar> < \<bar>b\<bar>"
    using assms by simp_all
  then show "\<bar>a smod b\<bar> \<le> \<bar>b\<bar> - 1"
    by (auto simp: e abs_mult sgn_if)
  show "0 \<le> a \<Longrightarrow> 0 \<le> a smod b" "a \<le> 0 \<Longrightarrow> a smod b \<le> 0"
    using m by (auto simp: e sgn_if)
qed

lemma range_mod_sound:
  assumes b: "range_bounds NY_NIR_MOD_I64 fa fb = Some (lo, hi)" and "range_full (vf_range fa)"
    "in_range (vf_range fa) x" "vf_known_const fb \<Longrightarrow> y = vf_const_value fb"
  shows "in_range (full_range lo hi) (word_of_int (sint x smod sint y))"
proof -
  let ?h = "if sint y < 0 then - y - 1 else y - 1"
  have x: "sint (rg_min (vf_range fa)) \<le> sint x" "sint x \<le> sint (rg_max (vf_range fa))"
    using assms(2,3) range_full_in by auto
  have c: "vf_known_const fb" "vf_const_value fb = y" "y \<noteq> 0" "y \<noteq> INT64_MIN"
    using b assms(4) by (auto simp: range_bounds_def Let_def split: if_splits)
  then have y: "sint y \<noteq> 0" "sint y \<noteq> - (2 ^ 63)"
    by (simp_all add: sint_eq_iff)
  have ny: "sint (- y) = - sint y"
    using y sint_i64_bounds [of y] sint_sub [of 0 y] by (simp add: fits_i64_def)
  have h: "sint ?h = \<bar>sint y\<bar> - 1"
    using y ny sint_i64_bounds [of y] sint_sub [of y 1] sint_sub [of "- y" 1] by (auto simp: fits_i64_def)
  have nh: "sint (- ?h) = - (\<bar>sint y\<bar> - 1)"
    using h y sint_i64_bounds [of y] sint_sub [of 0 ?h] by (auto simp: fits_i64_def)
  have lohi: "lo = (if sint (rg_min (vf_range fa)) < 0 then - ?h else 0)"
      "hi = (if sint (rg_max (vf_range fa)) \<le> 0 then 0 else ?h)"
    using b c by (auto simp: range_bounds_def Let_def split: if_splits)
  note m = smod_bound [OF y(1), of "sint x"]
  have z: "sint (word_of_int (sint x smod sint y) :: i64) = sint x smod sint y"
    using m(1) sint_i64_bounds [of y] by (intro sint_of_fits) (auto simp: fits_i64_def)
  have "sint lo \<le> sint x smod sint y"
    using m x nh by (auto simp: lohi)
  moreover have "sint x smod sint y \<le> sint hi"
    using m x h by (auto simp: lohi)
  ultimately show ?thesis
    by (simp add: z)
qed

lemma sint_and: "sint (x AND y :: i64) = sint x AND sint y"
  by (simp add: signed_and_eq)

lemma sint_or: "sint (x OR y :: i64) = sint x OR sint y"
  by (simp add: signed_or_eq)

lemma range_and_const: "0 \<le> sint (c :: i64) \<Longrightarrow> in_range (full_range 0 c) (x AND c)"
  by (simp add: sint_and AND_upper2)

lemma range_and_sound:
  assumes "0 \<le> sint (rg_min ra)" "0 \<le> sint (rg_min rb)" "range_full ra" "range_full rb"
    "in_range ra x" "in_range rb y"
  shows "in_range (full_range 0 (rg_max ra OR rg_max rb)) (x AND y)"
proof -
  have x: "0 \<le> sint x" "sint x \<le> sint (rg_max ra)" and y: "0 \<le> sint y" "sint y \<le> sint (rg_max rb)"
    using assms range_full_in by force+
  have "sint x AND sint y \<le> sint x"
    using x(1) by (rule AND_upper1)
  also have "\<dots> \<le> sint (rg_max ra) OR sint (rg_max rb)"
    using x y by (meson or_greater_eq order_trans)
  finally show ?thesis
    using x(1) by (simp add: sint_and sint_or)
qed

lemma sint_sar: "sint (signed_drop_bit n (x :: i64)) = sint x div 2 ^ n"
  by (simp add: sint_signed_drop_bit_eq drop_bit_eq_div)

lemma range_sar_sound:
  assumes "range_full ra" "in_range ra x"
  shows "in_range (full_range (signed_drop_bit n (rg_min ra)) (signed_drop_bit n (rg_max ra)))
           (signed_drop_bit n x)"
  using range_full_in [OF assms] by (auto simp: sint_sar intro!: zdiv_mono1)

lemma range_shl_sound:
  assumes n: "n < 63" and a: "range_full ra" "in_range ra x" "0 \<le> sint (rg_min ra)"
    and lo: "ny_nir_i64_mul_checked (rg_min ra) (push_bit n 1) = Some lo"
    and hi: "ny_nir_i64_mul_checked (rg_max ra) (push_bit n 1) = Some hi"
  shows "in_range (full_range lo hi) (push_bit n x)"
proof -
  have p: "sint (push_bit n 1 :: i64) = 2 ^ n"
  proof -
    have "(2 :: int) ^ n < 2 ^ 63"
      using n by (intro power_strict_increasing) auto
    moreover have "0 \<le> (2 :: int) ^ n"
      by simp
    ultimately have "sint (word_of_int (2 ^ n) :: i64) = 2 ^ n"
      by (intro sint_of_fits) (unfold fits_i64_def, linarith)
    then show ?thesis
      by (simp add: push_bit_eq_mult)
  qed
  have x: "sint (rg_min ra) \<le> sint x" "sint x \<le> sint (rg_max ra)"
    using range_full_in [OF a(1,2)] by auto
  have l: "sint lo = sint (rg_min ra) * 2 ^ n" "sint hi = sint (rg_max ra) * 2 ^ n"
    using mul_checked_sint [OF lo] mul_checked_sint [OF hi] p by simp_all
  have b: "sint lo \<le> sint x * 2 ^ n" "sint x * 2 ^ n \<le> sint hi"
    unfolding l using x by (auto intro!: mult_right_mono)
  then have "fits_i64 (sint x * sint (push_bit n 1 :: i64))"
    using sint_i64_bounds [of lo] sint_i64_bounds [of hi] unfolding fits_i64_def p by linarith
  then have "sint (push_bit n x) = sint x * 2 ^ n"
    using sint_mul [of x "push_bit n 1"] p by (simp add: push_bit_eq_mult)
  then show ?thesis
    using b by simp
qed

lemma range_add_sound:
  assumes "range_full ra" "in_range ra x" "range_full rb" "in_range rb y"
    "ny_nir_i64_add_checked (rg_min ra) (rg_min rb) = Some lo"
    "ny_nir_i64_add_checked (rg_max ra) (rg_max rb) = Some hi"
  shows "in_range (full_range lo hi) (x + y)"
proof -
  have x: "sint (rg_min ra) \<le> sint x" "sint x \<le> sint (rg_max ra)" "sint (rg_min rb) \<le> sint y" "sint y \<le> sint (rg_max rb)"
    using assms(1-4) range_full_in by auto
  have l: "sint lo = sint (rg_min ra) + sint (rg_min rb)" "sint hi = sint (rg_max ra) + sint (rg_max rb)"
    using assms(5,6) by (auto simp: add_checked_iff sint_add split: if_splits)
  then have "fits_i64 (sint x + sint y)"
    using x sint_i64_bounds [of lo] sint_i64_bounds [of hi] unfolding fits_i64_def by linarith
  then show ?thesis
    using x l by (simp add: sint_add)
qed

lemma range_sub_sound:
  assumes "range_full ra" "in_range ra x" "range_full rb" "in_range rb y"
    "ny_nir_i64_sub_checked (rg_min ra) (rg_max rb) = Some lo"
    "ny_nir_i64_sub_checked (rg_max ra) (rg_min rb) = Some hi"
  shows "in_range (full_range lo hi) (x - y)"
proof -
  have x: "sint (rg_min ra) \<le> sint x" "sint x \<le> sint (rg_max ra)" "sint (rg_min rb) \<le> sint y" "sint y \<le> sint (rg_max rb)"
    using assms(1-4) range_full_in by auto
  have l: "sint lo = sint (rg_min ra) - sint (rg_max rb)" "sint hi = sint (rg_max ra) - sint (rg_min rb)"
    using assms(5,6) by (auto simp: sub_checked_iff sint_sub split: if_splits)
  then have "fits_i64 (sint x - sint y)"
    using x sint_i64_bounds [of lo] sint_i64_bounds [of hi] unfolding fits_i64_def by linarith
  then show ?thesis
    using x l by (simp add: sint_sub)
qed

lemma full_range_guard:
  "(case x of None \<Rightarrow> None | Some (lo, hi) \<Rightarrow> if sint lo > sint hi then None else Some (full_range lo hi)) = Some r \<Longrightarrow>
   \<exists>lo hi. x = Some (lo, hi) \<and> r = full_range lo hi"
  by (auto split: option.splits if_splits)

lemma unat_shift:
  fixes c :: i64
  assumes "0 \<le> sint c" "sint c < 63"
  shows "unat c < 63"
  using unat_of_nonneg [OF assms(1)] assms(2) by linarith

lemma pair_opt_Some: "pair_opt x y = Some (p, q) \<longleftrightarrow> x = Some p \<and> y = Some q"
  by (auto simp: pair_opt_def split: option.splits)

lemma range_bounds_sound:
  assumes "op \<notin> {NY_NIR_OR_I64, NY_NIR_XOR_I64, NY_NIR_MUL_I64, NY_NIR_DIV_I64}"
    and "fact_ok fa x" "fact_ok fb y" "range_full (vf_range fa)" "range_full (vf_range fb)"
    and b: "range_bounds op fa fb = Some (lo, hi)" and z: "ny_nir_analyze_binary_fold op x y = Some z"
  shows "in_range (full_range lo hi) z"
proof -
  have x: "in_range (vf_range fa) x" and y: "in_range (vf_range fb) y"
    and c: "vf_known_const fb \<Longrightarrow> y = vf_const_value fb"
    using assms(2,3) by (auto simp: fact_ok_def)
  note full = assms(4,5)
  show ?thesis
  proof (cases op)
    case NY_NIR_ADD_I64
    then show ?thesis
      using range_add_sound [OF full(1) x full(2) y] b z
      by (auto simp: range_bounds_def Let_def pair_opt_Some ny_nir_analyze_binary_fold_def simp del: in_full_range)
  next
    case NY_NIR_SUB_I64
    then show ?thesis
      using range_sub_sound [OF full(1) x full(2) y] b z
      by (auto simp: range_bounds_def Let_def pair_opt_Some ny_nir_analyze_binary_fold_def simp del: in_full_range)
  next
    case NY_NIR_MOD_I64
    then show ?thesis
      using range_mod_sound [OF _ full(1) x c] b z
      by (auto simp: ny_nir_analyze_binary_fold_def simp del: in_full_range split: if_splits)
  next
    case NY_NIR_AND_I64
    then have "lo = 0" "hi = rg_max (vf_range fa) OR rg_max (vf_range fb)" "z = x AND y"
        "0 \<le> sint (rg_min (vf_range fa))" "0 \<le> sint (rg_min (vf_range fb))"
      using b z by (auto simp: range_bounds_def ny_nir_analyze_binary_fold_def Let_def split: if_splits)
    then show ?thesis
      using range_and_sound [OF _ _ full x y] by (simp del: in_full_range)
  next
    case NY_NIR_SHL_I64
    then have k: "vf_known_const fb" "0 \<le> sint (vf_const_value fb)" "sint (vf_const_value fb) < 63"
        "0 \<le> sint (rg_min (vf_range fa))"
        "ny_nir_i64_mul_checked (rg_min (vf_range fa)) (push_bit (unat (vf_const_value fb)) 1) = Some lo"
        "ny_nir_i64_mul_checked (rg_max (vf_range fa)) (push_bit (unat (vf_const_value fb)) 1) = Some hi"
      using b by (auto simp: range_bounds_def pair_opt_Some Let_def split: if_splits)
    have "z = push_bit (unat y) x"
      using z NY_NIR_SHL_I64 by (auto simp: ny_nir_analyze_binary_fold_def split: if_splits)
    then show ?thesis
      using range_shl_sound [OF unat_shift [OF k(2,3)] full(1) x k(4,5,6)] c [OF k(1)]
      by (simp del: in_full_range)
  next
    case NY_NIR_SAR_I64
    then have k: "vf_known_const fb" "lo = signed_drop_bit (unat (vf_const_value fb)) (rg_min (vf_range fa))"
        "hi = signed_drop_bit (unat (vf_const_value fb)) (rg_max (vf_range fa))"
      using b by (auto simp: range_bounds_def Let_def split: if_splits)
    have "z = signed_drop_bit (unat y) x"
      using z NY_NIR_SAR_I64 by (auto simp: ny_nir_analyze_binary_fold_def split: if_splits)
    then show ?thesis
      using range_sar_sound [OF full(1) x] c [OF k(1)] k by (simp del: in_full_range)
  qed (use assms(1) b in \<open>auto simp: range_bounds_def Let_def\<close>)
qed

lemma fact_binary_range_in:
  assumes op: "op \<noteq> NY_NIR_OR_I64" "op \<noteq> NY_NIR_XOR_I64"
    and fa: "fact_ok fa x" and fb: "fact_ok fb y"
    and r: "ny_nir_fact_binary_range op fa fb = Some r" and z: "ny_nir_analyze_binary_fold op x y = Some z"
  shows "in_range r z"
proof -
  let ?ra = "vf_range fa" and ?rb = "vf_range fb"
  have xy: "in_range ?ra x" "in_range ?rb y"
    using fa fb by (simp_all add: fact_ok_def)
  consider (andb) "op = NY_NIR_AND_I64" "vf_known_const fb" "0 \<le> sint (vf_const_value fb)" "r = full_range 0 (vf_const_value fb)"
    | (anda) "op = NY_NIR_AND_I64" "vf_known_const fa" "0 \<le> sint (vf_const_value fa)" "r = full_range 0 (vf_const_value fa)"
    | (mul) "op = NY_NIR_MUL_I64" "range_full ?ra" "range_full ?rb" "corner_range ny_nir_i64_mul_checked ?ra ?rb = Some r"
    | (dv) "op = NY_NIR_DIV_I64" "range_full ?ra" "range_full ?rb" "corner_range ny_nir_i64_div_checked ?ra ?rb = Some r"
        "\<not> (sint (rg_min ?rb) \<le> 0 \<and> sint (rg_max ?rb) \<ge> 0)"
    | (bounds) lo hi where "op \<noteq> NY_NIR_MUL_I64" "op \<noteq> NY_NIR_DIV_I64" "range_full ?ra" "range_full ?rb"
        "range_bounds op fa fb = Some (lo, hi)" "r = full_range lo hi"
    using r unfolding ny_nir_fact_binary_range_def Let_def
    by (auto split: if_splits dest!: full_range_guard)
  then show ?thesis
  proof cases
    case andb
    then show ?thesis
      using range_and_const [of "vf_const_value fb" x] fb z
      by (auto simp: fact_ok_def ny_nir_analyze_binary_fold_def)
  next
    case anda
    then show ?thesis
      using range_and_const [of "vf_const_value fa" y] fa z
      by (auto simp: fact_ok_def ny_nir_analyze_binary_fold_def and.commute)
  next
    case mul
    then show ?thesis
      using range_mul_sound [OF mul(4,2,3) xy] z by (auto simp: ny_nir_analyze_binary_fold_def)
  next
    case dv
    then have "z = word_of_int (sint x sdiv sint y)" "\<not> (x = INT64_MIN \<and> y = -1)"
      using z by (auto simp: ny_nir_analyze_binary_fold_def split: if_splits)
    then show ?thesis
      using range_div_sound [OF dv(4,2,3) xy dv(5)] by simp
  next
    case bounds
    then show ?thesis
      using range_bounds_sound [OF _ fa fb bounds(3,4,5) z] op by auto
  qed
qed

section \<open>The portable checked product\<close>

lemma le_div_iff_mult: "0 < d \<Longrightarrow> n \<le> m div d \<longleftrightarrow> n * d \<le> (m :: int)"
proof
  assume d: "0 < d"
  show "n * d \<le> m" if "n \<le> m div d"
  proof -
    have "n * d \<le> m div d * d"
      using that d by (intro mult_right_mono) auto
    also have "\<dots> \<le> m"
      using d by (metis mult.commute mult_div_mod_eq pos_mod_sign le_add_same_cancel1)
    finally show ?thesis .
  qed
  show "n \<le> m div d" if "n * d \<le> m"
    using zdiv_mono1 [OF that d] d by simp
qed

lemma limit_sdiv_pos: "0 < B \<Longrightarrow> (2 ^ 63 - 1) sdiv B = (2 ^ 63 - 1) div (B :: int)"
  "0 < B \<Longrightarrow> - (2 ^ 63) sdiv B = - (2 ^ 63 div (B :: int))"
  by (simp_all add: signed_divide_int_def)

lemma limit_sdiv_neg: "A < 0 \<Longrightarrow> (2 ^ 63 - 1) sdiv A = - ((2 ^ 63 - 1) div (- A :: int))"
  by (simp add: signed_divide_int_def)

lemma mul_portable_cases:
  fixes A B :: int
  shows "0 < A \<Longrightarrow> 0 < B \<Longrightarrow> (2 ^ 63 - 1) sdiv B < A \<longleftrightarrow> \<not> fits_i64 (A * B)"
    and "0 < A \<Longrightarrow> B < 0 \<Longrightarrow> B < - (2 ^ 63) sdiv A \<longleftrightarrow> \<not> fits_i64 (A * B)"
    and "A < 0 \<Longrightarrow> 0 < B \<Longrightarrow> A < - (2 ^ 63) sdiv B \<longleftrightarrow> \<not> fits_i64 (A * B)"
    and "A < 0 \<Longrightarrow> B < 0 \<Longrightarrow> B < (2 ^ 63 - 1) sdiv A \<longleftrightarrow> \<not> fits_i64 (A * B)"
proof -
  show "(2 ^ 63 - 1) sdiv B < A \<longleftrightarrow> \<not> fits_i64 (A * B)" if "0 < A" "0 < B"
    using le_div_iff_mult [OF that(2), of A "2 ^ 63 - 1"] mult_pos_pos [OF that]
    unfolding limit_sdiv_pos(1) [OF that(2)] fits_i64_def by linarith
  show "B < - (2 ^ 63) sdiv A \<longleftrightarrow> \<not> fits_i64 (A * B)" if "0 < A" "B < 0"
    using le_div_iff_mult [OF that(1), of "- B" "2 ^ 63"] mult_pos_neg [OF that]
    unfolding limit_sdiv_pos(2) [OF that(1)] fits_i64_def by (simp add: mult.commute) linarith
  show "A < - (2 ^ 63) sdiv B \<longleftrightarrow> \<not> fits_i64 (A * B)" if "A < 0" "0 < B"
    using le_div_iff_mult [OF that(2), of "- A" "2 ^ 63"] mult_neg_pos [OF that]
    unfolding limit_sdiv_pos(2) [OF that(2)] fits_i64_def by simp linarith
  show "B < (2 ^ 63 - 1) sdiv A \<longleftrightarrow> \<not> fits_i64 (A * B)" if "A < 0" "B < 0"
    using le_div_iff_mult [of "- A" "- B" "2 ^ 63 - 1"] mult_neg_neg [OF that] that(1)
    unfolding limit_sdiv_neg [OF that(1)] fits_i64_def by (simp add: mult.commute) linarith
qed

lemma neg_product_fits:
  "fits_i64 (- sint (b :: i64)) \<longleftrightarrow> b \<noteq> INT64_MIN"
  using sint_i64_bounds [of b] by (auto simp: fits_i64_def sint_eq_iff)

lemma mul_portable_one:
  "mul_checked_portable 0 b = ny_nir_i64_mul_checked 0 b"
  "mul_checked_portable a 0 = ny_nir_i64_mul_checked a 0"
  by (simp_all add: mul_checked_portable_def ny_nir_i64_mul_checked_def fits_i64_def)

lemma mul_minus_one:
  "ny_nir_i64_mul_checked (-1) b = (if b = INT64_MIN then None else Some (- b))"
  "ny_nir_i64_mul_checked a (-1) = (if a = INT64_MIN then None else Some (- a))"
  unfolding ny_nir_i64_mul_checked_def by (simp_all add: neg_product_fits)

lemma mul_portable_minus_one:
  "mul_checked_portable (-1) b = ny_nir_i64_mul_checked (-1) b"
  "mul_checked_portable a (-1) = ny_nir_i64_mul_checked a (-1)"
proof -
  have m: "(-1 :: i64) \<noteq> 0" "(-1 :: i64) \<noteq> INT64_MIN" "(0 :: i64) \<noteq> INT64_MIN"
    by (simp_all add: sint_eq_iff)
  show "mul_checked_portable (-1) b = ny_nir_i64_mul_checked (-1) b"
    using m unfolding mul_minus_one mul_checked_portable_def by (cases "b = 0") (simp_all only: if_True if_False simp_thms neg_equal_0_iff_equal minus_zero)
  show "mul_checked_portable a (-1) = ny_nir_i64_mul_checked a (-1)"
    using m unfolding mul_minus_one mul_checked_portable_def
    by (cases "a = 0"; cases "a = -1") (simp_all only: if_True if_False simp_thms neg_equal_0_iff_equal minus_zero)
qed

lemma mul_portable_eq: "mul_checked_portable a b = ny_nir_i64_mul_checked a b"
proof (cases "a = 0 \<or> b = 0 \<or> a = -1 \<or> b = -1")
  case True
  then show ?thesis
    using mul_portable_one mul_portable_minus_one by blast
next
  case False
  then have nz: "sint a \<noteq> 0" "sint b \<noteq> 0"
    by (simp_all add: sint_eq_iff)
  let ?fits = "fits_i64 (sint a * sint b)"
  have c: "0 < sint a \<Longrightarrow> 0 < sint b \<Longrightarrow> c_div INT64_MAX b < sint a \<longleftrightarrow> \<not> ?fits"
      "0 < sint a \<Longrightarrow> sint b < 0 \<Longrightarrow> sint b < c_div INT64_MIN a \<longleftrightarrow> \<not> ?fits"
      "sint a < 0 \<Longrightarrow> 0 < sint b \<Longrightarrow> sint a < c_div INT64_MIN b \<longleftrightarrow> \<not> ?fits"
      "sint a < 0 \<Longrightarrow> sint b < 0 \<Longrightarrow> sint b < c_div INT64_MAX a \<longleftrightarrow> \<not> ?fits"
    unfolding c_div_def sint_limits by (fact mul_portable_cases)+
  consider "0 < sint a" "0 < sint b" | "0 < sint a" "sint b < 0" | "sint a < 0" "0 < sint b"
    | "sint a < 0" "sint b < 0"
    using nz by linarith
  then show ?thesis
    by cases (use False c in \<open>simp_all add: mul_checked_portable_def ny_nir_i64_mul_checked_def\<close>)
qed

section \<open>Properties\<close>

text \<open>
  C4: the range of a binary operation is sound. If the facts about two operands hold of their
  values and the operation succeeds, its result lies in the range computed from the facts, for
  every operator but \<open>or\<close> and \<open>xor\<close>.
\<close>

theorem fact_binary_range_sound:
  assumes "op \<noteq> NY_NIR_OR_I64" "op \<noteq> NY_NIR_XOR_I64" "fact_ok fa x" "fact_ok fb y"
    and "ny_nir_fact_binary_range op fa fb = Some r" "ny_nir_analyze_binary_fold op x y = Some z"
  shows "in_range r z"
  using assms by (rule fact_binary_range_in)

definition fact_of_range :: "i64 \<Rightarrow> i64 \<Rightarrow> ny_nir_value_fact" where
  "fact_of_range lo hi = zero_fact\<lparr>vf_range := full_range lo hi\<rparr>"

theorem fact_binary_range_sound_witness:
  "ny_nir_fact_binary_range NY_NIR_MUL_I64 (fact_of_range (-3) 5) (fact_of_range (-2) 7) =
     Some (full_range (-21) 35) \<and>
   in_range (full_range (-21) 35) (-3 * 6)"
proof -
  have r: "ny_nir_fact_binary_range NY_NIR_MUL_I64 (fact_of_range (-3) 5) (fact_of_range (-2) 7) =
     Some (full_range (-21) 35)"
    by code_simp
  moreover have "in_range (full_range (-21) 35) (-3 * 6)"
    by (rule fact_binary_range_sound [OF _ _ _ _ r, of "-3" 6])
       (simp_all add: fact_ok_def fact_of_range_def zero_fact_def ny_nir_analyze_binary_fold_def)
  ultimately show ?thesis ..
qed

text \<open>
  The range computed for \<open>or\<close> is not sound. Operands in \<open>[0, 4]\<close> get the range \<open>[0, 4]\<close> for
  their disjunction, but \<open>3 or 4\<close> is 7: the bitwise disjunction of the maxima is not a bound.
\<close>

theorem or_range_unsound:
  "\<exists>fa fb x y r z. fact_ok fa x \<and> fact_ok fb y \<and>
     ny_nir_fact_binary_range NY_NIR_OR_I64 fa fb = Some r \<and>
     ny_nir_analyze_binary_fold NY_NIR_OR_I64 x y = Some z \<and> \<not> in_range r z"
proof (intro exI conjI)
  show "fact_ok (fact_of_range 0 4) 3" "fact_ok (fact_of_range 0 4) 4"
    by (simp_all add: fact_ok_def fact_of_range_def zero_fact_def)
  show "ny_nir_fact_binary_range NY_NIR_OR_I64 (fact_of_range 0 4) (fact_of_range 0 4) = Some (full_range 0 4)"
    by code_simp
  show "ny_nir_analyze_binary_fold NY_NIR_OR_I64 3 4 = Some 7"
    by code_simp
  show "\<not> in_range (full_range 0 4) 7"
    by simp
qed

text \<open>
  C5: the checked product without the compiler builtin, a case split over the signs with a
  division, computes the same as the builtin: it fails exactly when the product overflows.
\<close>

theorem mul_checked_portable_exact: "mul_checked_portable a b = ny_nir_i64_mul_checked a b"
  by (rule mul_portable_eq)

text \<open>
  The checked sum and difference return the wrapped result exactly when the mathematical one
  is an \<open>int64_t\<close>, and the wrapped result is then the mathematical one.
\<close>

theorem add_sub_checked_exact:
  "ny_nir_i64_add_checked a b = (if fits_i64 (sint a + sint b) then Some (a + b) else None) \<and>
   ny_nir_i64_sub_checked a b = (if fits_i64 (sint a - sint b) then Some (a - b) else None) \<and>
   (fits_i64 (sint a + sint b) = (sint (a + b) = sint a + sint b)) \<and>
   (fits_i64 (sint a - sint b) = (sint (a - b) = sint a - sint b))"
  unfolding add_checked_iff sub_checked_iff by (metis fits_sint sint_add sint_sub)

end
