(* ===== verification/Nyir_Peephole_Correct.thy ===== *)
theory Nyir_Peephole_Correct
  imports Nyir_Sim Nyir_Range_Sound Nyir_Samples Nyir_Fold_Correct
begin

text \<open>
  Correctness of the peephole pass. The constants and the value facts it uses are computed in the
  order of the instruction list; on a verified function they hold of every value a run computes,
  provided the ranges recorded in the instructions hold and no \<open>or\<close> or \<open>xor\<close> contributes a range.
\<close>

lemma sem_at_copy:
  "i_op i = NY_NIR_COPY \<Longrightarrow> sem_at env lbl i c = Some r \<Longrightarrow>
   \<exists>x. tab_get (c_vals c) (i_a i) = Some x \<and> finish i c (Flow (Some x) (c_mem c) None) = Some r"
  by (auto simp: sem_at_def inst_reads_def inst_sem_def is_const_op_def is_unary_op_def
      pure_value_def convert_value_def split: option.splits)

section \<open>Constants collected over the whole function\<close>

text \<open>The table when the collection reaches instruction \<open>k\<close>.\<close>

definition consts_at :: "ny_nir_func \<Rightarrow> nat \<Rightarrow> const_tab" where
  "consts_at f k = foldl note_const (empty_tab f) (take k (fn_data f))"

lemma consts_at_Suc: "k < fn_len f \<Longrightarrow> consts_at f (Suc k) = note_const (consts_at f k) (fn_data f ! k)"
  by (simp add: consts_at_def foldl_take_Suc)

lemma collect_consts_at: "nir_collect_consts f = consts_at f (fn_len f)"
  by (simp add: nir_collect_consts_def consts_at_def)

lemma length_consts_at [simp]: "length (consts_at f k) = nat (fn_next_value f)"
proof -
  have "length (foldl note_const t is) = length t" for t "is"
    by (induction "is" arbitrary: t) (simp_all add: note_const_def)
  then show ?thesis
    by (simp add: consts_at_def)
qed

lemma note_const_frame: "v \<noteq> i_dst i \<Longrightarrow> tab_get (note_const cs i) v = tab_get cs v"
  by (simp add: note_const_def tab_get_tab_set)

lemma consts_defined:
  "k \<le> fn_len f \<Longrightarrow> tab_get (consts_at f k) v = Some c \<Longrightarrow> defined_before f k v"
proof (induction k)
  case 0
  then show ?case by (simp add: consts_at_def)
next
  case (Suc k)
  show ?case
  proof (cases "v = i_dst (fn_data f ! k)")
    case True
    then show ?thesis
      using Suc.prems tab_get_SomeD [OF Suc.prems(2)] Suc_le_lessD unfolding defined_before_def by blast
  next
    case False
    then show ?thesis
      using Suc by (auto simp: consts_at_Suc note_const_frame intro: defined_before_mono [of f k])
  qed
qed

text \<open>An entry is not touched after the instruction that defines the value.\<close>

lemma consts_stable:
  assumes "verified f" "j < fn_len f" "i_dst (fn_data f ! j) = v" "0 \<le> v" "Suc j \<le> k" "k \<le> fn_len f"
  shows "tab_get (consts_at f k) v = tab_get (consts_at f (Suc j)) v"
  by (rule ssa_stable [where T = "\<lambda>k. tab_get (consts_at f k) v", OF assms(1-4) _ assms(5,6)])
     (simp add: consts_at_Suc note_const_frame)

lemma consts_final:
  assumes "verified f" "k \<le> fn_len f" "tab_get (consts_at f k) v = Some c"
  shows "tab_get (nir_collect_consts f) v = Some c"
proof -
  obtain j where j: "j < k" "j < fn_len f" "i_dst (fn_data f ! j) = v" "0 \<le> v"
    using consts_defined [OF assms(2,3)] by (auto simp: defined_before_def)
  show ?thesis
    using consts_stable [OF assms(1) j(2-4), of k] consts_stable [OF assms(1) j(2-4), of "fn_len f"] j assms
    by (simp add: collect_consts_at)
qed

lemma collect_consts_step:
  assumes f: "verified f" and k: "c_pc c < fn_len f" and inv: "known_ok (nir_collect_consts f) (c_vals c)"
    and step: "core_step env f c = Some (Cont c')"
  shows "known_ok (nir_collect_consts f) (c_vals c')"
proof -
  let ?i = "fn_data f ! c_pc c" and ?k = "c_pc c"
  have sem: "sem_at env (label_pc f) ?i c = Some (Cont c')"
    using step by (simp add: core_step_def)
  have "x = y" if x: "tab_get (c_vals c') v = Some x" and y: "tab_get (nir_collect_consts f) v = Some y" for v x y
  proof (cases "v = i_dst ?i")
    case True
    have v: "0 \<le> v"
      using x by (auto dest: tab_get_SomeD)
    then have "tab_get (consts_at f (Suc ?k)) v = Some y"
      using consts_stable [OF f k True [symmetric] v, of "fn_len f"] y k by (simp add: collect_consts_at)
    then have "tab_get (note_const (consts_at f ?k) ?i) (i_dst ?i) = Some y"
      using k True by (simp add: consts_at_Suc)
    then have n: "(if i_op ?i = NY_NIR_CONST_I64 then Some (i_imm ?i)
        else if i_op ?i = NY_NIR_COPY then tab_get (consts_at f ?k) (i_a ?i) else None) = Some y"
      using v True by (auto simp: note_const_def tab_get_tab_set dest: tab_get_SomeD split: if_splits)
    consider (const) "i_op ?i = NY_NIR_CONST_I64" "y = i_imm ?i"
      | (copy) "i_op ?i = NY_NIR_COPY" "tab_get (consts_at f ?k) (i_a ?i) = Some y"
      using n by (auto split: if_splits)
    then have "finish ?i c (Flow (Some y) (c_mem c) None) = Some (Cont c')"
    proof cases
      case const
      then show ?thesis
        using sem v True by (simp add: sem_at_def inst_reads_def inst_sem_def is_const_op_def pure_value_def)
    next
      case copy
      have "tab_get (nir_collect_consts f) (i_a ?i) = Some y"
        using consts_final [OF f _ copy(2)] k by simp
      then show ?thesis
        using sem_at_copy [OF copy(1) sem] known_okD [OF inv] by blast
    qed
    then show ?thesis
      using finish_value [of ?i c y] v True x by auto
  next
    case False
    then show ?thesis
      using sem_at_vals [OF sem False] inv x y by (auto simp: known_ok_def)
  qed
  then show ?thesis
    by (auto simp: known_ok_def)
qed

section \<open>Value facts\<close>

definition fcore :: "ny_nir_value_fact \<Rightarrow> bool \<times> i64 \<times> ny_nir_range" where
  "fcore d = (vf_known_const d, vf_const_value d, vf_range d)"

lemma fact_ok_core: "fcore d = fcore e \<Longrightarrow> fact_ok d x = fact_ok e x"
  by (simp add: fcore_def fact_ok_def)

definition facts_at :: "ny_nir_func \<Rightarrow> nat \<Rightarrow> ny_nir_value_fact list" where
  "facts_at f k = foldl (\<lambda>fs i. analyze_inst i fs) (replicate (nat (fn_next_value f)) zero_fact) (take k (fn_data f))"

lemma facts_at_Suc: "k < fn_len f \<Longrightarrow> facts_at f (Suc k) = analyze_inst (fn_data f ! k) (facts_at f k)"
  by (simp add: facts_at_def foldl_take_Suc)

lemma analyze_loop_facts:
  "analyze_loop facts k is = Inr out \<Longrightarrow> out = foldl (\<lambda>fs i. analyze_inst i fs) facts is"
  by (induction facts k "is" rule: analyze_loop.induct) (auto split: if_splits)

lemma analyze_values_facts:
  "ny_nir_analyze_values f (nat (fn_next_value f)) = Inr facts \<Longrightarrow> facts = facts_at f (fn_len f)"
  by (auto simp: ny_nir_analyze_values_def facts_at_def dest: analyze_loop_facts split: if_splits)

lemma map_fcore_count_use: "map fcore (count_use v facts) = map fcore facts"
  by (simp add: count_use_def map_update fcore_def list_update_same_conv nth_list_update)

lemma map_fcore_count_uses [simp]: "map fcore (count_uses i facts) = map fcore facts"
proof -
  have "map fcore (fold count_use vs facts) = map fcore facts" for vs
    by (induction vs arbitrary: facts) (simp_all add: map_fcore_count_use)
  then show ?thesis
    unfolding count_uses_def by blast
qed

lemma length_count_uses [simp]: "length (count_uses i facts) = length facts"
  by (metis length_map map_fcore_count_uses)

lemma length_analyze_inst [simp]: "length (analyze_inst i facts) = length facts"
  by (simp add: analyze_inst_def Let_def split: option.splits)

lemma length_facts_at [simp]: "length (facts_at f k) = nat (fn_next_value f)"
proof -
  have "length (foldl (\<lambda>fs i. analyze_inst i fs) t is) = length t" for t "is"
    by (induction "is" arbitrary: t) simp_all
  then show ?thesis
    by (simp add: facts_at_def)
qed

lemma fcore_count_uses: "n < length facts \<Longrightarrow> fcore (count_uses i facts ! n) = fcore (facts ! n)"
  by (metis length_count_uses map_fcore_count_uses nth_map)

lemma analyze_inst_frame:
  "n < length facts \<Longrightarrow> int n \<noteq> i_dst i \<Longrightarrow> fcore (analyze_inst i facts ! n) = fcore (facts ! n)"
  by (auto simp: analyze_inst_def Let_def fcore_count_uses fact_at_def nth_list_update split: option.splits)


lemma facts_frame:
  "k < fn_len f \<Longrightarrow> i_dst (fn_data f ! k) \<noteq> v \<Longrightarrow> 0 \<le> v \<Longrightarrow> v < fn_next_value f \<Longrightarrow>
   fcore (facts_at f (Suc k) ! nat v) = fcore (facts_at f k ! nat v)"
  by (simp add: facts_at_Suc analyze_inst_frame)

lemma facts_stable:
  assumes "verified f" "j < fn_len f" "i_dst (fn_data f ! j) = v" "0 \<le> v" "Suc j \<le> k" "k \<le> fn_len f"
  shows "fcore (facts_at f k ! nat v) = fcore (facts_at f (Suc j) ! nat v)"
  by (rule ssa_stable [where T = "\<lambda>k. fcore (facts_at f k ! nat v)", OF assms(1-4) _ assms(5,6)])
     (use facts_frame assms verified_dst_less [OF assms(1,2)] in auto)

lemma facts_before:
  assumes "0 \<le> v" "v < fn_next_value f" "k \<le> fn_len f" "\<not> defined_before f k v"
  shows "fcore (facts_at f k ! nat v) = fcore zero_fact"
  using ssa_before [where T = "\<lambda>k. fcore (facts_at f k ! nat v)", OF _ assms(1,3,4)] facts_frame assms
  by (auto simp: facts_at_def)

lemma facts_final:
  assumes "verified f" "k \<le> fn_len f" "defined_before f k v"
  shows "fcore (facts_at f (fn_len f) ! nat v) = fcore (facts_at f k ! nat v)"
proof -
  obtain j where j: "j < k" "j < fn_len f" "i_dst (fn_data f ! j) = v" "0 \<le> v"
    using assms(3) by (auto simp: defined_before_def)
  show ?thesis
    using facts_stable [OF assms(1) j(2-4), of k] facts_stable [OF assms(1) j(2-4), of "fn_len f"] j assms
    by simp
qed

text \<open>
  The ranges recorded in the instructions are those that \<open>ny_nir_emit\<close> and
  \<open>ny_nir_refresh_metadata\<close> record, and no range comes from \<open>or\<close> or \<open>xor\<close>.
\<close>

definition range_default :: "ny_nir_inst \<Rightarrow> bool" where
  "range_default i \<longleftrightarrow>
     i_op i = NY_NIR_CONST_I64 \<or> (\<not> has_min (i_range i) \<and> \<not> has_max (i_range i)) \<or>
     is_cmp_op (i_op i) \<and> i_range i = full_range 0 1"

definition facts_sound_for :: "ny_nir_func \<Rightarrow> bool" where
  "facts_sound_for f \<longleftrightarrow>
     list_all (\<lambda>i. range_default i \<and> i_op i \<noteq> NY_NIR_OR_I64 \<and> i_op i \<noteq> NY_NIR_XOR_I64) (fn_data f)"

text \<open>The fact of the destination before the switch over the opcode.\<close>

lemma base_fact_ok:
  assumes "fcore d = fcore zero_fact" "range_default i" "i_op i \<noteq> NY_NIR_CONST_I64"
    "is_cmp_op (i_op i) \<Longrightarrow> z = 0 \<or> z = 1"
  shows "fact_ok (dst_base_fact i d) z"
  using assms
  by (auto simp: fact_ok_def dst_base_fact_def Let_def fcore_def zero_fact_def range_default_def
      in_range_def full_range_def zero_range_def)

lemma set_const_ok [simp]: "fact_ok (ny_nir_fact_set_const d v) z \<longleftrightarrow> z = v"
  by (auto simp: fact_ok_def ny_nir_fact_set_const_def sint_eq_iff)

lemma cmp_value_bit: "compare_values fp op cmp a b = Some z \<Longrightarrow> z = 0 \<or> z = 1"
  by (cases cmp) (auto simp: compare_values_def bit_of_def split: if_splits)

lemma no_range_other:
  "\<not> is_int_binary op \<Longrightarrow> ny_nir_fact_binary_range op fa fb = None"
  "\<not> is_int_binary op \<Longrightarrow> ny_nir_analyze_binary_fold op a b = None"
  by (cases op; simp add: ny_nir_fact_binary_range_def range_bounds_def ny_nir_analyze_binary_fold_def
      is_int_binary_def Let_def)+

lemma dst_fact_other:
  "i_op i \<noteq> NY_NIR_CONST_I64 \<Longrightarrow> i_op i \<noteq> NY_NIR_COPY \<Longrightarrow> i_op i \<noteq> NY_NIR_CMP_I64 \<Longrightarrow>
   \<not> is_int_binary (i_op i) \<Longrightarrow> dst_fact i facts d = d"
  by (simp add: dst_fact_def dst_binary_fact_def no_range_other Let_def split: option.splits)

lemma dst_fact_binary_ok:
  assumes op: "is_int_binary (i_op i)" "i_op i \<noteq> NY_NIR_OR_I64" "i_op i \<noteq> NY_NIR_XOR_I64"
    and fa: "fact_at facts (i_a i) = Some fa" "fact_ok fa x" and fb: "fact_at facts (i_b i) = Some fb" "fact_ok fb y"
    and z: "ny_nir_analyze_binary_fold (i_op i) x y = Some z" and d: "fact_ok d z"
  shows "fact_ok (dst_fact i facts d) z"
proof -
  have "dst_fact i facts d = dst_binary_fact i (Some fa) (Some fb) d"
    using op(1) fa(1) fb(1) by (auto simp: dst_fact_def Let_def is_int_binary_def)
  moreover have "x = vf_const_value fa \<and> y = vf_const_value fb" if "vf_known_const fa" "vf_known_const fb"
    using that fa(2) fb(2) by (simp add: fact_ok_def)
  moreover have "in_range r z" if "ny_nir_fact_binary_range (i_op i) fa fb = Some r" for r
    using fact_binary_range_in [OF op(2,3) fa(2) fb(2) that z] .
  ultimately show ?thesis
    using z d by (auto simp: dst_binary_fact_def both_const_def fact_ok_def ny_nir_fact_set_const_def split: option.splits)
qed

lemma dst_fact_cmp_ok:
  assumes op: "i_op i = NY_NIR_CMP_I64"
    and fa: "fact_at facts (i_a i) = Some fa" "fact_ok fa x" and fb: "fact_at facts (i_b i) = Some fb" "fact_ok fb y"
    and z: "ny_nir_analyze_cmp_fold (i_cmp i) x y = Some z" "z = 0 \<or> z = 1" and d: "fact_ok d z"
  shows "fact_ok (dst_fact i facts d) z"
proof -
  have "dst_fact i facts d = dst_cmp_fact i (Some fa) (Some fb) d"
    using op fa(1) fb(1) by (simp add: dst_fact_def Let_def)
  moreover have "x = vf_const_value fa \<and> y = vf_const_value fb" if "vf_known_const fa" "vf_known_const fb"
    using that fa(2) fb(2) by (simp add: fact_ok_def)
  ultimately show ?thesis
    using z d by (auto simp: dst_cmp_fact_def both_const_def Let_def fact_ok_def ny_nir_fact_set_const_def split: option.splits)
qed

lemma dst_fact_copy_ok:
  "i_op i = NY_NIR_COPY \<Longrightarrow> fact_at facts (i_a i) = Some fa \<Longrightarrow> fact_ok fa z \<Longrightarrow> fact_ok (dst_fact i facts d) z"
  by (simp add: dst_fact_def fact_ok_def Let_def)

text \<open>The value that an instruction writes to its destination satisfies the fact about it.\<close>

lemma written_value:
  assumes "sem_at env lbl i c = Some (Cont c')" "0 \<le> i_dst i" "tab_get (c_vals c') (i_dst i) = Some z"
  obtains "i_op i = NY_NIR_CONST_I64" "z = i_imm i"
  | "i_op i = NY_NIR_COPY" "tab_get (c_vals c) (i_a i) = Some z"
  | x y where "is_binary_op (i_op i)" "tab_get (c_vals c) (i_a i) = Some x" "tab_get (c_vals c) (i_b i) = Some y"
      "binary_value env i x y = Some z"
  | "i_op i \<noteq> NY_NIR_CONST_I64" "i_op i \<noteq> NY_NIR_COPY" "\<not> is_binary_op (i_op i)"
proof -
  consider (const) "i_op i = NY_NIR_CONST_I64" | (copy) "i_op i = NY_NIR_COPY" | (bin) "is_binary_op (i_op i)"
    | (other) "i_op i \<noteq> NY_NIR_CONST_I64" "i_op i \<noteq> NY_NIR_COPY" "\<not> is_binary_op (i_op i)"
    by blast
  then show ?thesis
  proof cases
    case const
    then have "finish i c (Flow (Some (i_imm i)) (c_mem c) None) = Some (Cont c')"
      using assms(1,2) by (simp add: sem_at_def inst_reads_def inst_sem_def is_const_op_def pure_value_def)
    then show ?thesis
      using that(1) [OF const] finish_value assms(2,3) by fastforce
  next
    case copy
    then show ?thesis
      using that(2) [OF copy] sem_at_copy [OF copy assms(1)] finish_value assms(2,3) by fastforce
  next
    case bin
    obtain a b v where "tab_get (c_vals c) (i_a i) = Some a" "tab_get (c_vals c) (i_b i) = Some b"
        "binary_value env i a b = Some v" "finish i c (Flow (Some v) (c_mem c) None) = Some (Cont c')"
      by (rule sem_at_binaryD [OF bin assms(1)])
    then show ?thesis
      using that(3) [OF bin] finish_value assms(2,3) by fastforce
  next
    case other
    then show ?thesis
      by (rule that(4))
  qed
qed

definition facts_inv :: "ny_nir_func \<Rightarrow> core \<Rightarrow> bool" where
  "facts_inv f c \<longleftrightarrow>
     length (c_vals c) = nat (fn_next_value f) \<and>
     (\<forall>v x. tab_get (c_vals c) v = Some x \<longrightarrow> fact_ok (facts_at f (fn_len f) ! nat v) x)"

lemma fact_set_const_core: "fcore (ny_nir_fact_set_const d v) = fcore (ny_nir_fact_set_const e v)"
  by (simp add: fcore_def ny_nir_fact_set_const_def)

text \<open>The facts about the values that an instruction reads, at that instruction.\<close>

lemma operand_fact:
  assumes f: "verified f" "arrays_ok f" and k: "k < fn_len f" and inv: "facts_inv f c"
    and u: "u \<in> set (inst_reads (fn_data f ! k))" and x: "tab_get (c_vals c) u = Some x"
    and v: "v = i_dst (fn_data f ! k)" "0 \<le> v"
  shows "\<exists>fa. fact_at ((count_uses (fn_data f ! k) (facts_at f k))[nat v := d]) u = Some fa \<and> fact_ok fa x"
proof -
  let ?G = "count_uses (fn_data f ! k) (facts_at f k)"
  have d: "nir_value_valid f u" "defined_before f k u"
    using verified_reads [OF f(1) k arrays_okD [OF f(2) k] u] by auto
  have "u \<noteq> v"
    using verified_reads_not_later [OF f order_refl k u] v(1) by simp
  then have ne: "nat v \<noteq> nat u" "0 \<le> u" "nat u < length ?G"
    using d(1) v(2) by (auto simp: nir_value_valid_def)
  then have "fact_at (?G[nat v := d]) u = Some (?G ! nat u)"
    by (simp add: fact_at_def)
  moreover have "fcore (?G ! nat u) = fcore (facts_at f (fn_len f) ! nat u)"
    using facts_final [OF f(1) _ d(2)] k ne by (simp add: fcore_count_uses)
  ultimately show ?thesis
    using inv x fact_ok_core [of "?G ! nat u"] by (auto simp: facts_inv_def)
qed

lemma binary_dst_fact_ok:
  assumes op: "is_binary_op (i_op i)" "i_op i \<noteq> NY_NIR_OR_I64" "i_op i \<noteq> NY_NIR_XOR_I64"
    and fa: "fact_at facts (i_a i) = Some fa" "fact_ok fa x" and fb: "fact_at facts (i_b i) = Some fb" "fact_ok fb y"
    and z: "binary_value env i x y = Some z" and d: "fact_ok d z"
  shows "fact_ok (dst_fact i facts d) z"
proof -
  consider (int) "is_int_binary (i_op i)" | (cmp) "i_op i = NY_NIR_CMP_I64"
    | (other) "\<not> is_int_binary (i_op i)" "i_op i \<noteq> NY_NIR_CMP_I64" "i_op i \<noteq> NY_NIR_COPY" "i_op i \<noteq> NY_NIR_CONST_I64"
    using op(1) by (auto simp: is_binary_op_def op_classes)
  then show ?thesis
  proof cases
    case int
    then show ?thesis
      using dst_fact_binary_ok [OF int op(2,3) fa fb _ d] z by (simp add: binary_value_def)
  next
    case cmp
    then have "ny_nir_analyze_cmp_fold (i_cmp i) x y = Some z"
      using z by (simp add: binary_value_def is_int_binary_def is_cmp_op_def compare_values_def)
    moreover from this have "z = 0 \<or> z = 1"
      by (cases "i_cmp i") (auto simp: bit_of_def split: if_splits)
    ultimately show ?thesis
      using dst_fact_cmp_ok [OF cmp fa fb _ _ d] by blast
  next
    case other
    then show ?thesis
      using dst_fact_other [of i facts d] d by simp
  qed
qed

lemma binary_value_bit: "binary_value env i x y = Some z \<Longrightarrow> is_cmp_op (i_op i) \<Longrightarrow> z = 0 \<or> z = 1"
  using cmp_value_bit by (auto simp: binary_value_def is_int_binary_def is_cmp_op_def split: if_splits)

lemma facts_step:
  assumes f: "verified f" "arrays_ok f" "facts_sound_for f" and k: "c_pc c < fn_len f" and inv: "facts_inv f c"
    and sem: "sem_at env (label_pc f) (fn_data f ! c_pc c) c = Some (Cont c')"
    and v: "v = i_dst (fn_data f ! c_pc c)" "0 \<le> v" and z: "tab_get (c_vals c') v = Some z"
  shows "fact_ok (facts_at f (Suc (c_pc c)) ! nat v) z"
proof -
  let ?i = "fn_data f ! c_pc c" and ?k = "c_pc c"
  define G where "G = count_uses ?i (facts_at f ?k)"
  define d where "d = dst_base_fact ?i (G ! nat v)"
  have lt: "v < fn_next_value f" "nat v < length (facts_at f ?k)"
    using verified_dst_less [OF f(1) k] v by auto
  have res: "facts_at f (Suc ?k) ! nat v = dst_fact ?i (G[nat v := d]) d"
    using k lt v by (simp add: facts_at_Suc analyze_inst_def Let_def fact_at_def G_def d_def)
  have zero: "fcore (G ! nat v) = fcore zero_fact"
    using lt v verified_dst_fresh [OF f(1) k] facts_before [of v f ?k] k by (simp add: fcore_count_uses G_def)
  have def: "range_default ?i" "i_op ?i \<noteq> NY_NIR_OR_I64" "i_op ?i \<noteq> NY_NIR_XOR_I64"
    using f(3) k by (auto simp: facts_sound_for_def list_all_length)
  have base: "fact_ok d z" if "i_op ?i \<noteq> NY_NIR_CONST_I64" "is_cmp_op (i_op ?i) \<Longrightarrow> z = 0 \<or> z = 1"
    unfolding d_def by (rule base_fact_ok [OF zero def(1) that])
  have opnd: "\<exists>fa. fact_at (G[nat v := d]) u = Some fa \<and> fact_ok fa x"
    if "u \<in> set (inst_reads ?i)" "tab_get (c_vals c) u = Some x" for u x
    unfolding G_def by (rule operand_fact [OF f(1,2) k inv that v])
  show ?thesis
    unfolding res
  proof (rule written_value [OF sem])
    show "0 \<le> i_dst ?i" "tab_get (c_vals c') (i_dst ?i) = Some z"
      using v z by simp_all
  next
    assume "i_op ?i = NY_NIR_CONST_I64" "z = i_imm ?i"
    then show "fact_ok (dst_fact ?i (G[nat v := d]) d) z"
      by (simp add: dst_fact_def)
  next
    assume a: "i_op ?i = NY_NIR_COPY" "tab_get (c_vals c) (i_a ?i) = Some z"
    then have "i_a ?i \<in> set (inst_reads ?i)"
      by (simp add: inst_reads_def)
    then show "fact_ok (dst_fact ?i (G[nat v := d]) d) z"
      using opnd [OF _ a(2)] dst_fact_copy_ok [OF a(1)] by blast
  next
    fix x y
    assume a: "is_binary_op (i_op ?i)" "tab_get (c_vals c) (i_a ?i) = Some x" "tab_get (c_vals c) (i_b ?i) = Some y"
      "binary_value env ?i x y = Some z"
    have rd: "i_a ?i \<in> set (inst_reads ?i)" "i_b ?i \<in> set (inst_reads ?i)"
      using a(1) by (simp_all add: inst_reads_pure)
    obtain fa fb where fa: "fact_at (G[nat v := d]) (i_a ?i) = Some fa" "fact_ok fa x"
        and fb: "fact_at (G[nat v := d]) (i_b ?i) = Some fb" "fact_ok fb y"
      using opnd [OF rd(1) a(2)] opnd [OF rd(2) a(3)] by blast
    have "i_op ?i \<noteq> NY_NIR_CONST_I64"
      using a(1) by (auto simp: is_binary_op_def op_classes)
    then show "fact_ok (dst_fact ?i (G[nat v := d]) d) z"
      using binary_dst_fact_ok [OF a(1) def(2,3) fa fb a(4) base] binary_value_bit [OF a(4)] by blast
  next
    assume a: "i_op ?i \<noteq> NY_NIR_CONST_I64" "i_op ?i \<noteq> NY_NIR_COPY" "\<not> is_binary_op (i_op ?i)"
    then have "\<not> is_int_binary (i_op ?i)" "i_op ?i \<noteq> NY_NIR_CMP_I64" "\<not> is_cmp_op (i_op ?i)"
      by (auto simp: is_binary_op_def is_cmp_op_def)
    then show "fact_ok (dst_fact ?i (G[nat v := d]) d) z"
      using dst_fact_other [OF a(1,2)] base [OF a(1)] by simp
  qed
qed

section \<open>The simplifications\<close>

lemma make_const_sem:
  "0 \<le> i_dst i \<Longrightarrow> sem_at env lbl (nir_make_const i v) c = finish i c (Flow (Some v) (c_mem c) None)"
  by (simp add: sem_at_def nir_make_const_def zero_inst_def inst_reads_def inst_sem_def is_const_op_def
      pure_value_def finish_def write_dst_def)

lemma make_copy_sem:
  "tab_get (c_vals c) u = Some x \<Longrightarrow>
   sem_at env lbl (nir_make_copy i u) c = finish i c (Flow (Some x) (c_mem c) None)"
  by (simp add: sem_at_def nir_make_copy_def zero_inst_def inst_reads_def inst_sem_def is_const_op_def
      is_unary_op_def convert_value_def pure_value_def finish_def write_dst_def)

text \<open>The algebraic identities behind the simplifications, on successful operations.\<close>

lemma fold_identities:
  "ny_nir_analyze_binary_fold NY_NIR_DIV_I64 x 1 = Some z \<Longrightarrow> z = x"
  "ny_nir_analyze_binary_fold NY_NIR_DIV_I64 0 y = Some z \<Longrightarrow> z = 0"
  "ny_nir_analyze_binary_fold NY_NIR_MOD_I64 x 1 = Some z \<Longrightarrow> z = 0"
  "ny_nir_analyze_binary_fold NY_NIR_MOD_I64 x (-1) = Some z \<Longrightarrow> z = 0"
  "ny_nir_analyze_binary_fold NY_NIR_MOD_I64 0 y = Some z \<Longrightarrow> z = 0"
  "ny_nir_analyze_binary_fold NY_NIR_SHL_I64 x 0 = Some z \<Longrightarrow> z = x"
  "ny_nir_analyze_binary_fold NY_NIR_SHL_I64 0 y = Some z \<Longrightarrow> z = 0"
  "ny_nir_analyze_binary_fold NY_NIR_SAR_I64 x 0 = Some z \<Longrightarrow> z = x"
  "ny_nir_analyze_binary_fold NY_NIR_SAR_I64 0 y = Some z \<Longrightarrow> z = 0"
  by (auto simp: ny_nir_analyze_binary_fold_def signed_modulo_int_def split: if_splits)

lemma peephole_arith_sem:
  assumes op: "is_int_binary (i_op i)" and dst: "0 \<le> i_dst i"
    and x: "tab_get (c_vals c) (i_a i) = Some x" and y: "tab_get (c_vals c) (i_b i) = Some y"
    and av: "\<And>k. av = Some k \<Longrightarrow> x = k" and bv: "\<And>k. bv = Some k \<Longrightarrow> y = k"
    and z: "ny_nir_analyze_binary_fold (i_op i) x y = Some z"
    and r: "finish i c (Flow (Some z) (c_mem c) None) = Some r" and i: "sem_at env lbl i c = Some r"
  shows "sem_at env lbl (peephole_arith i av bv) c = Some r"
proof -
  have mc: "sem_at env lbl (nir_make_const i z) c = Some r"
    using make_const_sem [OF dst] r by simp
  have ma: "sem_at env lbl (nir_make_copy i (i_a i)) c = Some r" if "z = x"
    using make_copy_sem [OF x] r that by simp
  have mb: "sem_at env lbl (nir_make_copy i (i_b i)) c = Some r" if "z = y"
    using make_copy_sem [OF y] r that by simp
  have same: "x = y" if "i_a i = i_b i"
    using that x y by simp
  show ?thesis
    using op
  proof (cases "i_op i")
    case NY_NIR_ADD_I64
    then show ?thesis
      using z i ma mb av bv by (auto simp: peephole_arith_def ny_nir_analyze_binary_fold_def)
  next
    case NY_NIR_SUB_I64
    then show ?thesis
      using z i mc ma bv same by (auto simp: peephole_arith_def ny_nir_analyze_binary_fold_def)
  next
    case NY_NIR_MUL_I64
    then show ?thesis
      using z i mc ma mb av bv by (auto simp: peephole_arith_def ny_nir_analyze_binary_fold_def)
  next
    case NY_NIR_DIV_I64
    then show ?thesis
      using z i mc ma av bv fold_identities(1,2) by (fastforce simp: peephole_arith_def)
  next
    case NY_NIR_MOD_I64
    then show ?thesis
      using z i mc av bv fold_identities(3-5) by (fastforce simp: peephole_arith_def)
  next
    case NY_NIR_AND_I64
    then show ?thesis
      using z i mc ma mb av bv same by (auto simp: peephole_arith_def ny_nir_analyze_binary_fold_def)
  next
    case NY_NIR_OR_I64
    then show ?thesis
      using z i mc ma mb av bv same by (auto simp: peephole_arith_def ny_nir_analyze_binary_fold_def)
  next
    case NY_NIR_XOR_I64
    then show ?thesis
      using z i mc ma mb av bv same by (auto simp: peephole_arith_def ny_nir_analyze_binary_fold_def)
  next
    case NY_NIR_SHL_I64
    then show ?thesis
      using z i mc ma av bv fold_identities(6,7) by (fastforce simp: peephole_arith_def)
  next
    case NY_NIR_SAR_I64
    then show ?thesis
      using z i mc ma av bv fold_identities(8,9) by (fastforce simp: peephole_arith_def)
  qed (simp_all add: is_int_binary_def)
qed

lemma cmp_same_value_ok:
  "nir_cmp_same_value cmp = Some v \<Longrightarrow> ny_nir_analyze_cmp_fold cmp x x = Some v"
  by (cases cmp) (auto simp: bit_of_def)

lemma cmp_range_fold_ok:
  assumes "nir_cmp_range_fold cmp ra rb = Some v" "in_range ra x" "in_range rb y"
  shows "ny_nir_analyze_cmp_fold cmp x y = Some v"
proof -
  have b: "sint (rg_min ra) \<le> sint x" "sint x \<le> sint (rg_max ra)" "sint (rg_min rb) \<le> sint y" "sint y \<le> sint (rg_max rb)"
    using assms by (auto simp: nir_cmp_range_fold_def in_range_def split: if_splits)
  show ?thesis
    using assms(1) b
    by (cases cmp) (auto simp: nir_cmp_range_fold_def bit_of_def Let_def split: if_splits)
qed

section \<open>The whole pass\<close>

definition peep_inv :: "ny_nir_func \<Rightarrow> core \<Rightarrow> bool" where
  "peep_inv f c \<longleftrightarrow> known_ok (nir_collect_consts f) (c_vals c) \<and> facts_inv f c"

lemma facts_inv_step:
  assumes f: "verified f" "arrays_ok f" "facts_sound_for f" and k: "c_pc c < fn_len f" and inv: "facts_inv f c"
    and step: "core_step env f c = Some (Cont c')"
  shows "facts_inv f c'"
proof -
  let ?i = "fn_data f ! c_pc c"
  have sem: "sem_at env (label_pc f) ?i c = Some (Cont c')"
    using step by (simp add: core_step_def)
  have "fact_ok (facts_at f (fn_len f) ! nat v) x" if x: "tab_get (c_vals c') v = Some x" for v x
  proof (cases "v = i_dst ?i")
    case True
    have v: "0 \<le> v"
      using tab_get_SomeD [OF x] by simp
    have "fcore (facts_at f (fn_len f) ! nat v) = fcore (facts_at f (Suc (c_pc c)) ! nat v)"
      by (rule facts_stable [OF f(1) k True [symmetric] v Suc_leI [OF k] order_refl])
    then show ?thesis
      using facts_step [OF f k inv sem True v x] fact_ok_core by metis
  next
    case False
    have "tab_get (c_vals c) v = Some x"
      using sem_at_vals [OF sem False] x by metis
    then show ?thesis
      using inv unfolding facts_inv_def by blast
  qed
  moreover have "length (c_vals c') = nat (fn_next_value f)"
    using inv sem_at_length [OF sem] unfolding facts_inv_def by metis
  ultimately show ?thesis
    unfolding facts_inv_def by blast
qed

lemma peep_inv_init: "peep_inv f (core_init f ls h)"
  by (simp add: peep_inv_def known_ok_def facts_inv_def core_init_def)

lemma peep_inv_step:
  assumes "verified f" "arrays_ok f" "facts_sound_for f" "c_pc c < fn_len f" "peep_inv f c"
    "core_step env f c = Some (Cont c')"
  shows "peep_inv f c'"
  using assms collect_consts_step facts_inv_step by (auto simp: peep_inv_def)

lemma peephole_arith_other: "\<not> is_int_binary (i_op i) \<Longrightarrow> peephole_arith i av bv = i"
  by (cases "i_op i") (simp_all add: peephole_arith_def is_int_binary_def)

lemma facts_inv_range:
  "facts_inv f c \<Longrightarrow> tab_get (c_vals c) v = Some x \<Longrightarrow> in_range (fact_range (facts_at f (fn_len f)) v) x"
  using tab_get_SomeD [of "c_vals c" v x]
  by (auto simp: facts_inv_def fact_range_def fact_at_def fact_ok_def)

lemma peephole_inst_sem:
  assumes inv: "peep_inv f c" and r: "sem_at env lbl i c = Some r"
  shows "sem_at env lbl (peephole_inst (nir_collect_consts f) (facts_at f (fn_len f)) i) c = Some r"
proof (cases "is_binary_op (i_op i) \<and> \<not> (i_dst i < 0 \<or> i_a i < 0 \<or> i_b i < 0)")
  case True
  have kn: "known_ok (nir_collect_consts f) (c_vals c)" and fi: "facts_inv f c"
    using inv by (simp_all add: peep_inv_def)
  obtain x y z where x: "tab_get (c_vals c) (i_a i) = Some x" and y: "tab_get (c_vals c) (i_b i) = Some y"
      and z: "binary_value env i x y = Some z" and fin: "finish i c (Flow (Some z) (c_mem c) None) = Some r"
    using sem_at_binaryD [OF _ r] True by blast
  have dst: "0 \<le> i_dst i"
    using True by simp
  consider (cmp) "i_op i = NY_NIR_CMP_I64" | (int) "is_int_binary (i_op i)"
    | (other) "\<not> is_int_binary (i_op i)" "i_op i \<noteq> NY_NIR_CMP_I64"
    by blast
  then show ?thesis
  proof cases
    case cmp
    have fold: "ny_nir_analyze_cmp_fold (i_cmp i) x y = Some z"
      using z cmp by (simp add: binary_value_def is_int_binary_def is_cmp_op_def compare_values_def)
    have mc: "sem_at env lbl (nir_make_const i v) c = Some r" if "v = z" for v
      using make_const_sem [OF dst] fin that by simp
    have "v = z" if "i_a i = i_b i" "nir_cmp_same_value (i_cmp i) = Some v" for v
      using cmp_same_value_ok [OF that(2), of x] fold x y that(1) by simp
    moreover have "v = z" if "nir_cmp_range_fold (i_cmp i) (fact_range (facts_at f (fn_len f)) (i_a i))
        (fact_range (facts_at f (fn_len f)) (i_b i)) = Some v" for v
      using cmp_range_fold_ok [OF that facts_inv_range [OF fi x] facts_inv_range [OF fi y]] fold by simp
    ultimately have "sem_at env lbl (peephole_cmp i (facts_at f (fn_len f))) c = Some r"
      unfolding peephole_cmp_def by (auto simp: r intro!: mc split: option.split)
    then show ?thesis
      using True cmp by (simp add: peephole_inst_def)
  next
    case int
    have "i_op i \<noteq> NY_NIR_CMP_I64"
      using int by (auto simp: is_int_binary_def)
    moreover have "ny_nir_analyze_binary_fold (i_op i) x y = Some z"
      using z int by (simp add: binary_value_def)
    ultimately show ?thesis
      using True peephole_arith_sem [OF int dst x y known_okD [OF kn x] known_okD [OF kn y] _ fin r]
      by (simp add: peephole_inst_def)
  next
    case other
    then show ?thesis
      using r by (simp add: peephole_inst_def peephole_arith_other)
  qed
next
  case False
  then have "i_op i \<noteq> NY_NIR_CMP_I64 \<and> \<not> is_int_binary (i_op i) \<or> (i_dst i < 0 \<or> i_a i < 0 \<or> i_b i < 0)"
    by (auto simp: is_binary_op_def is_cmp_op_def)
  then show ?thesis
    using r by (auto simp: peephole_inst_def peephole_arith_other)
qed

lemma peephole_label: "same_label i (peephole_inst cs facts i)"
proof (cases "i_op i = NY_NIR_CMP_I64 \<or> is_int_binary (i_op i)")
  case True
  have "i_op (peephole_inst cs facts i) \<noteq> NY_NIR_LABEL"
    using True
    by (cases "i_op i")
       (auto simp: peephole_inst_def peephole_arith_def peephole_cmp_def is_int_binary_def nir_make_const_def
         nir_make_copy_def zero_inst_def split: option.splits)
  then show ?thesis
    using True by (auto simp: same_label_def is_int_binary_def)
next
  case False
  then have "peephole_inst cs facts i = i"
    by (simp add: peephole_inst_def peephole_arith_other)
  then show ?thesis
    by (simp add: same_label_def)
qed

lemma peephole_shape:
  assumes "ny_nir_peephole f = Some g"
  shows "g = f \<or> g = f\<lparr>fn_data := map (peephole_inst (nir_collect_consts f) (facts_at f (fn_len f))) (fn_data f)\<rparr>"
  using assms analyze_values_facts [of f]
  by (auto simp: ny_nir_peephole_def split: if_splits sum.splits)

lemma peephole_step:
  assumes g: "ny_nir_peephole f = Some g" and inv: "peep_inv f c" and k: "c_pc c < fn_len f"
    and r: "core_step env f c = Some r"
  shows "core_step env g c = Some r"
  using peephole_shape [OF g]
proof
  assume "g = f"
  then show ?thesis using r by simp
next
  assume g: "g = f\<lparr>fn_data := map (peephole_inst (nir_collect_consts f) (facts_at f (fn_len f))) (fn_data f)\<rparr>"
  have "label_pc g = label_pc f"
    using peephole_label by (intro label_pc_cong) (auto simp: g)
  then show ?thesis
    using peephole_inst_sem [OF inv, of env "label_pc f"] k r by (simp add: core_step_def g)
qed

interpretation peephole: lockstep_pass ny_nir_peephole
  "\<lambda>env f. verified f \<and> arrays_ok f \<and> facts_sound_for f" "\<lambda>env f c d. d = c \<and> peep_inv f c"
proof
  fix f g env c d r
  assume "verified f \<and> arrays_ok f \<and> facts_sound_for f" "ny_nir_peephole f = Some g" "d = c \<and> peep_inv f c"
    "c_pc c < fn_len f" "core_step env f c = Some r"
  then show "\<exists>r'. core_step env g d = Some r' \<and> out_rel (\<lambda>c d. d = c \<and> peep_inv f c) r r'"
    using peephole_step [of f g c env r] peep_inv_step [of f c env] by (cases r) auto
next
  fix f g ls h
  assume "ny_nir_peephole f = Some g"
  then show "core_init g ls h = core_init f ls h \<and> peep_inv f (core_init f ls h)"
    using peephole_shape [of f g] peep_inv_init by (auto simp: core_init_def empty_tab_def)
qed (auto dest: peephole_shape)

section \<open>Properties\<close>

text \<open>
  C6: the peephole pass preserves runs. For a verified function in which the recorded ranges are
  those that construction records and no \<open>or\<close> or \<open>xor\<close> occurs, every successful run is matched by a
  run of the simplified function with the same outcome and number of steps.
\<close>

theorem peephole_preserves_runs:
  assumes "verified f" "arrays_ok f" "facts_sound_for f" "ny_nir_peephole f = Some g"
    and "eval_run env f ls h n = Inr s"
  shows "\<exists>t. eval_run env g ls h n = Inr t \<and> outcome_of t = outcome_of s"
  using assms by (intro peephole.eval_preserved) auto


theorem peephole_preserves_runs_witness:
  "\<exists>g t. ny_nir_peephole sample_peep = Some g \<and> g \<noteq> sample_peep \<and>
     eval_run toy_env g [41] Map.empty 50 = Inr t \<and> o_result (outcome_of t) = 42"
proof -
  have v: "verified sample_peep" and a: "arrays_ok sample_peep" and d: "facts_sound_for sample_peep"
    by code_simp+
  have "ny_nir_peephole sample_peep \<noteq> None" and changed: "ny_nir_peephole sample_peep \<noteq> Some sample_peep"
    by code_simp+
  then obtain g where g: "ny_nir_peephole sample_peep = Some g"
    by blast
  have "ok_run (\<lambda>s. o_result (outcome_of s) = 42) (eval_run toy_env sample_peep [41] Map.empty 50)"
    by code_simp
  then obtain s where "eval_run toy_env sample_peep [41] Map.empty 50 = Inr s" "o_result (outcome_of s) = 42"
    by (rule ok_runE)
  then show ?thesis
    using peephole_preserves_runs [OF v a d g] g changed by fastforce
qed



end
