(* ===== verification/Nyir_Cfg_Correct.thy ===== *)
theory Nyir_Cfg_Correct
  imports Nyir_Peephole_Correct
begin

text \<open>
  Correctness of control-flow simplification. A branch to the label that follows becomes a no-op,
  so the simplified function takes more steps: the verdict of a run is preserved, not its length.
\<close>

section \<open>No-ops and labels\<close>

lemma inert_step:
  "i_op i = NY_NIR_NOP \<or> i_op i = NY_NIR_LABEL \<Longrightarrow> sem_at env lbl i c = Some (Cont (c\<lparr>c_pc := Suc (c_pc c)\<rparr>))"
  by (auto simp: sem_at_def inst_reads_def inst_sem_def finish_def write_dst_def)

lemma inert_iter:
  "(\<And>j. j < n \<Longrightarrow> c_pc c + j < fn_len g \<and>
      (i_op (fn_data g ! (c_pc c + j)) = NY_NIR_NOP \<or> i_op (fn_data g ! (c_pc c + j)) = NY_NIR_LABEL)) \<Longrightarrow>
   core_iter env g n c = Some (c\<lparr>c_pc := c_pc c + n\<rparr>)"
proof (induction n arbitrary: c)
  case 0
  then show ?case by simp
next
  case (Suc n)
  let ?c' = "c\<lparr>c_pc := Suc (c_pc c)\<rparr>"
  have "core_step env g c = Some (Cont ?c')" "c_pc c < fn_len g"
    using Suc.prems [of 0] by (auto simp: core_step_def inert_step)
  moreover have "core_iter env g n ?c' = Some (?c'\<lparr>c_pc := c_pc ?c' + n\<rparr>)"
    using Suc.prems [of "Suc _"] by (intro Suc.IH) simp
  ultimately show ?case
    by simp
qed

lemma next_non_nop_SomeD:
  "nir_next_non_nop is = Some i \<Longrightarrow>
   \<exists>q<length is. is ! q = i \<and> i_op i \<noteq> NY_NIR_NOP \<and> (\<forall>j<q. i_op (is ! j) = NY_NIR_NOP)"
proof (induction "is")
  case Nil
  then show ?case by simp
next
  case (Cons x xs)
  show ?case
  proof (cases "i_op x = NY_NIR_NOP")
    case True
    then obtain q where "q < length xs" "xs ! q = i" "i_op i \<noteq> NY_NIR_NOP" "\<forall>j<q. i_op (xs ! j) = NY_NIR_NOP"
      using Cons by auto
    then show ?thesis
      using True by (intro exI [of _ "Suc q"]) (auto simp: nth_Cons split: nat.splits)
  next
    case False
    then show ?thesis
      using Cons.prems by (intro exI [of _ 0]) simp
  qed
qed

section \<open>The pass\<close>

lemma length_cfg_loop [simp]: "length (cfg_loop cs is) = length is"
  by (induction cs "is" rule: cfg_loop.induct) (simp_all add: Let_def)

lemma cfg_loop_nth:
  "k < length is \<Longrightarrow> cfg_loop cs is ! k =
     (if jumps_to_next (cfg_fold_branch cs (is ! k)) (drop (Suc k) is) then cfg_nop else cfg_fold_branch cs (is ! k))"
  by (induction "is" arbitrary: k) (auto simp: Let_def nth_Cons split: nat.splits)

lemma cfg_fields:
  assumes "ny_nir_cfg_simplify f = Some g"
  shows "fn_len g = fn_len f" and "fn_next_value g = fn_next_value f"
    and "k < fn_len f \<Longrightarrow> fn_data g ! k =
       (if jumps_to_next (cfg_fold_branch (nir_collect_consts f) (fn_data f ! k)) (drop (Suc k) (fn_data f))
        then cfg_nop else cfg_fold_branch (nir_collect_consts f) (fn_data f ! k))"
  using assms by (auto simp: ny_nir_cfg_simplify_def cfg_loop_nth)

lemma cfg_fold_branch_ops:
  "i_op i \<noteq> NY_NIR_BR_IF \<Longrightarrow> cfg_fold_branch cs i = i"
  "i_op i = NY_NIR_BR_IF \<Longrightarrow> i_op (cfg_fold_branch cs i) \<in> {NY_NIR_BR_IF, NY_NIR_BR, NY_NIR_NOP}"
  by (auto simp: cfg_fold_branch_def cfg_branch_def cfg_nop_def zero_inst_def split: option.splits)

lemma cfg_inert:
  assumes "ny_nir_cfg_simplify f = Some g" "k < fn_len f" "i_op (fn_data f ! k) = NY_NIR_NOP \<or> i_op (fn_data f ! k) = NY_NIR_LABEL"
  shows "fn_data g ! k = fn_data f ! k"
  using assms cfg_fields(3) [OF assms(1,2)] by (auto simp: cfg_fold_branch_ops jumps_to_next_def)

lemma cfg_labels:
  assumes "ny_nir_cfg_simplify f = Some g"
  shows "label_pc g = label_pc f"
proof (rule label_pc_cong)
  fix k assume k: "k < fn_len f"
  show "same_label (fn_data f ! k) (fn_data g ! k)"
  proof (cases "i_op (fn_data f ! k) = NY_NIR_LABEL")
    case True
    then show ?thesis
      using cfg_inert [OF assms k] by (simp add: same_label_def)
  next
    case False
    then show ?thesis
      using cfg_fields(3) [OF assms k] cfg_fold_branch_ops [of "fn_data f ! k" "nir_collect_consts f"]
      by (cases "i_op (fn_data f ! k) = NY_NIR_BR_IF") (auto simp: same_label_def cfg_nop_def zero_inst_def)
  qed
qed (rule cfg_fields(1) [OF assms])

lemma cfg_fold_branch_sem:
  assumes k: "known_ok cs (c_vals c)" and r: "sem_at env lbl i c = Some r"
  shows "sem_at env lbl (cfg_fold_branch cs i) c = Some r"
proof (cases "i_op i = NY_NIR_BR_IF")
  case True
  obtain a where a: "tab_get (c_vals c) (i_a i) = Some a"
    using r True by (auto simp: sem_at_def inst_reads_def split: option.splits)
  show ?thesis
    using r True a known_okD [OF k a]
    by (auto simp: cfg_fold_branch_def cfg_branch_def cfg_nop_def zero_inst_def sem_at_def inst_reads_def
        inst_sem_def jump_sem_def finish_def write_dst_def split: option.splits)
qed (simp add: cfg_fold_branch_def r)

text \<open>A branch to the next label moves to where falling through to the label would go.\<close>

lemma jump_to_next_iter:
  assumes f: "verified f" and g: "ny_nir_cfg_simplify f = Some g" and k: "c_pc c < fn_len f"
    and j: "jumps_to_next j (drop (Suc (c_pc c)) (fn_data f))" and nop: "i_op (fn_data g ! c_pc c) = NY_NIR_NOP"
    and sem: "sem_at env (label_pc f) j c = Some (Cont c')"
  shows "\<exists>n. core_iter env g n c = Some c'"
proof -
  let ?k = "c_pc c" and ?rest = "drop (Suc (c_pc c)) (fn_data f)"
  obtain l where l: "i_op j = NY_NIR_BR" "nir_next_non_nop ?rest = Some l" "i_op l = NY_NIR_LABEL" "i_imm l = i_imm j"
    using j by (auto simp: jumps_to_next_def split: option.splits)
  obtain q where q: "q < length ?rest" "?rest ! q = l" "\<forall>m<q. i_op (?rest ! m) = NY_NIR_NOP"
    using next_non_nop_SomeD [OF l(2)] by auto
  have at: "Suc (?k + q) < fn_len f" "fn_data f ! Suc (?k + q) = l"
      "\<And>m. m < q \<Longrightarrow> i_op (fn_data f ! Suc (?k + m)) = NY_NIR_NOP"
    using q by auto
  have p: "label_pc f (i_imm j) = Some (c_pc c')"
    by (rule sem_at_BR [OF l(1) sem])
  then have "0 \<le> sint (i_imm j)"
    using label_pc_SomeD by blast
  then have "label_pc f (i_imm j) = Some (Suc (Suc (?k + q)))"
    using label_pc_unique [OF f at(1), of "i_imm j"] at(2) l by simp
  then have pc: "c_pc c' = ?k + (q + 2)"
    using p by simp
  have c': "c' = c\<lparr>c_pc := c_pc c'\<rparr>"
    using sem l(1) by (auto simp: sem_at_def inst_reads_def inst_sem_def jump_sem_def finish_def write_dst_def
        split: option.splits)
  have "core_iter env g (q + 2) c = Some (c\<lparr>c_pc := ?k + (q + 2)\<rparr>)"
  proof (rule inert_iter)
    fix m assume m: "m < q + 2"
    consider "m = 0" | "m = Suc q" | m' where "m = Suc m'" "m' < q"
      using m by (cases m) (auto simp: less_Suc_eq)
    then show "?k + m < fn_len g \<and> (i_op (fn_data g ! (?k + m)) = NY_NIR_NOP \<or> i_op (fn_data g ! (?k + m)) = NY_NIR_LABEL)"
    proof cases
      case 1
      then show ?thesis using nop k cfg_fields(1) [OF g] by simp
    next
      case 2
      then show ?thesis using cfg_inert [OF g at(1)] at(1,2) l(3) cfg_fields(1) [OF g] by simp
    next
      case 3
      then show ?thesis using cfg_inert [OF g, of "Suc (?k + m')"] at(1,3) cfg_fields(1) [OF g] by simp
    qed
  qed
  then show ?thesis
    using c' pc by metis
qed

lemma cfg_step:
  assumes f: "verified f" and g: "ny_nir_cfg_simplify f = Some g" and k: "c_pc c < fn_len f"
    and kn: "known_ok (nir_collect_consts f) (c_vals c)" and r: "core_step env f c = Some r"
  shows "core_step env g c = Some r \<or> (\<exists>c' n. r = Cont c' \<and> core_iter env g n c = Some c')"
proof -
  let ?j = "cfg_fold_branch (nir_collect_consts f) (fn_data f ! c_pc c)"
  have sem: "sem_at env (label_pc f) ?j c = Some r"
    using cfg_fold_branch_sem [OF kn] r by (simp add: core_step_def)
  show ?thesis
  proof (cases "jumps_to_next ?j (drop (Suc (c_pc c)) (fn_data f))")
    case False
    then show ?thesis
      using cfg_fields(3) [OF g k] cfg_labels [OF g] sem by (simp add: core_step_def)
  next
    case True
    then have "i_op ?j = NY_NIR_BR"
      by (simp add: jumps_to_next_def)
    then obtain c' where c': "r = Cont c'"
      using sem_at_no_stop [of env "label_pc f" ?j c] sem by (cases r) auto
    have "i_op (fn_data g ! c_pc c) = NY_NIR_NOP"
      using cfg_fields(3) [OF g k] True by (simp add: cfg_nop_def zero_inst_def)
    then show ?thesis
      using jump_to_next_iter [OF f g k True _ sem [unfolded c']] c' by blast
  qed
qed

interpretation cfg_simplify: simulating_pass ny_nir_cfg_simplify "\<lambda>env f. verified f"
  "\<lambda>env f c (d::core). d = c \<and> known_ok (nir_collect_consts f) (c_vals c)"
proof
  fix env f g ls h
  assume "ny_nir_cfg_simplify f = Some g"
  then show "core_init g ls h = core_init f ls h \<and> known_ok (nir_collect_consts f) (c_vals (core_init f ls h))"
    using cfg_fields(2) by (simp add: core_init_def empty_tab_def known_ok_def tab_get_def)
next
  fix env f g and c d :: core
  assume "ny_nir_cfg_simplify f = Some g" "d = c \<and> known_ok (nir_collect_consts f) (c_vals c)" "\<not> c_pc c < fn_len f"
  then show "\<exists>n d'. core_iter env g n d = Some d' \<and> \<not> c_pc d' < fn_len g \<and> c_mem d' = c_mem c"
    using cfg_fields(1) by (intro exI [of _ 0]) auto
next
  fix env f g v m and c d :: core
  assume a: "verified f" "ny_nir_cfg_simplify f = Some g" "d = c \<and> known_ok (nir_collect_consts f) (c_vals c)"
    "c_pc c < fn_len f" "core_step env f c = Some (Stop v m)"
  then have "core_step env g c = Some (Stop v m)"
    using cfg_step [of f g c env] by blast
  then show "\<exists>n d'. core_iter env g n d = Some d' \<and> c_pc d' < fn_len g \<and> core_step env g d' = Some (Stop v m)"
    using a cfg_fields(1) by (intro exI [of _ 0]) auto
next
  fix env f g c' and c d :: core
  assume a: "verified f" "ny_nir_cfg_simplify f = Some g" "d = c \<and> known_ok (nir_collect_consts f) (c_vals c)"
    "c_pc c < fn_len f" "core_step env f c = Some (Cont c')"
  have "\<exists>n. core_iter env g n c = Some c'"
    using cfg_step [of f g c env "Cont c'"] a cfg_fields(1) [of f g]
    by (auto intro: exI [of _ 1])
  then show "\<exists>n d'. core_iter env g n d = Some d' \<and> d' = c' \<and> known_ok (nir_collect_consts f) (c_vals c')"
    using a collect_consts_step [of f c env c'] by auto
qed

section \<open>Properties\<close>

text \<open>A branch on a constant, a branch to the next label over a no-op, and one that stays.\<close>

definition sample_cfg :: ny_nir_func where
  "sample_cfg = nfunc
     [ni NY_NIR_CONST_I64 0 (-1) (-1) 1, ni NY_NIR_BR_IF (-1) 0 (-1) 4, ni NY_NIR_NOP (-1) (-1) (-1) 0,
      ni NY_NIR_LABEL (-1) (-1) (-1) 4, ni NY_NIR_LOAD_LOCAL 1 (-1) (-1) 0, ni NY_NIR_BR_IF (-1) 1 (-1) 5,
      ni NY_NIR_RET (-1) 0 (-1) 0, ni NY_NIR_LABEL (-1) (-1) (-1) 5, ni NY_NIR_ADD_I64 2 0 1 0,
      ni NY_NIR_RET (-1) 2 (-1) 0] 3"

text \<open>
  C11: control-flow simplification preserves runs. When a verified function finishes, the simplified
  function finishes as well under every step limit that is large enough, with the same return
  flag, result, locals and heap.
\<close>

theorem cfg_simplify_preserves_runs:
  assumes "verified f" "ny_nir_cfg_simplify f = Some g" "eval_run env f ls h n = Inr s"
  shows "\<exists>k. \<forall>n\<ge>k. \<exists>t. eval_run env g ls h n = Inr t \<and> verdict_of (outcome_of t) = verdict_of (outcome_of s)"
  using assms by (intro cfg_simplify.verdict_preserved)

theorem cfg_simplify_preserves_runs_witness:
  "\<exists>g k t. ny_nir_cfg_simplify sample_cfg = Some g \<and> g \<noteq> sample_cfg \<and>
     eval_run toy_env g [7] Map.empty k = Inr t \<and> o_result (outcome_of t) = 8"
proof -
  have v: "verified sample_cfg"
    by code_simp
  have changed: "ny_nir_cfg_simplify sample_cfg \<noteq> Some sample_cfg"
    by code_simp
  obtain g where g: "ny_nir_cfg_simplify sample_cfg = Some g"
    by (simp add: ny_nir_cfg_simplify_def)
  have "ok_run (\<lambda>s. o_result (outcome_of s) = 8) (eval_run toy_env sample_cfg [7] Map.empty 50)"
    by code_simp
  then obtain s where s: "eval_run toy_env sample_cfg [7] Map.empty 50 = Inr s" "o_result (outcome_of s) = 8"
    by (rule ok_runE)
  then obtain k t where "eval_run toy_env g [7] Map.empty k = Inr t" "o_result (outcome_of t) = 8"
    using cfg_simplify_preserves_runs [OF v g s(1)] by (auto simp: verdict_of_def)
  then show ?thesis
    using g changed by fastforce
qed

end
