(* ===== verification/Nyir_Dce_Correct.thy ===== *)
theory Nyir_Dce_Correct
  imports Nyir_Sim Nyir_Samples
begin

text \<open>
  Correctness of dead code elimination: the forward pass discards only instructions that no run
  reaches, the backward sweep only instructions without effect whose value no kept instruction
  reads, and a label stays as long as a kept branch names it.
\<close>

section \<open>The forward pass\<close>

text \<open>
  One turn of the loop, on the state (instructions already seen, reachable, first). The flags
  \<open>reachable\<close> and \<open>fallthrough\<close> of the code always agree. The output is the flag at the instruction
  and the instruction left behind.
\<close>

definition reach_step ::
  "ny_nir_func \<Rightarrow> ny_nir_inst list \<times> bool \<times> bool \<Rightarrow> ny_nir_inst \<Rightarrow>
   (bool \<times> ny_nir_inst) \<times> ny_nir_inst list \<times> bool \<times> bool" where
  "reach_step f st i =
     (case st of (seen, r, first_inst) \<Rightarrow>
        let r1 = (if i_op i = NY_NIR_LABEL
                  then first_inst \<or> r \<or>
                       label_referenced_now f (seen @ drop (length seen) (fn_data f)) (i_imm i)
                  else r);
            j = (if \<not> r1 \<and> i_op i \<noteq> NY_NIR_LABEL then ny_nir_inst_discard i else i)
        in ((r1, j), (seen @ [j], r1 \<and> i_op i \<noteq> NY_NIR_RET \<and> i_op i \<noteq> NY_NIR_BR, False)))"

lemma dce_reach_step:
  assumes "i # rest = drop (length seen) (fn_data f)"
    and "reach_step f (seen, r, first_inst) i = ((r1, j), (seen', r2, first'))"
  shows "dce_reach f seen r r first_inst (i # rest) = dce_reach f (seen @ [j]) r2 r2 False rest"
    and "seen' = seen @ [j]" and "\<not> first'"
  using assms by (auto simp: reach_step_def Let_def simp flip: assms(1))

lemma dce_reach_scan:
  "is = drop (length seen) (fn_data f) \<Longrightarrow>
   dce_reach f seen r r first_inst is =
     seen @ map snd (scan_map (reach_step f) (seen, r, first_inst) is)"
proof (induction "is" arbitrary: seen r first_inst)
  case Nil
  then show ?case by simp
next
  case (Cons i rest)
  obtain r1 j seen' r2 first' where
    step: "reach_step f (seen, r, first_inst) i = ((r1, j), (seen', r2, first'))"
    by (metis prod.collapse)
  have "rest = drop (length (seen @ [j])) (fn_data f)"
    using Cons.prems by (metis drop_Suc tl_drop list.sel(3) length_append_singleton)
  then have "dce_reach f (seen @ [j]) r2 r2 False rest =
      (seen @ [j]) @ map snd (scan_map (reach_step f) (seen @ [j], r2, False) rest)"
    by (rule Cons.IH)
  then show ?case
    using dce_reach_step [OF Cons.prems step] step by (simp del: dce_reach.simps)
qed

definition reach_at :: "ny_nir_func \<Rightarrow> nat \<Rightarrow> ny_nir_inst list \<times> bool \<times> bool" where
  "reach_at f k = scan_at (reach_step f) ([], True, True) (fn_data f) k"

definition reached :: "ny_nir_func \<Rightarrow> nat \<Rightarrow> bool" where
  "reached f k \<longleftrightarrow> fst (fst (reach_step f (reach_at f k) (fn_data f ! k)))"

definition live_insts :: "ny_nir_func \<Rightarrow> ny_nir_inst list" where
  "live_insts f = dce_reach f [] True True True (fn_data f)"

lemma live_insts_scan: "live_insts f = map snd (scan_map (reach_step f) ([], True, True) (fn_data f))"
  by (simp add: live_insts_def dce_reach_scan)

lemma length_live [simp]: "length (live_insts f) = fn_len f"
  by (simp add: live_insts_scan)

lemma live_nth:
  "k < fn_len f \<Longrightarrow> live_insts f ! k = snd (fst (reach_step f (reach_at f k) (fn_data f ! k)))"
  by (simp add: live_insts_scan scan_map_nth reach_at_def)

lemma reach_at_Suc:
  "k < fn_len f \<Longrightarrow> reach_at f (Suc k) = snd (reach_step f (reach_at f k) (fn_data f ! k))"
  by (simp add: reach_at_def scan_at_Suc)

lemma seen_at: "k \<le> fn_len f \<Longrightarrow> fst (reach_at f k) = take k (live_insts f)"
proof (induction k)
  case 0
  then show ?case by (simp add: reach_at_def)
next
  case (Suc k)
  then show ?case
    by (cases "reach_at f k")
       (simp add: reach_at_Suc live_nth take_Suc_conv_app_nth reach_step_def Let_def)
qed

lemma live_cases:
  assumes "k < fn_len f"
  shows "live_insts f ! k = fn_data f ! k \<or>
    live_insts f ! k = blank_inst \<and> \<not> reached f k \<and> i_op (fn_data f ! k) \<noteq> NY_NIR_LABEL"
  using assms
  by (auto simp: live_nth reached_def reach_step_def Let_def ny_nir_inst_discard_def split: prod.splits)

lemma reached_live: "k < fn_len f \<Longrightarrow> reached f k \<Longrightarrow> live_insts f ! k = fn_data f ! k"
  using live_cases by blast

lemma reached_0: "reached f 0"
  by (simp add: reached_def reach_at_def reach_step_def Let_def)

lemma reached_Suc:
  assumes "k < fn_len f" "reached f k" "i_op (fn_data f ! k) \<noteq> NY_NIR_RET" "i_op (fn_data f ! k) \<noteq> NY_NIR_BR"
  shows "reached f (Suc k)"
proof -
  have "fst (snd (reach_at f (Suc k)))"
    using assms by (auto simp: reach_at_Suc reached_def reach_step_def Let_def split: prod.splits)
  then show ?thesis
    by (auto simp: reached_def reach_step_def Let_def split: prod.splits)
qed

text \<open>A branch that is present in a list of instructions makes its label referenced.\<close>

lemma referenced_now:
  assumes "j < fn_len f" "i_op (fn_data f ! j) = NY_NIR_BR \<or> i_op (fn_data f ! j) = NY_NIR_BR_IF"
    "i_imm (fn_data f ! j) = l" "j < length cur" "cur ! j = fn_data f ! j"
  shows "label_referenced_now f cur l"
proof -
  have "fn_data f ! j \<in> set (fn_data f)" "fn_data f ! j \<in> set cur"
    using assms(1,4,5) by (metis nth_mem)+
  then have "ny_nir_label_referenced f l" "ny_nir_label_referenced (f\<lparr>fn_data := cur\<rparr>) l"
    using assms(2,3) by (auto simp: ny_nir_label_referenced_def)
  then show ?thesis
    by (simp add: label_referenced_now_def Let_def)
qed

lemma reached_label:
  assumes "k < fn_len f" "i_op (fn_data f ! k) = NY_NIR_LABEL"
    "j < fn_len f" "i_op (fn_data f ! j) = NY_NIR_BR \<or> i_op (fn_data f ! j) = NY_NIR_BR_IF"
    "i_imm (fn_data f ! j) = i_imm (fn_data f ! k)" "reached f j"
  shows "reached f k"
proof -
  let ?seen = "take k (live_insts f)"
  let ?cur = "?seen @ drop (length ?seen) (fn_data f)"
  have len: "length ?seen = k"
    using assms(1) by simp
  have "?cur ! j = fn_data f ! j"
    using assms(1,3,6) reached_live [of j f] by (simp add: nth_append len)
  then have "label_referenced_now f ?cur (i_imm (fn_data f ! k))"
    using assms(3-5) len by (intro referenced_now [of j]) auto
  then show ?thesis
    using assms(1,2) seen_at [of k f]
    by (auto simp: reached_def reach_step_def Let_def split: prod.splits)
qed


section \<open>The backward sweep\<close>

lemma mark_fold_nth:
  "n < length used \<Longrightarrow>
   foldl (\<lambda>u v. if 0 \<le> v then u[nat v := True] else u) used vs ! n \<longleftrightarrow> used ! n \<or> int n \<in> set vs"
proof (induction vs arbitrary: used)
  case Nil
  then show ?case by simp
next
  case (Cons v vs)
  have "(if 0 \<le> v then used[nat v := True] else used) ! n \<longleftrightarrow> used ! n \<or> v = int n"
    using Cons.prems by (cases "nat v = n") auto
  then show ?case
    using Cons by auto
qed

lemma length_mark_fold [simp]:
  "length (foldl (\<lambda>u v. if 0 \<le> v then u[nat v := True] else u) used vs) = length used"
  by (induction vs arbitrary: used) auto

lemma length_mark_used [simp]: "length (mark_used used i) = length used"
  by (simp add: mark_used_def)

lemma mark_used_nth:
  "n < length used \<Longrightarrow> mark_used used i ! n \<longleftrightarrow> used ! n \<or> int n \<in> set (operand_list i)"
  by (simp add: mark_used_def mark_fold_nth)

lemma dce_keeps_mark: "dce_keeps f cur used x \<Longrightarrow> dce_keeps f cur (mark_used used i) x"
  by (auto simp: dce_keeps_def mark_used_nth)

lemma operands_blank [simp]: "operand_list blank_inst = [-1, -1, -1, -1, -1, -1]"
  by (simp add: operand_list_def blank_inst_def zero_inst_def)

text \<open>
  What the sweep leaves of the instructions \<open>P\<close>: each is kept or blank, it is kept if the code's
  test says so for the instructions as they are when the sweep gets to it, and it is kept if an
  instruction that is left after it has its destination as an operand.
\<close>

definition swept :: "ny_nir_func \<Rightarrow> bool list \<Rightarrow> ny_nir_inst list \<Rightarrow> ny_nir_inst list \<Rightarrow>
    ny_nir_inst list \<Rightarrow> bool" where
  "swept f used P out suf \<longleftrightarrow>
     length out = length P \<and>
     (\<forall>k<length P.
        (out ! k = P ! k \<or> out ! k = blank_inst) \<and>
        (dce_keeps f (take k P @ P ! k # drop (Suc k) out @ suf) used (P ! k) \<longrightarrow> out ! k = P ! k) \<and>
        (\<forall>j<length P. k < j \<longrightarrow> 0 \<le> i_dst (P ! k) \<longrightarrow> nat (i_dst (P ! k)) < length used \<longrightarrow>
           i_dst (P ! k) \<in> set (operand_list (out ! j)) \<longrightarrow> out ! k = P ! k))"

lemma dce_sweep_swept: "\<exists>out. dce_sweep f used (rev P) suf = out @ suf \<and> swept f used P out suf"
proof (induction P arbitrary: used suf rule: rev_induct)
  case Nil
  then show ?case by (simp add: swept_def)
next
  case (snoc x P)
  let ?keep = "dce_keeps f (P @ x # suf) used x"
  let ?y = "if ?keep then x else blank_inst"
  let ?used = "if ?keep then mark_used used x else used"
  obtain out where out: "dce_sweep f ?used (rev P) (?y # suf) = out @ ?y # suf" "swept f ?used P out (?y # suf)"
    using snoc.IH by blast
  have len: "length out = length P"
    using out(2) by (simp add: swept_def)
  have "swept f used (P @ [x]) (out @ [?y]) suf"
    unfolding swept_def
  proof (intro conjI allI impI)
    fix k assume k: "k < length (P @ [x])"
    show "(out @ [?y]) ! k = (P @ [x]) ! k \<or> (out @ [?y]) ! k = blank_inst"
      using k out(2) len by (auto simp: swept_def nth_append less_Suc_eq)
  next
    fix k assume k: "k < length (P @ [x])"
      and keep: "dce_keeps f (take k (P @ [x]) @ (P @ [x]) ! k # drop (Suc k) (out @ [?y]) @ suf) used ((P @ [x]) ! k)"
    show "(out @ [?y]) ! k = (P @ [x]) ! k"
    proof (cases "k < length P")
      case True
      then have "dce_keeps f (take k P @ P ! k # drop (Suc k) out @ ?y # suf) ?used (P ! k)"
        using keep len dce_keeps_mark [of f _ used "P ! k" x] by (auto simp: nth_append)
      then show ?thesis
        using True out(2) len by (simp add: swept_def nth_append)
    next
      case False
      then have "k = length P"
        using k by simp
      then show ?thesis
        using keep len by (simp add: nth_append)
    qed
  next
    fix k j assume k: "k < length (P @ [x])" and j: "j < length (P @ [x])" "k < j"
      and dst: "0 \<le> i_dst ((P @ [x]) ! k)" "nat (i_dst ((P @ [x]) ! k)) < length used"
        "i_dst ((P @ [x]) ! k) \<in> set (operand_list ((out @ [?y]) ! j))"
    then have kP: "k < length P" and Pk: "(P @ [x]) ! k = P ! k"
      by (auto simp: nth_append)
    have "out ! k = P ! k"
    proof (cases "j < length P")
      case True
      then show ?thesis
        using out(2) dst kP j(2) len by (auto simp: swept_def nth_append)
    next
      case False
      then have "i_dst (P ! k) \<in> set (operand_list ?y)"
        using dst(3) j(1) len Pk by (auto simp: nth_append less_Suc_eq)
      then have "?keep" "i_dst (P ! k) \<in> set (operand_list x)"
        using dst(1) Pk by (auto split: if_splits)
      then have "?used ! nat (i_dst (P ! k))"
        using dst(1,2) Pk by (simp add: mark_used_nth)
      then have "dce_keeps f (take k P @ P ! k # drop (Suc k) out @ ?y # suf) ?used (P ! k)"
        using dst(1,2) Pk by (simp add: dce_keeps_def)
      then show ?thesis
        using out(2) kP by (simp add: swept_def)
    qed
    then show "(out @ [?y]) ! k = (P @ [x]) ! k"
      using kP len Pk by (simp add: nth_append)
  qed (simp add: len)
  moreover have "dce_sweep f used (rev (P @ [x])) suf = (out @ [?y]) @ suf"
    using out(1) by (auto simp: ny_nir_inst_discard_def split: if_splits)
  ultimately show ?case
    by blast
qed

section \<open>The whole pass\<close>

lemma reads_in_operands:
  assumes "u \<in> set (inst_reads i)" "0 \<le> u" "extra_args_ok i"
  shows "u \<in> set (operand_list i)"
proof (cases "i_op i = NY_NIR_CALL")
  case True
  then obtain k where k: "u = call_operand i k"
    using assms(1) by (auto simp: inst_reads_def)
  show ?thesis
  proof (cases "k < 6")
    case True
    then have "k = 0 \<or> k = 1 \<or> k = 2 \<or> k = 3 \<or> k = 4 \<or> k = 5"
      by arith
    then show ?thesis
      using k by (auto simp: call_operand_def operand_list_def)
  next
    case False
    then have "i_extra_args i \<noteq> []" "k - 6 < i_extra_args_len i" "u = i_extra_args i ! (k - 6)"
      using k assms(2) by (auto simp: call_operand_def split: if_splits)
    then have "u \<in> set (take (i_extra_args_len i) (i_extra_args i))"
      using assms(3) by (auto simp: in_set_conv_nth extra_args_ok_def intro!: exI [of _ "k - 6"])
    then show ?thesis
      by (simp add: operand_list_def)
  qed
next
  case False
  then show ?thesis
    using assms(1) by (cases "i_op i") (auto simp: inst_reads_def operand_list_def split: if_splits)
qed

definition dce_ok :: "ny_nir_func \<Rightarrow> bool" where
  "dce_ok f \<longleftrightarrow> verified f \<and> arrays_ok f \<and> 0 < fn_next_value f"

lemma dce_swept:
  assumes "ny_nir_dce f = Some g" "0 < fn_next_value f"
  shows "swept f (replicate (nat (fn_next_value f)) False) (live_insts f) (fn_data g) []"
    and "fn_next_value g = fn_next_value f"
proof -
  obtain out where out: "dce_sweep f (replicate (nat (fn_next_value f)) False) (rev (live_insts f)) [] = out @ []"
      "swept f (replicate (nat (fn_next_value f)) False) (live_insts f) out []"
    using dce_sweep_swept by blast
  have g: "g = f\<lparr>fn_data := out\<rparr>"
    using assms out(1) by (auto simp: ny_nir_dce_def live_insts_def)
  show "swept f (replicate (nat (fn_next_value f)) False) (live_insts f) (fn_data g) []"
    and "fn_next_value g = fn_next_value f"
    using g out(2) by simp_all
qed

lemma dce_len: "ny_nir_dce f = Some g \<Longrightarrow> fn_len g = fn_len f"
  using dce_swept(1) [of f g]
  by (cases "0 < fn_next_value f") (auto simp: swept_def ny_nir_dce_def)

text \<open>Each instruction of the result is that of the original, or blank.\<close>

lemma dce_cases:
  assumes "ny_nir_dce f = Some g" "0 < fn_next_value f" "k < fn_len f"
  shows "fn_data g ! k = fn_data f ! k \<or> fn_data g ! k = blank_inst"
  using dce_swept(1) [OF assms(1,2)] live_cases [OF assms(3)] assms(3) by (auto simp: swept_def)

text \<open>The values that the result reads.\<close>

definition read_in :: "ny_nir_func \<Rightarrow> int \<Rightarrow> bool" where
  "read_in g v \<longleftrightarrow> (\<exists>j<fn_len g. v \<in> set (inst_reads (fn_data g ! j)))"

lemma inst_reads_blank [simp]: "inst_reads blank_inst = []"
  by (simp add: inst_reads_def blank_inst_def zero_inst_def)

lemma dce_dead_dst:
  assumes ok: "dce_ok f" and g: "ny_nir_dce f = Some g" and k: "k < fn_len f"
    and blank: "fn_data g ! k \<noteq> fn_data f ! k" and r: "reached f k"
  shows "\<not> read_in g (i_dst (fn_data f ! k))"
proof
  let ?v = "i_dst (fn_data f ! k)"
  have f: "verified f" "arrays_ok f" "0 < fn_next_value f"
    using ok by (simp_all add: dce_ok_def)
  assume "read_in g ?v"
  then obtain j where j: "j < fn_len f" "?v \<in> set (inst_reads (fn_data g ! j))"
    using dce_len [OF g] by (auto simp: read_in_def)
  then have gj: "fn_data g ! j = fn_data f ! j"
    using dce_cases [OF g f(3) j(1)] by auto
  have v: "0 \<le> ?v" "?v < fn_next_value f"
    using verified_reads [OF f(1) j(1) arrays_okD [OF f(2) j(1)]] j gj
    by (auto simp: nir_value_valid_def)
  show False
  proof (cases "j \<le> k")
    case True
    then show ?thesis
      using verified_reads_not_later [OF f(1,2) True k] j gj by metis
  next
    case False
    have "?v \<in> set (operand_list (fn_data g ! j))"
      using reads_in_operands j(2) v(1) arrays_okD [OF f(2) j(1)] gj by simp
    then have "fn_data g ! k = live_insts f ! k"
      using dce_swept(1) [OF g f(3)] k j(1) False v reached_live [OF k r] by (auto simp: swept_def)
    then show ?thesis
      using blank reached_live [OF k r] by simp
  qed
qed

text \<open>A reached instruction that is discarded has no effect.\<close>

lemma dce_discarded_op:
  assumes ok: "dce_ok f" and g: "ny_nir_dce f = Some g" and k: "k < fn_len f"
    and blank: "fn_data g ! k \<noteq> fn_data f ! k" and r: "reached f k"
  shows "ny_nir_inst_effects (fn_data f ! k) = NY_NIR_EFFECT_NONE"
    and "i_op (fn_data f ! k) \<noteq> NY_NIR_RET" and "i_op (fn_data f ! k) \<noteq> NY_NIR_BR"
    and "i_op (fn_data f ! k) \<noteq> NY_NIR_BR_IF"
proof -
  have f: "verified f" "arrays_ok f" "0 < fn_next_value f"
    using ok by (simp_all add: dce_ok_def)
  have nk: "\<not> dce_keeps f (take k (live_insts f) @ live_insts f ! k # drop (Suc k) (fn_data g) @ [])
      (replicate (nat (fn_next_value f)) False) (live_insts f ! k)"
    using dce_swept(1) [OF g f(3)] k blank reached_live [OF k r] by (auto simp: swept_def)
  show "ny_nir_inst_effects (fn_data f ! k) = NY_NIR_EFFECT_NONE"
    using nk verified_effects [OF f(1) k] reached_live [OF k r]
    by (auto simp: dce_keeps_def ny_nir_inst_effects_def split: if_splits)
  show "i_op (fn_data f ! k) \<noteq> NY_NIR_RET" "i_op (fn_data f ! k) \<noteq> NY_NIR_BR"
      "i_op (fn_data f ! k) \<noteq> NY_NIR_BR_IF"
    using nk reached_live [OF k r] by (auto simp: dce_keeps_def)
qed

lemma effect_free_step:
  assumes "ny_nir_inst_effects i = NY_NIR_EFFECT_NONE" "sem_at env lbl i c = Some r"
  obtains c' where "r = Cont c'" "c_mem c' = c_mem c" "c_pc c' = Suc (c_pc c)"
proof (cases r)
  case (Cont c')
  have ops: "i_op i \<notin> {NY_NIR_STORE_LOCAL, NY_NIR_CALL, NYIR_STORE_I64, NY_NIR_BR, NY_NIR_BR_IF}"
    using assms(1) by (auto simp: ny_nir_inst_effects_def effect_simps)
  then show ?thesis
    using that Cont sem_at_mem [of env lbl i c c'] sem_at_pc_Suc [of env lbl i c c'] assms(2) by auto
next
  case (Stop v m)
  then show ?thesis
    using assms sem_at_no_stop by (fastforce simp: ny_nir_inst_effects_def effect_simps)
qed

text \<open>The labels of branches that a run reaches keep their positions.\<close>

lemma dce_label_pc:
  assumes ok: "dce_ok f" and g: "ny_nir_dce f = Some g" and k: "k < fn_len f" and r: "reached f k"
    and br: "i_op (fn_data f ! k) = NY_NIR_BR \<or> i_op (fn_data f ! k) = NY_NIR_BR_IF"
    and p: "label_pc f (i_imm (fn_data f ! k)) = Some p"
  shows "label_pc g (i_imm (fn_data f ! k)) = Some p \<and> reached f (p - 1)"
proof -
  let ?l = "i_imm (fn_data f ! k)" and ?j = "p - 1"
  have f: "verified f" "arrays_ok f" "0 < fn_next_value f"
    using ok by (simp_all add: dce_ok_def)
  have j: "0 < p" "?j < fn_len f" "i_op (fn_data f ! ?j) = NY_NIR_LABEL" "i_imm (fn_data f ! ?j) = ?l" "0 \<le> sint ?l"
    using label_pc_SomeD [OF p] by (simp_all, linarith)
  have rj: "reached f ?j"
    by (rule reached_label [OF j(2,3) k br]) (simp_all only: j(4) r)
  have lj: "live_insts f ! ?j = fn_data f ! ?j"
    by (rule reached_live [OF j(2) rj])
  let ?cur = "take ?j (live_insts f) @ live_insts f ! ?j # drop (Suc ?j) (fn_data g) @ []"
  have gk: "fn_data g ! k = fn_data f ! k"
    using dce_discarded_op(3,4) [OF ok g k _ r] br by blast
  have len: "length (fn_data g) = fn_len f"
    using dce_len [OF g] by simp
  have "?cur ! k = fn_data f ! k"
    using gk reached_live [OF k r] lj j(2) k len
    by (cases k ?j rule: linorder_cases) (auto simp: nth_append nth_Cons')
  then have "label_referenced_now f ?cur ?l"
    using k j(2) len by (intro referenced_now [OF k br refl]) auto
  then have "fn_data g ! ?j = fn_data f ! ?j"
    using dce_swept(1) [OF g f(3)] j(2,3,4) lj by (auto simp: swept_def dce_keeps_def)
  then obtain q where q: "label_pc g ?l = Some q"
    using label_table_exists [of ?j "fn_data g" ?l 0] j len by (auto simp: label_pc_def)
  have q': "0 < q" "q - 1 < fn_len f" "i_op (fn_data g ! (q - 1)) = NY_NIR_LABEL" "i_imm (fn_data g ! (q - 1)) = ?l"
    using label_pc_SomeD [OF q] len by (simp_all, linarith)
  then have gq: "fn_data g ! (q - 1) = fn_data f ! (q - 1)"
    using dce_cases [OF g f(3) q'(2)] by (auto simp: blank_inst_def zero_inst_def)
  have "q - 1 = ?j"
    by (rule verified_label_unique [OF f(1) q'(2) j(2)])
       (use q' gq j(3,4) in auto)
  then show ?thesis
    using q q'(1) j(1) rj by auto
qed

lemma reached_next:
  assumes ok: "dce_ok f" and g: "ny_nir_dce f = Some g" and k: "c_pc c < fn_len f" and r: "reached f (c_pc c)"
    and sem: "sem_at env (label_pc f) (fn_data f ! c_pc c) c = Some (Cont c')" and k': "c_pc c' < fn_len f"
  shows "reached f (c_pc c')"
proof -
  let ?i = "fn_data f ! c_pc c"
  have jump: "reached f (c_pc c')"
    if p: "label_pc f (i_imm ?i) = Some (c_pc c')" and br: "i_op ?i = NY_NIR_BR \<or> i_op ?i = NY_NIR_BR_IF"
  proof -
    have "0 < c_pc c'" "i_op (fn_data f ! (c_pc c' - 1)) = NY_NIR_LABEL"
      using label_pc_SomeD [OF p] by simp_all
    then show ?thesis
      using dce_label_pc [OF ok g k r br p] reached_Suc [of "c_pc c' - 1" f] k' by simp
  qed
  consider (br) "i_op ?i = NY_NIR_BR" | (br_if) "i_op ?i = NY_NIR_BR_IF" "label_pc f (i_imm ?i) = Some (c_pc c')"
    | (seq) "i_op ?i \<noteq> NY_NIR_BR" "c_pc c' = Suc (c_pc c)"
    using sem_at_pc [OF sem] sem_at_pc_Suc [OF sem] by blast
  then show ?thesis
  proof cases
    case br
    then show ?thesis using jump sem_at_BR [OF br sem] by simp
  next
    case br_if
    then show ?thesis using jump by simp
  next
    case seq
    have "i_op ?i \<noteq> NY_NIR_RET"
      using sem by (auto simp: sem_at_def inst_reads_def inst_sem_def finish_def split: option.splits if_splits)
    then show ?thesis
      using reached_Suc [OF k r] seq by simp
  qed
qed

lemma dce_step:
  assumes ok: "dce_ok f" and g: "ny_nir_dce f = Some g" and k: "c_pc c < fn_len f" and r: "reached f (c_pc c)"
    and agree: "agree_on (read_in g) c d" and step: "core_step env f c = Some out"
  shows "\<exists>out'. core_step env g d = Some out' \<and> out_rel (agree_on (read_in g)) out out'"
proof -
  let ?i = "fn_data f ! c_pc c"
  have pc: "c_pc d = c_pc c"
    using agree by (simp add: agree_on_def)
  have sem: "sem_at env (label_pc f) ?i c = Some out"
    using step by (simp add: core_step_def)
  show ?thesis
  proof (cases "fn_data g ! c_pc c = ?i")
    case True
    have rd: "read_in g v" if "v \<in> set (inst_reads ?i)" for v
      using that True k dce_len [OF g] by (auto simp: read_in_def)
    have "sem_at env (label_pc g) ?i c = Some out"
    proof (cases "i_op ?i = NY_NIR_BR \<or> i_op ?i = NY_NIR_BR_IF")
      case True
      have "label_pc g (i_imm ?i) = Some p" if "label_pc f (i_imm ?i) = Some p" for p
        using dce_label_pc [OF ok g k r True that] by simp
      then show ?thesis
        by (rule sem_at_branch_lbl [OF True sem])
    next
      case False
      then show ?thesis
        using sem sem_at_lbl_cong [of ?i env "label_pc g" c "label_pc f"] by simp
    qed
    then show ?thesis
      using sem_at_agree [OF agree _ rd] True pc by (simp add: core_step_def)
  next
    case False
    have none: "ny_nir_inst_effects ?i = NY_NIR_EFFECT_NONE"
      by (rule dce_discarded_op(1) [OF ok g k False r])
    obtain c' where c': "out = Cont c'" "c_mem c' = c_mem c" "c_pc c' = Suc (c_pc c)"
      by (rule effect_free_step [OF none sem])
    have "length (c_vals c') = length (c_vals c)"
      using sem_at_length sem c'(1) by blast
    moreover have "tab_get (c_vals c') v = tab_get (c_vals c) v" if "read_in g v" for v
      using sem_at_vals [OF sem [unfolded c'(1)], of v] dce_dead_dst [OF ok g k False r] that by blast
    ultimately have "agree_on (read_in g) c' (d\<lparr>c_pc := Suc (c_pc d)\<rparr>)"
      using agree c' by (simp add: agree_on_def)
    moreover have "fn_data g ! c_pc d = blank_inst"
      using dce_cases [OF g _ k] False ok pc by (auto simp: dce_ok_def)
    then have "core_step env g d = Some (Cont (d\<lparr>c_pc := Suc (c_pc d)\<rparr>))"
      by (simp add: core_step_def sem_at_def inst_sem_def blank_inst_def zero_inst_def inst_reads_def
          finish_def write_dst_def)
    ultimately show ?thesis
      using c'(1) by simp
  qed
qed

interpretation dce: lockstep_pass ny_nir_dce "\<lambda>env f. dce_ok f"
  "\<lambda>env f c d. agree_on (read_in (the (ny_nir_dce f))) c d \<and> (c_pc c < fn_len f \<longrightarrow> reached f (c_pc c))"
proof
  fix f g ls h
  assume "dce_ok f" "ny_nir_dce f = Some g"
  then show "agree_on (read_in (the (ny_nir_dce f))) (core_init f ls h) (core_init g ls h) \<and>
    (c_pc (core_init f ls h) < fn_len f \<longrightarrow> reached f (c_pc (core_init f ls h)))"
    using dce_swept(2) [of f g]
    by (simp add: agree_on_def core_init_def dce_ok_def reached_0 empty_tab_def)
next
  fix f g env c d r
  assume a: "dce_ok f" "ny_nir_dce f = Some g" "c_pc c < fn_len f" "core_step env f c = Some r"
    and rel: "agree_on (read_in (the (ny_nir_dce f))) c d \<and> (c_pc c < fn_len f \<longrightarrow> reached f (c_pc c))"
  have "\<exists>r'. core_step env g d = Some r' \<and> out_rel (agree_on (read_in g)) r r'"
    using dce_step [OF a(1,2,3) _ _ a(4)] rel a(2,3) by simp
  moreover have "reached f (c_pc c')" if "r = Cont c'" "c_pc c' < fn_len f" for c'
    using reached_next [OF a(1,2,3)] rel a(3,4) that by (simp add: core_step_def)
  ultimately show "\<exists>r'. core_step env g d = Some r' \<and>
     out_rel (\<lambda>c d. agree_on (read_in (the (ny_nir_dce f))) c d \<and>
                     (c_pc c < fn_len f \<longrightarrow> reached f (c_pc c))) r r'"
    using a(2) by (cases r) (auto elim!: out_rel.elims)
qed (auto simp: agree_on_def dest: dce_len)


section \<open>Properties\<close>

text \<open>
  C3: dead code elimination preserves runs. For a verified function whose stack-argument arrays
  have the length they claim, every successful run is matched by a run of the result with the same
  return flag, result, final memory and number of steps.
\<close>

theorem dce_preserves_runs:
  assumes "verified f" "arrays_ok f" "ny_nir_dce f = Some g" "eval_run env f ls h n = Inr s"
  shows "\<exists>t. eval_run env g ls h n = Inr t \<and> outcome_of t = outcome_of s"
proof (cases "0 < fn_next_value f")
  case True
  then show ?thesis
    using assms by (intro dce.eval_preserved) (auto simp: dce_ok_def)
next
  case False
  then show ?thesis
    using assms(3,4) by (simp add: ny_nir_dce_def)
qed

theorem dce_preserves_runs_witness:
  "\<exists>g t. ny_nir_dce sample_loop = Some g \<and> g \<noteq> sample_loop \<and>
     eval_run toy_env g [0] Map.empty 50 = Inr t \<and> o_result (outcome_of t) = 1 \<and>
     fst (o_mem (outcome_of t)) = [0]"
proof -
  have v: "verified sample_loop" and a: "arrays_ok sample_loop"
    by code_simp+
  have "ny_nir_dce sample_loop \<noteq> None" and changed: "ny_nir_dce sample_loop \<noteq> Some sample_loop"
    by code_simp+
  then obtain g where g: "ny_nir_dce sample_loop = Some g"
    by blast
  have "ok_run (\<lambda>s. o_result (outcome_of s) = 1 \<and> fst (o_mem (outcome_of s)) = [0])
      (eval_run toy_env sample_loop [0] Map.empty 50)"
    by code_simp
  then obtain s where "eval_run toy_env sample_loop [0] Map.empty 50 = Inr s" "o_result (outcome_of s) = 1"
      "fst (o_mem (outcome_of s)) = [0]"
    by (auto elim: ok_runE)
  then show ?thesis
    using dce_preserves_runs [OF v a g] g changed by fastforce
qed

end
