(* ===== verification/Nyir_Compact_Correct.thy ===== *)
theory Nyir_Compact_Correct
  imports Nyir_Copy_Correct Nyir_Dce_Correct
begin

text \<open>
  Correctness of compaction. The no-ops are removed and the values renumbered in the order of their
  definitions, so program counters and value tables of the two functions correspond through the
  position of an instruction among the remaining ones and through the renumbering.
\<close>

section \<open>The renumbering\<close>

text \<open>A table of new numbers below \<open>n\<close> in which no number occurs twice; \<open>-1\<close> marks unused entries.\<close>

definition numbering :: "int list \<Rightarrow> int \<Rightarrow> bool" where
  "numbering m n \<longleftrightarrow>
     (\<forall>u<length m. m ! u < n) \<and>
     (\<forall>u<length m. \<forall>v<length m. 0 \<le> m ! u \<longrightarrow> m ! u = m ! v \<longrightarrow> u = v)"

lemma numbering_update:
  assumes "numbering m n" "0 \<le> n"
  shows "numbering (m[k := n]) (n + 1)"
proof -
  have lt: "m ! u < n" if "u < length m" for u
    using assms(1) that by (simp add: numbering_def)
  have le: "m[k := n] ! u < n + 1" if "u < length m" for u
    using lt [OF that] that by (cases "u = k") simp_all
  have inj: "u = v" if uv: "u < length m" "v < length m" "0 \<le> m[k := n] ! u" "m[k := n] ! u = m[k := n] ! v" for u v
    using uv assms(1) lt [OF uv(1)] lt [OF uv(2)]
    by (cases "u = k"; cases "v = k") (auto simp: numbering_def)
  show ?thesis
    unfolding numbering_def using le inj by auto
qed

lemma compact_map_numbering:
  "compact_map limit n m is = Some (m', n') \<Longrightarrow> numbering m n \<Longrightarrow> 0 \<le> n \<Longrightarrow>
   numbering m' n' \<and> 0 \<le> n' \<and> length m' = length m"
proof (induction limit n m "is" rule: compact_map.induct)
  case (1 limit n m)
  then show ?case by simp
next
  case (2 limit n m i rest)
  show ?case
  proof (cases "0 \<le> i_dst i")
    case True
    then have "compact_map limit (n + 1) (m[nat (i_dst i) := n]) rest = Some (m', n')" "\<not> limit \<le> i_dst i"
      using "2.prems"(1) by (auto split: if_splits)
    then show ?thesis
      using "2.IH"(1) [OF True] numbering_update "2.prems"(2,3) by simp
  next
    case False
    then show ?thesis
      using "2.IH"(2) [OF False] "2.prems" by simp
  qed
qed

text \<open>The renumbering as a total function that keeps the sign.\<close>

definition mapped :: "int list \<Rightarrow> int \<Rightarrow> bool" where
  "mapped m v \<longleftrightarrow> m = [] \<or> nat v < length m \<and> 0 \<le> m ! nat v"

definition renum :: "int list \<Rightarrow> int \<Rightarrow> int" where
  "renum m v = (if 0 \<le> v \<and> nat v < length m \<and> 0 \<le> m ! nat v then m ! nat v else v)"

definition rename_inst :: "int list \<Rightarrow> ny_nir_inst \<Rightarrow> ny_nir_inst" where
  "rename_inst m i = (map_operands (renum m) i)\<lparr>i_dst := renum m (i_dst i)\<rparr>"

lemma renum_sign [simp]: "(renum m v < 0) = (v < 0)"
  by (auto simp: renum_def)

lemma renum_inj:
  "numbering m n \<Longrightarrow> mapped m u \<Longrightarrow> mapped m v \<Longrightarrow> 0 \<le> u \<Longrightarrow> 0 \<le> v \<Longrightarrow> renum m u = renum m v \<Longrightarrow> u = v"
  by (auto simp: numbering_def mapped_def renum_def nat_eq_iff split: if_splits)

lemma renum_less: "numbering m n \<Longrightarrow> m \<noteq> [] \<Longrightarrow> mapped m v \<Longrightarrow> 0 \<le> v \<Longrightarrow> renum m v < n"
  by (auto simp: numbering_def mapped_def renum_def)

lemma remap_value_SomeD: "nir_remap_value m v = Some w \<Longrightarrow> w = renum m v \<and> (0 \<le> v \<longrightarrow> mapped m v)"
  by (auto simp: nir_remap_value_def renum_def mapped_def split: if_splits)

lemma remap_list_SomeD:
  "remap_list m vs = Some ws \<Longrightarrow> ws = map (renum m) vs \<and> (\<forall>v \<in> set vs. 0 \<le> v \<longrightarrow> mapped m v)"
proof (induction vs arbitrary: ws)
  case (Cons v vs)
  then show ?case
    using remap_value_SomeD [of m v] by (auto split: option.splits)
qed simp

lemma remap_inst_SomeD:
  assumes "remap_inst m i = Some j"
  shows "j = rename_inst m i \<and> (\<forall>v \<in> set (i_dst i # operand_list i). 0 \<le> v \<longrightarrow> mapped m v)"
proof -
  let ?ops = "[i_dst i, i_a i, i_b i, i_c i, i_d i, i_e i, i_f i]" and ?xs = "take (i_extra_args_len i) (i_extra_args i)"
  obtain ws where ws: "remap_list m ?ops = Some ws"
    using assms unfolding remap_inst_def by (cases "remap_list m ?ops") simp_all
  then have w: "remap_list m ?ops = Some (map (renum m) ?ops)"
    using remap_list_SomeD [OF ws] by (simp only: )
  obtain xs where xs: "remap_list m ?xs = Some xs"
    using assms unfolding remap_inst_def w by (cases "remap_list m ?xs") simp_all
  then have x: "remap_list m ?xs = Some (map (renum m) ?xs)"
    using remap_list_SomeD [OF xs] by (simp only: )
  have "j = rename_inst m i"
    using assms unfolding remap_inst_def w x
    by (cases i; cases j) (simp add: rename_inst_def map_operands_def map_prefix_def)
  moreover have "\<forall>v \<in> set (i_dst i # operand_list i). 0 \<le> v \<longrightarrow> mapped m v"
    using remap_list_SomeD [OF ws] remap_list_SomeD [OF xs] by (simp add: operand_list_def ball_Un)
  ultimately show ?thesis
    by blast
qed

lemma remap_insts_SomeD:
  "remap_insts m is = Some js \<Longrightarrow>
   js = map (rename_inst m) is \<and> (\<forall>i \<in> set is. \<forall>v \<in> set (i_dst i # operand_list i). 0 \<le> v \<longrightarrow> mapped m v)"
proof (induction "is" arbitrary: js)
  case (Cons i rest)
  then show ?case
    using remap_inst_SomeD [of m i] by (auto split: option.splits)
qed simp

section \<open>The compacted function\<close>

abbreviation kept :: "ny_nir_inst \<Rightarrow> bool" where
  "kept i \<equiv> i_op i \<noteq> NY_NIR_NOP"

definition compact_table :: "ny_nir_func \<Rightarrow> int list" where
  "compact_table f =
     (if fn_data f = [] \<or> fn_next_value f \<le> 0 then []
      else (case compact_map (fn_next_value f) 0 (replicate (nat (fn_next_value f)) (-1)) (filter kept (fn_data f)) of
              None \<Rightarrow> [] | Some (m, n) \<Rightarrow> m))"

lemma rename_id [simp]: "rename_inst [] = id"
proof -
  have "renum [] = id"
    by (auto simp: renum_def)
  then show ?thesis
    by (intro ext) (simp add: rename_inst_def map_operands_def map_prefix_def)
qed

lemma compact_SomeD:
  assumes "ny_nir_compact f = Some g"
  shows "fn_data g = map (rename_inst (compact_table f)) (filter kept (fn_data f))"
    and "numbering (compact_table f) (fn_next_value g)"
    and "\<And>i v. i \<in> set (fn_data f) \<Longrightarrow> kept i \<Longrightarrow> v = i_dst i \<or> v \<in> set (operand_list i) \<Longrightarrow> 0 \<le> v \<Longrightarrow>
           mapped (compact_table f) v"
    and "compact_table f = [] \<Longrightarrow> fn_data f \<noteq> [] \<Longrightarrow> fn_next_value f \<le> 0"
    and "compact_table f = [] \<Longrightarrow> fn_next_value g = fn_next_value f"
proof -
  let ?m = "compact_table f" and ?k = "filter kept (fn_data f)" and ?n = "fn_next_value f"
  let ?goal = "fn_data g = map (rename_inst ?m) ?k \<and> numbering ?m (fn_next_value g) \<and>
    (\<forall>i \<in> set ?k. \<forall>v \<in> set (i_dst i # operand_list i). 0 \<le> v \<longrightarrow> mapped ?m v) \<and>
    (?m = [] \<longrightarrow> fn_data f \<noteq> [] \<longrightarrow> ?n \<le> 0) \<and> (?m = [] \<longrightarrow> fn_next_value g = ?n)"
  have ?goal
  proof (cases "fn_data f = [] \<or> ?n \<le> 0")
    case True
    then have m: "?m = []" and g: "fn_next_value g = ?n" "fn_data g = ?k"
      using assms by (auto simp: compact_table_def ny_nir_compact_def Let_def split: if_splits)
    then show ?thesis
      using True by (auto simp: numbering_def mapped_def)
  next
    case False
    let ?r = "replicate (nat ?n) (-1 :: int)"
    obtain m n js where c: "compact_map ?n 0 ?r ?k = Some (m, n)" "remap_insts m ?k = Some js"
        "g = f\<lparr>fn_data := js, fn_next_value := n\<rparr>"
      using assms False by (auto simp: ny_nir_compact_def Let_def split: option.splits prod.splits)
    have "numbering ?r 0"
      by (simp add: numbering_def)
    then have num: "numbering m n" "length m = nat ?n"
      using compact_map_numbering [OF c(1)] by auto
    have "?m = m"
      using False c(1) by (simp add: compact_table_def)
    then show ?thesis
      using num False c(3) remap_insts_SomeD [OF c(2)] by auto
  qed
  then show "fn_data g = map (rename_inst ?m) ?k" "numbering ?m (fn_next_value g)"
    "\<And>i v. i \<in> set (fn_data f) \<Longrightarrow> kept i \<Longrightarrow> v = i_dst i \<or> v \<in> set (operand_list i) \<Longrightarrow> 0 \<le> v \<Longrightarrow> mapped ?m v"
    "?m = [] \<Longrightarrow> fn_data f \<noteq> [] \<Longrightarrow> ?n \<le> 0" "?m = [] \<Longrightarrow> fn_next_value g = ?n"
    by auto
qed

section \<open>Positions\<close>

definition new_pc :: "ny_nir_func \<Rightarrow> nat \<Rightarrow> nat" where
  "new_pc f k = length (filter kept (take k (fn_data f)))"

lemma new_pc_0 [simp]: "new_pc f 0 = 0"
  by (simp add: new_pc_def)

lemma new_pc_Suc: "k < fn_len f \<Longrightarrow> new_pc f (Suc k) = (if kept (fn_data f ! k) then Suc (new_pc f k) else new_pc f k)"
  by (simp add: new_pc_def take_Suc_conv_app_nth)

lemma filter_nth_count:
  "k < length xs \<Longrightarrow> P (xs ! k) \<Longrightarrow>
   length (filter P (take k xs)) < length (filter P xs) \<and> filter P xs ! length (filter P (take k xs)) = xs ! k"
proof (induction xs arbitrary: k)
  case (Cons x xs)
  then show ?case
    by (cases k) auto
qed simp

lemma new_pc_nth:
  assumes "ny_nir_compact f = Some g" "k < fn_len f" "kept (fn_data f ! k)"
  shows "new_pc f k < fn_len g" and "fn_data g ! new_pc f k = rename_inst (compact_table f) (fn_data f ! k)"
  using filter_nth_count [of k "fn_data f" kept] assms(2,3) compact_SomeD(1) [OF assms(1)] by (simp_all add: new_pc_def)

lemma label_table_filter:
  "label_table k' (map (rename_inst m) (filter kept is)) l =
   map_option (\<lambda>p. k' + length (filter kept (take (p - k) is))) (label_table k is l)"
proof (induction "is" arbitrary: k k')
  case Nil
  then show ?case by simp
next
  case (Cons i rest)
  have shift: "length (filter kept (take (p - k) (i # rest))) = (if kept i then 1 else 0) + length (filter kept (take (p - Suc k) rest))"
    if "label_table (Suc k) rest l = Some p" for p
  proof -
    have "p - k = Suc (p - Suc k)"
      using label_table_SomeD [OF that] by auto
    then show ?thesis by simp
  qed
  have keep: "i_op (rename_inst m i) = i_op i" "i_imm (rename_inst m i) = i_imm i"
    by (simp_all add: rename_inst_def map_operands_def)
  have ih: "label_table n (map (rename_inst m) (filter kept rest)) l =
      map_option (\<lambda>p. n + length (filter kept (take (p - Suc k) rest))) (label_table (Suc k) rest l)" for n
    by (rule Cons.IH)
  show ?case
    using shift ih
    by (cases "label_table (Suc k) rest l") (auto simp: keep map_add_def)
qed

lemma label_pc_compact:
  "ny_nir_compact f = Some g \<Longrightarrow> label_pc g l = map_option (new_pc f) (label_pc f l)"
  using label_table_filter [where k = 0] by (simp add: label_pc_def compact_SomeD(1) new_pc_def [abs_def])

section \<open>One step\<close>

definition compact_rel :: "ny_nir_func \<Rightarrow> core \<Rightarrow> core \<Rightarrow> bool" where
  "compact_rel f c d \<longleftrightarrow>
     (\<exists>g. ny_nir_compact f = Some g \<and> length (c_vals d) = nat (fn_next_value g)) \<and>
     length (c_vals c) = nat (fn_next_value f) \<and>
     c_pc d = new_pc f (c_pc c) \<and> c_mem d = c_mem c \<and>
     (\<forall>v\<ge>0. mapped (compact_table f) v \<longrightarrow>
        tab_get (c_vals d) (renum (compact_table f) v) = tab_get (c_vals c) v)"

lemma rename_sem:
  "inst_sem env lbl (rename_inst m i) vs mem = inst_sem env lbl i vs mem"
proof -
  have "inst_sem env lbl (j\<lparr>i_dst := d\<rparr>) vs mem = inst_sem env lbl j vs mem" if "(d < 0) = (i_dst j < 0)" for j d
  proof -
    have "(0 \<le> d) = (0 \<le> i_dst j)"
      using that by linarith
    then have "call_sem env (j\<lparr>i_dst := d\<rparr>) vs mem = call_sem env j vs mem"
      by (simp add: call_sem_def split: option.splits sum.splits prod.splits)
    then show ?thesis
      using that
      by (cases "i_op j") (simp_all add: inst_sem_def local_ok_def jump_sem_def pure_value_def binary_value_def)
  qed
  then show ?thesis
    using map_operands_sem [of "renum m"] by (simp add: rename_inst_def frame_simps)
qed

lemma rename_reads: "extra_args_ok i \<Longrightarrow> inst_reads (rename_inst m i) = map (renum m) (inst_reads i)"
proof -
  assume x: "extra_args_ok i"
  have "inst_reads (j\<lparr>i_dst := d\<rparr>) = inst_reads j" for j d
    by (cases "i_op j") (simp_all add: inst_reads_def call_operand_def [abs_def])
  moreover have "renum m (-1) = -1"
    by (simp add: renum_def)
  ultimately show ?thesis
    using map_operands_reads [OF x, of "renum m"] by (simp add: rename_inst_def)
qed

lemma inst_sem_lbl:
  assumes "inst_sem env lbl i vs m = Some (Flow x m' p)" "\<And>l. lbl' l = map_option h (lbl l)"
  shows "inst_sem env lbl' i vs m = Some (Flow x m' (map_option h p))"
  using assms
  by (cases "i_op i")
     (auto simp: inst_sem_def jump_sem_def call_sem_def split: if_splits option.splits sum.splits)

lemma inst_sem_Return_lbl:
  "inst_sem env lbl i vs m = Some (Return v) \<Longrightarrow> inst_sem env lbl' i vs m = Some (Return v)"
  by (cases "i_op i")
     (auto simp: inst_sem_def jump_sem_def call_sem_def split: if_splits option.splits sum.splits)

lemma rel_reads:
  assumes rel: "compact_rel f c d" and k: "c_pc c < fn_len f" "kept (fn_data f ! c_pc c)"
    and x: "extra_args_ok (fn_data f ! c_pc c)" and r: "reads (c_vals c) (inst_reads (fn_data f ! c_pc c)) = Some vs"
  shows "reads (c_vals d) (inst_reads (rename_inst (compact_table f) (fn_data f ! c_pc c))) = Some vs"
proof -
  let ?i = "fn_data f ! c_pc c" and ?m = "compact_table f"
  obtain g where g: "ny_nir_compact f = Some g"
    using rel by (auto simp: compact_rel_def)
  have "tab_get (c_vals d) (renum ?m u) = tab_get (c_vals c) u" if u: "u \<in> set (inst_reads ?i)" for u
  proof -
    obtain y where "tab_get (c_vals c) u = Some y"
      using reads_known [OF r u] by blast
    then have "0 \<le> u"
      by (auto dest: tab_get_SomeD)
    moreover have "mapped ?m u"
      using compact_SomeD(3) [OF g nth_mem [OF k(1)] k(2)] reads_in_operands [OF u _ x] calculation by simp
    ultimately show ?thesis
      using rel by (simp add: compact_rel_def)
  qed
  then show ?thesis
    using reads_map [of "inst_reads ?i" "c_vals d" "renum ?m" "c_vals c"] r rename_reads [OF x] by simp
qed

lemma rel_write:
  assumes rel: "compact_rel f c d" and k: "c_pc c < fn_len f" "kept (fn_data f ! c_pc c)"
    and w: "write_dst (fn_data f ! c_pc c) x (c_vals c) = Some t"
  obtains u where "write_dst (rename_inst (compact_table f) (fn_data f ! c_pc c)) x (c_vals d) = Some u"
    "\<And>q m. compact_rel f \<lparr>c_vals = t, c_mem = m, c_pc = q\<rparr> \<lparr>c_vals = u, c_mem = m, c_pc = new_pc f q\<rparr>"
proof (cases x)
  case None
  then have "write_dst (rename_inst (compact_table f) (fn_data f ! c_pc c)) x (c_vals d) = Some (c_vals d)" "t = c_vals c"
    using w by (simp_all add: write_dst_def)
  then show ?thesis
    using that rel by (simp add: compact_rel_def)
next
  case (Some v)
  let ?i = "fn_data f ! c_pc c" and ?m = "compact_table f" and ?d = "i_dst (fn_data f ! c_pc c)"
  obtain g where g: "ny_nir_compact f = Some g" "length (c_vals d) = nat (fn_next_value g)"
    using rel by (auto simp: compact_rel_def)
  have dst: "0 \<le> ?d" "nat ?d < nat (fn_next_value f)" "t = (c_vals c)[nat ?d := Some v]"
    using w Some rel by (auto simp: write_dst_def compact_rel_def split: if_splits)
  have md: "mapped ?m ?d"
    using compact_SomeD(3) [OF g(1) nth_mem [OF k(1)] k(2)] dst(1) by simp
  have "?m \<noteq> []"
    using compact_SomeD(4) [OF g(1)] k(1) dst(2) by (cases "fn_data f") auto
  then have lt: "renum ?m ?d < fn_next_value g" "0 \<le> renum ?m ?d"
    using renum_less [OF compact_SomeD(2) [OF g(1)] _ md dst(1)] renum_sign [of ?m ?d] dst(1) by (blast, linarith)
  let ?u = "(c_vals d)[nat (renum ?m ?d) := Some v]"
  have wr: "write_dst (rename_inst ?m ?i) x (c_vals d) = Some ?u"
    using Some lt g(2) by (simp add: write_dst_def rename_inst_def frame_simps)
  have "tab_get ?u (renum ?m a) = tab_get t a" if a: "0 \<le> a" "mapped ?m a" for a
  proof (cases "a = ?d")
    case True
    then show ?thesis
      using dst rel lt g(2) by (simp add: tab_get_def compact_rel_def)
  next
    case False
    then have ne: "renum ?m a \<noteq> renum ?m ?d"
      using renum_inj [OF compact_SomeD(2) [OF g(1)] a(2) md a(1) dst(1)] by blast
    have "0 \<le> renum ?m a"
      using renum_sign [of ?m a] a(1) by linarith
    then have "tab_get ?u (renum ?m a) = tab_get (c_vals d) (renum ?m a)"
      using ne lt(2) by (simp add: tab_get_def nth_list_update nat_eq_iff)
    also have "\<dots> = tab_get (c_vals c) a"
      using rel a by (simp add: compact_rel_def)
    finally show ?thesis
      using False a(1) dst by (simp add: tab_get_def nth_list_update nat_eq_iff)
  qed
  then show ?thesis
    using that [OF wr] rel g dst(3) by (auto simp: compact_rel_def)
qed

lemma compact_step:
  assumes g: "ny_nir_compact f = Some g" and rel: "compact_rel f c d" and x: "arrays_ok f"
    and k: "c_pc c < fn_len f" "kept (fn_data f ! c_pc c)" and r: "core_step env f c = Some r"
  shows "c_pc d < fn_len g \<and> (\<exists>r'. core_step env g d = Some r' \<and> out_rel (compact_rel f) r r')"
proof -
  let ?i = "fn_data f ! c_pc c" and ?m = "compact_table f"
  have pc: "c_pc d = new_pc f (c_pc c)" and mem: "c_mem d = c_mem c"
    using rel by (auto simp: compact_rel_def)
  obtain vs out where o: "reads (c_vals c) (inst_reads ?i) = Some vs"
      "inst_sem env (label_pc f) ?i vs (c_mem c) = Some out" "finish ?i c out = Some r"
    using r by (auto simp: core_step_def sem_at_def split: option.splits)
  have step: "core_step env g d = (case inst_sem env (label_pc g) ?i vs (c_mem c) of None \<Rightarrow> None
      | Some out \<Rightarrow> finish (rename_inst ?m ?i) d out)"
    using new_pc_nth [OF g k] rel_reads [OF rel k arrays_okD [OF x k(1)] o(1)] pc mem
    by (simp add: core_step_def sem_at_def rename_sem)
  show ?thesis
  proof (cases out)
    case (Return v)
    then show ?thesis
      using o(3) step inst_sem_Return_lbl [of env "label_pc f" ?i vs "c_mem c" v "label_pc g"] o(2) mem
        new_pc_nth(1) [OF g k] pc
      by (auto simp: finish_def)
  next
    case (Flow y m p)
    have sem: "inst_sem env (label_pc g) ?i vs (c_mem c) = Some (Flow y m (map_option (new_pc f) p))"
      using inst_sem_lbl [OF o(2) [unfolded Flow] label_pc_compact [OF g]] .
    obtain t where t: "write_dst ?i y (c_vals c) = Some t"
        "r = Cont \<lparr>c_vals = t, c_mem = m, c_pc = (case p of None \<Rightarrow> Suc (c_pc c) | Some q \<Rightarrow> q)\<rparr>"
      using o(3) Flow by (auto simp: finish_def)
    obtain u where u: "write_dst (rename_inst ?m ?i) y (c_vals d) = Some u"
        "\<And>q m. compact_rel f \<lparr>c_vals = t, c_mem = m, c_pc = q\<rparr> \<lparr>c_vals = u, c_mem = m, c_pc = new_pc f q\<rparr>"
      using rel_write [OF rel k t(1)] by blast
    have "(case map_option (new_pc f) p of None \<Rightarrow> Suc (c_pc d) | Some q \<Rightarrow> q) =
        new_pc f (case p of None \<Rightarrow> Suc (c_pc c) | Some q \<Rightarrow> q)"
      using pc new_pc_Suc [OF k(1)] k(2) by (cases p) simp_all
    then show ?thesis
      using step sem t u new_pc_nth(1) [OF g k] pc by (simp add: finish_def)
  qed
qed

interpretation compact: simulating_pass ny_nir_compact "\<lambda>env f. arrays_ok f" "\<lambda>env f c d. compact_rel f c d"
proof
  fix env f g ls h
  assume g: "ny_nir_compact f = Some g"
  then show "compact_rel f (core_init f ls h) (core_init g ls h)"
    by (auto simp: compact_rel_def core_init_def)
next
  fix env f g and c d :: core
  assume g: "ny_nir_compact f = Some g" and rel: "compact_rel f c d" and k: "\<not> c_pc c < fn_len f"
  have "c_pc d = fn_len g"
    using rel k compact_SomeD(1) [OF g] by (simp add: compact_rel_def new_pc_def)
  then show "\<exists>n d'. core_iter env g n d = Some d' \<and> \<not> c_pc d' < fn_len g \<and> c_mem d' = c_mem c"
    using rel by (intro exI [of _ 0]) (auto simp: compact_rel_def)
next
  fix env f g v m and c d :: core
  assume a: "arrays_ok f" "ny_nir_compact f = Some g" "compact_rel f c d" "c_pc c < fn_len f"
    "core_step env f c = Some (Stop v m)"
  then have "kept (fn_data f ! c_pc c)"
    using sem_at_no_stop [of env "label_pc f" "fn_data f ! c_pc c" c v m] by (auto simp: core_step_def)
  then obtain r' where "c_pc d < fn_len g" "core_step env g d = Some r'" "out_rel (compact_rel f) (Stop v m) r'"
    using compact_step [OF a(2,3,1,4) _ a(5)] by blast
  then show "\<exists>n d'. core_iter env g n d = Some d' \<and> c_pc d' < fn_len g \<and> core_step env g d' = Some (Stop v m)"
    by (intro exI [of _ 0]) (cases r'; simp)
next
  fix env f g c' and c d :: core
  assume a: "arrays_ok f" "ny_nir_compact f = Some g" "compact_rel f c d" "c_pc c < fn_len f"
    "core_step env f c = Some (Cont c')"
  show "\<exists>n d'. core_iter env g n d = Some d' \<and> compact_rel f c' d'"
  proof (cases "kept (fn_data f ! c_pc c)")
    case True
    then obtain r' where r: "c_pc d < fn_len g" "core_step env g d = Some r'" "out_rel (compact_rel f) (Cont c') r'"
      using compact_step [OF a(2,3,1,4) _ a(5)] by blast
    then obtain d' where "r' = Cont d'" "compact_rel f c' d'"
      by (cases r') simp_all
    then show ?thesis
      using r by (intro exI [of _ 1] exI [of _ d']) simp
  next
    case False
    then have "c' = c\<lparr>c_pc := Suc (c_pc c)\<rparr>"
      using a(5) by (auto simp: core_step_def sem_at_def inst_reads_def inst_sem_def finish_def write_dst_def)
    then have "compact_rel f c' d"
      using a(3) new_pc_Suc [OF a(4)] False by (simp add: compact_rel_def)
    then show ?thesis
      by (intro exI [of _ 0] exI [of _ d]) simp
  qed
qed

section \<open>Properties\<close>

text \<open>A loop with no-ops and values that are not numbered in order.\<close>

definition sample_compact :: ny_nir_func where
  "sample_compact = nfunc
     [ni NY_NIR_CONST_I64 4 (-1) (-1) 3, ni NY_NIR_NOP (-1) (-1) (-1) 0,
      ni NY_NIR_STORE_LOCAL (-1) 4 (-1) 0, ni NY_NIR_LABEL (-1) (-1) (-1) 1,
      ni NY_NIR_LOAD_LOCAL 1 (-1) (-1) 0, ni NY_NIR_NOP (-1) (-1) (-1) 0,
      ni NY_NIR_CONST_I64 6 (-1) (-1) 1, ni NY_NIR_SUB_I64 3 1 6 0,
      ni NY_NIR_STORE_LOCAL (-1) 3 (-1) 0, ni NY_NIR_BR_IF (-1) 3 (-1) 1,
      ni NY_NIR_ADD_I64 5 4 6 0, ni NY_NIR_RET (-1) 5 (-1) 0] 7"

text \<open>
  C12: compaction preserves runs. Whenever compaction succeeds and the original function finishes,
  the compacted function finishes as well under every step limit that is large enough, with the
  same return flag, result, locals and heap.
\<close>

theorem compact_preserves_runs:
  assumes "arrays_ok f" "ny_nir_compact f = Some g" "eval_run env f ls h n = Inr s"
  shows "\<exists>k. \<forall>n\<ge>k. \<exists>t. eval_run env g ls h n = Inr t \<and> verdict_of (outcome_of t) = verdict_of (outcome_of s)"
  using assms by (intro compact.verdict_preserved)

theorem compact_preserves_runs_witness:
  "\<exists>g k t. ny_nir_compact sample_compact = Some g \<and> fn_len g = 10 \<and> fn_next_value g = 5 \<and>
     eval_run toy_env g [0] Map.empty k = Inr t \<and> o_result (outcome_of t) = 4"
proof -
  have v: "arrays_ok sample_compact"
    by code_simp
  have "case ny_nir_compact sample_compact of None \<Rightarrow> False | Some g \<Rightarrow> fn_len g = 10 \<and> fn_next_value g = 5"
    by code_simp
  then obtain g where g: "ny_nir_compact sample_compact = Some g" "fn_len g = 10" "fn_next_value g = 5"
    by (auto split: option.splits)
  have "ok_run (\<lambda>s. o_result (outcome_of s) = 4) (eval_run toy_env sample_compact [0] Map.empty 90)"
    by code_simp
  then obtain s where s: "eval_run toy_env sample_compact [0] Map.empty 90 = Inr s" "o_result (outcome_of s) = 4"
    by (rule ok_runE)
  then obtain k t where "eval_run toy_env g [0] Map.empty k = Inr t" "o_result (outcome_of t) = 4"
    using compact_preserves_runs [OF v g(1) s(1)] by (auto simp: verdict_of_def)
  then show ?thesis
    using g by blast
qed

end
