(* ===== verification/Nyir_Pipeline_Correct.thy ===== *)
theory Nyir_Pipeline_Correct
  imports Nyir_Refresh_Correct Nyir_Fold_Correct Nyir_Copy_Correct Nyir_Cfg_Correct Nyir_Compact_Correct
begin

text \<open>
  Correctness of the optimizer pipelines, composed of the simulations of the passes. Each pass has a
  condition under which it preserves runs; the conditions are checked on the functions the pipeline
  hands from pass to pass, in the manner of translation validation.
\<close>

section \<open>Passes that preserve verdicts\<close>

definition preserving :: "(ny_nir_func \<Rightarrow> bool) \<Rightarrow> (ny_nir_func \<Rightarrow> ny_nir_func option) \<Rightarrow> bool" where
  "preserving cond pass \<longleftrightarrow>
     (\<forall>env f g ls h r. cond f \<longrightarrow> pass f = Some g \<longrightarrow>
        halts_with env f (core_init f ls h) r \<longrightarrow> halts_with env g (core_init g ls h) r)"

lemma preservingI:
  "(\<And>env f g ls h r. cond f \<Longrightarrow> pass f = Some g \<Longrightarrow> halts_with env f (core_init f ls h) r \<Longrightarrow>
      halts_with env g (core_init g ls h) r) \<Longrightarrow> preserving cond pass"
  by (auto simp: preserving_def)

text \<open>The conditions of the eight passes of the pipeline, in their order.\<close>

definition fold_cond :: "ny_nir_func \<Rightarrow> bool" where
  "fold_cond f \<longleftrightarrow> verified f \<and> stores_untracked f"

definition peephole_cond :: "ny_nir_func \<Rightarrow> bool" where
  "peephole_cond f \<longleftrightarrow> verified f \<and> arrays_ok f \<and> facts_sound_for f"

definition copy_cond :: "(nat \<Rightarrow> int \<Rightarrow> bool) \<Rightarrow> (nat \<Rightarrow> int \<Rightarrow> bool) \<Rightarrow> ny_nir_func \<Rightarrow> bool" where
  "copy_cond sy un f \<longleftrightarrow> verified f \<and> arrays_ok f \<and> copies_in_sync f sy un"

definition dce_cond :: "ny_nir_func \<Rightarrow> bool" where
  "dce_cond f \<longleftrightarrow> verified f \<and> arrays_ok f"

definition opt_conditions :: "(nat \<Rightarrow> int \<Rightarrow> bool) \<Rightarrow> (nat \<Rightarrow> int \<Rightarrow> bool) \<Rightarrow> (ny_nir_func \<Rightarrow> bool) list" where
  "opt_conditions sy un =
     [fold_cond, peephole_cond, copy_cond sy un, fold_cond, verified, dce_cond, verified, arrays_ok]"

lemma fold_preserving: "preserving fold_cond ny_nir_const_fold"
  by (rule preservingI, rule const_fold.halts_preserved [OF _ _ _ const_fold.sim_init])
     (auto simp: fold_cond_def)

lemma peephole_preserving: "preserving peephole_cond ny_nir_peephole"
  by (rule preservingI, rule peephole.halts_preserved [OF _ _ _ peephole.sim_init])
     (auto simp: peephole_cond_def)

lemma copy_preserving: "preserving (copy_cond sy un) ny_nir_copy_prop"
  by (rule preservingI, rule copy_prop.halts_preserved [OF _ _ _ copy_prop.sim_init])
     (auto simp: copy_cond_def copy_prop_ok_def)

lemma cfg_preserving: "preserving verified ny_nir_cfg_simplify"
  by (rule preservingI, rule cfg_simplify.halts_preserved [OF _ _ _ cfg_simplify.sim_init]) auto

lemma dce_preserving: "preserving dce_cond ny_nir_dce"
proof (rule preservingI)
  fix env f g ls h r
  assume a: "dce_cond f" "ny_nir_dce f = Some g" "halts_with env f (core_init f ls h) r"
  show "halts_with env g (core_init g ls h) r"
  proof (cases "0 < fn_next_value f")
    case True
    then have "dce_ok f"
      using a(1) by (simp add: dce_cond_def dce_ok_def)
    then show ?thesis
      using dce.halts_preserved a dce.sim_init by blast
  next
    case False
    then show ?thesis
      using a by (simp add: ny_nir_dce_def)
  qed
qed

lemma compact_preserving: "preserving arrays_ok ny_nir_compact"
  by (rule preservingI, rule compact.halts_preserved [OF _ _ _ compact.sim_init]) auto

lemmas pass_preserving = fold_preserving peephole_preserving copy_preserving cfg_preserving
  dce_preserving compact_preserving

lemma refresh_halts:
  "calls_ok f \<Longrightarrow> halts_with env f (core_init f ls h) r \<Longrightarrow>
   halts_with env (ny_nir_refresh_metadata f) (core_init (ny_nir_refresh_metadata f) ls h) r"
  by (rule refresh.halts_preserved [OF _ _ _ refresh.sim_init]) auto

section \<open>The pipeline\<close>

fun stages_ok ::
  "(ny_nir_func \<Rightarrow> bool) list \<Rightarrow> (ny_nir_func \<Rightarrow> ny_nir_func option) list \<Rightarrow> ny_nir_func \<Rightarrow> bool" where
  "stages_ok (cond # conds) (p # ps) f \<longleftrightarrow>
     cond f \<and> (case p f of None \<Rightarrow> True | Some g \<Rightarrow> calls_ok g \<and> stages_ok conds ps (ny_nir_refresh_metadata g))"
| "stages_ok conds ps f \<longleftrightarrow> calls_ok f"

lemma run_passes_halts:
  "list_all2 preserving conds ps \<Longrightarrow> stages_ok conds ps f \<Longrightarrow> run_passes ps f = Some g \<Longrightarrow>
   halts_with env f (core_init f ls h) r \<Longrightarrow> halts_with env g (core_init g ls h) r \<and> calls_ok g"
proof (induction conds ps f rule: stages_ok.induct)
  case (1 cond conds p ps f)
  obtain g' where p: "p f = Some g'" and rest: "run_passes ps (ny_nir_refresh_metadata g') = Some g"
    using "1.prems"(3) by (auto simp: timed_pass_def split: option.splits)
  have "preserving cond p" "cond f"
    using "1.prems"(1,2) by simp_all
  then have "halts_with env g' (core_init g' ls h) r"
    using "1.prems"(4) p by (simp only: preserving_def)
  then have "halts_with env (ny_nir_refresh_metadata g') (core_init (ny_nir_refresh_metadata g') ls h) r"
    using refresh_halts "1.prems"(2) p by simp
  then show ?case
    using "1.IH" [OF p] "1.prems"(1,2) p rest by simp
qed simp_all

lemma opt_conditions_preserving: "list_all2 preserving (opt_conditions sy un) opt_passes"
  by (simp add: opt_conditions_def opt_passes_def pass_preserving)

lemma optimize_halts:
  assumes "stages_ok (opt_conditions sy un) opt_passes f" "ny_nir_optimize f = Some g"
    "halts_with env f (core_init f ls h) r"
  shows "halts_with env g (core_init g ls h) r"
proof -
  obtain g' where "run_passes opt_passes f = Some g'" "g = ny_nir_refresh_metadata g'"
    using assms(2) by (auto simp: ny_nir_optimize_def)
  then show ?thesis
    using run_passes_halts [OF opt_conditions_preserving assms(1) _ assms(3)] refresh_halts by blast
qed

lemma run_passes_verified_run:
  "run_passes_verified ps f = Some g \<Longrightarrow> run_passes ps f = Some g \<and> (ps \<noteq> [] \<longrightarrow> verified g)"
proof (induction ps arbitrary: f)
  case (Cons p ps)
  then show ?case
    by (cases "ps = []")
       (auto simp: timed_pass_verified_def split: option.splits if_splits)
qed simp

section \<open>Properties\<close>

text \<open>
  C13: the optimizer preserves runs. If every function handed to a pass satisfies the condition of
  that pass, then whenever the original function finishes, the optimized function finishes under
  every large enough step limit, with the same return flag, result, locals and heap.
\<close>

theorem optimize_preserves_runs:
  assumes "stages_ok (opt_conditions sy un) opt_passes f" "ny_nir_optimize f = Some g"
    and "eval_run env f ls h n = Inr s"
  shows "\<exists>k. \<forall>n\<ge>k. \<exists>t. eval_run env g ls h n = Inr t \<and> verdict_of (outcome_of t) = verdict_of (outcome_of s)"
  by (rule halts_eval_run) (rule optimize_halts [OF assms(1,2) eval_run_halts [OF assms(3)]])

text \<open>Straight-line arithmetic on a parameter, a dead product, a constant branch and a copy chain.\<close>

definition sample_opt :: ny_nir_func where
  "sample_opt = nfunc
     [ni NY_NIR_LOAD_LOCAL 0 (-1) (-1) 0, ni NY_NIR_CONST_I64 1 (-1) (-1) 0, ni NY_NIR_ADD_I64 2 0 1 0,
      ni NY_NIR_COPY 3 2 (-1) 0, ni NY_NIR_MUL_I64 4 3 3 0, ni NY_NIR_CONST_I64 5 (-1) (-1) 1,
      ni NY_NIR_BR_IF (-1) 5 (-1) 8, ni NY_NIR_RET (-1) 1 (-1) 0, ni NY_NIR_LABEL (-1) (-1) (-1) 8,
      ni NY_NIR_ADD_I64 6 3 5 0, ni NY_NIR_RET (-1) 6 (-1) 0] 7"

theorem optimize_preserves_runs_witness:
  "\<exists>g k t. ny_nir_optimize sample_opt = Some g \<and> fn_len g < fn_len sample_opt \<and>
     eval_run toy_env g [41] Map.empty k = Inr t \<and> o_result (outcome_of t) = 42"
proof -
  have st: "stages_ok (opt_conditions (\<lambda>k v. True) (\<lambda>k v. \<not> list_ex (\<lambda>i. i_dst i = v) (take k (fn_data sample_opt))))
      opt_passes sample_opt"
    by code_simp
  have "case ny_nir_optimize sample_opt of None \<Rightarrow> False | Some g \<Rightarrow> fn_len g < fn_len sample_opt"
    by code_simp
  then obtain g where g: "ny_nir_optimize sample_opt = Some g" "fn_len g < fn_len sample_opt"
    by (auto split: option.splits)
  have "ok_run (\<lambda>s. o_result (outcome_of s) = 42) (eval_run toy_env sample_opt [41] Map.empty 50)"
    by code_simp
  then obtain s where s: "eval_run toy_env sample_opt [41] Map.empty 50 = Inr s" "o_result (outcome_of s) = 42"
    by (rule ok_runE)
  then obtain k t where "eval_run toy_env g [41] Map.empty k = Inr t" "o_result (outcome_of t) = 42"
    using optimize_preserves_runs [OF st g(1) s(1)] by (auto simp: verdict_of_def)
  then show ?thesis
    using g by blast
qed

text \<open>
  The debug pipeline, which runs the verifier after every pass, produces what the release
  pipeline produces, and what reaches the final refresh passes the verifier.
\<close>

theorem optimize_debug_agrees:
  assumes "ny_nir_optimize_debug f = Some g"
  shows "ny_nir_optimize f = Some g \<and> (\<exists>g'. g = ny_nir_refresh_metadata g' \<and> ny_nir_verify g' = None)"
proof -
  obtain g' where g': "run_passes_verified opt_passes f = Some g'" "g = ny_nir_refresh_metadata g'"
    using assms by (auto simp: ny_nir_optimize_debug_def)
  then show ?thesis
    using run_passes_verified_run [OF g'(1)]
    by (auto simp: ny_nir_optimize_def opt_passes_def)
qed

theorem optimize_debug_agrees_witness:
  "ny_nir_optimize_debug sample_opt \<noteq> None \<and> ny_nir_optimize_debug sample_opt = ny_nir_optimize sample_opt"
proof -
  have "ny_nir_optimize_debug sample_opt \<noteq> None"
    by code_simp
  then show ?thesis
    using optimize_debug_agrees [of sample_opt] by fastforce
qed

end
