(* ===== verification/Nyir_Binary.thy ===== *)
theory Nyir_Binary
  imports Nyir_Verify
begin

text \<open>
  The versioned binary format of \<open>src/code/native/ir/binary.c\<close>. A file is the list of its bytes:
  the writers produce bytes, the readers consume a prefix of the remaining bytes or fail.
\<close>

section \<open>Writers\<close>

type_synonym bytes = "u8 list"

definition ny_nir_write_u8 :: "u8 \<Rightarrow> bytes" where
  "ny_nir_write_u8 v = [v]"

definition ny_nir_write_u16le :: "u16 \<Rightarrow> bytes" where
  "ny_nir_write_u16le v = [ucast (v AND 0xff), ucast (drop_bit 8 v AND 0xff)]"

definition ny_nir_write_u32le :: "u32 \<Rightarrow> bytes" where
  "ny_nir_write_u32le v =
     [ucast (v AND 0xff), ucast (drop_bit 8 v AND 0xff), ucast (drop_bit 16 v AND 0xff),
      ucast (drop_bit 24 v AND 0xff)]"

definition ny_nir_write_i32le :: "int \<Rightarrow> bytes" where
  "ny_nir_write_i32le v = ny_nir_write_u32le (word_of_int v)"

definition ny_nir_write_i64le :: "i64 \<Rightarrow> bytes" where
  "ny_nir_write_i64le u =
     [ucast (u AND 0xff), ucast (drop_bit 8 u AND 0xff), ucast (drop_bit 16 u AND 0xff),
      ucast (drop_bit 24 u AND 0xff), ucast (drop_bit 32 u AND 0xff), ucast (drop_bit 40 u AND 0xff),
      ucast (drop_bit 48 u AND 0xff), ucast (drop_bit 56 u AND 0xff)]"

text \<open>A string is written as its length and its bytes; \<open>NULL\<close> as length 0.\<close>

definition ny_nir_write_str :: "string option \<Rightarrow> bytes" where
  "ny_nir_write_str s =
     (let t = (case s of None \<Rightarrow> [] | Some t \<Rightarrow> t)
      in ny_nir_write_u32le (of_nat (length t)) @ map byte_of t)"

section \<open>Readers\<close>

type_synonym 'a reader = "bytes \<Rightarrow> ('a \<times> bytes) option"

definition rd_bind :: "'a reader \<Rightarrow> ('a \<Rightarrow> 'b reader) \<Rightarrow> 'b reader" where
  "rd_bind p g bs = (case p bs of None \<Rightarrow> None | Some (x, bs') \<Rightarrow> g x bs')"

definition rd_return :: "'a \<Rightarrow> 'a reader" where
  "rd_return x bs = Some (x, bs)"

definition rd_fail :: "'a reader" where
  "rd_fail bs = None"

definition rd_guard :: "bool \<Rightarrow> 'a reader \<Rightarrow> 'a reader" where
  "rd_guard c p = (if c then p else rd_fail)"

definition ny_nir_read_exact :: "nat \<Rightarrow> bytes reader" where
  "ny_nir_read_exact n bs = (if n \<le> length bs then Some (take n bs, drop n bs) else None)"

definition ny_nir_read_u8 :: "u8 reader" where
  "ny_nir_read_u8 = rd_bind (ny_nir_read_exact 1) (\<lambda>b. rd_return (b ! 0))"

definition ny_nir_read_u16le :: "u16 reader" where
  "ny_nir_read_u16le =
     rd_bind (ny_nir_read_exact 2) (\<lambda>b. rd_return (ucast (b ! 0) OR push_bit 8 (ucast (b ! 1))))"

definition ny_nir_read_u32le :: "u32 reader" where
  "ny_nir_read_u32le =
     rd_bind (ny_nir_read_exact 4)
       (\<lambda>b. rd_return (ucast (b ! 0) OR push_bit 8 (ucast (b ! 1)) OR push_bit 16 (ucast (b ! 2)) OR
                       push_bit 24 (ucast (b ! 3))))"

definition ny_nir_read_i32le :: "int reader" where
  "ny_nir_read_i32le = rd_bind ny_nir_read_u32le (\<lambda>u. rd_return (sint u))"

definition ny_nir_read_i64le :: "i64 reader" where
  "ny_nir_read_i64le =
     rd_bind (ny_nir_read_exact 8)
       (\<lambda>b. rd_return (ucast (b ! 0) OR push_bit 8 (ucast (b ! 1)) OR push_bit 16 (ucast (b ! 2)) OR
              push_bit 24 (ucast (b ! 3)) OR push_bit 32 (ucast (b ! 4)) OR
              push_bit 40 (ucast (b ! 5)) OR push_bit 48 (ucast (b ! 6)) OR
              push_bit 56 (ucast (b ! 7))))"

text \<open>The bytes read are used as a C string: it ends at the first zero byte.\<close>

definition ny_nir_read_str :: "nat \<Rightarrow> string reader" where
  "ny_nir_read_str max_len =
     rd_bind ny_nir_read_u32le
       (\<lambda>n. rd_guard (unat n \<le> max_len)
         (rd_bind (ny_nir_read_exact (unat n))
            (\<lambda>b. rd_return (map char_of_byte (takeWhile (\<lambda>x. x \<noteq> 0) b)))))"

fun rd_many :: "nat \<Rightarrow> 'a reader \<Rightarrow> 'a list reader" where
  "rd_many 0 p = rd_return []"
| "rd_many (Suc n) p = rd_bind p (\<lambda>x. rd_bind (rd_many n p) (\<lambda>xs. rd_return (x # xs)))"

section \<open>Writing a function\<close>

definition dump_inst_fields :: "ny_nir_inst \<Rightarrow> bytes" where
  "dump_inst_fields i =
     ny_nir_write_u16le (of_nat (op_code (i_op i))) @
     ny_nir_write_u16le (of_nat (cmp_code (i_cmp i))) @
     ny_nir_write_i32le (i_dst i) @ ny_nir_write_i32le (i_a i) @ ny_nir_write_i32le (i_b i) @
     ny_nir_write_i32le (i_c i) @ ny_nir_write_i32le (i_d i) @ ny_nir_write_i32le (i_e i) @
     ny_nir_write_i32le (i_f i) @
     ny_nir_write_i64le (i_imm i) @ ny_nir_write_u32le (i_flags i) @
     ny_nir_write_u32le (i_effects i) @
     ny_nir_write_u32le (dl_line (i_debug i)) @ ny_nir_write_u32le (dl_column (i_debug i)) @
     ny_nir_write_u8 (if has_min (i_range i) then 1 else 0) @
     ny_nir_write_u8 (if has_max (i_range i) then 1 else 0) @
     ny_nir_write_i64le (rg_min (i_range i)) @ ny_nir_write_i64le (rg_max (i_range i)) @
     ny_nir_write_str (dl_file (i_debug i)) @ ny_nir_write_str (i_symbol i)"

definition dump_inst_args :: "ny_nir_inst \<Rightarrow> bytes" where
  "dump_inst_args i =
     ny_nir_write_u32le (of_nat (i_extra_args_len i)) @
     concat (map ny_nir_write_i32le (take (i_extra_args_len i) (i_extra_args i))) @
     (case i_arg_sizes i of
        None \<Rightarrow> ny_nir_write_u32le 0
      | Some sizes \<Rightarrow>
          ny_nir_write_u32le (ucast (i_imm i)) @
          concat (map ny_nir_write_u32le (take (unat (ucast (i_imm i) :: u32)) sizes)))"

definition dump_inst :: "ny_nir_inst \<Rightarrow> bytes option" where
  "dump_inst i =
     (if i_arg_sizes i \<noteq> None \<and>
         (i_op i \<noteq> NY_NIR_CALL \<or> sint (i_imm i) \<le> 0 \<or> sint (i_imm i) > int NY_NIR_CALL_MAX_ARGS)
      then None else Some (dump_inst_fields i @ dump_inst_args i))"

fun dump_insts :: "ny_nir_inst list \<Rightarrow> bytes option" where
  "dump_insts [] = Some []"
| "dump_insts (i # rest) =
     (case dump_inst i of
        None \<Rightarrow> None
      | Some bs \<Rightarrow> map_option ((@) bs) (dump_insts rest))"

definition dump_header :: "ny_nir_func \<Rightarrow> string \<Rightarrow> bytes" where
  "dump_header f name =
     map byte_of ''NYIR'' @ ny_nir_write_u16le 7 @ ny_nir_write_u16le 0 @
     ny_nir_write_str (Some (if name \<noteq> [] then name else ''<anon>'')) @
     ny_nir_write_i32le (fn_next_value f) @ ny_nir_write_u32le (of_nat (fn_len f))"

definition ny_nir_dump_binary :: "ny_nir_func \<Rightarrow> string \<Rightarrow> bytes option" where
  "ny_nir_dump_binary f name = map_option ((@) (dump_header f name)) (dump_insts (fn_data f))"

section \<open>Reading a function\<close>

datatype load_error =
  LoadMalformed
| LoadUnsupportedVersion nat
| LoadUnsupportedFlags nat
| LoadRejected nir_error

text \<open>\<open>debug_file[0] ? own(debug_file) : NULL\<close>.\<close>

definition own_string :: "string \<Rightarrow> string option" where
  "own_string s = (if s = [] then None else Some s)"

definition ny_nir_arg_legacy :: "nat \<Rightarrow> u32 \<Rightarrow> u32" where
  "ny_nir_arg_legacy version v =
     (if version < 7 \<and> v > 0
      then (v AND 0x00ffffff) OR push_bit 24 NY_NIR_ARG_CLASS_MEMORY else v)"

text \<open>The fields of an instruction that the older versions lack keep their initial values.\<close>

definition rd_since :: "nat \<Rightarrow> nat \<Rightarrow> 'a reader \<Rightarrow> 'a \<Rightarrow> 'a reader" where
  "rd_since version since p dflt = (if version \<ge> since then p else rd_return dflt)"

text \<open>Effects, debug location and range: line, column, flags, bounds and file name.\<close>

type_synonym load_meta = "u32 \<times> ny_nir_debug_loc \<times> ny_nir_range"

definition load_meta :: "load_meta reader" where
  "load_meta =
     rd_bind ny_nir_read_u32le (\<lambda>eff. rd_bind ny_nir_read_u32le (\<lambda>line.
     rd_bind ny_nir_read_u32le (\<lambda>col. rd_bind ny_nir_read_u8 (\<lambda>hmin.
     rd_bind ny_nir_read_u8 (\<lambda>hmax. rd_bind ny_nir_read_i64le (\<lambda>lo.
     rd_bind ny_nir_read_i64le (\<lambda>hi. rd_bind (ny_nir_read_str 4096) (\<lambda>file.
       rd_return
         (eff, \<lparr>dl_file = own_string file, dl_line = line, dl_column = col\<rparr>,
          \<lparr>has_min = hmin \<noteq> 0, has_max = hmax \<noteq> 0, rg_min = lo, rg_max = hi\<rparr>)))))))))"

definition load_extra :: "int list reader" where
  "load_extra =
     rd_bind ny_nir_read_u32le
       (\<lambda>n. rd_guard (unat n \<le> NY_NIR_CALL_MAX_ARGS) (rd_many (unat n) ny_nir_read_i32le))"

definition load_arg_sizes :: "nat \<Rightarrow> nat \<Rightarrow> i64 \<Rightarrow> u32 list option reader" where
  "load_arg_sizes version op imm =
     rd_bind ny_nir_read_u32le
       (\<lambda>n. if n = 0 then rd_return None
            else rd_guard
                   (op = op_code NY_NIR_CALL \<and> sint imm > 0 \<and> n = ucast imm \<and>
                    unat n \<le> NY_NIR_CALL_MAX_ARGS)
                   (rd_bind (rd_many (unat n) ny_nir_read_u32le)
                      (\<lambda>xs. rd_return (Some (map (ny_nir_arg_legacy version) xs)))))"

definition load_inst :: "nat \<Rightarrow> ny_nir_inst reader" where
  "load_inst version =
     rd_bind ny_nir_read_u16le (\<lambda>op. rd_bind ny_nir_read_u16le (\<lambda>cmp.
     rd_bind ny_nir_read_i32le (\<lambda>dst. rd_bind ny_nir_read_i32le (\<lambda>a.
     rd_bind ny_nir_read_i32le (\<lambda>b.
     rd_bind (rd_since version 3 ny_nir_read_i32le (-1)) (\<lambda>c.
     rd_bind (rd_since version 3 ny_nir_read_i32le (-1)) (\<lambda>d.
     rd_bind (rd_since version 4 ny_nir_read_i32le (-1)) (\<lambda>e.
     rd_bind (rd_since version 4 ny_nir_read_i32le (-1)) (\<lambda>f.
     rd_bind ny_nir_read_i64le (\<lambda>imm. rd_bind ny_nir_read_u32le (\<lambda>flags.
     rd_bind (rd_since version 2 load_meta (0, zero_debug, zero_range)) (\<lambda>(eff, dbg, rng).
     rd_bind (ny_nir_read_str 4096) (\<lambda>symbol.
     rd_bind (rd_since version 5 load_extra []) (\<lambda>extra.
     rd_bind (rd_since version 6 (load_arg_sizes version (unat op) imm) None) (\<lambda>sizes.
       rd_guard (unat op < op_code NYIR_OP_COUNT \<and> unat cmp \<le> cmp_code NY_NIR_CMP_GE)
         (rd_return
            \<lparr>i_op = op_of_code (unat op), i_dst = dst, i_a = a, i_b = b, i_c = c, i_d = d,
             i_e = e, i_f = f, i_imm = imm, i_cmp = cmp_of_code (unat cmp),
             i_symbol = own_string symbol, i_flags = flags, i_effects = eff, i_debug = dbg,
             i_range = rng, i_extra_args = extra, i_extra_args_len = length extra,
             i_arg_sizes = sizes\<rparr>))))))))))))))))"

definition load_body :: "nat \<Rightarrow> (string \<times> ny_nir_func) reader" where
  "load_body version =
     rd_bind (ny_nir_read_str 1024) (\<lambda>name. rd_bind ny_nir_read_i32le (\<lambda>next_value.
     rd_bind ny_nir_read_u32le (\<lambda>count.
       rd_guard (0 \<le> next_value)
         (rd_bind (rd_many (unat count) (load_inst version))
            (\<lambda>is. rd_return (name, \<lparr>fn_data = is, fn_next_value = next_value\<rparr>))))))"

definition load_prologue :: "(u16 \<times> u16) reader" where
  "load_prologue =
     rd_bind (ny_nir_read_exact 4) (\<lambda>magic.
       rd_guard (magic = map byte_of ''NYIR'')
         (rd_bind ny_nir_read_u16le (\<lambda>version. rd_bind ny_nir_read_u16le
            (\<lambda>flags. rd_return (version, flags)))))"

text \<open>The name is copied into a buffer of \<open>name_len\<close> bytes with its terminator.\<close>

definition ny_nir_load_binary :: "bytes \<Rightarrow> nat \<Rightarrow> load_error + (string \<times> ny_nir_func)" where
  "ny_nir_load_binary file name_len =
     (case load_prologue file of
        None \<Rightarrow> Inl LoadMalformed
      | Some ((version, flags), rest) \<Rightarrow>
          if unat version \<notin> {1..7} then Inl (LoadUnsupportedVersion (unat version))
          else if flags \<noteq> 0 then Inl (LoadUnsupportedFlags (unat flags))
          else (case load_body (unat version) rest of
                  None \<Rightarrow> Inl LoadMalformed
                | Some ((name, f), _) \<Rightarrow>
                    (case ny_nir_verify f of
                       Some e \<Rightarrow> Inl (LoadRejected e)
                     | None \<Rightarrow> Inr (take (name_len - 1) name, ny_nir_refresh_metadata f))))"

end
