(* ===== verification/Nyir_Binary_Correct.thy ===== *)
theory Nyir_Binary_Correct
  imports Nyir_Binary Nyir_Samples
begin

text \<open>
  The binary format is a faithful encoding: loading a dumped function gives the function back. The
  codecs of the fields share a contract, stated as a locale and interpreted on each of them.
\<close>

section \<open>Codecs\<close>

locale codec =
  fixes ok :: "'a \<Rightarrow> bool" and wr :: "'a \<Rightarrow> bytes" and rd :: "'a reader"
  assumes read_back: "ok x \<Longrightarrow> rd (wr x @ rest) = Some (x, rest)"
begin

lemma bind: "ok x \<Longrightarrow> rd_bind rd g (wr x @ rest) = g x rest"
  by (simp add: rd_bind_def read_back)

lemma many: "list_all ok xs \<Longrightarrow> rd_many (length xs) rd (concat (map wr xs) @ rest) = Some (xs, rest)"
  by (induction xs) (simp_all add: rd_return_def rd_bind_def read_back)

end

lemma read_exact_append: "n = length bs \<Longrightarrow> ny_nir_read_exact n (bs @ rest) = Some (bs, rest)"
  by (simp add: ny_nir_read_exact_def)

text \<open>A word is put together from its bytes.\<close>

lemma byte_back: "ucast (ucast (drop_bit k v AND 0xff) :: u8) = take_bit 8 (drop_bit k (v :: 'a::len word))"
proof -
  have "drop_bit k v AND 0xff = take_bit 8 (drop_bit k v)"
    by (simp add: take_bit_eq_mask mask_eq_exp_minus_1)
  moreover have "ucast (ucast (take_bit 8 w) :: u8) = take_bit 8 w" for w :: "'a word"
    by (rule bit_word_eqI) (auto simp: bit_ucast_iff bit_take_bit_iff)
  ultimately show ?thesis
    by simp
qed

lemma byte_back0: "ucast (ucast (v AND 0xff) :: u8) = take_bit 8 (v :: 'a::len word)"
  using byte_back [of 0 v] by simp

text \<open>Adding the next byte extends the part that is already there.\<close>

lemma next_byte: "take_bit n v OR push_bit n (take_bit 8 (drop_bit n v)) = take_bit (n + 8) (v :: 'a::len word)"
proof (rule bit_word_eqI)
  fix k assume "k < LENGTH('a)"
  then show "bit (take_bit n v OR push_bit n (take_bit 8 (drop_bit n v))) k = bit (take_bit (n + 8) v) k"
    by (cases "k < n") (auto simp: bit_or_iff bit_push_bit_iff bit_take_bit_iff bit_drop_bit_eq)
qed

lemmas next_bytes = next_byte [where n = 8, simplified] next_byte [where n = 16, simplified]
  next_byte [where n = 24, simplified] next_byte [where n = 32, simplified] next_byte [where n = 40, simplified]
  next_byte [where n = 48, simplified] next_byte [where n = 56, simplified]

lemma take_bit_full: "take_bit 16 v = (v :: u16)" "take_bit 32 w = (w :: u32)" "take_bit 64 x = (x :: i64)"
  by (simp_all add: take_bit_word_eq_self)

lemmas codec_defs = rd_bind_def rd_return_def ny_nir_read_exact_def byte_back byte_back0 next_bytes take_bit_full or.assoc [symmetric]

interpretation u8: codec "\<lambda>_. True" ny_nir_write_u8 ny_nir_read_u8
  by unfold_locales (simp add: ny_nir_read_u8_def ny_nir_write_u8_def codec_defs)

interpretation u16: codec "\<lambda>_. True" ny_nir_write_u16le ny_nir_read_u16le
  by unfold_locales (simp add: ny_nir_read_u16le_def ny_nir_write_u16le_def codec_defs)

interpretation u32: codec "\<lambda>_. True" ny_nir_write_u32le ny_nir_read_u32le
  by unfold_locales (simp add: ny_nir_read_u32le_def ny_nir_write_u32le_def codec_defs)

interpretation i64: codec "\<lambda>_. True" ny_nir_write_i64le ny_nir_read_i64le
  by unfold_locales (simp add: ny_nir_read_i64le_def ny_nir_write_i64le_def codec_defs)

definition int32 :: "int \<Rightarrow> bool" where
  "int32 x \<longleftrightarrow> - (2 ^ 31) \<le> x \<and> x < 2 ^ 31"

interpretation i32: codec int32 ny_nir_write_i32le ny_nir_read_i32le
proof unfold_locales
  fix x :: int and rest :: bytes assume "int32 x"
  then have "sint (word_of_int x :: u32) = x"
    by (simp add: int32_def signed_of_int signed_take_bit_int_eq_self)
  then show "ny_nir_read_i32le (ny_nir_write_i32le x @ rest) = Some (x, rest)"
    by (simp add: ny_nir_read_i32le_def ny_nir_write_i32le_def u32.bind rd_return_def)
qed

section \<open>Strings\<close>

text \<open>A string that a C reader takes back whole: no zero byte and within the limit.\<close>

definition c_string :: "nat \<Rightarrow> string \<Rightarrow> bool" where
  "c_string limit s \<longleftrightarrow> length s \<le> limit \<and> CHR 0x00 \<notin> set s"

lemma byte_of_zero: "byte_of c = 0 \<longleftrightarrow> c = CHR 0x00"
proof -
  have "byte_of (CHR 0x00) = 0" "char_of_byte 0 = CHR 0x00"
    by code_simp+
  then show ?thesis
    by (metis char_byte)
qed

lemma read_str:
  assumes "c_string limit s" "limit < 2 ^ 32"
  shows "ny_nir_read_str limit (ny_nir_write_str (Some s) @ rest) = Some (s, rest)"
proof -
  have n: "unat (of_nat (length s) :: u32) = length s"
    using assms by (simp add: c_string_def unat_of_nat mod_less)
  have "byte_of x \<noteq> 0" if "x \<in> set s" for x
    using assms(1) that by (auto simp: c_string_def byte_of_zero)
  then have tw: "takeWhile (\<lambda>x. x \<noteq> 0) (map byte_of s) = map byte_of s"
    by (intro takeWhile_eq_all_conv [THEN iffD2]) auto
  have tl: "rd_bind (ny_nir_read_exact (length s)) (\<lambda>b. rd_return (map char_of_byte (takeWhile (\<lambda>x. x \<noteq> 0) b)))
      (map byte_of s @ rest) = Some (s, rest)"
    unfolding rd_bind_def rd_return_def read_exact_append [of "length s" "map byte_of s" rest, OF length_map [symmetric]]
    by (simp add: tw comp_def char_byte)
  have wr: "ny_nir_write_str (Some s) @ rest = ny_nir_write_u32le (of_nat (length s)) @ map byte_of s @ rest"
    by (simp add: ny_nir_write_str_def)
  show ?thesis
    unfolding ny_nir_read_str_def wr u32.bind [OF TrueI] n
    using assms(1) tl by (simp add: rd_guard_def c_string_def)
qed

definition c_string_opt :: "nat \<Rightarrow> string option \<Rightarrow> bool" where
  "c_string_opt limit s = (case s of None \<Rightarrow> True | Some t \<Rightarrow> t \<noteq> [] \<and> c_string limit t)"

definition opt_text :: "string option \<Rightarrow> string" where
  "opt_text s = (case s of None \<Rightarrow> [] | Some t \<Rightarrow> t)"

lemma own_opt_text: "c_string_opt limit s \<Longrightarrow> own_string (opt_text s) = s"
  by (auto simp: c_string_opt_def own_string_def opt_text_def split: option.splits)

lemma read_opt_str:
  assumes "c_string_opt limit s" "limit < 2 ^ 32"
  shows "ny_nir_read_str limit (ny_nir_write_str s @ rest) = Some (opt_text s, rest)"
proof (cases s)
  case None
  have "ny_nir_write_str None = ny_nir_write_str (Some [])"
    by (simp add: ny_nir_write_str_def)
  then show ?thesis
    using None assms(2) read_str [of limit "[]" rest] by (simp add: c_string_def opt_text_def)
next
  case (Some t)
  then show ?thesis
    using assms read_str [of limit t rest] by (simp add: c_string_opt_def opt_text_def)
qed

section \<open>Instructions\<close>

definition storable_call :: "ny_nir_inst \<Rightarrow> bool" where
  "storable_call i \<longleftrightarrow>
     (case i_arg_sizes i of
        None \<Rightarrow> True
      | Some sizes \<Rightarrow>
          i_op i = NY_NIR_CALL \<and> 0 < sint (i_imm i) \<and> sint (i_imm i) \<le> int NY_NIR_CALL_MAX_ARGS \<and>
          length sizes = unat (i_imm i))"

definition storable :: "ny_nir_inst \<Rightarrow> bool" where
  "storable i \<longleftrightarrow>
     list_all int32 [i_dst i, i_a i, i_b i, i_c i, i_d i, i_e i, i_f i] \<and>
     i_op i \<noteq> NYIR_OP_COUNT \<and> cmp_code (i_cmp i) \<le> 5 \<and>
     c_string_opt 4096 (i_symbol i) \<and> c_string_opt 4096 (dl_file (i_debug i)) \<and>
     i_extra_args_len i = length (i_extra_args i) \<and> length (i_extra_args i) \<le> NY_NIR_CALL_MAX_ARGS \<and>
     list_all int32 (i_extra_args i) \<and> storable_call i"

lemma read_extra:
  assumes "length xs \<le> NY_NIR_CALL_MAX_ARGS" "list_all int32 xs"
  shows "load_extra (ny_nir_write_u32le (of_nat (length xs)) @ concat (map ny_nir_write_i32le xs) @ rest) = Some (xs, rest)"
proof -
  have n: "unat (of_nat (length xs) :: u32) = length xs"
    using assms(1) by (simp add: NY_NIR_CALL_MAX_ARGS_def unat_of_nat mod_less)
  show ?thesis
    unfolding load_extra_def u32.bind [OF TrueI] n using assms i32.many by (simp add: rd_guard_def)
qed

definition dump_sizes :: "ny_nir_inst \<Rightarrow> bytes" where
  "dump_sizes i =
     (case i_arg_sizes i of
        None \<Rightarrow> ny_nir_write_u32le 0
      | Some sizes \<Rightarrow>
          ny_nir_write_u32le (ucast (i_imm i)) @
          concat (map ny_nir_write_u32le (take (unat (ucast (i_imm i) :: u32)) sizes)))"

lemma small_imm:
  assumes "0 < sint (imm :: i64)" "sint imm \<le> int NY_NIR_CALL_MAX_ARGS"
  shows "unat (ucast imm :: u32) = unat imm" "(ucast imm :: u32) \<noteq> 0" "unat imm \<le> NY_NIR_CALL_MAX_ARGS"
proof -
  have u: "int (unat imm) = sint imm"
    using assms(1) by (intro unat_of_nonneg) simp
  then show le: "unat imm \<le> NY_NIR_CALL_MAX_ARGS"
    using assms(2) by linarith
  then have "unat imm < 2 ^ 32"
    by (simp add: NY_NIR_CALL_MAX_ARGS_def)
  then have e: "unat (ucast imm :: u32) = unat imm"
    by (simp add: unsigned_ucast_eq take_bit_nat_eq_self)
  then show "unat (ucast imm :: u32) = unat imm" .
  show "(ucast imm :: u32) \<noteq> 0"
  proof
    assume z: "(ucast imm :: u32) = 0"
    show False
      using e u assms(1) unfolding z by simp
  qed
qed

lemma read_sizes:
  assumes "storable_call i"
  shows "load_arg_sizes 7 (op_code (i_op i)) (i_imm i) (dump_sizes i @ rest) = Some (i_arg_sizes i, rest)"
proof (cases "i_arg_sizes i")
  case None
  then show ?thesis
    unfolding load_arg_sizes_def dump_sizes_def by (simp add: u32.bind rd_return_def)
next
  case (Some sizes)
  then have c: "i_op i = NY_NIR_CALL" "0 < sint (i_imm i)" "sint (i_imm i) \<le> int NY_NIR_CALL_MAX_ARGS"
      "length sizes = unat (i_imm i)"
    using assms by (simp_all add: storable_call_def)
  note im = small_imm [OF c(2,3)]
  have wr: "dump_sizes i @ rest = ny_nir_write_u32le (ucast (i_imm i)) @ concat (map ny_nir_write_u32le sizes) @ rest"
    unfolding dump_sizes_def Some by (simp add: im(1) c(4))
  have "rd_many (unat (i_imm i)) ny_nir_read_u32le (concat (map ny_nir_write_u32le sizes) @ rest) = Some (sizes, rest)"
    using u32.many [of sizes rest] c(4) by (simp add: list_all_iff)
  moreover have "ny_nir_arg_legacy 7 = id"
    by (rule ext) (simp add: ny_nir_arg_legacy_def)
  ultimately show ?thesis
    unfolding load_arg_sizes_def wr u32.bind [OF TrueI] im(1)
    using im(2,3) c(1,2) Some by (simp add: rd_guard_def rd_bind_def rd_return_def)
qed

lemma of_code16: "op_code (i_op i) \<le> 44 \<Longrightarrow> unat (of_nat (op_code (i_op i)) :: u16) = op_code (i_op i)"
  by (simp add: unat_of_nat mod_less)

lemma read_meta:
  assumes "c_string_opt 4096 (dl_file d)"
  shows "load_meta (ny_nir_write_u32le eff @ ny_nir_write_u32le (dl_line d) @ ny_nir_write_u32le (dl_column d) @
      ny_nir_write_u8 (if has_min r then 1 else 0) @ ny_nir_write_u8 (if has_max r then 1 else 0) @
      ny_nir_write_i64le (rg_min r) @ ny_nir_write_i64le (rg_max r) @ ny_nir_write_str (dl_file d) @ rest) =
    Some ((eff, d, r), rest)"
proof -
  have t: "ny_nir_read_str 4096 (ny_nir_write_str (dl_file d) @ rest) = Some (opt_text (dl_file d), rest)"
    using read_opt_str [OF assms] by simp
  show ?thesis
    unfolding load_meta_def u32.bind [OF TrueI] u8.bind [OF TrueI] i64.bind [OF TrueI]
    unfolding rd_bind_def t by (simp add: rd_return_def own_opt_text [OF assms])
qed

lemma dump_inst_split:
  "dump_inst_fields i @ dump_inst_args i @ rest =
     ny_nir_write_u16le (of_nat (op_code (i_op i))) @ ny_nir_write_u16le (of_nat (cmp_code (i_cmp i))) @
     ny_nir_write_i32le (i_dst i) @ ny_nir_write_i32le (i_a i) @ ny_nir_write_i32le (i_b i) @
     ny_nir_write_i32le (i_c i) @ ny_nir_write_i32le (i_d i) @ ny_nir_write_i32le (i_e i) @
     ny_nir_write_i32le (i_f i) @ ny_nir_write_i64le (i_imm i) @ ny_nir_write_u32le (i_flags i) @
     (ny_nir_write_u32le (i_effects i) @ ny_nir_write_u32le (dl_line (i_debug i)) @
      ny_nir_write_u32le (dl_column (i_debug i)) @ ny_nir_write_u8 (if has_min (i_range i) then 1 else 0) @
      ny_nir_write_u8 (if has_max (i_range i) then 1 else 0) @ ny_nir_write_i64le (rg_min (i_range i)) @
      ny_nir_write_i64le (rg_max (i_range i)) @ ny_nir_write_str (dl_file (i_debug i)) @
     (ny_nir_write_str (i_symbol i) @
     (ny_nir_write_u32le (of_nat (i_extra_args_len i)) @
      concat (map ny_nir_write_i32le (take (i_extra_args_len i) (i_extra_args i))) @
     (dump_sizes i @ rest))))"
  by (simp only: dump_inst_fields_def dump_inst_args_def dump_sizes_def append_assoc)

lemma rd_since_7: "since \<le> 7 \<Longrightarrow> rd_since 7 since p d = p"
  by (simp add: rd_since_def)

lemma bind_known: "p bs = Some (x, bs') \<Longrightarrow> rd_bind p g bs = g x bs'"
  by (simp add: rd_bind_def)

lemma read_inst:
  assumes "storable i"
  shows "load_inst 7 (dump_inst_fields i @ dump_inst_args i @ rest) = Some (i, rest)"
proof -
  have int: "int32 (i_dst i)" "int32 (i_a i)" "int32 (i_b i)" "int32 (i_c i)" "int32 (i_d i)" "int32 (i_e i)" "int32 (i_f i)"
    and st: "i_op i \<noteq> NYIR_OP_COUNT" "cmp_code (i_cmp i) \<le> 5" "c_string_opt 4096 (i_symbol i)"
      "c_string_opt 4096 (dl_file (i_debug i))" "i_extra_args_len i = length (i_extra_args i)"
      "length (i_extra_args i) \<le> NY_NIR_CALL_MAX_ARGS" "list_all int32 (i_extra_args i)" "storable_call i"
    using assms by (simp_all add: storable_def)
  have t: "ny_nir_read_str 4096 (ny_nir_write_str (i_symbol i) @ rest) = Some (opt_text (i_symbol i), rest)" for rest
    using read_opt_str [OF st(3)] by simp
  have op: "unat (of_nat (op_code (i_op i)) :: u16) = op_code (i_op i)" "op_code (i_op i) < op_code NYIR_OP_COUNT"
    using op_code_le [of "i_op i"] st(1) of_code16 op_code_inject [of "i_op i" NYIR_OP_COUNT] by auto
  have cm: "unat (of_nat (cmp_code (i_cmp i)) :: u16) = cmp_code (i_cmp i)"
    using st(2) by (simp add: unat_of_nat mod_less)
  note binds = u16.bind [OF TrueI] i32.bind [OF int(1)] i32.bind [OF int(2)] i32.bind [OF int(3)] i32.bind [OF int(4)]
    i32.bind [OF int(5)] i32.bind [OF int(6)] i32.bind [OF int(7)] i64.bind [OF TrueI] u32.bind [OF TrueI]
    bind_known [where p = load_meta, OF read_meta [OF st(4)]]
    bind_known [where p = "ny_nir_read_str 4096", OF t]
    bind_known [where p = load_extra, OF read_extra [OF st(6,7)]]
    bind_known [where p = "load_arg_sizes 7 (op_code (i_op i)) (i_imm i)", OF read_sizes [OF st(8)]]
  show ?thesis
    unfolding load_inst_def dump_inst_split st(5) take_all [OF order_refl]
    using op(2) st(2) own_opt_text [OF st(3)]
    by (simp only: rd_since_7 binds prod.case op(1) cm) (simp add: rd_guard_def rd_return_def st(5) [symmetric])
qed

text \<open>An instruction that can be stored is written; the whole list is read back.\<close>

definition inst_bytes :: "ny_nir_inst \<Rightarrow> bytes" where
  "inst_bytes i = dump_inst_fields i @ dump_inst_args i"

interpretation inst: codec storable inst_bytes "load_inst 7"
  by unfold_locales (simp add: inst_bytes_def read_inst)

lemma dump_inst_storable: "storable i \<Longrightarrow> dump_inst i = Some (inst_bytes i)"
  by (auto simp: dump_inst_def inst_bytes_def storable_def storable_call_def split: option.splits)

lemma dump_insts_storable: "list_all storable is \<Longrightarrow> dump_insts is = Some (concat (map inst_bytes is))"
  by (induction "is") (simp_all add: dump_inst_storable)

section \<open>Functions\<close>

text \<open>A function that can be stored under a name.\<close>

definition storable_func :: "ny_nir_func \<Rightarrow> string \<Rightarrow> bool" where
  "storable_func f name \<longleftrightarrow>
     name \<noteq> [] \<and> c_string 1024 name \<and> list_all storable (fn_data f) \<and> fn_len f < 2 ^ 32 \<and>
     0 \<le> fn_next_value f \<and> fn_next_value f < 2 ^ 31"

lemma read_prologue:
  "load_prologue (map byte_of ''NYIR'' @ ny_nir_write_u16le v @ ny_nir_write_u16le fl @ rest) = Some ((v, fl), rest)"
proof -
  have "ny_nir_read_exact 4 (map byte_of ''NYIR'' @ rest) = Some (map byte_of ''NYIR'', rest)" for rest
    by (rule read_exact_append) simp
  then show ?thesis
    unfolding load_prologue_def by (simp only: bind_known [where p = "ny_nir_read_exact 4"] rd_guard_def simp_thms if_True
      u16.bind [OF TrueI]) (simp add: rd_return_def)
qed

lemma read_body:
  assumes "storable_func f name"
  shows "load_body 7 (ny_nir_write_str (Some name) @ ny_nir_write_i32le (fn_next_value f) @
      ny_nir_write_u32le (of_nat (fn_len f)) @ concat (map inst_bytes (fn_data f)) @ rest) = Some ((name, f), rest)"
proof -
  have st: "c_string 1024 name" "list_all storable (fn_data f)" "fn_len f < 2 ^ 32" "0 \<le> fn_next_value f" "int32 (fn_next_value f)"
    using assms by (simp_all add: storable_func_def int32_def)
  have n: "unat (of_nat (fn_len f) :: u32) = length (fn_data f)"
    using st(3) by (simp add: unat_of_nat mod_less)
  have t: "ny_nir_read_str 1024 (ny_nir_write_str (Some name) @ rest) = Some (name, rest)" for rest
    using read_str [OF st(1)] by simp
  show ?thesis
    unfolding load_body_def bind_known [where p = "ny_nir_read_str 1024", OF t] i32.bind [OF st(5)] u32.bind [OF TrueI] n
      rd_guard_def using st(4) inst.many [OF st(2), of rest] by (simp add: rd_bind_def rd_return_def)
qed

text \<open>
  C27: Dumping a function and loading the file gives the function back. A verified function whose
  fields fit the format is written, and reading the bytes, whatever follows them, yields its
  instructions with the effects, debug locations, ranges, extra arguments and argument sizes they
  had, after the metadata refresh that every load ends with; the name is cut to the caller's buffer.
\<close>

theorem dump_load_roundtrip:
  assumes "storable_func f name" "ny_nir_verify f = None"
  shows "\<exists>bs. ny_nir_dump_binary f name = Some bs \<and>
    ny_nir_load_binary (bs @ junk) name_len = Inr (take (name_len - 1) name, ny_nir_refresh_metadata f)"
proof -
  have st: "name \<noteq> []" "list_all storable (fn_data f)"
    using assms(1) by (simp_all add: storable_func_def)
  have "ny_nir_dump_binary f name = Some (dump_header f name @ concat (map inst_bytes (fn_data f)))"
    by (simp add: ny_nir_dump_binary_def dump_insts_storable [OF st(2)])
  moreover have "ny_nir_load_binary ((dump_header f name @ concat (map inst_bytes (fn_data f))) @ junk) name_len =
      Inr (take (name_len - 1) name, ny_nir_refresh_metadata f)"
    unfolding ny_nir_load_binary_def dump_header_def append_assoc read_prologue
    using st(1) assms(2) read_body [OF assms(1)] by simp
  ultimately show ?thesis
    by blast
qed

theorem dump_load_roundtrip_witness:
  "\<exists>bs. ny_nir_dump_binary sample_fold ''fold'' = Some bs \<and>
    ny_nir_load_binary (bs @ [1, 2]) 3 = Inr (''fo'', ny_nir_refresh_metadata sample_fold)"
proof -
  have "list_all storable (fn_data sample_fold)" "ny_nir_verify sample_fold = None" "c_string 1024 ''fold''"
      "0 \<le> fn_next_value sample_fold \<and> fn_next_value sample_fold < 2 ^ 31"
    by code_simp+
  moreover have "fn_len sample_fold < 2 ^ 32"
    by (simp add: sample_fold_def nfunc_def)
  ultimately have "storable_func sample_fold ''fold''"
    by (simp add: storable_func_def)
  then show ?thesis
    using dump_load_roundtrip [of sample_fold "''fold''" "[1, 2]" 3] \<open>ny_nir_verify sample_fold = None\<close> by simp
qed

end
