(* ===== verification/Nyir_Typemap.thy ===== *)
theory Nyir_Typemap
  imports Nyir_Types "HOL-Library.Monad_Syntax"
begin

text \<open>
  The floating-point type map of \<open>src/code/native/ir/init.c\<close>: which values and local slots of a
  function hold \<open>f64\<close> and \<open>f32\<close> data. Copies, loads and stores of locals equate the types of their
  two ends, which a union-find forest with path compression collapses; the floating-point operations
  then mark the roots.

  The forest is the array \<open>parents\<close>. Its loops end only on a forest without cycles, and its reads are
  in bounds only for nodes of the array, so they are partial: \<open>None\<close> stands for a loop that does not
  end or a read outside of the array. That neither happens is part of the theorems.
\<close>

unbundle bit_operations_syntax

section \<open>The forest\<close>

partial_function (option) root_find :: "nat list \<Rightarrow> nat \<Rightarrow> nat option" where
  "root_find parents root =
     (if root \<ge> length parents then None
      else if parents ! root = root then Some root
      else root_find parents (parents ! root))"

partial_function (option) root_compress :: "nat list \<Rightarrow> nat \<Rightarrow> nat \<Rightarrow> nat list option" where
  "root_compress parents root node =
     (if node \<ge> length parents then None
      else if parents ! node = node then Some parents
      else root_compress (parents[node := root]) root (parents ! node))"

definition ny_nir_type_root :: "nat list \<Rightarrow> nat \<Rightarrow> (nat \<times> nat list) option" where
  "ny_nir_type_root parents node =
     do {
       root \<leftarrow> root_find parents node;
       parents' \<leftarrow> root_compress parents root node;
       Some (root, parents')
     }"

definition ny_nir_type_union :: "nat list \<Rightarrow> nat \<Rightarrow> nat \<Rightarrow> nat list option" where
  "ny_nir_type_union parents left right =
     do {
       (l, parents1) \<leftarrow> ny_nir_type_root parents left;
       (r, parents2) \<leftarrow> ny_nir_type_root parents1 right;
       Some (if l \<noteq> r then parents2[r := l] else parents2)
     }"

section \<open>Operations with floating-point results and operands\<close>

definition ny_nir_op_f64 :: "ny_nir_op \<Rightarrow> bool" where
  "ny_nir_op_f64 op \<longleftrightarrow> op = NYIR_CONST_F64 \<or> op = NYIR_ADD_F64 \<or> op = NYIR_SUB_F64 \<or> op = NYIR_MUL_F64 \<or>
     op = NYIR_DIV_F64 \<or> op = NYIR_I64_TO_F64 \<or> op = NYIR_F32_TO_F64"

definition ny_nir_op_f32 :: "ny_nir_op \<Rightarrow> bool" where
  "ny_nir_op_f32 op \<longleftrightarrow> op = NYIR_CONST_F32 \<or> op = NYIR_ADD_F32 \<or> op = NYIR_SUB_F32 \<or> op = NYIR_MUL_F32 \<or>
     op = NYIR_DIV_F32 \<or> op = NYIR_I64_TO_F32 \<or> op = NYIR_F64_TO_F32"

definition f64_result :: "ny_nir_inst \<Rightarrow> bool" where
  "f64_result i \<longleftrightarrow> ny_nir_op_f64 (i_op i) \<or> i_op i = NY_NIR_CALL \<and> i_flags i AND NY_NIR_INST_F_RET_F64 \<noteq> 0"

definition f32_result :: "ny_nir_inst \<Rightarrow> bool" where
  "f32_result i \<longleftrightarrow> ny_nir_op_f32 (i_op i) \<or> i_op i = NY_NIR_CALL \<and> i_flags i AND NY_NIR_INST_F_RET_F32 \<noteq> 0"

definition f64_operands :: "ny_nir_inst \<Rightarrow> bool" where
  "f64_operands i \<longleftrightarrow> i_op i = NYIR_ADD_F64 \<or> i_op i = NYIR_SUB_F64 \<or> i_op i = NYIR_MUL_F64 \<or>
     i_op i = NYIR_DIV_F64 \<or> i_op i = NYIR_CMP_F64"

definition f32_operands :: "ny_nir_inst \<Rightarrow> bool" where
  "f32_operands i \<longleftrightarrow> i_op i = NYIR_ADD_F32 \<or> i_op i = NYIR_SUB_F32 \<or> i_op i = NYIR_MUL_F32 \<or>
     i_op i = NYIR_DIV_F32 \<or> i_op i = NYIR_CMP_F32"

section \<open>The three loops\<close>

text \<open>The guards of the C code: a value or local number that is an index of its table.\<close>

definition value_index :: "nat \<Rightarrow> int \<Rightarrow> bool" where
  "value_index value_count v \<longleftrightarrow> 0 \<le> v \<and> nat v < value_count"

definition local_index :: "nat \<Rightarrow> i64 \<Rightarrow> bool" where
  "local_index local_count imm \<longleftrightarrow> nonneg imm \<and> unat imm < local_count"

definition union_inst :: "nat \<Rightarrow> nat \<Rightarrow> ny_nir_inst \<Rightarrow> nat list \<Rightarrow> nat list option" where
  "union_inst value_count local_count i parents =
     do {
       p1 \<leftarrow> (if i_op i = NY_NIR_COPY \<and> value_index value_count (i_dst i) \<and> value_index value_count (i_a i)
              then ny_nir_type_union parents (nat (i_dst i)) (nat (i_a i)) else Some parents);
       p2 \<leftarrow> (if i_op i = NY_NIR_LOAD_LOCAL \<and> value_index value_count (i_dst i) \<and> local_index local_count (i_imm i)
              then ny_nir_type_union p1 (nat (i_dst i)) (value_count + unat (i_imm i)) else Some p1);
       if i_op i = NY_NIR_STORE_LOCAL \<and> value_index value_count (i_a i) \<and> local_index local_count (i_imm i)
       then ny_nir_type_union p2 (nat (i_a i)) (value_count + unat (i_imm i)) else Some p2
     }"

primrec union_loop :: "nat \<Rightarrow> nat \<Rightarrow> ny_nir_inst list \<Rightarrow> nat list \<Rightarrow> nat list option" where
  "union_loop value_count local_count [] parents = Some parents"
| "union_loop value_count local_count (i # is) parents =
     do { p \<leftarrow> union_inst value_count local_count i parents; union_loop value_count local_count is p }"

definition type_bits :: "bool \<Rightarrow> bool \<Rightarrow> u8" where
  "type_bits f64 f32 = (if f64 then 1 else 0) OR (if f32 then 2 else 0)"

definition mark_value :: "nat \<Rightarrow> int \<Rightarrow> u8 \<Rightarrow> nat list \<times> u8 list \<Rightarrow> (nat list \<times> u8 list) option" where
  "mark_value value_count v bits s =
     (case s of (parents, types) \<Rightarrow>
        if value_index value_count v then
          do {
            (root, parents') \<leftarrow> ny_nir_type_root parents (nat v);
            Some (parents', types[root := types ! root OR bits])
          }
        else Some (parents, types))"

definition mark_inst :: "nat \<Rightarrow> ny_nir_inst \<Rightarrow> nat list \<times> u8 list \<Rightarrow> (nat list \<times> u8 list) option" where
  "mark_inst value_count i s =
     do {
       s1 \<leftarrow> mark_value value_count (i_dst i) (type_bits (f64_result i) (f32_result i)) s;
       s2 \<leftarrow> mark_value value_count (i_a i) (type_bits (f64_operands i) (f32_operands i)) s1;
       mark_value value_count (i_b i) (type_bits (f64_operands i) (f32_operands i)) s2
     }"

primrec mark_loop :: "nat \<Rightarrow> ny_nir_inst list \<Rightarrow> nat list \<times> u8 list \<Rightarrow> (nat list \<times> u8 list) option" where
  "mark_loop value_count [] s = Some s"
| "mark_loop value_count (i # is) s = do { s' \<leftarrow> mark_inst value_count i s; mark_loop value_count is s' }"

primrec read_loop :: "nat list \<Rightarrow> nat list \<Rightarrow> u8 list \<Rightarrow> (u8 list \<times> nat list) option" where
  "read_loop [] parents types = Some ([], parents)"
| "read_loop (n # ns) parents types =
     do {
       (root, p) \<leftarrow> ny_nir_type_root parents n;
       (ts, p') \<leftarrow> read_loop ns p types;
       Some (types ! root # ts, p')
     }"

section \<open>The type map\<close>

record ny_nir_type_map =
  value_count :: nat
  local_count :: nat
  value_f64 :: "bool list"
  value_f32 :: "bool list"
  local_f64 :: "bool list"
  local_f32 :: "bool list"

text \<open>
  \<open>alloc n\<close> says whether the allocator grants \<open>n\<close> bytes; the inner \<open>None\<close> is the result \<open>false\<close>.
  Sizes are \<open>size_t\<close>. The array \<open>parents\<close> has eight bytes per node.
\<close>

definition size_of_int :: "int \<Rightarrow> nat" where
  "size_of_int v = nat (v mod 2 ^ 64)"

definition ny_nir_type_map_init :: "(nat \<Rightarrow> bool) \<Rightarrow> ny_nir_func \<Rightarrow> nat \<Rightarrow> ny_nir_type_map option option" where
  "ny_nir_type_map_init alloc nir locals =
     (let vals = size_of_int (fn_next_value nir); nodes = (vals + locals) mod 2 ^ 64 in
      if vals \<noteq> 0 \<and> \<not> alloc vals \<or> locals \<noteq> 0 \<and> \<not> alloc locals then Some None
      else if nodes \<noteq> 0 \<and> (\<not> alloc (nodes * 8 mod 2 ^ 64) \<or> \<not> alloc nodes) then Some None
      else
        do {
          parents \<leftarrow> union_loop vals locals (fn_data nir) [0..<nodes];
          (p, types) \<leftarrow> mark_loop vals (fn_data nir) (parents, replicate nodes 0);
          (vs, p') \<leftarrow> read_loop [0..<vals] p types;
          (ls, p'') \<leftarrow> read_loop (map (\<lambda>i. vals + i) [0..<locals]) p' types;
          Some (Some
            \<lparr>value_count = vals, local_count = locals,
             value_f64 = map (\<lambda>t. t AND 1 \<noteq> 0) vs, value_f32 = map (\<lambda>t. t AND 2 \<noteq> 0) vs,
             local_f64 = map (\<lambda>t. t AND 1 \<noteq> 0) ls, local_f32 = map (\<lambda>t. t AND 2 \<noteq> 0) ls\<rparr>)
        })"

end
