(* ===== verification/Nyir_Typemap_Correct.thy ===== *)
theory Nyir_Typemap_Correct
  imports Nyir_Typemap
begin

text \<open>
  The type map is the least solution of its constraints: a value is marked \<open>f64\<close> exactly when a chain
  of copies, loads and stores of locals links it to an operand or result of an \<open>f64\<close> operation. The
  proof states what a union-find structure promises as a locale, proves the three loops of the type
  map against it, and interprets it on the parent array with path compression.
\<close>

unbundle bit_operations_syntax

section \<open>Structures that keep a partition\<close>

text \<open>A loop over a list whose body may fail.\<close>

primrec bind_list :: "('a \<Rightarrow> 's \<Rightarrow> 's option) \<Rightarrow> 'a list \<Rightarrow> 's \<Rightarrow> 's option" where
  "bind_list f [] s = Some s"
| "bind_list f (x # xs) s = Option.bind (f x s) (bind_list f xs)"

lemma bind_list_append: "bind_list f (xs @ ys) s = Option.bind (bind_list f xs s) (bind_list f ys)"
  by (induction xs arbitrary: s) (simp_all split: bind_splits)

text \<open>The equivalence that a list of constraints generates.\<close>

definition linked :: "(nat \<times> nat) list \<Rightarrow> (nat \<times> nat) set" where
  "linked es = (set es \<union> (set es)\<inverse>)\<^sup>*"

lemma linked_refl [simp]: "(i, i) \<in> linked es"
  by (simp add: linked_def)

lemma linked_sym: "(i, j) \<in> linked es \<Longrightarrow> (j, i) \<in> linked es"
  unfolding linked_def by (rule symD [OF sym_rtrancl]) (auto simp: sym_def)

lemma linked_trans: "(i, j) \<in> linked es \<Longrightarrow> (j, k) \<in> linked es \<Longrightarrow> (i, k) \<in> linked es"
  unfolding linked_def by (rule rtrancl_trans)

lemma linked_edge: "(i, j) \<in> set es \<Longrightarrow> (i, j) \<in> linked es"
  unfolding linked_def by auto

lemma linked_mono: "(i, j) \<in> linked es \<Longrightarrow> (i, j) \<in> linked (es @ es')"
  unfolding linked_def by (erule rtrancl_mono [THEN subsetD, rotated]) auto

lemma linked_constant:
  assumes "(i, j) \<in> linked es" "\<And>a b. (a, b) \<in> set es \<Longrightarrow> R a = R b"
  shows "R i = R j"
  using assms(1) unfolding linked_def by (induction rule: rtrancl_induct) (auto dest: assms(2))

text \<open>\<open>reps s R\<close>: the structure represents the partition whose classes have the representatives \<open>R\<close>.\<close>

locale partition_structure =
  fixes find :: "'s \<Rightarrow> nat \<Rightarrow> (nat \<times> 's) option"
    and union :: "'s \<Rightarrow> nat \<Rightarrow> nat \<Rightarrow> 's option"
    and reps :: "'s \<Rightarrow> (nat \<Rightarrow> nat) \<Rightarrow> bool"
    and nodes :: "'s \<Rightarrow> nat"
  assumes rep_node: "\<lbrakk>reps s R; i < nodes s\<rbrakk> \<Longrightarrow> R i < nodes s \<and> R (R i) = R i"
    and find_rep: "\<lbrakk>reps s R; i < nodes s\<rbrakk> \<Longrightarrow>
      \<exists>s'. find s i = Some (R i, s') \<and> reps s' R \<and> nodes s' = nodes s"
    and union_rep: "\<lbrakk>reps s R; i < nodes s; j < nodes s\<rbrakk> \<Longrightarrow>
      \<exists>s'. union s i j = Some s' \<and> nodes s' = nodes s \<and> reps s' (\<lambda>k. if R k = R j then R i else R k)"
begin

definition solves :: "'s \<Rightarrow> (nat \<times> nat) list \<Rightarrow> (nat \<Rightarrow> nat) \<Rightarrow> bool" where
  "solves s es R \<longleftrightarrow> reps s R \<and> (\<forall>k<nodes s. (k, R k) \<in> linked es) \<and> (\<forall>(a, b)\<in>set es. R a = R b)"

lemma solves_iff:
  assumes "solves s es R" "i < nodes s" "j < nodes s"
  shows "R i = R j \<longleftrightarrow> (i, j) \<in> linked es"
proof
  assume "R i = R j"
  then have "(i, R i) \<in> linked es" "(R i, j) \<in> linked es"
    using assms linked_sym by (auto simp: solves_def)
  then show "(i, j) \<in> linked es"
    by (rule linked_trans)
next
  assume "(i, j) \<in> linked es"
  then show "R i = R j"
    using assms(1) by (auto simp: solves_def intro: linked_constant)
qed

lemma solves_union:
  assumes "solves s es R" "i < nodes s" "j < nodes s"
  shows "\<exists>s' R'. union s i j = Some s' \<and> nodes s' = nodes s \<and> solves s' (es @ [(i, j)]) R'"
proof -
  let ?R = "\<lambda>k. if R k = R j then R i else R k" and ?es = "es @ [(i, j)]"
  have k: "(k, R k) \<in> linked ?es" if "k < nodes s" for k
    using assms(1) that by (simp add: solves_def linked_mono)
  have "(R j, j) \<in> linked ?es" "(j, i) \<in> linked ?es" "(i, R i) \<in> linked ?es"
    using k [OF assms(2)] k [OF assms(3)] linked_sym linked_edge [of i j ?es] by auto
  then have "(R j, R i) \<in> linked ?es"
    by (blast intro: linked_trans)
  then have "(k, ?R k) \<in> linked ?es" if "k < nodes s" for k
    using k [OF that] by (auto intro: linked_trans)
  moreover have "\<forall>(a, b)\<in>set ?es. ?R a = ?R b"
    using assms(1) by (auto simp: solves_def)
  moreover obtain s' where "union s i j = Some s'" "nodes s' = nodes s" "reps s' ?R"
    using union_rep [of s R i j] assms by (auto simp: solves_def)
  ultimately show ?thesis
    by (intro exI [of _ s'] exI [of _ ?R]) (simp add: solves_def)
qed

lemma unions_solve:
  assumes "solves s es R" "\<forall>(a, b)\<in>set es'. a < nodes s \<and> b < nodes s"
  shows "\<exists>s' R'. bind_list (\<lambda>(a, b) s. union s a b) es' s = Some s' \<and> nodes s' = nodes s \<and> solves s' (es @ es') R'"
  using assms
proof (induction es' arbitrary: s es R)
  case (Cons e es')
  obtain a b where e: "e = (a, b)" "a < nodes s" "b < nodes s"
    using Cons.prems(2) by (cases e) auto
  obtain s' R' where s': "union s a b = Some s'" "nodes s' = nodes s" "solves s' (es @ [(a, b)]) R'"
    using solves_union [OF Cons.prems(1) e(2,3)] by blast
  show ?case
    using Cons.IH [OF s'(3)] Cons.prems(2) s'(1,2) e(1) by simp
qed auto

text \<open>Marks collect at the representatives.\<close>

definition mark :: "nat \<times> u8 \<Rightarrow> 's \<times> u8 list \<Rightarrow> ('s \<times> u8 list) option" where
  "mark m st = (case (m, st) of ((n, bits), s, t) \<Rightarrow>
     Option.bind (find s n) (\<lambda>(r, s'). Some (s', t[r := t ! r OR bits])))"

lemma marks_collect:
  assumes "reps s R" "length t = nodes s" "\<forall>(n, b)\<in>set ms. n < nodes s"
  shows "\<exists>s' t'. bind_list mark ms (s, t) = Some (s', t') \<and> reps s' R \<and> nodes s' = nodes s \<and> length t' = nodes s \<and>
    (\<forall>n<nodes s. \<forall>k. bit (t' ! R n) k \<longleftrightarrow> bit (t ! R n) k \<or> (\<exists>(m, b)\<in>set ms. R m = R n \<and> bit b k))"
  using assms
proof (induction ms arbitrary: s t)
  case (Cons x ms)
  obtain m b where x: "x = (m, b)" "m < nodes s"
    using Cons.prems(3) by (cases x) auto
  obtain s1 where s1: "find s m = Some (R m, s1)" "reps s1 R" "nodes s1 = nodes s"
    using find_rep [OF Cons.prems(1) x(2)] by blast
  let ?t = "t[R m := t ! R m OR b]"
  have t: "bit (?t ! R n) k \<longleftrightarrow> bit (t ! R n) k \<or> R m = R n \<and> bit b k" if "n < nodes s" for n k
    using rep_node [OF Cons.prems(1) x(2)] Cons.prems(2) by (auto simp: nth_list_update bit_or_iff)
  have "mark x (s, t) = Some (s1, ?t)"
    using s1(1) x(1) by (simp add: mark_def)
  moreover obtain s' t' where "bind_list mark ms (s1, ?t) = Some (s', t')" "reps s' R" "nodes s' = nodes s" "length t' = nodes s"
      "\<forall>n<nodes s. \<forall>k. bit (t' ! R n) k \<longleftrightarrow> bit (?t ! R n) k \<or> (\<exists>(m, b)\<in>set ms. R m = R n \<and> bit b k)"
    using Cons.IH [OF s1(2), of ?t] Cons.prems(2,3) s1(3) by auto
  ultimately show ?case
    using t x(1) by auto
qed simp

end

section \<open>The parent array\<close>

text \<open>
  \<open>R\<close> gives the root of every node and \<open>d\<close> a depth that falls on the way to it. Path compression
  keeps both; a union moves the nodes below the right root under the left one.
\<close>

definition forest :: "nat list \<Rightarrow> (nat \<Rightarrow> nat) \<Rightarrow> (nat \<Rightarrow> nat) \<Rightarrow> bool" where
  "forest ps R d \<longleftrightarrow> (\<forall>i<length ps. ps ! i < length ps \<and> R i < length ps \<and> R (ps ! i) = R i \<and> R (R i) = R i \<and>
     (ps ! i = i \<longleftrightarrow> R i = i) \<and> (ps ! i \<noteq> i \<longrightarrow> d (ps ! i) < d i \<and> d (R i) < d i))"

lemma forestD:
  assumes "forest ps R d" "i < length ps"
  shows "ps ! i < length ps" "R i < length ps" "R (ps ! i) = R i" "R (R i) = R i" "ps ! i = i \<longleftrightarrow> R i = i"
    "ps ! i \<noteq> i \<Longrightarrow> d (ps ! i) < d i" "ps ! i \<noteq> i \<Longrightarrow> d (R i) < d i"
  using assms by (auto simp: forest_def)

lemma root_find_forest:
  assumes "forest ps R d" "i < length ps"
  shows "root_find ps i = Some (R i)"
  using assms(2)
proof (induction "d i" arbitrary: i rule: less_induct)
  case less
  note f = forestD [OF assms(1) less.prems]
  show ?case
  proof (cases "ps ! i = i")
    case True
    then show ?thesis
      using less.prems f(5) by (subst root_find.simps) simp
  next
    case False
    then show ?thesis
      using less.hyps [OF f(6) f(1)] less.prems f(3) by (subst root_find.simps) simp
  qed
qed

lemma forest_compress:
  assumes "forest ps R d" "i < length ps" "ps ! i \<noteq> i"
  shows "forest (ps[i := R i]) R d"
  using assms forestD [OF assms(1)] unfolding forest_def by (auto simp: nth_list_update)

lemma root_compress_forest:
  assumes "forest ps R d" "i < length ps" "r = R i"
  shows "\<exists>ps'. root_compress ps r i = Some ps' \<and> forest ps' R d \<and> length ps' = length ps"
  using assms
proof (induction "d i" arbitrary: ps i rule: less_induct)
  case less
  note f = forestD [OF less.prems(1,2)]
  show ?case
  proof (cases "ps ! i = i")
    case True
    then show ?thesis
      using less.prems by (subst root_compress.simps) simp
  next
    case False
    have "\<exists>ps'. root_compress (ps[i := r]) r (ps ! i) = Some ps' \<and> forest ps' R d \<and> length ps' = length (ps[i := r])"
      using less.hyps [OF f(6) [OF False], of "ps[i := r]"] forest_compress [OF less.prems(1,2) False] f(1,3) less.prems(3)
      by simp
    then show ?thesis
      using less.prems False by (subst root_compress.simps) simp
  qed
qed

lemma type_root_forest:
  assumes "forest ps R d" "i < length ps"
  shows "\<exists>ps'. ny_nir_type_root ps i = Some (R i, ps') \<and> forest ps' R d \<and> length ps' = length ps"
  using root_find_forest [OF assms] root_compress_forest [OF assms refl] by (auto simp: ny_nir_type_root_def)

lemma forest_union:
  assumes "forest ps R d" "i < length ps" "j < length ps" "R i \<noteq> R j"
  shows "\<exists>d'. forest (ps[R j := R i]) (\<lambda>k. if R k = R j then R i else R k) d'"
proof -
  let ?d = "\<lambda>k. if R k = R j then d k + d (R i) + 1 else d k"
  have r: "R i < length ps" "R j < length ps" "R (R i) = R i" "R (R j) = R j"
    using forestD [OF assms(1)] assms(2,3) by auto
  have "forest (ps[R j := R i]) (\<lambda>k. if R k = R j then R i else R k) ?d"
    unfolding forest_def length_list_update
  proof (intro allI impI)
    fix k
    assume k: "k < length ps"
    note f = forestD [OF assms(1) k]
    consider "k = R j" | "k \<noteq> R j" "R k = R j" "ps ! k \<noteq> k" "k \<noteq> R i" | "k \<noteq> R j" "R k \<noteq> R j"
      using f(5) r(3) assms(4) by metis
    then show "ps[R j := R i] ! k < length ps \<and> (if R k = R j then R i else R k) < length ps \<and>
      (if R (ps[R j := R i] ! k) = R j then R i else R (ps[R j := R i] ! k)) = (if R k = R j then R i else R k) \<and>
      (if R (if R k = R j then R i else R k) = R j then R i else R (if R k = R j then R i else R k)) =
        (if R k = R j then R i else R k) \<and>
      (ps[R j := R i] ! k = k \<longleftrightarrow> (if R k = R j then R i else R k) = k) \<and>
      (ps[R j := R i] ! k \<noteq> k \<longrightarrow> ?d (ps[R j := R i] ! k) < ?d k \<and> ?d (if R k = R j then R i else R k) < ?d k)"
    proof cases
      case 1
      then show ?thesis
        using r assms(4) k by simp
    next
      case 2
      then show ?thesis
        using r f assms(4) k by simp
    next
      case 3
      then show ?thesis
        using r f assms(4) k by simp
    qed
  qed
  then show ?thesis
    by blast
qed

lemma type_union_forest:
  assumes "forest ps R d" "i < length ps" "j < length ps"
  shows "\<exists>ps'. ny_nir_type_union ps i j = Some ps' \<and> length ps' = length ps \<and>
    (\<exists>d'. forest ps' (\<lambda>k. if R k = R j then R i else R k) d')"
proof -
  obtain ps1 where ps1: "ny_nir_type_root ps i = Some (R i, ps1)" "forest ps1 R d" "length ps1 = length ps"
    using type_root_forest [OF assms(1,2)] by blast
  then obtain ps2 where ps2: "ny_nir_type_root ps1 j = Some (R j, ps2)" "forest ps2 R d" "length ps2 = length ps"
    using type_root_forest [OF ps1(2), of j] assms(3) by auto
  show ?thesis
  proof (cases "R i = R j")
    case True
    then have "(\<lambda>k. if R k = R j then R i else R k) = R"
      by auto
    then show ?thesis
      using True ps1(1) ps2 by (auto simp: ny_nir_type_union_def)
  next
    case False
    then show ?thesis
      using forest_union [OF ps2(2) _ _ False] ps1(1) ps2(1,3) assms(2,3) by (auto simp: ny_nir_type_union_def)
  qed
qed

definition forest_reps :: "nat list \<Rightarrow> (nat \<Rightarrow> nat) \<Rightarrow> bool" where
  "forest_reps ps R \<longleftrightarrow> (\<exists>d. forest ps R d)"

interpretation parents: partition_structure ny_nir_type_root ny_nir_type_union forest_reps length
proof unfold_locales
  show "R i < length ps \<and> R (R i) = R i" if "forest_reps ps R" "i < length ps" for ps R i
    using that forestD(2,4) by (auto simp: forest_reps_def)
  show "\<exists>ps'. ny_nir_type_root ps i = Some (R i, ps') \<and> forest_reps ps' R \<and> length ps' = length ps"
    if "forest_reps ps R" "i < length ps" for ps R i
    using that type_root_forest unfolding forest_reps_def by blast
  show "\<exists>ps'. ny_nir_type_union ps i j = Some ps' \<and> length ps' = length ps \<and> forest_reps ps' (\<lambda>k. if R k = R j then R i else R k)"
    if "forest_reps ps R" "i < length ps" "j < length ps" for ps R i j
    using that type_union_forest unfolding forest_reps_def by blast
qed

section \<open>The loops of the type map\<close>

text \<open>The constraints of an instruction, and the nodes it marks.\<close>

definition type_edges :: "nat \<Rightarrow> nat \<Rightarrow> ny_nir_inst \<Rightarrow> (nat \<times> nat) list" where
  "type_edges vals locals i =
     (if i_op i = NY_NIR_COPY \<and> value_index vals (i_dst i) \<and> value_index vals (i_a i)
      then [(nat (i_dst i), nat (i_a i))] else []) @
     (if i_op i = NY_NIR_LOAD_LOCAL \<and> value_index vals (i_dst i) \<and> local_index locals (i_imm i)
      then [(nat (i_dst i), vals + unat (i_imm i))] else []) @
     (if i_op i = NY_NIR_STORE_LOCAL \<and> value_index vals (i_a i) \<and> local_index locals (i_imm i)
      then [(nat (i_a i), vals + unat (i_imm i))] else [])"

definition type_sites :: "nat \<Rightarrow> ny_nir_inst \<Rightarrow> (nat \<times> u8) list" where
  "type_sites vals i =
     map (\<lambda>(v, b). (nat v, b)) (filter (\<lambda>(v, b). value_index vals v)
       [(i_dst i, type_bits (f64_result i) (f32_result i)), (i_a i, type_bits (f64_operands i) (f32_operands i)),
        (i_b i, type_bits (f64_operands i) (f32_operands i))])"

lemma union_loop_edges:
  "union_loop vals locals is ps =
     bind_list (\<lambda>(a, b) s. ny_nir_type_union s a b) (concat (map (type_edges vals locals) is)) ps"
  by (induction "is" arbitrary: ps) (auto simp: bind_list_append union_inst_def type_edges_def split: bind_splits)

lemma mark_value_site:
  "mark_value vals v b s = bind_list parents.mark (if value_index vals v then [(nat v, b)] else []) s"
  by (cases s) (auto simp: mark_value_def parents.mark_def split: bind_splits)

lemma mark_inst_sites: "mark_inst vals i s = bind_list parents.mark (type_sites vals i) s"
  by (simp add: mark_inst_def mark_value_site type_sites_def split: bind_splits)

lemma mark_loop_sites:
  "mark_loop vals is s = bind_list parents.mark (concat (map (type_sites vals) is)) s"
  by (induction "is" arbitrary: s) (simp_all add: bind_list_append mark_inst_sites)

lemma read_loop_types:
  assumes "forest_reps p R" "\<forall>n\<in>set ns. n < length p"
  shows "\<exists>p'. read_loop ns p types = Some (map (\<lambda>n. types ! R n) ns, p') \<and> forest_reps p' R \<and> length p' = length p"
  using assms
proof (induction ns arbitrary: p)
  case (Cons n ns)
  obtain p1 where p1: "ny_nir_type_root p n = Some (R n, p1)" "forest_reps p1 R" "length p1 = length p"
    using parents.find_rep [OF Cons.prems(1), of n] Cons.prems(2) by auto
  then show ?case
    using Cons.IH [OF p1(2)] Cons.prems(2) by auto
qed simp

lemma edges_in_range: "\<forall>(a, b)\<in>set (concat (map (type_edges vals locals) is)). a < vals + locals \<and> b < vals + locals"
  by (auto simp: type_edges_def value_index_def local_index_def split: if_splits)

lemma sites_in_range: "\<forall>(n, b)\<in>set (concat (map (type_sites vals) is)). n < vals"
  by (auto simp: type_sites_def value_index_def)

lemma initial_forest: "parents.solves [0..<n] [] (\<lambda>k. k)"
  by (auto simp: parents.solves_def forest_reps_def forest_def)

section \<open>What the type map says\<close>

text \<open>The nodes whose type a chain of copies, loads and stores equates; locals come after the values.\<close>

definition type_links :: "ny_nir_func \<Rightarrow> nat \<Rightarrow> (nat \<times> nat) set" where
  "type_links f locals = linked (concat (map (type_edges (nat (fn_next_value f)) locals) (fn_data f)))"

definition f64_site :: "ny_nir_func \<Rightarrow> nat \<Rightarrow> bool" where
  "f64_site f j \<longleftrightarrow> (\<exists>i\<in>set (fn_data f). i_dst i = int j \<and> f64_result i \<or> (i_a i = int j \<or> i_b i = int j) \<and> f64_operands i)"

definition f32_site :: "ny_nir_func \<Rightarrow> nat \<Rightarrow> bool" where
  "f32_site f j \<longleftrightarrow> (\<exists>i\<in>set (fn_data f). i_dst i = int j \<and> f32_result i \<or> (i_a i = int j \<or> i_b i = int j) \<and> f32_operands i)"

lemma type_bits_bits: "bit (type_bits x y) 0 \<longleftrightarrow> x" "bit (type_bits x y) 1 \<longleftrightarrow> y"
  by (cases x; cases y; simp add: type_bits_def bit_0)+

lemma in_type_sites:
  "(m, b) \<in> set (type_sites vals i) \<longleftrightarrow> m < vals \<and>
     (i_dst i = int m \<and> b = type_bits (f64_result i) (f32_result i) \<or>
      (i_a i = int m \<or> i_b i = int m) \<and> b = type_bits (f64_operands i) (f32_operands i))"
  by (auto simp: type_sites_def value_index_def)

lemma in_all_sites:
  "(m, b) \<in> set (concat (map (type_sites vals) is)) \<longleftrightarrow> m < vals \<and> (\<exists>i\<in>set is.
     i_dst i = int m \<and> b = type_bits (f64_result i) (f32_result i) \<or>
     (i_a i = int m \<or> i_b i = int m) \<and> b = type_bits (f64_operands i) (f32_operands i))"
  by (auto simp: in_type_sites)

lemma sites_f64:
  "(\<exists>(m, b)\<in>set (concat (map (type_sites vals) (fn_data f))). P m \<and> bit b 0) \<longleftrightarrow>
   (\<exists>j<vals. P j \<and> f64_site f j)"
  unfolding f64_site_def Bex_def split_paired_Ex prod.case in_all_sites using type_bits_bits(1) by blast

lemma sites_f32:
  "(\<exists>(m, b)\<in>set (concat (map (type_sites vals) (fn_data f))). P m \<and> bit b 1) \<longleftrightarrow>
   (\<exists>j<vals. P j \<and> f32_site f j)"
  unfolding f32_site_def Bex_def split_paired_Ex prod.case in_all_sites using type_bits_bits(2) by blast

lemma and_bits: "t AND 1 \<noteq> 0 \<longleftrightarrow> bit t 0" "t AND 2 \<noteq> 0 \<longleftrightarrow> bit t 1" for t :: u8
  by (simp_all add: and_exp_eq_0_iff_not_bit [of t 1, simplified] and_one_eq bit_0 odd_iff_mod_2_eq_one)

text \<open>The state after the union and marking loops, and what the reading loops find in it.\<close>

lemma type_loops:
  fixes f :: ny_nir_func and locals :: nat
  defines "vals \<equiv> nat (fn_next_value f)"
  shows "\<exists>ps p types vs p' p''. union_loop vals locals (fn_data f) [0..<vals + locals] = Some ps \<and>
    mark_loop vals (fn_data f) (ps, replicate (vals + locals) 0) = Some (p, types) \<and>
    read_loop [0..<vals] p types = Some (map ((!) vs) [0..<vals], p') \<and>
    read_loop (map (\<lambda>i. vals + i) [0..<locals]) p' types = Some (map (\<lambda>i. vs ! (vals + i)) [0..<locals], p'') \<and>
    length vs = vals + locals \<and>
    (\<forall>n<vals + locals.
       (bit (vs ! n) 0 \<longleftrightarrow> (\<exists>j<vals. (n, j) \<in> type_links f locals \<and> f64_site f j)) \<and>
       (bit (vs ! n) 1 \<longleftrightarrow> (\<exists>j<vals. (n, j) \<in> type_links f locals \<and> f32_site f j)))"
proof -
  let ?n = "vals + locals" and ?es = "concat (map (type_edges vals locals) (fn_data f))"
    and ?ms = "concat (map (type_sites vals) (fn_data f))"
  obtain ps R where ps: "union_loop vals locals (fn_data f) [0..<?n] = Some ps" "length ps = ?n" "parents.solves ps ?es R"
    using parents.unions_solve [OF initial_forest, of ?es ?n] edges_in_range [of vals locals "fn_data f"]
    unfolding union_loop_edges by auto
  have R: "forest_reps ps R"
    using ps(3) by (simp add: parents.solves_def)
  have link: "R j = R i \<longleftrightarrow> (i, j) \<in> type_links f locals" if "i < ?n" "j < ?n" for i j
    using parents.solves_iff [OF ps(3), of i j] ps(2) that unfolding type_links_def vals_def by auto
  obtain p types where p: "mark_loop vals (fn_data f) (ps, replicate ?n 0) = Some (p, types)" "forest_reps p R" "length p = ?n"
      "\<forall>n<?n. \<forall>k. bit (types ! R n) k \<longleftrightarrow> bit (replicate ?n (0 :: u8) ! R n) k \<or> (\<exists>(m, b)\<in>set ?ms. R m = R n \<and> bit b k)"
    using parents.marks_collect [OF R, of "replicate ?n 0" ?ms] sites_in_range [of vals "fn_data f"] ps(2)
    unfolding mark_loop_sites by fastforce
  define vs where "vs = map (\<lambda>n. types ! R n) [0..<?n]"
  have vs: "length vs = ?n" "\<And>n. n < ?n \<Longrightarrow> vs ! n = types ! R n"
    by (simp_all add: vs_def)
  have bits: "bit (vs ! n) k \<longleftrightarrow> (\<exists>(m, b)\<in>set ?ms. R m = R n \<and> bit b k)" if "n < ?n" for n k
    using p(4) that vs(2) parents.rep_node [OF p(2), of n] p(3) by simp
  have "bit (vs ! n) 0 \<longleftrightarrow> (\<exists>j<vals. (n, j) \<in> type_links f locals \<and> f64_site f j)"
    "bit (vs ! n) 1 \<longleftrightarrow> (\<exists>j<vals. (n, j) \<in> type_links f locals \<and> f32_site f j)" if "n < ?n" for n
    using link that unfolding bits [OF that] sites_f64 sites_f32 by auto
  moreover obtain p' where p': "read_loop [0..<vals] p types = Some (map ((!) vs) [0..<vals], p')" "forest_reps p' R" "length p' = ?n"
    using read_loop_types [OF p(2), of "[0..<vals]" types] p(3) vs(2) by (auto cong: map_cong)
  moreover obtain p'' where "read_loop (map (\<lambda>i. vals + i) [0..<locals]) p' types = Some (map (\<lambda>i. vs ! (vals + i)) [0..<locals], p'')"
    using read_loop_types [OF p'(2), of "map (\<lambda>i. vals + i) [0..<locals]" types] p'(3) vs(2) by (auto simp: o_def cong: map_cong)
  ultimately show ?thesis
    using ps(1) p(1) vs(1) by blast
qed

text \<open>
  C14: the type map is the least solution of the type constraints. When memory is granted, the
  computation ends, and a value or local is marked \<open>f64\<close> (\<open>f32\<close>) exactly when copies, loads and stores
  link it to a value that an \<open>f64\<close> (\<open>f32\<close>) operation produces or uses.
\<close>

theorem type_map_least_solution:
  assumes "0 \<le> fn_next_value f" "is_i32 (fn_next_value f)" "locals < 2 ^ 60"
    and "\<forall>n\<le>8 * (nat (fn_next_value f) + locals). alloc n"
  shows "\<exists>m. ny_nir_type_map_init alloc f locals = Some (Some m) \<and>
    value_count m = nat (fn_next_value f) \<and> local_count m = locals \<and>
    length (value_f64 m) = value_count m \<and> length (value_f32 m) = value_count m \<and>
    length (local_f64 m) = locals \<and> length (local_f32 m) = locals \<and>
    (\<forall>i<value_count m.
       (value_f64 m ! i \<longleftrightarrow> (\<exists>j<value_count m. (i, j) \<in> type_links f locals \<and> f64_site f j)) \<and>
       (value_f32 m ! i \<longleftrightarrow> (\<exists>j<value_count m. (i, j) \<in> type_links f locals \<and> f32_site f j))) \<and>
    (\<forall>i<locals.
       (local_f64 m ! i \<longleftrightarrow> (\<exists>j<value_count m. (value_count m + i, j) \<in> type_links f locals \<and> f64_site f j)) \<and>
       (local_f32 m ! i \<longleftrightarrow> (\<exists>j<value_count m. (value_count m + i, j) \<in> type_links f locals \<and> f32_site f j)))"
proof -
  let ?v = "nat (fn_next_value f)"
  have v: "size_of_int (fn_next_value f) = ?v" "(?v + locals) mod 2 ^ 64 = ?v + locals" "(?v + locals) * 8 mod 2 ^ 64 = (?v + locals) * 8"
    using assms(1-3) by (simp_all add: size_of_int_def is_i32_def)
  obtain ps p types vs p' p'' where l: "union_loop ?v locals (fn_data f) [0..<?v + locals] = Some ps"
      "mark_loop ?v (fn_data f) (ps, replicate (?v + locals) 0) = Some (p, types)"
      "read_loop [0..<?v] p types = Some (map ((!) vs) [0..<?v], p')"
      "read_loop (map (\<lambda>i. ?v + i) [0..<locals]) p' types = Some (map (\<lambda>i. vs ! (?v + i)) [0..<locals], p'')"
      and bits: "\<forall>n<?v + locals.
       (bit (vs ! n) 0 \<longleftrightarrow> (\<exists>j<?v. (n, j) \<in> type_links f locals \<and> f64_site f j)) \<and>
       (bit (vs ! n) 1 \<longleftrightarrow> (\<exists>j<?v. (n, j) \<in> type_links f locals \<and> f32_site f j))"
    using type_loops [of f locals] by (elim exE conjE) (rule that)
  have "ny_nir_type_map_init alloc f locals = Some (Some
      \<lparr>value_count = ?v, local_count = locals,
       value_f64 = map (\<lambda>t. bit t 0) (map ((!) vs) [0..<?v]), value_f32 = map (\<lambda>t. bit t 1) (map ((!) vs) [0..<?v]),
       local_f64 = map (\<lambda>t. bit t 0) (map (\<lambda>i. vs ! (?v + i)) [0..<locals]),
       local_f32 = map (\<lambda>t. bit t 1) (map (\<lambda>i. vs ! (?v + i)) [0..<locals])\<rparr>)"
    using assms(4) unfolding ny_nir_type_map_init_def Let_def v and_bits by (simp add: l)
  then show ?thesis
    using bits by simp
qed

text \<open>A float that reaches value 2 through local 0, beside an integer.\<close>

definition float_chain :: ny_nir_func where
  "float_chain =
     \<lparr>fn_data =
        [blank_inst\<lparr>i_op := NYIR_CONST_F64, i_dst := 0\<rparr>,
         blank_inst\<lparr>i_op := NY_NIR_STORE_LOCAL, i_a := 0\<rparr>,
         blank_inst\<lparr>i_op := NY_NIR_LOAD_LOCAL, i_dst := 1\<rparr>,
         blank_inst\<lparr>i_op := NY_NIR_COPY, i_dst := 2, i_a := 1\<rparr>,
         blank_inst\<lparr>i_op := NY_NIR_CONST_I64, i_dst := 3\<rparr>],
      fn_next_value = 4\<rparr>"

lemma float_chain_links: "type_links float_chain 1 = linked [(0, 4), (1, 4), (2, 1)]"
  by (simp add: type_links_def float_chain_def type_edges_def blank_inst_def zero_inst_def value_index_def
      local_index_def nonneg_def)

lemma float_chain_site: "f64_site float_chain j \<longleftrightarrow> j = 0"
  by (auto simp: f64_site_def float_chain_def f64_result_def f64_operands_def ny_nir_op_f64_def blank_inst_def zero_inst_def)

theorem type_map_least_solution_witness:
  "\<exists>m. ny_nir_type_map_init (\<lambda>n. n \<le> 1000) float_chain 1 = Some (Some m) \<and>
    value_f64 m ! 2 \<and> local_f64 m ! 0 \<and> \<not> value_f64 m ! 3"
proof -
  let ?es = "[(0, 4), (1, 4), (2, 1)] :: (nat \<times> nat) list"
  have n: "fn_next_value float_chain = 4"
    by (simp add: float_chain_def)
  have "\<exists>m. ny_nir_type_map_init (\<lambda>n. n \<le> 1000) float_chain 1 = Some (Some m) \<and> value_count m = 4 \<and>
      (\<forall>i<4. value_f64 m ! i \<longleftrightarrow> (i, 0) \<in> linked ?es) \<and> (local_f64 m ! 0 \<longleftrightarrow> (4, 0) \<in> linked ?es)"
    using type_map_least_solution [of float_chain 1 "\<lambda>n. n \<le> 1000"]
    unfolding n float_chain_links float_chain_site by (rule ex_forward) (simp_all add: is_i32_def)
  then obtain m where m: "ny_nir_type_map_init (\<lambda>n. n \<le> 1000) float_chain 1 = Some (Some m)" "value_count m = 4"
      "\<forall>i<4. value_f64 m ! i \<longleftrightarrow> (i, 0) \<in> linked ?es" "local_f64 m ! 0 \<longleftrightarrow> (4, 0) \<in> linked ?es"
    by blast
  have e: "(0, 4) \<in> linked ?es" "(1, 4) \<in> linked ?es" "(2, 1) \<in> linked ?es"
    by (simp_all add: linked_edge)
  then have "(4, 0) \<in> linked ?es" "(2, 0) \<in> linked ?es"
    by (blast intro: linked_sym linked_trans)+
  moreover have "(3, 0) \<notin> linked ?es"
  proof
    assume "(3, 0) \<in> linked ?es"
    then have "(3 = (3 :: nat)) = (0 = (3 :: nat))"
      by (rule linked_constant [where R = "\<lambda>k. k = 3"]) auto
    then show False
      by simp
  qed
  ultimately show ?thesis
    using m by auto
qed

end
