(* ===== verification/Rt_Value.thy ===== *)
theory Rt_Value
  imports Prelude
begin

unbundle bit_operations_syntax

text \<open>
  The tagged values of the runtime (\<open>src/rt/shared.h\<close>). A value is a 64-bit word; small integers carry
  tag bit 1 and hold 63 bits.
\<close>

section \<open>Tagging\<close>

definition is_int :: "i64 \<Rightarrow> bool" where
  "is_int v \<longleftrightarrow> v AND 1 \<noteq> 0"

definition rt_tag_v :: "i64 \<Rightarrow> i64" where
  "rt_tag_v v = push_bit 1 v OR 1"

definition rt_untag_v :: "i64 \<Rightarrow> i64" where
  "rt_untag_v v =
     (if is_int v then signed_drop_bit 1 v
      else if v AND 7 = 6 then drop_bit 3 v
      else v)"

definition NY_IMM_NIL :: i64 where "NY_IMM_NIL = 0"
definition NY_IMM_FALSE :: i64 where "NY_IMM_FALSE = 2"
definition NY_IMM_TRUE :: i64 where "NY_IMM_TRUE = 8"

definition NY_SMALL_INT_MIN :: i64 where "NY_SMALL_INT_MIN = - 4611686018427387904"
definition NY_SMALL_INT_MAX :: i64 where "NY_SMALL_INT_MAX = 4611686018427387903"

definition rt_is_falsy :: "i64 \<Rightarrow> bool" where
  "rt_is_falsy v \<longleftrightarrow> v = NY_IMM_NIL \<or> v = NY_IMM_FALSE \<or> v = rt_tag_v 0"

section \<open>Tagging and untagging are inverse on 63-bit integers\<close>

definition small_int :: "i64 \<Rightarrow> bool" where
  "small_int x \<longleftrightarrow> sint NY_SMALL_INT_MIN \<le> sint x \<and> sint x \<le> sint NY_SMALL_INT_MAX"

lemma small_int_iff: "small_int x \<longleftrightarrow> - (2 ^ 62) \<le> sint x \<and> sint x < 2 ^ 62"
  by (auto simp: small_int_def NY_SMALL_INT_MIN_def NY_SMALL_INT_MAX_def)

lemma rt_tag_v_eq: "rt_tag_v x = 2 * x + 1"
  by (simp add: rt_tag_v_def push_bit_eq_mult or_one_eq)

lemma is_int_odd: "is_int v \<longleftrightarrow> odd v"
  by (simp add: is_int_def and_one_eq mod_2_eq_odd)

lemma even_sint: "even (sint (v :: i64)) \<longleftrightarrow> even v"
proof -
  have "bit (sint v) 0 \<longleftrightarrow> bit v 0"
    by (simp add: bit_sint_iff)
  then show ?thesis
    by (simp add: bit_0)
qed

lemma sint_inj: "sint (v :: i64) = sint w \<Longrightarrow> v = w"
  by (drule signed_word_eqI)

lemma is_int_tag [simp]: "is_int (rt_tag_v x)"
  by (simp add: is_int_odd rt_tag_v_eq)

lemma sint_tag:
  assumes "small_int x"
  shows "sint (rt_tag_v x) = 2 * sint x + 1"
proof -
  have "rt_tag_v x = word_of_int (2 * sint x + 1)"
    by (simp add: rt_tag_v_eq)
  then have "sint (rt_tag_v x) = signed_take_bit 63 (2 * sint x + 1)"
    by (simp only: signed_of_int) simp
  then show ?thesis
    using assms by (simp add: small_int_iff signed_take_bit_int_eq_self)
qed

lemma sint_untag: "is_int v \<Longrightarrow> sint (rt_untag_v v) = sint v div 2"
  by (simp add: rt_untag_v_def sint_signed_drop_bit_eq drop_bit_eq_div)

lemma untag_tag_small: "small_int x \<Longrightarrow> rt_untag_v (rt_tag_v x) = x"
  by (rule sint_inj) (simp add: sint_untag sint_tag)

lemma untag_small: "is_int v \<Longrightarrow> small_int (rt_untag_v v)"
  using sint_i64_bounds [of v] by (auto simp: small_int_iff sint_untag)

lemma tag_untag:
  assumes "is_int v"
  shows "rt_tag_v (rt_untag_v v) = v"
proof -
  have "odd (sint v)"
    using assms by (simp add: is_int_odd even_sint)
  then have "sint (rt_tag_v (rt_untag_v v)) = sint v"
    by (simp add: sint_tag untag_small assms sint_untag)
  then show ?thesis
    by (rule sint_inj)
qed

lemma untag_tag:
  assumes "x AND 0x1fffffffffffffff = x"
  shows "rt_untag_v (rt_tag_v x) = x"
proof -
  have "(0x1fffffffffffffff :: i64) = mask 61"
    by (simp add: mask_eq_exp_minus_1)
  then have "x = take_bit 61 x"
    using assms by (simp add: take_bit_eq_mask)
  then have "uint x = take_bit 61 (uint x)"
    by (metis unsigned_take_bit_eq)
  then have "uint x < 2 ^ 61"
    by (metis take_bit_int_less_exp)
  then show ?thesis
    by (intro untag_tag_small) (simp add: small_int_iff sint_i64 order_trans [OF _ unsigned_greater_eq])
qed

end
