(* ===== verification/Proof_Cert.thy ===== *)
theory Proof_Cert
  imports Rt_Value
begin

text \<open>
  The propositional proof certificates of \<open>src/rt/proof.c\<close>: the parser of canonical formulas, the
  evaluator with its step budget, the digest, and the check that tries every assignment.
\<close>

unbundle bit_operations_syntax

section \<open>Strings\<close>

text \<open>
  The bytes of a string live in the heap of the runtime, which is a parameter: \<open>strs v\<close> is the string at \<open>v\<close>, or \<open>None\<close> when
  \<open>is_v_str\<close> is false.
\<close>

type_synonym text_bytes = "nat list"
type_synonym str_heap = "i64 \<Rightarrow> text_bytes option"

section \<open>The digest\<close>

definition rt_proof_hash_bytes :: "u64 \<Rightarrow> text_bytes \<Rightarrow> u64" where
  "rt_proof_hash_bytes hash text = foldl (\<lambda>h c. (h XOR of_nat c) * 1099511628211) hash text"

text \<open>The four parts, each followed by a zero byte; \<open>None\<close> is the C result \<open>-1\<close>.\<close>

fun hash_parts :: "u64 \<Rightarrow> text_bytes list \<Rightarrow> u64" where
  "hash_parts hash [] = hash"
| "hash_parts hash (p # ps) = hash_parts (rt_proof_hash_bytes (rt_proof_hash_bytes hash p) [0]) ps"

definition rt_proof_digest_value :: "str_heap \<Rightarrow> i64 \<Rightarrow> i64 \<Rightarrow> i64 \<Rightarrow> i64 \<Rightarrow> i64 option" where
  "rt_proof_digest_value strs canonical_v module_version_v dependency_digest_v checker_version_v =
     (case (strs canonical_v, strs module_version_v, strs dependency_digest_v, strs checker_version_v) of
        (Some c, Some m, Some d, Some k) \<Rightarrow>
          Some (hash_parts 1469598103934665603 [c, m, d, k] AND 0x1fffffffffffffff)
      | _ \<Rightarrow> None)"

definition rt_proof_cert_digest :: "str_heap \<Rightarrow> i64 \<Rightarrow> i64 \<Rightarrow> i64 \<Rightarrow> i64 \<Rightarrow> i64" where
  "rt_proof_cert_digest strs canonical_v module_version_v dependency_digest_v checker_version_v =
     (case rt_proof_digest_value strs canonical_v module_version_v dependency_digest_v checker_version_v of
        None \<Rightarrow> NY_IMM_NIL
      | Some digest \<Rightarrow> rt_tag_v digest)"

section \<open>The parser\<close>

text \<open>
  Positions and lengths are \<open>size_t\<close>: natural numbers below \<open>2 ^ 64\<close> whose arithmetic wraps. An
  atom is kept as the position and length of its name in the text.
\<close>

abbreviation SIZE_MOD :: nat where
  "SIZE_MOD \<equiv> 2 ^ 64"

definition size_add :: "nat \<Rightarrow> nat \<Rightarrow> nat" where
  "size_add a b = (a + b) mod SIZE_MOD"

definition size_sub :: "nat \<Rightarrow> nat \<Rightarrow> nat" where
  "size_sub a b = (a + SIZE_MOD - b) mod SIZE_MOD"

record rt_proof_node =
  n_kind :: nat
  n_left :: int
  n_right :: int
  n_atom :: int

record rt_proof_parser =
  p_pos :: nat
  p_nodes :: "rt_proof_node list"
  p_atoms :: "(nat \<times> nat) list"

text \<open>The limits of a check.\<close>

record proof_limits =
  max_nodes :: int
  max_variables :: int
  max_depth :: int

text \<open>
  \<open>Malformed\<close> stands for the C results \<open>false\<close> and \<open>-1\<close>; \<open>OutOfBounds\<close> for a read outside of the
  text, whose effect C leaves undefined.
\<close>

datatype parse_error = Malformed | OutOfBounds

definition is_digit :: "nat \<Rightarrow> bool" where
  "is_digit c \<longleftrightarrow> 48 \<le> c \<and> c \<le> 57"

function decimal_loop :: "text_bytes \<Rightarrow> nat \<Rightarrow> nat \<Rightarrow> (nat \<times> nat) option" where
  "decimal_loop text pos out =
     (if pos < length text \<and> is_digit (text ! pos) then
        (let digit = text ! pos - 48 in
         if out > (SIZE_MOD - 1 - digit) div 10 then None
         else decimal_loop text (Suc pos) (out * 10 + digit))
      else Some (pos, out))"
  by pat_completeness auto
termination
  by (relation "measure (\<lambda>(text, pos, out). length text - pos)") auto

declare decimal_loop.simps [simp del]

definition rt_proof_parse_decimal :: "text_bytes \<Rightarrow> nat \<Rightarrow> (nat \<times> nat) option" where
  "rt_proof_parse_decimal text pos =
     (if pos \<ge> length text \<or> \<not> is_digit (text ! pos) then None
      else (case decimal_loop text pos 0 of
              None \<Rightarrow> None
            | Some (pos', out) \<Rightarrow>
                if pos' \<ge> length text \<or> text ! pos' \<noteq> 58 then None else Some (Suc pos', out)))"

definition slice :: "text_bytes \<Rightarrow> nat \<Rightarrow> nat \<Rightarrow> text_bytes" where
  "slice text pos len = take len (drop pos text)"

text \<open>The search compares names of equal length byte by byte.\<close>

fun atom_find :: "text_bytes \<Rightarrow> (nat \<times> nat) list \<Rightarrow> nat \<Rightarrow> nat \<Rightarrow> nat \<Rightarrow> parse_error + nat option" where
  "atom_find text [] i pos len = Inr None"
| "atom_find text ((q, l) # rest) i pos len =
     (if l = len then
        (if q + len > length text \<or> pos + len > length text then Inl OutOfBounds
         else if slice text q len = slice text pos len then Inr (Some i)
         else atom_find text rest (Suc i) pos len)
      else atom_find text rest (Suc i) pos len)"

definition rt_proof_atom_index ::
  "proof_limits \<Rightarrow> text_bytes \<Rightarrow> rt_proof_parser \<Rightarrow> nat \<Rightarrow> nat \<Rightarrow> parse_error + int \<times> rt_proof_parser" where
  "rt_proof_atom_index lim text p pos len =
     (case atom_find text (p_atoms p) 0 pos len of
        Inl e \<Rightarrow> Inl e
      | Inr (Some i) \<Rightarrow> Inr (int i, p)
      | Inr None \<Rightarrow>
          if int (length (p_atoms p)) \<ge> max_variables lim then Inl Malformed
          else Inr (int (length (p_atoms p)), p\<lparr>p_atoms := p_atoms p @ [(pos, len)]\<rparr>))"

definition new_node :: "nat \<Rightarrow> rt_proof_node" where
  "new_node k = \<lparr>n_kind = k, n_left = -1, n_right = -1, n_atom = -1\<rparr>"

definition set_node :: "rt_proof_parser \<Rightarrow> nat \<Rightarrow> (rt_proof_node \<Rightarrow> rt_proof_node) \<Rightarrow> rt_proof_parser" where
  "set_node p index upd = p\<lparr>p_nodes := (p_nodes p)[index := upd (p_nodes p ! index)]\<rparr>"

text \<open>A length, checked against what is left before \<open>end\<close>; the result is the end of the child.\<close>

definition child_end :: "text_bytes \<Rightarrow> nat \<Rightarrow> nat \<Rightarrow> parse_error + nat \<times> nat" where
  "child_end text pos fin =
     (case rt_proof_parse_decimal text pos of
        None \<Rightarrow> Inl Malformed
      | Some (pos', len) \<Rightarrow>
          if len > size_sub fin pos' then Inl Malformed else Inr (pos', len))"

definition is_connective :: "nat \<Rightarrow> bool" where
  "is_connective k \<longleftrightarrow> k = 38 \<or> k = 124 \<or> k = 62 \<or> k = 61"

text \<open>
  \<open>rt_proof_parse_node\<close>. The opcodes are the bytes \<open>T\<close> 84, \<open>F\<close> 70, \<open>A\<close> 65, \<open>N\<close> 78, \<open>&\<close> 38, \<open>|\<close> 124,
  \<open>>\<close> 62 and \<open>=\<close> 61.
\<close>

function rt_proof_parse_node ::
  "proof_limits \<Rightarrow> text_bytes \<Rightarrow> rt_proof_parser \<Rightarrow> int \<Rightarrow> nat \<Rightarrow> parse_error + nat \<times> rt_proof_parser" where
  "rt_proof_parse_node lim text p depth fin =
     (if depth > max_depth lim \<or> p_pos p \<ge> fin \<or> int (length (p_nodes p)) \<ge> max_nodes lim then Inl Malformed
      else if p_pos p \<ge> length text then Inl OutOfBounds
      else
        let index = length (p_nodes p);
            kind = text ! p_pos p;
            p1 = p\<lparr>p_pos := Suc (p_pos p), p_nodes := p_nodes p @ [new_node kind]\<rparr>
        in if kind = 84 \<or> kind = 70 then (if p_pos p1 = fin then Inr (index, p1) else Inl Malformed)
           else
             (case child_end text (p_pos p1) fin of
                Inl e \<Rightarrow> Inl e
              | Inr (pos, len) \<Rightarrow>
                  if kind = 65 then
                    (case rt_proof_atom_index lim text (p1\<lparr>p_pos := pos\<rparr>) pos len of
                       Inl e \<Rightarrow> Inl e
                     | Inr (a, p2) \<Rightarrow>
                         if size_add pos len = fin
                         then Inr (index, set_node (p2\<lparr>p_pos := size_add pos len\<rparr>) index (\<lambda>n. n\<lparr>n_atom := a\<rparr>))
                         else Inl Malformed)
                  else if kind = 78 then
                    (case rt_proof_parse_node lim text (p1\<lparr>p_pos := pos\<rparr>) (depth + 1) (size_add pos len) of
                       Inl e \<Rightarrow> Inl e
                     | Inr (l, p2) \<Rightarrow>
                         if p_pos p2 = fin then Inr (index, set_node p2 index (\<lambda>n. n\<lparr>n_left := int l\<rparr>))
                         else Inl Malformed)
                  else if \<not> is_connective kind then Inl Malformed
                  else
                    (case rt_proof_parse_node lim text (p1\<lparr>p_pos := pos\<rparr>) (depth + 1) (size_add pos len) of
                       Inl e \<Rightarrow> Inl e
                     | Inr (l, p2) \<Rightarrow>
                         if p_pos p2 \<noteq> size_add pos len then Inl Malformed
                         else
                           (case child_end text (p_pos p2) fin of
                              Inl e \<Rightarrow> Inl e
                            | Inr (pos', len') \<Rightarrow>
                                (case rt_proof_parse_node lim text (p2\<lparr>p_pos := pos'\<rparr>) (depth + 1)
                                        (size_add pos' len') of
                                   Inl e \<Rightarrow> Inl e
                                 | Inr (r, p3) \<Rightarrow>
                                     if p_pos p3 = fin
                                     then Inr (index, set_node p3 index (\<lambda>n. n\<lparr>n_left := int l, n_right := int r\<rparr>))
                                     else Inl Malformed)))))"
  by pat_completeness auto
termination
  by (relation "measure (\<lambda>(lim, text, p, depth, fin). nat (max_depth lim + 1 - depth))") auto

declare rt_proof_parse_node.simps [simp del]

section \<open>The evaluator\<close>

text \<open>
  The result is the truth value, the steps taken and whether the budget was kept. Every call takes
  a step, so the recursion ends with the budget.
\<close>

function rt_proof_eval ::
  "rt_proof_node list \<Rightarrow> int \<Rightarrow> u64 \<Rightarrow> int \<Rightarrow> int \<Rightarrow> bool \<times> int \<times> bool" where
  "rt_proof_eval nodes index assignment steps max_steps =
     (if index < 0 \<or> steps \<ge> max_steps then (False, steps, False)
      else
        let node = nodes ! nat index; kind = n_kind node; steps1 = steps + 1 in
        if kind = 84 then (True, steps1, True)
        else if kind = 70 then (False, steps1, True)
        else if kind = 65 then (bit assignment (nat (n_atom node)), steps1, True)
        else
          (case rt_proof_eval nodes (n_left node) assignment steps1 max_steps of
             (left, steps2, ok) \<Rightarrow>
               if \<not> ok then (False, steps2, False)
               else if kind = 78 then (\<not> left, steps2, True)
               else
                 (case rt_proof_eval nodes (n_right node) assignment steps2 max_steps of
                    (right, steps3, ok') \<Rightarrow>
                      if \<not> ok' then (False, steps3, False)
                      else if kind = 38 then (left \<and> right, steps3, True)
                      else if kind = 124 then (left \<or> right, steps3, True)
                      else if kind = 62 then (\<not> left \<or> right, steps3, True)
                      else (left = right, steps3, True))))"
  by pat_completeness auto

termination
proof -
  have mono: "steps \<le> steps'"
    if "(v, steps', ok) = rt_proof_eval nodes index assignment steps max_steps"
      "rt_proof_eval_dom (nodes, index, assignment, steps, max_steps)"
    for v steps' ok nodes index assignment steps max_steps
  proof -
    have "steps \<le> fst (snd (rt_proof_eval nodes index assignment steps max_steps))"
      using that(2)
    proof (induction nodes index assignment steps max_steps rule: rt_proof_eval.pinduct)
      case (1 nodes index assignment steps max_steps)
      show ?case
      proof (cases "index < 0 \<or> steps \<ge> max_steps \<or> n_kind (nodes ! nat index) \<in> {84, 70, 65}")
        case True
        then show ?thesis
          by (subst rt_proof_eval.psimps [OF "1.hyps"]) (auto simp: Let_def)
      next
        case False
        obtain l s2 ok where l: "rt_proof_eval nodes (n_left (nodes ! nat index)) assignment (steps + 1) max_steps = (l, s2, ok)"
          by (rule prod_cases3)
        obtain r s3 ok' where r: "rt_proof_eval nodes (n_right (nodes ! nat index)) assignment s2 max_steps = (r, s3, ok')"
          by (rule prod_cases3)
        have "steps + 1 \<le> s2"
          using "1.IH"(1) [OF _ refl refl refl] False l by simp
        moreover have "s2 \<le> s3" if "ok" "n_kind (nodes ! nat index) \<noteq> 78"
          using "1.IH"(2) [OF _ refl refl refl _ _ _ l [symmetric] refl] False that r by simp
        ultimately show ?thesis
          using False l r by (subst rt_proof_eval.psimps [OF "1.hyps"]) (auto simp: Let_def)
      qed
    qed
    then show ?thesis
      by (metis that(1) fst_conv snd_conv)
  qed
  show ?thesis
    by (relation "measure (\<lambda>(nodes, index, assignment, steps, max_steps). nat (max_steps - steps))")
       (auto dest: mono)
qed

declare rt_proof_eval.simps [simp del]

section \<open>The check\<close>

text \<open>The loop over the assignments, which the step count runs through.\<close>

function try_assignments :: "rt_proof_node list \<Rightarrow> int \<Rightarrow> nat \<Rightarrow> nat \<Rightarrow> int \<Rightarrow> int \<Rightarrow> bool" where
  "try_assignments nodes root asg assignments steps max_steps =
     (if asg < assignments then
        (case rt_proof_eval nodes root (of_nat asg) steps max_steps of
           (v, steps', ok) \<Rightarrow>
             if v \<and> ok then try_assignments nodes root (Suc asg) assignments steps' max_steps else False)
      else True)"
  by pat_completeness auto
termination
  by (relation "measure (\<lambda>(nodes, root, asg, assignments, steps, max_steps). assignments - asg)") auto

declare try_assignments.simps [simp del]

definition check_text :: "proof_limits \<Rightarrow> int \<Rightarrow> text_bytes \<Rightarrow> parse_error + bool" where
  "check_text lim max_steps text =
     (case rt_proof_parse_node lim text \<lparr>p_pos = 0, p_nodes = [], p_atoms = []\<rparr> 0 (length text) of
        Inl Malformed \<Rightarrow> Inr False
      | Inl OutOfBounds \<Rightarrow> Inl OutOfBounds
      | Inr (root, p) \<Rightarrow>
          Inr (p_pos p = length text \<and>
               try_assignments (p_nodes p) (int root) 0 (2 ^ length (p_atoms p)) 0 max_steps))"

definition limits_ok :: "int \<Rightarrow> int \<Rightarrow> int \<Rightarrow> int \<Rightarrow> int \<Rightarrow> bool" where
  "limits_ok variables nodes depth steps memory \<longleftrightarrow>
     0 \<le> variables \<and> variables \<le> 20 \<and> 0 < nodes \<and> nodes \<le> 1000000 \<and> 0 < depth \<and> depth \<le> 4096 \<and>
     0 < steps \<and> 0 < memory \<and> nodes \<le> memory"

text \<open>
  The whole of \<open>rt_proof_cert_check\<close>; the error is a read outside of the certificate.
\<close>

definition rt_proof_cert_check ::
  "str_heap \<Rightarrow> i64 \<Rightarrow> i64 \<Rightarrow> i64 \<Rightarrow> i64 \<Rightarrow> i64 \<Rightarrow> i64 \<Rightarrow> i64 \<Rightarrow> i64 \<Rightarrow> i64 \<Rightarrow> i64 \<Rightarrow> parse_error + i64" where
  "rt_proof_cert_check strs canonical_v digest_v module_version_v dependency_digest_v checker_version_v
       max_variables_v max_nodes_v max_depth_v max_steps_v max_memory_v =
     (if \<not> (is_int digest_v \<and> is_int max_variables_v \<and> is_int max_nodes_v \<and> is_int max_depth_v \<and>
             is_int max_steps_v \<and> is_int max_memory_v) then Inr NY_IMM_FALSE
      else if Some (rt_untag_v digest_v) \<noteq>
              rt_proof_digest_value strs canonical_v module_version_v dependency_digest_v checker_version_v
      then Inr NY_IMM_FALSE
      else
        let variables = sint (rt_untag_v max_variables_v); nodes = sint (rt_untag_v max_nodes_v);
            depth = sint (rt_untag_v max_depth_v); steps = sint (rt_untag_v max_steps_v);
            memory = sint (rt_untag_v max_memory_v)
        in if \<not> limits_ok variables nodes depth steps memory then Inr NY_IMM_FALSE
           else
             (case strs canonical_v of
                None \<Rightarrow> Inr NY_IMM_FALSE
              | Some text \<Rightarrow>
                  map_sum id (\<lambda>ok. if ok then NY_IMM_TRUE else NY_IMM_FALSE)
                    (check_text \<lparr>max_nodes = nodes, max_variables = variables, max_depth = depth\<rparr> steps text)))"

end
