(* ===== verification/Proof_Cert_Correct.thy ===== *)
theory Proof_Cert_Correct
  imports Proof_Cert "HOL-Library.Code_Target_Nat"
begin

text \<open>
  Correctness of the certificate check: an accepted certificate denotes a formula that is true
  under every valuation, and on the canonical encoding of a formula the check decides whether the
  formula is a tautology.
\<close>

section \<open>Formulas\<close>

datatype 'a fm = Tr | Fl | At 'a | Neg "'a fm" | Bin nat "'a fm" "'a fm"

text \<open>The connectives by their opcodes: conjunction, disjunction, implication, equivalence.\<close>

definition connective :: "nat \<Rightarrow> bool \<Rightarrow> bool \<Rightarrow> bool" where
  "connective k x y =
     (if k = 38 then x \<and> y else if k = 124 then x \<or> y else if k = 62 then x \<longrightarrow> y else x = y)"

fun holds :: "('a \<Rightarrow> bool) \<Rightarrow> 'a fm \<Rightarrow> bool" where
  "holds v Tr = True"
| "holds v Fl = False"
| "holds v (At a) = v a"
| "holds v (Neg f) = (\<not> holds v f)"
| "holds v (Bin k f g) = connective k (holds v f) (holds v g)"

fun fsize :: "'a fm \<Rightarrow> nat" where
  "fsize (Neg f) = Suc (fsize f)"
| "fsize (Bin k f g) = Suc (fsize f + fsize g)"
| "fsize f = 1"

fun fdepth :: "'a fm \<Rightarrow> nat" where
  "fdepth (Neg f) = Suc (fdepth f)"
| "fdepth (Bin k f g) = Suc (max (fdepth f) (fdepth g))"
| "fdepth f = 0"

fun ops_ok :: "'a fm \<Rightarrow> bool" where
  "ops_ok (Neg f) = ops_ok f"
| "ops_ok (Bin k f g) = (is_connective k \<and> ops_ok f \<and> ops_ok g)"
| "ops_ok f = True"

lemma holds_cong: "(\<And>a. a \<in> set_fm f \<Longrightarrow> v a = w a) \<Longrightarrow> holds v f = holds w f"
  by (induction f) (auto simp: connective_def)

lemma holds_map: "holds v (map_fm h f) = holds (v \<circ> h) f"
  by (induction f) simp_all

lemma ops_ok_map [simp]: "ops_ok (map_fm h f) = ops_ok f"
  by (induction f) simp_all

lemma fsize_pos [simp]: "0 < fsize f"
  by (cases f) simp_all

lemma fsize_map [simp]: "fsize (map_fm h f) = fsize f"
  by (induction f) simp_all

section \<open>The node array of a formula\<close>

text \<open>The parser lays a formula out in preorder.\<close>

fun nodes_of :: "nat \<Rightarrow> nat fm \<Rightarrow> rt_proof_node list" where
  "nodes_of i Tr = [new_node 84]"
| "nodes_of i Fl = [new_node 70]"
| "nodes_of i (At a) = [(new_node 65)\<lparr>n_atom := int a\<rparr>]"
| "nodes_of i (Neg f) = (new_node 78)\<lparr>n_left := int (Suc i)\<rparr> # nodes_of (Suc i) f"
| "nodes_of i (Bin k f g) =
     (new_node k)\<lparr>n_left := int (Suc i), n_right := int (Suc i + fsize f)\<rparr> #
     nodes_of (Suc i) f @ nodes_of (Suc i + fsize f) g"

lemma length_nodes_of [simp]: "length (nodes_of i f) = fsize f"
  by (induction i f rule: nodes_of.induct) simp_all

lemma connective_ops: "is_connective k \<Longrightarrow> k \<noteq> 84 \<and> k \<noteq> 70 \<and> k \<noteq> 65 \<and> k \<noteq> 78"
  by (auto simp: is_connective_def)

text \<open>
  The evaluator visits every node once: it keeps the budget iff the formula fits, and then
  returns the truth value. \<open>evaluates\<close> says so of a value \<open>x\<close> that takes \<open>n\<close> steps.
\<close>

definition evaluates :: "rt_proof_node list \<Rightarrow> int \<Rightarrow> u64 \<Rightarrow> int \<Rightarrow> int \<Rightarrow> bool \<Rightarrow> nat \<Rightarrow> bool" where
  "evaluates ns i w s m x n \<longleftrightarrow>
     (case rt_proof_eval ns i w s m of
        (v, s', ok) \<Rightarrow> ok = (s + int n \<le> m) \<and> (ok \<longrightarrow> v = x \<and> s' = s + int n))"

lemma evaluates_leaf:
  assumes "0 \<le> i" "n_kind (ns ! nat i) = k" "k = 84 \<or> k = 70 \<or> k = 65"
    "x = (if k = 84 then True else if k = 70 then False else bit w (nat (n_atom (ns ! nat i))))"
  shows "evaluates ns i w s m x (Suc 0)"
  unfolding evaluates_def using assms by (subst rt_proof_eval.simps) (auto simp: Let_def)

lemma evaluates_neg:
  assumes "0 \<le> i" "n_kind (ns ! nat i) = 78" "evaluates ns (n_left (ns ! nat i)) w (s + 1) m x n"
  shows "evaluates ns i w s m (\<not> x) (Suc n)"
proof -
  obtain v s' ok where e: "rt_proof_eval ns (n_left (ns ! nat i)) w (s + 1) m = (v, s', ok)"
    by (cases "rt_proof_eval ns (n_left (ns ! nat i)) w (s + 1) m")
  show ?thesis
    using assms(3) e unfolding evaluates_def
    by (subst rt_proof_eval.simps) (use assms(1,2) in \<open>auto simp: Let_def\<close>)
qed

lemma evaluates_bin:
  assumes i: "0 \<le> i" "n_kind (ns ! nat i) = k" "is_connective k"
    and l: "evaluates ns (n_left (ns ! nat i)) w (s + 1) m x n"
    and r: "evaluates ns (n_right (ns ! nat i)) w (s + 1 + int n) m y n'" and pos: "0 < n'"
  shows "evaluates ns i w s m (connective k x y) (Suc (n + n'))"
proof -
  note k = connective_ops [OF i(3)]
  obtain v s' ok where e: "rt_proof_eval ns (n_left (ns ! nat i)) w (s + 1) m = (v, s', ok)"
    by (cases "rt_proof_eval ns (n_left (ns ! nat i)) w (s + 1) m")
  obtain v2 s2 ok2 where e2: "rt_proof_eval ns (n_right (ns ! nat i)) w (s + 1 + int n) m = (v2, s2, ok2)"
    by (cases "rt_proof_eval ns (n_right (ns ! nat i)) w (s + 1 + int n) m")
  have l': "ok = (s + 1 + int n \<le> m)" "ok \<Longrightarrow> v = x \<and> s' = s + 1 + int n"
    using l e by (auto simp: evaluates_def)
  have r': "ok2 = (s + 1 + int n + int n' \<le> m)" "ok2 \<Longrightarrow> v2 = y \<and> s2 = s + 1 + int n + int n'"
    using r e2 by (auto simp: evaluates_def)
  show ?thesis
  proof (cases ok)
    case True
    then have "v = x" "s' = s + 1 + int n" "s < m"
      using l' by auto
    then show ?thesis
      using e e2 r' i k True unfolding evaluates_def
      by (subst rt_proof_eval.simps) (auto simp: Let_def connective_def)
  next
    case False
    then have "\<not> s + int (Suc (n + n')) \<le> m"
      using l'(1) by simp
    then show ?thesis
      using e i k False unfolding evaluates_def
      by (subst rt_proof_eval.simps) (auto simp: Let_def)
  qed
qed

lemma eval_nodes:
  "ops_ok f \<Longrightarrow>
   evaluates (pre @ nodes_of (length pre) f @ post) (int (length pre)) w s m (holds (bit w) f) (fsize f)"
proof (induction f arbitrary: pre post s)
  case (Neg f)
  let ?n = "(new_node 78)\<lparr>n_left := int (Suc (length pre))\<rparr>"
  let ?ns = "pre @ ?n # nodes_of (Suc (length pre)) f @ post"
  have "evaluates ?ns (int (Suc (length pre))) w (s + 1) m (holds (bit w) f) (fsize f)"
    using Neg.IH [where pre = "pre @ [?n]" and post = post and s = "s + 1"] Neg.prems by simp
  then show ?case
    using evaluates_neg [of "int (length pre)" ?ns w s m] by (simp add: nth_append new_node_def)
next
  case (Bin k f g)
  let ?n = "(new_node k)\<lparr>n_left := int (Suc (length pre)), n_right := int (Suc (length pre) + fsize f)\<rparr>"
  let ?ns = "pre @ ?n # nodes_of (Suc (length pre)) f @ nodes_of (Suc (length pre) + fsize f) g @ post"
  have l: "evaluates ?ns (int (Suc (length pre))) w (s + 1) m (holds (bit w) f) (fsize f)"
    using Bin.IH(1) [where pre = "pre @ [?n]" and post = "nodes_of (Suc (length pre) + fsize f) g @ post" and s = "s + 1"]
      Bin.prems by simp
  have r: "evaluates ?ns (int (Suc (length pre) + fsize f)) w (s + 1 + int (fsize f)) m (holds (bit w) g) (fsize g)"
    using Bin.IH(2) [where pre = "pre @ ?n # nodes_of (Suc (length pre)) f" and post = post
        and s = "s + 1 + int (fsize f)"] Bin.prems by simp
  have n: "?ns ! nat (int (length pre)) = ?n" "n_kind ?n = k" "n_left ?n = int (Suc (length pre))"
      "n_right ?n = int (Suc (length pre) + fsize f)"
    by (simp_all add: nth_append new_node_def)
  show ?case
    using evaluates_bin [of "int (length pre)" ?ns k w s m, unfolded n, OF _ refl _ l r] Bin.prems by simp
qed (simp_all add: evaluates_leaf nth_append new_node_def)

section \<open>The loop over the assignments\<close>

lemma try_assignments_iff:
  assumes f: "ops_ok f"
  shows "try_assignments (nodes_of 0 f) 0 a n s m \<longleftrightarrow>
    (\<forall>b\<in>{a..<n}. holds (bit (of_nat b :: u64)) f) \<and> (a < n \<longrightarrow> s + int ((n - a) * fsize f) \<le> m)"
proof (induction "n - a" arbitrary: a s)
  case 0
  then show ?case
    by (simp add: try_assignments.simps)
next
  case (Suc d)
  then have lt: "a < n" and d: "d = n - Suc a"
    by auto
  have split: "{a..<n} = insert a {Suc a..<n}"
    using lt by auto
  obtain v s' ok where e: "rt_proof_eval (nodes_of 0 f) 0 (of_nat a) s m = (v, s', ok)"
    by (cases "rt_proof_eval (nodes_of 0 f) 0 (of_nat a) s m")
  have ok: "ok = (s + int (fsize f) \<le> m)" "ok \<Longrightarrow> v = holds (bit (of_nat a :: u64)) f \<and> s' = s + int (fsize f)"
    using eval_nodes [OF f, where pre = "[]" and post = "[]" and w = "of_nat a" and s = s and m = m] e
    by (auto simp: evaluates_def)
  obtain r where r: "(n - Suc a) * fsize f = r" "(n - a) * fsize f = fsize f + r" "\<not> Suc a < n \<Longrightarrow> r = 0"
    using lt by (metis Suc_diff_Suc mult_Suc diff_is_0_eq' mult_0 not_less)
  note ih = Suc.hyps(1) [OF d, of s', unfolded r(1)]
  show ?case
  proof (cases "ok \<and> v")
    case True
    then show ?thesis
      using ih lt e ok(2) r(3) ok(1) unfolding r(2) split by (subst try_assignments.simps) auto
  next
    case False
    then show ?thesis
      using lt e ok unfolding r(2) split by (subst try_assignments.simps) auto
  qed
qed

text \<open>Every valuation of the first \<open>k\<close> atoms is one of the \<open>2 ^ k\<close> assignments.\<close>

lemma assignments_complete:
  assumes "\<And>b. b < 2 ^ k \<Longrightarrow> holds (bit (of_nat b :: u64)) f" "\<And>a. a \<in> set_fm f \<Longrightarrow> a < k" "k \<le> 64"
  shows "holds v f"
proof -
  let ?b = "horner_sum of_bool (2 :: nat) (map v [0..<k])"
  have lt: "?b < 2 ^ k"
    using horner_sum_of_bool_2_less [of "map v [0..<k]"] by simp
  have "bit (of_nat ?b :: u64) a = v a" if "a < k" for a
    using that assms(3) by (simp add: bit_of_nat_iff bit_horner_sum_bit_iff)
  then have "holds (bit (of_nat ?b :: u64)) f = holds v f"
    using assms(2) by (intro holds_cong) auto
  then show ?thesis
    using assms(1) [OF lt] by simp
qed

section \<open>What the parser builds\<close>

lemma set_node_append:
  "length ns = i \<Longrightarrow> p_nodes p = ns @ n # rest \<Longrightarrow> p_nodes (set_node p i upd) = ns @ upd n # rest"
  by (auto simp: set_node_def nth_append list_update_append)

lemma set_node_frame [simp]:
  "p_pos (set_node p i upd) = p_pos p" "p_atoms (set_node p i upd) = p_atoms p"
  by (simp_all add: set_node_def)

lemma atom_find_less: "atom_find text ats i pos len = Inr (Some j) \<Longrightarrow> i \<le> j \<and> j < i + length ats"
  by (induction "text" ats i pos len rule: atom_find.induct) (auto split: if_splits)

text \<open>The result of a successful parse, for the parser state \<open>p\<close> before and \<open>q\<close> after.\<close>

definition built :: "proof_limits \<Rightarrow> rt_proof_parser \<Rightarrow> nat \<Rightarrow> nat \<Rightarrow> rt_proof_parser \<Rightarrow> nat fm \<Rightarrow> bool" where
  "built lim p fin i q f \<longleftrightarrow>
     i = length (p_nodes p) \<and> p_nodes q = p_nodes p @ nodes_of i f \<and> p_pos q = fin \<and> ops_ok f \<and>
     length (p_atoms p) \<le> length (p_atoms q) \<and>
     (int (length (p_atoms p)) \<le> max_variables lim \<longrightarrow> int (length (p_atoms q)) \<le> max_variables lim) \<and>
     (\<forall>a \<in> set_fm f. a < length (p_atoms q))"

lemma atom_index_built:
  assumes "rt_proof_atom_index lim text p pos len = Inr (a, q)"
  shows "p_nodes q = p_nodes p \<and> 0 \<le> a \<and> nat a < length (p_atoms q) \<and> length (p_atoms p) \<le> length (p_atoms q) \<and>
    (int (length (p_atoms p)) \<le> max_variables lim \<longrightarrow> int (length (p_atoms q)) \<le> max_variables lim)"
  using assms atom_find_less [of "text" "p_atoms p" 0 pos len]
  by (auto simp: rt_proof_atom_index_def split: sum.splits option.splits if_splits)

text \<open>The first steps of a successful parse, and the rest by the kind of the node.\<close>

abbreviation node_begun :: "text_bytes \<Rightarrow> rt_proof_parser \<Rightarrow> rt_proof_parser" where
  "node_begun text p \<equiv>
     p\<lparr>p_pos := Suc (p_pos p), p_nodes := p_nodes p @ [new_node (text ! p_pos p)]\<rparr>"

lemma parse_guard:
  assumes "rt_proof_parse_node lim text p depth fin = Inr (i, q)"
  shows "depth \<le> max_depth lim \<and> p_pos p < fin \<and> int (length (p_nodes p)) < max_nodes lim \<and> p_pos p < length text"
  using assms by (subst (asm) rt_proof_parse_node.simps) (simp split: if_splits)

lemma parse_const:
  assumes "rt_proof_parse_node lim text p depth fin = Inr (i, q)" "text ! p_pos p = 84 \<or> text ! p_pos p = 70"
  shows "i = length (p_nodes p) \<and> q = node_begun text p \<and> Suc (p_pos p) = fin"
  using assms by (subst (asm) rt_proof_parse_node.simps) (auto simp: Let_def split: if_splits)

lemma parse_child:
  assumes "rt_proof_parse_node lim text p depth fin = Inr (i, q)" "text ! p_pos p \<noteq> 84" "text ! p_pos p \<noteq> 70"
  obtains pos len where "child_end text (Suc (p_pos p)) fin = Inr (pos, len)" "i = length (p_nodes p)"
    "text ! p_pos p = 65 \<or> text ! p_pos p = 78 \<or> is_connective (text ! p_pos p)"
  using assms
  by (subst (asm) rt_proof_parse_node.simps) (auto simp: Let_def split: if_splits sum.splits)

text \<open>One equation per kind, used for parsing what was encoded as well.\<close>

definition may_parse :: "proof_limits \<Rightarrow> text_bytes \<Rightarrow> rt_proof_parser \<Rightarrow> int \<Rightarrow> nat \<Rightarrow> bool" where
  "may_parse lim text p depth fin \<longleftrightarrow>
     depth \<le> max_depth lim \<and> p_pos p < fin \<and> int (length (p_nodes p)) < max_nodes lim \<and> p_pos p < length text"

lemma parse_eq_atom:
  assumes "may_parse lim text p depth fin" "text ! p_pos p = 65" "child_end text (Suc (p_pos p)) fin = Inr (pos, len)"
  shows "rt_proof_parse_node lim text p depth fin =
    (case rt_proof_atom_index lim text ((node_begun text p)\<lparr>p_pos := pos\<rparr>) pos len of
       Inl e \<Rightarrow> Inl e
     | Inr (a, p2) \<Rightarrow>
         if size_add pos len = fin
         then Inr (length (p_nodes p), set_node (p2\<lparr>p_pos := fin\<rparr>) (length (p_nodes p)) (\<lambda>n. n\<lparr>n_atom := a\<rparr>))
         else Inl Malformed)"
  using assms
  by (subst rt_proof_parse_node.simps) (simp add: may_parse_def Let_def cong: if_cong split: sum.split)

lemma parse_eq_neg:
  assumes "may_parse lim text p depth fin" "text ! p_pos p = 78" "child_end text (Suc (p_pos p)) fin = Inr (pos, len)"
  shows "rt_proof_parse_node lim text p depth fin =
    (case rt_proof_parse_node lim text ((node_begun text p)\<lparr>p_pos := pos\<rparr>) (depth + 1) (size_add pos len) of
       Inl e \<Rightarrow> Inl e
     | Inr (l, p2) \<Rightarrow>
         if p_pos p2 = fin then Inr (length (p_nodes p), set_node p2 (length (p_nodes p)) (\<lambda>n. n\<lparr>n_left := int l\<rparr>))
         else Inl Malformed)"
  using assms by (subst rt_proof_parse_node.simps) (simp add: may_parse_def Let_def)

lemma parse_eq_bin:
  assumes "may_parse lim text p depth fin" "is_connective (text ! p_pos p)"
    "child_end text (Suc (p_pos p)) fin = Inr (pos, len)"
  shows "rt_proof_parse_node lim text p depth fin =
    (case rt_proof_parse_node lim text ((node_begun text p)\<lparr>p_pos := pos\<rparr>) (depth + 1) (size_add pos len) of
       Inl e \<Rightarrow> Inl e
     | Inr (l, p2) \<Rightarrow>
         if p_pos p2 \<noteq> size_add pos len then Inl Malformed
         else
           (case child_end text (p_pos p2) fin of
              Inl e \<Rightarrow> Inl e
            | Inr (pos', len') \<Rightarrow>
                (case rt_proof_parse_node lim text (p2\<lparr>p_pos := pos'\<rparr>) (depth + 1) (size_add pos' len') of
                   Inl e \<Rightarrow> Inl e
                 | Inr (r, p3) \<Rightarrow>
                     if p_pos p3 = fin
                     then Inr (length (p_nodes p),
                            set_node p3 (length (p_nodes p)) (\<lambda>n. n\<lparr>n_left := int l, n_right := int r\<rparr>))
                     else Inl Malformed)))"
  using assms connective_ops [OF assms(2)]
  by (subst rt_proof_parse_node.simps) (simp add: may_parse_def Let_def)

lemma may_parse_of: "rt_proof_parse_node lim text p depth fin = Inr (i, q) \<Longrightarrow> may_parse lim text p depth fin"
  unfolding may_parse_def by (rule parse_guard)

lemma parse_atom:
  assumes "rt_proof_parse_node lim text p depth fin = Inr (i, q)" "text ! p_pos p = 65"
    "child_end text (Suc (p_pos p)) fin = Inr (pos, len)"
  obtains a p2 where "rt_proof_atom_index lim text ((node_begun text p)\<lparr>p_pos := pos\<rparr>) pos len = Inr (a, p2)"
    "q = set_node (p2\<lparr>p_pos := fin\<rparr>) (length (p_nodes p)) (\<lambda>n. n\<lparr>n_atom := a\<rparr>)"
  using assms(1) unfolding parse_eq_atom [OF may_parse_of [OF assms(1)] assms(2,3)]
  by (auto split: sum.splits if_splits)

lemma parse_neg:
  assumes "rt_proof_parse_node lim text p depth fin = Inr (i, q)" "text ! p_pos p = 78"
    "child_end text (Suc (p_pos p)) fin = Inr (pos, len)"
  obtains l p2 where
    "rt_proof_parse_node lim text ((node_begun text p)\<lparr>p_pos := pos\<rparr>) (depth + 1) (size_add pos len) = Inr (l, p2)"
    "p_pos p2 = fin" "q = set_node p2 (length (p_nodes p)) (\<lambda>n. n\<lparr>n_left := int l\<rparr>)"
  using assms(1) unfolding parse_eq_neg [OF may_parse_of [OF assms(1)] assms(2,3)]
  by (auto split: sum.splits if_splits)

lemma parse_bin:
  assumes "rt_proof_parse_node lim text p depth fin = Inr (i, q)" "is_connective (text ! p_pos p)"
    "child_end text (Suc (p_pos p)) fin = Inr (pos, len)"
  obtains l p2 pos' len' r p3 where
    "rt_proof_parse_node lim text ((node_begun text p)\<lparr>p_pos := pos\<rparr>) (depth + 1) (size_add pos len) = Inr (l, p2)"
    "rt_proof_parse_node lim text (p2\<lparr>p_pos := pos'\<rparr>) (depth + 1) (size_add pos' len') = Inr (r, p3)"
    "p_pos p3 = fin" "q = set_node p3 (length (p_nodes p)) (\<lambda>n. n\<lparr>n_left := int l, n_right := int r\<rparr>)"
  using assms(1) unfolding parse_eq_bin [OF may_parse_of [OF assms(1)] assms(2,3)]
  by (auto split: sum.splits if_splits)

lemma parse_built:
  "rt_proof_parse_node lim text p depth fin = Inr (i, q) \<Longrightarrow> \<exists>f. built lim p fin i q f"
proof (induction "nat (max_depth lim + 1 - depth)" arbitrary: p depth fin i q rule: less_induct)
  case less
  let ?k = "text ! p_pos p" and ?p1 = "node_begun text p"
  note parse = less.prems
  have dec: "nat (max_depth lim + 1 - (depth + 1)) < nat (max_depth lim + 1 - depth)"
    using parse_guard [OF parse] by auto
  note ih = less.hyps [OF dec]
  show ?case
  proof (cases "?k = 84 \<or> ?k = 70")
    case True
    have "built lim p fin i q (if ?k = 84 then Tr else Fl)"
      using parse_const [OF parse True] True by (auto simp: built_def)
    then show ?thesis ..
  next
    case False
    then obtain pos len where c: "child_end text (Suc (p_pos p)) fin = Inr (pos, len)" "i = length (p_nodes p)"
        "?k = 65 \<or> ?k = 78 \<or> is_connective ?k"
      using parse_child [OF parse] by blast
    from c(3) consider "?k = 65" | "?k = 78" | "is_connective ?k"
      by blast
    then show ?thesis
    proof cases
      case 1
      obtain a p2 where a: "rt_proof_atom_index lim text (?p1\<lparr>p_pos := pos\<rparr>) pos len = Inr (a, p2)"
          "q = set_node (p2\<lparr>p_pos := fin\<rparr>) (length (p_nodes p)) (\<lambda>n. n\<lparr>n_atom := a\<rparr>)"
        using parse_atom [OF parse 1 c(1)] by blast
      have "built lim p fin i q (At (nat a))"
        using atom_index_built [OF a(1)] a(2) c(2) 1 set_node_append [OF refl, of "p2\<lparr>p_pos := fin\<rparr>"]
        by (auto simp: built_def)
      then show ?thesis ..
    next
      case 2
      obtain l p2 where n: "rt_proof_parse_node lim text (?p1\<lparr>p_pos := pos\<rparr>) (depth + 1) (size_add pos len) = Inr (l, p2)"
          "p_pos p2 = fin" "q = set_node p2 (length (p_nodes p)) (\<lambda>n. n\<lparr>n_left := int l\<rparr>)"
        using parse_neg [OF parse 2 c(1)] by blast
      obtain f where f: "built lim (?p1\<lparr>p_pos := pos\<rparr>) (size_add pos len) l p2 f"
        using ih [OF n(1)] by blast
      have "built lim p fin i q (Neg f)"
        using f n(2,3) c(2) 2 set_node_append [OF refl, of p2] by (auto simp: built_def)
      then show ?thesis ..
    next
      case 3
      obtain l p2 pos' len' r p3 where
        l: "rt_proof_parse_node lim text (?p1\<lparr>p_pos := pos\<rparr>) (depth + 1) (size_add pos len) = Inr (l, p2)" and
        r: "rt_proof_parse_node lim text (p2\<lparr>p_pos := pos'\<rparr>) (depth + 1) (size_add pos' len') = Inr (r, p3)" and
        q: "p_pos p3 = fin" "q = set_node p3 (length (p_nodes p)) (\<lambda>n. n\<lparr>n_left := int l, n_right := int r\<rparr>)"
        using parse_bin [OF parse 3 c(1)] by blast
      obtain f g where fg: "built lim (?p1\<lparr>p_pos := pos\<rparr>) (size_add pos len) l p2 f"
          "built lim (p2\<lparr>p_pos := pos'\<rparr>) (size_add pos' len') r p3 g"
        using ih [OF l] ih [OF r] by blast
      have "built lim p fin i q (Bin ?k f g)"
        using fg q c(2) 3 set_node_append [OF refl, of p3] by (auto simp: built_def)
      then show ?thesis ..
    qed
  qed
qed

section \<open>Encoding\<close>

fun digits :: "nat \<Rightarrow> text_bytes" where
  "digits n = (if n < 10 then [48 + n] else digits (n div 10) @ [48 + n mod 10])"

declare digits.simps [simp del]

definition with_len :: "text_bytes \<Rightarrow> text_bytes" where
  "with_len xs = digits (length xs) @ 58 # xs"

fun encode :: "text_bytes fm \<Rightarrow> text_bytes" where
  "encode Tr = [84]"
| "encode Fl = [70]"
| "encode (At a) = 65 # with_len a"
| "encode (Neg f) = 78 # with_len (encode f)"
| "encode (Bin k f g) = k # with_len (encode f) @ with_len (encode g)"

definition read_value :: "nat \<Rightarrow> text_bytes \<Rightarrow> nat" where
  "read_value out ds = foldl (\<lambda>a d. a * 10 + (d - 48)) out ds"

lemma read_value_ge: "out \<le> read_value out ds"
proof (induction ds arbitrary: out)
  case (Cons d ds)
  have "out \<le> out * 10 + (d - 48)"
    by simp
  also have "\<dots> \<le> read_value (out * 10 + (d - 48)) ds"
    by (rule Cons.IH)
  finally show ?case
    by (simp add: read_value_def)
qed (simp add: read_value_def)

lemma digits_props: "read_value 0 (digits n) = n \<and> list_all is_digit (digits n) \<and> digits n \<noteq> []"
proof (induction n rule: digits.induct)
  case (1 n)
  then show ?case
    by (cases "n < 10") (simp_all add: digits.simps [of n] read_value_def is_digit_def)
qed

lemma decimal_loop_digits:
  "list_all is_digit ds \<Longrightarrow> rest = [] \<or> \<not> is_digit (hd rest) \<Longrightarrow> read_value out ds < SIZE_MOD \<Longrightarrow>
   decimal_loop (pre @ ds @ rest) (length pre) out = Some (length pre + length ds, read_value out ds)"
proof (induction ds arbitrary: pre out)
  case Nil
  then show ?case
    by (subst decimal_loop.simps) (auto simp: nth_append read_value_def hd_conv_nth)
next
  case (Cons d ds)
  let ?out = "out * 10 + (d - 48)"
  have v: "read_value ?out ds < SIZE_MOD" "read_value out (d # ds) = read_value ?out ds"
    using Cons.prems(3) by (simp_all add: read_value_def)
  then have "?out < SIZE_MOD"
    using read_value_ge [of ?out ds] by linarith
  then have "\<not> out > (SIZE_MOD - 1 - (d - 48)) div 10"
    by (simp add: not_less less_eq_div_iff_mult_less_eq)
  moreover have "decimal_loop ((pre @ [d]) @ ds @ rest) (length (pre @ [d])) ?out =
      Some (length (pre @ [d]) + length ds, read_value ?out ds)"
    using Cons.IH [of ?out "pre @ [d]"] Cons.prems(1,2) v(1) by simp
  ultimately show ?case
    using Cons.prems(1) v(2) by (subst decimal_loop.simps) (simp add: nth_append Let_def)
qed

lemma child_end_digits:
  assumes "pos = length pre" "text = pre @ digits n @ 58 # rest"
    "Suc (pos + length (digits n)) + n \<le> fin" "fin \<le> length text" "length text < SIZE_MOD"
  shows "child_end text pos fin = Inr (Suc (pos + length (digits n)), n)"
proof -
  note d = digits_props [of n]
  obtain x xs where x: "digits n = x # xs" "is_digit x"
    using d by (cases "digits n") auto
  have n: "n < SIZE_MOD"
    using assms(3-5) by linarith
  have "decimal_loop text pos 0 = Some (pos + length (digits n), n)"
    using decimal_loop_digits [of "digits n" "58 # rest" 0 pre] d n assms(1,2) by (simp add: is_digit_def)
  moreover have "text ! pos = x" "pos < length text" "text ! (pos + length (digits n)) = 58"
      "pos + length (digits n) < length text"
    using assms(1,2) x by (simp_all add: nth_append)
  ultimately have "rt_proof_parse_decimal text pos = Some (Suc (pos + length (digits n)), n)"
    using x(2) by (simp add: rt_proof_parse_decimal_def)
  moreover have "size_sub fin (Suc (pos + length (digits n))) = fin - Suc (pos + length (digits n))"
    using assms(3-5) by (simp add: size_sub_def mod_if)
  ultimately show ?thesis
    using assms(3) by (simp add: child_end_def)
qed

section \<open>Names of atoms\<close>

definition names :: "text_bytes \<Rightarrow> rt_proof_parser \<Rightarrow> text_bytes list" where
  "names text p = map (\<lambda>(q, l). slice text q l) (p_atoms p)"

definition atoms_in :: "text_bytes \<Rightarrow> rt_proof_parser \<Rightarrow> bool" where
  "atoms_in text p \<longleftrightarrow> (\<forall>(q, l) \<in> set (p_atoms p). q + l \<le> length text)"

definition idx :: "'a list \<Rightarrow> 'a \<Rightarrow> nat" where
  "idx ns x = length (takeWhile (\<lambda>y. y \<noteq> x) ns)"

definition add_name :: "'a list \<Rightarrow> 'a \<Rightarrow> 'a list" where
  "add_name ns x = (if x \<in> set ns then ns else ns @ [x])"

fun fnames :: "'a list \<Rightarrow> 'a fm \<Rightarrow> 'a list" where
  "fnames ns (At a) = add_name ns a"
| "fnames ns (Neg f) = fnames ns f"
| "fnames ns (Bin k f g) = fnames (fnames ns f) g"
| "fnames ns f = ns"

lemma fnames_extends: "\<exists>suf. fnames ns f = ns @ suf"
proof (induction f arbitrary: ns)
  case (Bin k f g)
  obtain m1 m2 where "fnames ns f = ns @ m1" "fnames (ns @ m1) g = (ns @ m1) @ m2"
    using Bin.IH(1) [of ns] Bin.IH(2) by metis
  then show ?case by simp
qed (auto simp: add_name_def)

lemma set_fnames: "set (fnames ns f) = set ns \<union> set_fm f"
  by (induction f arbitrary: ns) (auto simp: add_name_def)

lemma distinct_fnames: "distinct ns \<Longrightarrow> distinct (fnames ns f)"
  by (induction f arbitrary: ns) (auto simp: add_name_def)

lemma idx_append: "x \<in> set ns \<Longrightarrow> idx (ns @ suf) x = idx ns x"
  by (simp add: idx_def takeWhile_append1)

lemma idx_new: "x \<notin> set ns \<Longrightarrow> idx (ns @ [x]) x = length ns"
  unfolding idx_def by (subst takeWhile_append2) auto

lemma idx_nth: "x \<in> set ns \<Longrightarrow> idx ns x < length ns \<and> ns ! idx ns x = x"
  by (induction ns) (auto simp: idx_def)

lemma atom_find_names:
  assumes "\<forall>(q, l) \<in> set ats. q + l \<le> length text" "pos + len \<le> length text"
  shows "atom_find text ats i pos len =
    Inr (let ns = map (\<lambda>(q, l). slice text q l) ats; x = slice text pos len in
         if x \<in> set ns then Some (i + idx ns x) else None)"
  using assms
proof (induction "text" ats i pos len rule: atom_find.induct)
  case (2 "text" q l rest i pos len)
  have "slice text q l \<noteq> slice text pos len" if "l \<noteq> len"
  proof -
    have "length (slice text q l) = l" "length (slice text pos len) = len"
      using "2.prems" by (auto simp: slice_def)
    then show ?thesis using that by metis
  qed
  then show ?case
    using "2.IH" "2.prems" by (cases "l = len") (auto simp: Let_def idx_def)
qed simp

lemma atom_index_names:
  assumes "atoms_in text p" "pos + len \<le> length text" "slice text pos len = x"
    "int (length (add_name (names text p) x)) \<le> max_variables lim"
  obtains p2 where "rt_proof_atom_index lim text p pos len = Inr (int (idx (names text p2) x), p2)"
    "names text p2 = add_name (names text p) x" "atoms_in text p2" "p_nodes p2 = p_nodes p"
proof -
  have find: "atom_find text (p_atoms p) 0 pos len =
      Inr (if x \<in> set (names text p) then Some (idx (names text p) x) else None)"
    using atom_find_names [of "p_atoms p" "text" pos len 0] assms(1-3) by (simp add: atoms_in_def names_def Let_def)
  show ?thesis
  proof (cases "x \<in> set (names text p)")
    case True
    then show ?thesis
      using that [of p] find assms(1) by (simp add: rt_proof_atom_index_def add_name_def)
  next
    case False
    let ?p2 = "p\<lparr>p_atoms := p_atoms p @ [(pos, len)]\<rparr>"
    have n: "names text ?p2 = names text p @ [x]" "length (names text p) = length (p_atoms p)"
      using assms(3) by (simp_all add: names_def)
    then show ?thesis
      using that [of ?p2] find False assms(1,2,4) idx_new [OF False]
      by (auto simp: rt_proof_atom_index_def add_name_def atoms_in_def)
  qed
qed

section \<open>Parsing an encoding\<close>

lemma map_fm_idx_append:
  "set_fm f \<subseteq> set ns \<Longrightarrow> map_fm (idx (ns @ suf)) f = map_fm (idx ns) f"
  by (rule fm.map_cong0, rule idx_append) auto

text \<open>The parser state \<open>q\<close> after reading the encoding of \<open>f\<close> from the state \<open>p\<close>.\<close>

definition parsed :: "text_bytes \<Rightarrow> rt_proof_parser \<Rightarrow> nat \<Rightarrow> rt_proof_parser \<Rightarrow> text_bytes fm \<Rightarrow> bool" where
  "parsed text p fin q f \<longleftrightarrow>
     p_nodes q = p_nodes p @ nodes_of (length (p_nodes p)) (map_fm (idx (names text q)) f) \<and>
     p_pos q = fin \<and> names text q = fnames (names text p) f \<and> atoms_in text q"

lemma parsed_nodes_mono:
  assumes "parsed text p fin q f" "names text q' = names text q @ suf"
  shows "p_nodes q = p_nodes p @ nodes_of (length (p_nodes p)) (map_fm (idx (names text q')) f)"
proof -
  have "set_fm f \<subseteq> set (names text q)"
    using assms(1) set_fnames [of "names text p" f] by (simp add: parsed_def)
  then show ?thesis
    using assms map_fm_idx_append [of f "names text q" suf] by (simp add: parsed_def)
qed

lemma names_frame [simp]:
  "names text (p\<lparr>p_pos := x\<rparr>) = names text p" "names text (p\<lparr>p_nodes := y\<rparr>) = names text p"
  "atoms_in text (p\<lparr>p_pos := x\<rparr>) = atoms_in text p" "atoms_in text (p\<lparr>p_nodes := y\<rparr>) = atoms_in text p"
  "names text (set_node p i upd) = names text p" "atoms_in text (set_node p i upd) = atoms_in text p"
  by (simp_all add: names_def atoms_in_def)

text \<open>The conditions under which the limits suffice.\<close>

definition fits :: "proof_limits \<Rightarrow> text_bytes \<Rightarrow> rt_proof_parser \<Rightarrow> int \<Rightarrow> text_bytes fm \<Rightarrow> bool" where
  "fits lim text p depth f \<longleftrightarrow>
     ops_ok f \<and> depth + int (fdepth f) \<le> max_depth lim \<and>
     int (length (p_nodes p) + fsize f) \<le> max_nodes lim \<and>
     int (length (fnames (names text p) f)) \<le> max_variables lim \<and> atoms_in text p"

lemma encode_nonempty [simp]: "encode f \<noteq> []"
  by (cases f) simp_all

lemma fits_may_parse:
  assumes "fits lim text p depth f" "text = pre @ encode f @ post" "p_pos p = length pre"
    "fin = length pre + length (encode f)"
  shows "may_parse lim text p depth fin"
proof -
  have "0 < int (fsize f)" "0 < length (encode f)"
    using fsize_pos [of f] by simp_all
  then have "int (length (p_nodes p)) < max_nodes lim"
    using assms(1) unfolding fits_def by linarith
  then show ?thesis
    using assms \<open>0 < length (encode f)\<close> by (auto simp: may_parse_def fits_def)
qed

lemma with_len_child:
  assumes "text = pre @ with_len xs @ post" "pos = length pre" "pos + length (with_len xs) \<le> fin"
    "fin \<le> length text" "length text < SIZE_MOD"
  shows "child_end text pos fin = Inr (Suc (pos + length (digits (length xs))), length xs)"
  using child_end_digits [of pos pre "text" "length xs" "xs @ post" fin] assms by (simp add: with_len_def)

lemma size_add_small: "a + b < SIZE_MOD \<Longrightarrow> size_add a b = a + b"
  by (simp add: size_add_def)

lemma parse_encode_atom:
  assumes t: "text = pre @ encode (At x) @ post" "length text < SIZE_MOD" and p: "p_pos p = length pre"
    and fin: "fin = length pre + length (encode (At x))" and fits: "fits lim text p depth (At x)"
  shows "\<exists>q. rt_proof_parse_node lim text p depth fin = Inr (length (p_nodes p), q) \<and> parsed text p fin q (At x)"
proof -
  let ?pos = "Suc (Suc (length pre) + length (digits (length x)))" and ?p1 = "node_begun text p"
  have c: "child_end text (Suc (p_pos p)) fin = Inr (?pos, length x)"
    using with_len_child [of "text" "pre @ [65]" x post "Suc (p_pos p)" fin] t p fin by simp
  have k: "text ! p_pos p = 65"
    using t(1) p by (simp add: nth_append)
  have sl: "slice text ?pos (length x) = x" "?pos + length x = fin" "fin \<le> length text"
    using t(1) fin by (simp_all add: slice_def with_len_def)
  obtain p2 where p2: "rt_proof_atom_index lim text (?p1\<lparr>p_pos := ?pos\<rparr>) ?pos (length x) = Inr (int (idx (names text p2) x), p2)"
      "names text p2 = add_name (names text p) x" "atoms_in text p2" "p_nodes p2 = p_nodes ?p1"
    using atom_index_names [of "text" "?p1\<lparr>p_pos := ?pos\<rparr>" ?pos "length x" x lim] sl fits by (auto simp: fits_def)
  let ?q = "set_node (p2\<lparr>p_pos := fin\<rparr>) (length (p_nodes p)) (\<lambda>n. n\<lparr>n_atom := int (idx (names text p2) x)\<rparr>)"
  have "rt_proof_parse_node lim text p depth fin = Inr (length (p_nodes p), ?q)"
    using parse_eq_atom [OF fits_may_parse [OF fits t(1) p fin] k c] p2(1) size_add_small sl t(2) by simp
  moreover have "p_nodes ?q = p_nodes p @ [(new_node 65)\<lparr>n_atom := int (idx (names text p2) x)\<rparr>]"
    using p2(4) k set_node_append [OF refl, of "p2\<lparr>p_pos := fin\<rparr>"] by simp
  ultimately show ?thesis
    using p2(2,3) by (auto simp: parsed_def)
qed

lemma parse_encode:
  "text = pre @ encode f @ post \<Longrightarrow> length text < SIZE_MOD \<Longrightarrow> p_pos p = length pre \<Longrightarrow>
   fin = length pre + length (encode f) \<Longrightarrow> fits lim text p depth f \<Longrightarrow>
   \<exists>q. rt_proof_parse_node lim text p depth fin = Inr (length (p_nodes p), q) \<and> parsed text p fin q f"
proof (induction f arbitrary: pre post p depth fin)
  case (At x)
  then show ?case by (rule parse_encode_atom)
next
  case (Neg f)
  note t = Neg.prems(1) and p = Neg.prems(3) and fin = Neg.prems(4)
  let ?pos = "Suc (Suc (length pre) + length (digits (length (encode f))))" and ?p1 = "node_begun text p"
  have c: "child_end text (Suc (p_pos p)) fin = Inr (?pos, length (encode f))"
    using with_len_child [of "text" "pre @ [78]" "encode f" post "Suc (p_pos p)" fin] Neg.prems by simp
  have k: "text ! p_pos p = 78"
    using t p by (simp add: nth_append)
  have e: "size_add ?pos (length (encode f)) = fin" "?pos + length (encode f) = fin"
    using Neg.prems(2) fin t size_add_small [of ?pos "length (encode f)"] by (simp_all add: with_len_def)
  obtain q where q: "rt_proof_parse_node lim text (?p1\<lparr>p_pos := ?pos\<rparr>) (depth + 1) fin = Inr (Suc (length (p_nodes p)), q)"
      "parsed text (?p1\<lparr>p_pos := ?pos\<rparr>) fin q f"
    using Neg.IH [of "pre @ 78 # digits (length (encode f)) @ [58]" post "?p1\<lparr>p_pos := ?pos\<rparr>" fin "depth + 1"]
      Neg.prems e by (auto simp: with_len_def fits_def)
  let ?q = "set_node q (length (p_nodes p)) (\<lambda>n. n\<lparr>n_left := int (Suc (length (p_nodes p)))\<rparr>)"
  have "rt_proof_parse_node lim text p depth fin = Inr (length (p_nodes p), ?q)"
    using parse_eq_neg [OF fits_may_parse [OF Neg.prems(5) t p fin] k c] q e by (simp add: parsed_def)
  moreover have "parsed text p fin ?q (Neg f)"
    using q(2) k set_node_append [OF refl, of q] by (simp add: parsed_def)
  ultimately show ?case by blast
next
  case (Bin k f g)
  note t = Bin.prems(1) and len = Bin.prems(2) and p = Bin.prems(3) and fin = Bin.prems(4) and fits = Bin.prems(5)
  let ?ef = "encode f" and ?eg = "encode g" and ?n = "length (p_nodes p)"
  let ?pos = "Suc (Suc (length pre) + length (digits (length ?ef)))" and ?p1 = "node_begun text p"
  let ?mid = "?pos + length ?ef"
  let ?pos2 = "Suc (?mid + length (digits (length ?eg)))"
  have op: "text ! p_pos p = k" "is_connective k"
    using t p fits by (simp_all add: nth_append fits_def)
  have lens: "?pos2 + length ?eg = fin" "fin \<le> length text" "?mid < SIZE_MOD" "fin < SIZE_MOD"
    using t len fin by (simp_all add: with_len_def)
  have c1: "child_end text (Suc (p_pos p)) fin = Inr (?pos, length ?ef)"
    using with_len_child [of "text" "pre @ [k]" ?ef "with_len ?eg @ post" "Suc (p_pos p)" fin] t len p fin by simp
  obtain suf where suf: "fnames (fnames (names text p) f) g = fnames (names text p) f @ suf"
    using fnames_extends by blast
  have t1: "text = (pre @ k # digits (length ?ef) @ [58]) @ ?ef @ with_len ?eg @ post"
    using t by (simp add: with_len_def)
  have f1: "fits lim text (?p1\<lparr>p_pos := ?pos\<rparr>) (depth + 1) f"
    using fits suf by (auto simp: fits_def max_def split: if_splits)
  obtain q1 where q1: "rt_proof_parse_node lim text (?p1\<lparr>p_pos := ?pos\<rparr>) (depth + 1) ?mid = Inr (Suc ?n, q1)"
      "parsed text (?p1\<lparr>p_pos := ?pos\<rparr>) ?mid q1 f"
    using Bin.IH(1) [OF t1 len _ _ f1, of ?mid] by auto
  have n1: "p_pos q1 = ?mid" "names text q1 = fnames (names text p) f" "atoms_in text q1"
      "length (p_nodes q1) = Suc ?n + fsize f"
    using q1(2) by (simp_all add: parsed_def)
  have c2: "child_end text (p_pos q1) fin = Inr (?pos2, length ?eg)"
    using with_len_child [of "text" "pre @ k # with_len ?ef" ?eg post ?mid fin] t len fin n1(1)
    by (simp add: with_len_def)
  have t2: "text = (pre @ k # with_len ?ef @ digits (length ?eg) @ [58]) @ ?eg @ post"
    using t by (simp add: with_len_def)
  have f2: "fits lim text (q1\<lparr>p_pos := ?pos2\<rparr>) (depth + 1) g"
    using fits n1 by (auto simp: fits_def max_def split: if_splits)
  obtain q2 where q2: "rt_proof_parse_node lim text (q1\<lparr>p_pos := ?pos2\<rparr>) (depth + 1) fin = Inr (length (p_nodes q1), q2)"
      "parsed text (q1\<lparr>p_pos := ?pos2\<rparr>) fin q2 g"
    using Bin.IH(2) [OF t2 len _ _ f2, of fin] lens(1) by (auto simp: with_len_def)
  let ?q = "set_node q2 ?n (\<lambda>n. n\<lparr>n_left := int (Suc ?n), n_right := int (length (p_nodes q1))\<rparr>)"
  have "rt_proof_parse_node lim text p depth fin = Inr (?n, ?q)"
    using parse_eq_bin [OF fits_may_parse [OF fits t p fin] _ c1] op q1(1) c2 q2 n1(1) lens
      size_add_small [of ?pos "length ?ef"] size_add_small [of ?pos2 "length ?eg"]
    by (simp add: parsed_def)
  moreover have "names text q2 = names text q1 @ suf"
    using q2(2) n1(2) suf by (simp add: parsed_def)
  then have "p_nodes q1 = p_nodes ?p1 @ nodes_of (Suc ?n) (map_fm (idx (names text q2)) f)"
    using parsed_nodes_mono [OF q1(2)] by simp
  then have "p_nodes ?q = p_nodes p @ nodes_of ?n (map_fm (idx (names text q2)) (Bin k f g))"
    using q2(2) n1(4) op(1) set_node_append [OF refl, of q2] by (simp add: parsed_def)
  then have "parsed text p fin ?q (Bin k f g)"
    using q2(2) n1(2) by (simp add: parsed_def)
  ultimately show ?case by blast
next
  case Tr
  then have "text ! p_pos p = 84" "fin = Suc (p_pos p)" "may_parse lim text p depth fin"
    using fits_may_parse [OF Tr.prems(5,1,3,4)] by (simp_all add: nth_append)
  then show ?case
    using Tr.prems(5) by (subst rt_proof_parse_node.simps) (auto simp: may_parse_def Let_def parsed_def fits_def)
next
  case Fl
  then have "text ! p_pos p = 70" "fin = Suc (p_pos p)" "may_parse lim text p depth fin"
    using fits_may_parse [OF Fl.prems(5,1,3,4)] by (simp_all add: nth_append)
  then show ?case
    using Fl.prems(5) by (subst rt_proof_parse_node.simps) (auto simp: may_parse_def Let_def parsed_def fits_def)
qed

section \<open>The check\<close>

abbreviation fresh_parser :: rt_proof_parser where
  "fresh_parser \<equiv> \<lparr>p_pos = 0, p_nodes = [], p_atoms = []\<rparr>"

lemma check_text_sound:
  assumes "check_text lim m text = Inr True" "0 \<le> max_variables lim" "max_variables lim \<le> 20"
  shows "\<exists>f q. rt_proof_parse_node lim text fresh_parser 0 (length text) = Inr (0, q) \<and>
    p_nodes q = nodes_of 0 f \<and> (\<forall>v. holds v f)"
proof -
  obtain i q where q: "rt_proof_parse_node lim text fresh_parser 0 (length text) = Inr (i, q)"
      "try_assignments (p_nodes q) (int i) 0 (2 ^ length (p_atoms q)) 0 m"
    using assms(1) unfolding check_text_def
    by (cases "rt_proof_parse_node lim text fresh_parser 0 (length text)") (auto split: parse_error.splits)
  obtain f where f: "built lim fresh_parser (length text) i q f"
    using parse_built [OF q(1)] by blast
  then have b: "i = 0" "p_nodes q = nodes_of 0 f" "ops_ok f" "length (p_atoms q) \<le> 20"
      "\<And>a. a \<in> set_fm f \<Longrightarrow> a < length (p_atoms q)"
    using assms(2,3) by (auto simp: built_def)
  have all: "holds (bit (of_nat x :: u64)) f" if "x < 2 ^ length (p_atoms q)" for x
    using q(2) b(1,2) try_assignments_iff [OF b(3), of 0 "2 ^ length (p_atoms q)" 0 m] that by simp
  have "holds v f" for v
    by (rule assignments_complete [OF all b(5)]) (use b(4) in simp_all)
  then show ?thesis
    using q(1) b(1,2) by blast
qed

definition distinct_atoms :: "'a fm \<Rightarrow> nat" where
  "distinct_atoms f = length (fnames [] f)"

definition within :: "proof_limits \<Rightarrow> int \<Rightarrow> text_bytes fm \<Rightarrow> bool" where
  "within lim m f \<longleftrightarrow>
     ops_ok f \<and> int (fdepth f) \<le> max_depth lim \<and> int (fsize f) \<le> max_nodes lim \<and>
     int (distinct_atoms f) \<le> max_variables lim \<and> max_variables lim \<le> 20 \<and>
     int (2 ^ distinct_atoms f * fsize f) \<le> m \<and> length (encode f) < SIZE_MOD"

lemma parse_encode_fresh:
  assumes "within lim m f"
  obtains q where "rt_proof_parse_node lim (encode f) fresh_parser 0 (length (encode f)) = Inr (0, q)"
    "parsed (encode f) fresh_parser (length (encode f)) q f"
proof -
  have "fits lim (encode f) fresh_parser 0 f"
    using assms by (simp add: within_def fits_def distinct_atoms_def names_def atoms_in_def)
  then show ?thesis
    using parse_encode [of "encode f" "[]" f "[]" fresh_parser "length (encode f)" lim 0] assms that
    by (auto simp: within_def)
qed

lemma check_text_encode:
  assumes "within lim m f"
  shows "check_text lim m (encode f) = Inr (\<forall>v. holds v f)"
proof -
  let ?t = "encode f" and ?k = "distinct_atoms f"
  obtain q where q: "rt_proof_parse_node lim ?t fresh_parser 0 (length ?t) = Inr (0, q)" "parsed ?t fresh_parser (length ?t) q f"
    by (rule parse_encode_fresh [OF assms])
  define ns where "ns = names ?t q"
  define g where "g = map_fm (idx ns) f"
  have n: "p_nodes q = nodes_of 0 g" "p_pos q = length ?t" "ns = fnames [] f" "length (p_atoms q) = ?k" "length ns = ?k"
    using q(2) length_map [of "\<lambda>(q, l). slice ?t q l" "p_atoms q"]
    by (simp_all add: parsed_def g_def ns_def distinct_atoms_def names_def)
  have in_ns: "set_fm f \<subseteq> set ns"
    using n(3) set_fnames [of "[]" f] by simp
  have g: "ops_ok g" "fsize g = fsize f" "\<And>a. a \<in> set_fm g \<Longrightarrow> a < ?k"
    using assms idx_nth [of _ ns] in_ns n(5) by (auto simp: g_def within_def fm.set_map ops_ok_map)
  have "(\<forall>v. holds v g) = (\<forall>v. holds v f)"
  proof
    assume a: "\<forall>v. holds v g"
    show "\<forall>v. holds v f"
    proof
      fix v
      have "holds (v \<circ> (\<lambda>i. ns ! i) \<circ> idx ns) f = holds v f"
        using in_ns idx_nth by (intro holds_cong) fastforce
      then show "holds v f"
        using a by (simp add: g_def holds_map o_assoc)
    qed
  qed (simp add: g_def holds_map)
  moreover have "(\<forall>x<2 ^ ?k. holds (bit (of_nat x :: u64)) g) = (\<forall>v. holds v g)"
    using assignments_complete [of ?k g] g(3) assms by (auto simp: within_def)
  moreover have "0 + int ((2 ^ ?k - 0) * fsize g) \<le> m"
    using assms g(2) by (simp add: within_def)
  ultimately have "try_assignments (nodes_of 0 g) 0 0 (2 ^ ?k) 0 m = (\<forall>v. holds v f)"
    using try_assignments_iff [OF g(1), of 0 "2 ^ ?k" 0 m] by auto
  then show ?thesis
    using q(1) n by (simp add: check_text_def)
qed

section \<open>Tags\<close>

definition cert_limits :: "i64 \<Rightarrow> i64 \<Rightarrow> i64 \<Rightarrow> proof_limits" where
  "cert_limits variables nodes depth =
     \<lparr>max_nodes = sint (rt_untag_v nodes), max_variables = sint (rt_untag_v variables),
      max_depth = sint (rt_untag_v depth)\<rparr>"

lemma digest_masked: "rt_proof_digest_value strs c m d k = Some x \<Longrightarrow> x AND 0x1fffffffffffffff = x"
  by (auto simp: rt_proof_digest_value_def and.assoc split: option.splits)

text \<open>With the digest that was issued for it, a certificate is judged by its text alone.\<close>

lemma cert_check_issued:
  assumes "strs c = Some t" "rt_proof_digest_value strs c m d k \<noteq> None"
    and "is_int variables" "is_int nodes" "is_int depth" "is_int steps" "is_int memory"
    and "limits_ok (sint (rt_untag_v variables)) (sint (rt_untag_v nodes)) (sint (rt_untag_v depth))
           (sint (rt_untag_v steps)) (sint (rt_untag_v memory))"
  shows "rt_proof_cert_check strs c (rt_proof_cert_digest strs c m d k) m d k variables nodes depth steps memory =
    map_sum id (\<lambda>ok. if ok then NY_IMM_TRUE else NY_IMM_FALSE)
      (check_text (cert_limits variables nodes depth) (sint (rt_untag_v steps)) t)"
proof -
  obtain x where x: "rt_proof_digest_value strs c m d k = Some x"
    using assms(2) by blast
  have dig: "rt_proof_cert_digest strs c m d k = rt_tag_v x" "rt_untag_v (rt_tag_v x) = x"
    using x untag_tag [OF digest_masked [OF x]] by (simp_all add: rt_proof_cert_digest_def)
  show ?thesis
    using x dig assms(1,3-8) by (simp add: rt_proof_cert_check_def Let_def cert_limits_def)
qed

section \<open>Properties\<close>

text \<open>
  C29: an accepted certificate proves a tautology. When the check answers true, the certificate is a
  string that parses to a formula, the formula is true under every valuation of its atoms, and the
  given digest is the digest of the certificate and of the versions it depends on.
\<close>

theorem proof_cert_check_sound:
  assumes "rt_proof_cert_check strs c dig m d k variables nodes depth steps memory = Inr NY_IMM_TRUE"
  shows "\<exists>text f q. strs c = Some text \<and>
    rt_proof_parse_node (cert_limits variables nodes depth) text fresh_parser 0 (length text) = Inr (0, q) \<and>
    p_nodes q = nodes_of 0 f \<and> (\<forall>v. holds v f) \<and>
    rt_proof_digest_value strs c m d k = Some (rt_untag_v dig)"
proof -
  have imm: "NY_IMM_FALSE \<noteq> NY_IMM_TRUE"
    by (simp add: NY_IMM_FALSE_def NY_IMM_TRUE_def)
  obtain text' where t: "strs c = Some text'" "rt_proof_digest_value strs c m d k = Some (rt_untag_v dig)"
      "check_text (cert_limits variables nodes depth) (sint (rt_untag_v steps)) text' = Inr True"
      "0 \<le> sint (rt_untag_v variables)" "sint (rt_untag_v variables) \<le> 20"
    using assms imm
    by (auto simp: rt_proof_cert_check_def Let_def limits_ok_def cert_limits_def map_sum_def
        split: if_splits option.splits sum.splits)
  then show ?thesis
    using check_text_sound [of "cert_limits variables nodes depth"] by (auto simp: cert_limits_def)
qed

text \<open>
  C30: on the canonical encoding of a formula that respects the limits, with the digest that
  \<open>rt_proof_cert_digest\<close> issues, the check decides whether the formula is a tautology.
\<close>

theorem proof_cert_check_decides:
  assumes "strs c = Some (encode f)" "rt_proof_digest_value strs c m d k \<noteq> None"
    and "is_int variables" "is_int nodes" "is_int depth" "is_int steps" "is_int memory"
    and "limits_ok (sint (rt_untag_v variables)) (sint (rt_untag_v nodes)) (sint (rt_untag_v depth))
           (sint (rt_untag_v steps)) (sint (rt_untag_v memory))"
    and "within (cert_limits variables nodes depth) (sint (rt_untag_v steps)) f"
  shows "rt_proof_cert_check strs c (rt_proof_cert_digest strs c m d k) m d k variables nodes depth steps memory =
    Inr (if \<forall>v. holds v f then NY_IMM_TRUE else NY_IMM_FALSE)"
  using cert_check_issued [OF assms(1-8)] check_text_encode [OF assms(9)] by simp

text \<open>
  Reading back an encoding. The parser accepts the canonical encoding of every formula within
  the limits and lays out exactly that formula, each atom replaced by the index of its name.
\<close>

theorem proof_parse_encode_roundtrip:
  assumes "within lim m f"
  shows "\<exists>q. rt_proof_parse_node lim (encode f) fresh_parser 0 (length (encode f)) = Inr (0, q) \<and>
    p_nodes q = nodes_of 0 (map_fm (idx (names (encode f) q)) f) \<and> names (encode f) q = fnames [] f"
proof -
  obtain q where "rt_proof_parse_node lim (encode f) fresh_parser 0 (length (encode f)) = Inr (0, q)"
      "parsed (encode f) fresh_parser (length (encode f)) q f"
    by (rule parse_encode_fresh [OF assms])
  then show ?thesis
    by (auto simp: parsed_def names_def)
qed

text \<open>The law of the excluded middle, on an atom \<open>x\<close>; the strings live at the addresses 16 to 19.\<close>

definition excluded_middle :: "text_bytes fm" where
  "excluded_middle = Bin 124 (At [120]) (Neg (At [120]))"

definition sample_strs :: str_heap where
  "sample_strs v = (if v = 16 then Some (encode excluded_middle) else if v \<in> {17, 18, 19} then Some [49] else None)"

abbreviation sample_lim :: proof_limits where
  "sample_lim \<equiv> cert_limits (rt_tag_v 4) (rt_tag_v 50) (rt_tag_v 9)"

lemma sample_ints:
  "rt_untag_v (rt_tag_v 4) = 4" "rt_untag_v (rt_tag_v 50) = 50" "rt_untag_v (rt_tag_v 9) = 9"
  "rt_untag_v (rt_tag_v 100) = 100" "rt_untag_v (rt_tag_v 1000) = 1000"
  by (simp_all add: rt_tag_v_def rt_untag_v_def is_int_def)

lemma sample_within:
  "sample_strs 16 = Some (encode excluded_middle)"
  "rt_proof_digest_value sample_strs 16 17 18 19 \<noteq> None"
  "limits_ok (sint (rt_untag_v (rt_tag_v 4))) (sint (rt_untag_v (rt_tag_v 50))) (sint (rt_untag_v (rt_tag_v 9)))
     (sint (rt_untag_v (rt_tag_v 100))) (sint (rt_untag_v (rt_tag_v 1000)))"
  "within sample_lim (sint (rt_untag_v (rt_tag_v 100))) excluded_middle"
  "\<forall>v. holds v excluded_middle"
proof -
  show "within sample_lim (sint (rt_untag_v (rt_tag_v 100))) excluded_middle"
    unfolding cert_limits_def sample_ints excluded_middle_def
    by (simp add: within_def distinct_atoms_def with_len_def digits.simps add_name_def is_connective_def)
qed (simp_all add: sample_strs_def rt_proof_digest_value_def sample_ints limits_ok_def excluded_middle_def connective_def)

theorem proof_cert_check_decides_witness:
  "rt_proof_cert_check sample_strs 16 (rt_proof_cert_digest sample_strs 16 17 18 19) 17 18 19
     (rt_tag_v 4) (rt_tag_v 50) (rt_tag_v 9) (rt_tag_v 100) (rt_tag_v 1000) = Inr NY_IMM_TRUE"
  using proof_cert_check_decides [of sample_strs 16 excluded_middle 17 18 19] sample_within by simp

theorem proof_cert_check_sound_witness:
  "\<exists>text f. sample_strs 16 = Some text \<and> (\<forall>v. holds v f) \<and> f \<noteq> (Tr :: nat fm)"
proof -
  have "rt_proof_cert_check sample_strs 16 (rt_proof_cert_digest sample_strs 16 17 18 19) 17 18 19
      (rt_tag_v 4) (rt_tag_v 50) (rt_tag_v 9) (rt_tag_v 100) (rt_tag_v 1000) = Inr NY_IMM_TRUE"
    using cert_check_issued [OF sample_within(1,2)] check_text_encode [OF sample_within(4)] sample_within(3,5) by simp
  from proof_cert_check_sound [OF this] obtain text' f q where f: "sample_strs 16 = Some text'" "\<forall>v. holds v f"
      "rt_proof_parse_node sample_lim text' fresh_parser 0 (length text') = Inr (0, q)" "p_nodes q = nodes_of 0 f"
    by blast
  obtain q' where "rt_proof_parse_node sample_lim (encode excluded_middle) fresh_parser 0 (length (encode excluded_middle)) = Inr (0, q')"
      "parsed (encode excluded_middle) fresh_parser (length (encode excluded_middle)) q' excluded_middle"
    by (rule parse_encode_fresh [OF sample_within(4)])
  moreover have "text' = encode excluded_middle"
    using f(1) sample_within(1) by simp
  ultimately have "parsed text' fresh_parser (length text') q excluded_middle"
    using f(3) by simp
  then have "length (nodes_of 0 f) = 4"
    using f(4) by (simp add: parsed_def excluded_middle_def)
  then show ?thesis
    using f(1,2) by (intro exI [of _ text'] exI [of _ f]) auto
qed

theorem proof_parse_encode_roundtrip_witness:
  "\<exists>q. rt_proof_parse_node sample_lim (encode excluded_middle) fresh_parser 0 (length (encode excluded_middle)) = Inr (0, q) \<and>
    names (encode excluded_middle) q = [[120]]"
proof -
  have "fnames [] excluded_middle = [[120]]"
    by code_simp
  then show ?thesis
    using proof_parse_encode_roundtrip [OF sample_within(4)] by metis
qed



end
