(* ===== verification/Base_Hash.thy ===== *)
theory Base_Hash
  imports Prelude "HOL-Library.Word"
begin

text \<open>
  The hash functions of \<open>src/base/util.c\<close>, \<open>util.h\<close> and \<open>hash.c\<close>: FNV-1a with its unrolled loops,
  the variant for C strings, the word-wise fast hash, and the hashes of vectors. The optimised
  loops are proved equal to the byte-by-byte definition.
\<close>

unbundle bit_operations_syntax

type_synonym byte_seq = "8 word list"

section \<open>FNV-1a\<close>

definition NY_FNV1A64_OFFSET_BASIS :: u64 where "NY_FNV1A64_OFFSET_BASIS = 14695981039346656037"
definition NY_FNV1A64_PRIME :: u64 where "NY_FNV1A64_PRIME = 1099511628211"
definition NY_FNV1A32_OFFSET_BASIS :: u32 where "NY_FNV1A32_OFFSET_BASIS = 2166136261"
definition NY_FNV1A32_PRIME :: u32 where "NY_FNV1A32_PRIME = 16777619"

definition fnv_step :: "u64 \<Rightarrow> 8 word \<Rightarrow> u64" where
  "fnv_step h b = (h XOR ucast b) * NY_FNV1A64_PRIME"

definition fnv_seed :: "u64 \<Rightarrow> u64" where
  "fnv_seed seed = (if seed \<noteq> 0 then seed else NY_FNV1A64_OFFSET_BASIS)"

fun fnv_tail :: "u64 \<Rightarrow> byte_seq \<Rightarrow> u64" where
  "fnv_tail h [] = h"
| "fnv_tail h (b # bs) = fnv_tail (fnv_step h b) bs"

text \<open>Eight bytes per round while eight are left, then the rest one by one.\<close>

definition fnv_round :: "u64 \<Rightarrow> byte_seq \<Rightarrow> u64" where
  "fnv_round h p =
     fnv_step (fnv_step (fnv_step (fnv_step (fnv_step (fnv_step (fnv_step (fnv_step h
       (p ! 0)) (p ! 1)) (p ! 2)) (p ! 3)) (p ! 4)) (p ! 5)) (p ! 6)) (p ! 7)"

function fnv_loop :: "u64 \<Rightarrow> byte_seq \<Rightarrow> u64" where
  "fnv_loop h p = (if 8 \<le> length p then fnv_loop (fnv_round h p) (drop 8 p) else fnv_tail h p)"
  by pat_completeness auto
termination
  by (relation "measure (\<lambda>(h, p). length p)") auto

declare fnv_loop.simps [simp del]

definition ny_fnv1a64 :: "byte_seq \<Rightarrow> u64 \<Rightarrow> u64" where
  "ny_fnv1a64 data seed = fnv_loop (fnv_seed seed) data"

text \<open>
  The variant for C strings gets the memory from the pointer on, terminator included, and looks for
  the terminator eight bytes at a time; \<open>None\<close> is a read behind the memory. The string pointer may
  be \<open>NULL\<close>.
\<close>

definition memchr0 :: "byte_seq \<Rightarrow> nat \<Rightarrow> nat option" where
  "memchr0 p n = (if 0 \<in> set (take n p) then Some (length (takeWhile (\<lambda>b. b \<noteq> 0) p)) else None)"

function fnv_cstr_loop :: "u64 \<Rightarrow> byte_seq \<Rightarrow> u64 option" where
  "fnv_cstr_loop h p =
     (case memchr0 p 8 of
        Some z \<Rightarrow> Some (fnv_tail h (take z p))
      | None \<Rightarrow> if length p < 8 then None else fnv_cstr_loop (fnv_round h p) (drop 8 p))"
  by pat_completeness auto
termination
  by (relation "measure (\<lambda>(h, p). length p)") auto

declare fnv_cstr_loop.simps [simp del]

definition ny_fnv1a64_cstr :: "byte_seq option \<Rightarrow> u64 \<Rightarrow> u64 option" where
  "ny_fnv1a64_cstr s seed =
     (case s of None \<Rightarrow> Some (fnv_seed seed) | Some p \<Rightarrow> fnv_cstr_loop (fnv_seed seed) p)"

text \<open>\<open>ny_hash32_cstr\<close> runs until the terminator; a \<open>NULL\<close> string hashes like the empty one.\<close>

fun hash32_loop :: "u32 \<Rightarrow> byte_seq \<Rightarrow> u32 option" where
  "hash32_loop h [] = None"
| "hash32_loop h (b # p) =
     (if b = 0 then Some h else hash32_loop ((h XOR ucast b) * NY_FNV1A32_PRIME) p)"

definition ny_hash32_cstr :: "byte_seq option \<Rightarrow> u32 option" where
  "ny_hash32_cstr s = hash32_loop NY_FNV1A32_OFFSET_BASIS (case s of None \<Rightarrow> [0] | Some p \<Rightarrow> p)"

section \<open>The fast hash\<close>

definition le_byte :: "u64 \<Rightarrow> nat \<Rightarrow> 8 word" where
  "le_byte v k = ucast (drop_bit (8 * k) v)"

definition le_bytes :: "u64 \<Rightarrow> byte_seq" where
  "le_bytes v = map (le_byte v) [0..<8]"

definition load_le :: "byte_seq \<Rightarrow> u64" where
  "load_le p = foldr (\<lambda>b acc. push_bit 8 acc XOR ucast b) p 0"

definition ny_fasthash_mix :: "u64 \<Rightarrow> u64" where
  "ny_fasthash_mix h0 =
     (let h1 = h0 XOR drop_bit 23 h0; h2 = h1 * 0x2127599bf4325c37 in h2 XOR drop_bit 47 h2)"

definition fast_m :: u64 where "fast_m = 0x880355f21e6d1965"

function fast_words :: "u64 \<Rightarrow> byte_seq \<Rightarrow> u64 \<times> byte_seq" where
  "fast_words h p =
     (if 8 \<le> length p
      then fast_words ((h XOR ny_fasthash_mix (load_le (take 8 p))) * fast_m) (drop 8 p)
      else (h, p))"
  by pat_completeness auto
termination
  by (relation "measure (\<lambda>(h, p). length p)") auto

declare fast_words.simps [simp del]

text \<open>The fall-through switch collects the remaining bytes, the last one in the highest place.\<close>

definition ny_hash64_fast :: "byte_seq \<Rightarrow> u64" where
  "ny_hash64_fast data =
     (case fast_words (0xcbf29ce484222325 XOR of_nat (length data) * fast_m) data of
        (h, rest) \<Rightarrow>
          ny_fasthash_mix (if rest = [] then h else (h XOR ny_fasthash_mix (load_le rest)) * fast_m))"

abbreviation ny_hash64 :: "byte_seq \<Rightarrow> u64" where
  "ny_hash64 data \<equiv> ny_hash64_fast data"

definition ny_hash64_fast_cstr :: "byte_seq option \<Rightarrow> u64" where
  "ny_hash64_fast_cstr s = (case s of None \<Rightarrow> 0 | Some p \<Rightarrow> ny_hash64_fast (takeWhile (\<lambda>b. b \<noteq> 0) p))"

section \<open>Hashes of vectors\<close>

definition ny_hash64_u64 :: "u64 \<Rightarrow> u64 \<Rightarrow> u64" where
  "ny_hash64_u64 seed v = ny_fnv1a64 (le_bytes v) (fnv_seed seed)"

fun ny_hash_u64v :: "u64 \<Rightarrow> u64 list \<Rightarrow> u64" where
  "ny_hash_u64v h [] = h"
| "ny_hash_u64v h (v # vs) = ny_hash_u64v (ny_hash64_u64 h v) vs"

fun ny_hash_u32v :: "u64 \<Rightarrow> u32 list \<Rightarrow> u64" where
  "ny_hash_u32v h [] = h"
| "ny_hash_u32v h (v # vs) = ny_hash_u32v (ny_hash64_u64 h (ucast v)) vs"

fun ny_hash_cstrv :: "u64 \<Rightarrow> byte_seq option list \<Rightarrow> u64 option" where
  "ny_hash_cstrv h [] = Some h"
| "ny_hash_cstrv h (s # ss) =
     (case ny_fnv1a64_cstr s h of None \<Rightarrow> None | Some h' \<Rightarrow> ny_hash_cstrv h' ss)"

text \<open>The environment is a parameter: a name has a value or none.\<close>

fun ny_hash_envv :: "(byte_seq \<Rightarrow> byte_seq option) \<Rightarrow> u64 \<Rightarrow> byte_seq list \<Rightarrow> u64 option" where
  "ny_hash_envv getenv h [] = Some h"
| "ny_hash_envv getenv h (n # ns) =
     (case ny_fnv1a64_cstr (getenv n) h of None \<Rightarrow> None | Some h' \<Rightarrow> ny_hash_envv getenv h' ns)"

section \<open>The loops compute FNV-1a\<close>

text \<open>The reference: one step per byte.\<close>

definition fnv1a :: "u64 \<Rightarrow> byte_seq \<Rightarrow> u64" where
  "fnv1a h p = foldl fnv_step h p"

lemma fnv_tail_eq: "fnv_tail h p = fnv1a h p"
  by (induction h p rule: fnv_tail.induct) (simp_all add: fnv1a_def)

lemma fnv_round_eq: "8 \<le> length p \<Longrightarrow> fnv_round h p = fnv1a h (take 8 p)"
proof -
  assume len: "8 \<le> length p"
  then have "take (Suc 0) p = [p ! 0]"
    by (cases p) auto
  then have "take 8 p = [p ! 0, p ! 1, p ! 2, p ! 3, p ! 4, p ! 5, p ! 6, p ! 7]"
    using len by (simp add: take_Suc_conv_app_nth numeral_eq_Suc)
  then show ?thesis
    by (simp add: fnv_round_def fnv1a_def)
qed

lemma fnv1a_split: "fnv1a (fnv1a h (take n p)) (drop n p) = fnv1a h p"
  by (metis append_take_drop_id fnv1a_def foldl_append)

lemma fnv_loop_eq: "fnv_loop h p = fnv1a h p"
proof (induction h p rule: fnv_loop.induct)
  case (1 h p)
  then show ?case
    by (subst fnv_loop.simps) (simp add: fnv_round_eq fnv1a_split fnv_tail_eq)
qed

lemma fnv_cstr_loop_eq:
  "0 \<notin> set xs \<Longrightarrow> fnv_cstr_loop h (xs @ 0 # junk) = Some (fnv1a h xs)"
proof (induction "length xs" arbitrary: h xs rule: less_induct)
  case less
  show ?case
  proof (cases "length xs < 8")
    case True
    moreover have "takeWhile (\<lambda>b. b \<noteq> 0) (xs @ 0 # junk) = xs"
      using less.prems by (subst takeWhile_append2) auto
    ultimately have "memchr0 (xs @ 0 # junk) 8 = Some (length xs)"
      by (simp add: memchr0_def take_Cons')
    then show ?thesis
      by (subst fnv_cstr_loop.simps) (simp add: fnv_tail_eq)
  next
    case False
    then have "memchr0 (xs @ 0 # junk) 8 = None" "8 \<le> length (xs @ 0 # junk)"
      using less.prems by (auto simp: memchr0_def dest: in_set_takeD)
    moreover have "fnv_cstr_loop (fnv_round h (xs @ 0 # junk)) (drop 8 xs @ 0 # junk) =
        Some (fnv1a (fnv_round h (xs @ 0 # junk)) (drop 8 xs))"
      using False less.prems by (intro less.hyps) (auto dest: in_set_dropD)
    ultimately show ?thesis
      using False by (subst fnv_cstr_loop.simps) (simp add: fnv_round_eq fnv1a_split)
  qed
qed

section \<open>Properties\<close>

text \<open>
  The unrolled FNV-1a loop, the string variant and the byte-by-byte definition agree: on every
  byte string without a zero byte, whatever follows its terminator.
\<close>

theorem fnv1a64_unrolled:
  "ny_fnv1a64 xs seed = foldl fnv_step (fnv_seed seed) xs \<and>
   (0 \<notin> set xs \<longrightarrow> ny_fnv1a64_cstr (Some (xs @ 0 # junk)) seed = Some (ny_fnv1a64 xs seed))"
  by (simp add: ny_fnv1a64_def fnv_loop_eq ny_fnv1a64_cstr_def fnv_cstr_loop_eq fnv1a_def)

theorem fnv1a64_unrolled_witness:
  "ny_fnv1a64_cstr (Some ([1, 2, 3, 4, 5, 6, 7, 8, 9, 10] @ 0 # [7])) 0 = Some (ny_fnv1a64 [1, 2, 3, 4, 5, 6, 7, 8, 9, 10] 0)"
  using fnv1a64_unrolled [of "[1, 2, 3, 4, 5, 6, 7, 8, 9, 10]" 0 "[7]"] by simp

text \<open>
  FNV-1a is incremental. Hashing a second block with the hash of the first one as the seed is
  hashing their concatenation, unless the first hash is zero, the seed that stands for the default.
\<close>

theorem fnv1a64_incremental:
  assumes "ny_fnv1a64 xs seed \<noteq> 0"
  shows "ny_fnv1a64 ys (ny_fnv1a64 xs seed) = ny_fnv1a64 (xs @ ys) seed"
  using assms by (simp add: ny_fnv1a64_def fnv_loop_eq fnv_seed_def fnv1a_def)

theorem fnv1a64_incremental_witness:
  "ny_fnv1a64 [98] (ny_fnv1a64 [97] 0) = ny_fnv1a64 [97, 98] 0"
proof -
  have "ny_fnv1a64 [97] 0 \<noteq> 0"
    by code_simp
  then show ?thesis
    using fnv1a64_incremental [of "[97]" 0 "[98]"] by simp
qed

end
