(* ===== verification/Lexer_State.thy ===== *)
theory Lexer_State
  imports Base_Hash
begin

text \<open>
  Characters, scanning loops, tokens and the state of the lexer of \<open>src/parse/lexer.c\<close>. A source is the list of its bytes up to the terminator; reading
  at the end gives the terminator. A loop over the source is total because every round moves the
  position towards the end. The symbol table is a parameter: its state is a field of the lexer, its
  operations are passed to the functions that intern.
\<close>

section \<open>Character classes\<close>

definition ny_lex_table :: "nat list" where
  "ny_lex_table =
     replicate 9 0 @ [1, 1, 0, 0, 1] @ replicate 18 0 @ [1] @ replicate 15 0 @ replicate 10 4 @
     replicate 7 0 @ replicate 26 2 @ replicate 4 0 @ [2, 0] @ replicate 26 2 @ replicate 133 0"

definition IS_SPACE :: "char \<Rightarrow> bool" where
  "IS_SPACE c \<longleftrightarrow> ny_lex_table ! of_char c AND 1 \<noteq> 0"

definition IS_ALPHA :: "char \<Rightarrow> bool" where
  "IS_ALPHA c \<longleftrightarrow> ny_lex_table ! of_char c AND 2 \<noteq> 0"

definition IS_DIGIT :: "char \<Rightarrow> bool" where
  "IS_DIGIT c \<longleftrightarrow> ny_lex_table ! of_char c AND 4 \<noteq> 0"

definition IS_ALNUM :: "char \<Rightarrow> bool" where
  "IS_ALNUM c \<longleftrightarrow> ny_lex_table ! of_char c AND 6 \<noteq> 0"

abbreviation NUL :: char where "NUL \<equiv> CHR 0x00"
abbreviation newline :: char where "newline \<equiv> CHR 0x0A"
abbreviation tab_char :: char where "tab_char \<equiv> CHR 0x09"
abbreviation cr_char :: char where "cr_char \<equiv> CHR 0x0D"
abbreviation squote :: char where "squote \<equiv> CHR 0x27"
abbreviation dquote :: char where "dquote \<equiv> CHR 0x22"
abbreviation backslash :: char where "backslash \<equiv> CHR 0x5C"

text \<open>The byte at a position of a C string.\<close>

definition src_at :: "string \<Rightarrow> nat \<Rightarrow> char" where
  "src_at src i = (if i < length src then src ! i else NUL)"

definition ny_is_alnum8 :: "string \<Rightarrow> nat \<Rightarrow> bool" where
  "ny_is_alnum8 src p \<longleftrightarrow>
     IS_ALNUM (src_at src p) \<and> IS_ALNUM (src_at src (p + 1)) \<and>
     IS_ALNUM (src_at src (p + 2)) \<and> IS_ALNUM (src_at src (p + 3)) \<and>
     IS_ALNUM (src_at src (p + 4)) \<and> IS_ALNUM (src_at src (p + 5)) \<and>
     IS_ALNUM (src_at src (p + 6)) \<and> IS_ALNUM (src_at src (p + 7))"

definition ny_is_digit8 :: "string \<Rightarrow> nat \<Rightarrow> bool" where
  "ny_is_digit8 src p \<longleftrightarrow>
     IS_DIGIT (src_at src p) \<and> IS_DIGIT (src_at src (p + 1)) \<and>
     IS_DIGIT (src_at src (p + 2)) \<and> IS_DIGIT (src_at src (p + 3)) \<and>
     IS_DIGIT (src_at src (p + 4)) \<and> IS_DIGIT (src_at src (p + 5)) \<and>
     IS_DIGIT (src_at src (p + 6)) \<and> IS_DIGIT (src_at src (p + 7))"

definition ny_digit_sep_before_digit :: "string \<Rightarrow> nat \<Rightarrow> bool" where
  "ny_digit_sep_before_digit src pos \<longleftrightarrow> src_at src pos = CHR ''_'' \<and> IS_DIGIT (src_at src (pos + 1))"

definition ny_digit_sep_before :: "string \<Rightarrow> nat \<Rightarrow> (char \<Rightarrow> bool) \<Rightarrow> bool" where
  "ny_digit_sep_before src pos pred \<longleftrightarrow> src_at src pos = CHR ''_'' \<and> pred (src_at src (pos + 1))"

definition ny_is_bindigit :: "char \<Rightarrow> bool" where
  "ny_is_bindigit c \<longleftrightarrow> c = CHR ''0'' \<or> c = CHR ''1''"

definition char_le :: "char \<Rightarrow> char \<Rightarrow> bool" where
  "char_le c d \<longleftrightarrow> (of_char c :: nat) \<le> of_char d"

definition ny_is_octdigit :: "char \<Rightarrow> bool" where
  "ny_is_octdigit c \<longleftrightarrow> char_le (CHR ''0'') c \<and> char_le c (CHR ''7'')"

text \<open>\<open>isdigit\<close> and \<open>isxdigit\<close> of the C locale.\<close>

definition c_isdigit :: "char \<Rightarrow> bool" where
  "c_isdigit c \<longleftrightarrow> char_le (CHR ''0'') c \<and> char_le c (CHR ''9'')"

definition ny_is_xdigit :: "char \<Rightarrow> bool" where
  "ny_is_xdigit c \<longleftrightarrow>
     c_isdigit c \<or> char_le (CHR ''a'') c \<and> char_le c (CHR ''f'') \<or>
     char_le (CHR ''A'') c \<and> char_le c (CHR ''F'')"

section \<open>Scanning\<close>

text \<open>
  \<open>while (P(p)) p++\<close>. The predicates read the byte at the position and fail at the terminator, so
  the bound of the source is the one the terminator gives.
\<close>

function scan_pos :: "(nat \<Rightarrow> bool) \<Rightarrow> string \<Rightarrow> nat \<Rightarrow> nat" where
  "scan_pos P src p = (if p < length src \<and> P p then scan_pos P src (Suc p) else p)"
  by pat_completeness auto
termination
  by (relation "measure (\<lambda>(P, src, p). length src - p)") auto

declare scan_pos.simps [simp del]

text \<open>The loops that look at eight bytes at a time: \<open>while (p + 8 <= end && all8(p)) p += 8\<close>.\<close>

function scan8 :: "(nat \<Rightarrow> bool) \<Rightarrow> nat \<Rightarrow> nat \<Rightarrow> nat" where
  "scan8 P len p = (if p + 8 \<le> len \<and> P p then scan8 P len (p + 8) else p)"
  by pat_completeness auto
termination
  by (relation "measure (\<lambda>(P, len, p). len - p)") auto

declare scan8.simps [simp del]

abbreviation scan_alnum :: "string \<Rightarrow> nat \<Rightarrow> nat" where
  "scan_alnum src \<equiv> scan_pos (\<lambda>p. IS_ALNUM (src_at src p)) src"

abbreviation skip_blanks :: "string \<Rightarrow> nat \<Rightarrow> nat" where
  "skip_blanks src \<equiv> scan_pos (\<lambda>p. src_at src p = CHR '' '' \<or> src_at src p = tab_char) src"

lemma scan_pos_ge: "p \<le> scan_pos P src p"
  by (induction P src p rule: scan_pos.induct) (subst scan_pos.simps, auto)

lemma scan_pos_le: "p \<le> length src \<Longrightarrow> scan_pos P src p \<le> length src"
  by (induction P src p rule: scan_pos.induct) (subst scan_pos.simps, auto)

lemma src_at_inside: "src_at src p \<noteq> NUL \<Longrightarrow> p < length src"
  by (simp add: src_at_def split: if_splits)

text \<open>\<open>$\<close>\<open>{name}\<close> parts of a template identifier.\<close>

function scan_template_ident_tail :: "string \<Rightarrow> nat \<Rightarrow> nat" where
  "scan_template_ident_tail src p =
     (if src_at src p = CHR ''$'' \<and> src_at src (p + 1) = CHR ''{'' then
        (let q = p + 2 in
         if \<not> IS_ALPHA (src_at src q) then p
         else
           (let q' = scan_alnum src q in
            if src_at src q' \<noteq> CHR ''}'' then p
            else scan_template_ident_tail src (scan_alnum src (q' + 1))))
      else p)"
  by pat_completeness auto
termination
proof (relation "measure (\<lambda>(src, p). length src - p)")
  fix src p q q'
  assume a: "src_at src p = CHR ''$'' \<and> src_at src (p + 1) = CHR ''{''" "q = p + 2" "q' = scan_alnum src q"
  have "p < length src"
    using a src_at_inside [of src p] by simp
  moreover have "p < scan_alnum src (q' + 1)"
    using scan_pos_ge [of q "\<lambda>p. IS_ALNUM (src_at src p)" src] scan_pos_ge [of "q' + 1" "\<lambda>p. IS_ALNUM (src_at src p)" src]
      a(2,3) by linarith
  ultimately show "((src, scan_alnum src (q' + 1)), src, p) \<in> measure (\<lambda>(src, p). length src - p)"
    by simp
qed simp

declare scan_template_ident_tail.simps [simp del]

section \<open>Tokens and state\<close>

text \<open>The enumerators of \<open>token_kind\<close>, grouped: keywords, operators, punctuation.\<close>

datatype keyword_kind =
  NY_T_FN | NY_T_RETURN | NY_T_IF | NY_T_ELSE | NY_T_WHILE | NY_T_FOR | NY_T_IN | NY_T_TRUE
  | NY_T_FALSE | NY_T_TRY | NY_T_CATCH | NY_T_USE | NY_T_GOTO | NY_T_LAMBDA | NY_T_DEFER
  | NY_T_BREAK | NY_T_CONTINUE | NY_T_ELIF | NY_T_ASM | NY_T_AS | NY_T_COMPTIME | NY_T_STRUCT
  | NY_T_MATCH | NY_T_EMBED | NY_T_SIZEOF | NY_T_EXTERN | NY_T_DEF | NY_T_MUT | NY_T_NIL
  | NY_T_DEL | NY_T_MODULE | NY_T_ENUM

datatype operator_kind =
  NY_T_PLUS | NY_T_MINUS | NY_T_STAR | NY_T_SLASH | NY_T_PERCENT | NY_T_EQ | NY_T_NEQ | NY_T_LT
  | NY_T_GT | NY_T_LE | NY_T_GE | NY_T_AND | NY_T_OR | NY_T_NOT | NY_T_ASSIGN | NY_T_PLUS_EQ
  | NY_T_MINUS_EQ | NY_T_STAR_EQ | NY_T_SLASH_EQ | NY_T_PERCENT_EQ | NY_T_POW_EQ | NY_T_BITXOR_EQ
  | NY_T_LSHIFT_EQ | NY_T_RSHIFT_EQ | NY_T_ARROW | NY_T_BITOR | NY_T_BITAND | NY_T_POW
  | NY_T_BITXOR | NY_T_LSHIFT | NY_T_RSHIFT | NY_T_BITNOT

datatype punct_kind =
  NY_T_LPAREN | NY_T_RPAREN | NY_T_LBRACE | NY_T_RBRACE | NY_T_LBRACK | NY_T_RBRACK | NY_T_COMMA
  | NY_T_COLON | NY_T_SEMI | NY_T_DOT | NY_T_RANGE | NY_T_ELLIPSIS | NY_T_QUESTION | NY_T_AT
  | NY_T_HASH | NY_T_PLUS_PLUS | NY_T_MINUS_MINUS | NY_T_PIPE | NY_T_QUESTION_QUESTION
  | NY_T_QUESTION_DOT

datatype token_kind =
  NY_T_EOF | NY_T_IDENT | NY_T_NUMBER | NY_T_STRING | NY_T_FSTRING | Kw keyword_kind
  | Op operator_kind | Punct punct_kind | NY_T_ERROR

text \<open>
  \<open>tok_lexeme\<close> is the offset of the lexeme in the source. The end-of-file token leaves \<open>hash\<close> and
  \<open>real_line\<close> unassigned, which is \<open>None\<close>.
\<close>

record token_t =
  tok_kind :: token_kind
  tok_lexeme :: nat
  tok_len :: nat
  tok_sym_id :: nat
  tok_hash :: "u64 option"
  tok_line :: int
  tok_real_line :: "int option"
  tok_col :: int
  tok_filename :: "string option"

record 's lexer_t =
  lx_src :: string
  lx_filename :: "string option"
  lx_len :: nat
  lx_source_has_newline :: bool
  lx_pos :: nat
  lx_line :: int
  lx_real_line :: int
  lx_col :: int
  lx_split_pos :: nat
  lx_split_filename :: "string option"
  lx_skipped_newline :: bool
  lx_intern_identifiers :: bool
  lx_quiet :: bool
  lx_had_error :: bool
  lx_error_count :: int
  lx_syms :: 's

text \<open>The operations of the symbol table that the lexer calls.\<close>

record 's sym_ops =
  sy_intern :: "string \<Rightarrow> 's \<Rightarrow> nat \<times> 's"
  sy_get :: "'s \<Rightarrow> nat \<Rightarrow> string"

definition lexer_intern_filename :: "'s sym_ops \<Rightarrow> string option \<Rightarrow> 's \<Rightarrow> string option \<times> 's" where
  "lexer_intern_filename ops filename syms =
     (case filename of
        None \<Rightarrow> (None, syms)
      | Some f \<Rightarrow>
          (case sy_intern ops f syms of
             (i, syms') \<Rightarrow> (Some (if i \<noteq> 0 then sy_get ops syms' i else f), syms')))"

definition lexer_init :: "'s sym_ops \<Rightarrow> string option \<Rightarrow> string option \<Rightarrow> 's \<Rightarrow> 's lexer_t" where
  "lexer_init ops src filename syms =
     (let text = (case src of None \<Rightarrow> [] | Some s \<Rightarrow> takeWhile (\<lambda>c. c \<noteq> NUL) s);
          fs = lexer_intern_filename ops filename syms
      in \<lparr>lx_src = text, lx_filename = fst fs, lx_len = length text,
          lx_source_has_newline = (newline \<in> set text), lx_pos = 0, lx_line = 1, lx_real_line = 1,
          lx_col = 1, lx_split_pos = 0, lx_split_filename = None, lx_skipped_newline = False,
          lx_intern_identifiers = True, lx_quiet = False, lx_had_error = False, lx_error_count = 0,
          lx_syms = snd fs\<rparr>)"

definition peek :: "'s lexer_t \<Rightarrow> char" where
  "peek lx = src_at (lx_src lx) (lx_pos lx)"

definition peek_next :: "'s lexer_t \<Rightarrow> char" where
  "peek_next lx = (if peek lx = NUL then NUL else src_at (lx_src lx) (lx_pos lx + 1))"

definition enter_split :: "'s lexer_t \<Rightarrow> 's lexer_t" where
  "enter_split lx =
     (if lx_split_pos lx > 0 \<and> lx_pos lx = lx_split_pos lx
      then lx\<lparr>lx_line := 1, lx_col := 1, lx_filename := lx_split_filename lx\<rparr> else lx)"

definition advance :: "'s lexer_t \<Rightarrow> char \<times> 's lexer_t" where
  "advance lx =
     (if peek lx = NUL then (NUL, lx)
      else
        (let c = peek lx;
             lx1 = enter_split lx;
             lx2 = lx1\<lparr>lx_pos := lx_pos lx1 + 1\<rparr>
         in (c, if c = newline
                then lx2\<lparr>lx_line := lx_line lx2 + 1, lx_real_line := lx_real_line lx2 + 1, lx_col := 1,
                         lx_skipped_newline := True\<rparr>
                else lx2\<lparr>lx_col := lx_col lx2 + 1\<rparr>)))"

abbreviation adv :: "'s lexer_t \<Rightarrow> 's lexer_t" where
  "adv lx \<equiv> snd (advance lx)"

text \<open>\<open>if (match(lx, c)) ... else ...\<close>: the byte is consumed when it is the expected one.\<close>

definition on_match :: "char \<Rightarrow> 's lexer_t \<Rightarrow> ('s lexer_t \<Rightarrow> 'r) \<Rightarrow> 'r \<Rightarrow> 'r" where
  "on_match expected lx yes no = (if peek lx = expected then yes (adv lx) else no)"

definition make_token :: "'s lexer_t \<Rightarrow> token_kind \<Rightarrow> nat \<Rightarrow> token_t" where
  "make_token lx kind start =
     \<lparr>tok_kind = kind, tok_lexeme = start, tok_len = lx_pos lx - start, tok_sym_id = 0,
      tok_hash = Some 0, tok_line = lx_line lx, tok_real_line = Some (lx_real_line lx),
      tok_col = lx_col lx - int (lx_pos lx - start), tok_filename = lx_filename lx\<rparr>"

definition lexer_error :: "'s lexer_t \<Rightarrow> 's lexer_t" where
  "lexer_error lx = lx\<lparr>lx_had_error := True, lx_error_count := lx_error_count lx + 1\<rparr>"

text \<open>The text of a token and of a stretch of the source.\<close>

definition src_slice :: "string \<Rightarrow> nat \<Rightarrow> nat \<Rightarrow> string" where
  "src_slice src start n = take n (drop start src)"

section \<open>Moving forward\<close>

text \<open>
  An operation moves forward when it keeps the source and the settings and does not go back; the
  position stays inside the source. All loops of the lexer rest on this.
\<close>

definition forward :: "'s lexer_t \<Rightarrow> 's lexer_t \<Rightarrow> bool" where
  "forward lx lx' \<longleftrightarrow>
     lx_src lx' = lx_src lx \<and> lx_len lx' = lx_len lx \<and> lx_split_pos lx' = lx_split_pos lx \<and>
     lx_split_filename lx' = lx_split_filename lx \<and> lx_intern_identifiers lx' = lx_intern_identifiers lx \<and>
     lx_quiet lx' = lx_quiet lx \<and> (lx_had_error lx \<longrightarrow> lx_had_error lx') \<and>
     lx_pos lx \<le> lx_pos lx' \<and> (lx_pos lx \<le> length (lx_src lx) \<longrightarrow> lx_pos lx' \<le> length (lx_src lx))"

lemma forward_refl [simp, intro]: "forward lx lx"
  by (simp add: forward_def)

lemma forward_trans [trans]: "forward a b \<Longrightarrow> forward b c \<Longrightarrow> forward a c"
  by (auto simp: forward_def)

lemma forward_pos: "forward lx lx' \<Longrightarrow> lx_pos lx \<le> lx_pos lx'"
  by (simp add: forward_def)

lemma forward_src: "forward lx lx' \<Longrightarrow> lx_src lx' = lx_src lx"
  by (simp add: forward_def)

lemma enter_split_simps [simp]:
  "lx_src (enter_split lx) = lx_src lx" "lx_len (enter_split lx) = lx_len lx" "lx_pos (enter_split lx) = lx_pos lx"
  "lx_split_pos (enter_split lx) = lx_split_pos lx" "lx_split_filename (enter_split lx) = lx_split_filename lx"
  "lx_intern_identifiers (enter_split lx) = lx_intern_identifiers lx" "lx_quiet (enter_split lx) = lx_quiet lx"
  "lx_had_error (enter_split lx) = lx_had_error lx" "lx_syms (enter_split lx) = lx_syms lx"
  "lx_real_line (enter_split lx) = lx_real_line lx"
  by (simp_all add: enter_split_def)

lemma peek_inside: "peek lx \<noteq> NUL \<Longrightarrow> lx_pos lx < length (lx_src lx)"
  by (simp add: peek_def src_at_inside)

lemma forward_adv [simp, intro]: "forward lx (adv lx)"
  using peek_inside [of lx] by (auto simp: forward_def advance_def Let_def)

lemma pos_adv: "lx_pos (adv lx) = (if peek lx = NUL then lx_pos lx else lx_pos lx + 1)"
  by (simp add: advance_def Let_def)

lemma forward_error [simp, intro]: "forward lx (lexer_error lx)"
  by (simp add: forward_def lexer_error_def)

text \<open>\<open>while (peek(lx) != '\0' && P(lx)) advance(lx);\<close>\<close>

function advance_while :: "('s lexer_t \<Rightarrow> bool) \<Rightarrow> 's lexer_t \<Rightarrow> 's lexer_t" where
  "advance_while P lx = (if peek lx \<noteq> NUL \<and> P lx then advance_while P (adv lx) else lx)"
  by pat_completeness auto
termination
proof (relation "measure (\<lambda>(P, lx). length (lx_src lx) - lx_pos lx)")
  fix P :: "'s lexer_t \<Rightarrow> bool" and lx :: "'s lexer_t"
  assume "peek lx \<noteq> NUL \<and> P lx"
  then show "((P, adv lx), P, lx) \<in> measure (\<lambda>(P, lx). length (lx_src lx) - lx_pos lx)"
    using peek_inside [of lx] by (simp add: pos_adv forward_src [OF forward_adv] diff_less_mono2)
qed simp

declare advance_while.simps [simp del]

lemma forward_advance_while [simp, intro]: "forward lx (advance_while P lx)"
proof (induction P lx rule: advance_while.induct)
  case (1 P lx)
  then show ?case
    by (subst advance_while.simps) (auto intro: forward_trans [OF forward_adv])
qed

lemma advance_while_stops: "peek (advance_while P lx) = NUL \<or> \<not> P (advance_while P lx)"
proof (induction P lx rule: advance_while.induct)
  case (1 P lx)
  show ?case
    using 1 by (cases "peek lx \<noteq> NUL \<and> P lx") (auto simp: advance_while.simps [of P lx])
qed

lemma forward_iter [simp, intro]: "forward lx (((\<lambda>l. adv l) ^^ n) lx)"
  by (induction n) (auto intro: forward_trans [OF _ forward_adv])

end
