(* ===== verification/Lexer.thy ===== *)
theory Lexer
  imports Lexer_State
begin

text \<open>
  The lexer of \<open>src/parse/lexer.c\<close>: blanks, comments and directives, identifiers and keywords, numbers,
  strings, operators, and \<open>lexer_next\<close>. Each handler is followed by the lemma that it moves forward.
\<close>

section \<open>Blanks, comments and directives\<close>

definition skip_line :: "'s lexer_t \<Rightarrow> 's lexer_t" where
  "skip_line lx = advance_while (\<lambda>l. peek l \<noteq> newline) lx"

definition symbol_closer :: "char \<Rightarrow> char" where
  "symbol_closer opener =
     (if opener = CHR ''{'' then CHR ''}'' else if opener = CHR ''<'' then CHR ''>''
      else if opener = CHR ''['' then CHR '']'' else CHR '')'')"

text \<open>
  \<open>;{ ... };\<close> and the like: the loop stops at the closing pair, which is then consumed, or at the end.
\<close>

definition symbol_comment :: "char \<Rightarrow> 's lexer_t \<Rightarrow> 's lexer_t" where
  "symbol_comment opener lx =
     (let lx1 = advance_while (\<lambda>l. \<not> (peek l = symbol_closer opener \<and> peek_next l = CHR '';'')) (adv lx)
      in if peek lx1 \<noteq> NUL then adv (adv lx1) else lexer_error lx1)"

definition marker_here :: "string \<Rightarrow> nat \<Rightarrow> nat \<Rightarrow> nat \<Rightarrow> bool" where
  "marker_here src marker_start marker_len cur \<longleftrightarrow>
     src_slice src cur marker_len = src_slice src marker_start marker_len \<and>
     src_at src (cur + marker_len) = CHR '';'' \<and>
     (let prev = (if cur > 0 then src_at src (cur - 1) else NUL)
      in \<not> (IS_ALNUM prev \<or> prev = CHR ''_''))"

definition marker_comment :: "'s lexer_t \<Rightarrow> 's lexer_t" where
  "marker_comment lx =
     (let marker_start = lx_pos lx;
          lx1 = advance_while (\<lambda>l. IS_ALNUM (peek l) \<or> peek l = CHR ''_'') lx;
          marker_len = lx_pos lx1 - marker_start;
          lx2 = advance_while (\<lambda>l. \<not> marker_here (lx_src l) marker_start marker_len (lx_pos l)) lx1
      in if peek lx2 \<noteq> NUL then ((\<lambda>l. adv l) ^^ (marker_len + 1)) lx2 else lexer_error lx2)"

definition skip_comment :: "'s lexer_t \<Rightarrow> 's lexer_t" where
  "skip_comment lx0 =
     (let lx = adv lx0; opener = peek lx
      in if opener = NUL \<or> opener = newline \<or> opener = CHR '' '' \<or> opener = tab_char \<or> opener = cr_char
         then skip_line lx
         else if opener = CHR ''{'' \<or> opener = CHR ''<'' \<or> opener = CHR ''['' \<or> opener = CHR ''(''
         then symbol_comment opener lx
         else if IS_ALPHA opener \<or> opener = CHR ''_'' then marker_comment lx
         else skip_line lx)"

definition skip_space :: "'s lexer_t \<Rightarrow> 's lexer_t" where
  "skip_space lx =
     (let src = lx_src lx;
          limit = (if lx_split_pos lx > 0 \<and> lx_pos lx < lx_split_pos lx then Some (lx_split_pos lx) else None);
          pos = (if peek lx \<noteq> newline
                 then scan_pos (\<lambda>p. IS_SPACE (src_at src p) \<and> src_at src p \<noteq> newline \<and> limit \<noteq> Some p)
                        src (lx_pos lx)
                 else lx_pos lx)
      in if pos \<noteq> lx_pos lx
         then lx\<lparr>lx_col := lx_col lx + int (pos - lx_pos lx), lx_pos := pos\<rparr>
         else adv lx)"

text \<open>\<open>#line\<close> directives. \<open>strtoll\<close> saturates and the result is converted to \<open>int\<close>.\<close>

definition decimal_value :: "string \<Rightarrow> int" where
  "decimal_value ds = foldl (\<lambda>v d. 10 * v + (of_char d - 48)) 0 ds"

definition line_value :: "string \<Rightarrow> int" where
  "line_value ds = sint (word_of_int (min (decimal_value ds) (2 ^ 63 - 1)) :: 32 word)"

definition starts_line_word :: "string \<Rightarrow> nat \<Rightarrow> bool" where
  "starts_line_word src p \<longleftrightarrow>
     src_slice src p 4 = ''line'' \<and> (src_at src (p + 4) = CHR '' '' \<or> src_at src (p + 4) = tab_char)"

definition directive_number_pos :: "string \<Rightarrow> nat \<Rightarrow> nat" where
  "directive_number_pos src p0 =
     (let p = skip_blanks src p0 in if starts_line_word src p then skip_blanks src (p + 4) else p)"

text \<open>The quoted file name: the position behind it, the new name and the symbol table.\<close>

definition directive_file ::
  "'s sym_ops \<Rightarrow> string \<Rightarrow> nat \<Rightarrow> string option \<Rightarrow> 's \<Rightarrow> nat \<times> string option \<times> 's" where
  "directive_file ops src p filename syms =
     (if src_at src p = dquote then
        (let f = p + 1;
             q = scan_pos (\<lambda>i. src_at src i \<noteq> dquote \<and> src_at src i \<noteq> newline) src f
         in if src_at src q = dquote
            then (case sy_intern ops (src_slice src f (q - f)) syms of
                    (file_id, syms') \<Rightarrow> (q + 1, Some (sy_get ops syms' file_id), syms'))
            else (q, filename, syms))
      else (p, filename, syms))"

definition line_directive :: "'s sym_ops \<Rightarrow> nat \<Rightarrow> 's lexer_t \<Rightarrow> 's lexer_t" where
  "line_directive ops p lx =
     (let src = lx_src lx;
          e = scan_pos (\<lambda>i. c_isdigit (src_at src i)) src p
      in case directive_file ops src (skip_blanks src e) (lx_filename lx) (lx_syms lx) of
           (q, filename, syms) \<Rightarrow>
             (let lx1 = skip_line (lx\<lparr>lx_filename := filename, lx_syms := syms,
                                     lx_line := line_value (src_slice src p (e - p)), lx_pos := q, lx_col := 1\<rparr>)
              in if peek lx1 = newline
                 then (let lx2 = adv lx1
                       in lx2\<lparr>lx_line := lx_line lx2 - 1, lx_real_line := lx_real_line lx2 - 1\<rparr>)
                 else lx1))"

text \<open>
  One round of the loop: whether it goes on, and the state. A \<open>#line\<close> without a number leaves the
  loop behind the \<open>#\<close>.
\<close>

definition is_line_dir :: "string \<Rightarrow> nat \<Rightarrow> bool" where
  "is_line_dir src p \<longleftrightarrow>
     starts_line_word src p \<or> src_slice src p 4 = ''line'' \<and> src_at src (p + 4) = NUL \<or>
     c_isdigit (src_at src p)"

definition skip_hash :: "'s sym_ops \<Rightarrow> 's lexer_t \<Rightarrow> bool \<times> 's lexer_t" where
  "skip_hash ops lx =
     (let src = lx_src lx; start_pos = lx_pos lx
      in if start_pos = 0 \<or> src_at src (start_pos - 1) = newline then
           (let p = skip_blanks src (start_pos + 1);
                is_shebang = (start_pos = 0 \<and> src_at src p = CHR ''!'')
            in if is_line_dir src p then
                 (let lx1 = adv lx; q = directive_number_pos src (lx_pos lx1)
                  in if c_isdigit (src_at src q) then (True, line_directive ops q lx1) else (False, lx1))
               else if is_shebang then (True, skip_line lx)
               else (False, lx))
         else (False, lx))"

definition skip_step :: "'s sym_ops \<Rightarrow> 's lexer_t \<Rightarrow> bool \<times> 's lexer_t" where
  "skip_step ops lx =
     (let c = peek lx
      in if IS_SPACE c then (True, skip_space lx)
         else if c = CHR '';'' then (True, skip_comment lx)
         else if c = CHR ''#'' then skip_hash ops lx
         else (False, lx))"

subsection \<open>Every round that goes on moves forward\<close>

lemma not_space_NUL [simp]: "\<not> IS_SPACE NUL" "\<not> IS_ALPHA NUL" "\<not> IS_DIGIT NUL" "\<not> IS_ALNUM NUL"
    "\<not> c_isdigit NUL" "\<not> ny_is_xdigit NUL" "\<not> ny_is_bindigit NUL" "\<not> ny_is_octdigit NUL"
  by code_simp+

lemma forward_adv_trans: "forward (adv lx) lx' \<Longrightarrow> forward lx lx'"
  by (rule forward_trans [OF forward_adv])

lemma adv_moves: "peek lx \<noteq> NUL \<Longrightarrow> forward (adv lx) lx' \<Longrightarrow> lx_pos lx < lx_pos lx'"
  using forward_pos [of "adv lx" lx'] by (simp add: pos_adv)

lemma forward_skip_line [simp, intro]: "forward lx (skip_line lx)"
  by (simp add: skip_line_def)

lemma forward_adv2: "forward lx lx' \<Longrightarrow> forward lx (adv lx')" "forward lx lx' \<Longrightarrow> forward lx (lexer_error lx')"
    "forward lx lx' \<Longrightarrow> forward lx (advance_while P lx')" "forward lx lx' \<Longrightarrow> forward lx (((\<lambda>l. adv l) ^^ n) lx')"
    "forward lx lx' \<Longrightarrow> forward lx (skip_line lx')"
  by (auto intro: forward_trans)

lemma forward_symbol_comment [simp, intro]: "forward lx (symbol_comment opener lx)"
  unfolding symbol_comment_def Let_def by (auto intro!: forward_adv2 del: funpow.simps)

lemma forward_marker_comment [simp, intro]: "forward lx (marker_comment lx)"
  unfolding marker_comment_def Let_def by (auto intro!: forward_adv2 simp del: funpow.simps)

lemma forward_skip_comment: "forward (adv lx) (skip_comment lx)"
  by (simp add: skip_comment_def Let_def)

lemma skip_space_moves:
  assumes "IS_SPACE (peek lx)"
  shows "forward lx (skip_space lx)" "lx_pos lx < lx_pos (skip_space lx)"
proof -
  define limit where "limit = (if lx_split_pos lx > 0 \<and> lx_pos lx < lx_split_pos lx then Some (lx_split_pos lx) else None)"
  define P where "P p = (IS_SPACE (src_at (lx_src lx) p) \<and> src_at (lx_src lx) p \<noteq> newline \<and> limit \<noteq> Some p)" for p
  define pos where "pos = (if peek lx \<noteq> newline then scan_pos P (lx_src lx) (lx_pos lx) else lx_pos lx)"
  have s: "skip_space lx = (if pos \<noteq> lx_pos lx then lx\<lparr>lx_col := lx_col lx + int (pos - lx_pos lx), lx_pos := pos\<rparr> else adv lx)"
    unfolding skip_space_def Let_def limit_def [symmetric] P_def [symmetric] pos_def ..
  have ge: "lx_pos lx \<le> pos" "lx_pos lx \<le> length (lx_src lx) \<longrightarrow> pos \<le> length (lx_src lx)"
    by (simp_all add: pos_def scan_pos_ge scan_pos_le)
  have ne: "peek lx \<noteq> NUL"
    using assms by auto
  show "forward lx (skip_space lx)"
    using ge unfolding s by (cases "pos = lx_pos lx") (simp, simp add: forward_def)
  show "lx_pos lx < lx_pos (skip_space lx)"
    using ge(1) ne unfolding s by (simp add: pos_adv)
qed

lemma directive_file_range:
  "p \<le> fst (directive_file ops src p filename syms) \<and>
   (p \<le> length src \<longrightarrow> fst (directive_file ops src p filename syms) \<le> length src)"
proof -
  let ?q = "scan_pos (\<lambda>i. src_at src i \<noteq> dquote \<and> src_at src i \<noteq> newline) src (p + 1)"
  have "p + 1 \<le> ?q"
    by (rule scan_pos_ge)
  moreover have "?q \<le> length src" if "src_at src p = dquote"
    using src_at_inside [of src p] that by (intro scan_pos_le) simp
  moreover have "?q < length src" if "src_at src ?q = dquote"
    using that by (intro src_at_inside) simp
  ultimately show ?thesis
    by (cases "sy_intern ops (src_slice src (p + 1) (?q - (p + 1))) syms") (simp add: directive_file_def Let_def Suc_le_eq)
qed

lemma forward_line_directive:
  assumes "lx_pos lx \<le> p" "p \<le> length (lx_src lx)"
  shows "forward lx (line_directive ops p lx)"
proof -
  let ?src = "lx_src lx"
  let ?e = "scan_pos (\<lambda>i. c_isdigit (src_at ?src i)) ?src p"
  obtain q filename syms where d: "directive_file ops ?src (skip_blanks ?src ?e) (lx_filename lx) (lx_syms lx) = (q, filename, syms)"
    by (rule prod_cases3)
  have e: "p \<le> ?e" "?e \<le> skip_blanks ?src ?e" "skip_blanks ?src ?e \<le> length ?src"
    by (simp_all add: scan_pos_ge scan_pos_le assms)
  have q: "lx_pos lx \<le> q" "q \<le> length ?src"
    using directive_file_range [of "skip_blanks ?src ?e" ops ?src "lx_filename lx" "lx_syms lx"] e assms(1)
    by (simp_all add: d)
  let ?lx1 = "lx\<lparr>lx_filename := filename, lx_syms := syms, lx_line := line_value (src_slice ?src p (?e - p)), lx_pos := q, lx_col := 1\<rparr>"
  have f: "forward lx ?lx1"
    using q by (simp add: forward_def)
  have g: "forward a (b\<lparr>lx_line := x, lx_real_line := y\<rparr>)" if "forward a b" for a b :: "'a lexer_t" and x y
    using that by (simp add: forward_def)
  show ?thesis
    unfolding line_directive_def Let_def d prod.case
    by (cases "peek (skip_line ?lx1) = newline") (simp_all only: if_True if_False g forward_adv2(1,5) f simp_thms)
qed

lemma directive_number_pos_ge: "p \<le> directive_number_pos src p"
  using scan_pos_ge [of p "\<lambda>p. src_at src p = CHR '' '' \<or> src_at src p = tab_char" src]
    scan_pos_ge [of "skip_blanks src p + 4" "\<lambda>p. src_at src p = CHR '' '' \<or> src_at src p = tab_char" src]
  by (auto simp: directive_number_pos_def Let_def)

lemma skip_hash_moves:
  assumes "peek lx = CHR ''#''"
  shows "forward lx (snd (skip_hash ops lx))" "fst (skip_hash ops lx) \<Longrightarrow> lx_pos lx < lx_pos (snd (skip_hash ops lx))"
proof -
  let ?q = "directive_number_pos (lx_src lx) (lx_pos (adv lx))"
  have d: "forward (adv lx) (line_directive ops ?q (adv lx))" if "c_isdigit (src_at (lx_src lx) ?q)"
  proof -
    have "src_at (lx_src lx) ?q \<noteq> NUL"
      using that by auto
    then show ?thesis
      using src_at_inside [of "lx_src lx" ?q] forward_src [OF forward_adv, of lx]
      by (intro forward_line_directive directive_number_pos_ge) simp
  qed
  have "skip_line lx = skip_line (adv lx)"
    unfolding skip_line_def by (subst advance_while.simps) (simp add: assms)
  then have l: "lx_pos lx < lx_pos (skip_line lx)"
    using assms adv_moves [of lx "skip_line (adv lx)"] by simp
  note d' = d forward_adv_trans [OF d] adv_moves [OF _ d]
  show "forward lx (snd (skip_hash ops lx))"
    unfolding skip_hash_def Let_def using d'(2) by (simp split: if_split)
  show "fst (skip_hash ops lx) \<Longrightarrow> lx_pos lx < lx_pos (snd (skip_hash ops lx))"
    unfolding skip_hash_def Let_def using d'(3) l assms by (cases "lx_pos lx = 0"; auto split: if_splits)
qed

lemma skip_step_moves:
  "forward lx (snd (skip_step ops lx))" "fst (skip_step ops lx) \<Longrightarrow> lx_pos lx < lx_pos (snd (skip_step ops lx))"
  using skip_space_moves [of lx] skip_hash_moves [where lx = lx and ops = ops] forward_skip_comment [of lx] adv_moves [of lx "skip_comment lx"]
  by (auto simp: skip_step_def Let_def intro: forward_adv_trans split: if_splits)

lemma skip_step_inside: "fst (skip_step ops lx) \<Longrightarrow> lx_pos lx < length (lx_src lx)"
  by (rule peek_inside) (auto simp: skip_step_def Let_def split: if_splits)

function skip_whitespace :: "'s sym_ops \<Rightarrow> 's lexer_t \<Rightarrow> 's lexer_t" where
  "skip_whitespace ops lx =
     (case skip_step ops lx of (goes_on, lx') \<Rightarrow> if goes_on then skip_whitespace ops lx' else lx')"
  by pat_completeness auto
termination
proof (relation "measure (\<lambda>(ops, lx). length (lx_src lx) - lx_pos lx)")
  fix ops :: "'s sym_ops" and lx :: "'s lexer_t" and g lx'
  assume "(g, lx') = skip_step ops lx" g
  then have "skip_step ops lx = (True, lx')"
    by simp
  then show "((ops, lx'), ops, lx) \<in> measure (\<lambda>(ops, lx). length (lx_src lx) - lx_pos lx)"
    using skip_step_moves [where lx = lx and ops = ops] skip_step_inside [of ops lx] by (simp add: forward_def diff_less_mono2)
qed simp

declare skip_whitespace.simps [simp del]

lemma forward_skip_whitespace [simp, intro]: "forward lx (skip_whitespace ops lx)"
proof (induction ops lx rule: skip_whitespace.induct)
  case (1 ops lx)
  show ?case
    using 1 skip_step_moves(1) [of lx ops]
    by (subst skip_whitespace.simps) (auto split: prod.splits intro: forward_trans)
qed


section \<open>Identifiers\<close>

text \<open>
  The keyword switch: the kind of an identifier, and whether the word is reported as an error.
  \<open>memcmp(start, "word", n) == 0\<close> under \<open>len == n\<close> is equality of the text.
\<close>

definition word_kind :: "string \<Rightarrow> token_kind \<times> bool" where
  "word_kind w =
     (let c = w ! 0; n = length w; id = (NY_T_IDENT, False); bad = (NY_T_IDENT, True); kw = (\<lambda>k. (Kw k, False))
      in if c = CHR ''a'' then
           (if n > 1 \<and> w ! 1 = CHR ''s''
            then (if n = 2 then kw NY_T_AS else if n = 3 \<and> w ! 2 = CHR ''m'' then kw NY_T_ASM else id)
            else id)
         else if c = CHR ''b'' then (if w = ''break'' then kw NY_T_BREAK else id)
         else if c = CHR ''c'' then
           (if w = ''case'' then kw NY_T_MATCH else if w = ''catch'' then kw NY_T_CATCH
            else if w = ''continue'' then kw NY_T_CONTINUE else if w = ''comptime'' then kw NY_T_COMPTIME
            else if w = ''const'' then bad else id)
         else if c = CHR ''d'' then
           (if w = ''defer'' then kw NY_T_DEFER else if w = ''def'' then kw NY_T_DEF
            else if w = ''del'' then kw NY_T_DEL else id)
         else if c = CHR ''e'' then
           (if w = ''else'' then kw NY_T_ELSE else if w = ''elif'' then kw NY_T_ELIF
            else if w = ''enum'' then kw NY_T_ENUM else if w = ''embed'' then kw NY_T_EMBED
            else if w = ''extern'' then kw NY_T_EXTERN else id)
         else if c = CHR ''f'' then
           (if n > 1 then
              (if w ! 1 = CHR ''a'' then (if w = ''false'' then kw NY_T_FALSE else id)
               else if w ! 1 = CHR ''n'' then (if n = 2 then kw NY_T_FN else id)
               else if w ! 1 = CHR ''o'' then (if n = 3 \<and> w ! 2 = CHR ''r'' then kw NY_T_FOR else id)
               else id)
            else id)
         else if c = CHR ''g'' then (if w = ''goto'' then kw NY_T_GOTO else id)
         else if c = CHR ''i'' then
           (if n = 2 \<and> w ! 1 = CHR ''f'' then kw NY_T_IF
            else if n = 2 \<and> w ! 1 = CHR ''n'' then kw NY_T_IN
            else if w = ''import'' then bad else id)
         else if c = CHR ''n'' then (if w = ''nil'' then kw NY_T_NIL else if w = ''none'' then kw NY_T_NIL else id)
         else if c = CHR ''N'' then (if w = ''NULL'' then kw NY_T_NIL else id)
         else if c = CHR ''l'' then
           (if w = ''lambda'' then kw NY_T_LAMBDA else if w = ''layout'' then kw NY_T_STRUCT else id)
         else if c = CHR ''s'' then
           (if w = ''sizeof'' then kw NY_T_SIZEOF else if w = ''struct'' then kw NY_T_STRUCT else id)
         else if c = CHR ''v'' then (if w = ''var'' then bad else if w = ''void'' then bad else id)
         else if c = CHR ''m'' then
           (if w = ''match'' then kw NY_T_MATCH else if w = ''mut'' then kw NY_T_MUT
            else if w = ''module'' then kw NY_T_MODULE else id)
         else if c = CHR ''p'' then (if w = ''printf'' then bad else id)
         else if c = CHR ''r'' then (if w = ''return'' then kw NY_T_RETURN else id)
         else if c = CHR ''t'' then (if w = ''true'' then kw NY_T_TRUE else if w = ''try'' then kw NY_T_TRY else id)
         else if c = CHR ''u'' then (if w = ''use'' then kw NY_T_USE else id)
         else if c = CHR ''w'' then (if w = ''while'' then kw NY_T_WHILE else id)
         else id)"

definition identifier_type :: "'s lexer_t \<Rightarrow> string \<Rightarrow> token_kind \<times> 's lexer_t" where
  "identifier_type lx w = (case word_kind w of (k, bad) \<Rightarrow> (k, if bad then lexer_error lx else lx))"

type_synonym 's lexed = "token_t option \<times> 's lexer_t"

definition intern_ident :: "'s sym_ops \<Rightarrow> string \<Rightarrow> 's lexer_t \<Rightarrow> nat \<times> 's lexer_t" where
  "intern_ident ops w lx =
     (if lx_intern_identifiers lx
      then (case sy_intern ops w (lx_syms lx) of (i, syms) \<Rightarrow> (i, lx\<lparr>lx_syms := syms\<rparr>))
      else (0, lx))"

text \<open>The token of an identifier that ends at the current position.\<close>

definition ident_token :: "'s sym_ops \<Rightarrow> nat \<Rightarrow> 's lexer_t \<Rightarrow> 's lexed" where
  "ident_token ops start lx =
     (let tok = make_token lx NY_T_IDENT start;
          w = src_slice (lx_src lx) start (tok_len tok);
          (sid, lx1) = intern_ident ops w lx;
          (k, lx2) = identifier_type lx1 w
      in (Some (tok\<lparr>tok_hash := Some (ny_hash64 (map byte_of w)), tok_sym_id := sid, tok_kind := k\<rparr>), lx2))"

definition lex_ident :: "'s sym_ops \<Rightarrow> nat \<Rightarrow> 's lexer_t \<Rightarrow> 's lexed" where
  "lex_ident ops start lx =
     (let src = lx_src lx;
          p = scan_template_ident_tail src
                (scan_alnum src (scan8 (ny_is_alnum8 src) (lx_len lx) (lx_pos lx)))
      in ident_token ops start (lx\<lparr>lx_pos := p, lx_col := lx_col lx + int (p - lx_pos lx)\<rparr>))"

text \<open>An identifier that starts with \<open>$\<close>\<open>{name}\<close>: the position behind it.\<close>

definition template_ident_end :: "string \<Rightarrow> nat \<Rightarrow> nat option" where
  "template_ident_end src start =
     (let p = start + 2
      in if IS_ALPHA (src_at src p) then
           (let q = scan_alnum src p
            in if src_at src q = CHR ''}'' then Some (scan_template_ident_tail src (scan_alnum src (q + 1))) else None)
         else None)"

definition lex_template_ident :: "'s sym_ops \<Rightarrow> nat \<Rightarrow> nat \<Rightarrow> 's lexer_t \<Rightarrow> 's lexed" where
  "lex_template_ident ops start p lx =
     (let token_len = p - start
      in ident_token ops start (lx\<lparr>lx_pos := start + token_len, lx_col := lx_col lx + int token_len - 1\<rparr>))"

section \<open>Numbers\<close>

abbreviation move_to :: "nat \<Rightarrow> 's lexer_t \<Rightarrow> 's lexer_t" where
  "move_to p lx \<equiv> lx\<lparr>lx_pos := p, lx_col := lx_col lx + int (p - lx_pos lx)\<rparr>"

definition lex_decimal_digits :: "'s lexer_t \<Rightarrow> 's lexer_t" where
  "lex_decimal_digits lx =
     (let src = lx_src lx;
          p = scan8 (ny_is_digit8 src) (lx_len lx) (lx_pos lx)
      in move_to (scan_pos (\<lambda>i. IS_DIGIT (src_at src i) \<or> ny_digit_sep_before_digit src i) src p) lx)"

definition ny_number_suffix_letter :: "char \<Rightarrow> bool \<Rightarrow> bool" where
  "ny_number_suffix_letter c allow_float \<longleftrightarrow>
     c = CHR ''i'' \<or> c = CHR ''I'' \<or> c = CHR ''u'' \<or> c = CHR ''U'' \<or>
     (allow_float \<and> (c = CHR ''f'' \<or> c = CHR ''F''))"

text \<open>\<open>lx->pos++; lx->col++;\<close>\<close>

definition step_one :: "'s lexer_t \<Rightarrow> 's lexer_t" where
  "step_one lx = lx\<lparr>lx_pos := lx_pos lx + 1, lx_col := lx_col lx + 1\<rparr>"

definition lex_number_suffix_digits :: "'s lexer_t \<Rightarrow> bool \<Rightarrow> 's lexer_t" where
  "lex_number_suffix_digits lx underscore_allows_float =
     (let src = lx_src lx;
          lx1 = (if peek lx = CHR ''_'' \<and>
                    ny_number_suffix_letter (src_at src (lx_pos lx + 1)) underscore_allows_float
                 then step_one lx else lx)
      in if ny_number_suffix_letter (peek lx1) True \<and> IS_DIGIT (src_at src (lx_pos lx1 + 1))
         then lex_decimal_digits (step_one lx1) else lx1)"

text \<open>A token, and an error with a token.\<close>

abbreviation emit_token :: "nat \<Rightarrow> token_kind \<Rightarrow> 's lexer_t \<Rightarrow> 's lexed" where
  "emit_token start k lx \<equiv> (Some (make_token lx k start), lx)"

abbreviation fail_token :: "nat \<Rightarrow> 's lexer_t \<Rightarrow> 's lexed" where
  "fail_token start lx \<equiv> emit_token start NY_T_ERROR (lexer_error lx)"

definition lex_radix_number :: "'s lexer_t \<Rightarrow> nat \<Rightarrow> (char \<Rightarrow> bool) \<Rightarrow> bool \<Rightarrow> 's lexed" where
  "lex_radix_number lx start digit require_digit =
     (let src = lx_src lx; lx1 = step_one lx
      in if require_digit \<and> \<not> digit (src_at src (lx_pos lx1)) then fail_token start lx1
         else
           (let lx2 = move_to (scan_pos (\<lambda>i. digit (src_at src i) \<or> ny_digit_sep_before src i digit) src (lx_pos lx1)) lx1
            in emit_token start NY_T_NUMBER (lex_number_suffix_digits lx2 False)))"

definition lex_exponent :: "'s lexer_t \<Rightarrow> bool \<times> 's lexer_t" where
  "lex_exponent lx =
     (if peek lx = CHR ''e'' \<or> peek lx = CHR ''E'' then
        (let lx1 = step_one lx;
             lx2 = (if peek lx1 = CHR ''+'' \<or> peek lx1 = CHR ''-'' then step_one lx1 else lx1)
         in if IS_DIGIT (peek lx2) then (True, lex_decimal_digits lx2) else (False, lx2))
      else (True, lx))"

definition lex_number :: "nat \<Rightarrow> char \<Rightarrow> 's lexer_t \<Rightarrow> 's lexed" where
  "lex_number start c lx =
     (let src = lx_src lx; d = src_at src (lx_pos lx)
      in if c = CHR ''0'' \<and> (d = CHR ''x'' \<or> d = CHR ''X'') then lex_radix_number lx start ny_is_xdigit False
         else if c = CHR ''0'' \<and> (d = CHR ''b'' \<or> d = CHR ''B'') then lex_radix_number lx start ny_is_bindigit True
         else if c = CHR ''0'' \<and> (d = CHR ''o'' \<or> d = CHR ''O'') then lex_radix_number lx start ny_is_octdigit True
         else
           (let lx1 = lex_decimal_digits lx;
                lx2 = (if peek lx1 = CHR ''.'' \<and> IS_DIGIT (src_at src (lx_pos lx1 + 1))
                       then lex_decimal_digits (step_one lx1) else lx1)
            in case lex_exponent lx2 of (ok, lx3) \<Rightarrow>
                 if ok then emit_token start NY_T_NUMBER (lex_number_suffix_digits lx3 True)
                 else fail_token start lx3))"

section \<open>Strings\<close>

function quoted_body :: "char \<Rightarrow> 's lexer_t \<Rightarrow> 's lexer_t" where
  "quoted_body quote lx =
     (if peek lx \<noteq> quote \<and> peek lx \<noteq> NUL
      then quoted_body quote (adv (if peek lx = backslash \<and> peek_next lx \<noteq> NUL then adv lx else lx))
      else lx)"
  by pat_completeness auto
termination
proof (relation "measure (\<lambda>(quote, lx). length (lx_src lx) - lx_pos lx)")
  fix quote and lx :: "'s lexer_t"
  assume a: "peek lx \<noteq> quote \<and> peek lx \<noteq> NUL"
  let ?lx1 = "if peek lx = backslash \<and> peek_next lx \<noteq> NUL then adv lx else lx"
  have "peek lx \<noteq> NUL"
    using a by simp
  moreover have "lx_pos lx < lx_pos (adv ?lx1)"
    using a pos_adv [of lx] forward_pos [OF forward_adv, of "adv lx"] by auto
  moreover have "lx_src (adv ?lx1) = lx_src lx"
    by (auto simp: forward_src [OF forward_adv])
  ultimately show "((quote, adv ?lx1), quote, lx) \<in> measure (\<lambda>(quote, lx). length (lx_src lx) - lx_pos lx)"
    using peek_inside [of lx] by (simp add: diff_less_mono2 del: if_split)
qed simp

declare quoted_body.simps [simp del]

definition at_triple :: "char \<Rightarrow> 's lexer_t \<Rightarrow> bool" where
  "at_triple quote lx \<longleftrightarrow>
     peek lx = quote \<and> peek_next lx = quote \<and> src_at (lx_src lx) (lx_pos lx + 2) = quote"

text \<open>The rest of a string behind its opening quote; whether it is terminated.\<close>

definition lex_quoted :: "char \<Rightarrow> 's lexer_t \<Rightarrow> bool \<times> 's lexer_t" where
  "lex_quoted quote lx =
     (if peek lx = quote \<and> peek_next lx = quote then
        (let lx1 = advance_while (\<lambda>l. \<not> at_triple quote l) (adv (adv lx))
         in if peek lx1 \<noteq> NUL then (True, adv (adv (adv lx1))) else (False, lx1))
      else
        (let lx1 = quoted_body quote lx
         in if peek lx1 = quote then (True, adv lx1) else (False, lx1)))"

definition lex_string :: "token_kind \<Rightarrow> nat \<Rightarrow> char \<Rightarrow> 's lexer_t \<Rightarrow> 's lexed" where
  "lex_string k start quote lx =
     (case lex_quoted quote lx of (terminated, lx1) \<Rightarrow>
        if terminated then emit_token start k lx1 else fail_token start lx1)"

section \<open>Operators\<close>

text \<open>\<open>None\<close>: the error is reported and the lexer goes on with the next token.\<close>

abbreviation retry :: "'s lexer_t \<Rightarrow> 's lexed" where
  "retry lx \<equiv> (None, lexer_error lx)"

definition skip_block :: "'s lexer_t \<Rightarrow> 's lexer_t" where
  "skip_block lx =
     (let lx1 = advance_while (\<lambda>l. \<not> (peek l = CHR ''*'' \<and> peek_next l = CHR ''/'')) lx
      in if peek lx1 = CHR ''*'' then adv (adv lx1) else lx1)"

definition lex_arith :: "nat \<Rightarrow> char \<Rightarrow> 's lexer_t \<Rightarrow> 's lexed" where
  "lex_arith start c lx =
     (let tk = (\<lambda>k. emit_token start (Op k)); pt = (\<lambda>k. emit_token start (Punct k))
      in if c = CHR ''-'' then
           on_match (CHR ''>'') lx (tk NY_T_ARROW)
             (on_match (CHR ''='') lx (tk NY_T_MINUS_EQ)
               (on_match (CHR ''-'') lx (pt NY_T_MINUS_MINUS) (tk NY_T_MINUS lx)))
         else if c = CHR ''+'' then
           on_match (CHR ''%'') lx retry
             (on_match (CHR ''='') lx (tk NY_T_PLUS_EQ)
               (on_match (CHR ''+'') lx (pt NY_T_PLUS_PLUS) (tk NY_T_PLUS lx)))
         else if c = CHR ''*'' then
           on_match (CHR ''%'') lx retry (on_match (CHR ''='') lx (tk NY_T_STAR_EQ) (tk NY_T_STAR lx))
         else if c = CHR ''/'' then
           on_match (CHR ''='') lx (tk NY_T_SLASH_EQ)
             (on_match (CHR ''/'') lx (\<lambda>l. (None, skip_line (lexer_error l)))
               (on_match (CHR ''*'') lx (\<lambda>l. (None, skip_block (lexer_error l))) (tk NY_T_SLASH lx)))
         else on_match (CHR ''='') lx (tk NY_T_PERCENT_EQ) (tk NY_T_PERCENT lx))"

definition lex_compare :: "nat \<Rightarrow> char \<Rightarrow> 's lexer_t \<Rightarrow> 's lexed" where
  "lex_compare start c lx =
     (let tk = (\<lambda>k. emit_token start (Op k))
      in if c = CHR ''!'' then
           on_match (CHR ''='') lx (\<lambda>l. on_match (CHR ''='') l retry (tk NY_T_NEQ l)) (tk NY_T_NOT lx)
         else if c = CHR ''='' then
           on_match (CHR ''='') lx (\<lambda>l. on_match (CHR ''='') l retry (tk NY_T_EQ l))
             (on_match (CHR ''>'') lx retry (tk NY_T_ASSIGN lx))
         else if c = CHR ''<'' then
           on_match (CHR ''='') lx (tk NY_T_LE)
             (on_match (CHR ''<'') lx (\<lambda>l. on_match (CHR ''='') l (tk NY_T_LSHIFT_EQ) (tk NY_T_LSHIFT l))
               (tk NY_T_LT lx))
         else
           on_match (CHR ''='') lx (tk NY_T_GE)
             (on_match (CHR ''>'') lx (\<lambda>l. on_match (CHR ''='') l (tk NY_T_RSHIFT_EQ) (tk NY_T_RSHIFT l))
               (tk NY_T_GT lx)))"

definition lex_bitwise :: "nat \<Rightarrow> char \<Rightarrow> 's lexer_t \<Rightarrow> 's lexed" where
  "lex_bitwise start c lx =
     (let tk = (\<lambda>k. emit_token start (Op k))
      in if c = CHR ''&'' then on_match (CHR ''&'') lx (tk NY_T_AND) (tk NY_T_BITAND lx)
         else if c = CHR ''|'' then
           on_match (CHR ''|'') lx (tk NY_T_OR)
             (on_match (CHR ''>'') lx (emit_token start (Punct NY_T_PIPE)) (tk NY_T_BITOR lx))
         else
           on_match (CHR ''^'') lx (\<lambda>l. on_match (CHR ''='') l (tk NY_T_BITXOR_EQ) (tk NY_T_BITXOR l))
             (on_match (CHR ''='') lx (tk NY_T_POW_EQ) (tk NY_T_POW lx)))"

definition lex_punct :: "nat \<Rightarrow> char \<Rightarrow> 's lexer_t \<Rightarrow> 's lexed" where
  "lex_punct start c lx =
     (let pt = (\<lambda>k. emit_token start (Punct k))
      in if c = CHR ''('' then pt NY_T_LPAREN lx else if c = CHR '')'' then pt NY_T_RPAREN lx
         else if c = CHR ''{'' then pt NY_T_LBRACE lx else if c = CHR ''}'' then pt NY_T_RBRACE lx
         else if c = CHR ''['' then pt NY_T_LBRACK lx else if c = CHR '']'' then pt NY_T_RBRACK lx
         else if c = CHR '','' then pt NY_T_COMMA lx
         else if c = CHR ''.'' then
           on_match (CHR ''.'') lx (\<lambda>l. on_match (CHR ''.'') l (pt NY_T_ELLIPSIS) (pt NY_T_RANGE l)) (pt NY_T_DOT lx)
         else if c = CHR ''~'' then emit_token start (Op NY_T_BITNOT) lx
         else if c = CHR '':'' then pt NY_T_COLON lx
         else if c = CHR ''#'' then pt NY_T_HASH lx
         else if c = CHR ''?'' then
           on_match (CHR ''?'') lx (pt NY_T_QUESTION_QUESTION) (on_match (CHR ''.'') lx (pt NY_T_QUESTION_DOT) (pt NY_T_QUESTION lx))
         else if c = CHR ''@'' then pt NY_T_AT lx
         else retry lx)"

definition lex_operator :: "nat \<Rightarrow> char \<Rightarrow> 's lexer_t \<Rightarrow> 's lexed" where
  "lex_operator start c lx =
     (if c \<in> set ''-+*/%'' then lex_arith start c lx
      else if c \<in> set ''!=<>'' then lex_compare start c lx
      else if c \<in> set ''&|^'' then lex_bitwise start c lx
      else lex_punct start c lx)"

section \<open>The next token\<close>

definition eof_token :: "'s lexer_t \<Rightarrow> token_t" where
  "eof_token lx =
     \<lparr>tok_kind = NY_T_EOF, tok_lexeme = lx_pos lx, tok_len = 0, tok_sym_id = 0, tok_hash = None,
      tok_line = lx_line lx, tok_real_line = None, tok_col = lx_col lx, tok_filename = lx_filename lx\<rparr>"

text \<open>The token that starts with the byte \<open>c\<close>, which is consumed.\<close>

definition lex_char :: "'s sym_ops \<Rightarrow> nat \<Rightarrow> char \<Rightarrow> 's lexer_t \<Rightarrow> 's lexed" where
  "lex_char ops start c lx =
     (let template = (if c = CHR ''$'' \<and> peek lx = CHR ''{'' then template_ident_end (lx_src lx) start else None)
      in if c = CHR ''f'' \<and> (peek lx = dquote \<or> peek lx = squote)
         then lex_string NY_T_FSTRING start (peek lx) (adv lx)
         else if IS_ALPHA c then lex_ident ops start lx
         else if template \<noteq> None then lex_template_ident ops start (the template) lx
         else if IS_DIGIT c then lex_number start c lx
         else if c = dquote \<or> c = squote then lex_string NY_T_STRING start c lx
         else lex_operator start c lx)"

definition lex_step :: "'s sym_ops \<Rightarrow> 's lexer_t \<Rightarrow> 's lexed" where
  "lex_step ops lx0 =
     (let lx = skip_whitespace ops (lx0\<lparr>lx_skipped_newline := False\<rparr>); start = lx_pos lx
      in if peek lx = NUL then (Some (eof_token lx), lx)
         else
           (let (c, lx1) = (if lx_split_pos lx > 0 \<and> start = lx_split_pos lx then advance lx
                            else (peek lx, step_one lx))
            in lex_char ops start c lx1))"

subsection \<open>Every handler moves forward\<close>

lemma scan8_ge: "p \<le> scan8 P len p"
  by (induction P len p rule: scan8.induct) (subst scan8.simps, auto)

lemma scan8_le: "(\<And>i. P i \<Longrightarrow> i + 8 \<le> n) \<Longrightarrow> p \<le> n \<Longrightarrow> scan8 P len p \<le> n"
  by (induction P len p rule: scan8.induct) (subst scan8.simps, auto)

lemma class_inside:
  "IS_DIGIT (src_at src p) \<Longrightarrow> p < length src" "IS_ALNUM (src_at src p) \<Longrightarrow> p < length src"
  "IS_ALPHA (src_at src p) \<Longrightarrow> p < length src"
  by (rule src_at_inside, metis not_space_NUL)+

lemma all8_inside: "ny_is_digit8 src p \<Longrightarrow> p + 8 \<le> length src" "ny_is_alnum8 src p \<Longrightarrow> p + 8 \<le> length src"
  using class_inside [of src "p + 7"] by (simp_all add: ny_is_digit8_def ny_is_alnum8_def)

lemma scan_template_range:
  "p \<le> scan_template_ident_tail src p \<and> (p \<le> length src \<longrightarrow> scan_template_ident_tail src p \<le> length src)"
proof (induction src p rule: scan_template_ident_tail.induct)
  case (1 src p)
  define q where "q = scan_alnum src (p + 2)"
  have q: "p + 2 \<le> q" "q + 1 \<le> scan_alnum src (q + 1)"
    unfolding q_def by (rule scan_pos_ge)+
  have le: "scan_alnum src (q + 1) \<le> length src" if "src_at src q = CHR ''}''"
    using src_at_inside [of src q] that by (intro scan_pos_le) simp
  have eq: "scan_template_ident_tail src p =
      (if src_at src p = CHR ''$'' \<and> src_at src (p + 1) = CHR ''{'' \<and> IS_ALPHA (src_at src (p + 2)) \<and> src_at src q = CHR ''}''
       then scan_template_ident_tail src (scan_alnum src (q + 1)) else p)"
    unfolding q_def by (subst scan_template_ident_tail.simps) (simp add: Let_def)
  show ?case
    using 1 [OF _ refl _ q_def] q le unfolding eq by auto
qed

lemma forward_move_to [intro]:
  "lx_pos lx \<le> p \<Longrightarrow> (lx_pos lx \<le> length (lx_src lx) \<Longrightarrow> p \<le> length (lx_src lx)) \<Longrightarrow> forward lx (move_to p lx)"
  by (simp add: forward_def)

lemma forward_decimal_digits: "forward lx (lex_decimal_digits lx)"
  unfolding lex_decimal_digits_def Let_def
  by (intro forward_move_to) (blast intro: order_trans [OF scan8_ge scan_pos_ge] scan_pos_le scan8_le all8_inside)+

lemma forward_step_one: "peek lx \<noteq> NUL \<Longrightarrow> forward lx (step_one lx)"
  using peek_inside [of lx] by (simp add: step_one_def forward_def)

lemma step_one_simps [simp]: "lx_src (step_one lx) = lx_src lx" "lx_pos (step_one lx) = lx_pos lx + 1"
  by (simp_all add: step_one_def)

lemma suffix_letter_not_NUL [simp]: "\<not> ny_number_suffix_letter NUL b"
  by (simp add: ny_number_suffix_letter_def)

lemma forward_suffix: "forward lx (lex_number_suffix_digits lx b)"
proof -
  define lx1 where "lx1 = (if peek lx = CHR ''_'' \<and> ny_number_suffix_letter (src_at (lx_src lx) (lx_pos lx + 1)) b
    then step_one lx else lx)"
  have 1: "forward lx lx1"
    by (auto simp: lx1_def intro: forward_step_one)
  have "forward lx1 (lex_decimal_digits (step_one lx1))" if "ny_number_suffix_letter (peek lx1) True"
  proof -
    have "peek lx1 \<noteq> NUL"
      using that by auto
    then show ?thesis
      using forward_decimal_digits [of "step_one lx1"] forward_step_one [of lx1] by (blast intro: forward_trans)
  qed
  then show ?thesis
    unfolding lex_number_suffix_digits_def Let_def lx1_def [symmetric] using 1 by (auto intro: forward_trans)
qed

lemma forward_intern_ident: "forward lx (snd (intern_ident ops w lx))"
  by (auto simp: intern_ident_def forward_def split: prod.splits)

lemma forward_ident_token: "forward lx (snd (ident_token ops start lx))"
proof -
  let ?w = "src_slice (lx_src lx) start (tok_len (make_token lx NY_T_IDENT start))"
  obtain i lx1 where s: "intern_ident ops ?w lx = (i, lx1)"
    by (cases "intern_ident ops ?w lx")
  have "forward lx lx1"
    using forward_intern_ident [of lx ops ?w] by (simp only: s snd_conv)
  then show ?thesis
    by (simp add: ident_token_def identifier_type_def Let_def s forward_adv2(2) split: prod.split)
qed

lemma ident_end_range:
  assumes "lx_pos lx \<le> length (lx_src lx)"
  defines "p \<equiv> scan_template_ident_tail (lx_src lx)
    (scan_alnum (lx_src lx) (scan8 (ny_is_alnum8 (lx_src lx)) (lx_len lx) (lx_pos lx)))"
  shows "lx_pos lx \<le> p" "p \<le> length (lx_src lx)"
proof -
  define a where "a = scan8 (ny_is_alnum8 (lx_src lx)) (lx_len lx) (lx_pos lx)"
  define b where "b = scan_alnum (lx_src lx) a"
  have p: "p = scan_template_ident_tail (lx_src lx) b"
    by (simp add: p_def a_def b_def)
  have a: "lx_pos lx \<le> a" "a \<le> length (lx_src lx)"
    unfolding a_def using assms(1) by (blast intro: scan8_ge scan8_le all8_inside)+
  have b: "a \<le> b" "b \<le> length (lx_src lx)"
    using a(2) by (simp_all add: b_def scan_pos_ge scan_pos_le)
  show "lx_pos lx \<le> p" "p \<le> length (lx_src lx)"
    using scan_template_range [of b "lx_src lx"] a b by (simp_all add: p)
qed

lemma forward_lex_ident:
  assumes "lx_pos lx \<le> length (lx_src lx)"
  shows "forward lx (snd (lex_ident ops start lx))"
  unfolding lex_ident_def Let_def
  using ident_end_range [OF assms] by (intro forward_trans [OF forward_move_to forward_ident_token])

lemma template_end_range:
  assumes "template_ident_end src start = Some p"
  shows "start + 3 \<le> p" "p \<le> length src"
proof -
  define q where "q = scan_alnum src (start + 2)"
  have q: "src_at src q = CHR ''}''" "p = scan_template_ident_tail src (scan_alnum src (q + 1))"
    using assms by (simp_all add: template_ident_end_def Let_def q_def split: if_splits)
  have "q < length src"
    using q(1) by (intro src_at_inside) simp
  then have s: "scan_alnum src (q + 1) \<le> length src" "start + 2 \<le> q" "q + 1 \<le> scan_alnum src (q + 1)"
    by (simp_all add: q_def scan_pos_ge scan_pos_le)
  show "start + 3 \<le> p" "p \<le> length src"
    using scan_template_range [of "scan_alnum src (q + 1)" src] s by (simp_all add: q(2))
qed

lemma forward_template:
  assumes "template_ident_end (lx_src lx) start = Some p" "lx_pos lx = start + 1"
  shows "forward lx (snd (lex_template_ident ops start p lx))"
proof -
  have "forward lx (lx\<lparr>lx_pos := start + (p - start), lx_col := y\<rparr>)" for y
    using template_end_range [OF assms(1)] assms(2) by (simp add: forward_def)
  then show ?thesis
    unfolding lex_template_ident_def Let_def by (rule forward_trans [OF _ forward_ident_token])
qed

lemma forward_radix:
  assumes "peek lx \<noteq> NUL"
  shows "forward lx (snd (lex_radix_number lx start digit req))"
proof -
  let ?P = "\<lambda>i. digit (src_at (lx_src lx) i) \<or> ny_digit_sep_before (lx_src lx) i digit"
  let ?lx1 = "step_one lx"
  let ?lx2 = "move_to (scan_pos ?P (lx_src lx) (lx_pos ?lx1)) ?lx1"
  have 1: "forward lx ?lx1"
    using assms by (rule forward_step_one)
  moreover have "forward ?lx1 ?lx2"
    by (rule forward_move_to) (auto simp: scan_pos_ge intro: scan_pos_le)
  ultimately have "forward lx ?lx2"
    by (rule forward_trans)
  then have "forward lx (lex_number_suffix_digits ?lx2 False)"
    by (blast intro: forward_trans forward_suffix)
  then show ?thesis
    unfolding lex_radix_number_def Let_def using 1 by (simp add: forward_adv2(2))
qed

lemma forward_exponent: "forward lx (snd (lex_exponent lx))"
proof -
  define lx1 where "lx1 = step_one lx"
  define lx2 where "lx2 = (if peek lx1 = CHR ''+'' \<or> peek lx1 = CHR ''-'' then step_one lx1 else lx1)"
  have 2: "forward lx1 lx2"
    by (auto simp: lx1_def lx2_def intro: forward_step_one)
  have "forward lx lx2" "forward lx (lex_decimal_digits lx2)" if "peek lx = CHR ''e'' \<or> peek lx = CHR ''E''"
  proof -
    have "forward lx lx1"
      using that unfolding lx1_def by (intro forward_step_one) auto
    then show "forward lx lx2"
      using 2 by (rule forward_trans)
    then show "forward lx (lex_decimal_digits lx2)"
      using forward_decimal_digits by (rule forward_trans)
  qed
  then show ?thesis
    unfolding lex_exponent_def Let_def lx1_def [symmetric] lx2_def [symmetric] by simp
qed

lemma forward_number: "forward lx (snd (lex_number start c lx))"
proof -
  define lx1 where "lx1 = lex_decimal_digits lx"
  define lx2 where "lx2 = (if peek lx1 = CHR ''.'' \<and> IS_DIGIT (src_at (lx_src lx) (lx_pos lx1 + 1))
    then lex_decimal_digits (step_one lx1) else lx1)"
  have "forward lx1 lx2"
    using forward_decimal_digits [of "step_one lx1"] forward_step_one [of lx1]
    by (auto simp: lx2_def intro: forward_trans)
  then have 2: "forward lx lx2"
    unfolding lx1_def by (rule forward_trans [OF forward_decimal_digits])
  obtain ok lx3 where 3: "lex_exponent lx2 = (ok, lx3)"
    by (cases "lex_exponent lx2")
  have "forward lx lx3"
    using forward_trans [OF 2 forward_exponent] 3 by (metis snd_conv)
  then have 4: "forward lx lx3" "forward lx (lex_number_suffix_digits lx3 True)"
    by (auto intro: forward_trans forward_suffix)
  have r: "forward lx (snd (lex_radix_number lx start digit req))"
    if "src_at (lx_src lx) (lx_pos lx) \<noteq> NUL" for digit req
    using forward_radix [of lx start digit req] that by (simp add: peek_def)
  show ?thesis
    unfolding lex_number_def Let_def lx1_def [symmetric] lx2_def [symmetric] 3 prod.case
    using 4 by (auto intro!: r forward_adv2)
qed

lemma forward_quoted_body [simp, intro]: "forward lx (quoted_body q lx)"
proof (induction q lx rule: quoted_body.induct)
  case (1 q lx)
  have "forward lx (adv (if peek lx = backslash \<and> peek_next lx \<noteq> NUL then adv lx else lx))"
    by (auto intro: forward_adv2)
  then show ?case
    using 1 by (subst quoted_body.simps) (auto intro: forward_trans)
qed

lemma forward_quoted [simp, intro]: "forward lx (snd (lex_quoted q lx))"
  unfolding lex_quoted_def Let_def by (auto intro!: forward_adv2)

lemma forward_string [simp, intro]: "forward lx (snd (lex_string k start q lx))"
proof (cases "lex_quoted q lx")
  case (Pair b lx1)
  then have "forward lx lx1"
    by (metis forward_quoted snd_conv)
  then show ?thesis
    by (simp add: lex_string_def Pair forward_adv2(2))
qed

lemma forward_on_match:
  "(\<And>l. forward l (snd (yes l))) \<Longrightarrow> forward lx (snd no) \<Longrightarrow> forward lx (snd (on_match ch lx yes no))"
  by (auto simp: on_match_def intro: forward_adv_trans)

lemma forward_skip_block: "forward lx (skip_block lx)"
  unfolding skip_block_def Let_def by (auto intro!: forward_adv2)

lemma forward_if: "forward lx (snd x) \<Longrightarrow> forward lx (snd y) \<Longrightarrow> forward lx (snd (if b then x else y))"
  by simp

lemma forward_after_error [simp]: "forward lx (skip_line (lexer_error lx))" "forward lx (skip_block (lexer_error lx))"
  by (auto intro: forward_trans forward_skip_block)

lemma forward_operator: "forward lx (snd (lex_operator start c lx))"
  unfolding lex_operator_def lex_arith_def lex_compare_def lex_bitwise_def lex_punct_def Let_def
  by (intro forward_if forward_on_match; simp)

lemma forward_char:
  assumes "lx_pos lx = start + 1" "start < length (lx_src lx)"
  shows "forward lx (snd (lex_char ops start c lx))"
proof -
  have "forward lx (snd (lex_string NY_T_FSTRING start (peek lx) (adv lx)))"
    by (rule forward_adv_trans) simp
  moreover have "forward lx (snd (lex_template_ident ops start p lx))" if "template_ident_end (lx_src lx) start = Some p" for p
    using that assms(1) by (rule forward_template)
  ultimately show ?thesis
    using assms forward_lex_ident [of lx ops start] forward_number [of lx start c] forward_operator [of lx start c]
    unfolding lex_char_def Let_def by (auto split: if_splits)
qed

text \<open>A step reads a token behind the blanks: it consumes at least its first byte.\<close>

lemma lex_step_cases:
  fixes ops :: "'s sym_ops" and lx0 :: "'s lexer_t"
  defines "lx \<equiv> skip_whitespace ops (lx0\<lparr>lx_skipped_newline := False\<rparr>)"
  obtains (eof) "peek lx = NUL" "forward lx0 lx" "lex_step ops lx0 = (Some (eof_token lx), lx)"
  | (token) lx1 where "peek lx \<noteq> NUL" "forward lx0 lx" "forward lx lx1" "lx_pos lx1 = lx_pos lx + 1"
      "lex_step ops lx0 = lex_char ops (lx_pos lx) (peek lx) lx1" "forward lx1 (snd (lex_step ops lx0))"
      "lx_syms lx1 = lx_syms lx"
proof -
  have f: "forward lx0 lx"
    unfolding lx_def by (rule forward_trans [OF _ forward_skip_whitespace]) (simp add: forward_def)
  show ?thesis
  proof (cases "peek lx = NUL")
    case True
    then show ?thesis
      using eof f by (simp add: lex_step_def lx_def Let_def)
  next
    case False
    define lx1 where "lx1 = (if lx_split_pos lx > 0 \<and> lx_pos lx = lx_split_pos lx then adv lx else step_one lx)"
    have g: "forward lx lx1" "lx_pos lx1 = lx_pos lx + 1"
      using False forward_step_one [of lx] by (simp_all add: lx1_def pos_adv)
    have s: "lex_step ops lx0 = lex_char ops (lx_pos lx) (peek lx) lx1"
      using False by (simp add: lex_step_def lx_def [symmetric] lx1_def Let_def advance_def split: prod.splits)
    have "forward lx1 (snd (lex_char ops (lx_pos lx) (peek lx) lx1))"
      using g peek_inside [OF False] forward_src [OF g(1)] by (intro forward_char) simp_all
    moreover have "lx_syms lx1 = lx_syms lx"
      by (simp add: lx1_def advance_def step_one_def Let_def)
    ultimately show ?thesis
      using token [OF False f g] s by simp
  qed
qed

lemma lex_step_moves:
  shows "forward lx (snd (lex_step ops lx))"
    and "fst (lex_step ops lx) = None \<Longrightarrow> lx_pos lx < lx_pos (snd (lex_step ops lx)) \<and> lx_pos lx < length (lx_src lx)"
proof -
  show "forward lx (snd (lex_step ops lx))"
    by (rule lex_step_cases [where ops = ops and ?lx0.0 = lx]) (auto intro: forward_trans)
  show "fst (lex_step ops lx) = None \<Longrightarrow> lx_pos lx < lx_pos (snd (lex_step ops lx)) \<and> lx_pos lx < length (lx_src lx)"
  proof (rule lex_step_cases [where ops = ops and ?lx0.0 = lx])
    fix lx1
    let ?lx = "skip_whitespace ops (lx\<lparr>lx_skipped_newline := False\<rparr>)"
    assume a: "peek ?lx \<noteq> NUL" "forward lx ?lx" "lx_pos lx1 = lx_pos ?lx + 1" "forward lx1 (snd (lex_step ops lx))"
    then show "lx_pos lx < lx_pos (snd (lex_step ops lx)) \<and> lx_pos lx < length (lx_src lx)"
      using peek_inside [OF a(1)] forward_pos [OF a(2)] forward_pos [OF a(4)] forward_src [OF a(2)] by simp
  qed simp
qed

text \<open>The recursion of \<open>lexer_next\<close> on itself after an error.\<close>

function lexer_next :: "'s sym_ops \<Rightarrow> 's lexer_t \<Rightarrow> token_t \<times> 's lexer_t" where
  "lexer_next ops lx =
     (case lex_step ops lx of (Some tok, lx') \<Rightarrow> (tok, lx') | (None, lx') \<Rightarrow> lexer_next ops lx')"
  by pat_completeness auto
termination
proof (relation "measure (\<lambda>(ops, lx). length (lx_src lx) - lx_pos lx)")
  fix ops :: "'s sym_ops" and lx :: "'s lexer_t" and t lx'
  assume "(t, lx') = lex_step ops lx" "t = None"
  then have "lex_step ops lx = (None, lx')"
    by simp
  then show "((ops, lx'), ops, lx) \<in> measure (\<lambda>(ops, lx). length (lx_src lx) - lx_pos lx)"
    using lex_step_moves [where lx = lx and ops = ops] by (simp add: forward_def diff_less_mono2)
qed simp

declare lexer_next.simps [simp del]

lemma lexer_next_moves:
  "forward lx (snd (lexer_next ops lx)) \<and>
   (tok_kind (fst (lexer_next ops lx)) \<noteq> NY_T_EOF \<longrightarrow>
      lx_pos lx < lx_pos (snd (lexer_next ops lx)) \<and> lx_pos lx < length (lx_src lx))"
proof (induction ops lx rule: lexer_next.induct)
  case (1 ops lx)
  obtain t lx' where s: "lex_step ops lx = (t, lx')"
    by (cases "lex_step ops lx")
  have f: "forward lx lx'"
    using lex_step_moves(1) [of lx ops] s by simp
  show ?case
  proof (cases t)
    case None
    have e: "lexer_next ops lx = lexer_next ops lx'"
      by (subst lexer_next.simps) (simp add: s None)
    have "lx_pos lx < lx_pos lx' \<and> lx_pos lx < length (lx_src lx)"
      using lex_step_moves(2) [of ops lx] s None by simp
    moreover have ih: "forward lx' (snd (lexer_next ops lx'))"
      using 1 [OF s [symmetric] None] by simp
    ultimately show ?thesis
      using f forward_pos [OF ih] unfolding e by (auto intro: forward_trans [OF f ih])
  next
    case (Some tok)
    have e: "lexer_next ops lx = (tok, lx')"
      by (subst lexer_next.simps) (simp add: s Some)
    show ?thesis
    proof (rule lex_step_cases [where ops = ops and ?lx0.0 = lx])
      assume "lex_step ops lx = (Some (eof_token (skip_whitespace ops (lx\<lparr>lx_skipped_newline := False\<rparr>))),
        skip_whitespace ops (lx\<lparr>lx_skipped_newline := False\<rparr>))"
      then show ?thesis
        using f Some s by (simp add: e eof_token_def)
    next
      fix lx1
      let ?lx = "skip_whitespace ops (lx\<lparr>lx_skipped_newline := False\<rparr>)"
      assume a: "peek ?lx \<noteq> NUL" "forward lx ?lx" "lx_pos lx1 = lx_pos ?lx + 1" "forward lx1 (snd (lex_step ops lx))"
      then show ?thesis
        using f peek_inside [OF a(1)] forward_pos [OF a(2)] forward_pos [OF a(4)] forward_src [OF a(2)] by (simp add: e s)
    qed
  qed
qed

section \<open>Texts of tokens\<close>

definition tok_text :: "string \<Rightarrow> token_t \<Rightarrow> string" where
  "tok_text src t = src_slice src (tok_lexeme t) (tok_len t)"

definition dup_token_lexeme :: "string \<Rightarrow> token_t \<Rightarrow> string option" where
  "dup_token_lexeme src t = (if tok_len t = 0 then None else Some (tok_text src t))"

definition dup_string_token :: "string \<Rightarrow> token_t \<Rightarrow> string option" where
  "dup_string_token src t =
     (if tok_len t < 2 then None
      else
        (let p = tok_lexeme t;
             n = (if tok_len t \<ge> 6 \<and> src_at src p = src_at src (p + 1) \<and> src_at src (p + 1) = src_at src (p + 2)
                  then 3 else 1)
         in if tok_len t < n + n then None
            else dup_token_lexeme src (t\<lparr>tok_lexeme := p + n, tok_len := tok_len t - (n + n)\<rparr>)))"

text \<open>
  The buffer of a module name: it starts with 64 bytes and grows when a part is appended. The name
  and its terminator must fit when the terminator is written.
\<close>

definition grow_cap :: "nat \<Rightarrow> nat \<Rightarrow> nat" where
  "grow_cap cap need = (if need > cap then need * 2 else cap)"

datatype use_name =
  UseName string
| UseNull
| UseOverflow

text \<open>The parts of a module name that follow each other without a gap.\<close>

function glue_idents ::
  "'s sym_ops \<Rightarrow> token_t \<Rightarrow> string \<Rightarrow> nat \<Rightarrow> 's lexer_t \<Rightarrow> string \<times> nat \<times> token_t \<times> 's lexer_t" where
  "glue_idents ops t name cap lx =
     (let nlx = lexer_next ops lx; nt = fst nlx; lx' = snd nlx
      in if tok_kind nt = NY_T_IDENT \<and> tok_col nt = tok_col t + int (tok_len t)
         then glue_idents ops nt (name @ tok_text (lx_src lx) nt) (grow_cap cap (length name + tok_len nt + 1)) lx'
         else (name, cap, nt, lx'))"
  by pat_completeness auto
termination
proof (relation "measure (\<lambda>(ops, t, name, cap, lx). length (lx_src lx) - lx_pos lx)")
  fix ops :: "'s sym_ops" and t :: token_t and name and cap :: nat and lx :: "'s lexer_t" and nlx nt lx'
  assume "nlx = lexer_next ops lx" "nt = fst nlx" "lx' = snd nlx"
    "tok_kind nt = NY_T_IDENT \<and> tok_col nt = tok_col t + int (tok_len t)"
  then show "((ops, nt, name @ tok_text (lx_src lx) nt, grow_cap cap (length name + tok_len nt + 1), lx'), ops, t, name, cap, lx)
      \<in> measure (\<lambda>(ops, t, name, cap, lx). length (lx_src lx) - lx_pos lx)"
    using lexer_next_moves [of lx ops] by (simp add: forward_def diff_less_mono2)
qed simp

declare glue_idents.simps [simp del]

lemma forward_glue: "forward lx (snd (snd (snd (glue_idents ops t name cap lx))))"
proof (induction ops t name cap lx rule: glue_idents.induct)
  case (1 ops t name cap lx)
  show ?case
    using lexer_next_moves [of lx ops] 1 [OF refl refl refl]
    by (subst glue_idents.simps) (auto simp: Let_def intro: forward_trans)
qed

function use_dots ::
  "'s sym_ops \<Rightarrow> string \<Rightarrow> nat \<Rightarrow> token_t \<Rightarrow> 's lexer_t \<Rightarrow> use_name \<times> token_t \<times> 's lexer_t" where
  "use_dots ops name cap tok lx =
     (if tok_kind tok = Punct NY_T_DOT then
        (let id_lx = lexer_next ops lx; id = fst id_lx; lx1 = snd id_lx
         in if tok_kind id \<noteq> NY_T_IDENT \<and> tok_kind id \<noteq> NY_T_NUMBER then (UseNull, id, lx1)
            else (case glue_idents ops id (name @ ''.'' @ tok_text (lx_src lx) id)
                         (grow_cap cap (length name + 1 + tok_len id + 1)) lx1 of
                    (name', cap', tok', lx2) \<Rightarrow> use_dots ops name' cap' tok' lx2))
      else (if length name < cap then UseName name else UseOverflow, tok, lx))"
  by pat_completeness auto
termination
proof (relation "measure (\<lambda>(ops, name, cap, tok, lx). length (lx_src lx) - lx_pos lx)")
  fix ops :: "'s sym_ops" and name and cap :: nat and tok :: token_t and lx :: "'s lexer_t" and id_lx id lx1 name' y cap' z tok' lx2
  assume a: "id_lx = lexer_next ops lx" "id = fst id_lx" "lx1 = snd id_lx"
    "\<not> (tok_kind id \<noteq> NY_T_IDENT \<and> tok_kind id \<noteq> NY_T_NUMBER)"
    "(name', y) = glue_idents ops id (name @ ''.'' @ tok_text (lx_src lx) id) (grow_cap cap (length name + 1 + tok_len id + 1)) lx1"
    "(cap', z) = y" "(tok', lx2) = z"
  have "forward lx1 lx2"
    using forward_glue [of lx1 ops id "name @ ''.'' @ tok_text (lx_src lx) id" "grow_cap cap (length name + 1 + tok_len id + 1)"] a(5-7)
    by (metis snd_conv)
  moreover have "forward lx lx1" "lx_pos lx < lx_pos lx1" "lx_pos lx < length (lx_src lx)"
    using lexer_next_moves [of lx ops] a by auto
  ultimately show "((ops, name', cap', tok', lx2), ops, name, cap, tok, lx)
      \<in> measure (\<lambda>(ops, name, cap, tok, lx). length (lx_src lx) - lx_pos lx)"
    by (simp add: forward_def diff_less_mono2)
qed simp

declare use_dots.simps [simp del]

text \<open>
  The name of a module, the token stored through \<open>out_last_tok\<close> (if it is not \<open>NULL\<close>) and the state.
  \<open>UseOverflow\<close> is a write behind the end of the buffer.
\<close>

definition parse_use_name ::
  "'s sym_ops \<Rightarrow> bool \<Rightarrow> token_t \<Rightarrow> 's lexer_t \<Rightarrow> use_name \<times> token_t option \<times> 's lexer_t" where
  "parse_use_name ops want_last t lx =
     (let out = (\<lambda>tok. if want_last then Some tok else None)
      in if tok_kind t = NY_T_STRING then
           (let name = (case dup_string_token (lx_src lx) t of None \<Rightarrow> UseNull | Some w \<Rightarrow> UseName w)
            in if want_last then (case lexer_next ops lx of (nt, lx') \<Rightarrow> (name, Some nt, lx'))
               else (name, None, lx))
         else if tok_kind t \<noteq> NY_T_IDENT \<and> tok_kind t \<noteq> NY_T_NUMBER then (UseNull, out t, lx)
         else if tok_len t > 64 then (UseOverflow, None, lx)
         else
           (case glue_idents ops t (tok_text (lx_src lx) t) 64 lx of
              (name, cap, tok, lx1) \<Rightarrow>
                (case use_dots ops name cap tok lx1 of (res, tok', lx2) \<Rightarrow> (res, out tok', lx2))))"

end
