(* ===== verification/Lexer_Correct.thy ===== *)
theory Lexer_Correct
  imports Lexer
begin

text \<open>
  Correctness of the lexer: the fast scans are the plain ones, the keyword switch is a table, the
  tokens tile the source and have the shape of their kind, the text of a string token is what
  \<open>dup_string_token\<close> returns.
\<close>

section \<open>Fast scans\<close>

lemma scan_pos_takeWhile: "scan_pos (\<lambda>i. P (src_at src i)) src p = p + length (takeWhile P (drop p src))"
proof (induction "\<lambda>i. P (src_at src i)" src p rule: scan_pos.induct)
  case (1 src p)
  show ?case
  proof (cases "p < length src")
    case True
    then have "drop p src = src ! p # drop (Suc p) src" "src_at src p = src ! p"
      by (simp_all add: Cons_nth_drop_Suc src_at_def)
    then show ?thesis
      using 1 True by (subst scan_pos.simps) auto
  next
    case False
    then show ?thesis
      by (subst scan_pos.simps) simp
  qed
qed

lemma scan_pos_start: "p < length src \<Longrightarrow> P p \<Longrightarrow> scan_pos P src (Suc p) = scan_pos P src p"
  by (subst (2) scan_pos.simps) simp

text \<open>Looking at eight bytes first does not change where the plain scan ends.\<close>

lemma scan_run: "(\<And>k. k < n \<Longrightarrow> p + k < length src \<and> P (p + k)) \<Longrightarrow> scan_pos P src (p + n) = scan_pos P src p"
proof (induction n)
  case (Suc n)
  then show ?case
    using scan_pos_start [of "p + n" src P] by simp
qed simp

lemma less_8: "k < 8 \<Longrightarrow> k = 0 \<or> k = 1 \<or> k = 2 \<or> k = 3 \<or> k = 4 \<or> k = 5 \<or> k = 6 \<or> k = (7 :: nat)"
  by linarith

lemma all8: "ny_is_digit8 src p \<Longrightarrow> k < 8 \<Longrightarrow> IS_DIGIT (src_at src (p + k))"
    "ny_is_alnum8 src p \<Longrightarrow> k < 8 \<Longrightarrow> IS_ALNUM (src_at src (p + k))"
  using less_8 [of k] by (auto simp: ny_is_digit8_def ny_is_alnum8_def)

lemma scan8_absorbed:
  assumes "\<And>i k. Q i \<Longrightarrow> k < 8 \<Longrightarrow> i + k < length src \<and> P (i + k)"
  shows "scan_pos P src (scan8 Q len p) = scan_pos P src p"
  using assms
proof (induction Q len p rule: scan8.induct)
  case (1 Q len p)
  show ?case
  proof (cases "p + 8 \<le> len \<and> Q p")
    case True
    then have "scan_pos P src (p + 8) = scan_pos P src p"
      using 1(2) [of p] by (intro scan_run) auto
    then show ?thesis
      using 1 True by (simp add: scan8.simps [of Q len p])
  qed (auto simp: scan8.simps [of Q len p])
qed

lemma digit8_absorbed:
  assumes "\<And>i. IS_DIGIT (src_at src i) \<Longrightarrow> P i"
  shows "scan_pos P src (scan8 (ny_is_digit8 src) len p) = scan_pos P src p"
  using assms all8(1) [of src] class_inside(1) by (intro scan8_absorbed) blast

lemma alnum8_absorbed: "scan_alnum src (scan8 (ny_is_alnum8 src) len p) = scan_alnum src p"
  using all8(2) [of src] class_inside(2) by (intro scan8_absorbed) blast

section \<open>Keywords\<close>

definition keyword_table :: "(string \<times> keyword_kind) list" where
  "keyword_table =
     [(''as'', NY_T_AS), (''asm'', NY_T_ASM), (''break'', NY_T_BREAK), (''case'', NY_T_MATCH), (''catch'', NY_T_CATCH),
      (''continue'', NY_T_CONTINUE), (''comptime'', NY_T_COMPTIME), (''defer'', NY_T_DEFER), (''def'', NY_T_DEF),
      (''del'', NY_T_DEL), (''else'', NY_T_ELSE), (''elif'', NY_T_ELIF), (''enum'', NY_T_ENUM), (''embed'', NY_T_EMBED),
      (''extern'', NY_T_EXTERN), (''false'', NY_T_FALSE), (''fn'', NY_T_FN), (''for'', NY_T_FOR), (''goto'', NY_T_GOTO),
      (''if'', NY_T_IF), (''in'', NY_T_IN), (''nil'', NY_T_NIL), (''none'', NY_T_NIL), (''NULL'', NY_T_NIL),
      (''lambda'', NY_T_LAMBDA), (''layout'', NY_T_STRUCT), (''sizeof'', NY_T_SIZEOF), (''struct'', NY_T_STRUCT),
      (''match'', NY_T_MATCH), (''mut'', NY_T_MUT), (''module'', NY_T_MODULE), (''return'', NY_T_RETURN),
      (''true'', NY_T_TRUE), (''try'', NY_T_TRY), (''use'', NY_T_USE), (''while'', NY_T_WHILE)]"

definition rejected_words :: "string list" where
  "rejected_words = [''const'', ''import'', ''var'', ''void'', ''printf'']"

lemmas word_defs = word_kind_def keyword_table_def rejected_words_def Let_def

lemma word_kind_table:
  assumes "w \<noteq> []"
  shows "word_kind w =
    (case map_of keyword_table w of Some k \<Rightarrow> (Kw k, False) | None \<Rightarrow> (NY_T_IDENT, w \<in> set rejected_words))"
proof -
  obtain c v where w: "w = c # v"
    using assms by (cases w) auto
  consider "c = CHR ''a''" | "c = CHR ''f''" | "c = CHR ''i''" | "c = CHR ''b''" | "c = CHR ''c''" | "c = CHR ''d''"
    | "c = CHR ''e''" | "c = CHR ''g''" | "c = CHR ''n''" | "c = CHR ''N''" | "c = CHR ''l''" | "c = CHR ''s''" | "c = CHR ''v''"
    | "c = CHR ''m''" | "c = CHR ''p''" | "c = CHR ''r''" | "c = CHR ''t''" | "c = CHR ''u''" | "c = CHR ''w''"
    | "c \<notin> set ''abcdefgiNnlsvmprtuw''"
    by fastforce
  then show ?thesis
  proof cases
    case 1
    show ?thesis
      unfolding w 1 by (cases v; cases "tl v") (auto simp: word_defs length_Suc_conv numeral_2_eq_2 numeral_3_eq_3)
  next
    case 2
    show ?thesis
      unfolding w 2 by (cases v; cases "tl v") (auto simp: word_defs length_Suc_conv numeral_2_eq_2 numeral_3_eq_3)
  next
    case 3
    show ?thesis
      unfolding w 3 by (cases v; cases "tl v") (auto simp: word_defs length_Suc_conv numeral_2_eq_2 numeral_3_eq_3)
  qed (simp_all add: w word_defs)
qed

section \<open>Shapes of tokens\<close>

fun op_text :: "operator_kind \<Rightarrow> string" where
  "op_text NY_T_PLUS = ''+''" | "op_text NY_T_MINUS = ''-''" | "op_text NY_T_STAR = ''*''" | "op_text NY_T_SLASH = ''/''"
| "op_text NY_T_PERCENT = ''%''" | "op_text NY_T_EQ = ''==''" | "op_text NY_T_NEQ = ''!=''" | "op_text NY_T_LT = ''<''"
| "op_text NY_T_GT = ''>''" | "op_text NY_T_LE = ''<=''" | "op_text NY_T_GE = ''>=''" | "op_text NY_T_AND = ''&&''"
| "op_text NY_T_OR = ''||''" | "op_text NY_T_NOT = ''!''" | "op_text NY_T_ASSIGN = ''=''" | "op_text NY_T_PLUS_EQ = ''+=''"
| "op_text NY_T_MINUS_EQ = ''-=''" | "op_text NY_T_STAR_EQ = ''*=''" | "op_text NY_T_SLASH_EQ = ''/=''"
| "op_text NY_T_PERCENT_EQ = ''%=''" | "op_text NY_T_POW_EQ = ''^=''" | "op_text NY_T_BITXOR_EQ = ''^^=''"
| "op_text NY_T_LSHIFT_EQ = ''<<=''" | "op_text NY_T_RSHIFT_EQ = ''>>=''" | "op_text NY_T_ARROW = ''->''"
| "op_text NY_T_BITOR = ''|''" | "op_text NY_T_BITAND = ''&''" | "op_text NY_T_POW = ''^''" | "op_text NY_T_BITXOR = ''^^''"
| "op_text NY_T_LSHIFT = ''<<''" | "op_text NY_T_RSHIFT = ''>>''" | "op_text NY_T_BITNOT = ''~''"

text \<open>No token has the kind \<open>NY_T_SEMI\<close>.\<close>

fun punct_text :: "punct_kind \<Rightarrow> string option" where
  "punct_text NY_T_LPAREN = Some ''(''" | "punct_text NY_T_RPAREN = Some '')''" | "punct_text NY_T_LBRACE = Some ''{''"
| "punct_text NY_T_RBRACE = Some ''}''" | "punct_text NY_T_LBRACK = Some ''[''" | "punct_text NY_T_RBRACK = Some '']''"
| "punct_text NY_T_COMMA = Some '',''" | "punct_text NY_T_COLON = Some '':''" | "punct_text NY_T_SEMI = None"
| "punct_text NY_T_DOT = Some ''.''" | "punct_text NY_T_RANGE = Some ''..''" | "punct_text NY_T_ELLIPSIS = Some ''...''"
| "punct_text NY_T_QUESTION = Some ''?''" | "punct_text NY_T_AT = Some ''@''" | "punct_text NY_T_HASH = Some ''#''"
| "punct_text NY_T_PLUS_PLUS = Some ''++''" | "punct_text NY_T_MINUS_MINUS = Some ''--''" | "punct_text NY_T_PIPE = Some ''|>''"
| "punct_text NY_T_QUESTION_QUESTION = Some ''??''" | "punct_text NY_T_QUESTION_DOT = Some ''?.''"

text \<open>
  The body of a quoted string has no quote but behind a backslash; the body of a triple-quoted one
  has no three quotes in a row before its end.
\<close>

fun plain_body :: "char \<Rightarrow> string \<Rightarrow> bool" where
  "plain_body q [] \<longleftrightarrow> True"
| "plain_body q [c] \<longleftrightarrow> c \<noteq> q \<and> c \<noteq> backslash"
| "plain_body q (c # d # r) \<longleftrightarrow> (if c = backslash then plain_body q r else c \<noteq> q \<and> plain_body q (d # r))"

definition triple_body :: "char \<Rightarrow> string \<Rightarrow> bool" where
  "triple_body q b \<longleftrightarrow> (\<forall>i<length b. take 3 (drop i (b @ [q, q, q])) \<noteq> [q, q, q])"

definition string_text :: "char \<Rightarrow> string \<Rightarrow> string \<Rightarrow> bool" where
  "string_text q b w \<longleftrightarrow>
     (q = dquote \<or> q = squote) \<and>
     (w = [q] @ b @ [q] \<and> plain_body q b \<or> w = [q, q, q] @ b @ [q, q, q] \<and> triple_body q b)"

fun token_shape :: "token_kind \<Rightarrow> string \<Rightarrow> bool" where
  "token_shape NY_T_EOF w \<longleftrightarrow> w = []"
| "token_shape NY_T_IDENT w \<longleftrightarrow> w \<noteq> [] \<and> (IS_ALPHA (hd w) \<or> hd w = CHR ''$'') \<and> map_of keyword_table w = None"
| "token_shape NY_T_NUMBER w \<longleftrightarrow> w \<noteq> [] \<and> IS_DIGIT (hd w)"
| "token_shape NY_T_STRING w \<longleftrightarrow> (\<exists>q b. string_text q b w)"
| "token_shape NY_T_FSTRING w \<longleftrightarrow> (\<exists>q b v. w = CHR ''f'' # v \<and> string_text q b v)"
| "token_shape (Kw k) w \<longleftrightarrow> map_of keyword_table w = Some k"
| "token_shape (Op k) w \<longleftrightarrow> w = op_text k"
| "token_shape (Punct k) w \<longleftrightarrow> punct_text k = Some w"
| "token_shape NY_T_ERROR w \<longleftrightarrow> w \<noteq> []"

text \<open>The text \<open>w\<close> from \<open>start\<close> on has been consumed.\<close>

definition consumed :: "'s lexer_t \<Rightarrow> nat \<Rightarrow> string \<Rightarrow> bool" where
  "consumed lx start w \<longleftrightarrow>
     lx_pos lx = start + length w \<and> lx_pos lx \<le> length (lx_src lx) \<and> src_slice (lx_src lx) start (length w) = w"

lemma consumed_slice: "start \<le> lx_pos lx \<Longrightarrow> lx_pos lx \<le> length (lx_src lx) \<Longrightarrow>
    consumed lx start (src_slice (lx_src lx) start (lx_pos lx - start))"
  by (simp add: consumed_def src_slice_def)

lemma slice_Suc: "p + n < length src \<Longrightarrow> src_slice src p (Suc n) = src_slice src p n @ [src_at src (p + n)]"
  by (simp add: src_slice_def src_at_def take_Suc_conv_app_nth)

lemma consumed_adv:
  assumes "consumed lx start w" "peek lx \<noteq> NUL"
  shows "consumed (adv lx) start (w @ [peek lx])"
proof -
  have e: "lx_src (adv lx) = lx_src lx" "lx_pos (adv lx) = lx_pos lx + 1"
    using assms(2) by (simp_all add: forward_src [OF forward_adv] pos_adv)
  have "lx_pos lx < length (lx_src lx)"
    by (rule peek_inside [OF assms(2)])
  then show ?thesis
    unfolding consumed_def e using assms(1) slice_Suc [of start "length w" "lx_src lx"]
    by (simp add: consumed_def peek_def)
qed

text \<open>The result of a handler: its token is the consumed text, of the shape of its kind.\<close>

definition shape_ok :: "nat \<Rightarrow> 's lexed \<Rightarrow> bool" where
  "shape_ok start r \<longleftrightarrow>
     (\<forall>t. fst r = Some t \<longrightarrow>
        tok_lexeme t = start \<and> start + tok_len t = lx_pos (snd r) \<and> 0 < tok_len t \<and> tok_kind t \<noteq> NY_T_EOF \<and>
        token_shape (tok_kind t) (src_slice (lx_src (snd r)) start (tok_len t)) \<and>
        (tok_kind t = NY_T_ERROR \<longrightarrow> lx_had_error (snd r)))"

lemma shape_None [simp]: "shape_ok start (None, lx)"
  by (simp add: shape_ok_def)

lemma make_token_simps [simp]: "tok_kind (make_token lx k start) = k" "tok_lexeme (make_token lx k start) = start"
    "tok_len (make_token lx k start) = lx_pos lx - start"
  by (simp_all add: make_token_def)

lemma shape_emit:
  "consumed lx start w \<Longrightarrow> token_shape k w \<Longrightarrow> w \<noteq> [] \<Longrightarrow> k \<noteq> NY_T_ERROR \<Longrightarrow> k \<noteq> NY_T_EOF \<Longrightarrow>
    shape_ok start (emit_token start k lx)"
  by (simp add: shape_ok_def consumed_def)

lemma shape_fail:
  "start < lx_pos lx \<Longrightarrow> lx_pos lx \<le> length (lx_src lx) \<Longrightarrow> shape_ok start (fail_token start lx)"
  by (simp add: shape_ok_def lexer_error_def src_slice_def)

lemma shape_match:
  assumes "consumed lx start w" "ch \<noteq> NUL" "\<And>l. consumed l start (w @ [ch]) \<Longrightarrow> shape_ok start (yes l)"
    "consumed lx start w \<Longrightarrow> shape_ok start no"
  shows "shape_ok start (on_match ch lx yes no)"
  using assms consumed_adv [OF assms(1)] by (auto simp: on_match_def)

lemma shape_if: "(b \<Longrightarrow> shape_ok start x) \<Longrightarrow> (\<not> b \<Longrightarrow> shape_ok start y) \<Longrightarrow> shape_ok start (if b then x else y)"
  by simp

lemma shape_operator:
  assumes "consumed lx start [c]"
  shows "shape_ok start (lex_operator start c lx)"
proof -
  have "shape_ok start (lex_arith start c lx)" if "c \<in> set ''-+*/%''"
  proof -
    from that consider "c = CHR ''-''" | "c = CHR ''+''" | "c = CHR ''*''" | "c = CHR ''/''" | "c = CHR ''%''"
      by auto
    then show ?thesis
      by cases (simp_all only: lex_arith_def Let_def char.inject simp_thms if_True if_False, (((rule shape_None shape_match [OF assms] shape_emit [OF assms]) | erule shape_match | erule shape_emit | (simp; fail))+))
  qed
  moreover have "shape_ok start (lex_compare start c lx)" if "c \<in> set ''!=<>''"
  proof -
    from that consider "c = CHR ''!''" | "c = CHR ''=''" | "c = CHR ''<''" | "c = CHR ''>''"
      by auto
    then show ?thesis
      by cases (simp_all only: lex_compare_def Let_def char.inject simp_thms if_True if_False, (((rule shape_None shape_match [OF assms] shape_emit [OF assms]) | erule shape_match | erule shape_emit | (simp; fail))+))
  qed
  moreover have "shape_ok start (lex_bitwise start c lx)" if "c \<in> set ''&|^''"
  proof -
    from that consider "c = CHR ''&''" | "c = CHR ''|''" | "c = CHR ''^''"
      by auto
    then show ?thesis
      by cases (simp_all only: lex_bitwise_def Let_def char.inject simp_thms if_True if_False, (((rule shape_None shape_match [OF assms] shape_emit [OF assms]) | erule shape_match | erule shape_emit | (simp; fail))+))
  qed
  moreover have "shape_ok start (lex_punct start c lx)"
    unfolding lex_punct_def Let_def
    by (intro shape_if, ((rule shape_None shape_match [OF assms] shape_emit [OF assms]) | erule shape_match | erule shape_emit | (simp; fail))+)
  ultimately show ?thesis
    unfolding lex_operator_def by (intro shape_if)
qed

subsection \<open>Strings\<close>

lemma consumed_append:
  assumes "consumed lx start w" "forward lx lx'"
  shows "\<exists>b. consumed lx' start (w @ b) \<and> b = src_slice (lx_src lx) (lx_pos lx) (lx_pos lx' - lx_pos lx)"
proof -
  have "src_slice (lx_src lx) start (length w + n) = w @ src_slice (lx_src lx) (lx_pos lx) n" for n
    using assms(1) unfolding src_slice_def take_add consumed_def by (simp add: add.commute)
  then show ?thesis
    using assms unfolding consumed_def forward_def by (auto simp: src_slice_def)
qed

lemma plain_body_Cons: "c \<noteq> q \<Longrightarrow> c \<noteq> backslash \<Longrightarrow> plain_body q b \<Longrightarrow> plain_body q (c # b)"
  by (cases b) simp_all

lemma quoted_body_text:
  "consumed lx start w \<Longrightarrow> peek (quoted_body q lx) = q \<Longrightarrow> q \<noteq> NUL \<Longrightarrow>
    \<exists>b. plain_body q b \<and> consumed (quoted_body q lx) start (w @ b)"
proof (induction q lx arbitrary: w rule: quoted_body.induct)
  case (1 q lx)
  show ?case
  proof (cases "peek lx \<noteq> q \<and> peek lx \<noteq> NUL")
    case False
    then have "quoted_body q lx = lx"
      by (subst quoted_body.simps) auto
    then show ?thesis
      using 1(2) by (intro exI [of _ "[]"]) simp
  next
    case True
    define esc where "esc \<longleftrightarrow> peek lx = backslash \<and> peek_next lx \<noteq> NUL"
    define lx1 where "lx1 = adv (if esc then adv lx else lx)"
    have e: "quoted_body q lx = quoted_body q lx1"
      using True by (subst quoted_body.simps) (simp add: lx1_def esc_def)
    have a: "consumed (adv lx) start (w @ [peek lx])"
      using consumed_adv [OF 1(2)] True by simp
    have n: "peek (adv lx) = peek_next lx"
      using True by (simp add: peek_next_def) (simp add: peek_def pos_adv forward_src [OF forward_adv])
    obtain v where v: "consumed lx1 start (w @ v)" "\<And>b. plain_body q b \<Longrightarrow> peek (quoted_body q lx1) = q \<Longrightarrow> plain_body q (v @ b)"
    proof (cases esc)
      case esc: True
      then have "consumed lx1 start (w @ [backslash, peek_next lx])"
        using consumed_adv [OF a] n by (simp add: lx1_def esc_def)
      then show ?thesis
        by (rule that) simp
    next
      case False
      then have c: "consumed lx1 start (w @ [peek lx])"
        using a by (simp add: lx1_def)
      show ?thesis
      proof (rule that [OF c])
        fix b assume b: "plain_body q b" "peek (quoted_body q lx1) = q"
        have "peek lx \<noteq> backslash"
        proof
          assume bs: "peek lx = backslash"
          then have "peek lx1 = NUL"
            using False n by (simp add: esc_def lx1_def)
          then have "quoted_body q lx1 = lx1"
            by (subst quoted_body.simps) simp
          then show False
            using b(2) 1(4) \<open>peek lx1 = NUL\<close> by simp
        qed
        then show "plain_body q ([peek lx] @ b)"
          using True b plain_body_Cons by simp
      qed
    qed
    have p: "peek (quoted_body q lx1) = q"
      using 1(3) e by simp
    have "\<exists>b. plain_body q b \<and> consumed (quoted_body q lx1) start ((w @ v) @ b)"
      using 1(1) [OF True, folded esc_def, folded lx1_def, OF v(1) p 1(4)] .
    then obtain b where "plain_body q b" "consumed (quoted_body q lx1) start ((w @ v) @ b)"
      by blast
    then show ?thesis
      using v(2) p unfolding e by (intro exI [of _ "v @ b"]) simp
  qed
qed

lemma advance_while_skips:
  assumes "\<And>l. P l \<longleftrightarrow> R (lx_src l) (lx_pos l)" "lx_pos lx \<le> i" "i < lx_pos (advance_while P lx)"
  shows "R (lx_src lx) i"
  using assms
proof (induction P lx rule: advance_while.induct)
  case (1 P lx)
  have c: "peek lx \<noteq> NUL \<and> P lx"
    using 1(3,4) by (subst (asm) advance_while.simps) (auto split: if_splits)
  have e: "lx_src (adv lx) = lx_src lx" "lx_pos (adv lx) = lx_pos lx + 1" "advance_while P lx = advance_while P (adv lx)"
    using c by (simp_all add: forward_src [OF forward_adv] pos_adv advance_while.simps [of P lx])
  show ?case
  proof (cases "lx_pos lx = i")
    case True
    then show ?thesis
      using c 1(2) by simp
  next
    case False
    then show ?thesis
      using 1(1) [OF c 1(2)] 1(3,4) e by simp
  qed
qed

lemma peek_adv: "peek lx \<noteq> NUL \<Longrightarrow> peek (adv lx) = src_at (lx_src lx) (lx_pos lx + 1)"
  by (subst peek_def) (simp add: pos_adv forward_src [OF forward_adv])

lemma peek_adv_next: "peek lx \<noteq> NUL \<Longrightarrow> peek (adv lx) = peek_next lx"
  by (simp add: peek_adv peek_next_def)

lemma slice_3D: "src_slice s j 3 = [x, y, z] \<Longrightarrow> src_at s j = x \<and> src_at s (j + 1) = y \<and> src_at s (j + 2) = z"
proof -
  assume a: "src_slice s j 3 = [x, y, z]"
  have n: "j + 3 \<le> length s"
    using arg_cong [OF a, of length] by (simp add: src_slice_def)
  have "src_slice s j 3 ! k = s ! (j + k)" if "k < 3" for k
    using n that by (simp add: src_slice_def)
  from this [of 0] this [of 1] this [of 2] show ?thesis
    using a n by (simp add: src_at_def)
qed

lemma slice_drop: "i + m \<le> n \<Longrightarrow> take m (drop i (src_slice s p n)) = src_slice s (p + i) m"
  by (simp add: src_slice_def drop_take add.commute)

lemma triple_bodyI:
  assumes "\<And>i. i < length b \<Longrightarrow> src_slice s (p + i) 3 \<noteq> [q, q, q]" "b @ [q, q, q] = src_slice s p (length b + 3)"
  shows "triple_body q b"
  unfolding triple_body_def assms(2) using assms(1) by (simp add: slice_drop)

lemma triple_text:
  assumes "consumed lx start w" "q \<noteq> NUL"
  defines "lx1 \<equiv> advance_while (\<lambda>l. \<not> at_triple q l) lx"
  assumes "peek lx1 \<noteq> NUL"
  shows "\<exists>b. triple_body q b \<and> consumed (adv (adv (adv lx1))) start (w @ b @ [q, q, q])"
proof -
  let ?s = "lx_src lx" and ?p = "lx_pos lx"
  have s1: "lx_src lx1 = ?s" "?p \<le> lx_pos lx1"
    unfolding lx1_def using forward_src [OF forward_advance_while] forward_pos [OF forward_advance_while] by blast+
  have t: "at_triple q lx1"
    using advance_while_stops [of "\<lambda>l. \<not> at_triple q l" lx] assms(4) by (simp add: lx1_def)
  then have c: "peek lx1 = q" "src_at ?s (lx_pos lx1 + 1) = q" "src_at ?s (lx_pos lx1 + 2) = q"
    using assms(4) by (simp_all add: at_triple_def peek_next_def s1)
  obtain b where b: "consumed lx1 start (w @ b)" "b = src_slice ?s ?p (lx_pos lx1 - ?p)"
    using consumed_append [OF assms(1), of lx1] unfolding lx1_def by blast
  have len: "length b = lx_pos lx1 - ?p"
    using b s1 assms(1) by (auto simp: consumed_def)
  have 1: "consumed (adv lx1) start (w @ b @ [q])" "peek (adv lx1) = q"
    using consumed_adv [OF b(1) assms(4)] c assms(4) by (simp_all add: peek_adv s1)
  have e: "lx_src (adv lx1) = ?s" "lx_pos (adv lx1) = lx_pos lx1 + 1"
    using assms(4) s1 by (simp_all add: forward_src [OF forward_adv] pos_adv)
  have 2: "consumed (adv (adv lx1)) start (w @ b @ [q, q])" "peek (adv (adv lx1)) = q"
    using consumed_adv [OF 1(1)] 1(2) c assms(2) by (simp_all add: peek_adv e)
  have 3: "consumed (adv (adv (adv lx1))) start (w @ b @ [q, q, q])"
    using consumed_adv [OF 2(1)] 2(2) assms(2) by simp
  have f: "lx_src (adv (adv (adv lx1))) = ?s"
    by (simp add: forward_src [OF forward_adv] s1)
  have "triple_body q b"
  proof (rule triple_bodyI [of b ?s ?p])
    fix i assume i: "i < length b"
    define R where "R s j \<longleftrightarrow> \<not> (src_at s j = q \<and> (if src_at s j = NUL then NUL else src_at s (j + 1)) = q \<and> src_at s (j + 2) = q)" for s j
    have "R ?s (?p + i)"
      by (rule advance_while_skips [where P = "\<lambda>l. \<not> at_triple q l"])
        (use i len in \<open>simp_all add: R_def at_triple_def peek_next_def peek_def lx1_def\<close>)
    then show "src_slice ?s (?p + i) 3 \<noteq> [q, q, q]"
      using slice_3D [of ?s "?p + i" q q q] assms(2) by (auto simp: R_def)
  next
    have "src_slice ?s start (length (w @ b @ [q, q, q])) = w @ b @ [q, q, q]"
      using 3 f by (simp add: consumed_def)
    then have "drop (length w) (src_slice ?s start (length (w @ b @ [q, q, q]))) = b @ [q, q, q]"
      by simp
    moreover have "?p = start + length w"
      using assms(1) by (simp add: consumed_def)
    ultimately show "b @ [q, q, q] = src_slice ?s ?p (length b + 3)"
      by (simp add: src_slice_def drop_take add.commute)
  qed
  then show ?thesis
    using 3 by blast
qed

lemma quoted_text:
  assumes "consumed lx start (pre @ [q])" "q = dquote \<or> q = squote" "lex_quoted q lx = (True, lx')"
  shows "\<exists>b v. consumed lx' start (pre @ v) \<and> string_text q b v"
proof (cases "peek lx = q \<and> peek_next lx = q")
  case True
  have nz: "q \<noteq> NUL"
    using assms(2) by auto
  have 1: "consumed (adv lx) start (pre @ [q, q])" "peek (adv lx) = q"
    using consumed_adv [OF assms(1)] True nz peek_adv_next [of lx] by simp_all
  have 2: "consumed (adv (adv lx)) start (pre @ [q, q, q])"
    using consumed_adv [OF 1(1)] 1(2) nz by simp
  have r: "peek (advance_while (\<lambda>l. \<not> at_triple q l) (adv (adv lx))) \<noteq> NUL"
      "lx' = adv (adv (adv (advance_while (\<lambda>l. \<not> at_triple q l) (adv (adv lx)))))"
    using assms(3) True by (simp_all add: lex_quoted_def Let_def split: if_splits)
  obtain b where "triple_body q b" "consumed lx' start ((pre @ [q, q, q]) @ b @ [q, q, q])"
    using triple_text [OF 2 nz r(1)] r(2) by blast
  then show ?thesis
    using assms(2) by (intro exI [of _ b] exI [of _ "[q, q, q] @ b @ [q, q, q]"]) (simp add: string_text_def)
next
  case False
  have nz: "q \<noteq> NUL"
    using assms(2) by auto
  have r: "peek (quoted_body q lx) = q" "lx' = adv (quoted_body q lx)"
    using assms(3) False by (auto simp add: lex_quoted_def Let_def split: if_splits)
  obtain b where b: "plain_body q b" "consumed (quoted_body q lx) start ((pre @ [q]) @ b)"
    using quoted_body_text [OF assms(1) r(1) nz] by blast
  then have "consumed lx' start (pre @ [q] @ b @ [q])"
    using consumed_adv [OF b(2)] r nz by simp
  then show ?thesis
    using assms(2) b(1) by (intro exI [of _ b] exI [of _ "[q] @ b @ [q]"]) (simp add: string_text_def)
qed

lemma shape_fail_consumed: "consumed lx start (c # w) \<Longrightarrow> forward lx lx' \<Longrightarrow> shape_ok start (fail_token start lx')"
  using consumed_append [of lx start "c # w" lx'] by (auto simp: consumed_def intro!: shape_fail)

lemma shape_string:
  assumes "consumed lx start (pre @ [q])" "q = dquote \<or> q = squote" "k \<noteq> NY_T_ERROR" "k \<noteq> NY_T_EOF"
    "\<And>b v. string_text q b v \<Longrightarrow> token_shape k (pre @ v)"
  shows "shape_ok start (lex_string k start q lx)"
proof -
  obtain tm lx' where r: "lex_quoted q lx = (tm, lx')"
    by (cases "lex_quoted q lx")
  have f: "forward lx lx'"
    using forward_quoted [of lx q] by (simp only: r snd_conv)
  show ?thesis
  proof (cases tm)
    case True
    then obtain b v where v: "consumed lx' start (pre @ v)" "string_text q b v"
      using quoted_text [OF assms(1,2), of lx'] r by auto
    then have "shape_ok start (emit_token start k lx')"
      using assms(3-5) by (intro shape_emit [OF v(1)]) (auto simp: string_text_def)
    then show ?thesis
      by (simp add: lex_string_def r True)
  next
    case False
    have "shape_ok start (fail_token start lx')"
      using assms(1) f by (cases "pre @ [q]") (auto intro: shape_fail_consumed)
    then show ?thesis
      by (simp add: lex_string_def r False)
  qed
qed

subsection \<open>Identifiers and numbers\<close>

lemma shape_ident_token:
  assumes "consumed lx start w" "w \<noteq> []" "IS_ALPHA (hd w) \<or> hd w = CHR ''$''"
  shows "shape_ok start (ident_token ops start lx)"
proof -
  obtain i lx1 where s: "intern_ident ops w lx = (i, lx1)"
    by (cases "intern_ident ops w lx")
  then have l: "lx_src lx1 = lx_src lx" "lx_pos lx1 = lx_pos lx"
    by (auto simp: intern_ident_def split: if_splits prod.splits)
  have w: "lx_pos lx = start + length w" "src_slice (lx_src lx) start (length w) = w"
    using assms(1) by (simp_all add: consumed_def)
  obtain k bad where kb: "word_kind w = (k, bad)"
    by (cases "word_kind w")
  then have k: "token_shape k w" "k \<noteq> NY_T_ERROR" "k \<noteq> NY_T_EOF"
    using assms(2,3) by (auto simp: word_kind_table split: option.splits)
  show ?thesis
    unfolding ident_token_def Let_def shape_ok_def identifier_type_def
    using w k l assms(2) by (simp add: lexer_error_def kb s)
qed

lemma shape_ident:
  assumes "consumed lx start [c]" "IS_ALPHA c"
  shows "shape_ok start (lex_ident ops start lx)"
proof -
  have le: "lx_pos lx \<le> length (lx_src lx)"
    using assms(1) by (simp add: consumed_def)
  define p where "p = scan_template_ident_tail (lx_src lx)
    (scan_alnum (lx_src lx) (scan8 (ny_is_alnum8 (lx_src lx)) (lx_len lx) (lx_pos lx)))"
  have "forward lx (move_to p lx)"
    unfolding p_def using ident_end_range [OF le] by (intro forward_move_to)
  then obtain b where b: "consumed (move_to p lx) start ([c] @ b)"
    using consumed_append [OF assms(1)] by blast
  have "shape_ok start (ident_token ops start (move_to p lx))"
    using assms(2) by (intro shape_ident_token [OF b]) simp_all
  then show ?thesis
    by (simp add: lex_ident_def Let_def p_def)
qed

lemma shape_template:
  assumes "consumed lx start [CHR ''$'']" "template_ident_end (lx_src lx) start = Some p"
  shows "shape_ok start (lex_template_ident ops start p lx)"
proof -
  define lx1 where "lx1 = lx\<lparr>lx_pos := start + (p - start), lx_col := lx_col lx + int (p - start) - 1\<rparr>"
  have "forward lx lx1"
    using template_end_range [OF assms(2)] assms(1) by (simp add: forward_def lx1_def consumed_def)
  then obtain b where b: "consumed lx1 start ([CHR ''$''] @ b)"
    using consumed_append [OF assms(1)] by blast
  have "shape_ok start (ident_token ops start lx1)"
    by (rule shape_ident_token [OF b]) simp_all
  then show ?thesis
    by (simp add: lex_template_ident_def Let_def lx1_def)
qed

lemma shape_number_emit:
  assumes "consumed lx start [c]" "IS_DIGIT c" "forward lx lx'"
  shows "shape_ok start (emit_token start NY_T_NUMBER lx')"
proof -
  obtain b where b: "consumed lx' start ([c] @ b)"
    using consumed_append [OF assms(1,3)] by blast
  show ?thesis
    using assms(2) by (intro shape_emit [OF b]) simp_all
qed

text \<open>A handler of numbers ends in a number or an error, at the position it has moved to.\<close>

lemma number_result:
  assumes "consumed lx start [c]" "IS_DIGIT c" "forward lx (snd r)"
    "\<exists>lx'. r = emit_token start NY_T_NUMBER lx' \<or> r = fail_token start lx'"
  shows "shape_ok start r"
proof -
  obtain lx' where "r = emit_token start NY_T_NUMBER lx' \<or> r = fail_token start lx'"
    using assms(4) by blast
  then show ?thesis
  proof
    assume "r = fail_token start lx'"
    moreover from this have "lx_pos lx \<le> lx_pos lx' \<and> lx_pos lx' \<le> length (lx_src lx')"
      using assms(1,3) by (simp add: forward_def consumed_def lexer_error_def)
    ultimately show ?thesis
      using assms(1) shape_fail [of start lx'] by (simp add: consumed_def)
  qed (use assms shape_number_emit [OF assms(1,2), of lx'] in simp)
qed

lemma radix_cases: "\<exists>lx'. lex_radix_number lx start d r = emit_token start NY_T_NUMBER lx' \<or> lex_radix_number lx start d r = fail_token start lx'"
  unfolding lex_radix_number_def Let_def by (simp split: if_split) blast

lemma number_cases: "\<exists>lx'. lex_number start c lx = emit_token start NY_T_NUMBER lx' \<or> lex_number start c lx = fail_token start lx'"
  unfolding lex_number_def Let_def using radix_cases [where lx = lx and start = start]
  by (simp split: if_split prod.split) blast

lemma shape_number: "consumed lx start [c] \<Longrightarrow> IS_DIGIT c \<Longrightarrow> shape_ok start (lex_number start c lx)"
  by (rule number_result [OF _ _ forward_number number_cases])

subsection \<open>The next token\<close>

lemma shape_char:
  assumes "consumed lx start [c]"
  shows "shape_ok start (lex_char ops start c lx)"
proof -
  have f: "shape_ok start (lex_string NY_T_FSTRING start (peek lx) (adv lx))"
    if "c = CHR ''f''" "peek lx = dquote \<or> peek lx = squote"
  proof -
    have q: "consumed (adv lx) start ([c] @ [peek lx])"
      using consumed_adv [OF assms] that(2) by auto
    show ?thesis
      by (rule shape_string [OF q that(2)]) (use that(1) in auto)
  qed
  have t: "shape_ok start (lex_template_ident ops start p lx)"
    if "c = CHR ''$''" "template_ident_end (lx_src lx) start = Some p" for p
    using shape_template [of lx start p ops] assms that by simp
  have s: "shape_ok start (lex_string NY_T_STRING start c lx)" if "c = dquote \<or> c = squote"
    using shape_string [of lx start "[]" c NY_T_STRING] assms that by auto
  show ?thesis
    unfolding lex_char_def Let_def
    using f t s shape_ident [OF assms, of ops] shape_number [OF assms] shape_operator [OF assms]
    by (auto split: if_splits)
qed

definition token_in :: "'s lexer_t \<Rightarrow> token_t \<Rightarrow> 's lexer_t \<Rightarrow> bool" where
  "token_in lx t lx' \<longleftrightarrow>
     forward lx lx' \<and> lx_pos lx \<le> tok_lexeme t \<and> tok_lexeme t + tok_len t = lx_pos lx' \<and>
     token_shape (tok_kind t) (tok_text (lx_src lx) t) \<and>
     (tok_kind t = NY_T_EOF \<longrightarrow> peek lx' = NUL) \<and> (tok_kind t \<noteq> NY_T_EOF \<longrightarrow> 0 < tok_len t) \<and>
     (tok_kind t = NY_T_ERROR \<longrightarrow> lx_had_error lx')"

lemma lex_step_token:
  assumes "lex_step ops lx = (Some t, lx')" "lx_pos lx \<le> length (lx_src lx)"
  shows "token_in lx t lx'"
proof (rule lex_step_cases [where ops = ops and ?lx0.0 = lx])
  let ?lx = "skip_whitespace ops (lx\<lparr>lx_skipped_newline := False\<rparr>)"
  assume "peek ?lx = NUL" "forward lx ?lx" "lex_step ops lx = (Some (eof_token ?lx), ?lx)"
  then show ?thesis
    using assms forward_pos [of lx ?lx] by (auto simp: token_in_def eof_token_def tok_text_def src_slice_def)
next
  fix lx1
  let ?lx = "skip_whitespace ops (lx\<lparr>lx_skipped_newline := False\<rparr>)"
  assume a: "peek ?lx \<noteq> NUL" "forward lx ?lx" "forward ?lx lx1" "lx_pos lx1 = lx_pos ?lx + 1"
    "lex_step ops lx = lex_char ops (lx_pos ?lx) (peek ?lx) lx1" "forward lx1 (snd (lex_step ops lx))"
  have i: "lx_pos ?lx < length (lx_src ?lx)"
    by (rule peek_inside [OF a(1)])
  then have "consumed lx1 (lx_pos ?lx) [peek ?lx]"
    using a(4) forward_src [OF a(3)] slice_Suc [of "lx_pos ?lx" 0 "lx_src ?lx"]
    by (simp add: consumed_def peek_def) (simp add: src_slice_def)
  then have "shape_ok (lx_pos ?lx) (Some t, lx')"
    using shape_char [of lx1 "lx_pos ?lx" "peek ?lx" ops] a(5) assms(1) by simp
  moreover have "forward lx lx'"
    using forward_trans [OF forward_trans [OF a(2,3)]] a(6) assms(1) by simp
  ultimately show ?thesis
    using forward_pos [OF a(2)] forward_src [of lx lx'] by (simp add: token_in_def shape_ok_def tok_text_def)
qed

lemma token_in_trans: "forward lx lx1 \<Longrightarrow> token_in lx1 t lx' \<Longrightarrow> token_in lx t lx'"
  using forward_src [of lx lx1] forward_pos [of lx lx1] by (auto simp: token_in_def intro: forward_trans)

lemma lexer_next_token: "lx_pos lx \<le> length (lx_src lx) \<Longrightarrow> token_in lx (fst (lexer_next ops lx)) (snd (lexer_next ops lx))"
proof (induction ops lx rule: lexer_next.induct)
  case (1 ops lx)
  obtain t lx' where s: "lex_step ops lx = (t, lx')"
    by (cases "lex_step ops lx")
  have f: "forward lx lx'"
    using lex_step_moves(1) [of lx ops] s by simp
  show ?case
  proof (cases t)
    case None
    have "lexer_next ops lx = lexer_next ops lx'"
      by (subst lexer_next.simps) (simp add: s None)
    then show ?thesis
      using 1(1) [OF s [symmetric] None] 1(2) f token_in_trans [OF f] by (simp add: forward_def)
  next
    case (Some tok)
    have "lexer_next ops lx = (tok, lx')"
      by (subst lexer_next.simps) (simp add: s Some)
    then show ?thesis
      using lex_step_token [of ops lx tok lx'] s Some 1(2) by simp
  qed
qed

section \<open>The stream of tokens\<close>

definition lex_iter :: "'s sym_ops \<Rightarrow> 's lexer_t \<Rightarrow> nat \<Rightarrow> 's lexer_t" where
  "lex_iter ops lx k = ((\<lambda>l. snd (lexer_next ops l)) ^^ k) lx"

definition nth_token :: "'s sym_ops \<Rightarrow> 's lexer_t \<Rightarrow> nat \<Rightarrow> token_t" where
  "nth_token ops lx k = fst (lexer_next ops (lex_iter ops lx k))"

lemma lex_iter_simps: "lex_iter ops lx 0 = lx" "lex_iter ops lx (Suc k) = snd (lexer_next ops (lex_iter ops lx k))"
  by (simp_all add: lex_iter_def)

lemma lex_iter_forward: "forward lx (lex_iter ops lx k)"
  by (induction k) (simp_all add: lex_iter_simps, meson forward_trans lexer_next_moves)

text \<open>The states the parser reads tokens from: the position is inside a source without terminator.\<close>

definition lexer_ok :: "'s lexer_t \<Rightarrow> bool" where
  "lexer_ok lx \<longleftrightarrow> lx_pos lx \<le> length (lx_src lx) \<and> NUL \<notin> set (lx_src lx)"

lemma lexer_ok_forward: "lexer_ok lx \<Longrightarrow> forward lx lx' \<Longrightarrow> lexer_ok lx'"
  by (auto simp: lexer_ok_def forward_def)

lemma lexer_ok_init: "lexer_ok (lexer_init ops src filename syms)"
  using set_takeWhileD [of NUL "\<lambda>c. c \<noteq> NUL"] by (auto simp: lexer_ok_def lexer_init_def Let_def split: option.splits)

lemma lexer_init_src [simp]: "lx_src (lexer_init ops (Some src) filename syms) = takeWhile (\<lambda>c. c \<noteq> NUL) src"
  by (simp add: lexer_init_def Let_def)

lemma peek_NUL_end: "lexer_ok lx \<Longrightarrow> peek lx = NUL \<Longrightarrow> lx_pos lx = length (lx_src lx)"
  by (auto simp: lexer_ok_def peek_def src_at_def split: if_splits dest: nth_mem)

lemma nth_token_in:
  assumes "lexer_ok lx"
  shows "token_in (lex_iter ops lx k) (nth_token ops lx k) (lex_iter ops lx (Suc k))"
  using lexer_next_token [of "lex_iter ops lx k" ops] lexer_ok_forward [OF assms lex_iter_forward, of ops k]
  by (simp add: nth_token_def lex_iter_simps lexer_ok_def)

lemma nth_token_order:
  assumes "lexer_ok lx"
  shows "tok_lexeme (nth_token ops lx k) + tok_len (nth_token ops lx k) \<le> tok_lexeme (nth_token ops lx (Suc k))"
  using nth_token_in [OF assms, of ops k] nth_token_in [OF assms, of ops "Suc k"] by (simp add: token_in_def)

lemma eof_reached:
  assumes "lexer_ok lx"
  shows "\<exists>n\<le>length (lx_src lx) - lx_pos lx. tok_kind (nth_token ops lx n) = NY_T_EOF"
proof (rule ccontr)
  let ?m = "length (lx_src lx) - lx_pos lx"
  assume n: "\<not> (\<exists>n\<le>?m. tok_kind (nth_token ops lx n) = NY_T_EOF)"
  have "lx_pos lx + k \<le> lx_pos (lex_iter ops lx k)" if "k \<le> ?m + 1" for k
    using that
  proof (induction k)
    case (Suc k)
    then have "lx_pos (lex_iter ops lx k) < lx_pos (lex_iter ops lx (Suc k))"
      using n lexer_next_moves [of "lex_iter ops lx k" ops] by (simp add: nth_token_def lex_iter_simps)
    then show ?case
      using Suc by simp
  qed (simp add: lex_iter_simps)
  from this [of "?m + 1"] show False
    using assms lex_iter_forward [of lx ops "?m + 1"] by (simp add: forward_def lexer_ok_def)
qed

lemma eof_at_end:
  assumes "lexer_ok lx" "tok_kind (nth_token ops lx n) = NY_T_EOF"
  shows "tok_lexeme (nth_token ops lx n) = length (lx_src lx)"
proof -
  have t: "token_in (lex_iter ops lx n) (nth_token ops lx n) (lex_iter ops lx (Suc n))"
    by (rule nth_token_in [OF assms(1)])
  have f: "forward lx (lex_iter ops lx (Suc n))"
    by (rule lex_iter_forward)
  have "lx_pos (lex_iter ops lx (Suc n)) = length (lx_src lx)"
    using peek_NUL_end [OF lexer_ok_forward [OF assms(1) f]] t assms(2) forward_src [OF f] by (simp add: token_in_def)
  moreover have "tok_len (nth_token ops lx n) = 0"
  proof -
    have "lx_src (lex_iter ops lx n) = lx_src lx"
      by (rule forward_src [OF lex_iter_forward])
    then have "src_slice (lx_src lx) (tok_lexeme (nth_token ops lx n)) (tok_len (nth_token ops lx n)) = []"
      using t assms(2) by (simp add: token_in_def tok_text_def)
    then show ?thesis
      using t calculation by (auto simp: token_in_def src_slice_def)
  qed
  ultimately show ?thesis
    using t by (simp add: token_in_def)
qed

lemma first_eof:
  assumes "lexer_ok lx"
  obtains n where "n \<le> length (lx_src lx)" "tok_kind (nth_token ops lx n) = NY_T_EOF"
    "\<forall>k<n. tok_kind (nth_token ops lx k) \<noteq> NY_T_EOF"
proof -
  let ?eof = "\<lambda>n. tok_kind (nth_token ops lx n) = NY_T_EOF"
  obtain m where m: "m \<le> length (lx_src lx)" "?eof m"
    using eof_reached [OF assms, of ops] by (meson diff_le_self order_trans)
  show ?thesis
  proof (rule that)
    show "(LEAST n. ?eof n) \<le> length (lx_src lx)"
      using Least_le [of ?eof, OF m(2)] m(1) by (rule order_trans)
    show "?eof (LEAST n. ?eof n)"
      by (rule LeastI [of ?eof, OF m(2)])
    show "\<forall>k<(LEAST n. ?eof n). \<not> ?eof k"
      using not_less_Least by blast
  qed
qed

text \<open>A symbol table as a list of strings.\<close>

definition list_symbols :: "string list sym_ops" where
  "list_symbols =
     \<lparr>sy_intern = (\<lambda>x xs. if x \<in> set xs then (length (takeWhile (\<lambda>y. y \<noteq> x) xs), xs) else (length xs, xs @ [x])),
      sy_get = (\<lambda>xs i. if i < length xs then xs ! i else [])\<rparr>"

text \<open>The text between the quotes.\<close>

lemma plain_body_hd: "plain_body q (c # b) \<Longrightarrow> q \<noteq> backslash \<Longrightarrow> c \<noteq> q"
  by (cases b) (auto split: if_splits)

lemma slice_nth: "p + n \<le> length src \<Longrightarrow> i < n \<Longrightarrow> src_at src (p + i) = src_slice src p n ! i"
  by (simp add: src_slice_def src_at_def)

lemma dup_string_token_text:
  assumes "string_text q b (tok_text src t)" "tok_lexeme t + tok_len t \<le> length src"
  shows "dup_string_token src t = (if b = [] then None else Some b)"
proof -
  define w where "w = tok_text src t"
  let ?p = "tok_lexeme t"
  have len: "tok_len t = length w"
    using assms(2) by (simp add: w_def tok_text_def src_slice_def)
  have ws: "src_slice src ?p (length w) = w"
    using len by (metis tok_text_def w_def)
  have at: "src_at src (?p + i) = w ! i" if "i < length w" for i
    using slice_nth [of ?p "length w" src i] that assms(2) len ws by simp
  have nb: "q \<noteq> backslash"
    using assms(1) by (auto simp: string_text_def)
  have body: "dup_token_lexeme src (t\<lparr>tok_lexeme := ?p + n, tok_len := length w - (n + n)\<rparr>) = (if b = [] then None else Some b)"
    if "w = replicate n q @ b @ replicate n q" for n
  proof -
    have "tok_text src (t\<lparr>tok_lexeme := ?p + n, tok_len := length w - (n + n)\<rparr>) = take (length w - (n + n)) (drop n w)"
      using slice_drop [of n "length w - (n + n)" "length w" src ?p] unfolding ws tok_text_def by (simp add: that)
    then show ?thesis
      using that by (simp add: dup_token_lexeme_def)
  qed
  from assms(1) consider "w = [q] @ b @ [q]" "plain_body q b" | "w = [q, q, q] @ b @ [q, q, q]"
    by (auto simp: string_text_def w_def)
  then show ?thesis
  proof cases
    case 1
    have n: "\<not> (6 \<le> length w \<and> src_at src ?p = src_at src (?p + 1) \<and> src_at src (?p + 1) = src_at src (?p + 2))"
    proof (cases b)
      case (Cons c b')
      then have "w ! 0 = q" "w ! 1 = c" "c \<noteq> q" "1 < length w" "w \<noteq> []"
        using 1 plain_body_hd [OF _ nb, of c b'] by simp_all
      moreover from this have "src_at src ?p = q" "src_at src (?p + 1) = c"
        using at [of 0] at [of 1] by auto
      ultimately show ?thesis
        by simp
    qed (use 1 in simp)
    have "2 \<le> length w"
      by (simp add: 1)
    then show ?thesis
      unfolding dup_string_token_def Let_def len if_not_P [OF n] using body [of 1] 1(1) by simp
  next
    case 2
    then have n: "6 \<le> length w \<and> src_at src ?p = src_at src (?p + 1) \<and> src_at src (?p + 1) = src_at src (?p + 2)"
      using at [of 0] at [of 1] at [of 2] by simp
    then show ?thesis
      unfolding dup_string_token_def Let_def len if_P [OF n] using body [of 3] 2 by (simp add: numeral_3_eq_3)
  qed
qed

section \<open>Properties\<close>

text \<open>
  C15: Lexing ends and the tokens tile the source. From the initial state of any source, reading
  tokens reaches the end-of-file token after at most as many tokens as the source has bytes, loops
  and error recovery included; every token before it has a nonempty text, the texts follow each
  other in the source without overlap, and the end-of-file token stands at the end.
\<close>

theorem lexer_tiles_source:
  "let lx = lexer_init ops src filename syms; tok = nth_token ops lx in
   \<exists>n\<le>length (lx_src lx).
     tok_kind (tok n) = NY_T_EOF \<and> tok_lexeme (tok n) = length (lx_src lx) \<and>
     (\<forall>k<n. tok_kind (tok k) \<noteq> NY_T_EOF \<and> 0 < tok_len (tok k) \<and>
        tok_lexeme (tok k) + tok_len (tok k) \<le> tok_lexeme (tok (Suc k)))"
proof -
  define lx where "lx = lexer_init ops src filename syms"
  have ok: "lexer_ok lx"
    by (simp add: lx_def lexer_ok_init)
  obtain n where n: "n \<le> length (lx_src lx)" "tok_kind (nth_token ops lx n) = NY_T_EOF"
      "\<forall>k<n. tok_kind (nth_token ops lx k) \<noteq> NY_T_EOF"
    using first_eof [OF ok, of ops] by blast
  have "0 < tok_len (nth_token ops lx k)" if "k < n" for k
    using n(3) that nth_token_in [OF ok, of ops k] by (simp add: token_in_def)
  then show ?thesis
    unfolding Let_def lx_def [symmetric] using n eof_at_end [OF ok n(2)] nth_token_order [OF ok, of ops] by blast
qed

theorem lexer_tiles_source_witness:
  "\<exists>n\<le>6. tok_kind (nth_token list_symbols (lexer_init list_symbols (Some ''x => 1'') None []) n) = NY_T_EOF"
  using lexer_tiles_source [of list_symbols "Some ''x => 1''" None "[]"] by (auto simp: Let_def numeral_eq_Suc)

text \<open>
  C16: The kind of a token describes its text. Every token read from a source has the shape of its
  kind: an identifier starts with a letter, an underscore or \<open>$\<close> and is no keyword, a keyword token
  spells its keyword, an operator or punctuation token is its own spelling, a number starts with a
  digit, a string or f-string token is a complete literal (the closing quotes are the first that are
  not escaped, or the first three in a row), and an error token has been reported.
\<close>

theorem token_kind_shape:
  "let lx = lexer_init ops src filename syms; t = nth_token ops lx k in
   token_shape (tok_kind t) (tok_text (lx_src lx) t) \<and>
   (tok_kind t = NY_T_ERROR \<longrightarrow> lx_had_error (lex_iter ops lx (Suc k)))"
proof -
  define lx where "lx = lexer_init ops src filename syms"
  have ok: "lexer_ok lx"
    by (simp add: lx_def lexer_ok_init)
  show ?thesis
    unfolding Let_def lx_def [symmetric]
    using nth_token_in [OF ok, of ops k] forward_src [OF lex_iter_forward [of lx ops k]] by (simp add: token_in_def)
qed

theorem token_kind_shape_witness:
  "let lx = lexer_init list_symbols (Some ''0b2'') None []; t = nth_token list_symbols lx 0 in
   tok_kind t = NY_T_ERROR \<and> tok_text (lx_src lx) t = ''0b'' \<and> lx_had_error (lex_iter list_symbols lx 1)"
proof -
  have "tok_kind (nth_token list_symbols (lexer_init list_symbols (Some ''0b2'') None []) 0) = NY_T_ERROR"
      "tok_text ''0b2'' (nth_token list_symbols (lexer_init list_symbols (Some ''0b2'') None []) 0) = ''0b''"
    by code_simp+
  then show ?thesis
    using token_kind_shape [of list_symbols "Some ''0b2''" None "[]" 0] by (simp add: Let_def)
qed

text \<open>
  The fast scans are the plain ones. The loops that test eight bytes at a time, for
  identifiers and for digits, end where the byte-by-byte loop ends, for every source, position and
  length field.
\<close>

theorem fast_scan_exact:
  "scan_alnum src (scan8 (ny_is_alnum8 src) len p) = p + length (takeWhile IS_ALNUM (drop p src)) \<and>
   lex_decimal_digits lx =
     move_to (scan_pos (\<lambda>i. IS_DIGIT (src_at (lx_src lx) i) \<or> ny_digit_sep_before_digit (lx_src lx) i) (lx_src lx) (lx_pos lx)) lx"
  using scan_pos_takeWhile [of IS_ALNUM src p] by (simp add: alnum8_absorbed lex_decimal_digits_def Let_def digit8_absorbed)

text \<open>
  The keyword switch is a table: the nested switch on letters and lengths gives the kind of the
  keyword table, \<open>NY_T_IDENT\<close> for every other word, and reports exactly the words it rejects.
\<close>

lemma identifier_type_table:
  assumes "w \<noteq> []"
  shows "identifier_type lx w =
    (case map_of keyword_table w of
       Some k \<Rightarrow> (Kw k, lx)
     | None \<Rightarrow> (NY_T_IDENT, if w \<in> set rejected_words then lexer_error lx else lx))"
  by (simp add: identifier_type_def word_kind_table [OF assms] split: option.split)

text \<open>
  \<open>dup_string_token\<close> returns the body of a string literal. For every string token of a source,
  single or triple quoted, the copy is the text between the quotes, and no copy is made exactly
  when that text is empty.
\<close>

theorem dup_string_token_body:
  assumes "lx = lexer_init ops src filename syms" "t = nth_token ops lx k" "tok_kind t = NY_T_STRING"
  shows "\<exists>q b. string_text q b (tok_text (lx_src lx) t) \<and>
    dup_string_token (lx_src lx) t = (if b = [] then None else Some b)"
proof -
  have ok: "lexer_ok lx"
    by (simp add: assms(1) lexer_ok_init)
  have t: "token_in (lex_iter ops lx k) t (lex_iter ops lx (Suc k))" "lx_src (lex_iter ops lx k) = lx_src lx"
    using nth_token_in [OF ok] forward_src [OF lex_iter_forward] assms(2) by blast+
  then obtain q b where w: "string_text q b (tok_text (lx_src lx) t)"
    using assms(3) by (auto simp: token_in_def)
  have "tok_lexeme t + tok_len t \<le> length (lx_src lx)"
    using t lexer_ok_forward [OF ok lex_iter_forward [of lx ops "Suc k"]] forward_src [OF lex_iter_forward [of lx ops "Suc k"]]
    by (simp add: token_in_def lexer_ok_def)
  then show ?thesis
    using dup_string_token_text [OF w] w by blast
qed

theorem dup_string_token_body_witness:
  "let lx = lexer_init list_symbols (Some [squote, CHR ''a'', squote]) None []; t = nth_token list_symbols lx 0
   in tok_kind t = NY_T_STRING \<and> (\<exists>q b. string_text q b (tok_text (lx_src lx) t) \<and>
        dup_string_token (lx_src lx) t = (if b = [] then None else Some b))"
proof -
  have "tok_kind (nth_token list_symbols (lexer_init list_symbols (Some [squote, CHR ''a'', squote]) None []) 0) = NY_T_STRING"
    by code_simp
  from dup_string_token_body [OF refl refl this] this show ?thesis
    by (simp only: Let_def simp_thms)
qed

text \<open>The buffer of a module name is large enough once the first part fits.\<close>

lemma grow_cap_fits: "need \<le> grow_cap cap need"
  by (simp add: grow_cap_def)

lemma glue_fits:
  assumes "length name < cap" "lx_pos lx \<le> length (lx_src lx)"
  shows "length (fst (glue_idents ops t name cap lx)) < fst (snd (glue_idents ops t name cap lx))"
  using assms
proof (induction ops t name cap lx rule: glue_idents.induct)
  case (1 ops t name cap lx)
  let ?nt = "fst (lexer_next ops lx)" and ?lx' = "snd (lexer_next ops lx)"
  have "lx_pos ?lx' \<le> length (lx_src ?lx')" "length (tok_text (lx_src lx) ?nt) \<le> tok_len ?nt"
    using lexer_next_moves [of lx ops] 1(3) by (simp_all add: forward_def tok_text_def src_slice_def)
  moreover from this have "length (name @ tok_text (lx_src lx) ?nt) < grow_cap cap (length name + tok_len ?nt + 1)"
    using grow_cap_fits [of "length name + tok_len ?nt + 1" cap] by simp
  ultimately show ?case
    using 1(1) [OF refl refl refl] 1(2) by (simp add: glue_idents.simps [of ops t name cap lx] Let_def)
qed

lemma dots_fit:
  assumes "length name < cap" "lx_pos lx \<le> length (lx_src lx)"
  shows "fst (use_dots ops name cap tok lx) \<noteq> UseOverflow"
  using assms
proof (induction ops name cap tok lx rule: use_dots.induct)
  case (1 ops name cap tok lx)
  let ?i = "fst (lexer_next ops lx)" and ?lx' = "snd (lexer_next ops lx)"
  let ?n = "name @ ''.'' @ tok_text (lx_src lx) ?i" and ?c = "grow_cap cap (length name + 1 + tok_len ?i + 1)"
  obtain name' cap' tok' lx2 where g: "glue_idents ops ?i ?n ?c ?lx' = (name', cap', tok', lx2)"
    by (metis prod_cases4)
  have l: "lx_pos ?lx' \<le> length (lx_src ?lx')" "length (tok_text (lx_src lx) ?i) \<le> tok_len ?i"
    using lexer_next_moves [of lx ops] 1(3) by (simp_all add: forward_def tok_text_def src_slice_def)
  then have "length ?n < ?c"
    using grow_cap_fits [of "length name + 1 + tok_len ?i + 1" cap] by simp
  then have "length name' < cap'" "lx_pos lx2 \<le> length (lx_src lx2)"
    using glue_fits [OF _ l(1), of ?n ?c ops ?i] forward_glue [of ?lx' ops ?i ?n ?c] l(1) unfolding g by (simp_all add: forward_def)
  moreover have "use_dots ops name cap tok lx =
      (if tok_kind tok = Punct NY_T_DOT
       then if tok_kind ?i \<noteq> NY_T_IDENT \<and> tok_kind ?i \<noteq> NY_T_NUMBER then (UseNull, ?i, ?lx') else use_dots ops name' cap' tok' lx2
       else (if length name < cap then UseName name else UseOverflow, tok, lx))"
    by (subst use_dots.simps) (simp only: Let_def g prod.case)
  ultimately show ?case
    using 1(1) [OF _ refl refl refl _ g [symmetric] refl refl] 1(2) by simp
qed

text \<open>The states of the lexer on a source of two lines, and the tokens it reads there.\<close>

definition two_lines :: "nat \<Rightarrow> int \<Rightarrow> int \<Rightarrow> bool \<Rightarrow> string list \<Rightarrow> string list lexer_t" where
  "two_lines pos line col skipped syms =
     \<lparr>lx_src = ''a'' @ [newline] @ '' b'', lx_filename = None, lx_len = 4, lx_source_has_newline = True, lx_pos = pos,
      lx_line = line, lx_real_line = line, lx_col = col, lx_split_pos = 0, lx_split_filename = None,
      lx_skipped_newline = skipped, lx_intern_identifiers = True, lx_quiet = False, lx_had_error = False,
      lx_error_count = 0, lx_syms = syms\<rparr>"

definition two_lines_token :: "nat \<Rightarrow> nat \<Rightarrow> u64 \<Rightarrow> int \<Rightarrow> int \<Rightarrow> token_t" where
  "two_lines_token start sid hash line col =
     \<lparr>tok_kind = NY_T_IDENT, tok_lexeme = start, tok_len = 1, tok_sym_id = sid, tok_hash = Some hash, tok_line = line,
      tok_real_line = Some line, tok_col = col, tok_filename = None\<rparr>"

lemma two_lines_init: "lexer_init list_symbols (Some (''a'' @ [newline] @ '' b'')) None [] = two_lines 0 1 1 False []"
  by code_simp

lemma two_lines_first: "lexer_next list_symbols (two_lines 0 1 1 False []) =
    (two_lines_token 0 0 4637342430736900296 1 1, two_lines 1 1 2 False [''a''])"
  by code_simp

lemma two_lines_second: "lexer_next list_symbols (two_lines 1 1 2 False [''a'']) =
    (two_lines_token 3 1 11303632674029876354 2 2, two_lines 4 2 3 True [''a'', ''b''])"
  by code_simp

lemma two_lines_end: "lexer_next list_symbols (two_lines 4 2 3 True [''a'', ''b'']) =
    (eof_token (two_lines 4 2 3 False [''a'', ''b'']), two_lines 4 2 3 False [''a'', ''b''])"
  by code_simp

text \<open>
  A module name runs on into the next line: \<open>parse_use_name\<close> joins an identifier to the name when
  its column is the one behind the previous part, and does not look at the line. On a source with
  \<open>a\<close> on its first line and \<open>b\<close> in the second column of its second line, the name read is \<open>ab\<close>.
\<close>

lemma use_name_joins_lines:
  "case lexer_next list_symbols (lexer_init list_symbols (Some (''a'' @ [newline] @ '' b'')) None []) of
     (t, lx) \<Rightarrow> tok_text (lx_src lx) t = ''a'' \<and> fst (parse_use_name list_symbols True t lx) = UseName ''ab''"
proof -
  let ?t = "two_lines_token 0 0 4637342430736900296 1 1" and ?u = "two_lines_token 3 1 11303632674029876354 2 2"
  let ?last = "two_lines 4 2 3 False [''a'', ''b'']"
  have sel: "tok_kind ?t = NY_T_IDENT" "tok_kind ?u = NY_T_IDENT" "tok_col ?u = tok_col ?t + int (tok_len ?t)"
      "tok_kind (eof_token ?last) = NY_T_EOF" "lx_src (two_lines p l c k s) = [CHR ''a'', newline, CHR '' '', CHR ''b'']"
      "tok_text [CHR ''a'', newline, CHR '' '', CHR ''b''] ?t = ''a''"
      "tok_text [CHR ''a'', newline, CHR '' '', CHR ''b''] ?u = ''b''" "tok_len ?t = 1" "tok_len ?u = 1" for p l c k s
    by (simp_all add: two_lines_token_def eof_token_def two_lines_def tok_text_def src_slice_def)
  have "glue_idents list_symbols ?u ''ab'' cap (two_lines 4 2 3 True [''a'', ''b'']) = (''ab'', cap, eof_token ?last, ?last)" for cap
    unfolding glue_idents.simps [of list_symbols ?u] two_lines_end Let_def fst_conv snd_conv by (simp add: sel(4))
  then have g: "glue_idents list_symbols ?t ''a'' 64 (two_lines 1 1 2 False [''a'']) = (''ab'', 64, eof_token ?last, ?last)"
    unfolding glue_idents.simps [of list_symbols ?t] two_lines_second Let_def fst_conv snd_conv
    by (simp only: sel simp_thms if_True append.simps) (simp add: grow_cap_def)
  have d: "use_dots list_symbols ''ab'' 64 (eof_token ?last) ?last = (UseName ''ab'', eof_token ?last, ?last)"
    by (subst use_dots.simps) (simp add: sel(4))
  show ?thesis
    unfolding two_lines_init two_lines_first prod.case parse_use_name_def Let_def sel g d by simp
qed

text \<open>
  C28: The buffer of a module name. When the first part of the name is a word or number of more than
  64 bytes, \<open>parse_use_name\<close> writes behind its 64-byte buffer, since the first copy is made without
  comparing it with the capacity; when it is shorter than 64 bytes, no later part overflows the
  buffer, whatever is appended.
\<close>

theorem use_name_overflow_iff:
  assumes "tok_kind t = NY_T_IDENT \<or> tok_kind t = NY_T_NUMBER" "tok_lexeme t + tok_len t \<le> length (lx_src lx)"
    "lx_pos lx \<le> length (lx_src lx)"
  shows "(64 < tok_len t \<longrightarrow> fst (parse_use_name ops want_last t lx) = UseOverflow) \<and>
    (tok_len t < 64 \<longrightarrow> fst (parse_use_name ops want_last t lx) \<noteq> UseOverflow)"
proof (intro conjI impI)
  assume "tok_len t < 64"
  then have "length (tok_text (lx_src lx) t) < 64"
    using assms(2) by (simp add: tok_text_def src_slice_def)
  moreover obtain name cap tok lx1 where g: "glue_idents ops t (tok_text (lx_src lx) t) 64 lx = (name, cap, tok, lx1)"
    by (metis prod_cases4)
  ultimately have "length name < cap" "lx_pos lx1 \<le> length (lx_src lx1)"
    using glue_fits [OF _ assms(3), of "tok_text (lx_src lx) t" 64 ops t] forward_glue [of lx ops t "tok_text (lx_src lx) t" 64] assms(3)
    by (simp_all add: g forward_def)
  then have "fst (use_dots ops name cap tok lx1) \<noteq> UseOverflow"
    by (rule dots_fit)
  then show "fst (parse_use_name ops want_last t lx) \<noteq> UseOverflow"
    using assms(1) \<open>tok_len t < 64\<close> by (auto simp: parse_use_name_def Let_def g split: prod.splits)
qed (use assms(1) in \<open>auto simp: parse_use_name_def Let_def\<close>)

theorem use_name_overflow_iff_witness:
  "let long = replicate 65 (CHR ''a'');
       lx = lexer_init list_symbols (Some long) None []\<lparr>lx_pos := 65\<rparr>;
       t = \<lparr>tok_kind = NY_T_IDENT, tok_lexeme = 0, tok_len = 65, tok_sym_id = 1, tok_hash = Some 0, tok_line = 1,
            tok_real_line = Some 1, tok_col = 1, tok_filename = None\<rparr>
   in fst (parse_use_name list_symbols True t lx) = UseOverflow"
proof -
  have l: "length (takeWhile (\<lambda>c. c \<noteq> NUL) (replicate 65 (CHR ''a''))) = 65"
    by (simp add: takeWhile_replicate)
  show ?thesis
    unfolding Let_def by (rule use_name_overflow_iff [THEN conjunct1, rule_format]) (simp_all add: l)
qed

text \<open>
  Positions drift. After a \<open>#line\<close> directive the physical line is one too low (the newline of the
  directive is counted back), so the token on the second line of the source is on real line 1; and a
  string that spans lines has a column computed from the last line and its whole length, here -4.
\<close>

lemma token_positions_drift:
  "(let lx = lexer_init list_symbols (Some (''#line 7'' @ [newline] @ ''x'')) None []
    in tok_line (nth_token list_symbols lx 0) = 7 \<and> tok_real_line (nth_token list_symbols lx 0) = Some 1) \<and>
   (let lx = lexer_init list_symbols (Some ([dquote, CHR ''a'', CHR ''b'', CHR ''c'', newline, dquote])) None []
    in tok_col (nth_token list_symbols lx 0) = -4)"
  by code_simp

end
