(* ===== verification/Intern.thy ===== *)
theory Intern
  imports Base_Hash
begin

text \<open>
  The string interner of \<open>src/base/intern.c\<close>: a table of entries, an open-addressing map from hashes
  to entry numbers, and an open-addressing set of the pointers that were handed out. An array is a
  function from indices together with its capacity.
\<close>

section \<open>State\<close>

type_synonym ptr = u64

record ny_intern_entry =
  e_str :: byte_seq
  e_ptr :: ptr
  e_len :: nat
  e_hash :: u64

text \<open>\<open>it_table\<close> holds the first \<open>g_intern_count\<close> entries of the table.\<close>

record intern_state =
  it_table :: "ny_intern_entry list"
  it_cap :: nat
  it_map :: "nat \<Rightarrow> nat"
  it_map_cap :: nat
  it_ptr_cache :: "nat \<Rightarrow> ptr"
  it_ptr_map :: "nat \<Rightarrow> ptr"
  it_ptr_map_cap :: nat
  it_ptr_map_len :: nat

abbreviation it_count :: "intern_state \<Rightarrow> nat" where
  "it_count s \<equiv> length (it_table s)"

definition NY_INTERN_MAP_CAP_INIT :: nat where "NY_INTERN_MAP_CAP_INIT = 8192"
definition NY_INTERN_PTR_CACHE_SLOTS :: nat where "NY_INTERN_PTR_CACHE_SLOTS = 8192"
definition NY_INTERN_PTR_MAP_CAP_INIT :: nat where "NY_INTERN_PTR_MAP_CAP_INIT = 8192"

section \<open>Linear probing\<close>

definition masked :: "nat \<Rightarrow> nat \<Rightarrow> nat" where
  "masked cap x = x AND (cap - 1)"

text \<open>
  The probing loops run until a slot stops them, which a full table never does.
\<close>

partial_function (option) probe :: "(nat \<Rightarrow> bool) \<Rightarrow> nat \<Rightarrow> nat \<Rightarrow> nat option" where
  "probe stop cap idx = (if stop idx then Some idx else probe stop cap (masked cap (idx + 1)))"

section \<open>The set of pointers\<close>

definition ny_intern_ptr_hash :: "ptr \<Rightarrow> u64" where
  "ny_intern_ptr_hash p =
     (let x1 = drop_bit 3 p; x2 = x1 XOR drop_bit 33 x1; x3 = x2 * 0xff51afd7ed558ccd
      in x3 XOR drop_bit 33 x3)"

definition put_free :: "(nat \<Rightarrow> ptr) \<Rightarrow> nat \<Rightarrow> ptr \<Rightarrow> (nat \<Rightarrow> ptr) option" where
  "put_free m cap p =
     map_option (\<lambda>idx. m(idx := p)) (probe (\<lambda>i. m i = 0) cap (masked cap (unat (ny_intern_ptr_hash p))))"

fun ptr_rehash :: "ptr list \<Rightarrow> nat \<Rightarrow> (nat \<Rightarrow> ptr) \<Rightarrow> nat \<Rightarrow> ((nat \<Rightarrow> ptr) \<times> nat) option" where
  "ptr_rehash [] cap m len = Some (m, len)"
| "ptr_rehash (p # ps) cap m len =
     (if p = 0 then ptr_rehash ps cap m len
      else (case put_free m cap p of None \<Rightarrow> None | Some m' \<Rightarrow> ptr_rehash ps cap m' (Suc len)))"

definition ny_intern_ptr_map_resize :: "nat \<Rightarrow> intern_state \<Rightarrow> intern_state option" where
  "ny_intern_ptr_map_resize new_cap s =
     (case ptr_rehash (map (it_ptr_map s) [0..<it_ptr_map_cap s]) new_cap (\<lambda>_. 0) 0 of
        None \<Rightarrow> None
      | Some (m, len) \<Rightarrow>
          Some (s\<lparr>it_ptr_map := m, it_ptr_map_cap := new_cap, it_ptr_map_len := len\<rparr>))"

definition ptr_map_insert :: "ptr \<Rightarrow> intern_state \<Rightarrow> intern_state option" where
  "ptr_map_insert p s =
     (case probe (\<lambda>i. it_ptr_map s i = 0 \<or> it_ptr_map s i = p) (it_ptr_map_cap s)
             (masked (it_ptr_map_cap s) (unat (ny_intern_ptr_hash p))) of
        None \<Rightarrow> None
      | Some idx \<Rightarrow>
          if it_ptr_map s idx = 0
          then Some (s\<lparr>it_ptr_map := (it_ptr_map s)(idx := p), it_ptr_map_len := Suc (it_ptr_map_len s)\<rparr>)
          else Some s)"

definition ny_intern_ptr_map_put :: "ptr \<Rightarrow> intern_state \<Rightarrow> intern_state option" where
  "ny_intern_ptr_map_put p s =
     (if p = 0 then Some s
      else if (it_ptr_map_len s + 1) * 10 > it_ptr_map_cap s * 7
      then Option.bind (ny_intern_ptr_map_resize (it_ptr_map_cap s * 2) s) (ptr_map_insert p)
      else ptr_map_insert p s)"

section \<open>Interning\<close>

text \<open>
  The global state is \<open>None\<close> before \<open>ny_intern_init\<close> and after \<open>ny_intern_cleanup_full\<close>. The addresses
  of the empty string literal and of the copies that \<open>malloc\<close> returns are parameters.
\<close>

definition empty_entry :: "ptr \<Rightarrow> ny_intern_entry" where
  "empty_entry lit = \<lparr>e_str = [], e_ptr = lit, e_len = 0, e_hash = 0\<rparr>"

definition intern_start :: "ptr \<Rightarrow> intern_state" where
  "intern_start lit =
     \<lparr>it_table = [empty_entry lit], it_cap = 4096, it_map = (\<lambda>_. 0), it_map_cap = NY_INTERN_MAP_CAP_INIT,
      it_ptr_cache = (\<lambda>_. 0), it_ptr_map = (\<lambda>_. 0), it_ptr_map_cap = NY_INTERN_PTR_MAP_CAP_INIT,
      it_ptr_map_len = 0\<rparr>"

definition ny_intern_init :: "ptr \<Rightarrow> intern_state option \<Rightarrow> intern_state option option" where
  "ny_intern_init lit g =
     (case g of
        Some s \<Rightarrow> Some (Some s)
      | None \<Rightarrow> map_option Some (ny_intern_ptr_map_put lit (intern_start lit)))"

definition entry_matches :: "intern_state \<Rightarrow> byte_seq \<Rightarrow> u64 \<Rightarrow> nat \<Rightarrow> bool" where
  "entry_matches s str hash entry_id \<longleftrightarrow>
     (let e = it_table s ! entry_id in e_len e = length str \<and> e_hash e = hash \<and> e_str e = str)"

text \<open>The entries are put into the new map in the order of their numbers.\<close>

fun map_rehash :: "ny_intern_entry list \<Rightarrow> nat list \<Rightarrow> nat \<Rightarrow> (nat \<Rightarrow> nat) \<Rightarrow> (nat \<Rightarrow> nat) option" where
  "map_rehash table [] cap m = Some m"
| "map_rehash table (i # is) cap m =
     (case probe (\<lambda>j. m j = 0) cap (masked cap (unat (e_hash (table ! i)))) of
        None \<Rightarrow> None
      | Some ni \<Rightarrow> map_rehash table is cap (m(ni := i mod 2 ^ 32)))"

definition grow_map :: "intern_state \<Rightarrow> intern_state option" where
  "grow_map s =
     (if it_count s * 10 > it_map_cap s * 7 then
        (let cap = it_map_cap s * 2 in
         map_option (\<lambda>m. s\<lparr>it_map := m, it_map_cap := cap\<rparr>)
           (map_rehash (it_table s) [1..<it_count s] cap (\<lambda>_. 0)))
      else Some s)"

definition cache_slot :: "ptr \<Rightarrow> nat" where
  "cache_slot p = masked NY_INTERN_PTR_CACHE_SLOTS (unat (drop_bit 3 p))"

definition intern_new :: "ptr \<Rightarrow> byte_seq \<Rightarrow> u64 \<Rightarrow> nat \<Rightarrow> intern_state \<Rightarrow> (nat \<times> intern_state) option" where
  "intern_new dup str hash idx s =
     (let new_id = it_count s mod 2 ^ 32;
          s1 = s\<lparr>it_cap := (if it_count s \<ge> it_cap s then it_cap s * 2 else it_cap s),
                 it_table := it_table s @ [\<lparr>e_str = str, e_ptr = dup, e_len = length str, e_hash = hash\<rparr>],
                 it_ptr_cache := (it_ptr_cache s)(cache_slot dup := dup)\<rparr>
      in Option.bind (ny_intern_ptr_map_put dup s1)
           (\<lambda>s2. map_option (Pair new_id) (grow_map (s2\<lparr>it_map := (it_map s2)(idx := new_id)\<rparr>))))"

definition intern_in :: "ptr \<Rightarrow> byte_seq \<Rightarrow> intern_state \<Rightarrow> (nat \<times> intern_state) option" where
  "intern_in dup str s =
     (let hash = ny_hash64 str in
      case probe (\<lambda>i. it_map s i = 0 \<or> entry_matches s str hash (it_map s i)) (it_map_cap s)
             (masked (it_map_cap s) (unat hash)) of
        None \<Rightarrow> None
      | Some idx \<Rightarrow>
          if it_map s idx \<noteq> 0 then Some (it_map s idx, s) else intern_new dup str hash idx s)"

definition ny_intern_str ::
  "ptr \<Rightarrow> ptr \<Rightarrow> byte_seq option \<Rightarrow> intern_state option \<Rightarrow> (nat \<times> intern_state option) option" where
  "ny_intern_str lit dup str g =
     (case str of
        None \<Rightarrow> Some (0, g)
      | Some xs \<Rightarrow>
          if xs = [] then Some (0, g)
          else
            (case ny_intern_init lit g of
               None \<Rightarrow> None
             | Some None \<Rightarrow> Some (0, None)
             | Some (Some s) \<Rightarrow> map_option (map_prod id Some) (intern_in dup xs s)))"

definition ny_intern_cstr ::
  "ptr \<Rightarrow> ptr \<Rightarrow> byte_seq option \<Rightarrow> intern_state option \<Rightarrow> (nat \<times> intern_state option) option" where
  "ny_intern_cstr lit dup str g =
     (case str of
        None \<Rightarrow> Some (0, g)
      | Some xs \<Rightarrow> ny_intern_str lit dup (Some (takeWhile (\<lambda>b. b \<noteq> 0) xs)) g)"

definition ny_intern_get :: "intern_state option \<Rightarrow> nat \<Rightarrow> byte_seq" where
  "ny_intern_get g sid =
     (case g of None \<Rightarrow> [] | Some s \<Rightarrow> if sid \<ge> it_count s then [] else e_str (it_table s ! sid))"

definition ny_intern_contains_ptr :: "ptr \<Rightarrow> intern_state option \<Rightarrow> (bool \<times> intern_state option) option" where
  "ny_intern_contains_ptr p g =
     (case g of
        None \<Rightarrow> Some (False, None)
      | Some s \<Rightarrow>
          if p = 0 then Some (False, g)
          else if it_ptr_cache s (cache_slot p) = p then Some (True, g)
          else if it_ptr_map_cap s = 0 then Some (False, g)
          else
            (case probe (\<lambda>i. it_ptr_map s i = 0 \<or> it_ptr_map s i = p) (it_ptr_map_cap s)
                    (masked (it_ptr_map_cap s) (unat (ny_intern_ptr_hash p))) of
               None \<Rightarrow> None
             | Some idx \<Rightarrow>
                 if it_ptr_map s idx = p
                 then Some (True, Some (s\<lparr>it_ptr_cache := (it_ptr_cache s)(cache_slot p := p)\<rparr>))
                 else Some (False, g)))"

definition ny_intern_cleanup_full :: "intern_state option \<Rightarrow> intern_state option" where
  "ny_intern_cleanup_full g = None"

definition ny_intern_cleanup :: "bool \<Rightarrow> intern_state option \<Rightarrow> intern_state option" where
  "ny_intern_cleanup atexit_mode g =
     (case g of None \<Rightarrow> g | Some s \<Rightarrow> if atexit_mode then g else ny_intern_cleanup_full g)"

end
