(* ===== verification/Intern_Correct.thy ===== *)
theory Intern_Correct
  imports Intern
begin

text \<open>
  Correctness of the interner. The probing loops are shown to end because the load limits keep a
  slot free; the hash map then implements an injective numbering of strings, and the pointer set
  answers for exactly the strings handed out. The contract of an interner is a locale that is
  interpreted on the operations of the source.
\<close>

section \<open>Linear probing\<close>

lemma masked_pow: "masked (2 ^ k) x = x mod 2 ^ k"
proof -
  have "masked (2 ^ k) x = x AND mask k"
    by (simp add: masked_def mask_eq_exp_minus_1)
  then show ?thesis
    by (simp add: take_bit_eq_mod flip: take_bit_eq_mask)
qed

definition pow2 :: "nat \<Rightarrow> bool" where
  "pow2 cap \<longleftrightarrow> (\<exists>k. cap = 2 ^ k)"

lemma masked_mod: "pow2 cap \<Longrightarrow> masked cap x = x mod cap"
  by (auto simp: pow2_def masked_pow)

lemma pow2_pos: "pow2 cap \<Longrightarrow> 0 < cap"
  by (auto simp: pow2_def)

lemma pow2_double: "pow2 cap \<Longrightarrow> pow2 (cap * 2)"
  unfolding pow2_def by (metis power_Suc mult.commute)

lemma probe_at:
  assumes "pow2 cap"
  shows "stop ((h + d) mod cap) \<Longrightarrow> (\<And>e. e < d \<Longrightarrow> \<not> stop ((h + e) mod cap)) \<Longrightarrow>
    probe stop cap (h mod cap) = Some ((h + d) mod cap)"
proof (induction d arbitrary: h)
  case 0
  then show ?case
    by (subst probe.simps) simp
next
  case (Suc d)
  have "probe stop cap (Suc h mod cap) = Some ((Suc h + d) mod cap)"
    by (rule Suc.IH) (use Suc.prems(1) Suc.prems(2) [of "Suc _"] in auto)
  moreover have "\<not> stop (h mod cap)"
    using Suc.prems(2) [of 0] by simp
  moreover have "masked cap (h mod cap + 1) = Suc h mod cap"
    by (simp add: masked_mod [OF assms] mod_Suc_eq)
  ultimately show ?case
    by (subst probe.simps) simp
qed

text \<open>The loop ends at the first stopping slot of the cycle.\<close>

lemma probe_first:
  assumes "pow2 cap" "p < cap" "stop p"
  obtains d where "d < cap" "probe stop cap (masked cap h) = Some ((h + d) mod cap)"
    "stop ((h + d) mod cap)" "\<And>e. e < d \<Longrightarrow> \<not> stop ((h + e) mod cap)"
proof -
  have c: "0 < cap"
    by (rule pow2_pos [OF assms(1)])
  let ?d = "(p + cap - h mod cap) mod cap"
  have "(h + ?d) mod cap = (h mod cap + (p + cap - h mod cap)) mod cap"
    by (metis mod_add_left_eq mod_add_right_eq)
  also have "h mod cap + (p + cap - h mod cap) = p + cap"
    using mod_less_divisor [OF c, of h] by linarith
  also have "(p + cap) mod cap = p"
    using assms(2) by simp
  finally have ex: "stop ((h + ?d) mod cap)"
    using assms(3) by simp
  define d where "d = (LEAST d. stop ((h + d) mod cap))"
  have d: "stop ((h + d) mod cap)" "d \<le> ?d" "\<And>e. e < d \<Longrightarrow> \<not> stop ((h + e) mod cap)"
    unfolding d_def using LeastI [of "\<lambda>d. stop ((h + d) mod cap)", OF ex] ex
    by (auto intro: Least_le dest: not_less_Least)
  moreover have "?d < cap"
    using c by simp
  ultimately show ?thesis
    using that [of d] probe_at [OF assms(1), of stop h d] masked_mod [OF assms(1)] by simp
qed

text \<open>
  A table of keys with a home position each: every slot holds a key, every key has one slot, and
  no slot between the home of a key and its slot is free.
\<close>

definition slots_ok :: "nat \<Rightarrow> ('k \<Rightarrow> nat) \<Rightarrow> (nat \<Rightarrow> 'k option) \<Rightarrow> 'k set \<Rightarrow> bool" where
  "slots_ok cap home slot keys \<longleftrightarrow>
     pow2 cap \<and> finite keys \<and>
     (\<forall>p<cap. \<forall>k. slot p = Some k \<longrightarrow> k \<in> keys) \<and>
     (\<forall>p<cap. \<forall>q<cap. slot p \<noteq> None \<longrightarrow> slot p = slot q \<longrightarrow> p = q) \<and>
     (\<forall>k \<in> keys. \<exists>d<cap. slot ((home k + d) mod cap) = Some k \<and> (\<forall>e<d. slot ((home k + e) mod cap) \<noteq> None))"

lemma slots_empty: "pow2 cap \<Longrightarrow> slots_ok cap home (\<lambda>_. None) {}"
  by (simp add: slots_ok_def)

lemma free_slot:
  assumes "slots_ok cap home slot keys" "card keys < cap"
  obtains p where "p < cap" "slot p = None"
proof -
  have "\<not> (\<forall>p<cap. slot p \<noteq> None)"
  proof
    assume full: "\<forall>p<cap. slot p \<noteq> None"
    have "inj_on (\<lambda>p. the (slot p)) {..<cap}"
    proof (rule inj_onI)
      fix p q assume "p \<in> {..<cap}" "q \<in> {..<cap}" "the (slot p) = the (slot q)"
      moreover from this full obtain a b where "slot p = Some a" "slot q = Some b"
        by blast
      ultimately show "p = q"
        using assms(1) by (simp add: slots_ok_def)
    qed
    moreover have "(\<lambda>p. the (slot p)) ` {..<cap} \<subseteq> keys"
      using assms(1) full by (force simp: slots_ok_def)
    moreover have "finite keys"
      using assms(1) by (simp add: slots_ok_def)
    ultimately show False
      using card_inj_on_le [of "\<lambda>p. the (slot p)" "{..<cap}" keys] assms(2) by simp
  qed
  then show ?thesis
    using that by blast
qed

text \<open>Searching for a key that satisfies \<open>P\<close>, all of which have the home \<open>h\<close>.\<close>

lemma probe_lookup:
  assumes t: "slots_ok cap home slot keys" "card keys < cap" and P: "\<And>k. k \<in> keys \<Longrightarrow> P k \<Longrightarrow> home k = h"
  obtains p d where "probe (\<lambda>i. slot i = None \<or> P (the (slot i))) cap (masked cap h) = Some p"
    "p < cap" "d < cap" "p = (h + d) mod cap" "\<And>e. e < d \<Longrightarrow> slot ((h + e) mod cap) \<noteq> None"
    "case slot p of None \<Rightarrow> \<forall>k \<in> keys. \<not> P k | Some k \<Rightarrow> k \<in> keys \<and> P k"
proof -
  let ?stop = "\<lambda>i. slot i = None \<or> P (the (slot i))"
  have pw: "pow2 cap" "0 < cap"
    using t(1) pow2_pos by (auto simp: slots_ok_def)
  obtain p where p: "p < cap" "slot p = None"
    by (rule free_slot [OF t])
  obtain d where d: "d < cap" "probe ?stop cap (masked cap h) = Some ((h + d) mod cap)"
      "?stop ((h + d) mod cap)" "\<And>e. e < d \<Longrightarrow> \<not> ?stop ((h + e) mod cap)"
    by (rule probe_first [OF pw(1) p(1), of ?stop h]) (use p(2) in auto)
  have "case slot ((h + d) mod cap) of None \<Rightarrow> \<forall>k \<in> keys. \<not> P k | Some k \<Rightarrow> k \<in> keys \<and> P k"
  proof (cases "slot ((h + d) mod cap)")
    case (Some k)
    then show ?thesis
      using d(3) t(1) mod_less_divisor [OF pw(2), of "h + d"] by (auto simp: slots_ok_def)
  next
    case None
    have False if k: "k \<in> keys" "P k" for k
    proof -
      obtain d' where d': "d' < cap" "slot ((h + d') mod cap) = Some k" "\<forall>e<d'. slot ((h + e) mod cap) \<noteq> None"
        using t(1) k P by (fastforce simp: slots_ok_def)
      show False
      proof (cases "d' < d")
        case True
        then show False
          using d(4) [OF True] d'(2) k(2) by simp
      next
        case False
        then show False
          using None d'(2,3) by (cases "d = d'") auto
      qed
    qed
    then show ?thesis
      using None by auto
  qed
  then show ?thesis
    using that [OF d(2) _ d(1) refl] d(4) pw(2) by auto
qed

lemma slots_insert:
  assumes t: "slots_ok cap home slot keys" and p: "p < cap" "slot p = None" "d < cap" "p = (home k + d) mod cap"
    and path: "\<And>e. e < d \<Longrightarrow> slot ((home k + e) mod cap) \<noteq> None" and k: "k \<notin> keys"
  shows "slots_ok cap home (slot(p := Some k)) (insert k keys)"
proof -
  have old: "\<exists>d<cap. (slot(p := Some k)) ((home x + d) mod cap) = Some x \<and>
      (\<forall>e<d. (slot(p := Some k)) ((home x + e) mod cap) \<noteq> None)" if x: "x \<in> keys" for x
  proof -
    obtain d' where d': "d' < cap" "slot ((home x + d') mod cap) = Some x" "\<forall>e<d'. slot ((home x + e) mod cap) \<noteq> None"
      using t x by (auto simp: slots_ok_def)
    then have "(home x + d') mod cap \<noteq> p"
      using p(2) by auto
    then show ?thesis
      using d' by (intro exI [of _ d']) auto
  qed
  have new: "\<exists>d<cap. (slot(p := Some k)) ((home k + d) mod cap) = Some k \<and>
      (\<forall>e<d. (slot(p := Some k)) ((home k + e) mod cap) \<noteq> None)"
    using p(3,4) path by (intro exI [of _ d]) auto
  have inj: "q = r" if qr: "q < cap" "r < cap" "(slot(p := Some k)) q \<noteq> None" "(slot(p := Some k)) q = (slot(p := Some k)) r" for q r
  proof -
    have "slot x \<noteq> Some k" if "x < cap" for x
      using t k that by (auto simp: slots_ok_def)
    then show ?thesis
      using qr t by (cases "q = p"; cases "r = p") (auto simp: slots_ok_def)
  qed
  have keys: "x \<in> insert k keys" if "q < cap" "(slot(p := Some k)) q = Some x" for q x
    using that t by (cases "q = p") (auto simp: slots_ok_def)
  show ?thesis
    unfolding slots_ok_def
  proof (intro conjI)
    show "\<forall>x\<in>insert k keys. \<exists>d<cap. (slot(p := Some k)) ((home x + d) mod cap) = Some x \<and>
        (\<forall>e<d. (slot(p := Some k)) ((home x + e) mod cap) \<noteq> None)"
      using old new by blast
  qed (use t inj keys in \<open>auto simp: slots_ok_def simp del: fun_upd_apply\<close>)
qed

section \<open>Arrays in which zero marks a free slot\<close>

definition nz :: "(nat \<Rightarrow> 'a::zero) \<Rightarrow> nat \<Rightarrow> 'a option" where
  "nz m i = (if m i = 0 then None else Some (m i))"

lemma nz_upd: "k \<noteq> 0 \<Longrightarrow> nz (m(p := k)) = (nz m)(p := Some k)"
  by (auto simp: nz_def)

lemma slots_home_cong:
  assumes "\<And>k. k \<in> keys \<Longrightarrow> home k = home' k" "slots_ok cap home slot keys"
  shows "slots_ok cap home' slot keys"
  using assms unfolding slots_ok_def by (metis (no_types, lifting))

lemma find_key:
  assumes t: "slots_ok cap home (nz m) keys" "card keys < cap" and P: "\<And>k. k \<in> keys \<Longrightarrow> P k \<Longrightarrow> home k = h"
  obtains p where "probe (\<lambda>i. m i = 0 \<or> P (m i)) cap (masked cap h) = Some p"
    "m p \<noteq> 0 \<Longrightarrow> m p \<in> keys \<and> P (m p)"
    "m p = 0 \<Longrightarrow> (\<forall>k \<in> keys. \<not> P k)"
    "\<And>k. m p = 0 \<Longrightarrow> k \<notin> keys \<Longrightarrow> k \<noteq> 0 \<Longrightarrow> home k = h \<Longrightarrow> slots_ok cap home (nz (m(p := k))) (insert k keys)"
proof -
  have stop: "(\<lambda>i. m i = 0 \<or> P (m i)) = (\<lambda>i. nz m i = None \<or> P (the (nz m i)))"
    by (auto simp: nz_def)
  obtain p d where p: "probe (\<lambda>i. nz m i = None \<or> P (the (nz m i))) cap (masked cap h) = Some p"
      "p < cap" "d < cap" "p = (h + d) mod cap" "\<And>e. e < d \<Longrightarrow> nz m ((h + e) mod cap) \<noteq> None"
      "case nz m p of None \<Rightarrow> \<forall>k \<in> keys. \<not> P k | Some k \<Rightarrow> k \<in> keys \<and> P k"
    by (rule probe_lookup [where P = P and h = h, OF t P]) (assumption, assumption, blast)
  show ?thesis
  proof (rule that [of p])
    fix k assume "m p = 0" "k \<notin> keys" "k \<noteq> 0" "home k = h"
    then show "slots_ok cap home (nz (m(p := k))) (insert k keys)"
      using p slots_insert [OF t(1), of p d k] by (simp add: nz_upd nz_def)
  qed (use p in \<open>auto simp: stop nz_def\<close>)
qed

lemma put_new:
  assumes "slots_ok cap home (nz m) keys" "card keys < cap" "k \<notin> keys" "k \<noteq> 0"
  obtains p where "probe (\<lambda>i. m i = 0) cap (masked cap (home k)) = Some p"
    "slots_ok cap home (nz (m(p := k))) (insert k keys)"
proof (rule find_key [OF assms(1,2), of "\<lambda>_. False" "home k"])
  fix p assume p: "probe (\<lambda>i. m i = 0 \<or> False) cap (masked cap (home k)) = Some p"
    "m p \<noteq> 0 \<Longrightarrow> m p \<in> keys \<and> False"
    "\<And>k'. m p = 0 \<Longrightarrow> k' \<notin> keys \<Longrightarrow> k' \<noteq> 0 \<Longrightarrow> home k' = home k \<Longrightarrow>
       slots_ok cap home (nz (m(p := k'))) (insert k' keys)"
  then show ?thesis
    using that [of p] assms(3,4) by auto
qed simp

lemma map_rehash_ok:
  assumes "slots_ok cap (\<lambda>i. unat (e_hash (table ! i))) (nz m) keys" "distinct is" "set is \<inter> keys = {}" "0 \<notin> set is"
    "card keys + length is < cap" "\<forall>i \<in> set is. i < 2 ^ 32"
  shows "\<exists>m'. map_rehash table is cap m = Some m' \<and>
    slots_ok cap (\<lambda>i. unat (e_hash (table ! i))) (nz m') (keys \<union> set is)"
  using assms
proof (induction "is" arbitrary: m keys)
  case (Cons i "is")
  obtain p where p: "probe (\<lambda>j. m j = 0) cap (masked cap (unat (e_hash (table ! i)))) = Some p"
      "slots_ok cap (\<lambda>i. unat (e_hash (table ! i))) (nz (m(p := i))) (insert i keys)"
    by (rule put_new [OF Cons.prems(1), of i]) (use Cons.prems in auto)
  have "finite keys"
    using Cons.prems(1) by (simp add: slots_ok_def)
  then have "\<exists>m'. map_rehash table is cap (m(p := i)) = Some m' \<and>
      slots_ok cap (\<lambda>i. unat (e_hash (table ! i))) (nz m') (insert i keys \<union> set is)"
    by (intro Cons.IH [OF p(2)]) (use Cons.prems in auto)
  then show ?case
    using Cons.prems(6) p(1) by simp
qed simp

lemma ptr_rehash_ok:
  assumes "slots_ok cap (\<lambda>p. unat (ny_intern_ptr_hash p)) (nz m) keys" "distinct (filter (\<lambda>p. p \<noteq> 0) ps)"
    "set ps \<inter> keys = {}" "card keys + length (filter (\<lambda>p. p \<noteq> 0) ps) < cap"
  shows "\<exists>m'. ptr_rehash ps cap m n = Some (m', n + length (filter (\<lambda>p. p \<noteq> 0) ps)) \<and>
    slots_ok cap (\<lambda>p. unat (ny_intern_ptr_hash p)) (nz m') (keys \<union> (set ps - {0}))"
  using assms
proof (induction ps arbitrary: m keys n)
  case (Cons q ps)
  show ?case
  proof (cases "q = 0")
    case True
    then show ?thesis
      using Cons by auto
  next
    case False
    obtain p where p: "probe (\<lambda>j. m j = 0) cap (masked cap (unat (ny_intern_ptr_hash q))) = Some p"
        "slots_ok cap (\<lambda>p. unat (ny_intern_ptr_hash p)) (nz (m(p := q))) (insert q keys)"
      by (rule put_new [OF Cons.prems(1), of q]) (use Cons.prems False in auto)
    have "finite keys"
      using Cons.prems(1) by (simp add: slots_ok_def)
    then have "\<exists>m'. ptr_rehash ps cap (m(p := q)) (Suc n) = Some (m', Suc n + length (filter (\<lambda>p. p \<noteq> 0) ps)) \<and>
        slots_ok cap (\<lambda>p. unat (ny_intern_ptr_hash p)) (nz m') (insert q keys \<union> (set ps - {0}))"
      by (intro Cons.IH [OF p(2)]) (use Cons.prems False in auto)
    then show ?thesis
      using p(1) False by (simp add: put_free_def insert_Diff_if)
  qed
qed simp

text \<open>The non-free slots of an array are its keys, once each.\<close>

lemma slots_listed:
  assumes t: "slots_ok cap home (nz m) keys" and z: "0 \<notin> keys"
  shows "set (map m [0..<cap]) - {0} = keys" "distinct (filter (\<lambda>p. p \<noteq> 0) (map m [0..<cap]))"
    "length (filter (\<lambda>p. p \<noteq> 0) (map m [0..<cap])) = card keys"
proof -
  have sub: "m p \<in> keys" if "p < cap" "m p \<noteq> 0" for p
    using t that by (simp add: slots_ok_def nz_def)
  have c: "0 < cap"
    using t pow2_pos by (simp add: slots_ok_def)
  have sup: "\<exists>p<cap. m p = k" if "k \<in> keys" for k
  proof -
    obtain d where "nz m ((home k + d) mod cap) = Some k"
      using t \<open>k \<in> keys\<close> by (fastforce simp: slots_ok_def)
    then show ?thesis
      using mod_less_divisor [OF c, of "home k + d"] by (auto simp: nz_def split: if_splits)
  qed
  show 1: "set (map m [0..<cap]) - {0} = keys"
  proof
    show "keys \<subseteq> set (map m [0..<cap]) - {0}"
      using sup z by fastforce
  qed (use sub in force)
  have "inj_on m (set (filter (\<lambda>p. m p \<noteq> 0) [0..<cap]))"
  proof (rule inj_onI)
    fix p q assume pq: "p \<in> set (filter (\<lambda>p. m p \<noteq> 0) [0..<cap])" "q \<in> set (filter (\<lambda>p. m p \<noteq> 0) [0..<cap])" "m p = m q"
    then have "nz m p = nz m q" "nz m p \<noteq> None" "p < cap" "q < cap"
      by (auto simp: nz_def)
    then show "p = q"
      using t unfolding slots_ok_def by blast
  qed
  then show 2: "distinct (filter (\<lambda>p. p \<noteq> 0) (map m [0..<cap]))"
    by (simp add: filter_map comp_def distinct_map)
  show "length (filter (\<lambda>p. p \<noteq> 0) (map m [0..<cap])) = card keys"
    using distinct_card [OF 2] 1 by (simp add: set_diff_eq)
qed


section \<open>The invariant of the interner\<close>

abbreviation it_strings :: "intern_state \<Rightarrow> byte_seq list" where
  "it_strings s \<equiv> map e_str (it_table s)"

abbreviation it_ptrs :: "intern_state \<Rightarrow> ptr set" where
  "it_ptrs s \<equiv> e_ptr ` set (it_table s)"

definition entry_ok :: "ny_intern_entry \<Rightarrow> bool" where
  "entry_ok e \<longleftrightarrow> e_str e \<noteq> [] \<and> e_ptr e \<noteq> 0 \<and> e_len e = length (e_str e) \<and> e_hash e = ny_hash64 (e_str e)"

definition table_ok :: "ny_intern_entry list \<Rightarrow> bool" where
  "table_ok t \<longleftrightarrow>
     (\<exists>lit es. t = empty_entry lit # es \<and> lit \<noteq> 0 \<and> list_all entry_ok es \<and> distinct (map e_str es)) \<and>
     length t \<le> 2 ^ 32"

definition map_ok :: "intern_state \<Rightarrow> bool" where
  "map_ok s \<longleftrightarrow>
     slots_ok (it_map_cap s) (\<lambda>i. unat (e_hash (it_table s ! i))) (nz (it_map s)) {1..<it_count s} \<and>
     it_count s * 10 \<le> it_map_cap s * 7"

definition ptr_map_ok :: "ptr set \<Rightarrow> intern_state \<Rightarrow> bool" where
  "ptr_map_ok P s \<longleftrightarrow>
     slots_ok (it_ptr_map_cap s) (\<lambda>p. unat (ny_intern_ptr_hash p)) (nz (it_ptr_map s)) P \<and>
     it_ptr_map_len s = card P \<and> card P * 10 \<le> it_ptr_map_cap s * 7"

definition intern_inv :: "intern_state \<Rightarrow> bool" where
  "intern_inv s \<longleftrightarrow>
     table_ok (it_table s) \<and> it_count s \<le> it_cap s \<and> map_ok s \<and> ptr_map_ok (it_ptrs s) s \<and>
     (\<forall>i. it_ptr_cache s i = 0 \<or> it_ptr_cache s i \<in> it_ptrs s)"

lemma table_ok_ptrs: "table_ok t \<Longrightarrow> 0 \<notin> e_ptr ` set t"
  by (auto simp: table_ok_def entry_ok_def empty_entry_def list_all_iff)

lemma table_ok_strings: "table_ok t \<Longrightarrow> distinct (map e_str t) \<and> map e_str t \<noteq> [] \<and> map e_str t ! 0 = []"
  by (fastforce simp: table_ok_def entry_ok_def empty_entry_def list_all_iff)

lemma table_ok_nth: "table_ok t \<Longrightarrow> 0 < i \<Longrightarrow> i < length t \<Longrightarrow> entry_ok (t ! i)"
  by (auto simp: table_ok_def list_all_length nth_Cons split: nat.splits)

lemma table_ok_snoc:
  assumes "table_ok t" "entry_ok e" "e_str e \<notin> set (map e_str t)" "length t < 2 ^ 32"
  shows "table_ok (t @ [e])"
  using assms by (auto simp: table_ok_def)

section \<open>The set of pointers\<close>

lemma load_slack: "pow2 cap \<Longrightarrow> n * 10 \<le> cap * 7 \<Longrightarrow> n < cap"
  using pow2_pos [of cap] by linarith

lemma ptr_map_resize_ok:
  assumes "ptr_map_ok P s" "0 \<notin> P"
  shows "\<exists>m. ny_intern_ptr_map_resize (it_ptr_map_cap s * 2) s =
      Some (s\<lparr>it_ptr_map := m, it_ptr_map_cap := it_ptr_map_cap s * 2, it_ptr_map_len := card P\<rparr>) \<and>
    slots_ok (it_ptr_map_cap s * 2) (\<lambda>p. unat (ny_intern_ptr_hash p)) (nz m) P"
proof -
  let ?ps = "map (it_ptr_map s) [0..<it_ptr_map_cap s]" and ?h = "\<lambda>p. unat (ny_intern_ptr_hash p)"
  have t: "slots_ok (it_ptr_map_cap s) ?h (nz (it_ptr_map s)) P" "card P * 10 \<le> it_ptr_map_cap s * 7"
    using assms(1) by (simp_all add: ptr_map_ok_def)
  have pw: "pow2 (it_ptr_map_cap s)"
    using t(1) by (simp add: slots_ok_def)
  note l = slots_listed [OF t(1) assms(2)]
  have e: "slots_ok (it_ptr_map_cap s * 2) ?h (nz (\<lambda>_. 0)) {}"
    using slots_empty [OF pow2_double [OF pw]] by (simp add: nz_def [abs_def])
  have "card ({} :: ptr set) + length (filter (\<lambda>p. p \<noteq> 0) ?ps) < it_ptr_map_cap s * 2"
    using l(3) load_slack [OF pw t(2)] by simp
  then have "\<exists>m'. ptr_rehash ?ps (it_ptr_map_cap s * 2) (\<lambda>_. 0) 0 =
        Some (m', 0 + length (filter (\<lambda>p. p \<noteq> 0) ?ps)) \<and>
      slots_ok (it_ptr_map_cap s * 2) ?h (nz m') ({} \<union> (set ?ps - {0}))"
    by (intro ptr_rehash_ok [OF e l(2)]) simp_all
  then show ?thesis
    unfolding l(1,3) by (auto simp: ny_intern_ptr_map_resize_def)
qed

lemma ptr_map_insert_ok:
  assumes "slots_ok (it_ptr_map_cap s) (\<lambda>p. unat (ny_intern_ptr_hash p)) (nz (it_ptr_map s)) P"
    "it_ptr_map_len s = card P" "(card P + 1) * 10 \<le> it_ptr_map_cap s * 7" "p \<noteq> 0" "0 \<notin> P"
  shows "\<exists>m n. ptr_map_insert p s = Some (s\<lparr>it_ptr_map := m, it_ptr_map_len := n\<rparr>) \<and>
    ptr_map_ok (insert p P) (s\<lparr>it_ptr_map := m, it_ptr_map_len := n\<rparr>)"
proof -
  let ?m = "it_ptr_map s" and ?cap = "it_ptr_map_cap s" and ?h = "\<lambda>p. unat (ny_intern_ptr_hash p)"
  have f: "finite P" and pw: "pow2 ?cap"
    using assms(1) by (simp_all add: slots_ok_def)
  have "card P < ?cap"
    using load_slack [OF pw assms(3)] by simp
  then obtain i where i: "probe (\<lambda>i. ?m i = 0 \<or> ?m i = p) ?cap (masked ?cap (?h p)) = Some i"
      "?m i \<noteq> 0 \<Longrightarrow> ?m i \<in> P \<and> ?m i = p" "?m i = 0 \<Longrightarrow> (\<forall>k\<in>P. k \<noteq> p)"
      "\<And>k. ?m i = 0 \<Longrightarrow> k \<notin> P \<Longrightarrow> k \<noteq> 0 \<Longrightarrow> ?h k = ?h p \<Longrightarrow> slots_ok ?cap ?h (nz (?m(i := k))) (insert k P)"
    by (rule find_key [OF assms(1), of "\<lambda>k. k = p" "?h p"]) auto
  show ?thesis
  proof (cases "?m i = 0")
    case True
    then have "p \<notin> P"
      using i(3) by blast
    then show ?thesis
      using True i(1) i(4) [OF True] assms f
      by (intro exI [of _ "?m(i := p)"] exI [of _ "Suc (card P)"]) (simp add: ptr_map_insert_def ptr_map_ok_def)
  next
    case False
    then have "insert p P = P"
      using i(2) by auto
    then show ?thesis
      using False i(1) assms
      by (intro exI [of _ ?m] exI [of _ "card P"]) (simp add: ptr_map_insert_def ptr_map_ok_def)
  qed
qed

lemma load_room:
  fixes n c :: nat
  assumes "n * 10 \<le> c * 7 + 10" "0 < c"
  shows "n * 10 \<le> c * 2 * 7"
proof (cases "c = 1")
  case True
  then have "n \<le> 1"
    using assms(1) by simp
  then show ?thesis
    using True by simp
qed (use assms in linarith)

lemma ptr_map_put_ok:
  assumes "ptr_map_ok P s" "p \<noteq> 0" "0 \<notin> P"
  shows "\<exists>m c n. ny_intern_ptr_map_put p s = Some (s\<lparr>it_ptr_map := m, it_ptr_map_cap := c, it_ptr_map_len := n\<rparr>) \<and>
    ptr_map_ok (insert p P) (s\<lparr>it_ptr_map := m, it_ptr_map_cap := c, it_ptr_map_len := n\<rparr>)"
proof (cases "(it_ptr_map_len s + 1) * 10 > it_ptr_map_cap s * 7")
  case True
  obtain m where m: "ny_intern_ptr_map_resize (it_ptr_map_cap s * 2) s =
        Some (s\<lparr>it_ptr_map := m, it_ptr_map_cap := it_ptr_map_cap s * 2, it_ptr_map_len := card P\<rparr>)"
      "slots_ok (it_ptr_map_cap s * 2) (\<lambda>p. unat (ny_intern_ptr_hash p)) (nz m) P"
    using ptr_map_resize_ok [OF assms(1,3)] by blast
  let ?s = "s\<lparr>it_ptr_map := m, it_ptr_map_cap := it_ptr_map_cap s * 2, it_ptr_map_len := card P\<rparr>"
  have "(card P + 1) * 10 \<le> it_ptr_map_cap s * 2 * 7"
  proof -
    have "card P * 10 \<le> it_ptr_map_cap s * 7" "0 < it_ptr_map_cap s"
      using assms(1) pow2_pos by (auto simp: ptr_map_ok_def slots_ok_def)
    then show ?thesis
      by (intro load_room) simp_all
  qed
  then obtain m' n where "ptr_map_insert p ?s = Some (?s\<lparr>it_ptr_map := m', it_ptr_map_len := n\<rparr>)"
      "ptr_map_ok (insert p P) (?s\<lparr>it_ptr_map := m', it_ptr_map_len := n\<rparr>)"
    using ptr_map_insert_ok [of ?s P p] m(2) assms(2,3) by auto
  moreover have "?s\<lparr>it_ptr_map := m', it_ptr_map_len := n\<rparr> =
      s\<lparr>it_ptr_map := m', it_ptr_map_cap := it_ptr_map_cap s * 2, it_ptr_map_len := n\<rparr>"
    by simp
  moreover have "ny_intern_ptr_map_put p s = ptr_map_insert p ?s"
    using True m(1) assms(2) by (simp add: ny_intern_ptr_map_put_def)
  ultimately show ?thesis
    by metis
next
  case False
  then obtain m n where "ptr_map_insert p s = Some (s\<lparr>it_ptr_map := m, it_ptr_map_len := n\<rparr>)"
      "ptr_map_ok (insert p P) (s\<lparr>it_ptr_map := m, it_ptr_map_len := n\<rparr>)"
    using ptr_map_insert_ok [of s P p] assms by (auto simp: ptr_map_ok_def)
  moreover have "s\<lparr>it_ptr_map := m, it_ptr_map_len := n\<rparr> =
      s\<lparr>it_ptr_map := m, it_ptr_map_cap := it_ptr_map_cap s, it_ptr_map_len := n\<rparr>"
    by simp
  moreover have "ny_intern_ptr_map_put p s = ptr_map_insert p s"
    using False assms(2) by (simp add: ny_intern_ptr_map_put_def)
  ultimately show ?thesis
    by metis
qed


section \<open>Interning\<close>

lemma matches_iff:
  assumes "table_ok (it_table s)" "i \<in> {1..<it_count s}"
  shows "entry_matches s str (ny_hash64 str) i \<longleftrightarrow> it_strings s ! i = str"
  using table_ok_nth [OF assms(1), of i] assms(2) by (auto simp: entry_matches_def entry_ok_def Let_def)

lemma grow_map_ok:
  assumes "slots_ok (it_map_cap s) (\<lambda>i. unat (e_hash (it_table s ! i))) (nz (it_map s)) {1..<it_count s}"
    "it_count s * 10 \<le> it_map_cap s * 7 + 10" "it_count s \<le> 2 ^ 32"
  shows "\<exists>m c. grow_map s = Some (s\<lparr>it_map := m, it_map_cap := c\<rparr>) \<and> map_ok (s\<lparr>it_map := m, it_map_cap := c\<rparr>)"
proof (cases "it_count s * 10 > it_map_cap s * 7")
  case True
  have pw: "pow2 (it_map_cap s)"
    using assms(1) by (simp add: slots_ok_def)
  let ?h = "\<lambda>i. unat (e_hash (it_table s ! i))"
  have e: "slots_ok (it_map_cap s * 2) ?h (nz (\<lambda>_. 0)) {}"
    using slots_empty [OF pow2_double [OF pw]] by (simp add: nz_def [abs_def])
  have le: "it_count s * 10 \<le> it_map_cap s * 2 * 7"
    using assms(2) pow2_pos [OF pw] by (rule load_room)
  have "it_count s < it_map_cap s * 2"
    using le pow2_pos [OF pw] by linarith
  then have "\<exists>m'. map_rehash (it_table s) [1..<it_count s] (it_map_cap s * 2) (\<lambda>_. 0) = Some m' \<and>
      slots_ok (it_map_cap s * 2) ?h (nz m') ({} \<union> set [1..<it_count s])"
    by (intro map_rehash_ok [OF e]) (use assms(3) in auto)
  then obtain m' where "map_rehash (it_table s) [1..<it_count s] (it_map_cap s * 2) (\<lambda>_. 0) = Some m'"
      "slots_ok (it_map_cap s * 2) ?h (nz m') {1..<it_count s}"
    by auto
  then show ?thesis
    using True le by (intro exI [of _ m'] exI [of _ "it_map_cap s * 2"]) (simp add: grow_map_def map_ok_def)
next
  case False
  then show ?thesis
    using assms(1) by (intro exI [of _ "it_map s"] exI [of _ "it_map_cap s"]) (simp add: grow_map_def map_ok_def)
qed

lemma intern_new_ok:
  assumes inv: "intern_inv s" and new: "str \<noteq> []" "str \<notin> set (it_strings s)" "dup \<noteq> 0" "it_count s < 2 ^ 32"
    and slot: "\<And>home k. \<lbrakk>\<And>i. i \<in> {1..<it_count s} \<Longrightarrow> home i = unat (e_hash (it_table s ! i));
        k \<notin> {1..<it_count s}; k \<noteq> 0; home k = unat (ny_hash64 str)\<rbrakk> \<Longrightarrow>
      slots_ok (it_map_cap s) home (nz ((it_map s)(idx := k))) (insert k {1..<it_count s})"
  shows "\<exists>s'. intern_new dup str (ny_hash64 str) idx s = Some (it_count s, s') \<and> intern_inv s' \<and>
    it_strings s' = it_strings s @ [str] \<and> it_ptrs s' = insert dup (it_ptrs s)"
proof -
  let ?e = "\<lparr>e_str = str, e_ptr = dup, e_len = length str, e_hash = ny_hash64 str\<rparr>"
  let ?t = "it_table s @ [?e]"
  define s1 where "s1 = s\<lparr>it_cap := (if it_count s \<ge> it_cap s then it_cap s * 2 else it_cap s),
      it_table := ?t, it_ptr_cache := (it_ptr_cache s)(cache_slot dup := dup)\<rparr>"
  have t: "table_ok (it_table s)" "0 < it_count s"
    using inv by (auto simp: intern_inv_def table_ok_def)
  have "ptr_map_ok (it_ptrs s) s1"
    using inv by (simp add: intern_inv_def ptr_map_ok_def s1_def)
  from ptr_map_put_ok [OF this new(3) table_ok_ptrs [OF t(1)]]
  obtain pm pc pn where put: "ny_intern_ptr_map_put dup s1 =
        Some (s1\<lparr>it_ptr_map := pm, it_ptr_map_cap := pc, it_ptr_map_len := pn\<rparr>)"
      "ptr_map_ok (insert dup (it_ptrs s)) (s1\<lparr>it_ptr_map := pm, it_ptr_map_cap := pc, it_ptr_map_len := pn\<rparr>)"
    by blast
  define s2 where "s2 = s1\<lparr>it_ptr_map := pm, it_ptr_map_cap := pc, it_ptr_map_len := pn,
      it_map := (it_map s)(idx := it_count s)\<rparr>"
  have keys: "insert (it_count s) {1..<it_count s} = {1..<Suc (it_count s)}"
    using Suc_leI [OF t(2)] by (simp only: atLeastLessThanSuc One_nat_def if_True)
  have "slots_ok (it_map_cap s2) (\<lambda>i. unat (e_hash (it_table s2 ! i))) (nz (it_map s2)) {1..<it_count s2}"
    using slot [of "\<lambda>i. unat (e_hash (?t ! i))" "it_count s"] t(2)
    by (simp add: s2_def s1_def nth_append keys [simplified])
  moreover have "it_count s2 * 10 \<le> it_map_cap s2 * 7 + 10" "it_count s2 \<le> 2 ^ 32"
    using inv new(4) by (simp_all add: s2_def s1_def intern_inv_def map_ok_def)
  ultimately obtain m c where g: "grow_map s2 = Some (s2\<lparr>it_map := m, it_map_cap := c\<rparr>)"
      "map_ok (s2\<lparr>it_map := m, it_map_cap := c\<rparr>)"
    using grow_map_ok [of s2] by blast
  have "intern_new dup str (ny_hash64 str) idx s = Some (it_count s, s2\<lparr>it_map := m, it_map_cap := c\<rparr>)"
    using put(1) g(1) new(4) by (simp add: intern_new_def Let_def s2_def s1_def)
  moreover have "table_ok ?t"
    by (rule table_ok_snoc [OF t(1)]) (use new in \<open>auto simp: entry_ok_def\<close>)
  then have "intern_inv (s2\<lparr>it_map := m, it_map_cap := c\<rparr>)"
    using inv put(2) g(2) new Suc_leI [OF t(2)]
    by (auto simp: intern_inv_def s2_def s1_def ptr_map_ok_def)
  ultimately show ?thesis
    by (intro exI [of _ "s2\<lparr>it_map := m, it_map_cap := c\<rparr>"]) (simp add: s2_def s1_def)
qed

lemma find_key_home:
  assumes t: "slots_ok cap home (nz m) keys" "card keys < cap" and P: "\<And>k. k \<in> keys \<Longrightarrow> P k \<Longrightarrow> home k = h"
  obtains p where "probe (\<lambda>i. m i = 0 \<or> P (m i)) cap (masked cap h) = Some p"
    "m p \<noteq> 0 \<Longrightarrow> m p \<in> keys \<and> P (m p)"
    "m p = 0 \<Longrightarrow> (\<forall>k \<in> keys. \<not> P k)"
    "\<And>home' k. \<lbrakk>m p = 0; \<And>i. i \<in> keys \<Longrightarrow> home' i = home i; k \<notin> keys; k \<noteq> 0; home' k = h\<rbrakk> \<Longrightarrow>
      slots_ok cap home' (nz (m(p := k))) (insert k keys)"
proof (rule find_key [where P = P, OF t P])
  fix p assume p: "probe (\<lambda>i. m i = 0 \<or> P (m i)) cap (masked cap h) = Some p"
    "m p \<noteq> 0 \<Longrightarrow> m p \<in> keys \<and> P (m p)" "m p = 0 \<Longrightarrow> (\<forall>k \<in> keys. \<not> P k)"
  show ?thesis
  proof (rule that [OF p])
    fix home' k
    assume z: "m p = 0" and h: "\<And>i. i \<in> keys \<Longrightarrow> home' i = home i" and k: "k \<notin> keys" "k \<noteq> 0" "home' k = h"
    have t': "slots_ok cap home' (nz m) keys"
      by (rule slots_home_cong [OF _ t(1)]) (simp add: h)
    obtain q where q: "probe (\<lambda>i. m i = 0 \<or> P (m i)) cap (masked cap h) = Some q"
        "\<And>k. m q = 0 \<Longrightarrow> k \<notin> keys \<Longrightarrow> k \<noteq> 0 \<Longrightarrow> home' k = h \<Longrightarrow> slots_ok cap home' (nz (m(q := k))) (insert k keys)"
      by (rule find_key [where P = P and h = h, OF t' t(2)]) (use P h in auto)
    then show "slots_ok cap home' (nz (m(p := k))) (insert k keys)"
      using p(1) z k by simp
  qed
qed

lemma intern_in_ok:
  assumes inv: "intern_inv s" and str: "str \<noteq> []" "dup \<noteq> 0" "it_count s < 2 ^ 32"
  shows "\<exists>i s'. intern_in dup str s = Some (i, s') \<and> intern_inv s' \<and> i < it_count s' \<and> it_strings s' ! i = str \<and>
    (if str \<in> set (it_strings s) then s' = s
     else it_strings s' = it_strings s @ [str] \<and> it_ptrs s' = insert dup (it_ptrs s))"
proof -
  have t: "table_ok (it_table s)" and mo: "map_ok s"
    using inv by (auto simp: intern_inv_def)
  let ?m = "it_map s" and ?cap = "it_map_cap s" and ?keys = "{1..<it_count s}"
  let ?P = "entry_matches s str (ny_hash64 str)"
  have sl: "slots_ok ?cap (\<lambda>i. unat (e_hash (it_table s ! i))) (nz ?m) ?keys" "card ?keys < ?cap"
    using mo load_slack [of ?cap "it_count s"] by (auto simp: map_ok_def slots_ok_def)
  have iff: "?P i \<longleftrightarrow> it_strings s ! i = str" if "i \<in> ?keys" for i
    by (rule matches_iff [OF t that])
  have mem: "str \<in> set (it_strings s) \<longleftrightarrow> (\<exists>i \<in> ?keys. it_strings s ! i = str)"
  proof -
    have "it_strings s ! 0 = []"
      using table_ok_strings [OF t] by simp
    then show ?thesis
      using str(1) unfolding in_set_conv_nth by (metis atLeastLessThan_iff length_map not_less_eq_eq less_one One_nat_def linorder_not_le)
  qed
  have hm: "unat (e_hash (it_table s ! k)) = unat (ny_hash64 str)" if "?P k" for k
    using that by (simp add: entry_matches_def Let_def)
  show ?thesis
  proof (rule find_key_home [where P = ?P and h = "unat (ny_hash64 str)", OF sl hm])
    fix p assume p: "probe (\<lambda>i. ?m i = 0 \<or> ?P (?m i)) ?cap (masked ?cap (unat (ny_hash64 str))) = Some p"
      "?m p \<noteq> 0 \<Longrightarrow> ?m p \<in> ?keys \<and> ?P (?m p)" "?m p = 0 \<Longrightarrow> (\<forall>k \<in> ?keys. \<not> ?P k)"
      "\<And>home k. ?m p = 0 \<Longrightarrow> (\<And>i. i \<in> ?keys \<Longrightarrow> home i = unat (e_hash (it_table s ! i))) \<Longrightarrow> k \<notin> ?keys \<Longrightarrow> k \<noteq> 0 \<Longrightarrow>
         home k = unat (ny_hash64 str) \<Longrightarrow> slots_ok ?cap home (nz (?m(p := k))) (insert k ?keys)"
    show ?thesis
    proof (cases "?m p = 0")
      case True
      then have new: "str \<notin> set (it_strings s)"
        using p(3) iff mem by blast
      obtain s' where s': "intern_new dup str (ny_hash64 str) p s = Some (it_count s, s')" "intern_inv s'"
          "it_strings s' = it_strings s @ [str]" "it_ptrs s' = insert dup (it_ptrs s)"
        using intern_new_ok [OF inv str(1) new str(2,3), of p] p(4) [OF True] by blast
      have "it_count s' = Suc (it_count s)"
        using arg_cong [OF s'(3), of length] by simp
      then show ?thesis
        using s' new p(1) True
        by (intro exI [of _ "it_count s"] exI [of _ s']) (simp add: intern_in_def Let_def nth_append)
    next
      case False
      then have "?m p \<in> ?keys" "it_strings s ! ?m p = str"
        using p(2) iff by blast+
      moreover from this have "str \<in> set (it_strings s)"
        using mem by blast
      ultimately show ?thesis
        using p(1) False inv
        by (intro exI [of _ "?m p"] exI [of _ s]) (simp add: intern_in_def Let_def)
    qed
  qed
qed


section \<open>The interface of an interner\<close>

text \<open>
  The abstract interner is the list of the strings seen so far, the empty string first; the number
  of a string is its position.
\<close>

definition spec_add :: "byte_seq \<Rightarrow> byte_seq list \<Rightarrow> byte_seq list" where
  "spec_add x xs = (if x \<in> set xs then xs else xs @ [x])"

definition spec_get :: "byte_seq list \<Rightarrow> nat \<Rightarrow> byte_seq" where
  "spec_get xs i = (if i < length xs then xs ! i else [])"

fun intern_seq :: "('p \<Rightarrow> byte_seq \<Rightarrow> 's \<Rightarrow> (nat \<times> 's) option) \<Rightarrow> ('p \<times> byte_seq) list \<Rightarrow> 's \<Rightarrow> (nat list \<times> 's) option" where
  "intern_seq intern [] s = Some ([], s)"
| "intern_seq intern ((p, x) # xs) s =
     (case intern p x s of
        None \<Rightarrow> None
      | Some (i, s') \<Rightarrow> map_option (map_prod ((#) i) id) (intern_seq intern xs s'))"

locale interner =
  fixes inv :: "'s \<Rightarrow> bool" and strings :: "'s \<Rightarrow> byte_seq list" and usable :: "'p \<Rightarrow> bool"
    and intern :: "'p \<Rightarrow> byte_seq \<Rightarrow> 's \<Rightarrow> (nat \<times> 's) option" and get :: "'s \<Rightarrow> nat \<Rightarrow> byte_seq"
  assumes distinct_strings: "inv s \<Longrightarrow> distinct (strings s)"
    and get_spec: "inv s \<Longrightarrow> get s i = spec_get (strings s) i"
    and intern_spec: "inv s \<Longrightarrow> usable p \<Longrightarrow> length (strings s) < 2 ^ 32 \<Longrightarrow>
      \<exists>i s'. intern p x s = Some (i, s') \<and> inv s' \<and> strings s' = spec_add x (strings s) \<and>
        i < length (strings s') \<and> strings s' ! i = x"
begin

lemma get_known: "inv s \<Longrightarrow> i < length (strings s) \<Longrightarrow> get s i = strings s ! i"
  by (simp add: get_spec spec_get_def)

lemma add_extends: "i < length xs \<Longrightarrow> i < length (spec_add x xs) \<and> spec_add x xs ! i = xs ! i"
  by (simp add: spec_add_def nth_append)

lemma add_length: "length (spec_add x xs) \<le> Suc (length xs)"
  by (simp add: spec_add_def)

lemma intern_seq_spec:
  "inv s \<Longrightarrow> list_all (\<lambda>q. usable (fst q)) xs \<Longrightarrow> length (strings s) + length xs \<le> 2 ^ 32 \<Longrightarrow>
    \<exists>ids s'. intern_seq intern xs s = Some (ids, s') \<and> inv s' \<and> strings s' = fold (\<lambda>q. spec_add (snd q)) xs (strings s) \<and>
      length ids = length xs \<and> (\<forall>j<length (strings s). j < length (strings s') \<and> strings s' ! j = strings s ! j) \<and>
      (\<forall>k<length xs. ids ! k < length (strings s') \<and> strings s' ! (ids ! k) = snd (xs ! k))"
proof (induction xs arbitrary: s)
  case (Cons y ys)
  obtain p x where y: "y = (p, x)"
    by (cases y)
  obtain i s1 where s1: "intern p x s = Some (i, s1)" "inv s1" "strings s1 = spec_add x (strings s)"
      "i < length (strings s1)" "strings s1 ! i = x"
    using intern_spec [of s p x] Cons.prems y by auto
  have us: "list_all (\<lambda>q. usable (fst q)) ys"
    using Cons.prems(2) by simp
  have "length (strings s1) + length ys \<le> 2 ^ 32"
    using add_length [of x "strings s"] Cons.prems(3) s1(3) by simp
  then obtain ids s' where r: "intern_seq intern ys s1 = Some (ids, s')" "inv s'"
      "strings s' = fold (\<lambda>q. spec_add (snd q)) ys (strings s1)" "length ids = length ys"
      "\<forall>j<length (strings s1). j < length (strings s') \<and> strings s' ! j = strings s1 ! j"
      "\<forall>k<length ys. ids ! k < length (strings s') \<and> strings s' ! (ids ! k) = snd (ys ! k)"
    using Cons.IH [OF s1(2)] us by blast
  have "\<forall>k<length (y # ys). (i # ids) ! k < length (strings s') \<and> strings s' ! ((i # ids) ! k) = snd ((y # ys) ! k)"
    using r(5,6) s1(4,5) y by (auto simp: nth_Cons split: nat.splits)
  moreover have "\<forall>j<length (strings s). j < length (strings s') \<and> strings s' ! j = strings s ! j"
    using r(5) s1(3) add_extends by metis
  ultimately show ?case
    using s1 r y by (intro exI [of _ "i # ids"] exI [of _ s']) simp
qed auto

text \<open>The numbers of a sequence of strings identify them, and looking a number up gives its string.\<close>

lemma intern_seq_faithful:
  assumes "inv s" "list_all (\<lambda>q. usable (fst q)) xs" "length (strings s) + length xs \<le> 2 ^ 32"
  shows "\<exists>ids s'. intern_seq intern xs s = Some (ids, s') \<and> inv s' \<and> map (get s') ids = map snd xs \<and>
    (\<forall>j<length xs. \<forall>k<length xs. ids ! j = ids ! k \<longleftrightarrow> snd (xs ! j) = snd (xs ! k))"
proof -
  obtain ids s' where r: "intern_seq intern xs s = Some (ids, s')" "inv s'" "length ids = length xs"
      "\<forall>k<length xs. ids ! k < length (strings s') \<and> strings s' ! (ids ! k) = snd (xs ! k)"
    using intern_seq_spec [OF assms] by blast
  have "map (get s') ids = map snd xs"
    by (rule nth_equalityI) (use r get_known in auto)
  moreover have "\<forall>j<length xs. \<forall>k<length xs. ids ! j = ids ! k \<longleftrightarrow> snd (xs ! j) = snd (xs ! k)"
    using r(4) distinct_strings [OF r(2)] by (metis nth_eq_iff_index_eq)
  ultimately show ?thesis
    using r(1,2) by blast
qed

text \<open>A number stays valid: interning more strings never changes what it stands for.\<close>

lemma intern_seq_stable:
  assumes "inv s" "list_all (\<lambda>q. usable (fst q)) xs" "length (strings s) + length xs \<le> 2 ^ 32" "i < length (strings s)"
  shows "\<exists>ids s'. intern_seq intern xs s = Some (ids, s') \<and> get s' i = get s i"
  using intern_seq_spec [OF assms(1-3)] assms(4) get_known [OF assms(1)] get_known by metis

end

section \<open>The interner of the program\<close>

definition g_inv :: "intern_state option \<Rightarrow> bool" where
  "g_inv g = (case g of None \<Rightarrow> True | Some s \<Rightarrow> intern_inv s)"

definition g_strings :: "intern_state option \<Rightarrow> byte_seq list" where
  "g_strings g = (case g of None \<Rightarrow> [[]] | Some s \<Rightarrow> it_strings s)"

definition g_ptrs :: "intern_state option \<Rightarrow> ptr set" where
  "g_ptrs g = (case g of None \<Rightarrow> {} | Some s \<Rightarrow> it_ptrs s)"

lemma intern_start_ok:
  assumes "lit \<noteq> 0"
  shows "\<exists>s. ny_intern_ptr_map_put lit (intern_start lit) = Some s \<and> intern_inv s \<and> it_table s = [empty_entry lit]"
proof -
  have pw: "pow2 8192"
    unfolding pow2_def by (rule exI [of _ 13]) simp
  have "ptr_map_ok {} (intern_start lit)"
    using slots_empty [OF pw]
    by (simp add: ptr_map_ok_def intern_start_def NY_INTERN_PTR_MAP_CAP_INIT_def nz_def [abs_def])
  from ptr_map_put_ok [OF this assms] obtain m c n
    where s: "ny_intern_ptr_map_put lit (intern_start lit) =
        Some (intern_start lit\<lparr>it_ptr_map := m, it_ptr_map_cap := c, it_ptr_map_len := n\<rparr>)"
      "ptr_map_ok {lit} (intern_start lit\<lparr>it_ptr_map := m, it_ptr_map_cap := c, it_ptr_map_len := n\<rparr>)"
    by auto
  have "map_ok (intern_start lit)"
    using slots_empty [OF pw]
    by (simp add: map_ok_def intern_start_def NY_INTERN_MAP_CAP_INIT_def nz_def [abs_def])
  then have "intern_inv (intern_start lit\<lparr>it_ptr_map := m, it_ptr_map_cap := c, it_ptr_map_len := n\<rparr>)"
    using s(2) assms
    by (simp add: intern_inv_def intern_start_def table_ok_def empty_entry_def map_ok_def)
  then show ?thesis
    using s(1) by (simp add: intern_start_def)
qed

lemma init_ok:
  assumes "g_inv g" "lit \<noteq> 0"
  shows "\<exists>s. ny_intern_init lit g = Some (Some s) \<and> intern_inv s \<and> it_strings s = g_strings g"
  using assms intern_start_ok [OF assms(2)]
  by (cases g) (auto simp: g_inv_def g_strings_def ny_intern_init_def empty_entry_def)

lemma g_strings_ok:
  assumes "g_inv g"
  shows "distinct (g_strings g)" "g_strings g \<noteq> []" "g_strings g ! 0 = []"
  using assms table_ok_strings by (cases g; force simp: g_inv_def g_strings_def intern_inv_def)+

lemma intern_str_step:
  assumes g: "g_inv g" "lit \<noteq> 0" "dup \<noteq> 0" "length (g_strings g) < 2 ^ 32"
  shows "\<exists>i g'. ny_intern_str lit dup (Some x) g = Some (i, g') \<and> g_inv g' \<and>
    g_strings g' = spec_add x (g_strings g) \<and> i < length (g_strings g') \<and> g_strings g' ! i = x"
proof (cases "x = []")
  case True
  have "[] \<in> set (g_strings g)"
    using g_strings_ok [OF g(1)] by (metis hd_conv_nth hd_in_set)
  then show ?thesis
    using True g(1) g_strings_ok [OF g(1)] by (simp add: ny_intern_str_def spec_add_def)
next
  case False
  obtain s where s: "ny_intern_init lit g = Some (Some s)" "intern_inv s" "it_strings s = g_strings g"
    using init_ok [OF g(1,2)] by blast
  moreover have "it_count s = length (g_strings g)"
    using arg_cong [OF s(3), of length] by simp
  ultimately obtain i s' where "intern_in dup x s = Some (i, s')" "intern_inv s'" "i < it_count s'"
      "it_strings s' ! i = x" "it_strings s' = spec_add x (g_strings g)"
    using intern_in_ok [OF s(2) False g(3)] g(4) by (auto simp: spec_add_def split: if_splits)
  moreover from this have "ny_intern_str lit dup (Some x) g = Some (i, Some s')" "g_inv (Some s')"
    using False s(1) by (simp_all add: ny_intern_str_def g_inv_def)
  moreover have "g_strings (Some s') = it_strings s'"
    by (simp add: g_strings_def)
  ultimately show ?thesis
    by (metis length_map)
qed

lemma get_spec_ok: "ny_intern_get g i = spec_get (g_strings g) i"
  by (cases g) (auto simp: ny_intern_get_def spec_get_def g_strings_def)

interpretation ny_interner: interner g_inv g_strings "\<lambda>(lit, dup). lit \<noteq> 0 \<and> dup \<noteq> 0"
  "\<lambda>(lit, dup) x. ny_intern_str lit dup (Some x)" ny_intern_get
proof unfold_locales
  fix g and p :: "ptr \<times> ptr" and x
  assume "g_inv g" "case p of (lit, dup) \<Rightarrow> lit \<noteq> 0 \<and> dup \<noteq> 0" "length (g_strings g) < 2 ^ 32"
  then show "\<exists>i s'. (case p of (lit, dup) \<Rightarrow> \<lambda>x. ny_intern_str lit dup (Some x)) x g = Some (i, s') \<and> g_inv s' \<and>
      g_strings s' = spec_add x (g_strings g) \<and> i < length (g_strings s') \<and> g_strings s' ! i = x"
    by (cases p) (simp add: intern_str_step)
qed (simp_all add: g_strings_ok get_spec_ok)


section \<open>Properties\<close>

lemma probe_stops: "probe stop cap i = Some p \<Longrightarrow> stop p"
proof -
  assume "probe stop cap i = Some p"
  then show "stop p"
    by (rule probe.raw_induct [where P = "\<lambda>stop cap i p. stop p", rotated]) (auto split: if_splits)
qed

text \<open>
  A probing loop of the hash tables, started from a hash masked by a power-of-two capacity,
  ends if and only if some slot of the table stops it, so a table with a free slot never makes the
  compiler hang and a full table without the key always would.
\<close>

theorem probe_returns_iff:
  assumes "pow2 cap"
  shows "(\<exists>p. probe stop cap (masked cap h) = Some p \<and> p < cap) \<longleftrightarrow> (\<exists>p<cap. stop p)"
proof
  assume "\<exists>p<cap. stop p"
  then obtain p where p: "p < cap" "stop p"
    by blast
  obtain d where "probe stop cap (masked cap h) = Some ((h + d) mod cap)"
    by (rule probe_first [where stop = stop and h = h, OF assms p])
  then show "\<exists>p. probe stop cap (masked cap h) = Some p \<and> p < cap"
    using pow2_pos [OF assms] by simp
qed (use probe_stops in blast)

theorem probe_returns_iff_witness:
  "\<exists>p. probe (\<lambda>i. i = 2) 8 (masked 8 1001) = Some p \<and> p < 8"
proof -
  have "pow2 8"
    unfolding pow2_def by (rule exI [of _ 3]) simp
  from probe_returns_iff [OF this, of "\<lambda>i. i = 2" 1001] show ?thesis
    by auto
qed

text \<open>
  C32: interning refines the abstract list of strings. From every state that satisfies the
  invariant, \<open>ny_intern_str\<close> returns (its probing and rehashing loops end), keeps the invariant,
  appends the string exactly when it was not yet known, and returns the position of the string;
  \<open>ny_intern_get\<close> reads that list.
\<close>

theorem ny_intern_str_refines:
  assumes "g_inv g" "lit \<noteq> 0" "dup \<noteq> 0" "length (g_strings g) < 2 ^ 32"
  shows "\<exists>i g'. ny_intern_str lit dup (Some x) g = Some (i, g') \<and> g_inv g' \<and>
    g_strings g' = spec_add x (g_strings g) \<and> i < length (g_strings g') \<and> g_strings g' ! i = x \<and>
    (\<forall>j. ny_intern_get g' j = spec_get (spec_add x (g_strings g)) j)"
  using intern_str_step [OF assms, of x] get_spec_ok by metis

theorem ny_intern_str_refines_witness:
  "\<exists>i g'. ny_intern_str 8 16 (Some [102, 110]) None = Some (i, g') \<and> g_strings g' = [[], [102, 110]] \<and>
    ny_intern_get g' 1 = [102, 110]"
  using ny_intern_str_refines [of None 8 16 "[102, 110]"]
  by (auto simp: g_inv_def g_strings_def spec_add_def spec_get_def)

text \<open>
  C33: interning any sequence of strings from an initialised or uninitialised interner gives numbers
  that are equal exactly for equal strings, and looking every number up in the final state gives
  back the string it was made for.
\<close>

theorem intern_sequence_roundtrip:
  assumes "g_inv g" "list_all (\<lambda>q. case fst q of (lit, dup) \<Rightarrow> lit \<noteq> 0 \<and> dup \<noteq> 0) xs"
    "length (g_strings g) + length xs \<le> 2 ^ 32"
  shows "\<exists>ids g'. intern_seq (\<lambda>(lit, dup) x. ny_intern_str lit dup (Some x)) xs g = Some (ids, g') \<and>
    map (ny_intern_get g') ids = map snd xs \<and>
    (\<forall>j<length xs. \<forall>k<length xs. ids ! j = ids ! k \<longleftrightarrow> snd (xs ! j) = snd (xs ! k))"
  using ny_interner.intern_seq_faithful [OF assms] by blast

theorem intern_sequence_roundtrip_witness:
  "\<exists>ids g'. intern_seq (\<lambda>(lit, dup) x. ny_intern_str lit dup (Some x))
      [((8, 16), [97]), ((8, 24), [98]), ((8, 32), [97])] None = Some (ids, g') \<and>
    map (ny_intern_get g') ids = [[97], [98], [97]]"
  using intern_sequence_roundtrip [of None "[((8, 16), [97]), ((8, 24), [98]), ((8, 32), [97])]"]
  by (auto simp: g_inv_def g_strings_def)

text \<open>
  \<open>ny_intern_contains_ptr\<close> returns from every state that satisfies the invariant and answers
  whether the pointer is one of those the interner handed out; the direct-mapped cache in front of
  the pointer set changes neither the answer nor the invariant.
\<close>

theorem contains_ptr_iff:
  assumes "g_inv g"
  shows "\<exists>g'. ny_intern_contains_ptr p g = Some (p \<in> g_ptrs g, g') \<and> g_inv g' \<and> g_ptrs g' = g_ptrs g \<and>
    g_strings g' = g_strings g"
proof (cases g)
  case (Some s)
  then have inv: "intern_inv s"
    using assms by (simp add: g_inv_def)
  let ?m = "it_ptr_map s" and ?cap = "it_ptr_map_cap s" and ?h = "\<lambda>p. unat (ny_intern_ptr_hash p)"
  let ?P = "it_ptrs s"
  have z: "0 \<notin> ?P"
    using inv table_ok_ptrs by (simp add: intern_inv_def)
  have t: "slots_ok ?cap ?h (nz ?m) ?P" "card ?P < ?cap" "?cap \<noteq> 0"
    using inv load_slack [of ?cap "card ?P"] by (auto simp: intern_inv_def ptr_map_ok_def slots_ok_def)
  have cache: "intern_inv (s\<lparr>it_ptr_cache := (it_ptr_cache s)(cache_slot p := p)\<rparr>)" if "p \<in> ?P"
    using inv that by (simp add: intern_inv_def map_ok_def ptr_map_ok_def)
  have hit: "p \<in> ?P" if "it_ptr_cache s (cache_slot p) = p" "p \<noteq> 0"
    using inv that unfolding intern_inv_def by metis
  show ?thesis
  proof (rule find_key [where P = "\<lambda>k. k = p" and h = "?h p", OF t(1,2)])
    fix i assume i: "probe (\<lambda>i. ?m i = 0 \<or> ?m i = p) ?cap (masked ?cap (?h p)) = Some i"
      "?m i \<noteq> 0 \<Longrightarrow> ?m i \<in> ?P \<and> ?m i = p" "?m i = 0 \<Longrightarrow> \<forall>k\<in>?P. k \<noteq> p"
    show ?thesis
      using Some assms hit cache i z t(3)
      by (cases "?m i = 0") (auto simp: ny_intern_contains_ptr_def g_ptrs_def g_inv_def g_strings_def)
  qed simp
qed (simp add: ny_intern_contains_ptr_def g_inv_def g_ptrs_def)

theorem contains_ptr_iff_witness:
  "\<exists>s g'. ny_intern_init 8 None = Some (Some s) \<and> ny_intern_contains_ptr 8 (Some s) = Some (True, g')"
proof -
  obtain s where s: "ny_intern_ptr_map_put 8 (intern_start 8) = Some s" "intern_inv s" "it_table s = [empty_entry 8]"
    using intern_start_ok [of 8] by auto
  then show ?thesis
    using contains_ptr_iff [of "Some s" 8]
    by (auto simp: ny_intern_init_def g_inv_def g_ptrs_def empty_entry_def)
qed


end
