(* ===== verification/Lexer_Symbols.thy ===== *)
theory Lexer_Symbols
  imports Lexer_Correct Intern_Correct
begin

text \<open>
  The lexer and the interner together. The lexer relies on a contract of the symbol table, stated as
  a locale; the interner of \<open>src/base/intern.c\<close> fulfils it. Identifiers then have the same symbol
  number exactly when they have the same text.
\<close>

section \<open>Handlers that leave the symbol table alone\<close>

lemma syms_adv [simp]: "lx_syms (adv lx) = lx_syms lx"
  by (simp add: advance_def Let_def)

lemma syms_error [simp]: "lx_syms (lexer_error lx) = lx_syms lx"
  by (simp add: lexer_error_def)

lemma syms_advance_while [simp]: "lx_syms (advance_while P lx) = lx_syms lx"
proof (induction P lx rule: advance_while.induct)
  case (1 P lx)
  then show ?case
    by (subst advance_while.simps) auto
qed

lemma syms_iter [simp]: "lx_syms (((\<lambda>l. adv l) ^^ n) lx) = lx_syms lx"
  by (induction n) simp_all

lemma syms_skip_line [simp]: "lx_syms (skip_line lx) = lx_syms lx"
  by (simp add: skip_line_def)

lemma syms_comment [simp]: "lx_syms (skip_comment lx) = lx_syms lx"
  by (simp add: skip_comment_def symbol_comment_def marker_comment_def Let_def del: funpow.simps)

lemma syms_skip_space [simp]: "lx_syms (skip_space lx) = lx_syms lx"
  by (simp add: skip_space_def Let_def)

lemma syms_step_one [simp]: "lx_syms (step_one lx) = lx_syms lx"
  by (simp add: step_one_def)

lemma syms_decimal [simp]: "lx_syms (lex_decimal_digits lx) = lx_syms lx"
  by (simp add: lex_decimal_digits_def Let_def)

lemma syms_suffix [simp]: "lx_syms (lex_number_suffix_digits lx b) = lx_syms lx"
  by (simp add: lex_number_suffix_digits_def Let_def)

lemma syms_radix [simp]: "lx_syms (snd (lex_radix_number lx start d r)) = lx_syms lx"
  by (simp add: lex_radix_number_def Let_def)

lemma syms_exponent [simp]: "lx_syms (snd (lex_exponent lx)) = lx_syms lx"
  by (simp add: lex_exponent_def Let_def)

lemma syms_number [simp]: "lx_syms (snd (lex_number start c lx)) = lx_syms lx"
  by (simp add: lex_number_def Let_def case_prod_unfold)

lemma syms_quoted_body [simp]: "lx_syms (quoted_body q lx) = lx_syms lx"
proof (induction q lx rule: quoted_body.induct)
  case (1 q lx)
  then show ?case
    by (subst quoted_body.simps) auto
qed

lemma syms_quoted [simp]: "lx_syms (snd (lex_quoted q lx)) = lx_syms lx"
  by (simp add: lex_quoted_def Let_def)

lemma syms_string [simp]: "lx_syms (snd (lex_string k start q lx)) = lx_syms lx"
  by (simp add: lex_string_def case_prod_unfold)

lemma syms_match: "(\<And>l. lx_syms (snd (yes l)) = lx_syms l) \<Longrightarrow> lx_syms (snd no) = lx_syms lx \<Longrightarrow>
    lx_syms (snd (on_match ch lx yes no)) = lx_syms lx"
  by (simp add: on_match_def)

lemma syms_if: "lx_syms (snd x) = s \<Longrightarrow> lx_syms (snd y) = s \<Longrightarrow> lx_syms (snd (if b then x else y)) = s"
  by simp

lemma syms_skip_block [simp]: "lx_syms (skip_block lx) = lx_syms lx"
  by (simp add: skip_block_def Let_def)

lemma syms_operator [simp]: "lx_syms (snd (lex_operator start c lx)) = lx_syms lx"
  unfolding lex_operator_def lex_arith_def lex_compare_def lex_bitwise_def lex_punct_def Let_def
  by (intro syms_if syms_match; simp)

text \<open>Only words have a symbol number.\<close>

definition is_word :: "token_kind \<Rightarrow> bool" where
  "is_word k \<longleftrightarrow> k = NY_T_IDENT \<or> (\<exists>kw. k = Kw kw)"

lemma is_word_simps [simp]: "is_word NY_T_IDENT" "is_word (Kw kw)" "\<not> is_word NY_T_EOF" "\<not> is_word NY_T_NUMBER"
    "\<not> is_word NY_T_STRING" "\<not> is_word NY_T_FSTRING" "\<not> is_word (Op k)" "\<not> is_word (Punct p)" "\<not> is_word NY_T_ERROR"
  by (auto simp: is_word_def)

definition no_symbol :: "'s lexed \<Rightarrow> bool" where
  "no_symbol r \<longleftrightarrow> (\<forall>t. fst r = Some t \<longrightarrow> tok_sym_id t = 0 \<and> \<not> is_word (tok_kind t))"

lemma no_symbol_emit [simp]: "\<not> is_word k \<Longrightarrow> no_symbol (emit_token start k lx)" "no_symbol (None, lx)"
  by (simp_all add: no_symbol_def make_token_def)

lemma no_symbol_match: "(\<And>l. no_symbol (yes l)) \<Longrightarrow> no_symbol no \<Longrightarrow> no_symbol (on_match ch lx yes no)"
  by (simp add: on_match_def)

lemma no_symbol_if: "no_symbol x \<Longrightarrow> no_symbol y \<Longrightarrow> no_symbol (if b then x else y)"
  by simp

lemma no_symbol_operator [simp]: "no_symbol (lex_operator start c lx)"
  unfolding lex_operator_def lex_arith_def lex_compare_def lex_bitwise_def lex_punct_def Let_def
  by (intro no_symbol_if no_symbol_match; simp)

lemma no_symbol_string: "\<not> is_word k \<Longrightarrow> no_symbol (lex_string k start q lx)"
  by (simp add: lex_string_def split: prod.split)

lemma no_symbol_number [simp]: "no_symbol (lex_number start c lx)"
  using number_cases [of start c lx] by auto

section \<open>The contract of the symbol table\<close>

text \<open>
  \<open>tracked\<close>: as long as the numbers do not run out, the invariant is kept and the table only grows, by
  at most one string for each byte the lexer has moved.
\<close>

definition tracked :: "('s \<Rightarrow> bool) \<Rightarrow> ('s \<Rightarrow> string list) \<Rightarrow> 's lexer_t \<Rightarrow> 's lexer_t \<Rightarrow> bool" where
  "tracked sinv strings lx lx' \<longleftrightarrow>
     forward lx lx' \<and>
     (sinv (lx_syms lx) \<and> length (strings (lx_syms lx)) + (length (lx_src lx) - lx_pos lx) \<le> 2 ^ 32 \<longrightarrow>
        sinv (lx_syms lx') \<and>
        (\<exists>ys. strings (lx_syms lx') = strings (lx_syms lx) @ ys \<and> length ys \<le> lx_pos lx' - lx_pos lx))"

lemma tracked_same: "forward lx lx' \<Longrightarrow> lx_syms lx' = lx_syms lx \<Longrightarrow> tracked sinv strings lx lx'"
  by (simp add: tracked_def)

lemma tracked_room:
  "tracked sinv strings lx lx' \<Longrightarrow> sinv (lx_syms lx) \<Longrightarrow>
    length (strings (lx_syms lx)) + (length (lx_src lx) - lx_pos lx) \<le> 2 ^ 32 \<Longrightarrow> lx_pos lx \<le> length (lx_src lx) \<Longrightarrow>
    length (strings (lx_syms lx')) + (length (lx_src lx') - lx_pos lx') \<le> 2 ^ 32"
  by (auto simp: tracked_def forward_def)

lemma tracked_trans:
  assumes "tracked sinv strings a b" "tracked sinv strings b c" "lx_pos a \<le> length (lx_src a)"
  shows "tracked sinv strings a c"
proof -
  have f: "forward a b" "forward b c"
    using assms(1,2) by (simp_all add: tracked_def)
  show ?thesis
    unfolding tracked_def
  proof (intro conjI impI)
    show "forward a c"
      using f by (rule forward_trans)
    assume r: "sinv (lx_syms a) \<and> length (strings (lx_syms a)) + (length (lx_src a) - lx_pos a) \<le> 2 ^ 32"
    then obtain ys where ys: "sinv (lx_syms b)" "strings (lx_syms b) = strings (lx_syms a) @ ys" "length ys \<le> lx_pos b - lx_pos a"
      using assms(1) by (auto simp: tracked_def)
    moreover obtain zs where "sinv (lx_syms c)" "strings (lx_syms c) = strings (lx_syms b) @ zs" "length zs \<le> lx_pos c - lx_pos b"
      using assms(2) ys(1) tracked_room [OF assms(1)] r assms(3) by (auto simp: tracked_def)
    ultimately show "sinv (lx_syms c)" "\<exists>ys. strings (lx_syms c) = strings (lx_syms a) @ ys \<and> length ys \<le> lx_pos c - lx_pos a"
      using forward_pos [OF f(1)] forward_pos [OF f(2)] by auto
  qed
qed

text \<open>The symbol number of a word is the position of its text, every other token has the number 0.\<close>

definition names :: "string list \<Rightarrow> token_t \<Rightarrow> string \<Rightarrow> bool" where
  "names xs t w \<longleftrightarrow>
     (if is_word (tok_kind t) then tok_sym_id t < length xs \<and> xs ! tok_sym_id t = w else tok_sym_id t = 0)"

locale symbol_table =
  fixes ops :: "'s sym_ops" and sinv :: "'s \<Rightarrow> bool" and strings :: "'s \<Rightarrow> string list"
  assumes distinct_strings: "sinv s \<Longrightarrow> distinct (strings s)"
    and intern_law: "sinv s \<Longrightarrow> length (strings s) < 2 ^ 32 \<Longrightarrow> sy_intern ops x s = (i, s') \<Longrightarrow>
      sinv s' \<and> (strings s' = strings s \<or> strings s' = strings s @ [x]) \<and> i < length (strings s') \<and> strings s' ! i = x"
    and get_law: "sinv s \<Longrightarrow> i < length (strings s) \<Longrightarrow> sy_get ops s i = strings s ! i"
begin

lemma tracked_intern:
  assumes "forward lx lx'" "sy_intern ops x (lx_syms lx) = (i, lx_syms lx')" "lx_pos lx < lx_pos lx'" "lx_pos lx < length (lx_src lx)"
  shows "tracked sinv strings lx lx'"
  unfolding tracked_def
proof (intro conjI impI)
  assume r: "sinv (lx_syms lx) \<and> length (strings (lx_syms lx)) + (length (lx_src lx) - lx_pos lx) \<le> 2 ^ 32"
  then have "length (strings (lx_syms lx)) < 2 ^ 32"
    using assms(4) by linarith
  then have l: "sinv (lx_syms lx') \<and> (strings (lx_syms lx') = strings (lx_syms lx) \<or> strings (lx_syms lx') = strings (lx_syms lx) @ [x])"
    using intern_law [of "lx_syms lx" x i "lx_syms lx'"] r assms(2,4) by simp
  then show "sinv (lx_syms lx')"
    by simp
  show "\<exists>ys. strings (lx_syms lx') = strings (lx_syms lx) @ ys \<and> length ys \<le> lx_pos lx' - lx_pos lx"
    using l assms(3) by auto
qed (rule assms(1))

lemma directive_file_syms:
  assumes "directive_file ops src p filename syms = (q, filename', syms')"
  obtains "syms' = syms" | x i where "sy_intern ops x syms = (i, syms')"
  using assms by (auto simp: directive_file_def Let_def split: if_splits prod.splits)

lemma line_directive_syms:
  obtains "lx_syms (line_directive ops p lx) = lx_syms lx"
  | x i where "sy_intern ops x (lx_syms lx) = (i, lx_syms (line_directive ops p lx))"
proof -
  let ?e = "scan_pos (\<lambda>i. c_isdigit (src_at (lx_src lx) i)) (lx_src lx) p"
  obtain q filename syms where d: "directive_file ops (lx_src lx) (skip_blanks (lx_src lx) ?e) (lx_filename lx) (lx_syms lx) = (q, filename, syms)"
    by (rule prod_cases3)
  have "lx_syms (line_directive ops p lx) = syms"
    by (simp add: line_directive_def Let_def d)
  then show ?thesis
    using directive_file_syms [OF d] that by metis
qed

lemma tracked_skip_step: "tracked sinv strings lx (snd (skip_step ops lx))"
proof (cases "lx_syms (snd (skip_step ops lx)) = lx_syms lx")
  case True
  then show ?thesis
    using skip_step_moves(1) by (rule tracked_same [rotated])
next
  case False
  then have c: "peek lx = CHR ''#''" "snd (skip_step ops lx) = snd (skip_hash ops lx)"
    by (auto simp: skip_step_def Let_def split: if_splits)
  let ?q = "directive_number_pos (lx_src lx) (lx_pos (adv lx))"
  have g: "skip_hash ops lx = (True, line_directive ops ?q (adv lx))"
    using False unfolding c(2) by (cases "lx_pos lx = 0"; auto simp: skip_hash_def Let_def split: if_splits)
  have st: "fst (skip_step ops lx)"
    using c(1) g by (auto simp: skip_step_def Let_def split: if_splits)
  show ?thesis
  proof (rule line_directive_syms [of ?q "adv lx"])
    fix x i assume "sy_intern ops x (lx_syms (adv lx)) = (i, lx_syms (line_directive ops ?q (adv lx)))"
    then show ?thesis
      using skip_step_moves(1) [of lx ops] skip_step_moves(2) [OF st] skip_step_inside [OF st] c(2) g
      by (intro tracked_intern) simp_all
  qed (use False c(2) g in simp)
qed

lemma tracked_skip_whitespace: "lx_pos lx \<le> length (lx_src lx) \<Longrightarrow> tracked sinv strings lx (skip_whitespace ops lx)"
proof (induction "length (lx_src lx) - lx_pos lx" arbitrary: lx rule: less_induct)
  case less
  obtain g lx1 where s: "skip_step ops lx = (g, lx1)"
    by (cases "skip_step ops lx")
  have t: "tracked sinv strings lx lx1"
    using tracked_skip_step [of lx] s by simp
  have f: "forward lx lx1"
    using t by (simp add: tracked_def)
  show ?case
  proof (cases g)
    case True
    have "lx_pos lx < lx_pos lx1" "lx_pos lx < length (lx_src lx)"
      using skip_step_moves(2) [of ops lx] skip_step_inside [of ops lx] s True by simp_all
    then have "tracked sinv strings lx1 (skip_whitespace ops lx1)"
      using f less by (simp add: forward_def diff_less_mono2)
    then have "tracked sinv strings lx (skip_whitespace ops lx1)"
      using t less.prems tracked_trans by blast
    then show ?thesis
      using s True by (subst skip_whitespace.simps) simp
  next
    case False
    then show ?thesis
      using s t by (subst skip_whitespace.simps) simp
  qed
qed

end

text \<open>A word token carries its text to the symbol table.\<close>

lemma word_kind_is_word: "w \<noteq> [] \<Longrightarrow> is_word (fst (word_kind w))"
  by (simp add: word_kind_table split: option.split)

lemma ident_token_symbol:
  assumes "consumed lx start w" "w \<noteq> []" "lx_intern_identifiers lx" "sy_intern ops w (lx_syms lx) = (i, s')"
    "ident_token ops start lx = (r, lx')"
  shows "lx_syms lx' = s'" "\<exists>t. r = Some t \<and> tok_sym_id t = i \<and> is_word (tok_kind t) \<and> tok_text (lx_src lx) t = w"
proof -
  have w: "lx_pos lx - start = length w" "src_slice (lx_src lx) start (length w) = w"
    using assms(1) by (simp_all add: consumed_def)
  obtain k bad where kb: "word_kind w = (k, bad)"
    by (cases "word_kind w")
  have "is_word k"
    using word_kind_is_word [OF assms(2)] kb by simp
  then show "lx_syms lx' = s'" "\<exists>t. r = Some t \<and> tok_sym_id t = i \<and> is_word (tok_kind t) \<and> tok_text (lx_src lx) t = w"
    using assms(3-5) w kb
    by (auto simp: ident_token_def intern_ident_def identifier_type_def Let_def tok_text_def make_token_def)
qed

text \<open>A handler of a token that starts with the byte \<open>c\<close> either leaves the table alone or interns the word it returns.\<close>

definition symbol_step :: "'s sym_ops \<Rightarrow> 's lexer_t \<Rightarrow> 's lexed \<Rightarrow> bool" where
  "symbol_step ops lx r \<longleftrightarrow>
     no_symbol r \<and> lx_syms (snd r) = lx_syms lx \<or>
     (\<exists>t. fst r = Some t \<and> is_word (tok_kind t) \<and>
        sy_intern ops (tok_text (lx_src lx) t) (lx_syms lx) = (tok_sym_id t, lx_syms (snd r)))"

lemma symbol_ident_token:
  assumes "consumed lx' start w" "w \<noteq> []" "lx_intern_identifiers lx'" "lx_syms lx' = lx_syms lx" "lx_src lx' = lx_src lx"
  shows "symbol_step ops lx (ident_token ops start lx')"
proof -
  obtain i s' where s: "sy_intern ops w (lx_syms lx') = (i, s')"
    by (cases "sy_intern ops w (lx_syms lx')")
  obtain r lx2 where r: "ident_token ops start lx' = (r, lx2)"
    by (cases "ident_token ops start lx'")
  show ?thesis
    using ident_token_symbol [OF assms(1-3) s r] s r assms(4,5) by (auto simp: symbol_step_def)
qed

lemma symbol_char:
  assumes "consumed lx start [c]" "lx_intern_identifiers lx"
  shows "symbol_step ops lx (lex_char ops start c lx)"
proof -
  have le: "lx_pos lx \<le> length (lx_src lx)" "lx_pos lx = start + 1"
    using assms(1) by (simp_all add: consumed_def)
  define p where "p = scan_template_ident_tail (lx_src lx)
    (scan_alnum (lx_src lx) (scan8 (ny_is_alnum8 (lx_src lx)) (lx_len lx) (lx_pos lx)))"
  have "forward lx (move_to p lx)"
    unfolding p_def using ident_end_range [OF le(1)] by (intro forward_move_to)
  then obtain b where b: "consumed (move_to p lx) start ([c] @ b)"
    using consumed_append [OF assms(1)] by blast
  have i: "symbol_step ops lx (lex_ident ops start lx)"
    unfolding lex_ident_def Let_def p_def [symmetric] using assms(2) by (intro symbol_ident_token [OF b]) simp_all
  have t: "symbol_step ops lx (lex_template_ident ops start q lx)" if "template_ident_end (lx_src lx) start = Some q" for q
  proof -
    define lx1 where "lx1 = lx\<lparr>lx_pos := start + (q - start), lx_col := lx_col lx + int (q - start) - 1\<rparr>"
    have "forward lx lx1"
      using template_end_range [OF that] le by (simp add: forward_def lx1_def)
    then obtain v where v: "consumed lx1 start ([c] @ v)"
      using consumed_append [OF assms(1)] by blast
    show ?thesis
      unfolding lex_template_ident_def Let_def lx1_def [symmetric]
      using assms(2) by (intro symbol_ident_token [OF v]) (simp_all add: lx1_def)
  qed
  have n: "symbol_step ops lx r" if "no_symbol r" "lx_syms (snd r) = lx_syms lx" for r
    using that by (simp add: symbol_step_def)
  have s: "symbol_step ops lx (lex_string NY_T_FSTRING start (peek lx) (adv lx))" "symbol_step ops lx (lex_string NY_T_STRING start c lx)"
      "symbol_step ops lx (lex_number start c lx)" "symbol_step ops lx (lex_operator start c lx)"
    by (rule n; simp add: no_symbol_string)+
  show ?thesis
    unfolding lex_char_def Let_def using i t s by (auto split: if_splits)
qed

context symbol_table
begin

text \<open>What a read token says about the table behind it.\<close>

lemma step_symbols:
  assumes "lx_pos lx \<le> length (lx_src lx)" "lx_intern_identifiers lx" "lex_step ops lx = (r, lx')"
  shows "tracked sinv strings lx lx'"
    and "sinv (lx_syms lx) \<Longrightarrow> length (strings (lx_syms lx)) + (length (lx_src lx) - lx_pos lx) \<le> 2 ^ 32 \<Longrightarrow> r = Some t \<Longrightarrow>
      (if is_word (tok_kind t) then tok_sym_id t < length (strings (lx_syms lx')) \<and>
         strings (lx_syms lx') ! tok_sym_id t = tok_text (lx_src lx) t else tok_sym_id t = 0)"
proof -
  let ?blank = "lx\<lparr>lx_skipped_newline := False\<rparr>"
  let ?lx = "skip_whitespace ops ?blank"
  let ?good = "\<lambda>t. if is_word (tok_kind t) then tok_sym_id t < length (strings (lx_syms lx')) \<and>
    strings (lx_syms lx') ! tok_sym_id t = tok_text (lx_src lx) t else tok_sym_id t = 0"
  have w: "tracked sinv strings lx ?lx"
    using tracked_trans [OF tracked_same [of lx ?blank] tracked_skip_whitespace [of ?blank]] assms(1) by (simp add: forward_def)
  have "tracked sinv strings lx lx' \<and>
    (sinv (lx_syms lx) \<and> length (strings (lx_syms lx)) + (length (lx_src lx) - lx_pos lx) \<le> 2 ^ 32 \<longrightarrow> (\<forall>t. r = Some t \<longrightarrow> ?good t))"
  proof (rule lex_step_cases [where ops = ops and ?lx0.0 = lx])
    assume "lex_step ops lx = (Some (eof_token ?lx), ?lx)"
    then show ?thesis
      using w assms(3) by (auto simp: eof_token_def)
  next
    fix lx1
    assume a: "peek ?lx \<noteq> NUL" "forward lx ?lx" "forward ?lx lx1" "lx_pos lx1 = lx_pos ?lx + 1"
      "lex_step ops lx = lex_char ops (lx_pos ?lx) (peek ?lx) lx1" "forward lx1 (snd (lex_step ops lx))" "lx_syms lx1 = lx_syms ?lx"
    have i: "lx_pos ?lx < length (lx_src ?lx)"
      by (rule peek_inside [OF a(1)])
    have src: "lx_src lx1 = lx_src lx" "lx_src ?lx = lx_src lx"
      using forward_src a(2,3) by metis+
    have "consumed lx1 (lx_pos ?lx) [peek ?lx]"
      using a(4) i src slice_Suc [of "lx_pos ?lx" 0 "lx_src lx"]
      by (simp add: consumed_def peek_def) (simp add: src_slice_def)
    moreover have "lx_intern_identifiers lx1"
      using assms(2) a(2,3) by (simp add: forward_def)
    ultimately have st: "symbol_step ops lx1 (r, lx')"
      using symbol_char [of lx1 "lx_pos ?lx" "peek ?lx" ops] a(5) assms(3) by simp
    have f: "forward ?lx lx'" "lx_pos ?lx < lx_pos lx'"
      using a(3,4,6) assms(3) forward_pos [OF a(6)] by (auto intro: forward_trans)
    show ?thesis
    proof (cases "no_symbol (r, lx') \<and> lx_syms lx' = lx_syms lx1")
      case True
      then have "tracked sinv strings lx lx'"
        using tracked_trans [OF w tracked_same [OF f(1)] assms(1)] a(7) by simp
      then show ?thesis
        using True by (auto simp: no_symbol_def)
    next
      case False
      then obtain t where t: "r = Some t" "is_word (tok_kind t)"
          "sy_intern ops (tok_text (lx_src lx) t) (lx_syms ?lx) = (tok_sym_id t, lx_syms lx')"
        using st src a(7) by (auto simp: symbol_step_def)
      have "tracked sinv strings lx lx'"
        using tracked_trans [OF w tracked_intern [OF f(1) t(3) f(2) i] assms(1)] .
      moreover have "?good t"
        if r: "sinv (lx_syms lx)" "length (strings (lx_syms lx)) + (length (lx_src lx) - lx_pos lx) \<le> 2 ^ 32"
      proof -
        have "length (strings (lx_syms ?lx)) < 2 ^ 32" "sinv (lx_syms ?lx)"
          using tracked_room [OF w r assms(1)] i w r by (auto simp: tracked_def)
        then show ?thesis
          using intern_law [OF _ _ t(3)] t(2) by simp
      qed
      ultimately show ?thesis
        using t(1) by simp
    qed
  qed
  then show "tracked sinv strings lx lx'"
    "sinv (lx_syms lx) \<Longrightarrow> length (strings (lx_syms lx)) + (length (lx_src lx) - lx_pos lx) \<le> 2 ^ 32 \<Longrightarrow> r = Some t \<Longrightarrow> ?good t"
    by blast+
qed

lemma next_symbols:
  assumes "lx_pos lx \<le> length (lx_src lx)" "lx_intern_identifiers lx" "sinv (lx_syms lx)"
    "length (strings (lx_syms lx)) + (length (lx_src lx) - lx_pos lx) \<le> 2 ^ 32"
  shows "tracked sinv strings lx (snd (lexer_next ops lx)) \<and>
    names (strings (lx_syms (snd (lexer_next ops lx)))) (fst (lexer_next ops lx)) (tok_text (lx_src lx) (fst (lexer_next ops lx)))"
  using assms
proof (induction "length (lx_src lx) - lx_pos lx" arbitrary: lx rule: less_induct)
  case less
  obtain r lx1 where s: "lex_step ops lx = (r, lx1)"
    by (cases "lex_step ops lx")
  have t: "tracked sinv strings lx lx1"
    by (rule step_symbols(1) [OF less.prems(1,2) s])
  then have f: "forward lx lx1" "sinv (lx_syms lx1)"
    using less.prems by (simp_all add: tracked_def)
  show ?case
  proof (cases r)
    case None
    have m: "lx_pos lx < lx_pos lx1" "lx_pos lx < length (lx_src lx)"
      using lex_step_moves(2) [of ops lx] s None by simp_all
    have e: "lexer_next ops lx = lexer_next ops lx1"
      by (subst lexer_next.simps) (simp add: s None)
    have l: "length (lx_src lx1) - lx_pos lx1 < length (lx_src lx) - lx_pos lx" "lx_pos lx1 \<le> length (lx_src lx1)"
        "lx_intern_identifiers lx1" "lx_src lx1 = lx_src lx"
      using f m less.prems(1,2) by (simp_all add: forward_def diff_less_mono2)
    show ?thesis
      using less.hyps [OF l(1-3) f(2)] tracked_room [OF t less.prems(3,4,1)] tracked_trans [OF t _ less.prems(1)] l(4)
      by (simp add: e)
  next
    case (Some tok)
    have "lexer_next ops lx = (tok, lx1)"
      by (subst lexer_next.simps) (simp add: s Some)
    then show ?thesis
      using t step_symbols(2) [OF less.prems(1,2) s less.prems(3,4) Some] by (simp add: names_def)
  qed
qed

lemma iter_tracked:
  assumes "lx_pos lx \<le> length (lx_src lx)" "lx_intern_identifiers lx" "sinv (lx_syms lx)"
    "length (strings (lx_syms lx)) + (length (lx_src lx) - lx_pos lx) \<le> 2 ^ 32"
  shows "tracked sinv strings lx (lex_iter ops lx n)"
proof (induction n)
  case (Suc n)
  let ?l = "lex_iter ops lx n"
  have f: "forward lx ?l" "sinv (lx_syms ?l)"
    using Suc assms by (simp_all add: tracked_def)
  have "tracked sinv strings ?l (snd (lexer_next ops ?l))"
    using next_symbols [of ?l] f assms(1,2) tracked_room [OF Suc assms(3,4,1)] by (simp add: forward_def)
  then show ?case
    using tracked_trans [OF Suc _ assms(1)] by (simp add: lex_iter_simps)
qed (simp add: lex_iter_simps tracked_same)

lemma stream_symbols:
  assumes "lx_pos lx \<le> length (lx_src lx)" "lx_intern_identifiers lx" "sinv (lx_syms lx)"
    "length (strings (lx_syms lx)) + (length (lx_src lx) - lx_pos lx) \<le> 2 ^ 32" "k < n"
  shows "names (strings (lx_syms (lex_iter ops lx n))) (nth_token ops lx k) (tok_text (lx_src lx) (nth_token ops lx k))"
proof -
  let ?l = "lex_iter ops lx k" and ?m = "lex_iter ops lx (Suc k)"
  have t: "tracked sinv strings lx ?l" "tracked sinv strings lx ?m"
    using iter_tracked [OF assms(1-4)] by blast+
  then have f: "forward lx ?l" "sinv (lx_syms ?l)" "forward lx ?m" "sinv (lx_syms ?m)"
    using assms by (simp_all add: tracked_def)
  have "names (strings (lx_syms ?m)) (nth_token ops lx k) (tok_text (lx_src ?l) (nth_token ops lx k))"
    using next_symbols [of ?l] f assms(1,2) tracked_room [OF t(1) assms(3,4,1)] forward_src [OF f(1)]
    by (simp add: forward_def nth_token_def lex_iter_simps)
  moreover have "tracked sinv strings ?m (lex_iter ops ?m (n - Suc k))"
    using f(3,4) assms(1,2) tracked_room [OF t(2) assms(3,4,1)] by (intro iter_tracked) (simp_all add: forward_def)
  then obtain ys where "strings (lx_syms (lex_iter ops ?m (n - Suc k))) = strings (lx_syms ?m) @ ys"
    using f(4) tracked_room [OF t(2) assms(3,4,1)] by (auto simp: tracked_def)
  moreover have "lex_iter ops ?m (n - Suc k) = lex_iter ops lx n"
  proof -
    have "(n - Suc k) + Suc k = n"
      using assms(5) by simp
    then show ?thesis
      unfolding lex_iter_def by (metis comp_apply funpow_add)
  qed
  ultimately show ?thesis
    using forward_src [OF f(1)] by (auto simp: names_def nth_append)
qed

end

section \<open>The interner as a symbol table\<close>

text \<open>
  The interner with the addresses it is given: the one of the empty string literal, and those of the
  copies \<open>malloc\<close> makes, in order. A probing loop that did not return would leave the table as it is;
  under the invariant of the interner this does not happen.
\<close>

record sym_state =
  st_lit :: ptr
  st_alloc :: "nat \<Rightarrow> ptr"
  st_copies :: nat
  st_table :: "intern_state option"

definition ny_symbols :: "sym_state sym_ops" where
  "ny_symbols =
     \<lparr>sy_intern = (\<lambda>x s.
        case ny_intern_str (st_lit s) (st_alloc s (st_copies s)) (Some (map byte_of x)) (st_table s) of
          None \<Rightarrow> (0, s)
        | Some (i, g) \<Rightarrow> (i, s\<lparr>st_copies := Suc (st_copies s), st_table := g\<rparr>)),
      sy_get = (\<lambda>s i. map char_of_byte (ny_intern_get (st_table s) i))\<rparr>"

definition sym_inv :: "sym_state \<Rightarrow> bool" where
  "sym_inv s \<longleftrightarrow> g_inv (st_table s) \<and> st_lit s \<noteq> 0 \<and> (\<forall>k. st_alloc s k \<noteq> 0)"

definition sym_strings :: "sym_state \<Rightarrow> string list" where
  "sym_strings s = map (map char_of_byte) (g_strings (st_table s))"

lemma ny_symbols_intern:
  assumes "sym_inv s" "length (sym_strings s) < 2 ^ 32" "sy_intern ny_symbols x s = (i, s')"
  shows "sym_inv s' \<and> (sym_strings s' = sym_strings s \<or> sym_strings s' = sym_strings s @ [x]) \<and>
    i < length (sym_strings s') \<and> sym_strings s' ! i = x"
proof -
  obtain j g where r: "ny_intern_str (st_lit s) (st_alloc s (st_copies s)) (Some (map byte_of x)) (st_table s) = Some (j, g)" "g_inv g"
      "g_strings g = spec_add (map byte_of x) (g_strings (st_table s))" "j < length (g_strings g)" "g_strings g ! j = map byte_of x"
    using intern_str_step [of "st_table s" "st_lit s" "st_alloc s (st_copies s)" "map byte_of x"] assms(1,2)
    by (auto simp: sym_inv_def sym_strings_def)
  have "i = j" "s' = s\<lparr>st_copies := Suc (st_copies s), st_table := g\<rparr>"
    using assms(3) r(1) by (simp_all add: ny_symbols_def)
  then show ?thesis
    using assms(1) r by (auto simp: sym_inv_def sym_strings_def spec_add_def comp_def)
qed

interpretation ny_symbol_table: symbol_table ny_symbols sym_inv sym_strings
proof unfold_locales
  fix s
  assume s: "sym_inv s"
  have "inj char_of_byte"
    by (metis byte_char injI)
  then have "inj_on (map char_of_byte) (set (g_strings (st_table s)))"
    by (rule inj_on_subset [OF inj_mapI subset_UNIV])
  then show "distinct (sym_strings s)"
    using s g_strings_ok [of "st_table s"] by (simp add: sym_inv_def sym_strings_def distinct_map)
  fix i
  assume "i < length (sym_strings s)"
  then show "sy_get ny_symbols s i = sym_strings s ! i"
    using s get_spec_ok [of "st_table s" i] by (simp add: ny_symbols_def sym_inv_def sym_strings_def spec_get_def)
qed (rule ny_symbols_intern)

lemma init_symbols:
  assumes "sym_inv s" "length (sym_strings s) < 2 ^ 32"
  shows "sym_inv (lx_syms (lexer_init ny_symbols src filename s)) \<and>
    length (sym_strings (lx_syms (lexer_init ny_symbols src filename s))) \<le> Suc (length (sym_strings s))"
proof (cases filename)
  case (Some f)
  obtain i s' where i: "sy_intern ny_symbols f s = (i, s')"
    by (cases "sy_intern ny_symbols f s")
  have "lx_syms (lexer_init ny_symbols src filename s) = s'"
    by (simp add: lexer_init_def Let_def lexer_intern_filename_def Some i)
  moreover have "sym_inv s' \<and> length (sym_strings s') \<le> Suc (length (sym_strings s))"
    using ny_symbols_intern [OF assms i] by (metis le_SucI length_append_singleton order_refl)
  ultimately show ?thesis
    by simp
qed (use assms in \<open>simp add: lexer_init_def Let_def lexer_intern_filename_def\<close>)

section \<open>Properties\<close>

text \<open>
  C17: Symbol numbers identify names. Lexing a source from an interner in any state that satisfies
  its invariant keeps the invariant; after any number of tokens, the symbol number of every
  identifier and keyword token read so far looks its text up in the table, two such tokens have the
  same number exactly when they have the same text, and all other tokens have the number 0.
\<close>

theorem lexer_symbols_identify:
  assumes "sym_inv s" "length (sym_strings s) + length src < 2 ^ 32"
  shows "let lx = lexer_init ny_symbols (Some src) filename s;
             tok = nth_token ny_symbols lx; text = (\<lambda>k. tok_text (lx_src lx) (tok k));
             s' = lx_syms (lex_iter ny_symbols lx n)
         in sym_inv s' \<and>
            (\<forall>k<n. if is_word (tok_kind (tok k)) then sy_get ny_symbols s' (tok_sym_id (tok k)) = text k
                   else tok_sym_id (tok k) = 0) \<and>
            (\<forall>j<n. \<forall>k<n. is_word (tok_kind (tok j)) \<longrightarrow> is_word (tok_kind (tok k)) \<longrightarrow>
               (tok_sym_id (tok j) = tok_sym_id (tok k) \<longleftrightarrow> text j = text k))"
proof -
  define lx where "lx = lexer_init ny_symbols (Some src) filename s"
  define s' where "s' = lx_syms (lex_iter ny_symbols lx n)"
  have p: "lx_pos lx \<le> length (lx_src lx)" "lx_intern_identifiers lx" "lx_pos lx = 0"
    by (simp_all add: lx_def lexer_init_def Let_def)
  have q: "sym_inv (lx_syms lx)" "length (sym_strings (lx_syms lx)) \<le> Suc (length (sym_strings s))"
    using init_symbols [OF assms(1)] assms(2) by (simp_all add: lx_def)
  have "length (lx_src lx) \<le> length src"
    by (simp add: lx_def length_takeWhile_le)
  then have r: "length (sym_strings (lx_syms lx)) + (length (lx_src lx) - lx_pos lx) \<le> 2 ^ 32"
    using q(2) p(3) assms(2) by simp
  have inv: "sym_inv s'"
    using ny_symbol_table.iter_tracked [OF p(1,2) q(1) r, of n] q r by (simp add: s'_def tracked_def)
  note nm = ny_symbol_table.stream_symbols [OF p(1,2) q(1) r, of _ n, folded s'_def, unfolded names_def]
  have d: "distinct (sym_strings s')"
    by (rule ny_symbol_table.distinct_strings [OF inv])
  show ?thesis
    unfolding Let_def lx_def [symmetric] s'_def [symmetric]
  proof (intro conjI allI impI)
    fix k assume "k < n"
    then show "if is_word (tok_kind (nth_token ny_symbols lx k))
        then sy_get ny_symbols s' (tok_sym_id (nth_token ny_symbols lx k)) = tok_text (lx_src lx) (nth_token ny_symbols lx k)
        else tok_sym_id (nth_token ny_symbols lx k) = 0"
      using nm [of k] ny_symbol_table.get_law [OF inv] by (simp split: if_splits)
  next
    fix j k
    assume "j < n" "k < n" "is_word (tok_kind (nth_token ny_symbols lx j))" "is_word (tok_kind (nth_token ny_symbols lx k))"
    then have "tok_sym_id (nth_token ny_symbols lx j) < length (sym_strings s')"
        "tok_sym_id (nth_token ny_symbols lx k) < length (sym_strings s')"
        "tok_text (lx_src lx) (nth_token ny_symbols lx j) = sym_strings s' ! tok_sym_id (nth_token ny_symbols lx j)"
        "tok_text (lx_src lx) (nth_token ny_symbols lx k) = sym_strings s' ! tok_sym_id (nth_token ny_symbols lx k)"
      using nm [of j] nm [of k] by simp_all
    then show "tok_sym_id (nth_token ny_symbols lx j) = tok_sym_id (nth_token ny_symbols lx k) \<longleftrightarrow>
        tok_text (lx_src lx) (nth_token ny_symbols lx j) = tok_text (lx_src lx) (nth_token ny_symbols lx k)"
      using nth_eq_iff_index_eq [OF d] by metis
  qed (rule inv)
qed

theorem lexer_symbols_identify_witness:
  "let s = \<lparr>st_lit = 8, st_alloc = (\<lambda>_. 16), st_copies = 0, st_table = None\<rparr>;
       lx = lexer_init ny_symbols (Some ''fn f f'') None s;
       tok = nth_token ny_symbols lx; s' = lx_syms (lex_iter ny_symbols lx 3)
   in sym_inv s' \<and> (if is_word (tok_kind (tok 1)) then sy_get ny_symbols s' (tok_sym_id (tok 1)) = tok_text (lx_src lx) (tok 1)
        else tok_sym_id (tok 1) = 0)"
proof -
  let ?s = "\<lparr>st_lit = 8, st_alloc = (\<lambda>_. 16), st_copies = 0, st_table = None\<rparr>"
  have "sym_inv ?s" "length (sym_strings ?s) + length ''fn f f'' < 2 ^ 32"
    by (simp_all add: sym_inv_def sym_strings_def g_inv_def g_strings_def)
  from lexer_symbols_identify [OF this, of None 3] show ?thesis
    by (auto simp: Let_def)
qed

end
