(* ===== verification/Bigint.thy ===== *)
theory Bigint
  imports Rt_Value
begin

text \<open>
  The big integers of the runtime (\<open>src/rt/bigint.c\<close>): sign and magnitude objects, the fast paths for
  operands of at most two 64-bit limbs, and the slow paths through GMP. GMP is not part of the
  program: an \<open>mpz_t\<close> holds an integer, and the GMP functions are parameters.
\<close>

section \<open>Values and objects\<close>

text \<open>
  A big integer object holds its sign and word count as tagged integers. A value is a word that is no
  pointer, or a pointer to an object; the other objects are those \<open>rt_long\<close> reads.
\<close>

record bi_obj =
  bi_sign :: i64
  bi_words :: i64
  bi_data :: "u64 list"

datatype rt_val =
    VWord i64
  | VBig bi_obj
  | VStr "8 word list"
  | VBytes "8 word list"
  | VSeq "rt_val list"
  | VFlt u64
  | VOther

record gmp =
  mpz_import64 :: "u64 list \<Rightarrow> int"
  mpz_export64 :: "int \<Rightarrow> u64 list"
  mpz_neg :: "int \<Rightarrow> int"
  mpz_sgn :: "int \<Rightarrow> int"
  mpz_cmp :: "int \<Rightarrow> int \<Rightarrow> int"
  mpz_add :: "int \<Rightarrow> int \<Rightarrow> int"
  mpz_sub :: "int \<Rightarrow> int \<Rightarrow> int"
  mpz_mul :: "int \<Rightarrow> int \<Rightarrow> int"

text \<open>\<open>__uint128_t\<close> and \<open>__int128\<close> arithmetic, with its wrap-around.\<close>

definition u128 :: "int \<Rightarrow> int" where "u128 x = take_bit 128 x"
definition i128 :: "int \<Rightarrow> int" where "i128 x = signed_take_bit 127 x"

definition bi_alloc :: "int \<Rightarrow> u64 list \<Rightarrow> rt_val" where
  "bi_alloc sign limbs =
     VBig \<lparr>bi_sign = rt_tag_v (word_of_int sign), bi_words = rt_tag_v (of_nat (length limbs)), bi_data = limbs\<rparr>"

text \<open>The magnitude of a signed word, written so that the minimum does not overflow.\<close>

definition i64_mag :: "i64 \<Rightarrow> u64" where
  "i64_mag v = (if sint v < 0 then - (v + 1) + 1 else v)"

definition bi_mpz_set_i64 :: "gmp \<Rightarrow> i64 \<Rightarrow> int" where
  "bi_mpz_set_i64 G v =
     (if sint v < 0 then mpz_neg G (mpz_import64 G [i64_mag v]) else mpz_import64 G [i64_mag v])"

definition bi_mpz_fits_small_int :: "gmp \<Rightarrow> int \<Rightarrow> bool" where
  "bi_mpz_fits_small_int G v =
     (if mpz_sgn G v \<ge> 0 then mpz_cmp G v (bi_mpz_set_i64 G NY_SMALL_INT_MAX) \<le> 0
      else mpz_cmp G (mpz_neg G v) (mpz_add G (bi_mpz_set_i64 G NY_SMALL_INT_MAX) 1) \<le> 0)"

text \<open>
  \<open>mpz_export\<close> writes every limb of the magnitude to a single \<open>uint64_t\<close>; \<open>None\<close> is a write behind it.
\<close>

definition bi_mpz_get_i64 :: "gmp \<Rightarrow> int \<Rightarrow> i64 option" where
  "bi_mpz_get_i64 G v =
     (let tmp = (if mpz_sgn G v < 0 then mpz_neg G v else v); out = mpz_export64 G tmp in
      if length out > 1 then None
      else let mag = (case out of [] \<Rightarrow> 0 | m # _ \<Rightarrow> m) in
        Some (if mpz_sgn G v < 0 then - (mag - 1) - 1 else mag))"

section \<open>Magnitudes\<close>

fun bi_norm_words :: "u64 list \<Rightarrow> nat \<Rightarrow> nat" where
  "bi_norm_words limbs 0 = 0"
| "bi_norm_words limbs (Suc n) = (if limbs ! n = 0 then bi_norm_words limbs n else Suc n)"

fun cmp_from :: "u64 list \<Rightarrow> u64 list \<Rightarrow> nat \<Rightarrow> int" where
  "cmp_from a b 0 = 0"
| "cmp_from a b (Suc n) =
     (if a ! n \<noteq> b ! n then (if uint (a ! n) > uint (b ! n) then 1 else -1) else cmp_from a b n)"

definition bi_cmp_mag :: "u64 list \<Rightarrow> nat \<Rightarrow> u64 list \<Rightarrow> nat \<Rightarrow> int" where
  "bi_cmp_mag a aw0 b bw0 =
     (let aw = bi_norm_words a aw0; bw = bi_norm_words b bw0 in
      if aw \<noteq> bw then (if aw > bw then 1 else -1) else cmp_from a b aw)"

text \<open>The sign, the limbs (an array of two) and the number of significant limbs of a short operand.\<close>

definition bi_read_limb2 :: "rt_val \<Rightarrow> (int \<times> u64 list \<times> nat) option" where
  "bi_read_limb2 v =
     (case v of
        VWord w \<Rightarrow>
          if is_int w then
            (let raw = rt_untag_v w in
             if raw = 0 then Some (0, [0, 0], 0)
             else Some (if sint raw < 0 then -1 else 1, [i64_mag raw, 0], 1))
          else None
      | VBig obj \<Rightarrow>
          (let s = sint (rt_untag_v (bi_sign obj)); w = sint (rt_untag_v (bi_words obj)) in
           if w < 0 \<or> w > 2 then None
           else
             let limbs = [if w > 0 then bi_data obj ! 0 else 0, if w > 1 then bi_data obj ! 1 else 0];
                 words = bi_norm_words limbs (nat w)
             in Some (if words = 0 then 0 else if s < 0 then -1 else if s > 0 then 1 else 0, limbs, words))
      | _ \<Rightarrow> None)"

definition bi_is_zero_fast :: "rt_val \<Rightarrow> bool" where
  "bi_is_zero_fast v =
     (case v of
        VWord w \<Rightarrow> is_int w \<and> rt_untag_v w = 0
      | VBig obj \<Rightarrow> rt_untag_v (bi_sign obj) = 0 \<or> sint (rt_untag_v (bi_words obj)) \<le> 0
      | _ \<Rightarrow> False)"

definition bi_from_limbs :: "int \<Rightarrow> u64 list \<Rightarrow> nat \<Rightarrow> rt_val" where
  "bi_from_limbs sign limbs words0 =
     (let words = bi_norm_words limbs words0; sign1 = (if words = 0 then 0 else sign) in
      bi_alloc (if sign1 < 0 then -1 else if sign1 > 0 then 1 else 0) (take words limbs))"

definition bi_from_limbs_or_small_int :: "int \<Rightarrow> u64 list \<Rightarrow> nat \<Rightarrow> rt_val" where
  "bi_from_limbs_or_small_int sign limbs words0 =
     (let words = bi_norm_words limbs words0; mag = limbs ! 0 in
      if words = 0 then VWord (rt_tag_v 0)
      else if words = 1 \<and> sign \<ge> 0 \<and> uint mag \<le> uint NY_SMALL_INT_MAX then VWord (rt_tag_v mag)
      else if words = 1 \<and> sign < 0 \<and> uint mag \<le> uint (NY_SMALL_INT_MAX + 1) then VWord (rt_tag_v (- mag))
      else bi_from_limbs sign limbs words)"

section \<open>128-bit results\<close>

definition bi_from_i128_value :: "int \<Rightarrow> bool \<Rightarrow> rt_val" where
  "bi_from_i128_value v compact =
     (if compact \<and> sint NY_SMALL_INT_MIN \<le> v \<and> v \<le> sint NY_SMALL_INT_MAX then VWord (rt_tag_v (word_of_int v))
      else
        let sign = (if v < 0 then -1 else if v > 0 then 1 else 0);
            mag = u128 (if v < 0 then i128 (- v) else v);
            limbs = [word_of_int mag, word_of_int (drop_bit 64 mag)];
            words = (if limbs ! 1 \<noteq> 0 then 2 else if limbs ! 0 \<noteq> 0 then 1 else 0)
        in if compact then bi_from_limbs_or_small_int sign limbs words else bi_from_limbs sign limbs words)"

text \<open>The integer of a tagged value, or \<open>None\<close> when the value is no small integer.\<close>

definition as_int :: "rt_val \<Rightarrow> int option" where
  "as_int v = (case v of VWord w \<Rightarrow> if is_int w then Some (sint (rt_untag_v w)) else None | _ \<Rightarrow> None)"

definition int_pair :: "(int \<Rightarrow> int \<Rightarrow> 'a option) \<Rightarrow> rt_val \<Rightarrow> rt_val \<Rightarrow> 'a option" where
  "int_pair f a b = (case (as_int a, as_int b) of (Some av, Some bv) \<Rightarrow> f av bv | _ \<Rightarrow> None)"

definition bi_try_submul_i64_int_pair :: "rt_val \<Rightarrow> i64 \<Rightarrow> rt_val \<Rightarrow> rt_val option" where
  "bi_try_submul_i64_int_pair a q_raw b =
     int_pair (\<lambda>av bv. Some (bi_from_i128_value (i128 (av - i128 (sint q_raw * bv))) True)) a b"

definition add_or_sub :: "bool \<Rightarrow> int \<Rightarrow> int \<Rightarrow> int" where
  "add_or_sub sub_b av bv = i128 (if sub_b then av - bv else av + bv)"

definition bi_try_add_int_pair :: "rt_val \<Rightarrow> rt_val \<Rightarrow> bool \<Rightarrow> rt_val option" where
  "bi_try_add_int_pair a b sub_b = int_pair (\<lambda>av bv. Some (bi_from_i128_value (add_or_sub sub_b av bv) True)) a b"

definition bi_try_i128_small_tag :: "int \<Rightarrow> rt_val option" where
  "bi_try_i128_small_tag v =
     (if v < sint NY_SMALL_INT_MIN \<or> v > sint NY_SMALL_INT_MAX then None
      else Some (VWord (rt_tag_v (word_of_int v))))"

definition bi_try_submul_i64_int_pair_small :: "rt_val \<Rightarrow> i64 \<Rightarrow> rt_val \<Rightarrow> rt_val option" where
  "bi_try_submul_i64_int_pair_small a q_raw b =
     int_pair (\<lambda>av bv. bi_try_i128_small_tag (i128 (av - i128 (sint q_raw * bv)))) a b"

definition bi_try_add_int_pair_small :: "rt_val \<Rightarrow> rt_val \<Rightarrow> bool \<Rightarrow> rt_val option" where
  "bi_try_add_int_pair_small a b sub_b = int_pair (\<lambda>av bv. bi_try_i128_small_tag (add_or_sub sub_b av bv)) a b"

section \<open>Sums and differences of magnitudes\<close>

definition limb :: "u64 list \<Rightarrow> nat \<Rightarrow> nat \<Rightarrow> u64" where
  "limb a aw i = (if i < aw then a ! i else 0)"

definition add_step ::
  "u64 list \<Rightarrow> nat \<Rightarrow> u64 list \<Rightarrow> nat \<Rightarrow> u64 list \<times> u64 \<Rightarrow> nat \<Rightarrow> u64 list \<times> u64" where
  "add_step a aw b bw st i =
     (case st of
        (out, carry) \<Rightarrow>
          let s = u128 (uint (limb a aw i) + uint (limb b bw i) + uint carry)
          in (out[i := word_of_int s], word_of_int (drop_bit 64 s)))"

definition bi_mag_add4 :: "u64 list \<Rightarrow> nat \<Rightarrow> u64 list \<Rightarrow> nat \<Rightarrow> u64 list \<times> nat" where
  "bi_mag_add4 a aw b bw =
     (let n = max aw bw in
      case foldl (add_step a aw b bw) ([0, 0, 0, 0], 0) [0..<n] of
        (out, carry) \<Rightarrow>
          if carry \<noteq> 0 \<and> n < 4
          then (out[n := carry], bi_norm_words (out[n := carry]) (Suc n))
          else (out, bi_norm_words out n))"

definition sub_step ::
  "u64 list \<Rightarrow> u64 list \<Rightarrow> nat \<Rightarrow> u64 list \<times> u64 \<Rightarrow> nat \<Rightarrow> u64 list \<times> u64" where
  "sub_step a b bw st i =
     (case st of
        (out, borrow) \<Rightarrow>
          let av = a ! i; bv = limb b bw i; sub = bv + borrow;
              next_borrow = (borrow \<noteq> 0 \<and> sub = 0 \<or> uint av < uint sub)
          in (out[i := av - sub], if next_borrow then 1 else 0))"

definition mag_sub :: "u64 list \<Rightarrow> u64 list \<Rightarrow> nat \<Rightarrow> u64 list \<Rightarrow> nat \<Rightarrow> u64 list \<times> nat" where
  "mag_sub out0 a aw b bw =
     (case foldl (sub_step a b bw) (out0, 0) [0..<aw] of (out, _) \<Rightarrow> (out, bi_norm_words out aw))"

definition bi_mag_sub4 :: "u64 list \<Rightarrow> nat \<Rightarrow> u64 list \<Rightarrow> nat \<Rightarrow> u64 list \<times> nat" where
  "bi_mag_sub4 a aw b bw = mag_sub [0, 0, 0, 0] a aw b bw"

definition signed_limb :: "int \<Rightarrow> u64 list \<Rightarrow> int" where
  "signed_limb s l = (if s < 0 then - uint (l ! 0) else if s > 0 then uint (l ! 0) else 0)"

definition store_limbs :: "u64 list \<Rightarrow> u64 list \<Rightarrow> nat \<Rightarrow> u64 list" where
  "store_limbs rl l w = take w l @ drop w rl"

text \<open>Signed addition of two operands in sign and magnitude form.\<close>

definition add_signed :: "int \<Rightarrow> u64 list \<Rightarrow> nat \<Rightarrow> int \<Rightarrow> u64 list \<Rightarrow> nat \<Rightarrow> int \<times> u64 list \<times> nat" where
  "add_signed sa al aw sb bl bw =
     (if sa = 0 then (sb, store_limbs [0, 0, 0, 0] bl bw, bw)
      else if sb = 0 then (sa, store_limbs [0, 0, 0, 0] al aw, aw)
      else if sa = sb then (sa, bi_mag_add4 al aw bl bw)
      else
        let c = bi_cmp_mag al aw bl bw in
        if c = 0 then (0, [0, 0, 0, 0], 0)
        else if c > 0 then (sa, bi_mag_sub4 al aw bl bw)
        else (sb, bi_mag_sub4 bl bw al aw))"

definition bi_try_add_limb2_kind :: "rt_val \<Rightarrow> rt_val \<Rightarrow> bool \<Rightarrow> bool \<Rightarrow> rt_val option" where
  "bi_try_add_limb2_kind a b sub_b compact =
     (case (as_int a, as_int b) of
        (Some av, Some bv) \<Rightarrow>
          if compact then bi_try_add_int_pair a b sub_b
          else Some (bi_from_i128_value (add_or_sub sub_b av bv) False)
      | _ \<Rightarrow>
          (case (bi_read_limb2 a, bi_read_limb2 b) of
             (Some (sa, al, aw), Some (sb0, bl, bw)) \<Rightarrow>
               let sb = (if sub_b then - sb0 else sb0) in
               if aw \<le> 1 \<and> bw \<le> 1
               then Some (bi_from_i128_value (i128 (signed_limb sa al + signed_limb sb bl)) compact)
               else
                 (case add_signed sa al aw sb bl bw of
                    (rs, rl, rw) \<Rightarrow>
                      Some (if compact then bi_from_limbs_or_small_int rs rl rw else bi_from_limbs rs rl rw))
           | _ \<Rightarrow> None))"

definition bi_try_add_limb2 :: "rt_val \<Rightarrow> rt_val \<Rightarrow> bool \<Rightarrow> rt_val option" where
  "bi_try_add_limb2 a b sub_b = bi_try_add_limb2_kind a b sub_b False"

section \<open>Products\<close>

definition mul_step :: "u64 \<Rightarrow> u64 list \<Rightarrow> nat \<Rightarrow> u64 list \<times> int \<Rightarrow> nat \<Rightarrow> u64 list \<times> int" where
  "mul_step x bl i st j =
     (case st of
        (rl, carry) \<Rightarrow>
          let cur = u128 (uint x * uint (bl ! j) + uint (rl ! (i + j)) + carry)
          in (rl[i + j := word_of_int cur], drop_bit 64 cur))"

function mul_carry :: "u64 list \<Rightarrow> nat \<Rightarrow> int \<Rightarrow> u64 list \<times> int" where
  "mul_carry rl k carry =
     (if carry \<noteq> 0 \<and> k < 4
      then let cur = u128 (uint (rl ! k) + carry)
           in mul_carry (rl[k := word_of_int cur]) (Suc k) (drop_bit 64 cur)
      else (rl, carry))"
  by pat_completeness auto
termination
  by (relation "measure (\<lambda>(rl, k, carry). 4 - k)") auto

declare mul_carry.simps [simp del]

definition mul_row :: "u64 list \<Rightarrow> u64 list \<Rightarrow> nat \<Rightarrow> nat \<Rightarrow> u64 list \<Rightarrow> u64 list option" where
  "mul_row al bl bw i rl =
     (case foldl (mul_step (al ! i) bl i) (rl, 0) [0..<bw] of
        (rl1, carry) \<Rightarrow>
          (case mul_carry rl1 (i + bw) carry of (rl2, carry2) \<Rightarrow> if carry2 \<noteq> 0 then None else Some rl2))"

fun mul_rows :: "u64 list \<Rightarrow> u64 list \<Rightarrow> nat \<Rightarrow> nat list \<Rightarrow> u64 list \<Rightarrow> u64 list option" where
  "mul_rows al bl bw [] rl = Some rl"
| "mul_rows al bl bw (i # is) rl =
     (case mul_row al bl bw i rl of None \<Rightarrow> None | Some rl' \<Rightarrow> mul_rows al bl bw is rl')"

definition bi_try_mul_limb2 :: "rt_val \<Rightarrow> rt_val \<Rightarrow> rt_val option" where
  "bi_try_mul_limb2 a b =
     (case (bi_read_limb2 a, bi_read_limb2 b) of
        (Some (sa, al, aw), Some (sb, bl, bw)) \<Rightarrow>
          if sa = 0 \<or> sb = 0 then Some (bi_from_limbs 0 [0, 0, 0, 0] 0)
          else map_option (\<lambda>rl. bi_from_limbs (if sa = sb then 1 else -1) rl 4)
                 (mul_rows al bl bw [0..<aw] [0, 0, 0, 0])
      | _ \<Rightarrow> None)"

section \<open>Multiply and subtract\<close>

text \<open>
  The end of both variants: \<open>a\<close> minus a product given by its sign and four limbs, in a result of
  five limbs.
\<close>

definition sub_product :: "int \<Rightarrow> u64 list \<Rightarrow> nat \<Rightarrow> int \<Rightarrow> u64 list \<Rightarrow> nat \<Rightarrow> (int \<times> u64 list \<times> nat) option" where
  "sub_product sa al aw rhs_sign pl pw =
     (let zero = [0, 0, 0, 0, 0] in
      if sa = 0 then Some (rhs_sign, store_limbs zero pl pw, pw)
      else if pw = 0 then Some (sa, store_limbs zero al aw, aw)
      else if sa = rhs_sign then
        (let n = max aw pw in
         case foldl (add_step al aw pl pw) (zero, 0) [0..<n] of
           (rl, carry) \<Rightarrow>
             if carry \<noteq> 0
             then if n \<ge> 5 then None else Some (sa, rl[n := carry], bi_norm_words (rl[n := carry]) (Suc n))
             else Some (sa, rl, bi_norm_words rl n))
      else
        let c = bi_cmp_mag al aw pl pw in
        if c = 0 then Some (0, zero, 0)
        else if c > 0 then Some (sa, mag_sub zero al aw pl pw)
        else Some (rhs_sign, mag_sub zero pl pw al aw))"

definition from_signed :: "int \<times> u64 list \<times> nat \<Rightarrow> rt_val" where
  "from_signed r = (case r of (rs, rl, rw) \<Rightarrow> bi_from_limbs_or_small_int rs rl rw)"

definition bi_try_submul_limb2 :: "rt_val \<Rightarrow> rt_val \<Rightarrow> rt_val \<Rightarrow> rt_val option" where
  "bi_try_submul_limb2 a q b =
     (case (bi_read_limb2 a, bi_read_limb2 q, bi_read_limb2 b) of
        (Some (sa, al, aw), Some (sq, ql, qw), Some (sb, bl, bw)) \<Rightarrow>
          if sq = 0 \<or> sb = 0 then Some (bi_from_limbs_or_small_int sa al aw)
          else
            (case mul_rows ql bl bw [0..<qw] [0, 0, 0, 0] of
               None \<Rightarrow> None
             | Some pl \<Rightarrow>
                 let pw = bi_norm_words pl 4; ps = (if sq = sb then 1 else -1)
                 in map_option from_signed (sub_product sa al aw (- ps) pl pw))
      | _ \<Rightarrow> None)"

text \<open>The product of a word and a magnitude, with the carry as an extra limb.\<close>

definition word_mul_step :: "u64 \<Rightarrow> u64 list \<Rightarrow> u64 list \<times> int \<Rightarrow> nat \<Rightarrow> u64 list \<times> int" where
  "word_mul_step qmag bl st i =
     (case st of
        (pl, carry) \<Rightarrow>
          let cur = u128 (uint qmag * uint (bl ! i) + carry) in (pl[i := word_of_int cur], drop_bit 64 cur))"

definition word_mul :: "u64 \<Rightarrow> u64 list \<Rightarrow> nat \<Rightarrow> (u64 list \<times> nat) option" where
  "word_mul qmag bl bw =
     (case foldl (word_mul_step qmag bl) ([0, 0, 0, 0], 0) [0..<bw] of
        (pl, carry) \<Rightarrow>
          if carry \<noteq> 0
          then if bw \<ge> 4 then None
               else Some (pl[bw := word_of_int carry], bi_norm_words (pl[bw := word_of_int carry]) (Suc bw))
          else Some (pl, bi_norm_words pl bw))"

definition bi_try_submul_i64_limb2 :: "rt_val \<Rightarrow> i64 \<Rightarrow> rt_val \<Rightarrow> rt_val option" where
  "bi_try_submul_i64_limb2 a q_raw b =
     (case (as_int a, as_int b) of
        (Some _, Some _) \<Rightarrow> bi_try_submul_i64_int_pair a q_raw b
      | _ \<Rightarrow>
          (case (bi_read_limb2 a, bi_read_limb2 b) of
             (Some (sa, al, aw), Some (sb, bl, bw)) \<Rightarrow>
               if q_raw = 0 \<or> sb = 0 then Some (bi_from_limbs_or_small_int sa al aw)
               else if aw \<le> 1 \<and> bw \<le> 1
               then Some (bi_from_i128_value
                      (i128 (signed_limb sa al - i128 (sint q_raw * signed_limb sb bl))) True)
               else
                 (case word_mul (i64_mag q_raw) bl bw of
                    None \<Rightarrow> None
                  | Some (pl, pw) \<Rightarrow>
                      let sq = (if sint q_raw < 0 then -1 else 1); ps = (if sq = sb then 1 else -1)
                      in map_option from_signed (sub_product sa al aw (- ps) pl pw))
           | _ \<Rightarrow> None))"

section \<open>Conversion to and from GMP\<close>

definition bi_val_to_mpz :: "gmp \<Rightarrow> rt_val \<Rightarrow> int" where
  "bi_val_to_mpz G v =
     (case v of
        VWord w \<Rightarrow> if is_int w then bi_mpz_set_i64 G (rt_untag_v w) else 0
      | VBig obj \<Rightarrow>
          let words = sint (rt_untag_v (bi_words obj)) in
          if words > 0 then
            (let z = mpz_import64 G (take (nat words) (bi_data obj)) in
             if sint (rt_untag_v (bi_sign obj)) < 0 then mpz_neg G z else z)
          else 0
      | _ \<Rightarrow> 0)"

definition bi_from_mpz :: "gmp \<Rightarrow> int \<Rightarrow> rt_val" where
  "bi_from_mpz G val =
     (let sign = mpz_sgn G val in
      if sign = 0 then bi_alloc 0 [] else bi_alloc (if sign > 0 then 1 else -1) (mpz_export64 G val))"

definition bi_from_i64 :: "gmp \<Rightarrow> i64 \<Rightarrow> rt_val" where
  "bi_from_i64 G v = bi_from_mpz G (bi_mpz_set_i64 G v)"

section \<open>The operations\<close>

definition fast_or :: "rt_val option \<Rightarrow> rt_val \<Rightarrow> rt_val" where
  "fast_or fast slow = (case fast of Some r \<Rightarrow> r | None \<Rightarrow> slow)"

definition rt_bigint_add :: "gmp \<Rightarrow> rt_val \<Rightarrow> rt_val \<Rightarrow> rt_val" where
  "rt_bigint_add G a b =
     fast_or (bi_try_add_limb2 a b False) (bi_from_mpz G (mpz_add G (bi_val_to_mpz G a) (bi_val_to_mpz G b)))"

definition rt_bigint_sub :: "gmp \<Rightarrow> rt_val \<Rightarrow> rt_val \<Rightarrow> rt_val" where
  "rt_bigint_sub G a b =
     fast_or (bi_try_add_limb2 a b True) (bi_from_mpz G (mpz_sub G (bi_val_to_mpz G a) (bi_val_to_mpz G b)))"

definition rt_bigint_mul :: "gmp \<Rightarrow> rt_val \<Rightarrow> rt_val \<Rightarrow> rt_val" where
  "rt_bigint_mul G a b =
     fast_or (bi_try_mul_limb2 a b) (bi_from_mpz G (mpz_mul G (bi_val_to_mpz G a) (bi_val_to_mpz G b)))"

text \<open>The fast paths of \<open>rt_bigint_submul\<close> are tried in this order.\<close>

fun first_some :: "'a option list \<Rightarrow> 'a option" where
  "first_some [] = None"
| "first_some (x # xs) = (case x of Some y \<Rightarrow> Some y | None \<Rightarrow> first_some xs)"

definition try_if :: "bool \<Rightarrow> 'a option \<Rightarrow> 'a option" where
  "try_if c x = (if c then x else None)"

definition submul_slow :: "gmp \<Rightarrow> rt_val \<Rightarrow> rt_val \<Rightarrow> rt_val \<Rightarrow> rt_val" where
  "submul_slow G a q b =
     bi_from_mpz G (mpz_sub G (bi_val_to_mpz G a) (mpz_mul G (bi_val_to_mpz G q) (bi_val_to_mpz G b)))"

definition rt_bigint_submul :: "gmp \<Rightarrow> rt_val \<Rightarrow> rt_val \<Rightarrow> rt_val \<Rightarrow> rt_val" where
  "rt_bigint_submul G a q b =
     (if q = VWord (rt_tag_v 0) \<or> bi_is_zero_fast b then a
      else fast_or
        (first_some
          [try_if (q = VWord (rt_tag_v 1)) (bi_try_add_limb2_kind a b True True),
           try_if (q = VWord (rt_tag_v (-1))) (bi_try_add_limb2_kind a b False True),
           (case q of VWord w \<Rightarrow> try_if (is_int w) (bi_try_submul_i64_limb2 a (rt_untag_v w) b) | _ \<Rightarrow> None),
           bi_try_submul_limb2 a q b])
        (submul_slow G a q b))"

text \<open>
  The rows are the item arrays of two lists. An index behind the end of a row is a read outside the
  object: \<open>None\<close>.
\<close>

definition row_step :: "(rt_val \<Rightarrow> rt_val \<Rightarrow> rt_val) \<Rightarrow> rt_val list \<Rightarrow> rt_val list \<Rightarrow> nat \<Rightarrow> rt_val list" where
  "row_step f rj rk c = (if bi_is_zero_fast (rj ! c) then rk else rk[c := f (rk ! c) (rj ! c)])"

definition row_op :: "gmp \<Rightarrow> rt_val \<Rightarrow> rt_val \<Rightarrow> rt_val \<Rightarrow> rt_val" where
  "row_op G q x b =
     (case q of
        VWord w \<Rightarrow>
          if is_int w then
            (let q_raw = rt_untag_v w in
             if q_raw = 1 \<or> q_raw = -1
             then fast_or (first_some [bi_try_add_int_pair_small x b (q_raw = 1),
                                       bi_try_add_limb2_kind x b (q_raw = 1) True]) (rt_bigint_submul G x q b)
             else fast_or (first_some [bi_try_submul_i64_int_pair_small x q_raw b,
                                       bi_try_submul_i64_limb2 x q_raw b]) (rt_bigint_submul G x q b))
          else rt_bigint_submul G x q b
      | _ \<Rightarrow> rt_bigint_submul G x q b)"

definition row_loop :: "gmp \<Rightarrow> rt_val \<Rightarrow> rt_val list \<Rightarrow> rt_val list \<Rightarrow> nat \<Rightarrow> rt_val option" where
  "row_loop G q rk rj n =
     (if n \<le> length rk \<and> n \<le> length rj then Some (VSeq (foldl (row_step (row_op G q) rj) rk [0..<n])) else None)"

definition word_int :: "i64 \<Rightarrow> int" where
  "word_int w = (if is_int w then sint (rt_untag_v w) else sint w)"

definition rt_bigint_row_submul :: "gmp \<Rightarrow> rt_val list \<Rightarrow> rt_val list \<Rightarrow> rt_val \<Rightarrow> i64 \<Rightarrow> rt_val option" where
  "rt_bigint_row_submul G rk rj q limit_v =
     (let limit = word_int limit_v in
      if limit < 0 \<or> q = VWord (rt_tag_v 0) then Some (VSeq rk) else row_loop G q rk rj (nat limit + 1))"

fun last_nonzero :: "rt_val list \<Rightarrow> nat \<Rightarrow> nat" where
  "last_nonzero rj 0 = 0"
| "last_nonzero rj (Suc n) = (if bi_is_zero_fast (rj ! n) then last_nonzero rj n else Suc n)"

text \<open>The length is the one of \<open>row_j\<close>; trailing zeros are skipped.\<close>

definition rt_bigint_row_submul_auto :: "gmp \<Rightarrow> rt_val list \<Rightarrow> rt_val list \<Rightarrow> rt_val \<Rightarrow> rt_val option" where
  "rt_bigint_row_submul_auto G rk rj q =
     (if q = VWord (rt_tag_v 0) then Some (VSeq rk)
      else let n = last_nonzero rj (length rj) in if n = 0 then Some (VSeq rk) else row_loop G q rk rj n)"


section \<open>Operations delegated to GMP\<close>

text \<open>
  Each takes the GMP function it calls as a parameter. Division by zero panics (\<open>Inl\<close>).
\<close>

datatype bi_error = DivisionByZero | ModuloByZero | StackOverwrite

definition rt_bigint_div :: "gmp \<Rightarrow> (int \<Rightarrow> int \<Rightarrow> int) \<Rightarrow> rt_val \<Rightarrow> rt_val \<Rightarrow> bi_error + rt_val" where
  "rt_bigint_div G mpz_tdiv_q a b =
     (if mpz_sgn G (bi_val_to_mpz G b) = 0 then Inl DivisionByZero
      else Inr (bi_from_mpz G (mpz_tdiv_q (bi_val_to_mpz G a) (bi_val_to_mpz G b))))"

definition rt_bigint_mod :: "gmp \<Rightarrow> (int \<Rightarrow> int \<Rightarrow> int) \<Rightarrow> rt_val \<Rightarrow> rt_val \<Rightarrow> bi_error + rt_val" where
  "rt_bigint_mod G mpz_fdiv_r a b =
     (if mpz_sgn G (bi_val_to_mpz G b) = 0 then Inl ModuloByZero
      else Inr (bi_from_mpz G (mpz_fdiv_r (bi_val_to_mpz G a) (bi_val_to_mpz G b))))"

definition bi_binary_bitop :: "gmp \<Rightarrow> (int \<Rightarrow> int \<Rightarrow> int) \<Rightarrow> rt_val \<Rightarrow> rt_val \<Rightarrow> rt_val" where
  "bi_binary_bitop G op a b = bi_from_mpz G (op (bi_val_to_mpz G a) (bi_val_to_mpz G b))"

definition rt_bigint_or :: "gmp \<Rightarrow> (int \<Rightarrow> int \<Rightarrow> int) \<Rightarrow> rt_val \<Rightarrow> rt_val \<Rightarrow> rt_val" where
  "rt_bigint_or G mpz_ior a b = bi_binary_bitop G mpz_ior a b"

definition rt_bigint_xor :: "gmp \<Rightarrow> (int \<Rightarrow> int \<Rightarrow> int) \<Rightarrow> rt_val \<Rightarrow> rt_val \<Rightarrow> rt_val" where
  "rt_bigint_xor G mpz_xor a b = bi_binary_bitop G mpz_xor a b"

definition rt_bigint_cmp :: "gmp \<Rightarrow> rt_val \<Rightarrow> rt_val \<Rightarrow> rt_val" where
  "rt_bigint_cmp G a b =
     (let r = mpz_cmp G (bi_val_to_mpz G a) (bi_val_to_mpz G b)
      in VWord (rt_tag_v (if r > 0 then 1 else if r < 0 then -1 else 0)))"

definition rt_bigint_to_str :: "gmp \<Rightarrow> (int \<Rightarrow> 8 word list) \<Rightarrow> rt_val \<Rightarrow> rt_val" where
  "rt_bigint_to_str G mpz_get_str a = VStr (mpz_get_str (bi_val_to_mpz G a))"

text \<open>\<open>mpz_set_str\<close> gives no number for a string that is no decimal.\<close>

definition rt_bigint_from_str :: "gmp \<Rightarrow> (8 word list \<Rightarrow> int option) \<Rightarrow> rt_val \<Rightarrow> rt_val" where
  "rt_bigint_from_str G mpz_set_str v =
     (case v of
        VStr s \<Rightarrow> (case mpz_set_str s of None \<Rightarrow> VWord 0 | Some z \<Rightarrow> bi_from_mpz G z)
      | _ \<Rightarrow> VWord 0)"

definition rt_bigint_to_bytes :: "gmp \<Rightarrow> (int \<Rightarrow> 8 word list) \<Rightarrow> rt_val \<Rightarrow> rt_val" where
  "rt_bigint_to_bytes G mpz_export8 a =
     (let z = bi_val_to_mpz G a in
      if mpz_sgn G z = 0 then VSeq [VWord (rt_tag_v 0)]
      else VSeq (map (\<lambda>b. VWord (rt_tag_v (ucast b))) (mpz_export8 z)))"

definition rt_bigint_powmod :: "gmp \<Rightarrow> (int \<Rightarrow> int \<Rightarrow> int \<Rightarrow> int) \<Rightarrow> rt_val \<Rightarrow> rt_val \<Rightarrow> rt_val \<Rightarrow> rt_val" where
  "rt_bigint_powmod G mpz_powm b e m =
     bi_from_mpz G (mpz_powm (bi_val_to_mpz G b) (bi_val_to_mpz G e) (bi_val_to_mpz G m))"

definition rt_bigint_modinv :: "gmp \<Rightarrow> (int \<Rightarrow> int \<Rightarrow> int option) \<Rightarrow> rt_val \<Rightarrow> rt_val \<Rightarrow> rt_val" where
  "rt_bigint_modinv G mpz_invert a m =
     (case mpz_invert (bi_val_to_mpz G a) (bi_val_to_mpz G m) of
        Some z \<Rightarrow> bi_from_mpz G z
      | None \<Rightarrow> bi_from_i64 G 0)"

definition rt_bigint_gcd :: "gmp \<Rightarrow> (int \<Rightarrow> int \<Rightarrow> int) \<Rightarrow> rt_val \<Rightarrow> rt_val \<Rightarrow> rt_val" where
  "rt_bigint_gcd G mpz_gcd a b = bi_from_mpz G (mpz_gcd (bi_val_to_mpz G a) (bi_val_to_mpz G b))"

definition rt_bigint_bitlen :: "gmp \<Rightarrow> (int \<Rightarrow> nat) \<Rightarrow> rt_val \<Rightarrow> rt_val" where
  "rt_bigint_bitlen G mpz_sizeinbase2 a = VWord (rt_tag_v (of_nat (mpz_sizeinbase2 (bi_val_to_mpz G a))))"

definition rt_bigint_popcount :: "gmp \<Rightarrow> (int \<Rightarrow> u64) \<Rightarrow> rt_val \<Rightarrow> rt_val" where
  "rt_bigint_popcount G mpz_popcount a = VWord (rt_tag_v (mpz_popcount (bi_val_to_mpz G a)))"

definition rt_bigint_to_int :: "gmp \<Rightarrow> rt_val \<Rightarrow> bi_error + rt_val" where
  "rt_bigint_to_int G a =
     (case bi_mpz_get_i64 G (bi_val_to_mpz G a) of
        None \<Rightarrow> Inl StackOverwrite
      | Some v \<Rightarrow> Inr (VWord (rt_tag_v v)))"

definition rt_bigint_from_int :: "gmp \<Rightarrow> i64 \<Rightarrow> rt_val" where
  "rt_bigint_from_int G n = bi_from_i64 G (rt_untag_v n)"

definition rt_bigint_from_bytes_be :: "gmp \<Rightarrow> (8 word list \<Rightarrow> int) \<Rightarrow> 8 word list \<Rightarrow> rt_val" where
  "rt_bigint_from_bytes_be G mpz_import8 bytes =
     bi_from_mpz G (if bytes \<noteq> [] then mpz_import8 bytes else 0)"

definition rt_long_bytes_like :: "gmp \<Rightarrow> (8 word list \<Rightarrow> int) \<Rightarrow> 8 word list \<Rightarrow> rt_val" where
  "rt_long_bytes_like G mpz_import8 bytes =
     (if bytes = [] then bi_from_i64 G 0 else rt_bigint_from_bytes_be G mpz_import8 bytes)"

text \<open>Items that are no small integer count as zero; small integers are cut to a byte.\<close>

definition seq_byte :: "rt_val \<Rightarrow> int" where
  "seq_byte item = (case as_int item of Some k \<Rightarrow> k AND 255 | None \<Rightarrow> 0)"

definition seq_to_mpz :: "gmp \<Rightarrow> rt_val list \<Rightarrow> int" where
  "seq_to_mpz G items = foldl (\<lambda>out item. mpz_add G (mpz_mul G out 256) (seq_byte item)) 0 items"

text \<open>The conversion of a float to \<open>int64_t\<close> is a parameter.\<close>

definition rt_long :: "gmp \<Rightarrow> (8 word list \<Rightarrow> int) \<Rightarrow> (u64 \<Rightarrow> i64) \<Rightarrow> rt_val \<Rightarrow> rt_val" where
  "rt_long G mpz_import8 f64_to_i64 v =
     (case v of
        VWord w \<Rightarrow> if is_int w then bi_from_i64 G (rt_untag_v w) else bi_from_i64 G 0
      | VFlt bits \<Rightarrow> bi_from_i64 G (f64_to_i64 bits)
      | VStr bytes \<Rightarrow> rt_long_bytes_like G mpz_import8 bytes
      | VBig obj \<Rightarrow> v
      | VBytes bytes \<Rightarrow> rt_long_bytes_like G mpz_import8 bytes
      | VSeq items \<Rightarrow> if items = [] then bi_from_i64 G 0 else bi_from_mpz G (seq_to_mpz G items)
      | VOther \<Rightarrow> bi_from_i64 G 0)"

definition rt_bigint_pow :: "gmp \<Rightarrow> (int \<Rightarrow> u64) \<Rightarrow> (int \<Rightarrow> u64 \<Rightarrow> int) \<Rightarrow> rt_val \<Rightarrow> rt_val \<Rightarrow> rt_val" where
  "rt_bigint_pow G mpz_get_ui mpz_pow_ui b e =
     bi_from_mpz G (mpz_pow_ui (bi_val_to_mpz G b) (mpz_get_ui (bi_val_to_mpz G e)))"

definition rt_bigint_isqrt :: "gmp \<Rightarrow> (int \<Rightarrow> int) \<Rightarrow> rt_val \<Rightarrow> rt_val" where
  "rt_bigint_isqrt G mpz_sqrt a = bi_from_mpz G (mpz_sqrt (bi_val_to_mpz G a))"

definition rt_bigint_legendre :: "gmp \<Rightarrow> (int \<Rightarrow> int \<Rightarrow> int) \<Rightarrow> rt_val \<Rightarrow> rt_val \<Rightarrow> rt_val" where
  "rt_bigint_legendre G mpz_legendre a p =
     VWord (rt_tag_v (word_of_int (mpz_legendre (bi_val_to_mpz G a) (bi_val_to_mpz G p))))"

definition rt_bigint_jacobi :: "gmp \<Rightarrow> (int \<Rightarrow> int \<Rightarrow> int) \<Rightarrow> rt_val \<Rightarrow> rt_val \<Rightarrow> rt_val" where
  "rt_bigint_jacobi G mpz_jacobi a n =
     VWord (rt_tag_v (word_of_int (mpz_jacobi (bi_val_to_mpz G a) (bi_val_to_mpz G n))))"

definition rt_bigint_kronecker :: "gmp \<Rightarrow> (int \<Rightarrow> int \<Rightarrow> int) \<Rightarrow> rt_val \<Rightarrow> rt_val \<Rightarrow> rt_val" where
  "rt_bigint_kronecker G mpz_kronecker a n =
     VWord (rt_tag_v (word_of_int (mpz_kronecker (bi_val_to_mpz G a) (bi_val_to_mpz G n))))"

definition rt_bigint_iroot :: "gmp \<Rightarrow> (int \<Rightarrow> u64 \<Rightarrow> int) \<Rightarrow> rt_val \<Rightarrow> i64 \<Rightarrow> rt_val" where
  "rt_bigint_iroot G mpz_root n k = bi_from_mpz G (mpz_root (bi_val_to_mpz G n) (rt_untag_v k))"

definition rt_bigint_is_perfect_square :: "gmp \<Rightarrow> (int \<Rightarrow> int) \<Rightarrow> rt_val \<Rightarrow> rt_val" where
  "rt_bigint_is_perfect_square G mpz_perfect_square_p n =
     VWord (rt_tag_v (word_of_int (mpz_perfect_square_p (bi_val_to_mpz G n))))"

definition rt_bigint_xgcd :: "gmp \<Rightarrow> (int \<Rightarrow> int \<Rightarrow> int \<times> int \<times> int) \<Rightarrow> rt_val \<Rightarrow> rt_val \<Rightarrow> rt_val" where
  "rt_bigint_xgcd G mpz_gcdext a b =
     (case mpz_gcdext (bi_val_to_mpz G a) (bi_val_to_mpz G b) of
        (g, x, y) \<Rightarrow> VSeq [bi_from_mpz G g, bi_from_mpz G x, bi_from_mpz G y])"

definition rt_bigint_clz :: "gmp \<Rightarrow> (int \<Rightarrow> nat) \<Rightarrow> rt_val \<Rightarrow> rt_val" where
  "rt_bigint_clz G mpz_sizeinbase2 a =
     (let z = bi_val_to_mpz G a in
      if mpz_sgn G z = 0 then VWord (rt_tag_v 64)
      else let limb_bits = mpz_sizeinbase2 z mod 64
           in VWord (rt_tag_v (of_nat (if limb_bits \<noteq> 0 then 64 - limb_bits else 0))))"

definition rt_bigint_ctz :: "gmp \<Rightarrow> (int \<Rightarrow> u64) \<Rightarrow> rt_val \<Rightarrow> rt_val" where
  "rt_bigint_ctz G mpz_scan1 a = VWord (rt_tag_v (mpz_scan1 (bi_val_to_mpz G a)))"

section \<open>Polynomials over GF(2)\<close>

text \<open>The bit operations of GMP used here.\<close>

record gmp_bits =
  mpz_sizeinbase2 :: "int \<Rightarrow> nat"
  mpz_mul_2exp :: "int \<Rightarrow> nat \<Rightarrow> int"
  mpz_fdiv_q_2exp :: "int \<Rightarrow> nat \<Rightarrow> int"
  mpz_xor :: "int \<Rightarrow> int \<Rightarrow> int"
  mpz_tstbit :: "int \<Rightarrow> nat \<Rightarrow> bool"
  mpz_setbit :: "int \<Rightarrow> nat \<Rightarrow> int"

definition bi_gf2_deg :: "gmp \<Rightarrow> gmp_bits \<Rightarrow> int \<Rightarrow> int" where
  "bi_gf2_deg G B a = (if mpz_sgn G a = 0 then -1 else int (mpz_sizeinbase2 B a) - 1)"

text \<open>The loops need not end: a negative number keeps its degree.\<close>

partial_function (option) gf2_mod_loop :: "gmp \<Rightarrow> gmp_bits \<Rightarrow> int \<Rightarrow> int \<Rightarrow> int option" where
  "gf2_mod_loop G B m out =
     (let a_deg = bi_gf2_deg G B out; m_deg = bi_gf2_deg G B m in
      if a_deg < m_deg then Some out
      else gf2_mod_loop G B m (mpz_xor B out (mpz_mul_2exp B m (nat (a_deg - m_deg)))))"

definition bi_gf2_mod_mpz :: "gmp \<Rightarrow> gmp_bits \<Rightarrow> int \<Rightarrow> int \<Rightarrow> int option" where
  "bi_gf2_mod_mpz G B a m = (if bi_gf2_deg G B m < 0 then Some 0 else gf2_mod_loop G B m a)"

partial_function (option) gf2_div_loop :: "gmp \<Rightarrow> gmp_bits \<Rightarrow> int \<Rightarrow> int \<Rightarrow> int \<Rightarrow> (int \<times> int) option" where
  "gf2_div_loop G B b q r =
     (let r_deg = bi_gf2_deg G B r; b_deg = bi_gf2_deg G B b in
      if r_deg < b_deg then Some (q, r)
      else let shift = nat (r_deg - b_deg)
           in gf2_div_loop G B b (mpz_setbit B q shift) (mpz_xor B r (mpz_mul_2exp B b shift)))"

definition bi_gf2_div_qr_mpz :: "gmp \<Rightarrow> gmp_bits \<Rightarrow> int \<Rightarrow> int \<Rightarrow> (int \<times> int) option" where
  "bi_gf2_div_qr_mpz G B a b = (if bi_gf2_deg G B b < 0 then Some (0, a) else gf2_div_loop G B b 0 a)"

partial_function (option) gf2_mul_loop :: "gmp \<Rightarrow> gmp_bits \<Rightarrow> int \<Rightarrow> int \<Rightarrow> int \<Rightarrow> int \<Rightarrow> int option" where
  "gf2_mul_loop G B m va vb out =
     (if mpz_sgn G vb = 0 then Some out
      else
        let out' = (if mpz_tstbit B vb 0 then mpz_xor B out va else out);
            vb' = mpz_fdiv_q_2exp B vb 1;
            va1 = mpz_mul_2exp B va 1;
            va' = (if mpz_sgn G vb' \<noteq> 0
                   then if mpz_tstbit B va1 (nat (bi_gf2_deg G B m)) then mpz_xor B va1 m else va1
                   else va)
        in gf2_mul_loop G B m va' vb' out')"

definition bi_gf2_mulmod_mpz :: "gmp \<Rightarrow> gmp_bits \<Rightarrow> int \<Rightarrow> int \<Rightarrow> int \<Rightarrow> int option" where
  "bi_gf2_mulmod_mpz G B a b m =
     (if bi_gf2_deg G B m < 0 then Some 0
      else (case bi_gf2_mod_mpz G B a m of None \<Rightarrow> None | Some va \<Rightarrow> gf2_mul_loop G B m va b 0))"

definition rt_bigint_gf2_mod :: "gmp \<Rightarrow> gmp_bits \<Rightarrow> rt_val \<Rightarrow> rt_val \<Rightarrow> rt_val option" where
  "rt_bigint_gf2_mod G B a m =
     map_option (bi_from_mpz G) (bi_gf2_mod_mpz G B (bi_val_to_mpz G a) (bi_val_to_mpz G m))"

definition rt_bigint_gf2_mulmod :: "gmp \<Rightarrow> gmp_bits \<Rightarrow> rt_val \<Rightarrow> rt_val \<Rightarrow> rt_val \<Rightarrow> rt_val option" where
  "rt_bigint_gf2_mulmod G B a b m =
     map_option (bi_from_mpz G)
       (bi_gf2_mulmod_mpz G B (bi_val_to_mpz G a) (bi_val_to_mpz G b) (bi_val_to_mpz G m))"

partial_function (option) gf2_inv_loop ::
  "gmp \<Rightarrow> gmp_bits \<Rightarrow> int \<Rightarrow> int \<Rightarrow> int \<Rightarrow> int \<Rightarrow> int \<Rightarrow> (int \<times> int) option" where
  "gf2_inv_loop G B mm r0 r1 t0 t1 =
     (if mpz_sgn G r1 = 0 then Some (r0, t0)
      else
        (case bi_gf2_div_qr_mpz G B r0 r1 of
           None \<Rightarrow> None
         | Some (q, rem) \<Rightarrow>
             (case bi_gf2_mulmod_mpz G B q t1 mm of
                None \<Rightarrow> None
              | Some pr \<Rightarrow>
                  (case bi_gf2_mod_mpz G B (mpz_xor B t0 pr) mm of
                     None \<Rightarrow> None
                   | Some next_t \<Rightarrow> gf2_inv_loop G B mm r1 rem t1 next_t))))"

definition rt_bigint_gf2_inv :: "gmp \<Rightarrow> gmp_bits \<Rightarrow> rt_val \<Rightarrow> rt_val \<Rightarrow> rt_val option" where
  "rt_bigint_gf2_inv G B a m =
     (let mm = bi_val_to_mpz G m in
      case bi_gf2_mod_mpz G B (bi_val_to_mpz G a) mm of
        None \<Rightarrow> None
      | Some r1 \<Rightarrow>
          map_option (\<lambda>(r0, t0). if bi_gf2_deg G B r0 > 0 then bi_from_i64 G 0 else bi_from_mpz G t0)
            (gf2_inv_loop G B mm mm r1 0 1))"

section \<open>Constant-time helpers\<close>

text \<open>The pointers are \<open>None\<close> when \<open>NULL\<close>, else the bytes at them; the length is shifted out of its tag.\<close>

definition rt_ct_compare :: "8 word list option \<Rightarrow> 8 word list option \<Rightarrow> i64 \<Rightarrow> i64" where
  "rt_ct_compare a b len_val =
     (let len = unat (signed_drop_bit 1 len_val) in
      case (a, b) of
        (Some xs, Some ys) \<Rightarrow>
          if len = 0 then rt_tag_v 0
          else rt_tag_v (ucast (foldl (\<lambda>r i. r OR (xs ! i XOR ys ! i)) 0 [0..<len]))
      | _ \<Rightarrow> rt_tag_v 0)"

definition ct_is_zero :: "u64 \<Rightarrow> u64" where
  "ct_is_zero d = drop_bit 63 (d OR (0 - d)) XOR 1"

definition rt_ct_select :: "i64 \<Rightarrow> i64 \<Rightarrow> i64 \<Rightarrow> i64" where
  "rt_ct_select a b condition =
     (let is_0 = ct_is_zero condition;
          is_1 = ct_is_zero (condition XOR 1);
          is_false = ct_is_zero (condition XOR NY_IMM_FALSE);
          is_falsy = is_0 OR is_1 OR is_false;
          msk = 0 - (1 - is_falsy)
      in (a AND msk) OR (b AND NOT msk))"


end
