(* ===== verification/Bigint_Correct.thy ===== *)
theory Bigint_Correct
  imports Bigint
begin

text \<open>
  Correctness of the big integers: the arithmetic on limbs computes the arithmetic of integers, so
  the fast paths agree with GMP.
\<close>

section \<open>The value of a sequence of limbs\<close>

fun lv :: "u64 list \<Rightarrow> int" where
  "lv [] = 0"
| "lv (x # xs) = uint x + 2 ^ 64 * lv xs"

abbreviation mag :: "u64 list \<Rightarrow> nat \<Rightarrow> int" where
  "mag xs n \<equiv> lv (take n xs)"

lemma uint64_bounds: "0 \<le> uint (x :: u64)" "uint (x :: u64) < 2 ^ 64"
  using uint_lt2p [of x] by simp_all

lemma lv_append: "lv (xs @ ys) = lv xs + 2 ^ (64 * length xs) * lv ys"
  by (induction xs) (simp_all add: power_add algebra_simps)

lemma lv_nonneg: "0 \<le> lv xs"
  by (induction xs) simp_all

lemma lv_less: "lv xs < 2 ^ (64 * length xs)"
proof (induction xs)
  case (Cons x xs)
  then have "lv xs + 1 \<le> 2 ^ (64 * length xs)"
    by simp
  then have "2 ^ 64 * (lv xs + 1) \<le> 2 ^ 64 * (2 ^ (64 * length xs) :: int)"
    by (rule mult_left_mono) simp
  then show ?case
    using uint64_bounds [of x] by (simp add: power_add algebra_simps)
qed simp

lemma mag_less: "n \<le> length xs \<Longrightarrow> mag xs n < 2 ^ (64 * n)"
  using lv_less [of "take n xs"] by simp

lemma mag_Suc: "n < length xs \<Longrightarrow> mag xs (Suc n) = mag xs n + 2 ^ (64 * n) * uint (xs ! n)"
  by (simp add: take_Suc_conv_app_nth lv_append)

lemma lv_update:
  assumes "i < length xs"
  shows "lv (xs[i := y]) = lv xs + 2 ^ (64 * i) * (uint y - uint (xs ! i))"
proof -
  have "lv xs = lv (take i xs @ xs ! i # drop (Suc i) xs)"
    using assms by (simp add: id_take_nth_drop [symmetric])
  then show ?thesis
    using assms by (simp add: upd_conv_take_nth_drop lv_append algebra_simps)
qed

lemma mag_zeros: "mag (replicate k 0) n = 0"
  by (induction k arbitrary: n) (auto simp: take_Cons split: nat.splits)

lemma mag_upd_above: "n \<le> i \<Longrightarrow> mag (xs[i := y]) n = mag xs n"
  by simp

lemma split_limb: "0 \<le> (s :: int) \<Longrightarrow> uint (word_of_int s :: u64) + 2 ^ 64 * drop_bit 64 s = s"
  by (simp add: uint_word_of_int drop_bit_eq_div)

section \<open>Normalised counts\<close>

definition normal :: "u64 list \<Rightarrow> nat \<Rightarrow> bool" where
  "normal xs n \<longleftrightarrow> n \<le> length xs \<and> (n = 0 \<or> xs ! (n - 1) \<noteq> 0)"

lemma norm_words_le: "bi_norm_words xs n \<le> n"
  by (induction n) auto

lemma norm_words_normal: "n \<le> length xs \<Longrightarrow> normal xs (bi_norm_words xs n)"
  by (induction n) (auto simp: normal_def)

lemma norm_words_mag: "n \<le> length xs \<Longrightarrow> mag xs (bi_norm_words xs n) = mag xs n"
  by (induction n) (auto simp: mag_Suc)

lemma norm_words_id: "normal xs n \<Longrightarrow> bi_norm_words xs n = n"
  by (cases n) (auto simp: normal_def)

lemma normal_mag_ge:
  assumes "normal xs (Suc n)"
  shows "2 ^ (64 * n) \<le> mag xs (Suc n)"
proof -
  have "1 \<le> uint (xs ! n)"
    using assms uint64_bounds(1) [of "xs ! n"] by (simp add: normal_def unsigned_eq_0_iff order_le_less flip: int_one_le_iff_zero_less)
  then have "(2 ^ (64 * n) :: int) * 1 \<le> 2 ^ (64 * n) * uint (xs ! n)"
    by (intro mult_left_mono) auto
  then have "(2 ^ (64 * n) :: int) \<le> 2 ^ (64 * n) * uint (xs ! n)"
    by (simp only: mult_1_right)
  moreover have "mag xs (Suc n) = mag xs n + 2 ^ (64 * n) * uint (xs ! n)"
    using assms by (intro mag_Suc) (simp add: normal_def)
  ultimately show ?thesis
    using lv_nonneg [of "take n xs"] by linarith
qed

lemma normal_mag_zero: "normal xs n \<Longrightarrow> mag xs n = 0 \<longleftrightarrow> n = 0"
  using normal_mag_ge [of xs "n - 1"] by (cases n) (auto simp: not_le)

lemma normal_count_less:
  assumes "normal a aw" "normal b bw" "aw < bw"
  shows "mag a aw < mag b bw"
proof -
  obtain k where k: "bw = Suc k" "aw \<le> k"
    using assms(3) by (cases bw) auto
  have "mag a aw < 2 ^ (64 * aw)"
    using assms(1) by (intro mag_less) (simp add: normal_def)
  also have "(2 ^ (64 * aw) :: int) \<le> 2 ^ (64 * k)"
    using k(2) by (intro power_increasing) auto
  also have "\<dots> \<le> mag b bw"
    using assms(2) k(1) normal_mag_ge by blast
  finally show ?thesis .
qed

lemma cmp_from_sgn: "n \<le> length a \<Longrightarrow> n \<le> length b \<Longrightarrow> cmp_from a b n = sgn (mag a n - mag b n)"
proof (induction n)
  case (Suc n)
  have lt: "mag a n < 2 ^ (64 * n)" "mag b n < 2 ^ (64 * n)" "0 \<le> mag a n" "0 \<le> mag b n"
    using Suc.prems by (auto intro: mag_less lv_nonneg)
  have gap: "2 ^ (64 * n) * uint y + 2 ^ (64 * n) \<le> (2 ^ (64 * n) * uint x :: int)" if "uint y < uint x" for x y :: u64
  proof -
    have "(2 ^ (64 * n) :: int) * (uint y + 1) \<le> 2 ^ (64 * n) * uint x"
      using that by (intro mult_left_mono) auto
    then show ?thesis
      by (simp add: algebra_simps)
  qed
  consider "a ! n = b ! n" | "uint (a ! n) < uint (b ! n)" | "uint (b ! n) < uint (a ! n)"
    by (metis linorder_less_linear word_eq_iff_unsigned)
  then show ?case
  proof cases
    case 1
    then show ?thesis
      using Suc by (simp add: mag_Suc)
  next
    case 2
    then have "a ! n \<noteq> b ! n"
      by auto
    moreover have "mag a (Suc n) < mag b (Suc n)"
      using gap [OF 2] lt Suc.prems by (simp add: mag_Suc)
    ultimately show ?thesis
      using 2 by simp
  next
    case 3
    then have "a ! n \<noteq> b ! n"
      by auto
    moreover have "mag b (Suc n) < mag a (Suc n)"
      using gap [OF 3] lt Suc.prems by (simp add: mag_Suc)
    ultimately show ?thesis
      using 3 by simp
  qed
qed simp

lemma cmp_mag_sgn:
  assumes "aw \<le> length a" "bw \<le> length b"
  shows "bi_cmp_mag a aw b bw = sgn (mag a aw - mag b bw)"
proof -
  let ?aw = "bi_norm_words a aw" and ?bw = "bi_norm_words b bw"
  have n: "normal a ?aw" "normal b ?bw" and m: "mag a ?aw = mag a aw" "mag b ?bw = mag b bw"
    using assms by (simp_all add: norm_words_normal norm_words_mag)
  consider "?aw = ?bw" | "?aw < ?bw" | "?bw < ?aw"
    by linarith
  then show ?thesis
  proof cases
    case 1
    then show ?thesis
      using n m cmp_from_sgn [of ?bw a b] by (simp add: bi_cmp_mag_def Let_def normal_def)
  next
    case 2
    then show ?thesis
      using normal_count_less [OF n 2] m by (simp add: bi_cmp_mag_def Let_def)
  next
    case 3
    then show ?thesis
      using normal_count_less [OF n(2,1) 3] m by (simp add: bi_cmp_mag_def Let_def)
  qed
qed

section \<open>Sums and differences\<close>

definition pad :: "u64 list \<Rightarrow> nat \<Rightarrow> nat \<Rightarrow> int" where
  "pad a aw n = lv (map (limb a aw) [0..<n])"

lemma pad_0 [simp]: "pad a aw 0 = 0"
  by (simp add: pad_def)

lemma pad_Suc: "pad a aw (Suc n) = pad a aw n + 2 ^ (64 * n) * uint (limb a aw n)"
  by (simp add: pad_def lv_append)

lemma pad_mag: "aw \<le> length a \<Longrightarrow> pad a aw n = mag a (min n aw)"
proof (induction n)
  case (Suc n)
  then show ?case
    by (cases "n < aw") (auto simp: pad_Suc limb_def mag_Suc min_def)
qed simp

lemma add_step_parts:
  assumes "uint c \<le> 1"
  obtains r c' where "add_step a aw b bw (out, c) i = (out[i := r], c')" "uint c' \<le> 1"
    "uint r + 2 ^ 64 * uint c' = uint (limb a aw i) + uint (limb b bw i) + uint c"
proof -
  let ?x = "uint (limb a aw i)" and ?y = "uint (limb b bw i)"
  define s where "s = ?x + ?y + uint c"
  have s: "0 \<le> s" "s < 2 ^ 65"
    using uint64_bounds [of "limb a aw i"] uint64_bounds [of "limb b bw i"] uint64_bounds [of c] assms
    by (simp_all add: s_def)
  then have u: "u128 s = s" "0 \<le> drop_bit 64 s" "drop_bit 64 s \<le> 1"
    by (simp_all add: u128_def take_bit_int_eq_self drop_bit_eq_div)
  then have c': "uint (word_of_int (drop_bit 64 s) :: u64) = drop_bit 64 s"
    by (simp add: uint_word_of_int)
  show ?thesis
    by (rule that [of "word_of_int s" "word_of_int (drop_bit 64 s)"])
       (use u c' split_limb [OF s(1)] in \<open>simp_all add: add_step_def Let_def flip: s_def\<close>)
qed

lemma add_loop:
  assumes "n \<le> length out0"
  obtains out c where "foldl (add_step a aw b bw) (out0, 0) [0..<n] = (out, c)" "length out = length out0"
    "uint c \<le> 1" "mag out n + 2 ^ (64 * n) * uint c = pad a aw n + pad b bw n"
  using assms
proof (induction n arbitrary: thesis)
  case (Suc n)
  obtain out c where IH: "foldl (add_step a aw b bw) (out0, 0) [0..<n] = (out, c)" "length out = length out0"
      "uint c \<le> 1" "mag out n + 2 ^ (64 * n) * uint c = pad a aw n + pad b bw n"
    using Suc.IH Suc.prems(2) by auto
  obtain r c' where st: "add_step a aw b bw (out, c) n = (out[n := r], c')" "uint c' \<le> 1"
      "uint r + 2 ^ 64 * uint c' = uint (limb a aw n) + uint (limb b bw n) + uint c"
    by (rule add_step_parts [OF IH(3)])
  have "mag (out[n := r]) (Suc n) + 2 ^ (64 * Suc n) * uint c' =
      mag out n + 2 ^ (64 * n) * (uint r + 2 ^ 64 * uint c')"
    using IH(2) Suc.prems(2) by (simp add: mag_Suc power_add algebra_simps)
  also have "\<dots> = pad a aw (Suc n) + pad b bw (Suc n)"
    using IH(4) unfolding st(3) pad_Suc by (simp add: algebra_simps)
  finally show ?case
    using Suc.prems(1) [of "out[n := r]" c'] IH(1,2) st(1,2) by simp
qed simp

lemma mod64_diff:
  assumes "0 \<le> x" "x < 2 ^ 64" "0 \<le> y" "y < (2 ^ 64 :: int)"
  shows "(x - y) mod 2 ^ 64 = (if x < y then x - y + 2 ^ 64 else x - y)"
proof (cases "x < y")
  case True
  have "(x - y + 2 ^ 64) mod 2 ^ 64 = x - y + 2 ^ 64"
    by (rule mod_pos_pos_trivial) (use assms True in linarith)+
  then show ?thesis
    using True by simp
next
  case False
  have "(x - y) mod 2 ^ 64 = x - y"
    by (rule mod_pos_pos_trivial) (use assms False in linarith)+
  then show ?thesis
    using False by simp
qed

lemma sub_step_parts:
  assumes "c = 0 \<or> c = 1"
  obtains r c' where "sub_step a b bw (out, c) i = (out[i := r], c')" "c' = 0 \<or> c' = 1"
    "uint r - 2 ^ 64 * uint c' = uint (a ! i) - uint (limb b bw i) - uint c"
proof -
  let ?x = "a ! i" and ?y = "limb b bw i"
  define r c' where rc: "r = ?x - (?y + c)"
    "c' = (if c \<noteq> 0 \<and> ?y + c = 0 \<or> uint ?x < uint (?y + c) then 1 else 0 :: u64)"
  have b: "0 \<le> uint ?x" "uint ?x < 2 ^ 64" "0 \<le> uint ?y" "uint ?y < 2 ^ 64"
    by (rule uint64_bounds)+
  have "uint r - 2 ^ 64 * uint c' = uint ?x - uint ?y - uint c"
  proof (cases "uint ?y + uint c < 2 ^ 64")
    case True
    then have s: "uint (?y + c) = uint ?y + uint c"
      by (simp add: uint_word_ariths)
    have "uint (?y + c) \<noteq> 0" if "c \<noteq> 0"
    proof -
      have "uint c = 1"
        using assms that by auto
      then show ?thesis
        using s b(3) by linarith
    qed
    then have "c \<noteq> 0 \<and> ?y + c = 0 \<longleftrightarrow> False"
      by (metis unsigned_0)
    then have "c' = (if uint ?x < uint ?y + uint c then 1 else 0)"
      unfolding rc(2) s by (simp only: simp_thms)
    moreover have "uint r = (uint ?x - (uint ?y + uint c)) mod 2 ^ 64"
      by (simp add: rc uint_word_ariths(2) s)
    moreover have "(uint ?x - (uint ?y + uint c)) mod 2 ^ 64 =
        (if uint ?x < uint ?y + uint c then uint ?x - (uint ?y + uint c) + 2 ^ 64 else uint ?x - (uint ?y + uint c))"
      using b True uint64_bounds(1) [of c] by (intro mod64_diff) linarith+
    ultimately show ?thesis
      by simp
  next
    case False
    then have c: "c = 1" "uint ?y = 2 ^ 64 - 1"
      using assms b(4) by auto
    then have "uint (?y + c) = 0"
      by (simp add: uint_word_ariths)
    then have "?y + c = 0"
      by (simp only: unsigned_eq_0_iff)
    then show ?thesis
      using c by (simp add: rc)
  qed
  then show ?thesis
    using that [of r c'] by (simp add: sub_step_def Let_def rc)
qed

lemma sub_loop:
  assumes "n \<le> length out0" "n \<le> length a"
  obtains out c where "foldl (sub_step a b bw) (out0, 0) [0..<n] = (out, c)" "length out = length out0"
    "c = 0 \<or> c = 1" "mag out n - 2 ^ (64 * n) * uint c = mag a n - pad b bw n"
  using assms
proof (induction n arbitrary: thesis)
  case (Suc n)
  obtain out c where IH: "foldl (sub_step a b bw) (out0, 0) [0..<n] = (out, c)" "length out = length out0"
      "c = 0 \<or> c = 1" "mag out n - 2 ^ (64 * n) * uint c = mag a n - pad b bw n"
    using Suc.IH Suc.prems(2,3) by auto
  obtain r c' where st: "sub_step a b bw (out, c) n = (out[n := r], c')" "c' = 0 \<or> c' = 1"
      "uint r - 2 ^ 64 * uint c' = uint (a ! n) - uint (limb b bw n) - uint c"
    by (rule sub_step_parts [OF IH(3)])
  have "mag (out[n := r]) (Suc n) - 2 ^ (64 * Suc n) * uint c' =
      mag out n + 2 ^ (64 * n) * (uint r - 2 ^ 64 * uint c')"
    using IH(2) Suc.prems(2) by (simp add: mag_Suc power_add algebra_simps)
  also have "\<dots> = mag a (Suc n) - pad b bw (Suc n)"
    using IH(4) Suc.prems(3) unfolding st(3) pad_Suc by (simp add: mag_Suc algebra_simps)
  finally show ?case
    using Suc.prems(1) [of "out[n := r]" c'] IH(1,2) st(1,2) by simp
qed simp


text \<open>The end of an addition: the carry becomes a new limb.\<close>

lemma add_finish:
  assumes "n < length out0" "aw \<le> n" "bw \<le> n" "aw \<le> length a" "bw \<le> length b"
  obtains out c where "foldl (add_step a aw b bw) (out0, 0) [0..<n] = (out, c)" "length out = length out0"
    "c \<noteq> 0 \<Longrightarrow> mag (out[n := c]) (Suc n) = mag a aw + mag b bw" "c = 0 \<Longrightarrow> mag out n = mag a aw + mag b bw"
proof -
  obtain out c where o: "foldl (add_step a aw b bw) (out0, 0) [0..<n] = (out, c)" "length out = length out0"
      "uint c \<le> 1" "mag out n + 2 ^ (64 * n) * uint c = pad a aw n + pad b bw n"
    by (rule add_loop [of n out0 a aw b bw]) (use assms(1) in auto)
  have "pad a aw n = mag a aw" "pad b bw n = mag b bw"
    using assms by (simp_all add: pad_mag min_absorb2)
  then have "mag out n + 2 ^ (64 * n) * uint c = mag a aw + mag b bw"
    using o(4) by simp
  then show ?thesis
    by (intro that [OF o(1,2)]) (use o(2) assms(1) in \<open>simp_all add: mag_Suc\<close>)
qed

lemma mag_add4_ok:
  assumes "aw \<le> length a" "bw \<le> length b" "aw \<le> 3" "bw \<le> 3"
  obtains out n where "bi_mag_add4 a aw b bw = (out, n)" "normal out n" "mag out n = mag a aw + mag b bw"
proof -
  let ?n = "max aw bw"
  obtain out c where o: "foldl (add_step a aw b bw) ([0, 0, 0, 0], 0) [0..<?n] = (out, c)" "length out = 4"
    "c \<noteq> 0 \<Longrightarrow> mag (out[?n := c]) (Suc ?n) = mag a aw + mag b bw" "c = 0 \<Longrightarrow> mag out ?n = mag a aw + mag b bw"
    by (rule add_finish [of ?n "[0, 0, 0, 0]" aw bw a b]) (use assms in auto)
  show ?thesis
  proof (cases "c = 0")
    case True
    then show ?thesis
      using that [of out "bi_norm_words out ?n"] o assms
      by (simp add: bi_mag_add4_def Let_def norm_words_normal norm_words_mag)
  next
    case False
    then show ?thesis
      using that [of "out[?n := c]" "bi_norm_words (out[?n := c]) (Suc ?n)"] o assms
        norm_words_normal [of "Suc ?n" "out[?n := c]"] norm_words_mag [of "Suc ?n" "out[?n := c]"]
      by (simp add: bi_mag_add4_def Let_def del: bi_norm_words.simps)
  qed
qed

lemma mag_sub_ok:
  assumes "aw \<le> length out0" "normal a aw" "normal b bw" "mag b bw \<le> mag a aw"
  obtains out n where "mag_sub out0 a aw b bw = (out, n)" "normal out n" "mag out n = mag a aw - mag b bw"
proof -
  have bw: "bw \<le> aw"
    using normal_count_less [OF assms(2,3)] assms(4) by linarith
  have l: "aw \<le> length a" "bw \<le> length b"
    using assms(2,3) by (simp_all add: normal_def)
  obtain out c where o: "foldl (sub_step a b bw) (out0, 0) [0..<aw] = (out, c)" "length out = length out0"
      "c = 0 \<or> c = 1" "mag out aw - 2 ^ (64 * aw) * uint c = mag a aw - pad b bw aw"
    by (rule sub_loop [OF assms(1) l(1)])
  have e: "mag out aw - 2 ^ (64 * aw) * uint c = mag a aw - mag b bw"
    using o(4) bw l(2) by (simp add: pad_mag min_absorb2)
  have "mag out aw < 2 ^ (64 * aw)"
    using assms(1) o(2) by (intro mag_less) simp
  then have "uint c = 0"
    using e assms(4) o(3) by auto
  then show ?thesis
    using that [of out "bi_norm_words out aw"] o(1,2) e assms(1)
    by (simp add: mag_sub_def norm_words_normal norm_words_mag)
qed

lemma store_limbs_ok:
  assumes "normal l w" "w \<le> length rl"
  shows "normal (store_limbs rl l w) w" "mag (store_limbs rl l w) w = mag l w"
  using assms by (auto simp: store_limbs_def normal_def nth_append min_absorb2)

definition sign_ok :: "int \<Rightarrow> bool" where
  "sign_ok s \<longleftrightarrow> s = -1 \<or> s = 0 \<or> s = 1"

text \<open>A sign, an array and a count that denote \<open>v\<close>.\<close>

definition denotes :: "int \<times> u64 list \<times> nat \<Rightarrow> int \<Rightarrow> bool" where
  "denotes r v = (case r of (s, l, w) \<Rightarrow> sign_ok s \<and> normal l w \<and> (s = 0 \<longrightarrow> w = 0) \<and> v = s * mag l w)"

lemma denotesI: "sign_ok s \<Longrightarrow> normal l w \<Longrightarrow> (s = 0 \<Longrightarrow> w = 0) \<Longrightarrow> v = s * mag l w \<Longrightarrow> denotes (s, l, w) v"
  by (simp add: denotes_def)

lemma signed_difference:
  assumes a: "denotes (sa, al, aw) x" "sa \<noteq> 0" and b: "denotes (sb, bl, bw) y" "sb \<noteq> 0" and ne: "sa \<noteq> sb"
    and len: "aw \<le> length zero" "bw \<le> length zero"
  shows "bi_cmp_mag al aw bl bw = 0 \<Longrightarrow> x + y = 0"
    "bi_cmp_mag al aw bl bw > 0 \<Longrightarrow> denotes (sa, mag_sub zero al aw bl bw) (x + y)"
    "bi_cmp_mag al aw bl bw < 0 \<Longrightarrow> denotes (sb, mag_sub zero bl bw al aw) (x + y)"
proof -
  have n: "normal al aw" "normal bl bw" and xy: "x = sa * mag al aw" "y = sb * mag bl bw"
    and s: "sign_ok sa" "sign_ok sb"
    using a(1) b(1) by (simp_all add: denotes_def)
  have opp: "sb = - sa"
    using s a(2) b(2) ne by (auto simp: sign_ok_def)
  have c: "bi_cmp_mag al aw bl bw = sgn (mag al aw - mag bl bw)"
    using n by (intro cmp_mag_sgn) (simp_all add: normal_def)
  show "x + y = 0" if "bi_cmp_mag al aw bl bw = 0"
    using that c xy opp by (simp add: sgn_if split: if_splits)
  show "denotes (sa, mag_sub zero al aw bl bw) (x + y)" if "bi_cmp_mag al aw bl bw > 0"
  proof -
    have "mag bl bw \<le> mag al aw"
      using that c by (simp add: sgn_if split: if_splits)
    then obtain out n where "mag_sub zero al aw bl bw = (out, n)" "normal out n" "mag out n = mag al aw - mag bl bw"
      by (rule mag_sub_ok [OF len(1) n])
    then show ?thesis
      using s(1) a(2) xy opp by (simp add: denotes_def right_diff_distrib)
  qed
  show "denotes (sb, mag_sub zero bl bw al aw) (x + y)" if "bi_cmp_mag al aw bl bw < 0"
  proof -
    have "mag al aw \<le> mag bl bw"
      using that c by (simp add: sgn_if split: if_splits)
    then obtain out n where "mag_sub zero bl bw al aw = (out, n)" "normal out n" "mag out n = mag bl bw - mag al aw"
      by (rule mag_sub_ok [OF len(2) n(2,1)])
    then show ?thesis
      using s(2) b(2) xy opp by (simp add: denotes_def right_diff_distrib)
  qed
qed

lemma denotes_zero: "denotes (0, l, 0) 0"
  by (simp add: denotes_def sign_ok_def normal_def)

lemma add_signed_ok:
  assumes a: "denotes (sa, al, aw) x" and b: "denotes (sb, bl, bw) y" and w: "aw \<le> 3" "bw \<le> 3"
  shows "denotes (add_signed sa al aw sb bl bw) (x + y)"
proof -
  have n: "normal al aw" "normal bl bw" and xy: "x = sa * mag al aw" "y = sb * mag bl bw"
    and s: "sign_ok sa" "sign_ok sb" and l: "aw \<le> length al" "bw \<le> length bl"
    using a b by (simp_all add: denotes_def normal_def)
  consider "sa = 0" | "sa \<noteq> 0" "sb = 0" | "sa \<noteq> 0" "sb \<noteq> 0" "sa = sb" | "sa \<noteq> 0" "sb \<noteq> 0" "sa \<noteq> sb"
    by blast
  then show ?thesis
  proof cases
    case 1
    then show ?thesis
      using b xy w store_limbs_ok [OF n(2), of "[0, 0, 0, 0]"] by (simp add: add_signed_def denotes_def)
  next
    case 2
    then show ?thesis
      using a xy w store_limbs_ok [OF n(1), of "[0, 0, 0, 0]"] by (simp add: add_signed_def denotes_def)
  next
    case 3
    obtain out k where "bi_mag_add4 al aw bl bw = (out, k)" "normal out k" "mag out k = mag al aw + mag bl bw"
      by (rule mag_add4_ok [OF l w])
    then show ?thesis
      using 3 s xy by (simp add: add_signed_def denotes_def distrib_left)
  next
    case 4
    have len: "aw \<le> length [0, 0, 0, 0 :: u64]" "bw \<le> length [0, 0, 0, 0 :: u64]"
      using w by simp_all
    note d = signed_difference [OF a 4(1) b 4(2,3) len]
    show ?thesis
      using 4 d denotes_zero
      by (cases "bi_cmp_mag al aw bl bw" "0 :: int" rule: linorder_cases)
         (simp_all add: add_signed_def Let_def bi_mag_sub4_def)
  qed
qed


section \<open>Products\<close>

text \<open>One step of schoolbook multiplication never overflows 128 bits.\<close>

lemma mul_cur:
  fixes x y r :: u64 and c :: int
  assumes "0 \<le> c" "c < 2 ^ 64"
  defines "cur \<equiv> uint x * uint y + uint r + c"
  shows "u128 cur = cur" "0 \<le> cur" "0 \<le> drop_bit 64 cur" "drop_bit 64 cur < 2 ^ 64"
proof -
  have "uint x * uint y \<le> (2 ^ 64 - 1) * (2 ^ 64 - 1)"
    using uint64_bounds [of x] uint64_bounds [of y] by (intro mult_mono) linarith+
  moreover have "0 \<le> uint x * uint y"
    by simp
  ultimately show c: "0 \<le> cur"
    using uint64_bounds [of r] assms(1) unfolding cur_def by linarith
  have hi: "cur < 2 ^ 128"
    using \<open>uint x * uint y \<le> (2 ^ 64 - 1) * (2 ^ 64 - 1)\<close> uint64_bounds [of r] assms(2) unfolding cur_def by simp
  then show "u128 cur = cur"
    using c by (simp add: u128_def take_bit_int_eq_self)
  show "0 \<le> drop_bit 64 cur" "drop_bit 64 cur < 2 ^ 64"
    using c hi by (simp_all add: drop_bit_eq_div)
qed

lemma mul_loop:
  assumes "i + n \<le> length rl0" "n \<le> length bl"
  obtains rl c where "foldl (mul_step x bl i) (rl0, 0) [0..<n] = (rl, c)" "length rl = length rl0"
    "0 \<le> c" "c < 2 ^ 64" "lv rl + 2 ^ (64 * (i + n)) * c = lv rl0 + 2 ^ (64 * i) * (uint x * mag bl n)"
  using assms
proof (induction n arbitrary: thesis)
  case 0
  show ?case
    by (rule "0.prems"(1) [of rl0 0]) simp_all
next
  case (Suc n)
  obtain rl c where IH: "foldl (mul_step x bl i) (rl0, 0) [0..<n] = (rl, c)" "length rl = length rl0"
      "0 \<le> c" "c < 2 ^ 64" "lv rl + 2 ^ (64 * (i + n)) * c = lv rl0 + 2 ^ (64 * i) * (uint x * mag bl n)"
    using Suc.IH Suc.prems(2,3) by auto
  define cur where "cur = uint x * uint (bl ! n) + uint (rl ! (i + n)) + c"
  note cur = mul_cur [OF IH(3,4), of x "bl ! n" "rl ! (i + n)", folded cur_def]
  have st: "mul_step x bl i (rl, c) n = (rl[i + n := word_of_int cur], drop_bit 64 cur)"
    by (simp add: mul_step_def cur(1) flip: cur_def)
  have "lv (rl[i + n := word_of_int cur]) + 2 ^ (64 * (i + Suc n)) * drop_bit 64 cur =
      lv rl + 2 ^ (64 * (i + n)) * (uint (word_of_int cur :: u64) + 2 ^ 64 * drop_bit 64 cur - uint (rl ! (i + n)))"
    using IH(2) Suc.prems(2) by (simp add: lv_update power_add algebra_simps)
  also have "\<dots> = lv rl + 2 ^ (64 * (i + n)) * c + 2 ^ (64 * (i + n)) * (uint x * uint (bl ! n))"
    unfolding split_limb [OF cur(2)] by (simp add: cur_def algebra_simps)
  also have "\<dots> = lv rl0 + 2 ^ (64 * i) * (uint x * mag bl (Suc n))"
    unfolding IH(5) using Suc.prems(3) by (simp add: mag_Suc power_add algebra_simps)
  finally show ?case
    using Suc.prems(1) [of "rl[i + n := word_of_int cur]" "drop_bit 64 cur"] IH(1,2) st cur(3,4) by simp
qed

lemma mul_carry_ok:
  assumes "length rl = 4" "k \<le> 4" "0 \<le> c" "c < 2 ^ 64" "mul_carry rl k c = (rl', c')"
  shows "length rl' = 4 \<and> 0 \<le> c' \<and> lv rl + 2 ^ (64 * k) * c = lv rl' + 2 ^ (64 * 4) * c'"
  using assms
proof (induction rl k c rule: mul_carry.induct)
  case (1 rl k c)
  show ?case
  proof (cases "c \<noteq> 0 \<and> k < 4")
    case True
    define cur where "cur = uint (rl ! k) + c"
    have cur: "0 \<le> cur" "cur < 2 ^ 65"
      using "1.prems"(3,4) uint64_bounds [of "rl ! k"] by (simp_all add: cur_def)
    then have u: "u128 cur = cur" "0 \<le> drop_bit 64 cur" "drop_bit 64 cur < 2 ^ 64"
      by (simp_all add: u128_def take_bit_int_eq_self drop_bit_eq_div)
    have eq: "mul_carry (rl[k := word_of_int cur]) (Suc k) (drop_bit 64 cur) = (rl', c')"
      using "1.prems"(5) True u(1) by (subst (asm) mul_carry.simps) (simp add: Let_def flip: cur_def)
    have "length rl' = 4 \<and> 0 \<le> c' \<and>
        lv (rl[k := word_of_int cur]) + 2 ^ (64 * Suc k) * drop_bit 64 cur = lv rl' + 2 ^ (64 * 4) * c'"
      using "1.IH" [OF True, of cur] "1.prems" True u eq by (simp add: cur_def)
    moreover have "lv (rl[k := word_of_int cur]) + 2 ^ (64 * Suc k) * drop_bit 64 cur =
        lv rl + 2 ^ (64 * k) * (uint (word_of_int cur :: u64) + 2 ^ 64 * drop_bit 64 cur - uint (rl ! k))"
      using "1.prems"(1) True by (simp add: lv_update power_add algebra_simps)
    ultimately show ?thesis
      unfolding split_limb [OF cur(1)] by (simp add: cur_def)
  next
    case False
    then have "rl' = rl" "c' = c" "c = 0 \<or> k = 4"
      using "1.prems"(2,5) by (subst (asm) mul_carry.simps; auto split: if_splits)+
    then show ?thesis
      using "1.prems" by auto
  qed
qed

lemma mul_row_ok:
  assumes "length rl = 4" "i + bw \<le> 4" "bw \<le> length bl"
    "lv rl + 2 ^ (64 * i) * (uint (al ! i) * mag bl bw) < 2 ^ (64 * 4)"
  obtains rl' where "mul_row al bl bw i rl = Some rl'" "length rl' = 4"
    "lv rl' = lv rl + 2 ^ (64 * i) * (uint (al ! i) * mag bl bw)"
proof -
  obtain rl1 c where 1: "foldl (mul_step (al ! i) bl i) (rl, 0) [0..<bw] = (rl1, c)" "length rl1 = length rl"
      "0 \<le> c" "c < 2 ^ 64" "lv rl1 + 2 ^ (64 * (i + bw)) * c = lv rl + 2 ^ (64 * i) * (uint (al ! i) * mag bl bw)"
    by (rule mul_loop [of i bw rl bl "al ! i"]) (use assms in auto)
  obtain rl2 c2 where 2: "mul_carry rl1 (i + bw) c = (rl2, c2)"
    by fastforce
  have 3: "length rl2 = 4" "0 \<le> c2" "lv rl1 + 2 ^ (64 * (i + bw)) * c = lv rl2 + 2 ^ (64 * 4) * c2"
    using mul_carry_ok [OF _ _ 1(3,4) 2] 1(2) assms(1,2) by auto
  have "c2 = 0"
  proof (rule ccontr)
    assume "c2 \<noteq> 0"
    then have "(2 ^ (64 * 4) :: int) * 1 \<le> 2 ^ (64 * 4) * c2"
      using 3(2) by (intro mult_left_mono) auto
    then show False
      using assms(4) 1(5) 3(3) lv_nonneg [of rl2] by linarith
  qed
  then show ?thesis
    using that [of rl2] 1 2 3 by (simp add: mul_row_def)
qed

lemma mul_rows_ok:
  assumes "aw \<le> length al" "bw \<le> length bl" "aw \<le> 2" "bw \<le> 2" "m \<le> aw" "length rl = 4"
    "lv rl = mag al m * mag bl bw"
  shows "\<exists>rl'. mul_rows al bl bw [m..<aw] rl = Some rl' \<and> length rl' = 4 \<and> lv rl' = mag al aw * mag bl bw"
  using assms(5-7)
proof (induction "aw - m" arbitrary: m rl)
  case 0
  then show ?case
    by simp
next
  case (Suc d)
  then have m: "m < aw" "m < length al"
    using assms(1) by auto
  have tot: "lv rl + 2 ^ (64 * m) * (uint (al ! m) * mag bl bw) = mag al (Suc m) * mag bl bw"
    using Suc.prems(3) m(2) by (simp add: mag_Suc algebra_simps)
  have "mag al (Suc m) * mag bl bw < 2 ^ (64 * 2) * 2 ^ (64 * 2)"
  proof (rule mult_strict_mono')
    show "mag al (Suc m) < 2 ^ (64 * 2)"
      using mag_less [of "Suc m" al] m assms(3) power_increasing [of "64 * Suc m" "64 * 2" "2 :: int"] by simp
    show "mag bl bw < 2 ^ (64 * 2)"
      using mag_less [of bw bl] assms(2,4) power_increasing [of "64 * bw" "64 * 2" "2 :: int"] by simp
  qed (rule lv_nonneg)+
  then have "lv rl + 2 ^ (64 * m) * (uint (al ! m) * mag bl bw) < 2 ^ (64 * 4)"
    unfolding tot by simp
  then obtain rl' where r: "mul_row al bl bw m rl = Some rl'" "length rl' = 4" "lv rl' = mag al (Suc m) * mag bl bw"
    using mul_row_ok [of rl m bw bl al] Suc.prems(2) m assms(2-4) tot by auto
  have "[m..<aw] = m # [Suc m..<aw]"
    using m(1) by (simp add: upt_conv_Cons)
  then show ?case
    using Suc.hyps(1) [of "Suc m" rl'] Suc.hyps(2) m r by simp
qed


lemma word_mul_loop:
  assumes "n \<le> length pl0" "n \<le> length bl"
  obtains pl c where "foldl (word_mul_step x bl) (pl0, 0) [0..<n] = (pl, c)" "length pl = length pl0"
    "0 \<le> c" "c < 2 ^ 64" "mag pl n + 2 ^ (64 * n) * c = uint x * mag bl n"
  using assms
proof (induction n arbitrary: thesis)
  case (Suc n)
  obtain pl c where IH: "foldl (word_mul_step x bl) (pl0, 0) [0..<n] = (pl, c)" "length pl = length pl0"
      "0 \<le> c" "c < 2 ^ 64" "mag pl n + 2 ^ (64 * n) * c = uint x * mag bl n"
    using Suc.IH Suc.prems(2,3) by auto
  define cur where "cur = uint x * uint (bl ! n) + uint (0 :: u64) + c"
  note cur = mul_cur [OF IH(3,4), of x "bl ! n" 0, folded cur_def]
  have st: "word_mul_step x bl (pl, c) n = (pl[n := word_of_int cur], drop_bit 64 cur)"
    using cur(1) by (simp add: word_mul_step_def cur_def)
  have "mag (pl[n := word_of_int cur]) (Suc n) + 2 ^ (64 * Suc n) * drop_bit 64 cur =
      mag pl n + 2 ^ (64 * n) * (uint (word_of_int cur :: u64) + 2 ^ 64 * drop_bit 64 cur)"
    using IH(2) Suc.prems(2) by (simp add: mag_Suc power_add algebra_simps)
  also have "\<dots> = (mag pl n + 2 ^ (64 * n) * c) + 2 ^ (64 * n) * (uint x * uint (bl ! n))"
    unfolding split_limb [OF cur(2)] by (simp add: cur_def algebra_simps)
  also have "\<dots> = uint x * mag bl (Suc n)"
    unfolding IH(5) using Suc.prems(3) by (simp add: mag_Suc algebra_simps)
  finally show ?case
    using Suc.prems(1) [of "pl[n := word_of_int cur]" "drop_bit 64 cur"] IH(1,2) st cur(3,4) by simp
qed simp

lemma word_mul_ok:
  assumes "bw \<le> length bl" "bw \<le> 3"
  obtains pl pw where "word_mul x bl bw = Some (pl, pw)" "length pl = 4" "normal pl pw" "mag pl pw = uint x * mag bl bw"
proof -
  obtain pl c where p: "foldl (word_mul_step x bl) ([0, 0, 0, 0], 0) [0..<bw] = (pl, c)" "length pl = 4"
      "0 \<le> c" "c < 2 ^ 64" "mag pl bw + 2 ^ (64 * bw) * c = uint x * mag bl bw"
    by (rule word_mul_loop [of bw "[0, 0, 0, 0]" bl x]) (use assms in auto)
  show ?thesis
  proof (cases "c = 0")
    case True
    then show ?thesis
      using that [of pl "bi_norm_words pl bw"] p assms
      by (simp add: word_mul_def norm_words_normal norm_words_mag)
  next
    case False
    let ?pl = "pl[bw := word_of_int c]"
    have "uint (word_of_int c :: u64) = c"
      using p(3,4) by (simp add: uint_word_of_int)
    then have m: "mag ?pl (Suc bw) = uint x * mag bl bw"
      using p(2,5) assms(2) by (simp add: mag_Suc)
    then show ?thesis
      using that [of ?pl "bi_norm_words ?pl (Suc bw)"] False p(1,2) assms
        norm_words_normal [of "Suc bw" ?pl] norm_words_mag [of "Suc bw" ?pl]
      by (simp add: word_mul_def del: bi_norm_words.simps)
  qed
qed

lemma denotes_nonzero: "denotes (s, l, w) v \<Longrightarrow> s \<noteq> 0 \<Longrightarrow> w \<noteq> 0 \<Longrightarrow> v \<noteq> 0"
  by (auto simp: denotes_def normal_mag_zero)

lemma sub_product_ok:
  assumes a: "denotes (sa, al, aw) x" and p: "normal pl pw" "sign_ok s" "s \<noteq> 0" "y = s * mag pl pw"
    and w: "aw \<le> 4" "pw \<le> 4"
  shows "\<exists>r. sub_product sa al aw s pl pw = Some r \<and> denotes r (x + y)"
proof -
  let ?z = "[0, 0, 0, 0, 0 :: u64]"
  have n: "normal al aw" and x: "x = sa * mag al aw" and s: "sign_ok sa"
    and l: "aw \<le> length al" "pw \<le> length pl" and z0: "sa = 0 \<Longrightarrow> aw = 0"
    using a p(1) by (simp_all add: denotes_def normal_def)
  have b: "denotes (s, pl, pw) y"
    using p by (simp add: denotes_def)
  consider "sa = 0" | "sa \<noteq> 0" "pw = 0" | "sa \<noteq> 0" "pw \<noteq> 0" "sa = s" | "sa \<noteq> 0" "pw \<noteq> 0" "sa \<noteq> s"
    by blast
  then show ?thesis
  proof cases
    case 1
    then show ?thesis
      using b x w store_limbs_ok [OF p(1), of ?z] by (simp add: sub_product_def denotes_def)
  next
    case 2
    then show ?thesis
      using a p w store_limbs_ok [OF n, of ?z] by (simp add: sub_product_def denotes_def)
  next
    case 3
    let ?n = "max aw pw"
    obtain out c where o: "foldl (add_step al aw pl pw) (?z, 0) [0..<?n] = (out, c)" "length out = 5"
        "c \<noteq> 0 \<Longrightarrow> mag (out[?n := c]) (Suc ?n) = mag al aw + mag pl pw" "c = 0 \<Longrightarrow> mag out ?n = mag al aw + mag pl pw"
      by (rule add_finish [of ?n ?z aw pw al pl]) (use w l in auto)
    show ?thesis
    proof (cases "c = 0")
      case True
      then show ?thesis
        using 3 o p(4) x s w by (simp add: sub_product_def Let_def denotes_def norm_words_normal norm_words_mag distrib_left)
    next
      case False
      then show ?thesis
        using 3 o p(4) x s w norm_words_normal [of "Suc ?n" "out[?n := c]"] norm_words_mag [of "Suc ?n" "out[?n := c]"]
        by (simp add: sub_product_def Let_def denotes_def distrib_left del: bi_norm_words.simps)
    qed
  next
    case 4
    have len: "aw \<le> length ?z" "pw \<le> length ?z"
      using w by simp_all
    note d = signed_difference [OF a 4(1) b p(3) 4(3) len]
    show ?thesis
      using 4 d denotes_zero
      by (cases "bi_cmp_mag al aw pl pw" "0 :: int" rule: linorder_cases) (simp_all add: sub_product_def Let_def)
  qed
qed

section \<open>The value of a big integer\<close>

definition bi_value :: "rt_val \<Rightarrow> int" where
  "bi_value v =
     (case v of
        VWord w \<Rightarrow> if is_int w then sint (rt_untag_v w) else 0
      | VBig obj \<Rightarrow> sint (rt_untag_v (bi_sign obj)) * lv (bi_data obj)
      | _ \<Rightarrow> 0)"

text \<open>
  A well-formed object is normalised, and its word count is the number of its limbs, which is far
  below the range of tagged integers for every object that fits into memory.
\<close>

definition obj_ok :: "bi_obj \<Rightarrow> bool" where
  "obj_ok obj \<longleftrightarrow>
     (\<exists>s. sign_ok s \<and> bi_sign obj = rt_tag_v (word_of_int s) \<and> (s = 0 \<longleftrightarrow> bi_data obj = [])) \<and>
     bi_words obj = rt_tag_v (of_nat (length (bi_data obj))) \<and> normal (bi_data obj) (length (bi_data obj))"

definition val_ok :: "rt_val \<Rightarrow> bool" where
  "val_ok v = (case v of VBig obj \<Rightarrow> obj_ok obj | _ \<Rightarrow> True)"

definition max_limbs :: nat where "max_limbs = 2 ^ 61"

definition sized :: "rt_val \<Rightarrow> bool" where
  "sized v = (case v of VBig obj \<Rightarrow> length (bi_data obj) \<le> max_limbs | _ \<Rightarrow> True)"

lemma sint_sign: "sign_ok s \<Longrightarrow> sint (rt_untag_v (rt_tag_v (word_of_int s))) = s"
  by (auto simp: sign_ok_def untag_tag_small small_int_iff)

lemma sint_count: "n \<le> max_limbs \<Longrightarrow> sint (rt_untag_v (rt_tag_v (of_nat n))) = int n"
proof -
  assume n: "n \<le> max_limbs"
  then have "uint (of_nat n :: i64) = int n"
    by (simp add: max_limbs_def uint_nat unat_of_nat)
  then have "sint (of_nat n :: i64) = int n"
    using n by (simp add: sint_i64 max_limbs_def)
  moreover from this have "small_int (of_nat n)"
    using n by (simp add: small_int_iff max_limbs_def)
  ultimately show ?thesis
    by (simp add: untag_tag_small)
qed

lemma alloc_ok:
  assumes "sign_ok s" "s = 0 \<longleftrightarrow> l = []" "normal l (length l)"
  shows "val_ok (bi_alloc s l)" "bi_value (bi_alloc s l) = s * lv l"
  using assms by (auto simp: bi_alloc_def val_ok_def obj_ok_def bi_value_def sint_sign)

lemma from_limbs_ok:
  assumes "sign_ok s" "w \<le> length l" "s = 0 \<Longrightarrow> mag l w = 0"
  shows "val_ok (bi_from_limbs s l w)" "bi_value (bi_from_limbs s l w) = s * mag l w"
proof -
  let ?w = "bi_norm_words l w"
  have n: "normal l ?w" and m: "mag l ?w = mag l w"
    using assms(2) by (simp_all add: norm_words_normal norm_words_mag)
  have l: "length (take ?w l) = ?w" "normal (take ?w l) ?w"
    using n by (auto simp: normal_def)
  have z: "?w = 0 \<longleftrightarrow> mag l w = 0"
    using normal_mag_zero [OF n] m by simp
  have e: "bi_from_limbs s l w = bi_alloc (if ?w = 0 then 0 else s) (take ?w l)"
    using assms(1) by (auto simp: bi_from_limbs_def Let_def sign_ok_def)
  have iff: "(if ?w = 0 then 0 else s) = 0 \<longleftrightarrow> take ?w l = []"
    using l(1) z assms(3) by (metis length_0_conv)
  have s: "sign_ok (if ?w = 0 then 0 else s)"
    using assms(1) by (simp add: sign_ok_def)
  show "val_ok (bi_from_limbs s l w)" "bi_value (bi_from_limbs s l w) = s * mag l w"
    using alloc_ok [OF s iff] l z m unfolding e by (simp_all split: if_splits)
qed


lemma tagged_ok:
  assumes "- (2 ^ 62) \<le> v" "v < 2 ^ 62" "sint w = v"
  shows "val_ok (VWord (rt_tag_v w))" "bi_value (VWord (rt_tag_v w)) = v"
  using assms by (simp_all add: val_ok_def bi_value_def untag_tag_small small_int_iff)

lemma small_bounds: "sint NY_SMALL_INT_MIN = - (2 ^ 62)" "sint NY_SMALL_INT_MAX = 2 ^ 62 - 1"
    "uint NY_SMALL_INT_MAX = 2 ^ 62 - 1" "uint (NY_SMALL_INT_MAX + 1) = 2 ^ 62"
  by (simp_all add: NY_SMALL_INT_MIN_def NY_SMALL_INT_MAX_def)

lemma small_neg: "0 \<le> u \<Longrightarrow> u \<le> 2 ^ 62 \<Longrightarrow> signed_take_bit 63 (- u) = - (u :: int)"
  by (simp add: signed_take_bit_int_eq_self)

lemma from_limbs_or_small_ok:
  assumes "sign_ok s" "w \<le> length l" "s = 0 \<Longrightarrow> mag l w = 0"
  shows "val_ok (bi_from_limbs_or_small_int s l w) \<and> bi_value (bi_from_limbs_or_small_int s l w) = s * mag l w"
proof -
  let ?w = "bi_norm_words l w"
  have m: "mag l ?w = mag l w" and le: "?w \<le> length l"
    using assms(2) norm_words_le [of l w] by (simp_all add: norm_words_mag)
  have one: "mag l w = uint (l ! 0)" if "?w = 1"
    using m le that by (cases l) auto
  have neg: "sint (- (l ! 0)) = - uint (l ! 0)" if "uint (l ! 0) \<le> 2 ^ 62"
  proof -
    have "- (l ! 0) = word_of_int (- uint (l ! 0))"
      by simp
    then have "sint (- (l ! 0)) = signed_take_bit 63 (- uint (l ! 0))"
      by (simp only: signed_of_int) simp
    also have "\<dots> = - uint (l ! 0)"
      using uint64_bounds(1) that by (rule small_neg)
    finally show ?thesis .
  qed
  have pos: "sint (l ! 0) = uint (l ! 0)" if "uint (l ! 0) < 2 ^ 62"
    using that by (simp add: sint_i64)
  consider (zero) "?w = 0" | (plus) "?w = 1" "s \<ge> 0" "uint (l ! 0) \<le> uint NY_SMALL_INT_MAX"
    | (minus) "?w = 1" "s < 0" "uint (l ! 0) \<le> uint (NY_SMALL_INT_MAX + 1)"
    | (big) "?w \<noteq> 0" "\<not> (?w = 1 \<and> s \<ge> 0 \<and> uint (l ! 0) \<le> uint NY_SMALL_INT_MAX)"
        "\<not> (?w = 1 \<and> s < 0 \<and> uint (l ! 0) \<le> uint (NY_SMALL_INT_MAX + 1))"
    by linarith
  then show ?thesis
  proof cases
    case zero
    then show ?thesis
      using m tagged_ok [of 0 0] by (simp add: bi_from_limbs_or_small_int_def Let_def)
  next
    case plus
    have "s = 1 \<or> s = 0 \<and> mag l w = 0"
      using assms(1,3) plus(2) by (auto simp: sign_ok_def)
    then show ?thesis
      using plus one pos tagged_ok [of "uint (l ! 0)" "l ! 0"] uint64_bounds(1) [of "l ! 0"]
      by (auto simp: bi_from_limbs_or_small_int_def Let_def small_bounds)
  next
    case minus
    then have "s = -1"
      using assms(1) by (auto simp: sign_ok_def)
    then show ?thesis
      using minus one neg tagged_ok [of "- uint (l ! 0)" "- (l ! 0)"]  uint64_bounds(1) [of "l ! 0"]
      by (auto simp: bi_from_limbs_or_small_int_def Let_def small_bounds)
  next
    case big
    then have "bi_from_limbs_or_small_int s l w = bi_from_limbs s l ?w"
      by (auto simp: bi_from_limbs_or_small_int_def Let_def)
    then show ?thesis
      using from_limbs_ok [OF assms(1) le] assms(3) m by simp
  qed
qed

lemma denotes_from_signed:
  assumes "denotes r v"
  shows "val_ok (from_signed r) \<and> bi_value (from_signed r) = v"
proof -
  obtain s l w where r: "r = (s, l, w)"
    by (cases r)
  show ?thesis
    using assms from_limbs_or_small_ok [of s w l] unfolding r
    by (auto simp: denotes_def from_signed_def normal_def)
qed

lemma from_i128_ok:
  assumes "\<bar>v\<bar> < 2 ^ 127"
  shows "val_ok (bi_from_i128_value v c) \<and> bi_value (bi_from_i128_value v c) = v"
proof (cases "c \<and> sint NY_SMALL_INT_MIN \<le> v \<and> v \<le> sint NY_SMALL_INT_MAX")
  case True
  then have b: "- (2 ^ 62) \<le> v" "v < 2 ^ 62"
    by (simp_all add: small_bounds)
  then have "sint (word_of_int v :: i64) = v"
    by (simp add: signed_of_int signed_take_bit_int_eq_self)
  then show ?thesis
    using tagged_ok [OF b] True by (simp add: bi_from_i128_value_def)
next
  case False
  let ?m = "\<bar>v\<bar>" and ?s = "sgn v"
  let ?l = "[word_of_int ?m, word_of_int (drop_bit 64 ?m)] :: u64 list"
  have "u128 (if v < 0 then i128 (- v) else v) = ?m"
    using assms by (auto simp: u128_def i128_def take_bit_int_eq_self signed_take_bit_int_eq_self)
  moreover define w :: nat where "w = (if ?l ! 1 \<noteq> 0 then 2 else if ?l ! 0 \<noteq> 0 then 1 else 0)"
  ultimately have e: "bi_from_i128_value v c =
      (if c then bi_from_limbs_or_small_int ?s ?l w else bi_from_limbs ?s ?l w)"
    using False by (auto simp: bi_from_i128_value_def Let_def sgn_if w_def)
  have d: "uint (word_of_int (drop_bit 64 ?m) :: u64) = drop_bit 64 ?m"
    using assms by (simp add: uint_word_of_int drop_bit_eq_div)
  have "lv ?l = ?m"
    using split_limb [of ?m] d by simp
  moreover have "mag ?l w = lv ?l"
    by (auto simp: w_def)
  ultimately have m: "mag ?l w = ?m"
    by simp
  have s: "sign_ok ?s" "?s * ?m = v" "w \<le> length ?l"
    by (auto simp: sign_ok_def sgn_if w_def)
  have s0: "?s = 0 \<Longrightarrow> mag ?l w = 0"
    unfolding m by (simp add: sgn_0_0)
  show ?thesis
    unfolding e using from_limbs_ok [OF s(1,3) s0] from_limbs_or_small_ok [OF s(1,3) s0] m s(2) by simp
qed

lemma as_int_Some:
  assumes "as_int v = Some k"
  shows "bi_value v = k" "- (2 ^ 62) \<le> k" "k < 2 ^ 62"
  using assms untag_small by (auto simp: as_int_def bi_value_def small_int_iff split: rt_val.splits if_splits)

lemma i64_mag_uint: "uint (i64_mag v) = \<bar>sint v\<bar>"
proof (cases "sint v < 0")
  case True
  have "i64_mag v = word_of_int (- sint v)"
    using True by (simp add: i64_mag_def)
  then have "uint (i64_mag v) = (- sint v) mod 2 ^ 64"
    by (simp only: uint_word_of_int) simp
  then show ?thesis
    using True sint_i64_bounds [of v] by (simp add: mod_pos_pos_trivial)
next
  case False
  then show ?thesis
    using sint_i64 [of v] uint64_bounds [of v] by (auto simp: i64_mag_def split: if_splits)
qed


section \<open>The fast paths\<close>

lemma read_limb2_ok:
  assumes "val_ok v" "sized v" "bi_read_limb2 v = Some (s, l, w)"
  shows "denotes (s, l, w) (bi_value v)" "length l = 2" "w \<le> 2" "s = 0 \<longleftrightarrow> w = 0"
proof -
  have "denotes (s, l, w) (bi_value v) \<and> length l = 2 \<and> w \<le> 2 \<and> (s = 0 \<longleftrightarrow> w = 0)"
  proof (cases v)
    case (VWord x)
    then have x: "is_int x"
      using assms(3) by (auto simp: bi_read_limb2_def split: if_splits)
    have m: "uint (i64_mag (rt_untag_v x)) = \<bar>sint (rt_untag_v x)\<bar>"
      by (rule i64_mag_uint)
    show ?thesis
    proof (cases "rt_untag_v x = 0")
      case True
      then show ?thesis
        using VWord x assms(3) by (auto simp: bi_read_limb2_def Let_def denotes_def sign_ok_def normal_def bi_value_def)
    next
      case False
      then have "sint (rt_untag_v x) \<noteq> 0"
        by (metis sint_0 sint_inj)
      then have "i64_mag (rt_untag_v x) \<noteq> 0"
        using m by auto
      then show ?thesis
        using VWord x False assms(3) m
        by (auto simp: bi_read_limb2_def Let_def denotes_def sign_ok_def normal_def bi_value_def split: if_splits)
    qed
  next
    case (VBig obj)
    define d where "d = bi_data obj"
    obtain sg where sg: "sign_ok sg" "bi_sign obj = rt_tag_v (word_of_int sg)" "sg = 0 \<longleftrightarrow> d = []"
      using assms(1) VBig by (auto simp: val_ok_def obj_ok_def d_def)
    have ok: "normal d (length d)" "sint (rt_untag_v (bi_words obj)) = int (length d)"
      using assms(1,2) VBig sint_count [of "length d"] by (simp_all add: val_ok_def obj_ok_def sized_def d_def)
    have val: "bi_value v = sg * lv d" "sint (rt_untag_v (bi_sign obj)) = sg"
      using sg VBig by (simp_all add: bi_value_def sint_sign d_def)
    have len: "length d \<le> 2"
      using assms(3) VBig ok(2) by (auto simp: bi_read_limb2_def Let_def split: if_splits)
    let ?l = "[if 0 < length d then d ! 0 else 0, if 1 < length d then d ! 1 else 0]"
    have tk: "take (length d) ?l = d"
      using len by (cases d rule: list.exhaust [case_product list.exhaust, of _ "tl d"]) auto
    have nth: "?l ! (length d - 1) = d ! (length d - 1)" if "d \<noteq> []"
      using tk that by (metis diff_less length_greater_0_conv nth_take zero_less_one)
    have nl: "normal ?l (length d)"
      using ok(1) len nth by (auto simp: normal_def)
    have "bi_read_limb2 v =
        Some (if length d = 0 then 0 else if sg < 0 then -1 else if sg > 0 then 1 else 0, ?l, length d)"
      unfolding bi_read_limb2_def Let_def VBig rt_val.case ok(2) val(2) d_def [symmetric]
      using len norm_words_id [OF nl] by simp
    then have "s = sg" "l = ?l" "w = length d"
      using assms(3) sg(1,3) by (auto simp: sign_ok_def)
    then show ?thesis
      using sg(1,3) val(1) nl tk len by (simp add: denotes_def)
  qed (use assms(3) in \<open>simp_all add: bi_read_limb2_def\<close>)
  then show "denotes (s, l, w) (bi_value v)" "length l = 2" "w \<le> 2" "s = 0 \<longleftrightarrow> w = 0"
    by simp_all
qed

lemma signed_limb_ok:
  assumes "denotes (s, l, w) v" "w \<le> 1" "s = 0 \<longleftrightarrow> w = 0" "length l = 2"
  shows "signed_limb s l = v" "\<bar>signed_limb s l\<bar> < 2 ^ 64"
proof -
  have "signed_limb s l = v"
    using assms by (cases l) (auto simp: denotes_def sign_ok_def signed_limb_def take_Cons' split: if_splits)
  then show "signed_limb s l = v" "\<bar>signed_limb s l\<bar> < 2 ^ 64"
    using uint64_bounds [of "l ! 0"] by (auto simp: signed_limb_def)
qed

lemma i128_id: "\<bar>x\<bar> < 2 ^ 127 \<Longrightarrow> i128 x = x"
  by (auto simp: i128_def signed_take_bit_int_eq_self)

definition signed_b :: "bool \<Rightarrow> int \<Rightarrow> int" where
  "signed_b sub_b y = (if sub_b then - y else y)"

lemma add_or_sub_ok:
  assumes "\<bar>x\<bar> < 2 ^ 64" "\<bar>y\<bar> < 2 ^ 64"
  shows "add_or_sub sub_b x y = x + signed_b sub_b y" "\<bar>x + signed_b sub_b y\<bar> < 2 ^ 127"
  using assms by (auto simp: add_or_sub_def signed_b_def i128_id)

abbreviation good :: "rt_val option \<Rightarrow> int \<Rightarrow> bool" where
  "good r v \<equiv> (\<forall>x. r = Some x \<longrightarrow> val_ok x \<and> bi_value x = v)"

lemma as_int_bound: "as_int v = Some k \<Longrightarrow> \<bar>k\<bar> < 2 ^ 64"
  using as_int_Some [of v k] by auto

lemma add_int_pair_ok: "good (bi_try_add_int_pair a b sub_b) (bi_value a + signed_b sub_b (bi_value b))"
  using from_i128_ok as_int_Some(1) as_int_bound add_or_sub_ok
  by (fastforce simp: bi_try_add_int_pair_def int_pair_def split: option.splits)

lemma denotes_neg: "denotes (s, l, w) v \<Longrightarrow> denotes (- s, l, w) (- v)"
  by (auto simp: denotes_def sign_ok_def)

lemma add_limb2_kind_ok:
  assumes "val_ok a" "sized a" "val_ok b" "sized b"
  shows "good (bi_try_add_limb2_kind a b sub_b c) (bi_value a + signed_b sub_b (bi_value b))"
proof (cases "\<exists>x y. as_int a = Some x \<and> as_int b = Some y")
  case True
  then obtain x y where xy: "as_int a = Some x" "as_int b = Some y"
    by blast
  then show ?thesis
    using add_int_pair_ok [of a b sub_b] from_i128_ok add_or_sub_ok as_int_bound as_int_Some(1)
    by (auto simp: bi_try_add_limb2_kind_def)
next
  case False
  show ?thesis
  proof (intro allI impI)
    fix r assume r: "bi_try_add_limb2_kind a b sub_b c = Some r"
    obtain sa al aw sb0 bl bw where rd: "bi_read_limb2 a = Some (sa, al, aw)" "bi_read_limb2 b = Some (sb0, bl, bw)"
      using r False by (auto simp: bi_try_add_limb2_kind_def split: option.splits)
    define sb where "sb = (if sub_b then - sb0 else sb0)"
    note ra = read_limb2_ok [OF assms(1,2) rd(1)] and rb = read_limb2_ok [OF assms(3,4) rd(2)]
    have db: "denotes (sb, bl, bw) (signed_b sub_b (bi_value b))" and sb: "sb = 0 \<longleftrightarrow> bw = 0"
      using denotes_neg [OF rb(1)] rb(1,4) by (auto simp: sb_def signed_b_def)
    show "val_ok r \<and> bi_value r = bi_value a + signed_b sub_b (bi_value b)"
    proof (cases "aw \<le> 1 \<and> bw \<le> 1")
      case True
      have "r = bi_from_i128_value (i128 (signed_limb sa al + signed_limb sb bl)) c"
        using r False rd True by (auto simp: bi_try_add_limb2_kind_def Let_def sb_def split: option.splits)
      moreover have "signed_limb sa al + signed_limb sb bl = bi_value a + signed_b sub_b (bi_value b)"
          "\<bar>signed_limb sa al + signed_limb sb bl\<bar> < 2 ^ 127"
        using signed_limb_ok [OF ra(1) _ ra(4,2)] signed_limb_ok [OF db _ sb rb(2)] True by auto
      ultimately show ?thesis
        using from_i128_ok i128_id by metis
    next
      case wide: False
      obtain rs rl rw where s: "add_signed sa al aw sb bl bw = (rs, rl, rw)"
        by (metis prod_cases3)
      have d: "denotes (rs, rl, rw) (bi_value a + signed_b sub_b (bi_value b))"
        using add_signed_ok [OF ra(1) db] ra(3) rb(3) s by simp
      have "r = (if c then bi_from_limbs_or_small_int rs rl rw else bi_from_limbs rs rl rw)"
        using r False rd wide s by (auto simp: bi_try_add_limb2_kind_def Let_def sb_def split: option.splits)
      then show ?thesis
        using d from_limbs_ok [of rs rw rl] from_limbs_or_small_ok [of rs rw rl]
        by (auto simp: denotes_def normal_def)
    qed
  qed
qed


lemma mul_limb2_ok:
  assumes "val_ok a" "sized a" "val_ok b" "sized b"
  shows "good (bi_try_mul_limb2 a b) (bi_value a * bi_value b)"
proof (intro allI impI)
  fix r assume r: "bi_try_mul_limb2 a b = Some r"
  obtain sa al aw sb bl bw where rd: "bi_read_limb2 a = Some (sa, al, aw)" "bi_read_limb2 b = Some (sb, bl, bw)"
    using r by (auto simp: bi_try_mul_limb2_def split: option.splits)
  note ra = read_limb2_ok [OF assms(1,2) rd(1)] and rb = read_limb2_ok [OF assms(3,4) rd(2)]
  have v: "bi_value a = sa * mag al aw" "bi_value b = sb * mag bl bw" and s: "sign_ok sa" "sign_ok sb"
    using ra(1) rb(1) by (simp_all add: denotes_def)
  show "val_ok r \<and> bi_value r = bi_value a * bi_value b"
  proof (cases "sa = 0 \<or> sb = 0")
    case True
    then have "r = bi_from_limbs 0 [0, 0, 0, 0] 0"
      using r rd by (auto simp: bi_try_mul_limb2_def)
    then show ?thesis
      using from_limbs_ok [of 0 0 "[0, 0, 0, 0]"] True v by (auto simp: sign_ok_def)
  next
    case False
    obtain rl where m: "mul_rows al bl bw [0..<aw] [0, 0, 0, 0] = Some rl" "length rl = 4" "lv rl = mag al aw * mag bl bw"
      using mul_rows_ok [of aw al bw bl 0 "[0, 0, 0, 0]"] ra rb by auto
    have "r = bi_from_limbs (if sa = sb then 1 else -1) rl 4"
      using r rd False m(1) by (auto simp: bi_try_mul_limb2_def)
    then show ?thesis
      using from_limbs_ok [of "if sa = sb then 1 else -1" 4 rl] False m v s by (auto simp: sign_ok_def)
  qed
qed

lemma submul_limb2_ok:
  assumes "val_ok a" "sized a" "val_ok q" "sized q" "val_ok b" "sized b"
  shows "good (bi_try_submul_limb2 a q b) (bi_value a - bi_value q * bi_value b)"
proof (intro allI impI)
  fix r assume r: "bi_try_submul_limb2 a q b = Some r"
  obtain sa al aw sq ql qw sb bl bw where rd: "bi_read_limb2 a = Some (sa, al, aw)"
      "bi_read_limb2 q = Some (sq, ql, qw)" "bi_read_limb2 b = Some (sb, bl, bw)"
    using r by (auto simp: bi_try_submul_limb2_def split: option.splits)
  note ra = read_limb2_ok [OF assms(1,2) rd(1)] and rq = read_limb2_ok [OF assms(3,4) rd(2)]
    and rb = read_limb2_ok [OF assms(5,6) rd(3)]
  have v: "bi_value q = sq * mag ql qw" "bi_value b = sb * mag bl bw" and s: "sign_ok sq" "sign_ok sb"
    using rq(1) rb(1) by (simp_all add: denotes_def)
  show "val_ok r \<and> bi_value r = bi_value a - bi_value q * bi_value b"
  proof (cases "sq = 0 \<or> sb = 0")
    case True
    then have "r = from_signed (sa, al, aw)"
      using r rd by (auto simp: bi_try_submul_limb2_def from_signed_def)
    then show ?thesis
      using denotes_from_signed [OF ra(1)] True v by auto
  next
    case False
    obtain pl where m: "mul_rows ql bl bw [0..<qw] [0, 0, 0, 0] = Some pl" "length pl = 4" "lv pl = mag ql qw * mag bl bw"
      using mul_rows_ok [of qw ql bw bl 0 "[0, 0, 0, 0]"] rq rb by auto
    let ?pw = "bi_norm_words pl 4" and ?ps = "if sq = sb then 1 else -1 :: int"
    have p: "normal pl ?pw" "mag pl ?pw = mag ql qw * mag bl bw" "?pw \<le> 4"
      using norm_words_normal [of 4 pl] norm_words_mag [of 4 pl] norm_words_le [of pl 4] m(2,3) by simp_all
    have y: "- (bi_value q * bi_value b) = - ?ps * mag pl ?pw"
      using v s False p(2) by (auto simp: sign_ok_def)
    have ps: "sign_ok (- ?ps)" "- ?ps \<noteq> 0" and aw: "aw \<le> 4"
      using ra(3) by (simp_all add: sign_ok_def)
    obtain t where "sub_product sa al aw (- ?ps) pl ?pw = Some t" "denotes t (bi_value a + - (bi_value q * bi_value b))"
      using sub_product_ok [OF ra(1) p(1) ps y] aw p(3) by blast
    then show ?thesis
      using r rd False m(1) denotes_from_signed [of t] by (auto simp: bi_try_submul_limb2_def Let_def)
  qed
qed

lemma prod_bound: "\<bar>q\<bar> \<le> 2 ^ 62 \<Longrightarrow> \<bar>y\<bar> < 2 ^ 64 \<Longrightarrow> \<bar>q * y\<bar> \<le> (2 ^ 126 :: int)"
  using mult_mono [of "\<bar>q\<bar>" "2 ^ 62" "\<bar>y\<bar>" "2 ^ 64"] by (simp add: abs_mult)

lemma submul_i128:
  assumes "small_int q" "\<bar>x\<bar> < 2 ^ 64" "\<bar>y\<bar> < 2 ^ 64"
  shows "i128 (x - i128 (sint q * y)) = x - sint q * y" "\<bar>x - sint q * y\<bar> < 2 ^ 127"
proof -
  have p: "\<bar>sint q * y\<bar> \<le> 2 ^ 126"
    using assms by (intro prod_bound) (auto simp: small_int_iff)
  then show b: "\<bar>x - sint q * y\<bar> < 2 ^ 127"
    using assms(2) by auto
  have "i128 (sint q * y) = sint q * y"
    using p by (intro i128_id) auto
  then show "i128 (x - i128 (sint q * y)) = x - sint q * y"
    using b by (simp add: i128_id)
qed

lemma submul_int_pair_ok: "small_int q \<Longrightarrow> good (bi_try_submul_i64_int_pair a q b) (bi_value a - sint q * bi_value b)"
  using from_i128_ok submul_i128 as_int_Some(1) as_int_bound
  by (fastforce simp: bi_try_submul_i64_int_pair_def int_pair_def split: option.splits)

lemma submul_i64_limb2_ok:
  assumes "val_ok a" "sized a" "small_int q" "val_ok b" "sized b"
  shows "good (bi_try_submul_i64_limb2 a q b) (bi_value a - sint q * bi_value b)"
proof (cases "\<exists>x y. as_int a = Some x \<and> as_int b = Some y")
  case True
  then show ?thesis
    using submul_int_pair_ok [OF assms(3), of a b] by (auto simp: bi_try_submul_i64_limb2_def)
next
  case False
  show ?thesis
  proof (intro allI impI)
    fix r assume r: "bi_try_submul_i64_limb2 a q b = Some r"
    obtain sa al aw sb bl bw where rd: "bi_read_limb2 a = Some (sa, al, aw)" "bi_read_limb2 b = Some (sb, bl, bw)"
      using r False by (auto simp: bi_try_submul_i64_limb2_def split: option.splits)
    note ra = read_limb2_ok [OF assms(1,2) rd(1)] and rb = read_limb2_ok [OF assms(4,5) rd(2)]
    have v: "bi_value b = sb * mag bl bw" and s: "sign_ok sb"
      using rb(1) by (simp_all add: denotes_def)
    consider "q = 0 \<or> sb = 0" | "\<not> (q = 0 \<or> sb = 0)" "aw \<le> 1 \<and> bw \<le> 1" | "\<not> (q = 0 \<or> sb = 0)" "\<not> (aw \<le> 1 \<and> bw \<le> 1)"
      by blast
    then show "val_ok r \<and> bi_value r = bi_value a - sint q * bi_value b"
    proof cases
      case 1
      then have "r = from_signed (sa, al, aw)"
        using r False rd by (auto simp: bi_try_submul_i64_limb2_def from_signed_def split: option.splits)
      then show ?thesis
        using denotes_from_signed [OF ra(1)] 1 v by auto
    next
      case 2
      then have "r = bi_from_i128_value (i128 (signed_limb sa al - i128 (sint q * signed_limb sb bl))) True"
        using r False rd by (auto simp: bi_try_submul_i64_limb2_def split: option.splits)
      then show ?thesis
        using signed_limb_ok [OF ra(1) _ ra(4,2)] signed_limb_ok [OF rb(1) _ rb(4,2)] 2(2)
          submul_i128 [OF assms(3)] from_i128_ok by metis
    next
      case 3
      obtain pl pw where p: "word_mul (i64_mag q) bl bw = Some (pl, pw)" "length pl = 4" "normal pl pw"
          "mag pl pw = uint (i64_mag q) * mag bl bw"
        by (rule word_mul_ok [of bw bl]) (use rb in auto)
      let ?ps = "if (if sint q < 0 then -1 else 1) = sb then 1 else -1 :: int"
      have y: "- (sint q * bi_value b) = - ?ps * mag pl pw"
        using v s 3(1) p(4) by (auto simp: sign_ok_def i64_mag_uint)
      have ps: "sign_ok (- ?ps)" "- ?ps \<noteq> 0" and aw: "aw \<le> 4" "pw \<le> 4"
        using ra(3) p(2,3) by (simp_all add: sign_ok_def normal_def)
      obtain t where t: "sub_product sa al aw (- ?ps) pl pw = Some t" "denotes t (bi_value a + - (sint q * bi_value b))"
        using sub_product_ok [OF ra(1) p(3) ps y] aw by blast
      have "r = from_signed t"
        using r False rd 3 p(1) t(1) by (auto simp: bi_try_submul_i64_limb2_def Let_def split: option.splits)
      then show ?thesis
        using denotes_from_signed [OF t(2)] by simp
    qed
  qed
qed


section \<open>The documented behaviour of GMP\<close>

text \<open>
  Import and export use the least significant limb first; export writes no leading zero limb and
  ignores the sign.
\<close>

definition gmp_documented :: "gmp \<Rightarrow> bool" where
  "gmp_documented G \<longleftrightarrow>
     (\<forall>ws. mpz_import64 G ws = lv ws) \<and>
     (\<forall>z. lv (mpz_export64 G z) = \<bar>z\<bar> \<and> normal (mpz_export64 G z) (length (mpz_export64 G z))) \<and>
     (\<forall>z. mpz_neg G z = - z) \<and> (\<forall>z. mpz_sgn G z = sgn z) \<and> (\<forall>a b. sgn (mpz_cmp G a b) = sgn (a - b)) \<and>
     (\<forall>a b. mpz_add G a b = a + b) \<and> (\<forall>a b. mpz_sub G a b = a - b) \<and> (\<forall>a b. mpz_mul G a b = a * b)"

lemma gmp_simps:
  assumes "gmp_documented G"
  shows "mpz_import64 G ws = lv ws" "lv (mpz_export64 G z) = \<bar>z\<bar>"
    "normal (mpz_export64 G z) (length (mpz_export64 G z))" "mpz_neg G z = - z" "mpz_sgn G z = sgn z"
    "mpz_add G a b = a + b" "mpz_sub G a b = a - b" "mpz_mul G a b = a * b"
  using assms by (simp_all add: gmp_documented_def)

lemma set_i64_ok: "gmp_documented G \<Longrightarrow> bi_mpz_set_i64 G v = sint v"
  by (simp add: bi_mpz_set_i64_def gmp_simps i64_mag_uint)

lemma val_to_mpz_ok:
  assumes G: "gmp_documented G" and v: "val_ok v" "sized v"
  shows "bi_val_to_mpz G v = bi_value v"
proof (cases v)
  case (VBig obj)
  obtain s where s: "sign_ok s" "bi_sign obj = rt_tag_v (word_of_int s)" "s = 0 \<longleftrightarrow> bi_data obj = []"
    using v(1) VBig by (auto simp: val_ok_def obj_ok_def)
  have "sint (rt_untag_v (bi_words obj)) = int (length (bi_data obj))"
    using v VBig sint_count by (simp add: val_ok_def obj_ok_def sized_def)
  moreover have "sint (rt_untag_v (bi_sign obj)) = s"
    using s(1,2) by (simp add: sint_sign)
  ultimately show ?thesis
    using VBig s(1,3) by (auto simp: bi_val_to_mpz_def bi_value_def Let_def gmp_simps [OF G] sign_ok_def)
qed (auto simp: bi_val_to_mpz_def bi_value_def set_i64_ok [OF G])

lemma from_mpz_ok:
  assumes G: "gmp_documented G"
  shows "val_ok (bi_from_mpz G z) \<and> bi_value (bi_from_mpz G z) = z"
proof (cases "z = 0")
  case True
  then show ?thesis
    using alloc_ok [of 0 "[]"] by (simp add: bi_from_mpz_def gmp_simps [OF G] sign_ok_def normal_def)
next
  case False
  let ?l = "mpz_export64 G z" and ?s = "sgn z"
  have l: "lv ?l = \<bar>z\<bar>" "normal ?l (length ?l)"
    by (simp_all add: gmp_simps [OF G])
  moreover from l(1) have "?l \<noteq> []"
    using False by auto
  moreover have "bi_from_mpz G z = bi_alloc ?s ?l"
    using False by (simp add: bi_from_mpz_def gmp_simps [OF G] sgn_if)
  ultimately show ?thesis
    using alloc_ok [of ?s ?l] False by (simp add: sign_ok_def sgn_if split: if_splits)
qed

lemma from_i64_ok: "gmp_documented G \<Longrightarrow> val_ok (bi_from_i64 G v) \<and> bi_value (bi_from_i64 G v) = sint v"
  using from_mpz_ok by (simp add: bi_from_i64_def set_i64_ok)

lemma fast_or_ok: "good fast v \<Longrightarrow> val_ok slow \<and> bi_value slow = v \<Longrightarrow> val_ok (fast_or fast slow) \<and> bi_value (fast_or fast slow) = v"
  by (cases fast) (simp_all add: fast_or_def)

lemma first_some_ok: "\<forall>r \<in> set rs. good r v \<Longrightarrow> good (first_some rs) v"
  by (induction rs rule: first_some.induct) (auto split: option.splits)

section \<open>The operations are exact\<close>

definition operand :: "rt_val \<Rightarrow> bool" where
  "operand v \<longleftrightarrow> val_ok v \<and> sized v"

lemma add_exact:
  assumes "gmp_documented G" "operand a" "operand b"
  shows "val_ok (rt_bigint_add G a b) \<and> bi_value (rt_bigint_add G a b) = bi_value a + bi_value b"
    "val_ok (rt_bigint_sub G a b) \<and> bi_value (rt_bigint_sub G a b) = bi_value a - bi_value b"
    "val_ok (rt_bigint_mul G a b) \<and> bi_value (rt_bigint_mul G a b) = bi_value a * bi_value b"
proof -
  have o: "val_ok a" "sized a" "val_ok b" "sized b"
    using assms(2,3) by (simp_all add: operand_def)
  note z = val_to_mpz_ok [OF assms(1) o(1,2)] val_to_mpz_ok [OF assms(1) o(3,4)] gmp_simps(6-8) [OF assms(1)]
  show "val_ok (rt_bigint_add G a b) \<and> bi_value (rt_bigint_add G a b) = bi_value a + bi_value b"
    unfolding rt_bigint_add_def bi_try_add_limb2_def z
    using add_limb2_kind_ok [OF o, of False False] from_mpz_ok [OF assms(1)]
    by (intro fast_or_ok) (simp_all add: signed_b_def)
  show "val_ok (rt_bigint_sub G a b) \<and> bi_value (rt_bigint_sub G a b) = bi_value a - bi_value b"
    unfolding rt_bigint_sub_def bi_try_add_limb2_def z
    using add_limb2_kind_ok [OF o, of True False] from_mpz_ok [OF assms(1)]
    by (intro fast_or_ok) (simp_all add: signed_b_def)
  show "val_ok (rt_bigint_mul G a b) \<and> bi_value (rt_bigint_mul G a b) = bi_value a * bi_value b"
    unfolding rt_bigint_mul_def z
    using mul_limb2_ok [OF o] from_mpz_ok [OF assms(1)] by (intro fast_or_ok) simp_all
qed

lemma zero_fast: "val_ok v \<Longrightarrow> sized v \<Longrightarrow> bi_is_zero_fast v \<Longrightarrow> bi_value v = 0"
  by (cases v) (auto simp: bi_is_zero_fast_def bi_value_def val_ok_def obj_ok_def sized_def sint_count)

lemma tag_value: "sint w = k \<Longrightarrow> - (2 ^ 62) \<le> k \<Longrightarrow> k < 2 ^ 62 \<Longrightarrow> bi_value (VWord (rt_tag_v w)) = k"
  using tagged_ok by blast

lemma submul_ok:
  assumes G: "gmp_documented G" and o: "operand a" "operand q" "operand b"
  shows "val_ok (rt_bigint_submul G a q b) \<and>
    bi_value (rt_bigint_submul G a q b) = bi_value a - bi_value q * bi_value b"
proof (cases "q = VWord (rt_tag_v 0) \<or> bi_is_zero_fast b")
  case True
  then show ?thesis
    using o zero_fast [of b] tag_value [of 0 0] by (auto simp: rt_bigint_submul_def operand_def)
next
  case False
  let ?v = "bi_value a - bi_value q * bi_value b"
  have c: "val_ok a" "sized a" "val_ok q" "sized q" "val_ok b" "sized b"
    using o by (simp_all add: operand_def)
  have 1: "good (try_if (q = VWord (rt_tag_v 1)) (bi_try_add_limb2_kind a b True True)) ?v"
    using add_limb2_kind_ok [OF c(1,2,5,6), of True True] tag_value [of 1 1] by (auto simp: try_if_def signed_b_def)
  have 2: "good (try_if (q = VWord (rt_tag_v (-1))) (bi_try_add_limb2_kind a b False True)) ?v"
    using add_limb2_kind_ok [OF c(1,2,5,6), of False True] tag_value [of "-1" "-1"] by (auto simp: try_if_def signed_b_def)
  have 3: "good (case q of VWord w \<Rightarrow> try_if (is_int w) (bi_try_submul_i64_limb2 a (rt_untag_v w) b) | _ \<Rightarrow> None) ?v"
    using submul_i64_limb2_ok [OF c(1,2) untag_small c(5,6)]
    by (auto simp: try_if_def bi_value_def split: rt_val.splits)
  have 4: "good (bi_try_submul_limb2 a q b) ?v"
    by (rule submul_limb2_ok [OF c])
  have s: "submul_slow G a q b = bi_from_mpz G ?v"
    by (simp add: submul_slow_def val_to_mpz_ok [OF G] c gmp_simps [OF G])
  have "val_ok (fast_or (first_some rs) (submul_slow G a q b)) \<and> bi_value (fast_or (first_some rs) (submul_slow G a q b)) = ?v"
    if "\<forall>r \<in> set rs. good r ?v" for rs
    unfolding s by (rule fast_or_ok [OF first_some_ok [OF that] from_mpz_ok [OF G]])
  moreover have "\<forall>r \<in> set [try_if (q = VWord (rt_tag_v 1)) (bi_try_add_limb2_kind a b True True),
      try_if (q = VWord (rt_tag_v (-1))) (bi_try_add_limb2_kind a b False True),
      (case q of VWord w \<Rightarrow> try_if (is_int w) (bi_try_submul_i64_limb2 a (rt_untag_v w) b) | _ \<Rightarrow> None),
      bi_try_submul_limb2 a q b]. good r ?v"
    using 1 2 3 4 by (simp only: list.set ball_simps simp_thms insert_iff empty_iff)
  ultimately show ?thesis
    using False unfolding rt_bigint_submul_def by (simp only: if_False)
qed

lemma small_tag_ok: "good (bi_try_i128_small_tag v) v"
proof -
  have "sint (word_of_int v :: i64) = v" if "- (2 ^ 62) \<le> v" "v < 2 ^ 62"
    using that by (simp add: signed_of_int signed_take_bit_int_eq_self)
  then show ?thesis
    using tagged_ok [of v "word_of_int v"] by (auto simp: bi_try_i128_small_tag_def small_bounds)
qed

lemma add_small_ok: "good (bi_try_add_int_pair_small a b sub_b) (bi_value a + signed_b sub_b (bi_value b))"
  using small_tag_ok as_int_Some(1) as_int_bound add_or_sub_ok
  by (fastforce simp: bi_try_add_int_pair_small_def int_pair_def split: option.splits)

lemma submul_small_ok: "small_int q \<Longrightarrow> good (bi_try_submul_i64_int_pair_small a q b) (bi_value a - sint q * bi_value b)"
  using small_tag_ok submul_i128 as_int_Some(1) as_int_bound
  by (fastforce simp: bi_try_submul_i64_int_pair_small_def int_pair_def split: option.splits)

lemma row_op_ok:
  assumes G: "gmp_documented G" and o: "operand x" "operand q" "operand b"
  shows "val_ok (row_op G q x b) \<and> bi_value (row_op G q x b) = bi_value x - bi_value q * bi_value b"
proof (cases "\<exists>w. q = VWord w \<and> is_int w")
  case True
  then obtain w where w: "q = VWord w" "is_int w"
    by blast
  let ?q = "rt_untag_v w" and ?v = "bi_value x - bi_value q * bi_value b"
  have q: "bi_value q = sint ?q" "small_int ?q"
    using w untag_small by (simp_all add: bi_value_def)
  have c: "val_ok x" "sized x" "val_ok b" "sized b"
    using o by (simp_all add: operand_def)
  have slow: "val_ok (rt_bigint_submul G x q b) \<and> bi_value (rt_bigint_submul G x q b) = ?v"
    by (rule submul_ok [OF G o])
  show ?thesis
  proof (cases "?q = 1 \<or> ?q = -1")
    case True
    then have v: "bi_value x + signed_b (?q = 1) (bi_value b) = ?v"
      using q by (auto simp: signed_b_def)
    have "good (first_some [bi_try_add_int_pair_small x b (?q = 1), bi_try_add_limb2_kind x b (?q = 1) True]) ?v"
      using add_small_ok [of x b "?q = 1"] add_limb2_kind_ok [OF c, of "?q = 1" True] unfolding v
      by (intro first_some_ok) simp
    then show ?thesis
      using fast_or_ok [OF _ slow] True w by (simp add: row_op_def Let_def)
  next
    case False
    have "good (first_some [bi_try_submul_i64_int_pair_small x ?q b, bi_try_submul_i64_limb2 x ?q b]) ?v"
      using submul_small_ok [OF q(2), of x b] submul_i64_limb2_ok [OF c(1,2) q(2) c(3,4)] q(1)
      by (intro first_some_ok) simp
    then show ?thesis
      using fast_or_ok [OF _ slow] False w by (simp add: row_op_def Let_def)
  qed
next
  case False
  then have "row_op G q x b = rt_bigint_submul G x q b"
    by (auto simp: row_op_def split: rt_val.splits)
  then show ?thesis
    using submul_ok [OF G o] by simp
qed


section \<open>Rows\<close>

lemma row_fold_ok:
  assumes G: "gmp_documented G" "operand q" "\<forall>x \<in> set rk0. operand x" "\<forall>x \<in> set rj. operand x"
    and n: "n \<le> length rk0" "n \<le> length rj"
  shows "length (foldl (row_step (row_op G q) rj) rk0 [0..<n]) = length rk0 \<and>
    (\<forall>c<length rk0. if c < n
       then val_ok (foldl (row_step (row_op G q) rj) rk0 [0..<n] ! c) \<and>
            bi_value (foldl (row_step (row_op G q) rj) rk0 [0..<n] ! c) = bi_value (rk0 ! c) - bi_value q * bi_value (rj ! c)
       else foldl (row_step (row_op G q) rj) rk0 [0..<n] ! c = rk0 ! c)"
  using n
proof (induction n)
  case (Suc n)
  let ?rk = "foldl (row_step (row_op G q) rj) rk0 [0..<n]"
  have IH: "length ?rk = length rk0" "\<And>c. c < n \<Longrightarrow> val_ok (?rk ! c)"
      "\<And>c. c < n \<Longrightarrow> bi_value (?rk ! c) = bi_value (rk0 ! c) - bi_value q * bi_value (rj ! c)"
      "\<And>c. c < length rk0 \<Longrightarrow> n \<le> c \<Longrightarrow> ?rk ! c = rk0 ! c"
    using Suc by (auto split: if_splits)
  have o: "operand (rk0 ! n)" "operand (rj ! n)"
    using G(3,4) Suc.prems by (simp_all add: Suc_le_eq)
  have fold: "foldl (row_step (row_op G q) rj) rk0 [0..<Suc n] = row_step (row_op G q) rj ?rk n"
    by simp
  show ?case
  proof (cases "bi_is_zero_fast (rj ! n)")
    case True
    then have "bi_value (rj ! n) = 0"
      using o(2) zero_fast by (simp add: operand_def)
    then show ?thesis
      unfolding fold using True IH o(1) Suc.prems by (auto simp: row_step_def less_Suc_eq operand_def)
  next
    case False
    then show ?thesis
      unfolding fold using IH row_op_ok [OF G(1) o(1) G(2) o(2)] Suc.prems
      by (auto simp: row_step_def less_Suc_eq nth_list_update)
  qed
qed simp

lemma last_nonzero_ok:
  "last_nonzero rj n \<le> n \<and> (\<forall>c<n. last_nonzero rj n \<le> c \<longrightarrow> bi_is_zero_fast (rj ! c))"
  by (induction n) (auto simp: less_Suc_eq)

section \<open>Limbs of an integer\<close>

function limbs_of :: "nat \<Rightarrow> u64 list" where
  "limbs_of n = (if n = 0 then [] else of_nat n # limbs_of (n div 2 ^ 64))"
  by pat_completeness auto
termination
  by (relation "measure id") auto

declare limbs_of.simps [simp del]

lemma limbs_of_ok: "lv (limbs_of n) = int n \<and> normal (limbs_of n) (length (limbs_of n))"
proof (induction n rule: limbs_of.induct)
  case (1 n)
  show ?case
  proof (cases "n = 0")
    case True
    then show ?thesis
      by (subst (1 2 3) limbs_of.simps) (simp add: normal_def)
  next
    case False
    let ?r = "limbs_of (n div 2 ^ 64)"
    have IH: "lv ?r = int (n div 2 ^ 64)" "normal ?r (length ?r)"
      using 1 False by auto
    have e: "limbs_of n = of_nat n # ?r"
      using False by (subst limbs_of.simps) simp
    have u: "uint (of_nat n :: u64) = int n mod 2 ^ 64"
      by (simp add: uint_nat unat_of_nat zmod_int)
    have "lv (limbs_of n) = int n"
      using IH(1) unfolding e by (simp add: u zdiv_int)
    moreover have "normal (limbs_of n) (length (limbs_of n))"
    proof (cases "?r = []")
      case True
      then have "int n mod 2 ^ 64 = int n"
        using \<open>lv (limbs_of n) = int n\<close> u unfolding e by simp
      then have "(of_nat n :: u64) \<noteq> 0"
        using u False by auto
      then show ?thesis
        unfolding e using True by (simp add: normal_def)
    next
      case nonempty: False
      then show ?thesis
        unfolding e using IH(2) by (auto simp: normal_def nth_Cons split: nat.splits)
    qed
    ultimately show ?thesis
      by simp
  qed
qed

text \<open>A GMP that behaves as documented.\<close>

definition gmp_model :: gmp where
  "gmp_model =
     \<lparr>mpz_import64 = lv, mpz_export64 = (\<lambda>z. limbs_of (nat \<bar>z\<bar>)), mpz_neg = uminus, mpz_sgn = sgn,
      mpz_cmp = (-), mpz_add = (+), mpz_sub = (-), mpz_mul = (*)\<rparr>"

lemma gmp_model_documented: "gmp_documented gmp_model"
  using limbs_of_ok by (simp add: gmp_documented_def gmp_model_def)

section \<open>Properties\<close>

text \<open>
  C34: sums, differences and products of big integers are exact. For all well-formed operands, tagged
  or boxed and of any size, \<open>rt_bigint_add\<close>, \<open>rt_bigint_sub\<close> and \<open>rt_bigint_mul\<close> return a well-formed
  value that is the mathematical result, whether the two-limb fast path or GMP computes it; so the
  fast paths agree with the slow ones.
\<close>

theorem bigint_arith_exact:
  assumes "gmp_documented G" "operand a" "operand b"
  shows "val_ok (rt_bigint_add G a b) \<and> bi_value (rt_bigint_add G a b) = bi_value a + bi_value b \<and>
    val_ok (rt_bigint_sub G a b) \<and> bi_value (rt_bigint_sub G a b) = bi_value a - bi_value b \<and>
    val_ok (rt_bigint_mul G a b) \<and> bi_value (rt_bigint_mul G a b) = bi_value a * bi_value b"
  using add_exact [OF assms] by simp

definition sample_big :: rt_val where
  "sample_big = bi_alloc (-1) [5, 7]"

lemma sample_big_ok: "operand sample_big" "bi_value sample_big = - (5 + 7 * 2 ^ 64)"
  using alloc_ok [of "-1" "[5, 7]"]
  by (simp_all add: operand_def sample_big_def sign_ok_def normal_def sized_def bi_alloc_def max_limbs_def)

theorem bigint_arith_exact_witness:
  "bi_value (rt_bigint_mul gmp_model sample_big sample_big) = (5 + 7 * 2 ^ 64) * (5 + 7 * 2 ^ 64)"
  using bigint_arith_exact [OF gmp_model_documented sample_big_ok(1) sample_big_ok(1)] sample_big_ok(2) by simp

text \<open>
  C35: the fused \<open>rt_bigint_submul\<close>, with its special cases for the factors 0, 1 and -1, for machine
  integers and for two-limb operands, returns exactly \<open>a - q * b\<close>.
\<close>

theorem bigint_submul_exact:
  assumes "gmp_documented G" "operand a" "operand q" "operand b"
  shows "val_ok (rt_bigint_submul G a q b) \<and>
    bi_value (rt_bigint_submul G a q b) = bi_value a - bi_value q * bi_value b"
  by (rule submul_ok [OF assms])

theorem bigint_submul_exact_witness:
  "bi_value (rt_bigint_submul gmp_model sample_big (VWord (rt_tag_v 3)) sample_big) = 2 * (5 + 7 * 2 ^ 64)"
  using bigint_submul_exact [OF gmp_model_documented sample_big_ok(1) _ sample_big_ok(1), of "VWord (rt_tag_v 3)"]
    sample_big_ok(2) tag_value [of 3 3]
  by (simp add: operand_def val_ok_def sized_def)

text \<open>
  The row operation of lattice reduction. \<open>rt_bigint_row_submul_auto\<close> on rows of well-formed
  values, with a second row that is no longer than the first, subtracts \<open>q\<close> times every entry of the
  second row from the entry of the first, although it skips zeros and cuts off the zero tail, and
  leaves the rest of the first row alone.
\<close>

theorem row_submul_auto_exact:
  assumes "gmp_documented G" "operand q" "\<forall>x \<in> set rk. operand x" "\<forall>x \<in> set rj. operand x" "length rj \<le> length rk"
  shows "\<exists>rs. rt_bigint_row_submul_auto G rk rj q = Some (VSeq rs) \<and> length rs = length rk \<and>
    (\<forall>c<length rk. val_ok (rs ! c) \<and>
       bi_value (rs ! c) = bi_value (rk ! c) - (if c < length rj then bi_value q * bi_value (rj ! c) else 0))"
proof -
  let ?n = "last_nonzero rj (length rj)"
  have n: "?n \<le> length rj" "\<And>c. c < length rj \<Longrightarrow> ?n \<le> c \<Longrightarrow> bi_value (rj ! c) = 0"
    using last_nonzero_ok [of rj "length rj"] assms(4) zero_fast by (auto simp: operand_def)
  show ?thesis
  proof (cases "q = VWord (rt_tag_v 0) \<or> ?n = 0")
    case True
    then have "rt_bigint_row_submul_auto G rk rj q = Some (VSeq rk)"
      by (auto simp: rt_bigint_row_submul_auto_def Let_def)
    moreover have "bi_value q * bi_value (rj ! c) = 0" if "c < length rj" for c
      using True n(2) [OF that] tag_value [of 0 0] by auto
    ultimately show ?thesis
      using assms(3) by (auto simp: operand_def)
  next
    case False
    let ?rs = "foldl (row_step (row_op G q) rj) rk [0..<?n]"
    have e: "rt_bigint_row_submul_auto G rk rj q = Some (VSeq ?rs)"
      using False n(1) assms(5) by (simp add: rt_bigint_row_submul_auto_def Let_def row_loop_def)
    have f: "length ?rs = length rk" "\<And>c. c < length rk \<Longrightarrow> c < ?n \<Longrightarrow>
          val_ok (?rs ! c) \<and> bi_value (?rs ! c) = bi_value (rk ! c) - bi_value q * bi_value (rj ! c)"
        "\<And>c. c < length rk \<Longrightarrow> \<not> c < ?n \<Longrightarrow> ?rs ! c = rk ! c"
      using row_fold_ok [OF assms(1-4), of ?n] n(1) assms(5) by auto
    have "val_ok (?rs ! c) \<and>
        bi_value (?rs ! c) = bi_value (rk ! c) - (if c < length rj then bi_value q * bi_value (rj ! c) else 0)"
      if "c < length rk" for c
      using f(2,3) [OF that] n assms(3) that by (cases "c < ?n") (auto simp: operand_def)
    then show ?thesis
      using e f(1) by blast
  qed
qed

theorem row_submul_auto_exact_witness:
  "\<exists>rs. rt_bigint_row_submul_auto gmp_model [sample_big] [sample_big] sample_big = Some (VSeq rs) \<and>
    bi_value (rs ! 0) = bi_value sample_big - bi_value sample_big * bi_value sample_big"
  using row_submul_auto_exact [OF gmp_model_documented sample_big_ok(1), of "[sample_big]" "[sample_big]"] sample_big_ok(1)
  by auto


lemma export_count:
  assumes "gmp_documented G"
  shows "length (mpz_export64 G z) \<le> 1 \<longleftrightarrow> \<bar>z\<bar> < 2 ^ 64"
proof -
  let ?l = "mpz_export64 G z"
  have l: "lv ?l = \<bar>z\<bar>" "normal ?l (length ?l)"
    by (simp_all add: gmp_simps [OF assms])
  show ?thesis
  proof
    assume "length ?l \<le> 1"
    then have "(2 :: int) ^ (64 * length ?l) \<le> 2 ^ (64 * 1)"
      by (intro power_increasing) auto
    then show "\<bar>z\<bar> < 2 ^ 64"
      using lv_less [of ?l] l(1) by simp
  next
    assume z: "\<bar>z\<bar> < 2 ^ 64"
    show "length ?l \<le> 1"
    proof (rule ccontr)
      assume "\<not> length ?l \<le> 1"
      then obtain k where k: "length ?l = Suc (Suc k)"
        by (cases "length ?l"; cases "length ?l - 1") auto
      have "(2 :: int) ^ (64 * 1) \<le> 2 ^ (64 * Suc k)"
        by (intro power_increasing) auto
      then show False
        using normal_mag_ge [of ?l "Suc k"] l z k by simp
    qed
  qed
qed

text \<open>
  C36: \<open>rt_bigint_to_int\<close> gives the tagged integer back for every value in the range of small integers,
  but for every value of more than 64 bits GMP writes all its limbs over the single word that
  \<open>_bi_mpz_get_i64\<close> provides on the stack.
\<close>

theorem bigint_to_int_overwrites:
  assumes "gmp_documented G" "operand a"
  shows "(- (2 ^ 62) \<le> bi_value a \<longrightarrow> bi_value a < 2 ^ 62 \<longrightarrow>
      rt_bigint_to_int G a = Inr (VWord (rt_tag_v (word_of_int (bi_value a))))) \<and>
    (2 ^ 64 \<le> \<bar>bi_value a\<bar> \<longrightarrow> rt_bigint_to_int G a = Inl StackOverwrite)"
proof -
  let ?z = "bi_value a"
  have z: "bi_val_to_mpz G a = ?z"
    using assms val_to_mpz_ok by (simp add: operand_def)
  let ?t = "if sgn ?z < 0 then - ?z else ?z"
  have t: "\<bar>?t\<bar> = \<bar>?z\<bar>"
    by auto
  have get: "bi_mpz_get_i64 G ?z = (if length (mpz_export64 G ?t) > 1 then None
      else Some (if sgn ?z < 0 then - ((case mpz_export64 G ?t of [] \<Rightarrow> 0 | m # _ \<Rightarrow> m) - 1) - 1
                 else case mpz_export64 G ?t of [] \<Rightarrow> 0 | m # _ \<Rightarrow> m))"
    by (simp only: bi_mpz_get_i64_def gmp_simps(4,5) [OF assms(1)] Let_def)
  have big: "rt_bigint_to_int G a = Inl StackOverwrite" if "2 ^ 64 \<le> \<bar>?z\<bar>"
  proof -
    have "length (mpz_export64 G ?t) > 1"
      using that export_count [OF assms(1), of ?t] unfolding t by linarith
    then show ?thesis
      by (simp only: rt_bigint_to_int_def z get if_True option.case)
  qed
  have small: "rt_bigint_to_int G a = Inr (VWord (rt_tag_v (word_of_int ?z)))" if r: "- (2 ^ 62) \<le> ?z" "?z < 2 ^ 62"
  proof -
    let ?l = "mpz_export64 G ?t"
    have len: "length ?l \<le> 1"
      using export_count [OF assms(1), of ?t] r unfolding t by auto
    define m where "m = (case ?l of [] \<Rightarrow> 0 | m # _ \<Rightarrow> m)"
    have "lv ?l = \<bar>?t\<bar>"
      by (rule gmp_simps(2) [OF assms(1)])
    then have m: "uint m = \<bar>?z\<bar>"
      using len t by (cases ?l) (auto simp: m_def)
    then have "m = word_of_int \<bar>?z\<bar>"
      by (metis word_of_int_uint)
    then have "(if sgn ?z < 0 then - (m - 1) - 1 else m) = word_of_int ?z"
      by (auto simp: sgn_if)
    then show ?thesis
      using len unfolding rt_bigint_to_int_def z get m_def [symmetric]
      by (simp only: not_less [symmetric] if_False option.case)
  qed
  show ?thesis
    using big small by blast
qed

theorem bigint_to_int_overwrites_witness:
  "rt_bigint_to_int gmp_model sample_big = Inl StackOverwrite"
  using bigint_to_int_overwrites [OF gmp_model_documented sample_big_ok(1)] sample_big_ok(2) by simp

section \<open>Bytes\<close>

definition be_value :: "8 word list \<Rightarrow> int" where
  "be_value bs = foldl (\<lambda>acc b. acc * 256 + uint b) 0 bs"

lemma seq_byte_tag: "seq_byte (VWord (rt_tag_v (ucast (b :: 8 word)))) = uint b"
proof -
  have b: "0 \<le> uint b" "uint b < 2 ^ 8"
    using uint_lt2p [of b] by simp_all
  have u: "uint (ucast b :: i64) = uint b"
    by (simp add: unsigned_ucast_eq take_bit_int_eq_self_iff order_less_trans [OF b(2)])
  then have s: "sint (ucast b :: i64) = uint b"
    using b by (simp add: sint_i64)
  have "small_int (ucast b)"
    using s b by (simp add: small_int_iff order_trans [OF _ b(1)])
  then have "as_int (VWord (rt_tag_v (ucast b))) = Some (uint b)"
    by (simp add: as_int_def untag_tag_small s)
  moreover have "uint b AND 255 = take_bit 8 (uint b)"
    by (simp add: take_bit_eq_mask mask_eq_exp_minus_1)
  ultimately show ?thesis
    using b by (simp add: seq_byte_def take_bit_int_eq_self)
qed

lemma seq_to_mpz_bytes:
  assumes "gmp_documented G"
  shows "seq_to_mpz G (map (\<lambda>b. VWord (rt_tag_v (ucast b))) bs) = be_value bs"
  by (simp add: seq_to_mpz_def be_value_def foldl_map gmp_simps [OF assms] seq_byte_tag)

text \<open>
  C37: \<open>rt_long\<close> reads back what \<open>rt_bigint_to_bytes\<close> writes: the list of big-endian bytes of a value
  denotes its magnitude, so the round trip is the identity on nonnegative values and drops the sign
  of negative ones.
\<close>

theorem bigint_bytes_roundtrip:
  assumes "gmp_documented G" "\<And>z. be_value (mpz_export8 z) = \<bar>z\<bar>" "operand a"
  shows "bi_value (rt_long G mpz_import8 f64_to_i64 (rt_bigint_to_bytes G mpz_export8 a)) = \<bar>bi_value a\<bar>"
proof -
  have z: "bi_val_to_mpz G a = bi_value a"
    using assms(1,3) val_to_mpz_ok by (simp add: operand_def)
  show ?thesis
  proof (cases "bi_value a = 0")
    case True
    then show ?thesis
      using seq_to_mpz_bytes [OF assms(1), of "[0]"] from_mpz_ok [OF assms(1), of 0]
      by (simp add: rt_long_def rt_bigint_to_bytes_def z gmp_simps [OF assms(1)] be_value_def)
  next
    case False
    then have "mpz_export8 (bi_value a) \<noteq> []"
      using assms(2) [of "bi_value a"] by (auto simp: be_value_def)
    then show ?thesis
      using False assms(2) from_mpz_ok [OF assms(1)] sgn_0_0 [of "bi_value a"]
      by (simp add: rt_long_def rt_bigint_to_bytes_def z gmp_simps [OF assms(1)] Let_def seq_to_mpz_bytes [OF assms(1)])
  qed
qed

text \<open>The big-endian bytes of an integer.\<close>

function bytes_of :: "nat \<Rightarrow> 8 word list" where
  "bytes_of n = (if n = 0 then [] else bytes_of (n div 256) @ [of_nat n])"
  by pat_completeness auto
termination
  by (relation "measure id") auto

declare bytes_of.simps [simp del]

lemma be_value_bytes_of: "be_value (bytes_of n) = int n"
proof (induction n rule: bytes_of.induct)
  case (1 n)
  have "uint (of_nat n :: 8 word) = int n mod 256"
    by (simp add: uint_nat unat_of_nat zmod_int)
  then show ?case
    using 1 by (subst bytes_of.simps) (simp add: be_value_def zdiv_int)
qed

theorem bigint_bytes_roundtrip_witness:
  "bi_value (rt_long gmp_model be_value (\<lambda>_. 0) (rt_bigint_to_bytes gmp_model (\<lambda>z. bytes_of (nat \<bar>z\<bar>)) sample_big)) =
     5 + 7 * 2 ^ 64"
  using bigint_bytes_roundtrip [OF gmp_model_documented _ sample_big_ok(1), of "\<lambda>z. bytes_of (nat \<bar>z\<bar>)" be_value "\<lambda>_. 0"]
    sample_big_ok(2) by (simp add: be_value_bytes_of)

section \<open>Constant-time selection\<close>

lemma uint_inj: "uint (v :: u64) = uint w \<Longrightarrow> v = w"
  by (metis word_of_int_uint)

lemma ct_is_zero_eq: "ct_is_zero d = (if d = 0 then 1 else 0)"
proof (cases "d = 0")
  case False
  have top: "drop_bit 63 x = (if 2 ^ 63 \<le> uint x then 1 else 0)" for x :: u64
  proof -
    have "uint (drop_bit 63 x) = uint x div 2 ^ 63"
      using uint64_bounds [of x] by (simp only: unsigned_drop_bit_eq) (simp add: drop_bit_eq_div take_bit_int_eq_self)
    moreover have "uint x div 2 ^ 63 = (if 2 ^ 63 \<le> uint x then 1 else 0)"
      using uint64_bounds [of x] by (auto simp: div_pos_pos_trivial)
    ultimately have "uint (drop_bit 63 x) = uint (if 2 ^ 63 \<le> uint x then 1 else 0 :: u64)"
      by simp
    then show ?thesis
      by (rule uint_inj)
  qed
  have "uint d \<noteq> 0"
    using False by (simp add: unsigned_eq_0_iff)
  then have "uint (- d) = 2 ^ 64 - uint d"
    using uint64_bounds [of d] by (simp add: uint_word_ariths(4) zmod_zminus1_eq_if)
  then have "2 ^ 63 \<le> uint d \<or> 2 ^ 63 \<le> uint (- d)"
    by simp linarith
  then have "drop_bit 63 (d OR (0 - d)) = 1"
    by (auto simp: drop_bit_or top)
  then show ?thesis
    using False by (simp add: ct_is_zero_def)
qed (simp add: ct_is_zero_def)

text \<open>
  The branch-free \<open>rt_ct_select\<close> is the selection by truth value: it returns \<open>b\<close> exactly when the
  condition is falsy (nil, false or the tagged zero), else \<open>a\<close>, for all 64-bit words.
\<close>

theorem ct_select_spec:
  "rt_ct_select a b c = (if rt_is_falsy c then b else a)"
proof -
  have x: "c XOR y = 0 \<longleftrightarrow> c = y" for y :: i64
    using xor_self_eq [of y] by (metis bit.xor_left_self xor.comm_neutral)
  have "is_falsy = (if rt_is_falsy c then 1 else 0)"
    if "is_falsy = ct_is_zero c OR ct_is_zero (c XOR 1) OR ct_is_zero (c XOR NY_IMM_FALSE)" for is_falsy
    using that by (simp add: ct_is_zero_eq x rt_is_falsy_def NY_IMM_NIL_def NY_IMM_FALSE_def rt_tag_v_eq)
  then show ?thesis
    by (simp add: rt_ct_select_def Let_def)
qed


end
