(* ===== verification/Bigint_Gf2.thy ===== *)
theory Bigint_Gf2
  imports Bigint_Correct
begin

text \<open>
  Correctness of the polynomial arithmetic over GF(2) in \<open>src/rt/bigint.c\<close>. A polynomial is a natural
  number whose bits are the coefficients; the specification is carry-less multiplication.
\<close>

section \<open>Carry-less multiplication\<close>

fun clmul :: "nat \<Rightarrow> nat \<Rightarrow> nat" where
  "clmul a b = (if b = 0 then 0 else (if odd b then a else 0) XOR 2 * clmul a (b div 2))"

declare clmul.simps [simp del]

lemma double_xor: "2 * (x XOR y) = (2 * x) XOR (2 * y :: nat)"
  using push_bit_xor [of 1 x y] by (simp add: push_bit_eq_mult mult.commute)

lemma half_xor: "(x XOR y) div 2 = (x div 2) XOR (y div 2 :: nat)"
  using drop_bit_xor [of 1 x y] by (simp add: drop_bit_eq_div)

lemma odd_xor: "odd (x XOR y) \<longleftrightarrow> odd x \<noteq> odd (y :: nat)"
  by (simp add: even_xor_iff)

lemma clmul_0 [simp]: "clmul a 0 = 0" "clmul 0 b = 0"
proof -
  show "clmul a 0 = 0"
    by (simp add: clmul.simps)
  show "clmul 0 b = 0"
    by (induction b rule: less_induct) (subst clmul.simps, simp)
qed

lemma clmul_step: "clmul a b = (if odd b then a else 0) XOR 2 * clmul a (b div 2)"
  by (cases "b = 0") (simp_all add: clmul.simps [of a b])

lemma xor_cancel: "x XOR (x XOR y) = (y :: nat)"
  by (simp flip: xor.assoc)

lemma clmul_xor_right: "clmul a (b XOR c) = clmul a b XOR clmul a c"
proof (induction "b + c" arbitrary: b c rule: less_induct)
  case less
  show ?case
  proof (cases "b = 0 \<or> c = 0")
    case False
    then have "clmul a (b div 2 XOR c div 2) = clmul a (b div 2) XOR clmul a (c div 2)"
      by (intro less) auto
    then show ?thesis
      by (subst (1 2 3) clmul_step) (auto simp: half_xor odd_xor double_xor xor_cancel ac_simps)
  qed auto
qed

lemma clmul_xor_left: "clmul (a XOR b) c = clmul a c XOR clmul b c"
proof (induction c rule: less_induct)
  case (less c)
  show ?case
  proof (cases "c = 0")
    case False
    then have "clmul (a XOR b) (c div 2) = clmul a (c div 2) XOR clmul b (c div 2)"
      by (intro less) auto
    then show ?thesis
      by (subst (1 2 3) clmul_step) (auto simp: double_xor ac_simps)
  qed simp
qed

lemma clmul_double: "clmul (2 * a) b = 2 * clmul a b" "clmul a (2 * b) = 2 * clmul a b"
proof -
  show "clmul (2 * a) b = 2 * clmul a b"
  proof (induction b rule: less_induct)
    case (less b)
    show ?case
    proof (cases "b = 0")
      case False
      then have "clmul (2 * a) (b div 2) = 2 * clmul a (b div 2)"
        by (intro less) auto
      then show ?thesis
        by (subst (1 2) clmul_step) (auto simp: double_xor)
    qed simp
  qed
  show "clmul a (2 * b) = 2 * clmul a b"
    by (subst clmul_step) simp
qed

lemma clmul_power: "clmul a (2 ^ j) = push_bit j a"
  by (induction j) (simp_all add: clmul_double push_bit_eq_mult clmul_step [of a "Suc 0"])

lemma clmul_assoc: "clmul (clmul m k) b = clmul m (clmul k b)"
proof (induction b rule: less_induct)
  case (less b)
  show ?case
  proof (cases "b = 0")
    case False
    then have "clmul (clmul m k) (b div 2) = clmul m (clmul k (b div 2))"
      by (intro less) auto
    then show ?thesis
      by (subst clmul_step, subst (3) clmul_step) (simp add: clmul_xor_right clmul_double)
  qed simp
qed

definition gf2_cong :: "nat \<Rightarrow> nat \<Rightarrow> nat \<Rightarrow> bool" where
  "gf2_cong m x y \<longleftrightarrow> (\<exists>k. x XOR y = clmul m k)"

lemma cong_refl: "gf2_cong m x x"
  unfolding gf2_cong_def by (rule exI [of _ 0]) simp

lemma cong_trans: "gf2_cong m x y \<Longrightarrow> gf2_cong m y z \<Longrightarrow> gf2_cong m x z"
proof -
  assume "gf2_cong m x y" "gf2_cong m y z"
  then obtain j k where "x XOR y = clmul m j" "y XOR z = clmul m k"
    by (auto simp: gf2_cong_def)
  moreover have "x XOR z = (x XOR y) XOR (y XOR z)"
    by (metis xor.assoc xor_self_eq xor.left_neutral)
  ultimately have "x XOR z = clmul m (j XOR k)"
    by (simp add: clmul_xor_right)
  then show ?thesis
    unfolding gf2_cong_def by blast
qed

lemma cong_xor: "gf2_cong m x y \<Longrightarrow> gf2_cong m (z XOR x) (z XOR y)"
proof -
  assume "gf2_cong m x y"
  moreover have "(z XOR x) XOR (z XOR y) = x XOR y"
    by (metis xor.assoc xor.commute xor_self_eq xor.left_neutral)
  ultimately show ?thesis
    by (simp add: gf2_cong_def)
qed

lemma cong_clmul: "gf2_cong m x y \<Longrightarrow> gf2_cong m (clmul x b) (clmul y b)"
  unfolding gf2_cong_def by (metis clmul_assoc clmul_xor_left)

section \<open>Degrees\<close>

definition has_deg :: "nat \<Rightarrow> nat \<Rightarrow> bool" where
  "has_deg x d \<longleftrightarrow> 2 ^ d \<le> x \<and> x < 2 ^ Suc d"

lemma has_deg_bit: "has_deg x d \<Longrightarrow> bit x d"
proof -
  assume "has_deg x d"
  then have "x div 2 ^ d = 1"
    by (auto simp: has_deg_def intro!: div_nat_eqI)
  then show ?thesis
    by (simp add: bit_iff_odd)
qed

lemma less_exp_bit: "x < 2 ^ n \<Longrightarrow> n \<le> k \<Longrightarrow> \<not> bit (x :: nat) k"
  by (metis bit_take_bit_iff leD take_bit_nat_eq_self)

lemma xor_top:
  assumes "has_deg x d" "has_deg y d"
  shows "x XOR y < 2 ^ d"
proof -
  have "take_bit d (x XOR y) = x XOR y"
  proof (rule bit_eqI)
    fix n
    show "bit (take_bit d (x XOR y)) n = bit (x XOR y) n"
    proof (cases "n < d")
      case False
      then have "n = d \<or> Suc d \<le> n"
        by auto
      then show ?thesis
        using has_deg_bit [OF assms(1)] has_deg_bit [OF assms(2)] assms
          less_exp_bit [of x "Suc d" n] less_exp_bit [of y "Suc d" n] False
        by (auto simp: bit_take_bit_iff bit_xor_iff has_deg_def)
    qed (simp add: bit_take_bit_iff bit_xor_iff)
  qed
  then show ?thesis
    by (metis take_bit_nat_less_exp)
qed

lemma has_deg_shift:
  assumes "has_deg m e" "e \<le> d"
  shows "has_deg (push_bit (d - e) m) d"
proof -
  have "2 ^ d = 2 ^ e * (2 ^ (d - e) :: nat)" "2 ^ Suc d = 2 ^ Suc e * (2 ^ (d - e) :: nat)"
    using assms(2) by (simp_all flip: power_add)
  then show ?thesis
    using assms(1) by (simp add: has_deg_def push_bit_eq_mult del: power_Suc)
qed

section \<open>The documented behaviour of the GMP bit operations\<close>

definition gmp_bits_documented :: "gmp_bits \<Rightarrow> bool" where
  "gmp_bits_documented B \<longleftrightarrow>
     (\<forall>z. z \<noteq> 0 \<longrightarrow> (\<exists>d. mpz_sizeinbase2 B z = Suc d \<and> 2 ^ d \<le> \<bar>z\<bar> \<and> \<bar>z\<bar> < 2 ^ Suc d)) \<and>
     (\<forall>z k. mpz_mul_2exp B z k = push_bit k z) \<and> (\<forall>z k. mpz_fdiv_q_2exp B z k = drop_bit k z) \<and>
     (\<forall>x y. mpz_xor B x y = x XOR y) \<and> (\<forall>z k. mpz_tstbit B z k = bit z k) \<and>
     (\<forall>z k. mpz_setbit B z k = set_bit k z)"

lemma deg_zero: "gmp_documented G \<Longrightarrow> bi_gf2_deg G B 0 = -1"
  using gmp_simps(5) by (simp add: bi_gf2_deg_def)

lemma deg_int:
  assumes G: "gmp_documented G" and B: "gmp_bits_documented B" and "0 < x"
  obtains d where "bi_gf2_deg G B (int x) = int d" "has_deg x d"
proof -
  obtain d where d: "mpz_sizeinbase2 B (int x) = Suc d" "2 ^ d \<le> \<bar>int x\<bar>" "\<bar>int x\<bar> < 2 ^ Suc d"
    using B assms(3) unfolding gmp_bits_documented_def by (metis of_nat_0_less_iff order_less_irrefl)
  have "int (2 ^ d) \<le> int x" "int x < int (2 ^ Suc d)"
    using d(2,3) by simp_all
  then have "has_deg x d"
    unfolding has_deg_def by (simp only: of_nat_le_iff of_nat_less_iff)
  then show ?thesis
    using that d(1) assms(3) gmp_simps(5) [OF G] by (simp add: bi_gf2_deg_def)
qed

lemma bit_ops:
  assumes "gmp_bits_documented B"
  shows "mpz_mul_2exp B (int x) k = int (push_bit k x)" "mpz_xor B (int x) (int y) = int (x XOR y)"
    "mpz_fdiv_q_2exp B (int x) k = int (drop_bit k x)" "mpz_tstbit B (int x) k = bit x k"
  using assms by (simp_all add: gmp_bits_documented_def of_nat_push_bit of_nat_xor_eq of_nat_drop_bit bit_of_nat_iff)

lemma has_deg_unique: "has_deg x d \<Longrightarrow> has_deg x e \<Longrightarrow> d = e"
  by (metis has_deg_bit has_deg_def less_exp_bit linorder_neqE_nat Suc_leI)

section \<open>Remainders\<close>

lemma gf2_mod_loop_ok:
  assumes G: "gmp_documented G" and B: "gmp_bits_documented B" and m: "has_deg m e"
  shows "\<exists>r k. gf2_mod_loop G B (int m) (int x) = Some (int r) \<and> r < 2 ^ e \<and> x XOR r = clmul m k"
proof (induction x rule: less_induct)
  case (less x)
  have "0 < m"
    using m by (auto simp: has_deg_def intro: Nat.gr0I)
  then have me: "bi_gf2_deg G B (int m) = int e"
    using deg_int [OF G B] has_deg_unique [OF m] by metis
  show ?case
  proof (cases "x < 2 ^ e")
    case True
    have "bi_gf2_deg G B (int x) < int e"
    proof (cases "x = 0")
      case False
      then obtain d where d: "bi_gf2_deg G B (int x) = int d" "has_deg x d"
        using deg_int [OF G B] by blast
      have "(2 :: nat) ^ d < 2 ^ e"
        using d(2) True unfolding has_deg_def by linarith
      then show ?thesis
        using d(1) by simp
    qed (simp add: deg_zero [OF G])
    then have "gf2_mod_loop G B (int m) (int x) = Some (int x)"
      by (subst gf2_mod_loop.simps) (simp add: me)
    then show ?thesis
      using True cong_refl [of m x] by (auto simp: gf2_cong_def)
  next
    case False
    then have "0 < x"
      by (auto intro: Nat.gr0I)
    then obtain d where d: "bi_gf2_deg G B (int x) = int d" "has_deg x d"
      using deg_int [OF G B] by blast
    have "(2 :: nat) ^ e < 2 ^ Suc d"
      using d(2) False unfolding has_deg_def by linarith
    then have ed: "e \<le> d"
      by (simp only: power_strict_increasing_iff one_less_numeral_iff semiring_norm less_Suc_eq_le)
    let ?x = "x XOR push_bit (d - e) m"
    have "gf2_mod_loop G B (int m) (int x) = gf2_mod_loop G B (int m) (int ?x)"
      using ed by (subst gf2_mod_loop.simps) (simp add: me d(1) bit_ops [OF B] nat_diff_distrib)
    moreover have "?x < x"
      using xor_top [OF d(2) has_deg_shift [OF m ed]] d(2) by (simp add: has_deg_def)
    then obtain r k where "gf2_mod_loop G B (int m) (int ?x) = Some (int r)" "r < 2 ^ e" "?x XOR r = clmul m k"
      using less by blast
    moreover from this(3) have "x XOR r = clmul m (2 ^ (d - e) XOR k)"
      by (simp add: clmul_xor_right clmul_power) (metis xor.assoc xor.commute xor_cancel)
    ultimately show ?thesis
      by auto
  qed
qed

section \<open>Products\<close>

lemma xor_less_exp: "x < 2 ^ n \<Longrightarrow> y < 2 ^ n \<Longrightarrow> x XOR y < (2 ^ n :: nat)"
  by (metis take_bit_nat_eq_self take_bit_nat_less_exp take_bit_xor)

lemma cong_xor_mod: "gf2_cong m (x XOR m) x"
  unfolding gf2_cong_def
  by (rule exI [of _ 1]) (simp add: clmul_power [of m 0, simplified] xor.commute [of "x XOR m"] xor_cancel)

lemma gf2_mul_loop_ok:
  assumes G: "gmp_documented G" and B: "gmp_bits_documented B" and m: "has_deg m e"
  shows "va < 2 ^ e \<Longrightarrow> out < 2 ^ e \<Longrightarrow>
    \<exists>r. gf2_mul_loop G B (int m) (int va) (int vb) (int out) = Some (int r) \<and> r < 2 ^ e \<and>
      gf2_cong m r (out XOR clmul va vb)"
proof (induction vb arbitrary: va out rule: less_induct)
  case (less vb)
  have "0 < m"
    using m by (auto simp: has_deg_def intro: Nat.gr0I)
  then have me: "bi_gf2_deg G B (int m) = int e"
    using deg_int [OF G B] has_deg_unique [OF m] by metis
  show ?case
  proof (cases "vb = 0")
    case True
    then show ?thesis
      using less.prems cong_refl by (subst gf2_mul_loop.simps) (auto simp: gmp_simps(5) [OF G])
  next
    case False
    define out' where "out' = (if odd vb then out XOR va else out)"
    define va1 where "va1 = push_bit 1 va"
    define va' where "va' = (if vb div 2 \<noteq> 0 then if bit va1 e then va1 XOR m else va1 else va)"
    have va1: "va1 < 2 ^ Suc e"
      using less.prems(1) by (simp add: va1_def)
    have va': "va' < 2 ^ e"
    proof -
      have "va1 < 2 ^ e" if "\<not> bit va1 e"
      proof (rule ccontr)
        assume "\<not> va1 < 2 ^ e"
        then have "has_deg va1 e"
          using va1 by (simp add: has_deg_def)
        then show False
          using that has_deg_bit by blast
      qed
      moreover have "va1 XOR m < 2 ^ e" if "bit va1 e"
      proof (rule xor_top [OF _ m])
        show "has_deg va1 e"
          using va1 that less_exp_bit [of va1 e e] by (auto simp: has_deg_def not_le [symmetric])
      qed
      ultimately show ?thesis
        using less.prems(1) by (simp add: va'_def)
    qed
    have out': "out' < 2 ^ e"
      using less.prems xor_less_exp [of out e va] by (simp add: out'_def)
    have st: "gf2_mul_loop G B (int m) (int va) (int vb) (int out) =
        gf2_mul_loop G B (int m) (int va') (int (vb div 2)) (int out')"
    proof -
      have e: "mpz_mul_2exp B (int va) 1 = int va1" "mpz_fdiv_q_2exp B (int vb) 1 = int (vb div 2)"
          "mpz_tstbit B (int vb) 0 = odd vb" "nat (bi_gf2_deg G B (int m)) = e"
        unfolding bit_ops [OF B] me va1_def by (simp_all add: drop_bit_eq_div bit_0)
      show ?thesis
        using False
        by (subst gf2_mul_loop.simps)
           (simp add: e gmp_simps(5) [OF G] bit_ops(2,4) [OF B] out'_def va'_def sgn_0_0 bit_0 Let_def del: One_nat_def)
    qed
    obtain r where r: "gf2_mul_loop G B (int m) (int va') (int (vb div 2)) (int out') = Some (int r)" "r < 2 ^ e"
        "gf2_cong m r (out' XOR clmul va' (vb div 2))"
      using less.IH [OF _ va' out', of "vb div 2"] False by auto
    have "gf2_cong m (clmul va' (vb div 2)) (2 * clmul va (vb div 2))"
    proof -
      have "gf2_cong m va' va1" if "vb div 2 \<noteq> 0"
        using that cong_refl cong_xor_mod by (simp add: va'_def)
      then have "gf2_cong m (clmul va' (vb div 2)) (clmul va1 (vb div 2))"
        using cong_clmul cong_refl by (cases "vb div 2 = 0") auto
      then show ?thesis
        by (simp add: va1_def clmul_double mult.commute [of va])
    qed
    then have "gf2_cong m (out' XOR clmul va' (vb div 2)) (out' XOR 2 * clmul va (vb div 2))"
      by (rule cong_xor)
    moreover have "out' XOR 2 * clmul va (vb div 2) = out XOR clmul va vb"
      by (subst (2) clmul_step) (simp add: out'_def xor.assoc)
    ultimately have "gf2_cong m r (out XOR clmul va vb)"
      using r(3) cong_trans by metis
    then show ?thesis
      using st r(1,2) by auto
  qed
qed

section \<open>Properties\<close>

lemma operand_nat:
  assumes "gmp_documented G" "operand a" "0 \<le> bi_value a"
  shows "bi_val_to_mpz G a = int (nat (bi_value a))"
  using assms val_to_mpz_ok by (simp add: operand_def)

lemma deg_pos:
  assumes "gmp_documented G" "gmp_bits_documented B" "0 < m"
  obtains e where "bi_gf2_deg G B (int m) = int e" "has_deg m e" "\<not> bi_gf2_deg G B (int m) < 0"
  using deg_int [OF assms] by (metis not_less of_nat_0_le_iff)

text \<open>
  C38: polynomial remainders over GF(2). For a nonnegative dividend and a positive modulus the
  reduction loop of \<open>rt_bigint_gf2_mod\<close> ends, and its result has a smaller degree than the modulus and
  differs from the dividend by a carry-less multiple of the modulus.
\<close>

theorem gf2_mod_correct:
  assumes "gmp_documented G" "gmp_bits_documented B" "operand a" "operand m" "0 \<le> bi_value a" "0 < bi_value m"
  shows "\<exists>r e. map_option bi_value (rt_bigint_gf2_mod G B a m) = Some (int r) \<and>
    has_deg (nat (bi_value m)) e \<and> r < 2 ^ e \<and> gf2_cong (nat (bi_value m)) (nat (bi_value a)) r"
proof -
  let ?a = "nat (bi_value a)" and ?m = "nat (bi_value m)"
  have z: "bi_val_to_mpz G a = int ?a" "bi_val_to_mpz G m = int ?m" "0 < ?m"
    using operand_nat [OF assms(1)] assms(3-6) by auto
  obtain e where e: "has_deg ?m e" "\<not> bi_gf2_deg G B (int ?m) < 0"
    by (rule deg_pos [OF assms(1,2) z(3)])
  obtain r k where "gf2_mod_loop G B (int ?m) (int ?a) = Some (int r)" "r < 2 ^ e" "?a XOR r = clmul ?m k"
    using gf2_mod_loop_ok [OF assms(1,2) e(1)] by blast
  then have "map_option bi_value (rt_bigint_gf2_mod G B a m) = Some (int r)" "r < 2 ^ e" "gf2_cong ?m ?a r"
    using e(2) from_mpz_ok [OF assms(1)]
    unfolding rt_bigint_gf2_mod_def bi_gf2_mod_mpz_def z(1,2) gf2_cong_def by auto
  then show ?thesis
    using e(1) by blast
qed

fun bitlen :: "nat \<Rightarrow> nat" where
  "bitlen n = (if n = 0 then 0 else Suc (bitlen (n div 2)))"

declare bitlen.simps [simp del]

lemma bitlen_has_deg: "0 < n \<Longrightarrow> \<exists>d. bitlen n = Suc d \<and> has_deg n d"
proof (induction n rule: less_induct)
  case (less n)
  show ?case
  proof (cases "n div 2 = 0")
    case True
    then have "n = 1"
      using less.prems by auto
    then show ?thesis
      by (simp add: bitlen.simps has_deg_def)
  next
    case False
    then obtain d where "bitlen (n div 2) = Suc d" "has_deg (n div 2) d"
      using less by (metis Euclidean_Rings.div_less_dividend neq0_conv one_less_numeral_iff semiring_norm(76))
    then show ?thesis
      using less.prems by (subst bitlen.simps) (auto simp: has_deg_def)
  qed
qed

definition gmp_bits_model :: gmp_bits where
  "gmp_bits_model =
     \<lparr>mpz_sizeinbase2 = (\<lambda>z. max 1 (bitlen (nat \<bar>z\<bar>))), mpz_mul_2exp = (\<lambda>z k. push_bit k z),
      mpz_fdiv_q_2exp = (\<lambda>z k. drop_bit k z), mpz_xor = (XOR), mpz_tstbit = bit, mpz_setbit = (\<lambda>z k. set_bit k z)\<rparr>"

lemma gmp_bits_model_documented: "gmp_bits_documented gmp_bits_model"
proof -
  have "\<exists>d. max 1 (bitlen (nat \<bar>z\<bar>)) = Suc d \<and> 2 ^ d \<le> \<bar>z\<bar> \<and> \<bar>z\<bar> < 2 ^ Suc d" if z: "z \<noteq> 0" for z :: int
  proof -
    obtain d where d: "bitlen (nat \<bar>z\<bar>) = Suc d" "has_deg (nat \<bar>z\<bar>) d"
      using bitlen_has_deg [of "nat \<bar>z\<bar>"] z by auto
    have "int (2 ^ d) \<le> int (nat \<bar>z\<bar>)" "int (nat \<bar>z\<bar>) < int (2 ^ Suc d)"
      using d(2) unfolding has_deg_def by (simp_all only: of_nat_le_iff of_nat_less_iff)
    then show ?thesis
      using d(1) by auto
  qed
  then show ?thesis
    by (simp add: gmp_bits_documented_def gmp_bits_model_def)
qed

definition small :: "nat \<Rightarrow> rt_val" where
  "small n = VWord (rt_tag_v (of_nat n))"

lemma small_ok: "n < 2 ^ 61 \<Longrightarrow> operand (small n) \<and> bi_value (small n) = int n"
  using sint_count [of n] by (simp add: small_def operand_def val_ok_def sized_def bi_value_def max_limbs_def)

theorem gf2_mod_correct_witness:
  "\<exists>r e. map_option bi_value (rt_bigint_gf2_mod gmp_model gmp_bits_model (small 283) (small 19)) = Some (int r) \<and>
    has_deg 19 e \<and> r < 2 ^ e \<and> gf2_cong 19 283 r"
  using gf2_mod_correct [OF gmp_model_documented gmp_bits_model_documented, of "small 283" "small 19"]
    small_ok [of 283] small_ok [of 19] by simp



lemma stuck_facts:
  "bi_gf2_deg gmp_model gmp_bits_model (-4) = 2" "bi_gf2_deg gmp_model gmp_bits_model (-6) = 2"
  "bi_gf2_deg gmp_model gmp_bits_model 3 = 1" "mpz_xor gmp_bits_model (-4) (mpz_mul_2exp gmp_bits_model 3 1) = -6"
  "mpz_xor gmp_bits_model (-6) (mpz_mul_2exp gmp_bits_model 3 1) = -4"
  by code_simp+

lemma gf2_loop_stuck:
  assumes "gf2_mod_loop G B m x = Some r"
  shows "\<not> (G = gmp_model \<and> B = gmp_bits_model \<and> m = 3 \<and> (x = -4 \<or> x = -6))"
  using assms
  by (rule gf2_mod_loop.raw_induct
        [where P = "\<lambda>G B m x r. \<not> (G = gmp_model \<and> B = gmp_bits_model \<and> m = 3 \<and> (x = -4 \<or> x = -6))", rotated])
     (fastforce simp: stuck_facts stuck_facts(4,5) [unfolded One_nat_def])

text \<open>
  C40: the reduction loop does not end for every input. GMP measures the size of the magnitude but
  computes exclusive or in two's complement, so a negative dividend can keep its degree: reducing -4
  by 3 alternates between -4 and -6 forever.
\<close>

theorem gf2_mod_negative_hangs:
  "rt_bigint_gf2_mod gmp_model gmp_bits_model (VWord (rt_tag_v (-4))) (VWord (rt_tag_v 3)) = None"
proof -
  have "bi_val_to_mpz gmp_model (VWord (rt_tag_v (-4))) = -4" "bi_val_to_mpz gmp_model (VWord (rt_tag_v 3)) = 3"
    by code_simp+
  moreover have "gf2_mod_loop gmp_model gmp_bits_model 3 (-4) = None"
    using gf2_loop_stuck by (cases "gf2_mod_loop gmp_model gmp_bits_model 3 (-4)") blast+
  ultimately show ?thesis
    by (simp add: rt_bigint_gf2_mod_def bi_gf2_mod_mpz_def stuck_facts)
qed

end
