(* ===== verification/Parser_Literals.thy ===== *)
theory Parser_Literals
  imports Lexer
begin

text \<open>
  The literals of the parser: numbers (\<open>parse_primary\<close> of \<open>src/parse/expr.c\<close> on a number token, with
  its helpers), the escapes of strings (\<open>src/parse/core.c\<close>) and the parts of f-strings. A literal is
  read from the text of its token. The conversion of a decimal fraction to a \<open>double\<close> is the
  parameter \<open>strtod\<close>, which also says whether the value is out of range.
\<close>

unbundle bit_operations_syntax

section \<open>Numbers\<close>

datatype lit_type_hint =
  NY_LIT_HINT_NONE | NY_LIT_HINT_I8 | NY_LIT_HINT_I16 | NY_LIT_HINT_I32 | NY_LIT_HINT_I64
  | NY_LIT_HINT_U8 | NY_LIT_HINT_U16 | NY_LIT_HINT_U32 | NY_LIT_HINT_U64 | NY_LIT_HINT_I128
  | NY_LIT_HINT_U128 | NY_LIT_HINT_F32 | NY_LIT_HINT_F64 | NY_LIT_HINT_F128

text \<open>\<open>tolower\<close> of the C locale.\<close>

definition c_tolower :: "char \<Rightarrow> char" where
  "c_tolower c = (if char_le (CHR ''A'') c \<and> char_le c (CHR ''Z'') then char_of (of_char c + 32 :: nat) else c)"

definition suffix_eq :: "string \<Rightarrow> string \<Rightarrow> bool" where
  "suffix_eq s lit \<longleftrightarrow> map c_tolower s = lit"

definition hint_is_float :: "lit_type_hint \<Rightarrow> bool" where
  "hint_is_float hint \<longleftrightarrow> hint = NY_LIT_HINT_F32 \<or> hint = NY_LIT_HINT_F64 \<or> hint = NY_LIT_HINT_F128"

definition hint_allows_integer_overflow_bigint :: "lit_type_hint \<Rightarrow> bool \<Rightarrow> bool" where
  "hint_allows_integer_overflow_bigint hint hint_explicit \<longleftrightarrow>
     (if \<not> hint_explicit then True else hint = NY_LIT_HINT_I128 \<or> hint = NY_LIT_HINT_U128)"

text \<open>The table of suffixes, in the order in which they are tried.\<close>

definition suffix_hint :: "string \<Rightarrow> lit_type_hint option" where
  "suffix_hint suffix =
     (if suffix_eq suffix ''i8'' then Some NY_LIT_HINT_I8
      else if suffix_eq suffix ''i16'' then Some NY_LIT_HINT_I16
      else if suffix_eq suffix ''i32'' then Some NY_LIT_HINT_I32
      else if suffix_eq suffix ''i64'' then Some NY_LIT_HINT_I64
      else if suffix_eq suffix ''i128'' then Some NY_LIT_HINT_I128
      else if suffix_eq suffix ''u8'' then Some NY_LIT_HINT_U8
      else if suffix_eq suffix ''u16'' then Some NY_LIT_HINT_U16
      else if suffix_eq suffix ''u32'' then Some NY_LIT_HINT_U32
      else if suffix_eq suffix ''u64'' then Some NY_LIT_HINT_U64
      else if suffix_eq suffix ''u128'' then Some NY_LIT_HINT_U128
      else if suffix_eq suffix ''f32'' then Some NY_LIT_HINT_F32
      else if suffix_eq suffix ''f64'' then Some NY_LIT_HINT_F64
      else if suffix_eq suffix ''f128'' then Some NY_LIT_HINT_F128
      else None)"

record suffix_result =
  sr_ok :: bool
  sr_num_len :: nat
  sr_hint :: lit_type_hint
  sr_explicit :: bool

text \<open>\<open>i\<close> is the position behind the last byte that is no digit.\<close>

definition parse_numeric_suffix :: "string \<Rightarrow> suffix_result" where
  "parse_numeric_suffix s =
     (let len = length s;
          plain = (\<lambda>ok. \<lparr>sr_ok = ok, sr_num_len = len, sr_hint = NY_LIT_HINT_NONE, sr_explicit = False\<rparr>);
          i = len - length (takeWhile c_isdigit (rev s))
      in if len < 2 \<or> i = len \<or> i = 0 then plain True
         else
           (let c = s ! (i - 1);
                is_hex = (len \<ge> 2 \<and> s ! 0 = CHR ''0'' \<and> (s ! 1 = CHR ''x'' \<or> s ! 1 = CHR ''X''))
            in if c \<notin> set ''iIuUfF'' then plain True
               else if is_hex \<and> (c = CHR ''f'' \<or> c = CHR ''F'') then plain True
               else
                 (let suffix_start = i - 1;
                      value_end = (if suffix_start > 0 \<and> s ! (suffix_start - 1) = CHR ''_''
                                   then suffix_start - 1 else suffix_start)
                  in case suffix_hint (drop suffix_start s) of
                       None \<Rightarrow> plain False
                     | Some hint \<Rightarrow> \<lparr>sr_ok = True, sr_num_len = value_end, sr_hint = hint, sr_explicit = True\<rparr>)))"

definition numeric_literal_value_buf :: "string \<Rightarrow> string" where
  "numeric_literal_value_buf s = filter (\<lambda>c. c \<noteq> CHR ''_'') s"

definition numeric_digit_value :: "char \<Rightarrow> nat option" where
  "numeric_digit_value c =
     (if char_le (CHR ''0'') c \<and> char_le c (CHR ''9'') then Some (of_char c - of_char (CHR ''0''))
      else if char_le (CHR ''a'') c \<and> char_le c (CHR ''f'') then Some (10 + (of_char c - of_char (CHR ''a'')))
      else if char_le (CHR ''A'') c \<and> char_le c (CHR ''F'') then Some (10 + (of_char c - of_char (CHR ''A'')))
      else None)"

text \<open>\<open>IntRange\<close>: the result \<open>false\<close> with \<open>errno\<close> set to \<open>ERANGE\<close>.\<close>

datatype int_literal = IntValue u64 | IntRange | IntMalformed

fun digits_loop :: "nat \<Rightarrow> u64 \<Rightarrow> string \<Rightarrow> int_literal" where
  "digits_loop base acc [] = IntValue acc"
| "digits_loop base acc (c # cs) =
     (case numeric_digit_value c of
        None \<Rightarrow> IntMalformed
      | Some digit \<Rightarrow>
          if digit \<ge> base then IntMalformed
          else if acc > (- 1 - of_nat digit) div of_nat base then IntRange
          else digits_loop base (acc * of_nat base + of_nat digit) cs)"

text \<open>The base and the digits behind the prefix.\<close>

definition literal_radix :: "string \<Rightarrow> nat \<times> string" where
  "literal_radix s =
     (if length s > 2 \<and> s ! 0 = CHR ''0'' then
        (if s ! 1 = CHR ''x'' \<or> s ! 1 = CHR ''X'' then (16, drop 2 s)
         else if s ! 1 = CHR ''b'' \<or> s ! 1 = CHR ''B'' then (2, drop 2 s)
         else if s ! 1 = CHR ''o'' \<or> s ! 1 = CHR ''O'' then (8, drop 2 s)
         else (10, s))
      else (10, s))"

definition parse_integer_literal_u64 :: "string \<Rightarrow> int_literal" where
  "parse_integer_literal_u64 s =
     (case literal_radix s of (base, ds) \<Rightarrow> if ds = [] then IntMalformed else digits_loop base 0 ds)"

text \<open>
  The result of \<open>check_int_range\<close> and whether it reports an error: it reports only for a hint that no
  case of its \<open>switch\<close> names.
\<close>

definition check_int_range :: "u64 \<Rightarrow> lit_type_hint \<Rightarrow> bool \<times> bool" where
  "check_int_range val hint =
     (case hint of
        NY_LIT_HINT_I8 \<Rightarrow> (val \<le> 127, False)
      | NY_LIT_HINT_I16 \<Rightarrow> (val \<le> 32767, False)
      | NY_LIT_HINT_I32 \<Rightarrow> (val \<le> 2147483647, False)
      | NY_LIT_HINT_I64 \<Rightarrow> (val \<le> 9223372036854775807, False)
      | NY_LIT_HINT_I128 \<Rightarrow> (True, False)
      | NY_LIT_HINT_U8 \<Rightarrow> (val \<le> 255, False)
      | NY_LIT_HINT_U16 \<Rightarrow> (val \<le> 65535, False)
      | NY_LIT_HINT_U32 \<Rightarrow> (val \<le> 4294967295, False)
      | NY_LIT_HINT_U64 \<Rightarrow> (True, False)
      | NY_LIT_HINT_U128 \<Rightarrow> (True, False)
      | _ \<Rightarrow> (False, True))"

datatype 'f lit_value = NY_LIT_INT i64 | NY_LIT_FLOAT 'f | NY_LIT_BOOL bool | NY_LIT_STR string

record 'f literal_t =
  lit_value :: "'f lit_value"
  lit_hint :: lit_type_hint
  lit_hint_explicit :: bool

abbreviation UINT63_MAX :: u64 where
  "UINT63_MAX \<equiv> 9223372036854775807"

text \<open>An integer literal: the literal and the errors reported.\<close>

definition integer_literal :: "lit_type_hint \<Rightarrow> bool \<Rightarrow> bool \<Rightarrow> string \<Rightarrow> 'f literal_t \<times> string list" where
  "integer_literal hint hint_explicit is_float num =
     (let errs1 = (if is_float then [''integer suffix used on float literal''] else []);
          parsed = parse_integer_literal_u64 num;
          allows = hint_allows_integer_overflow_bigint hint hint_explicit;
          overflow_bigint = (parsed = IntRange \<and> allows);
          errs2 = (if parsed = IntRange \<and> \<not> allows then [''integer literal out of range for suffix'']
                   else if parsed = IntMalformed then [''malformed integer literal''] else []);
          uval = (case parsed of IntValue v \<Rightarrow> v | _ \<Rightarrow> 0);
          forced_u64 = (\<not> hint_explicit \<and> \<not> overflow_bigint \<and> uval > UINT63_MAX);
          hint1 = (if forced_u64 then NY_LIT_HINT_U64 else hint);
          i = (if overflow_bigint \<or> uval > UINT63_MAX then UINT63_MAX else uval);
          hint2 = (if \<not> hint_explicit \<and> \<not> forced_u64 then NY_LIT_HINT_NONE else hint1);
          errs3 = (if hint_explicit \<and> \<not> overflow_bigint \<and> snd (check_int_range uval hint2)
                   then [''integer literal out of range for suffix''] else [])
      in (\<lparr>lit_value = NY_LIT_INT i, lit_hint = hint2, lit_hint_explicit = hint_explicit\<rparr>, errs1 @ errs2 @ errs3))"

definition float_literal ::
  "(string \<Rightarrow> 'f \<times> bool) \<Rightarrow> 'f \<Rightarrow> lit_type_hint \<Rightarrow> bool \<Rightarrow> bool \<Rightarrow> string \<Rightarrow> 'f literal_t \<times> string list" where
  "float_literal strtod zero hint hint_explicit is_prefixed_int num =
     (let (val, errs) =
            (if is_prefixed_int then (zero, [''prefixed float literals are not supported yet''])
             else (case strtod num of (v, erange) \<Rightarrow> (v, if erange then [''float literal out of range''] else [])))
      in (\<lparr>lit_value = NY_LIT_FLOAT val, lit_hint = (if \<not> hint_explicit then NY_LIT_HINT_F64 else hint),
           lit_hint_explicit = hint_explicit\<rparr>, errs))"

text \<open>\<open>parse_primary\<close> on a number token with the text \<open>s\<close>.\<close>

definition number_literal :: "(string \<Rightarrow> 'f \<times> bool) \<Rightarrow> 'f \<Rightarrow> string \<Rightarrow> 'f literal_t \<times> string list" where
  "number_literal strtod zero s =
     (let sr = parse_numeric_suffix s;
          errs = (if sr_ok sr then [] else [''unknown numeric literal suffix'']);
          num = numeric_literal_value_buf (take (sr_num_len sr) s);
          is_prefixed_int = (length num > 2 \<and> num ! 0 = CHR ''0'' \<and> num ! 1 \<in> set ''xXbBoO'');
          is_float = (\<not> is_prefixed_int \<and> (CHR ''.'' \<in> set num \<or> CHR ''e'' \<in> set num \<or> CHR ''E'' \<in> set num));
          (lit, errs') =
            (if hint_is_float (sr_hint sr) \<or> \<not> sr_explicit sr \<and> is_float
             then float_literal strtod zero (sr_hint sr) (sr_explicit sr) is_prefixed_int num
             else integer_literal (sr_hint sr) (sr_explicit sr) is_float num)
      in (lit, errs @ errs'))"

section \<open>Strings\<close>

text \<open>\<open>isspace\<close> of the C locale, and \<open>strtol(s, NULL, 16)\<close> on the two bytes behind \<open>\\x\<close>.\<close>

definition c_isspace :: "char \<Rightarrow> bool" where
  "c_isspace c \<longleftrightarrow> c = CHR '' '' \<or> char_le (CHR 0x09) c \<and> char_le c (CHR 0x0D)"

definition strtol16 :: "string \<Rightarrow> int" where
  "strtol16 s =
     (let s1 = dropWhile c_isspace s;
          neg = (s1 \<noteq> [] \<and> hd s1 = CHR ''-'');
          s2 = (if s1 \<noteq> [] \<and> (hd s1 = CHR ''-'' \<or> hd s1 = CHR ''+'') then tl s1 else s1);
          s3 = (if length s2 > 2 \<and> s2 ! 0 = CHR ''0'' \<and> (s2 ! 1 = CHR ''x'' \<or> s2 ! 1 = CHR ''X'') \<and> ny_is_xdigit (s2 ! 2)
                then drop 2 s2 else s2);
          v = foldl (\<lambda>a c. a * 16 + int (the (numeric_digit_value c))) 0 (takeWhile ny_is_xdigit s3)
      in if neg then - v else v)"

definition char_of_int :: "int \<Rightarrow> char" where
  "char_of_int v = char_of (nat (v mod 256))"

definition octal_value :: "string \<Rightarrow> int" where
  "octal_value ds = foldl (\<lambda>a c. a * 8 + (of_char c - of_char (CHR ''0''))) 0 ds"

text \<open>The escapes of one byte; every other byte stands for itself.\<close>

definition simple_escape :: "char \<Rightarrow> char" where
  "simple_escape c =
     (if c = CHR ''n'' then newline else if c = CHR ''t'' then tab_char else if c = CHR ''r'' then cr_char
      else if c = CHR ''v'' then CHR 0x0B else if c = CHR ''f'' then CHR 0x0C else if c = CHR ''a'' then CHR 0x07
      else if c = CHR ''b'' then CHR 0x08 else if c = CHR ''e'' then CHR 0x1B else c)"

text \<open>The loop of \<open>parser_unescape_string\<close>, on the bytes from \<open>cur\<close> to \<open>end\<close>.\<close>

function parser_unescape_string :: "string \<Rightarrow> string" where
  "parser_unescape_string [] = []"
| "parser_unescape_string [c] = [c]"
| "parser_unescape_string (c # d # r) =
     (if c \<noteq> backslash then c # parser_unescape_string (d # r)
      else if d = CHR ''x'' then
        (if length r \<ge> 2 then char_of_int (strtol16 (take 2 r)) # parser_unescape_string (drop 2 r)
         else parser_unescape_string r)
      else if ny_is_octdigit d then
        (let ds = takeWhile ny_is_octdigit (take 3 (d # r))
         in char_of_int (octal_value ds) # parser_unescape_string (drop (length ds) (d # r)))
      else simple_escape d # parser_unescape_string r)"
  by pat_completeness auto
termination
  by (relation "measure length") (auto simp: Let_def)

text \<open>\<open>parser_decode_string\<close> on a string token with the text \<open>w\<close>.\<close>

definition parser_decode_string :: "string \<Rightarrow> string" where
  "parser_decode_string w =
     (let triple = (length w \<ge> 6 \<and> w ! 0 = w ! 1 \<and> w ! 1 = w ! 2);
          n = (if triple then 3 else 1)
      in if length w < n + n then [] else parser_unescape_string (take (length w - n - n) (drop n w)))"

section \<open>The parts of an f-string\<close>

text \<open>
  \<open>parse_fstring\<close> cuts the body of an f-string into texts and the sources of its expressions, which
  the parser then reads; \<open>{expr=}\<close> adds its own source as a text.
\<close>

fun decode_fstring_expr :: "char \<Rightarrow> string \<Rightarrow> string" where
  "decode_fstring_expr quote (c # d # r) =
     (if c = backslash \<and> (d = quote \<or> d = CHR ''{'' \<or> d = CHR ''}'') then d # decode_fstring_expr quote r
      else c # decode_fstring_expr quote (d # r))"
| "decode_fstring_expr quote s = s"

text \<open>Whether the last byte stands outside of brackets and quotes.\<close>

fun bal_end :: "nat \<Rightarrow> nat \<Rightarrow> nat \<Rightarrow> char option \<Rightarrow> string \<Rightarrow> bool" where
  "bal_end paren bracket brace quote [] = False"
| "bal_end paren bracket brace (Some q) (c # cs) =
     (if c = backslash then (case cs of [] \<Rightarrow> False | _ # cs' \<Rightarrow> bal_end paren bracket brace (Some q) cs')
      else bal_end paren bracket brace (if c = q then None else Some q) cs)"
| "bal_end paren bracket brace None (c # cs) =
     (if c = dquote \<or> c = squote then bal_end paren bracket brace (Some c) cs
      else if c = CHR ''('' then bal_end (paren + 1) bracket brace None cs
      else if c = CHR '')'' \<and> paren > 0 then bal_end (paren - 1) bracket brace None cs
      else if c = CHR ''['' then bal_end paren (bracket + 1) brace None cs
      else if c = CHR '']'' \<and> bracket > 0 then bal_end paren (bracket - 1) brace None cs
      else if c = CHR ''{'' then bal_end paren bracket (brace + 1) None cs
      else if c = CHR ''}'' \<and> brace > 0 then bal_end paren bracket (brace - 1) None cs
      else if cs = [] then paren = 0 \<and> bracket = 0 \<and> brace = 0
      else bal_end paren bracket brace None cs)"

definition fstring_debug_equal_pos :: "string \<Rightarrow> nat option" where
  "fstring_debug_equal_pos s =
     (let fin = length s - length (takeWhile c_isspace (rev s)); eq = fin - 1
      in if fin = 0 \<or> s ! (fin - 1) \<noteq> CHR ''='' \<or> eq = 0 \<or> s ! (eq - 1) \<in> set ''=!<>'' then None
         else if bal_end 0 0 0 None (take (eq + 1) s) then Some eq else None)"

datatype fstring_part = NY_FSP_STR string | NY_FSP_EXPR string

text \<open>The source up to the brace that closes the expression, and what follows it.\<close>

fun brace_scan :: "nat \<Rightarrow> string \<Rightarrow> (string \<times> string) option" where
  "brace_scan depth [] = None"
| "brace_scan depth (c # cs) =
     (if c = CHR ''}'' \<and> depth = 1 then Some ([], cs)
      else map_option (map_prod ((#) c) id)
        (brace_scan (if c = CHR ''{'' then depth + 1 else if c = CHR ''}'' then depth - 1 else depth) cs))"

fun text_chunk :: "string \<Rightarrow> string \<times> string" where
  "text_chunk [] = ([], [])"
| "text_chunk [c] = (if c = CHR ''{'' then ([], [c]) else ([c], []))"
| "text_chunk (c # d # r) =
     (if c = CHR ''{'' then ([], c # d # r)
      else if c = backslash then map_prod (\<lambda>w. c # d # w) id (text_chunk r)
      else map_prod ((#) c) id (text_chunk (d # r)))"

lemma brace_scan_split: "brace_scan depth s = Some (e, r) \<Longrightarrow> s = e @ CHR ''}'' # r"
  by (induction depth s arbitrary: e rule: brace_scan.induct) (auto split: if_splits)

lemma text_chunk_split: "text_chunk s = (w, r) \<Longrightarrow> s = w @ r"
  by (induction s arbitrary: w r rule: text_chunk.induct) (auto split: if_splits prod.splits simp: map_prod_def)

lemma text_chunk_moves: "s \<noteq> [] \<Longrightarrow> hd s \<noteq> CHR ''{'' \<Longrightarrow> length (snd (text_chunk s)) < length s"
proof -
  assume a: "s \<noteq> []" "hd s \<noteq> CHR ''{''"
  have "fst (text_chunk s) \<noteq> []"
    using a by (cases s rule: text_chunk.cases) (auto simp: map_prod_def split: prod.splits)
  moreover have "s = fst (text_chunk s) @ snd (text_chunk s)"
    by (rule text_chunk_split) simp
  ultimately show ?thesis
    by (metis length_append length_greater_0_conv less_add_same_cancel2)
qed

text \<open>The loop over the body: the parts, and whether an expression is not closed.\<close>

function fstring_parts :: "char \<Rightarrow> string \<Rightarrow> fstring_part list \<times> bool" where
  "fstring_parts quote s =
     (if s = [] then ([], False)
      else if hd s = CHR ''{'' then
        (case brace_scan 1 (tl s) of
           None \<Rightarrow> ([], True)
         | Some (e, r) \<Rightarrow>
             let parts =
               (case fstring_debug_equal_pos e of
                  None \<Rightarrow> [NY_FSP_EXPR (decode_fstring_expr quote e)]
                | Some eq \<Rightarrow> [NY_FSP_STR (decode_fstring_expr quote e), NY_FSP_EXPR (decode_fstring_expr quote (take eq e))])
             in map_prod ((@) parts) id (fstring_parts quote r))
      else
        (case text_chunk s of (w, r) \<Rightarrow>
           map_prod ((#) (NY_FSP_STR (parser_unescape_string w))) id (fstring_parts quote r)))"
  by pat_completeness auto
termination
proof (relation "measure (\<lambda>(quote, s). length s)", goal_cases)
  case (2 quote s x e r)
  then show ?case
    using brace_scan_split [of 1 "tl s" e r] by (cases s) auto
next
  case (3 quote s w r)
  then show ?case
    using text_chunk_moves [of s] by (metis case_prod_conv in_measure snd_conv)
qed simp

declare fstring_parts.simps [simp del]

text \<open>\<open>parse_fstring\<close> on a token with the text \<open>f\<close> and the quoted body.\<close>

definition parse_fstring :: "string \<Rightarrow> fstring_part list \<times> bool" where
  "parse_fstring w =
     (let s = tl w; quote = hd s;
          triple = (length s \<ge> 6 \<and> s ! 1 = quote \<and> s ! 2 = quote);
          n = (if triple then 3 else 1)
      in fstring_parts quote (take (length s - n - n) (drop n s)))"

end
