(* ===== verification/Parser_Literals_Correct.thy ===== *)
theory Parser_Literals_Correct
  imports Parser_Literals Lexer_Correct
begin

text \<open>
  Integer literals have the value of their digits and the overflow checks are exact; the escapes of a
  string can be undone, never lengthen it, and a quoted string survives the lexer and the parser.
\<close>

section \<open>The value of digits\<close>

definition digits_value :: "nat \<Rightarrow> nat list \<Rightarrow> nat" where
  "digits_value base ds = foldl (\<lambda>a d. a * base + d) 0 ds"

definition digit_ok :: "nat \<Rightarrow> char \<Rightarrow> bool" where
  "digit_ok base c \<longleftrightarrow> (case numeric_digit_value c of None \<Rightarrow> False | Some d \<Rightarrow> d < base)"

definition digit :: "char \<Rightarrow> nat" where
  "digit c = the (numeric_digit_value c)"

lemma digits_grow: "0 < base \<Longrightarrow> a \<le> foldl (\<lambda>a d. a * base + d) a ds" for base :: nat
proof (induction ds arbitrary: a)
  case (Cons d ds)
  have "a \<le> a * base + d"
    using Cons.prems by (cases base) auto
  then show ?case
    using Cons.IH [OF Cons.prems, of "a * base + d"] by simp
qed simp

lemma unat_lt: "unat (w :: u64) < 2 ^ 64"
  using unsigned_less [of w, where ?'a = nat] by simp

lemma unat_small: "n < 2 ^ 64 \<Longrightarrow> unat (of_nat n :: u64) = n"
  by (simp add: unat_of_nat take_bit_nat_eq_self)

lemma overflow_check:
  fixes acc :: u64
  assumes "d < base" "base \<le> 16"
  shows "acc > (- 1 - of_nat d) div of_nat base \<longleftrightarrow> unat acc * base + d \<ge> 2 ^ 64"
proof -
  have d: "unat (of_nat d :: u64) = d" "unat (of_nat base :: u64) = base"
    using assms by (simp_all add: unat_small)
  have "unat (- 1 - of_nat d :: u64) = 2 ^ 64 - 1 - d"
    using assms unat_sub [of "of_nat d" "- 1 :: u64"] d(1) by (simp add: unsigned_minus_1_eq_mask mask_eq_exp_minus_1)
  then have "unat ((- 1 - of_nat d) div of_nat base :: u64) = (2 ^ 64 - 1 - d) div base"
    using d(2) by (simp add: unat_div)
  then have "acc \<le> (- 1 - of_nat d) div of_nat base \<longleftrightarrow> unat acc * base \<le> 2 ^ 64 - 1 - d"
    using assms less_eq_div_iff_mult_less_eq [of base "unat acc" "2 ^ 64 - 1 - d"] by (simp add: word_le_nat_alt)
  then show ?thesis
    using assms by (auto simp: not_le [symmetric])
qed

lemma digits_loop_value:
  assumes "2 \<le> base" "base \<le> 16"
  shows "digits_loop base acc cs =
    (let good = takeWhile (digit_ok base) cs; v = foldl (\<lambda>a d. a * base + d) (unat acc) (map digit good)
     in if v \<ge> 2 ^ 64 then IntRange else if good = cs then IntValue (of_nat v) else IntMalformed)"
proof (induction cs arbitrary: acc)
  case Nil
  then show ?case
    using unat_lt by (simp add: Let_def not_le)
next
  case (Cons c cs)
  show ?case
  proof (cases "digit_ok base c")
    case False
    then show ?thesis
      using unat_lt [of acc] by (auto simp: digit_ok_def Let_def not_le split: option.splits)
  next
    case True
    then obtain d where d: "numeric_digit_value c = Some d" "d < base" "digit c = d"
      by (auto simp: digit_ok_def digit_def split: option.splits)
    let ?v = "unat acc * base + d"
    show ?thesis
    proof (cases "?v \<ge> 2 ^ 64")
      case over: True
      then show ?thesis
        using True d overflow_check [OF d(2) assms(2), of acc] assms(1)
          digits_grow [of base ?v "map digit (takeWhile (digit_ok base) cs)"] by (simp add: Let_def)
    next
      case False
      then have "unat (acc * of_nat base + of_nat d) = ?v"
        using unat_small [of ?v] by simp
      then show ?thesis
        using True False d overflow_check [OF d(2) assms(2), of acc] Cons.IH [of "acc * of_nat base + of_nat d"]
        by (simp add: Let_def)
    qed
  qed
qed

lemma parse_integer_literal_cases:
  assumes "literal_radix s = (base, ds)" "ds \<noteq> []"
  shows "parse_integer_literal_u64 s =
    (let good = takeWhile (digit_ok base) ds; v = digits_value base (map digit good)
     in if v \<ge> 2 ^ 64 then IntRange else if good = ds then IntValue (of_nat v) else IntMalformed)"
proof -
  have "2 \<le> base" "base \<le> 16"
    using assms(1) by (auto simp: literal_radix_def split: if_splits)
  then show ?thesis
    using assms digits_loop_value [of base 0 ds] by (simp add: parse_integer_literal_u64_def digits_value_def Let_def)
qed

text \<open>
  C24: integer literals are exact. With the base of the prefix and the digits behind it, the parser
  returns the value of the digits when it fits into 64 bits, reports the range exactly when the
  leading digits already have a value of \<open>2 ^ 64\<close> or more, and rejects every other text.
\<close>

theorem parse_integer_literal_exact:
  "parse_integer_literal_u64 s =
     (case literal_radix s of (base, ds) \<Rightarrow>
        let good = takeWhile (digit_ok base) ds; v = digits_value base (map digit good)
        in if ds = [] then IntMalformed else if v \<ge> 2 ^ 64 then IntRange
           else if good = ds then IntValue (of_nat v) else IntMalformed)"
proof (cases "literal_radix s")
  case (Pair base ds)
  then show ?thesis
    using parse_integer_literal_cases [OF Pair] by (cases "ds = []") (auto simp: parse_integer_literal_u64_def)
qed

section \<open>Decimal literals\<close>

lemma isdigit_cases:
  assumes "c_isdigit c"
  shows "c \<in> set ''0123456789''"
proof -
  have eq: "of_char c = (of_char d :: nat) \<longleftrightarrow> c = d" for d
    by simp
  have "48 \<le> (of_char c :: nat)" "(of_char c :: nat) \<le> 57"
    using assms by (simp_all add: c_isdigit_def char_le_def)
  then have "(of_char c :: nat) = 48 \<or> (of_char c :: nat) = 49 \<or> (of_char c :: nat) = 50 \<or> (of_char c :: nat) = 51 \<or>
      (of_char c :: nat) = 52 \<or> (of_char c :: nat) = 53 \<or> (of_char c :: nat) = 54 \<or> (of_char c :: nat) = 55 \<or>
      (of_char c :: nat) = 56 \<or> (of_char c :: nat) = 57"
    by presburger
  then show ?thesis
    using eq [of "CHR ''0''"] eq [of "CHR ''1''"] eq [of "CHR ''2''"] eq [of "CHR ''3''"] eq [of "CHR ''4''"]
      eq [of "CHR ''5''"] eq [of "CHR ''6''"] eq [of "CHR ''7''"] eq [of "CHR ''8''"] eq [of "CHR ''9''"] by auto
qed

lemma isdigit_facts:
  assumes "c_isdigit c"
  shows "c \<noteq> CHR ''_''" "c \<notin> set ''iIuUfFxXbBoO.eE''" "digit_ok 10 c"
proof -
  have "c \<in> set ''0123456789''"
    using assms by (rule isdigit_cases)
  then show "c \<noteq> CHR ''_''" "c \<notin> set ''iIuUfFxXbBoO.eE''" "digit_ok 10 c"
    by (auto simp: digit_ok_def numeric_digit_value_def char_le_def)
qed

abbreviation dec_value :: "string \<Rightarrow> nat" where
  "dec_value ds \<equiv> digits_value 10 (map digit ds)"

lemma decimal_literal:
  assumes "ds \<noteq> []" "\<forall>c\<in>set ds. c_isdigit c"
  shows "parse_integer_literal_u64 ds = (if dec_value ds \<ge> 2 ^ 64 then IntRange else IntValue (of_nat (dec_value ds)))"
proof -
  have "length ds > 2 \<Longrightarrow> ds ! 1 \<notin> set ''xXbBoO''"
    using assms(2) isdigit_facts(2) [of "ds ! 1"] by auto
  then have "literal_radix ds = (10, ds)"
    by (auto simp: literal_radix_def)
  moreover have t: "takeWhile (digit_ok 10) ds = ds"
    unfolding takeWhile_eq_all_conv using assms(2) isdigit_facts(3) by blast
  ultimately show ?thesis
    using parse_integer_literal_cases [of ds 10 ds] assms(1) unfolding t Let_def by simp
qed


lemma suffix_plain:
  assumes "\<forall>c\<in>set s. c \<notin> set ''iIuUfF''"
  shows "parse_numeric_suffix s = \<lparr>sr_ok = True, sr_num_len = length s, sr_hint = NY_LIT_HINT_NONE, sr_explicit = False\<rparr>"
proof (cases "s = []")
  case True
  then show ?thesis
    by (simp add: parse_numeric_suffix_def)
next
  case False
  then have "s ! (length s - length (takeWhile c_isdigit (rev s)) - 1) \<in> set s"
    by (intro nth_mem) (simp add: less_imp_diff_less)
  then have "s ! (length s - length (takeWhile c_isdigit (rev s)) - 1) \<notin> set ''iIuUfF''"
    using assms by blast
  then show ?thesis
    unfolding parse_numeric_suffix_def Let_def by simp
qed

lemma number_literal_integer:
  assumes "parse_numeric_suffix s = \<lparr>sr_ok = True, sr_num_len = n, sr_hint = hint, sr_explicit = ex\<rparr>"
    and num: "numeric_literal_value_buf (take n s) = num" and ds: "\<forall>c\<in>set num. c_isdigit c" and "\<not> hint_is_float hint"
  shows "number_literal strtod zero s = integer_literal hint ex False num"
proof -
  have "num ! 1 \<notin> set ''xXbBoO''" if "length num > 2"
    using ds isdigit_facts(2) [of "num ! 1"] that by auto
  then have p: "(length num > 2 \<and> num ! 0 = CHR ''0'' \<and> num ! 1 \<in> set ''xXbBoO'') = False"
    by blast
  have f: "(CHR ''.'' \<in> set num \<or> CHR ''e'' \<in> set num \<or> CHR ''E'' \<in> set num) = False"
    using ds isdigit_facts(2) [of "CHR ''.''"] isdigit_facts(2) [of "CHR ''e''"] isdigit_facts(2) [of "CHR ''E''"] by auto
  show ?thesis
    unfolding number_literal_def assms(1) Let_def suffix_result.simps num p f using assms(4) by (simp split: prod.splits)
qed

lemma int_max_iff: "v < 2 ^ 64 \<Longrightarrow> (of_nat v :: u64) > UINT63_MAX \<longleftrightarrow> 2 ^ 63 \<le> v"
  using unat_small [of v] by (simp add: word_less_nat_alt) linarith

text \<open>
  A decimal literal with separators. Below \<open>2 ^ 63\<close> it is the value of its digits; from there on the
  literal is \<open>INT64_MAX\<close>, marked as unsigned below \<open>2 ^ 64\<close>, and no error is reported.
\<close>

theorem decimal_literal_value:
  assumes "\<forall>c\<in>set s. c_isdigit c \<or> c = CHR ''_''" "\<exists>c\<in>set s. c_isdigit c"
  shows "let v = dec_value (filter c_isdigit s) in
    number_literal strtod zero s =
      (\<lparr>lit_value = NY_LIT_INT (if v < 2 ^ 63 then of_nat v else UINT63_MAX),
        lit_hint = (if 2 ^ 63 \<le> v \<and> v < 2 ^ 64 then NY_LIT_HINT_U64 else NY_LIT_HINT_NONE),
        lit_hint_explicit = False\<rparr>, [])"
proof -
  let ?num = "filter c_isdigit s" and ?v = "dec_value (filter c_isdigit s)"
  have plain: "parse_numeric_suffix s = \<lparr>sr_ok = True, sr_num_len = length s, sr_hint = NY_LIT_HINT_NONE, sr_explicit = False\<rparr>"
    using assms(1) isdigit_facts(2) by (intro suffix_plain) auto
  have num: "numeric_literal_value_buf (take (length s) s) = ?num"
    unfolding numeric_literal_value_buf_def take_all [OF order_refl] using assms(1) isdigit_facts(1) by (intro filter_cong) auto
  have ds: "?num \<noteq> []" "\<forall>c\<in>set ?num. c_isdigit c"
    using assms(2) by (auto simp: filter_empty_conv)
  have lit: "number_literal strtod zero s = integer_literal NY_LIT_HINT_NONE False False ?num"
    by (rule number_literal_integer [OF plain num ds(2)]) (simp add: hint_is_float_def)
  show ?thesis
  proof (cases "?v < 2 ^ 64")
    case True
    then show ?thesis
      using decimal_literal [OF ds] int_max_iff [OF True] unfolding Let_def lit
      by (simp add: integer_literal_def hint_allows_integer_overflow_bigint_def Let_def)
  next
    case False
    then show ?thesis
      using decimal_literal [OF ds] unfolding Let_def lit
      by (simp add: integer_literal_def hint_allows_integer_overflow_bigint_def Let_def)
  qed
qed

theorem decimal_literal_value_witness:
  "number_literal (\<lambda>_. ((), False)) () ''1_000'' =
     (\<lparr>lit_value = NY_LIT_INT 1000, lit_hint = NY_LIT_HINT_NONE, lit_hint_explicit = False\<rparr>, [])"
proof -
  have "\<forall>c\<in>set ''1_000''. c_isdigit c \<or> c = CHR ''_''" "\<exists>c\<in>set ''1_000''. c_isdigit c"
      "dec_value (filter c_isdigit ''1_000'') = 1000"
    by (simp_all add: c_isdigit_def char_le_def digits_value_def digit_def numeric_digit_value_def)
  then show ?thesis
    using decimal_literal_value [of "''1_000''" "\<lambda>_. ((), False)" "()"] by (simp add: Let_def)
qed

definition int_suffixes :: "(string \<times> lit_type_hint) list" where
  "int_suffixes =
     [(''i8'', NY_LIT_HINT_I8), (''i16'', NY_LIT_HINT_I16), (''i32'', NY_LIT_HINT_I32), (''i64'', NY_LIT_HINT_I64),
      (''u8'', NY_LIT_HINT_U8), (''u16'', NY_LIT_HINT_U16), (''u32'', NY_LIT_HINT_U32), (''u64'', NY_LIT_HINT_U64)]"

lemma int_suffix_shape:
  assumes "(sfx, hint) \<in> set int_suffixes"
  obtains l digs where "sfx = l # digs" "l = CHR ''i'' \<or> l = CHR ''u''" "digs \<noteq> []" "\<forall>c\<in>set digs. c_isdigit c"
    "suffix_hint sfx = Some hint"
proof -
  have "list_all (\<lambda>(s, h). suffix_hint s = Some h \<and> (hd s = CHR ''i'' \<or> hd s = CHR ''u'') \<and> tl s \<noteq> [] \<and>
      list_all c_isdigit (tl s) \<and> s \<noteq> []) int_suffixes"
    by code_simp
  then have "suffix_hint sfx = Some hint \<and> (hd sfx = CHR ''i'' \<or> hd sfx = CHR ''u'') \<and> tl sfx \<noteq> [] \<and> (\<forall>c\<in>set (tl sfx). c_isdigit c) \<and> sfx \<noteq> []"
    using assms by (fastforce simp: list_all_iff)
  then show ?thesis
    using that [of "hd sfx" "tl sfx"] by auto
qed

lemma suffix_found:
  assumes ds: "ds \<noteq> []" "\<forall>c\<in>set ds. c_isdigit c" and sfx: "(sfx, hint) \<in> set int_suffixes"
  shows "parse_numeric_suffix (ds @ sfx) = \<lparr>sr_ok = True, sr_num_len = length ds, sr_hint = hint, sr_explicit = True\<rparr>"
proof -
  obtain l digs where l: "sfx = l # digs" "l = CHR ''i'' \<or> l = CHR ''u''" "digs \<noteq> []" "\<forall>c\<in>set digs. c_isdigit c"
      "suffix_hint sfx = Some hint"
    by (rule int_suffix_shape [OF sfx])
  have nl: "\<not> c_isdigit l"
    using l(2) by (auto simp: c_isdigit_def char_le_def)
  have t: "takeWhile c_isdigit (rev (ds @ sfx)) = rev digs"
    using l(1,4) nl takeWhile_append2 [of "rev digs" c_isdigit "l # rev ds"] by simp
  have "(ds @ sfx) ! 1 = l \<or> c_isdigit ((ds @ sfx) ! 1)"
    using ds l(1) by (cases ds; cases "tl ds") (auto simp: nth_append)
  then have hex: "(ds @ sfx) ! 1 \<noteq> CHR ''x''" "(ds @ sfx) ! 1 \<noteq> CHR ''X''"
    using l(2) isdigit_facts(2) [of "(ds @ sfx) ! 1"] by auto
  have "ds ! (length ds - 1) \<noteq> CHR ''_''"
    using ds isdigit_facts(1) [of "ds ! (length ds - 1)"] by simp
  then show ?thesis
    using ds(1) l hex unfolding parse_numeric_suffix_def Let_def t
    by (auto simp: nth_append)
qed

text \<open>
  C25: the range of a suffix is not enforced. A decimal literal below \<open>2 ^ 63\<close> with any of the suffixes
  \<open>i8\<close> to \<open>u64\<close> is accepted with its value and the type of the suffix, and no error is reported, whether
  or not the value fits the type; \<open>300i8\<close> is 300.
\<close>

theorem suffix_range_unchecked:
  assumes "ds \<noteq> []" "\<forall>c\<in>set ds. c_isdigit c" "(sfx, hint) \<in> set int_suffixes" "dec_value ds < 2 ^ 63"
  shows "number_literal strtod zero (ds @ sfx) =
    (\<lparr>lit_value = NY_LIT_INT (of_nat (dec_value ds)), lit_hint = hint, lit_hint_explicit = True\<rparr>, [])"
proof -
  have num: "numeric_literal_value_buf (take (length ds) (ds @ sfx)) = ds"
    using assms(2) isdigit_facts(1) by (auto simp: numeric_literal_value_buf_def filter_id_conv)
  have "\<not> hint_is_float hint" "\<not> snd (check_int_range v hint)" for v
    using assms(3) by (auto simp: int_suffixes_def hint_is_float_def check_int_range_def)
  then show ?thesis
    using number_literal_integer [OF suffix_found [OF assms(1-3)] num assms(2)] decimal_literal [OF assms(1,2)]
      int_max_iff [of "dec_value ds"] assms(4)
    by (simp add: integer_literal_def Let_def)
qed

theorem suffix_range_unchecked_witness:
  "number_literal (\<lambda>_. ((), False)) () ''300i8'' =
     (\<lparr>lit_value = NY_LIT_INT 300, lit_hint = NY_LIT_HINT_I8, lit_hint_explicit = True\<rparr>, [])"
proof -
  have "\<forall>c\<in>set ''300''. c_isdigit c" "dec_value ''300'' = 300" "(''i8'', NY_LIT_HINT_I8) \<in> set int_suffixes"
    by (simp_all add: c_isdigit_def char_le_def digits_value_def digit_def numeric_digit_value_def int_suffixes_def)
  then show ?thesis
    using suffix_range_unchecked [of "''300''" "''i8''" NY_LIT_HINT_I8 "\<lambda>_. ((), False)" "()"] by simp
qed

section \<open>Escapes\<close>

text \<open>The canonical escaping of a string: quotes and backslashes, and every byte that is not printable.\<close>

definition hex_digit :: "nat \<Rightarrow> char" where
  "hex_digit n = ''0123456789abcdef'' ! n"

definition escape_char :: "char \<Rightarrow> string" where
  "escape_char c =
     (if c = backslash \<or> c = dquote \<or> c = squote then [backslash, c]
      else if of_char c < (32 :: nat) \<or> of_char c \<ge> (127 :: nat)
      then [backslash, CHR ''x'', hex_digit (of_char c div 16), hex_digit (of_char c mod 16)]
      else [c])"

definition escape :: "string \<Rightarrow> string" where
  "escape s = concat (map escape_char s)"

lemma escape_char_cases:
  obtains "c = backslash \<or> c = dquote \<or> c = squote" "escape_char c = [backslash, c]"
    | "escape_char c = [backslash, CHR ''x'', hex_digit (of_char c div 16), hex_digit (of_char c mod 16)]"
    | "escape_char c = [c]" "c \<noteq> backslash" "c \<noteq> dquote" "c \<noteq> NUL"
proof (cases "c = backslash \<or> c = dquote \<or> c = squote")
  case True
  then show ?thesis
    using that(1) by (simp add: escape_char_def)
next
  case False
  then show ?thesis
    using that(2,3) by (cases "c = NUL"; cases "of_char c < (32 :: nat) \<or> of_char c \<ge> (127 :: nat)") (auto simp: escape_char_def)
qed

lemma escape_simps [simp]: "escape [] = []" "escape (c # s) = escape_char c @ escape s"
  by (simp_all add: escape_def)

lemma hex_digit_facts:
  assumes "n < 16"
  shows "numeric_digit_value (hex_digit n) = Some n" "ny_is_xdigit (hex_digit n)" "\<not> c_isspace (hex_digit n)"
    "hex_digit n \<notin> {CHR ''-'', CHR ''+'', dquote, backslash, NUL}"
proof -
  have "list_all (\<lambda>n. numeric_digit_value (hex_digit n) = Some n \<and> ny_is_xdigit (hex_digit n) \<and> \<not> c_isspace (hex_digit n) \<and>
      hex_digit n \<notin> {CHR ''-'', CHR ''+'', dquote, backslash, NUL}) [0..<16]"
    by code_simp
  then have "numeric_digit_value (hex_digit n) = Some n \<and> ny_is_xdigit (hex_digit n) \<and> \<not> c_isspace (hex_digit n) \<and>
      hex_digit n \<notin> {CHR ''-'', CHR ''+'', dquote, backslash, NUL}"
    using assms unfolding list_all_iff by simp
  then show "numeric_digit_value (hex_digit n) = Some n" "ny_is_xdigit (hex_digit n)" "\<not> c_isspace (hex_digit n)"
    "hex_digit n \<notin> {CHR ''-'', CHR ''+'', dquote, backslash, NUL}"
    by auto
qed

lemma of_char_less: "(of_char c :: nat) < 256"
  by (metis mod_less_divisor of_char_mod_256 zero_less_numeral)

lemma strtol16_pair:
  assumes "a < 16" "b < 16"
  shows "strtol16 [hex_digit a, hex_digit b] = int (a * 16 + b)"
  using hex_digit_facts [OF assms(1)] hex_digit_facts [OF assms(2)] by (simp add: strtol16_def Let_def)

lemma unescape_hex:
  "parser_unescape_string (backslash # CHR ''x'' # hex_digit (of_char c div 16) # hex_digit (of_char c mod 16) # r) =
     c # parser_unescape_string r"
proof -
  have "(of_char c :: nat) div 16 < 16" "(of_char c :: nat) mod 16 < 16"
    using of_char_less [of c] by (simp_all add: less_mult_imp_div_less)
  then have "strtol16 [hex_digit (of_char c div 16), hex_digit (of_char c mod 16)] = int (of_char c)"
    using strtol16_pair [of "of_char c div 16" "of_char c mod 16"] by (simp add: div_mult_mod_eq)
  then show ?thesis
    using of_char_less [of c] by (simp add: char_of_int_def nat_mod_distrib)
qed

lemma unescape_plain: "c \<noteq> backslash \<Longrightarrow> parser_unescape_string (c # r) = c # parser_unescape_string r"
  by (cases r) simp_all

lemma unescape_quote:
  assumes "c = backslash \<or> c = dquote \<or> c = squote"
  shows "parser_unescape_string (backslash # c # r) = c # parser_unescape_string r"
proof -
  have "\<not> ny_is_octdigit c" "c \<noteq> CHR ''x''" "simple_escape c = c"
    using assms by (auto simp: ny_is_octdigit_def char_le_def simple_escape_def)
  then show ?thesis
    by simp
qed

lemma unescape_escape_char: "parser_unescape_string (escape_char c @ r) = c # parser_unescape_string r"
proof (rule escape_char_cases [of c])
  assume "c = backslash \<or> c = dquote \<or> c = squote" "escape_char c = [backslash, c]"
  then show ?thesis
    using unescape_quote [of c r] by simp
next
  assume "escape_char c = [backslash, CHR ''x'', hex_digit (of_char c div 16), hex_digit (of_char c mod 16)]"
  then show ?thesis
    using unescape_hex [of c r] by simp
next
  assume "escape_char c = [c]" "c \<noteq> backslash"
  then show ?thesis
    using unescape_plain [of c r] by simp
qed

lemma unescape_escape: "parser_unescape_string (escape s) = s"
  by (induction s) (simp_all add: unescape_escape_char)

section \<open>A quoted string through the lexer\<close>

lemma escape_no_NUL: "NUL \<notin> set (escape s)"
proof -
  have "NUL \<notin> set (escape_char c)" for c
  proof -
    have "(of_char c :: nat) div 16 < 16" "(of_char c :: nat) mod 16 < 16"
      using of_char_less [of c] by (simp_all add: less_mult_imp_div_less)
    then show ?thesis
      using hex_digit_facts(4) [of "of_char c div 16"] hex_digit_facts(4) [of "of_char c mod 16"]
      by (auto simp: escape_char_def)
  qed
  then show ?thesis
    by (auto simp: escape_def)
qed

lemma escape_not_quote: "s \<noteq> [] \<Longrightarrow> \<exists>c r. escape s = c # r \<and> c \<noteq> dquote"
  by (cases s) (auto simp: escape_char_def)

lemma at_drop: "drop p s = c # r \<Longrightarrow> src_at s p = c" "drop p s = c # r \<Longrightarrow> drop (p + 1) s = r"
proof -
  assume a: "drop p s = c # r"
  then have "p < length s"
    by (metis drop_eq_Nil list.simps(3) not_le)
  then have "s ! p # drop (Suc p) s = c # r"
    using a Cons_nth_drop_Suc by metis
  then show "src_at s p = c" "drop (p + 1) s = r"
    using \<open>p < length s\<close> by (simp_all add: src_at_def)
qed

definition ahead :: "'s lexer_t \<Rightarrow> string" where
  "ahead lx = drop (lx_pos lx) (lx_src lx)"

lemma ahead_peek: "ahead lx = c # r \<Longrightarrow> peek lx = c"
  by (simp add: ahead_def peek_def at_drop(1))

lemma ahead_adv: "ahead lx = c # r \<Longrightarrow> c \<noteq> NUL \<Longrightarrow> ahead (adv lx) = r \<and> lx_pos (adv lx) = lx_pos lx + 1"
  using ahead_peek [of lx c r] at_drop(2) [of "lx_pos lx" "lx_src lx" c r]
  by (simp add: ahead_def pos_adv forward_src [OF forward_adv])

lemma body_plain:
  assumes "ahead lx = c # r" "c \<noteq> dquote" "c \<noteq> NUL" "c \<noteq> backslash"
  shows "quoted_body dquote lx = quoted_body dquote (adv lx)"
  using ahead_peek [OF assms(1)] assms(2-4) by (subst quoted_body.simps) simp

lemma body_escape:
  assumes "ahead lx = backslash # c # r" "c \<noteq> NUL"
  shows "quoted_body dquote lx = quoted_body dquote (adv (adv lx))"
proof -
  have "peek_next lx = c"
    using ahead_peek [OF assms(1)] at_drop(2) [of "lx_pos lx" "lx_src lx"] at_drop(1) [of "lx_pos lx + 1" "lx_src lx" c r] assms(1)
    by (simp add: peek_next_def ahead_def)
  then show ?thesis
    using ahead_peek [OF assms(1)] assms(2) by (subst quoted_body.simps) simp
qed

lemma body_escape_char:
  assumes "ahead lx = escape_char c @ r"
  shows "\<exists>lx'. quoted_body dquote lx = quoted_body dquote lx' \<and> forward lx lx' \<and> ahead lx' = r \<and>
    lx_pos lx' = lx_pos lx + length (escape_char c)"
proof -
  let ?h = "hex_digit (of_char c div 16)" and ?l = "hex_digit (of_char c mod 16)"
  have d: "(of_char c :: nat) div 16 < 16" "(of_char c :: nat) mod 16 < 16"
    using of_char_less [of c] by (simp_all add: less_mult_imp_div_less)
  note h = hex_digit_facts(4) [OF d(1)] and l = hex_digit_facts(4) [OF d(2)]
  show ?thesis
  proof (cases rule: escape_char_cases [of c])
    case 1
    then have a: "ahead lx = backslash # c # r" "c \<noteq> NUL"
      using assms by auto
    then show ?thesis
      using body_escape [OF a] ahead_adv [OF a(1)] ahead_adv [of "adv lx" c r] 1(2)
      by (intro exI [of _ "adv (adv lx)"]) (auto intro: forward_adv2)
  next
    case 2
    then have a: "ahead lx = backslash # CHR ''x'' # ?h # ?l # r"
      using assms by simp
    let ?lx2 = "adv (adv lx)"
    have s: "ahead ?lx2 = ?h # ?l # r" "lx_pos ?lx2 = lx_pos lx + 2"
      using ahead_adv [OF a] ahead_adv [of "adv lx" "CHR ''x''" "?h # ?l # r"] by auto
    have t: "ahead (adv ?lx2) = ?l # r" "lx_pos (adv ?lx2) = lx_pos lx + 3" "ahead (adv (adv ?lx2)) = r" "lx_pos (adv (adv ?lx2)) = lx_pos lx + 4"
      using ahead_adv [OF s(1)] h s(2) ahead_adv [of "adv ?lx2" ?l r] l by auto
    have "quoted_body dquote lx = quoted_body dquote (adv (adv ?lx2))"
      using body_escape [OF a] body_plain [OF s(1)] body_plain [OF t(1)] h l by simp
    then show ?thesis
      using t 2 by (intro exI [of _ "adv (adv ?lx2)"]) (auto intro: forward_adv2)
  next
    case 3
    then have a: "ahead lx = c # r"
      using assms by simp
    then show ?thesis
      using body_plain [OF a] ahead_adv [OF a] 3 by (intro exI [of _ "adv lx"]) auto
  qed
qed

lemma body_escaped:
  "ahead lx = escape s @ dquote # r \<Longrightarrow>
   ahead (quoted_body dquote lx) = dquote # r \<and> lx_pos (quoted_body dquote lx) = lx_pos lx + length (escape s)"
proof (induction s arbitrary: lx)
  case Nil
  then show ?case
    using ahead_peek [of lx dquote r] by (subst (1 2) quoted_body.simps) simp
next
  case (Cons c s)
  obtain lx' where "quoted_body dquote lx = quoted_body dquote lx'" "ahead lx' = escape s @ dquote # r"
      "lx_pos lx' = lx_pos lx + length (escape_char c)"
    using body_escape_char [of lx c "escape s @ dquote # r"] Cons.prems by auto
  then show ?case
    using Cons.IH [of lx'] by simp
qed

lemma dquote_class: "\<not> IS_SPACE dquote" "\<not> IS_ALPHA dquote" "\<not> IS_DIGIT dquote"
  by code_simp+

lemma quoted_escaped:
  assumes "ahead lx = escape s @ [dquote]"
  shows "fst (lex_quoted dquote lx) \<and> lx_pos (snd (lex_quoted dquote lx)) = lx_pos lx + length (escape s) + 1"
proof -
  have "\<not> (peek lx = dquote \<and> peek_next lx = dquote)"
  proof (cases "s = []")
    case True
    then have "src_at (lx_src lx) (lx_pos lx + 1) = NUL"
      using at_drop(2) [of "lx_pos lx" "lx_src lx" dquote "[]"] assms by (simp add: ahead_def src_at_def)
    then show ?thesis
      by (simp add: peek_next_def)
  next
    case False
    then show ?thesis
      using escape_not_quote [OF False] ahead_peek [of lx] assms by auto
  qed
  moreover have b: "ahead (quoted_body dquote lx) = [dquote]" "lx_pos (quoted_body dquote lx) = lx_pos lx + length (escape s)"
    using body_escaped [of lx s "[]"] assms by auto
  ultimately show ?thesis
    using ahead_peek [OF b(1)] ahead_adv [OF b(1)] by (auto simp: lex_quoted_def Let_def)
qed

lemma lex_string_literal:
  fixes lx :: "'s lexer_t"
  assumes "ahead lx = dquote # escape s @ [dquote]" "lx_split_pos lx = 0"
  shows "\<exists>lx'. lexer_next ops lx = (make_token lx' NY_T_STRING (lx_pos lx), lx') \<and>
    lx_pos lx' = lx_pos lx + length (escape s) + 2"
proof -
  let ?lx = "lx\<lparr>lx_skipped_newline := False\<rparr>"
  have p: "peek ?lx = dquote"
    using ahead_peek [OF assms(1)] by (simp add: peek_def)
  have "skip_step ops ?lx = (False, ?lx)"
    using p dquote_class(1) by (simp add: skip_step_def)
  then have w: "skip_whitespace ops ?lx = ?lx"
    by (subst skip_whitespace.simps) simp
  let ?lx1 = "step_one ?lx"
  have a: "ahead ?lx1 = escape s @ [dquote]"
    using at_drop(2) [of "lx_pos lx" "lx_src lx"] assms(1) by (simp add: ahead_def)
  have "lex_step ops lx = lex_char ops (lx_pos lx) dquote ?lx1"
    using p assms(2) by (simp add: lex_step_def w Let_def)
  also have "\<dots> = lex_string NY_T_STRING (lx_pos lx) dquote ?lx1"
    using dquote_class by (simp add: lex_char_def)
  finally show ?thesis
    using quoted_escaped [OF a]
    by (subst lexer_next.simps) (cases "lex_quoted dquote ?lx1", simp add: lex_string_def)
qed

text \<open>
  C23: string literals round trip. For every string, the lexer reads its escaped form between double
  quotes as one string token that spans the whole source, and the parser decodes the text of the
  token to the string.
\<close>

theorem string_literal_roundtrip:
  "let w = dquote # escape s @ [dquote]; t = nth_token ops (lexer_init ops (Some w) filename syms) 0 in
   tok_kind t = NY_T_STRING \<and> tok_text w t = w \<and> parser_decode_string (tok_text w t) = s"
proof -
  define w where "w = dquote # escape s @ [dquote]"
  define lx where "lx = lexer_init ops (Some w) filename syms"
  have "takeWhile (\<lambda>c. c \<noteq> NUL) w = w"
    using escape_no_NUL [of s] by (auto simp: w_def takeWhile_eq_all_conv)
  then have lx: "lx_src lx = w" "lx_pos lx = 0" "lx_split_pos lx = 0"
    by (simp_all add: lx_def lexer_init_def Let_def)
  then obtain lx' where n: "lexer_next ops lx = (make_token lx' NY_T_STRING 0, lx')" "lx_pos lx' = length (escape s) + 2"
    using lex_string_literal [of lx s ops] by (auto simp: ahead_def w_def)
  have t: "tok_text w (make_token lx' NY_T_STRING 0) = w"
    using n(2) by (simp add: tok_text_def make_token_def src_slice_def w_def)
  have "w ! 1 \<noteq> dquote" if "length w \<ge> 6"
    using escape_not_quote [of s] that by (cases "s = []") (auto simp: w_def)
  then have "\<not> (length w \<ge> 6 \<and> w ! 0 = w ! 1 \<and> w ! 1 = w ! 2)"
    by (auto simp: w_def)
  then have "parser_decode_string w = s"
    by (auto simp: parser_decode_string_def Let_def w_def unescape_escape)
  then show ?thesis
    using n(1) t unfolding Let_def w_def [symmetric] lx_def [symmetric] by (simp add: nth_token_def lex_iter_simps make_token_def)
qed

text \<open>
  Unescaping stays inside its buffer. The result is never longer than the text, for which the
  parser allocates one byte more.
\<close>

theorem unescape_fits: "length (parser_unescape_string s) \<le> length s"
proof (induction s rule: parser_unescape_string.induct)
  case (3 c d r)
  let ?ds = "takeWhile ny_is_octdigit (take 3 (d # r))"
  have "0 < length ?ds" if "ny_is_octdigit d"
    using that by simp
  moreover have "length ?ds \<le> length (d # r)"
    using length_takeWhile_le [of ny_is_octdigit "take 3 (d # r)"] by simp
  ultimately show ?case
    using 3 by (auto simp: Let_def)
qed simp_all

end
