(* ===== verification/Emit_Limits.thy ===== *)
theory Emit_Limits
  imports Intern
begin

text \<open>
  The two tables that keep the compiler from repeating itself: \<open>ny_log_should_emit\<close> of
  \<open>src/base/util.c\<close>, which lets a log message pass ten times, and \<open>parser_diag_should_emit\<close> of
  \<open>src/parse/core.c\<close>, which lets a diagnostic pass three times. Both count in an open-addressing
  table that doubles. A free slot is \<open>None\<close>: a zero hash in the first table, a \<open>NULL\<close> key in the second.
\<close>

section \<open>Counting tables\<close>

type_synonym 'k slots = "nat \<Rightarrow> ('k \<times> int) option"

record 'k limiter =
  lm_tbl :: "'k slots"
  lm_cap :: nat
  lm_len :: nat

text \<open>\<open>count++\<close> on a C \<open>int\<close>.\<close>

definition bump :: "int \<Rightarrow> int" where
  "bump c = (c + 1 + 2 ^ 31) mod 2 ^ 32 - 2 ^ 31"

text \<open>The entries of the old table are put into the first free slots of the new one.\<close>

fun reinsert :: "('k \<Rightarrow> nat) \<Rightarrow> ('k \<times> int) option list \<Rightarrow> nat \<Rightarrow> 'k slots \<Rightarrow> 'k slots option" where
  "reinsert home [] cap t = Some t"
| "reinsert home (None # es) cap t = reinsert home es cap t"
| "reinsert home (Some e # es) cap t =
     (case probe (\<lambda>i. t i = None) cap (masked cap (home (fst e))) of
        None \<Rightarrow> None
      | Some i \<Rightarrow> reinsert home es cap (t(i := Some e)))"

definition regrow :: "('k \<Rightarrow> nat) \<Rightarrow> nat \<Rightarrow> 'k limiter \<Rightarrow> 'k limiter option" where
  "regrow home new_cap s =
     map_option (\<lambda>t. s\<lparr>lm_tbl := t, lm_cap := new_cap\<rparr>)
       (reinsert home (map (lm_tbl s) [0..<lm_cap s]) new_cap (\<lambda>_. None))"

text \<open>The slot of a key, or the free slot where the search for it ends.\<close>

definition find_slot :: "('k \<Rightarrow> nat) \<Rightarrow> 'k \<Rightarrow> 'k limiter \<Rightarrow> nat option" where
  "find_slot home k s =
     probe (\<lambda>i. case lm_tbl s i of None \<Rightarrow> True | Some (k', c) \<Rightarrow> k' = k) (lm_cap s) (masked (lm_cap s) (home k))"

section \<open>Log messages\<close>

definition log_home :: "u64 \<Rightarrow> nat" where
  "log_home h = unat h"

text \<open>An entry with the hash zero is a free slot.\<close>

definition log_entry :: "u64 \<Rightarrow> int \<Rightarrow> (u64 \<times> int) option" where
  "log_entry h count = (if h = 0 then None else Some (h, count))"

definition log_init :: "u64 limiter \<Rightarrow> u64 limiter" where
  "log_init s = (if lm_cap s = 0 then s\<lparr>lm_cap := 1024, lm_tbl := (\<lambda>_. None)\<rparr> else s)"

definition log_insert :: "u64 \<Rightarrow> nat \<Rightarrow> u64 limiter \<Rightarrow> u64 limiter" where
  "log_insert h idx s = s\<lparr>lm_tbl := (lm_tbl s)(idx := log_entry h 1), lm_len := lm_len s + 1\<rparr>"

definition ny_log_should_emit :: "byte_seq option \<Rightarrow> u64 limiter \<Rightarrow> (bool \<times> u64 limiter) option" where
  "ny_log_should_emit fmt s0 =
     (if fmt = None then Some (False, s0)
      else
        let s = log_init s0; h = ny_hash64_fast_cstr fmt
        in (case find_slot log_home h s of
              None \<Rightarrow> None
            | Some idx \<Rightarrow>
                (case lm_tbl s idx of
                   Some (h', count) \<Rightarrow>
                     Some (bump count \<le> 10, s\<lparr>lm_tbl := (lm_tbl s)(idx := Some (h', bump count))\<rparr>)
                 | None \<Rightarrow>
                     if lm_len s * 2 \<ge> lm_cap s then
                       (case regrow log_home (lm_cap s * 2) s of
                          None \<Rightarrow> None
                        | Some s' \<Rightarrow>
                            map_option (\<lambda>i. (True, log_insert h i s'))
                              (probe (\<lambda>i. lm_tbl s' i = None) (lm_cap s') (masked (lm_cap s') (log_home h))))
                     else Some (True, log_insert h idx s))))"

section \<open>Diagnostics of the parser\<close>

definition parse_diag_hash :: "string \<Rightarrow> nat" where
  "parse_diag_hash s = unat (ny_hash64_fast_cstr (Some (map byte_of s)))"

definition parse_diag_grow :: "string limiter \<Rightarrow> string limiter option" where
  "parse_diag_grow s = regrow parse_diag_hash (if lm_cap s \<noteq> 0 then lm_cap s * 2 else 1024) s"

text \<open>\<open>%d\<close>.\<close>

fun nat_text :: "nat \<Rightarrow> string" where
  "nat_text n = (if n < 10 then [char_of (48 + n)] else nat_text (n div 10) @ [char_of (48 + n mod 10)])"

definition int_text :: "int \<Rightarrow> string" where
  "int_text i = (if i < 0 then CHR ''-'' # nat_text (nat (- i)) else nat_text (nat i))"

text \<open>The key, cut off at the end of its buffer.\<close>

definition diag_key :: "string option \<Rightarrow> int \<Rightarrow> int \<Rightarrow> string option \<Rightarrow> string option \<Rightarrow> string" where
  "diag_key filename line col msg got =
     take 1023 ((case filename of None \<Rightarrow> ''<input>'' | Some f \<Rightarrow> f) @ ''|'' @ int_text line @ ''|'' @ int_text col @ ''|'' @
       (case msg of None \<Rightarrow> [] | Some m \<Rightarrow> m) @ ''|'' @ (case got of None \<Rightarrow> [] | Some g \<Rightarrow> g))"

text \<open>The part of \<open>parser_diag_should_emit\<close> behind the key; allocation does not fail.\<close>

definition diag_emit :: "string \<Rightarrow> string limiter \<Rightarrow> (bool \<times> string limiter) option" where
  "diag_emit key s0 =
     (case (if lm_cap s0 = 0 \<or> (lm_len s0 + 1) * 3 \<ge> lm_cap s0 * 2 then parse_diag_grow s0 else Some s0) of
        None \<Rightarrow> None
      | Some s \<Rightarrow>
          (case find_slot parse_diag_hash key s of
             None \<Rightarrow> None
           | Some idx \<Rightarrow>
               (case lm_tbl s idx of
                  Some (k, count) \<Rightarrow>
                    Some (bump count \<le> 3, s\<lparr>lm_tbl := (lm_tbl s)(idx := Some (k, bump count))\<rparr>)
                | None \<Rightarrow>
                    Some (True, s\<lparr>lm_tbl := (lm_tbl s)(idx := Some (key, 1)), lm_len := lm_len s + 1\<rparr>))))"

definition parser_diag_should_emit ::
  "string option \<Rightarrow> int \<Rightarrow> int \<Rightarrow> string option \<Rightarrow> string option \<Rightarrow> string limiter \<Rightarrow> (bool \<times> string limiter) option" where
  "parser_diag_should_emit filename line col msg got s = diag_emit (diag_key filename line col msg got) s"

definition empty_limiter :: "'k limiter" where
  "empty_limiter = \<lparr>lm_tbl = (\<lambda>_. None), lm_cap = 0, lm_len = 0\<rparr>"

end
