(* ===== verification/Emit_Limits_Correct.thy ===== *)
theory Emit_Limits_Correct
  imports Emit_Limits Intern_Correct
begin

text \<open>
  Over any sequence of messages each table answers whether the message has passed fewer times than
  its limit. What a client needs of such a table is the locale \<open>emission_limiter\<close>, interpreted on the
  log table and on the diagnostics table.
\<close>

section \<open>The contract\<close>

primrec run_emit :: "('m \<Rightarrow> 's \<Rightarrow> (bool \<times> 's) option) \<Rightarrow> 'm list \<Rightarrow> 's \<Rightarrow> (bool list \<times> 's) option" where
  "run_emit emit [] s = Some ([], s)"
| "run_emit emit (m # ms) s =
     (case emit m s of
        None \<Rightarrow> None
      | Some (b, s') \<Rightarrow> map_option (\<lambda>(bs, s''). (b # bs, s'')) (run_emit emit ms s'))"

text \<open>How often a message may already have come before the one at hand.\<close>

definition passes :: "('m \<Rightarrow> 'k) \<Rightarrow> nat \<Rightarrow> ('k \<Rightarrow> nat) \<Rightarrow> 'm list \<Rightarrow> bool list" where
  "passes key limit f ms =
     map (\<lambda>i. f (key (ms ! i)) + count_list (map key (take i ms)) (key (ms ! i)) < limit) [0..<length ms]"

lemma passes_Cons: "passes key limit f (m # ms) = (f (key m) < limit) # passes key limit (f(key m := Suc (f (key m)))) ms"
  unfolding passes_def length_Cons upt_conv_Cons [OF zero_less_Suc] map_Suc_upt [symmetric]
  by (auto simp: nth_append)

locale emission_limiter =
  fixes emit :: "'m \<Rightarrow> 's \<Rightarrow> (bool \<times> 's) option"
    and key :: "'m \<Rightarrow> 'k"
    and valid :: "'m \<Rightarrow> bool"
    and limit :: nat
    and counts :: "'s \<Rightarrow> ('k \<Rightarrow> nat) \<Rightarrow> bool"
  assumes emit_counts: "\<lbrakk>counts s f; valid m; f (key m) + 1 < 2 ^ 31\<rbrakk> \<Longrightarrow>
    \<exists>s'. emit m s = Some (f (key m) < limit, s') \<and> counts s' (f(key m := Suc (f (key m))))"
begin

lemma run_passes:
  assumes "counts s f" "\<forall>m\<in>set ms. valid m" "\<forall>k. f k + length ms < 2 ^ 31"
  shows "\<exists>s'. run_emit emit ms s = Some (passes key limit f ms, s')"
  using assms
proof (induction ms arbitrary: s f)
  case (Cons m ms)
  let ?f = "f(key m := Suc (f (key m)))"
  have lt: "f k + Suc (length ms) < 2 ^ 31" for k
    using Cons.prems(3) by simp
  have "f (key m) + 1 < 2 ^ 31"
    using lt [of "key m"] by linarith
  then obtain s' where s': "emit m s = Some (f (key m) < limit, s')" "counts s' ?f"
    using emit_counts [OF Cons.prems(1), of m] Cons.prems(2) by auto
  have "\<forall>k. ?f k + length ms < 2 ^ 31"
  proof
    fix k
    show "?f k + length ms < 2 ^ 31"
      using lt [of k] by (cases "k = key m") simp_all
  qed
  moreover have "\<forall>m\<in>set ms. valid m"
    using Cons.prems(2) by simp
  ultimately obtain s'' where "run_emit emit ms s' = Some (passes key limit ?f ms, s'')"
    using Cons.IH [OF s'(2)] by blast
  then show ?case
    using s'(1) by (simp add: passes_Cons)
qed (simp add: passes_def)

end

section \<open>Tables that count\<close>

text \<open>The table holds exactly the keys of \<open>M\<close>, each with its count.\<close>

definition keys_of :: "'k slots \<Rightarrow> nat \<Rightarrow> 'k option" where
  "keys_of t i = map_option fst (t i)"

definition counted :: "('k \<Rightarrow> nat) \<Rightarrow> nat \<Rightarrow> 'k slots \<Rightarrow> ('k \<rightharpoonup> int) \<Rightarrow> bool" where
  "counted home cap t M \<longleftrightarrow>
     slots_ok cap home (keys_of t) (dom M) \<and> (\<forall>p<cap. \<forall>k c. t p = Some (k, c) \<longrightarrow> M k = Some c)"

lemma keys_of_upd: "keys_of (t(p := Some (k, c))) = (keys_of t)(p := Some k)"
  by (auto simp: keys_of_def)

lemma counted_empty: "pow2 cap \<Longrightarrow> counted home cap (\<lambda>_. None) Map.empty"
  using slots_empty [of cap home] by (simp add: counted_def keys_of_def [abs_def])

lemma counted_find:
  assumes t: "counted home cap t M" "card (dom M) < cap"
    and P: "\<And>k'. P k' \<Longrightarrow> k' = k"
  obtains p where "probe (\<lambda>i. case t i of None \<Rightarrow> True | Some (k', c) \<Rightarrow> P k') cap (masked cap (home k)) = Some p" "p < cap"
    "case t p of None \<Rightarrow> (P k \<longrightarrow> M k = None) \<and> (\<forall>c. M k = None \<longrightarrow> counted home cap (t(p := Some (k, c))) (M(k \<mapsto> c)))
     | Some (k', c) \<Rightarrow> k' = k \<and> P k \<and> M k = Some c \<and> (\<forall>c'. counted home cap (t(p := Some (k, c'))) (M(k \<mapsto> c')))"
proof -
  have s: "slots_ok cap home (keys_of t) (dom M)" and v: "\<And>p k c. p < cap \<Longrightarrow> t p = Some (k, c) \<Longrightarrow> M k = Some c"
    using t(1) by (auto simp: counted_def)
  have stop: "(\<lambda>i. keys_of t i = None \<or> P (the (keys_of t i))) = (\<lambda>i. case t i of None \<Rightarrow> True | Some (k', c) \<Rightarrow> P k')"
    by (rule ext) (auto simp: keys_of_def split: option.splits)
  have home: "home k' = home k" if "k' \<in> dom M" "P k'" for k'
    using P [OF that(2)] by simp
  obtain p d where p: "probe (\<lambda>i. keys_of t i = None \<or> P (the (keys_of t i))) cap (masked cap (home k)) = Some p"
      "p < cap" "d < cap" "p = (home k + d) mod cap" "\<And>e. e < d \<Longrightarrow> keys_of t ((home k + e) mod cap) \<noteq> None"
      "case keys_of t p of None \<Rightarrow> \<forall>k' \<in> dom M. \<not> P k' | Some k' \<Rightarrow> k' \<in> dom M \<and> P k'"
    by (rule probe_lookup [where P = P and h = "home k", OF s t(2) home]) (assumption, assumption, blast)
  show ?thesis
  proof (rule that [OF p(1) [unfolded stop] p(2)], cases "t p")
    case None
    have "counted home cap (t(p := Some (k, c))) (M(k \<mapsto> c))" if "M k = None" for c
    proof -
      have "slots_ok cap home ((keys_of t)(p := Some k)) (insert k (dom M))"
        by (rule slots_insert [OF s p(2) _ p(3,4)]) (use that p(5) None in \<open>auto simp: keys_of_def\<close>)
      moreover have "(M(k \<mapsto> c)) k' = Some c'" if q: "q < cap" "(t(p := Some (k, c))) q = Some (k', c')" for q k' c'
      proof (cases "q = p")
        case False
        then have "M k' = Some c'"
          using v q by auto
        then show ?thesis
          using \<open>M k = None\<close> by auto
      qed (use q in auto)
      ultimately show ?thesis
        by (simp add: counted_def keys_of_upd del: fun_upd_apply)
    qed
    then show "case t p of None \<Rightarrow> (P k \<longrightarrow> M k = None) \<and> (\<forall>c. M k = None \<longrightarrow> counted home cap (t(p := Some (k, c))) (M(k \<mapsto> c)))
     | Some (k', c) \<Rightarrow> k' = k \<and> P k \<and> M k = Some c \<and> (\<forall>c'. counted home cap (t(p := Some (k, c'))) (M(k \<mapsto> c')))"
      using None p(6) by (simp add: keys_of_def) blast
  next
    case (Some e)
    have e: "P (fst e)"
      using Some p(6) by (simp add: keys_of_def)
    then have "fst e = k"
      by (rule P)
    then have c: "t p = Some (k, snd e)" "P k" "M k = Some (snd e)"
      using Some e v [OF p(2), of k "snd e"] by (simp_all add: prod_eq_iff)
    have "counted home cap (t(p := Some (k, c'))) (M(k \<mapsto> c'))" for c'
    proof -
      have "keys_of (t(p := Some (k, c'))) = keys_of t" "dom (M(k \<mapsto> c')) = dom M"
        using c by (auto simp: keys_of_def)
      moreover have "(M(k \<mapsto> c')) k1 = Some c1" if q: "q < cap" "(t(p := Some (k, c'))) q = Some (k1, c1)" for q k1 c1
      proof (cases "q = p")
        case False
        have "k1 \<noteq> k"
        proof
          assume "k1 = k"
          then have "keys_of t q = keys_of t p" "keys_of t q \<noteq> None"
            using q False c(1) by (auto simp: keys_of_def)
          then show False
            using s q(1) p(2) False unfolding slots_ok_def by blast
        qed
        then show ?thesis
          using v [OF q(1)] q(2) False by simp
      qed (use q in auto)
      ultimately show ?thesis
        using s by (simp add: counted_def del: fun_upd_apply dom_fun_upd)
    qed
    then show "case t p of None \<Rightarrow> (P k \<longrightarrow> M k = None) \<and> (\<forall>c. M k = None \<longrightarrow> counted home cap (t(p := Some (k, c))) (M(k \<mapsto> c)))
     | Some (k', c) \<Rightarrow> k' = k \<and> P k \<and> M k = Some c \<and> (\<forall>c'. counted home cap (t(p := Some (k, c'))) (M(k \<mapsto> c')))"
      using c by simp
  qed
qed

text \<open>Moving the entries to another table.\<close>

fun somes :: "'a option list \<Rightarrow> 'a list" where
  "somes [] = []"
| "somes (None # xs) = somes xs"
| "somes (Some x # xs) = x # somes xs"

lemma set_somes: "x \<in> set (somes xs) \<longleftrightarrow> Some x \<in> set xs"
  by (induction xs rule: somes.induct) auto

lemma reinsert_counted:
  assumes "counted home cap t M" "distinct (map fst (somes es))" "fst ` set (somes es) \<inter> dom M = {}"
    "card (dom M) + length (somes es) < cap"
  shows "\<exists>t'. reinsert home es cap t = Some t' \<and> counted home cap t' (M ++ map_of (somes es))"
  using assms
proof (induction home es cap t arbitrary: M rule: reinsert.induct)
  case (3 home e es cap t)
  obtain k c where e: "e = (k, c)"
    by (cases e)
  have free: "(\<lambda>i. case t i of None \<Rightarrow> True | Some (k', c) \<Rightarrow> False) = (\<lambda>i. t i = None)"
    by (rule ext) (simp split: option.splits)
  have k: "M k = None" "k \<notin> dom (map_of (somes es))"
    using "3.prems"(2,3) e by (auto simp: dom_map_of_conv_image_fst)
  have less: "card (dom M) < cap"
    using "3.prems"(4) by simp
  obtain p where p: "probe (\<lambda>i. t i = None) cap (masked cap (home k)) = Some p" "p < cap"
      "case t p of None \<Rightarrow> (False \<longrightarrow> M k = None) \<and> (\<forall>c. M k = None \<longrightarrow> counted home cap (t(p := Some (k, c))) (M(k \<mapsto> c)))
       | Some (k', c) \<Rightarrow> k' = k \<and> False \<and> M k = Some c \<and> (\<forall>c'. counted home cap (t(p := Some (k, c'))) (M(k \<mapsto> c')))"
    by (rule counted_find [where P = "\<lambda>_. False" and k = k, OF "3.prems"(1) less, unfolded free]) simp_all
  have t': "counted home cap (t(p := Some (k, c))) (M(k \<mapsto> c))"
    using p(3) k(1) by (simp split: option.splits prod.splits)
  have "finite (dom M)"
    using "3.prems"(1) by (simp add: counted_def slots_ok_def)
  then have "fst ` set (somes es) \<inter> dom (M(k \<mapsto> c)) = {}" "card (dom (M(k \<mapsto> c))) + length (somes es) < cap"
      "distinct (map fst (somes es))"
    using "3.prems"(2-4) e k by (auto simp: dom_map_of_conv_image_fst card_insert_if)
  then have "\<exists>t''. reinsert home es cap (t(p := Some (k, c))) = Some t'' \<and> counted home cap t'' (M(k \<mapsto> c) ++ map_of (somes es))"
    using "3.IH" [of p "M(k \<mapsto> c)", unfolded e fst_conv] p(1) t' by blast
  moreover have "M ++ map_of (somes (Some e # es)) = M(k \<mapsto> c) ++ map_of (somes es)"
    using map_add_upd_left [OF k(2)] e by simp
  moreover have "reinsert home (Some e # es) cap t = reinsert home es cap (t(p := Some (k, c)))"
    using p(1) e by simp
  ultimately show ?case
    by (simp only:)
qed auto

lemma entries_listed:
  assumes "counted home cap t M"
  shows "distinct (map fst (somes (map t [0..<cap])))" "map_of (somes (map t [0..<cap])) = M"
    "length (somes (map t [0..<cap])) = card (dom M)"
proof -
  have s: "slots_ok cap home (keys_of t) (dom M)" and v: "\<And>p k c. p < cap \<Longrightarrow> t p = Some (k, c) \<Longrightarrow> M k = Some c"
    using assms by (auto simp: counted_def)
  have inj: "p = q" if "p < cap" "q < cap" "keys_of t p = Some k" "keys_of t q = Some k" for p q k
    using s that unfolding slots_ok_def by (metis option.distinct(1))
  have dist: "distinct (map fst (somes (map t ps)))" if "distinct ps" "set ps \<subseteq> {0..<cap}" for ps
    using that
  proof (induction ps)
    case (Cons p ps)
    have "fst x \<noteq> k" if tp: "t p = Some (k, c)" and tx: "x \<in> set (somes (map t ps))" for x k c
    proof
      assume x: "fst x = k"
      obtain q where "q \<in> set ps" "t q = Some x"
        using tx by (auto simp: set_somes)
      then have "q = p"
        using inj [of q p k] Cons.prems tp x by (auto simp: keys_of_def)
      then show False
        using Cons.prems(1) \<open>q \<in> set ps\<close> by simp
    qed
    then have "\<forall>k c. t p = Some (k, c) \<longrightarrow> k \<notin> fst ` set (somes (map t ps))"
      by blast
    then show ?case
      using Cons by (cases "t p") fastforce+
  qed simp
  show d: "distinct (map fst (somes (map t [0..<cap])))"
    by (rule dist) auto
  have m: "(k, c) \<in> set (somes (map t [0..<cap])) \<longleftrightarrow> M k = Some c" for k c
  proof
    assume "M k = Some c"
    then obtain d where d: "keys_of t ((home k + d) mod cap) = Some k"
      using s unfolding slots_ok_def by blast
    define p where "p = (home k + d) mod cap"
    have "keys_of t p = Some k" "p < cap"
      using d s pow2_pos [of cap] by (simp_all add: p_def slots_ok_def)
    then have "t p = Some (k, c)"
      using v [of p k] \<open>M k = Some c\<close> by (cases "t p") (auto simp: keys_of_def)
    then show "(k, c) \<in> set (somes (map t [0..<cap]))"
      using \<open>p < cap\<close> unfolding set_somes set_map by (intro image_eqI [of _ _ p]) simp_all
  next
    assume "(k, c) \<in> set (somes (map t [0..<cap]))"
    then show "M k = Some c"
      using v by (auto simp: set_somes)
  qed
  show e: "map_of (somes (map t [0..<cap])) = M"
  proof
    fix k
    show "map_of (somes (map t [0..<cap])) k = M k"
      using map_of_eq_Some_iff [OF d, of k] m [of k] by (metis not_Some_eq)
  qed
  show "length (somes (map t [0..<cap])) = card (dom M)"
    using distinct_card [OF d] dom_map_of_conv_image_fst [of "somes (map t [0..<cap])"] e by simp
qed

lemma regrow_counted:
  assumes "counted home (lm_cap s) (lm_tbl s) M" "pow2 cap" "card (dom M) < cap"
  shows "\<exists>t'. regrow home cap s = Some (s\<lparr>lm_tbl := t', lm_cap := cap\<rparr>) \<and> counted home cap t' M"
proof -
  note e = entries_listed [OF assms(1)]
  show ?thesis
    using reinsert_counted [OF counted_empty [OF assms(2)] e(1), where home = home] e(2,3) assms(3)
    by (auto simp: regrow_def)
qed

text \<open>The table counts the keys the way \<open>f\<close> does.\<close>

definition count_map :: "('k \<Rightarrow> nat) \<Rightarrow> 'k \<rightharpoonup> int" where
  "count_map f k = (if f k = 0 then None else Some (int (f k)))"

definition tallied :: "('k \<Rightarrow> nat) \<Rightarrow> 'k limiter \<Rightarrow> ('k \<Rightarrow> nat) \<Rightarrow> bool" where
  "tallied home s f \<longleftrightarrow> counted home (lm_cap s) (lm_tbl s) (count_map f) \<and> card (dom (count_map f)) = lm_len s"

lemma count_map_Suc: "count_map (f(k := Suc n)) = (count_map f)(k \<mapsto> int (Suc n))"
  by (rule ext) (simp add: count_map_def)

lemma count_map_None: "count_map f k = None \<longleftrightarrow> f k = 0"
  and count_map_Some: "count_map f k = Some c \<longleftrightarrow> c = int (f k) \<and> 0 < f k"
  by (auto simp: count_map_def)

lemma count_map_zero: "count_map (\<lambda>_. 0) = Map.empty"
  by (rule ext) (simp add: count_map_def)

lemma tallied_cap: "tallied home s f \<Longrightarrow> pow2 (lm_cap s)"
  by (simp add: tallied_def counted_def slots_ok_def)

lemma tallied_regrow:
  assumes "tallied home s f" "pow2 cap" "lm_len s < cap"
  obtains s' where "regrow home cap s = Some s'" "tallied home s' f" "lm_cap s' = cap" "lm_len s' = lm_len s"
  using regrow_counted [of home s "count_map f" cap] assms by (auto simp: tallied_def)

lemma tallied_find:
  assumes s: "tallied home s f" "lm_len s < lm_cap s"
  obtains (fresh) p where "find_slot home k s = Some p" "lm_tbl s p = None" "f k = 0"
      "tallied home (s\<lparr>lm_tbl := (lm_tbl s)(p := Some (k, 1)), lm_len := lm_len s + 1\<rparr>) (f(k := 1))"
  | (known) p where "find_slot home k s = Some p" "lm_tbl s p = Some (k, int (f k))" "0 < f k"
      "tallied home (s\<lparr>lm_tbl := (lm_tbl s)(p := Some (k, int (Suc (f k))))\<rparr>) (f(k := Suc (f k)))"
proof -
  let ?M = "count_map f"
  have c: "counted home (lm_cap s) (lm_tbl s) ?M" "card (dom ?M) = lm_len s"
    using s(1) by (simp_all add: tallied_def)
  then have less: "card (dom ?M) < lm_cap s" and fin: "finite (dom ?M)"
    using s(2) by (simp_all add: counted_def slots_ok_def)
  obtain p where p: "find_slot home k s = Some p"
      "case lm_tbl s p of None \<Rightarrow> (k = k \<longrightarrow> ?M k = None) \<and> (\<forall>c. ?M k = None \<longrightarrow> counted home (lm_cap s) ((lm_tbl s)(p := Some (k, c))) (?M(k \<mapsto> c)))
       | Some (k', c) \<Rightarrow> k' = k \<and> k = k \<and> ?M k = Some c \<and> (\<forall>c'. counted home (lm_cap s) ((lm_tbl s)(p := Some (k, c'))) (?M(k \<mapsto> c')))"
    unfolding find_slot_def by (rule counted_find [where P = "\<lambda>k'. k' = k" and k = k, OF c(1) less]) assumption
  show thesis
  proof (cases "lm_tbl s p")
    case None
    have z: "f k = 0" "?M k = None"
      using p(2) None by (simp_all add: count_map_None)
    then have "counted home (lm_cap s) ((lm_tbl s)(p := Some (k, 1))) (?M(k \<mapsto> 1))"
      using p(2) None by simp
    then show thesis
      using fresh [OF p(1) None z(1)] c(2) z(2) fin
      by (simp add: tallied_def count_map_Suc card_insert_if domIff del: fun_upd_apply)
  next
    case (Some e)
    obtain k' c' where e: "e = (k', c')"
      by (cases e)
    have k: "k' = k" "?M k = Some c'" "counted home (lm_cap s) ((lm_tbl s)(p := Some (k, d))) (?M(k \<mapsto> d))" for d
      using p(2) Some e by simp_all
    have "insert k (dom ?M) = dom ?M"
      using k(2) by auto
    then show thesis
      using known [OF p(1)] k(1,2) k(3) [of "int (Suc (f k))"] c(2) Some e
      by (simp add: tallied_def count_map_Suc count_map_Some del: fun_upd_apply of_nat_Suc)
  qed
qed

lemma bump_nat: "n + 1 < 2 ^ 31 \<Longrightarrow> bump (int n) = int (Suc n)"
  unfolding bump_def by (subst mod_pos_pos_trivial) simp_all

lemma tallied_free:
  assumes s: "tallied home s f" "lm_len s < lm_cap s" "f k = 0"
  obtains p where "probe (\<lambda>i. lm_tbl s i = None) (lm_cap s) (masked (lm_cap s) (home k)) = Some p"
    "tallied home (s\<lparr>lm_tbl := (lm_tbl s)(p := Some (k, 1)), lm_len := lm_len s + 1\<rparr>) (f(k := 1))"
proof -
  let ?M = "count_map f"
  have c: "counted home (lm_cap s) (lm_tbl s) ?M" "card (dom ?M) = lm_len s" "?M k = None"
    using s by (simp_all add: tallied_def count_map_None)
  then have less: "card (dom ?M) < lm_cap s" and fin: "finite (dom ?M)"
    using s(2) by (simp_all add: counted_def slots_ok_def)
  have free: "(\<lambda>i. case lm_tbl s i of None \<Rightarrow> True | Some (k', c) \<Rightarrow> False) = (\<lambda>i. lm_tbl s i = None)"
    by (rule ext) (simp split: option.splits)
  obtain p where p: "probe (\<lambda>i. lm_tbl s i = None) (lm_cap s) (masked (lm_cap s) (home k)) = Some p"
      "case lm_tbl s p of None \<Rightarrow> (False \<longrightarrow> ?M k = None) \<and> (\<forall>c. ?M k = None \<longrightarrow> counted home (lm_cap s) ((lm_tbl s)(p := Some (k, c))) (?M(k \<mapsto> c)))
       | Some (k', c) \<Rightarrow> k' = k \<and> False \<and> ?M k = Some c \<and> (\<forall>c'. counted home (lm_cap s) ((lm_tbl s)(p := Some (k, c'))) (?M(k \<mapsto> c')))"
    by (rule counted_find [where P = "\<lambda>_. False" and k = k, OF c(1) less, unfolded free]) simp_all
  then have "counted home (lm_cap s) ((lm_tbl s)(p := Some (k, 1))) (?M(k \<mapsto> 1))"
    using c(3) by (simp split: option.splits prod.splits)
  then show thesis
    using that [OF p(1)] c(2,3) fin
    by (simp add: tallied_def count_map_Suc card_insert_if domIff del: fun_upd_apply)
qed

section \<open>The two tables\<close>

definition log_counts :: "u64 limiter \<Rightarrow> (u64 \<Rightarrow> nat) \<Rightarrow> bool" where
  "log_counts s f \<longleftrightarrow>
     (if lm_cap s = 0 then lm_len s = 0 \<and> f = (\<lambda>_. 0)
      else tallied log_home s f \<and> 4 \<le> lm_cap s \<and> 2 * lm_len s \<le> lm_cap s + 1)"

definition diag_counts :: "string limiter \<Rightarrow> (string \<Rightarrow> nat) \<Rightarrow> bool" where
  "diag_counts s f \<longleftrightarrow>
     (if lm_cap s = 0 then lm_len s = 0 \<and> f = (\<lambda>_. 0)
      else tallied parse_diag_hash s f \<and> 2 \<le> lm_cap s \<and> 3 * lm_len s < 2 * lm_cap s)"

lemma pow2_1024: "pow2 1024"
  unfolding pow2_def by (rule exI [of _ 10]) simp

lemma tallied_empty: "pow2 cap \<Longrightarrow> tallied home \<lparr>lm_tbl = (\<lambda>_. None), lm_cap = cap, lm_len = 0\<rparr> (\<lambda>_. 0)"
  by (simp add: tallied_def count_map_zero counted_empty)

lemma log_init_counts:
  assumes "log_counts s f"
  shows "tallied log_home (log_init s) f" "4 \<le> lm_cap (log_init s)" "2 * lm_len (log_init s) \<le> lm_cap (log_init s) + 1"
  using assms tallied_empty [OF pow2_1024, of log_home] by (cases s; auto simp: log_counts_def log_init_def)+

lemma log_emit_counts:
  assumes "log_counts s f" "h = ny_hash64_fast_cstr fmt" "fmt \<noteq> None" "h \<noteq> 0" "f h + 1 < 2 ^ 31"
  shows "\<exists>s'. ny_log_should_emit fmt s = Some (f h < 10, s') \<and> log_counts s' (f(h := Suc (f h)))"
proof -
  define t where "t = log_init s"
  note t = log_init_counts [OF assms(1), folded t_def]
  have room: "lm_len t < lm_cap t" "lm_cap t \<noteq> 0"
    using t(2,3) by linarith+
  show ?thesis
    using t(1) room(1)
  proof (cases rule: tallied_find [where k = h])
    case (known p)
    have "ny_log_should_emit fmt s = Some (f h < 10, t\<lparr>lm_tbl := (lm_tbl t)(p := Some (h, int (Suc (f h))))\<rparr>)"
      using known(1,2) assms(2,3,5) by (simp add: ny_log_should_emit_def t_def [symmetric] bump_nat Let_def del: of_nat_Suc) auto
    then show ?thesis
      using known(4) t(2,3) room(2) by (simp add: log_counts_def)
  next
    case (fresh p)
    show ?thesis
    proof (cases "lm_len t * 2 \<ge> lm_cap t")
      case True
      obtain u where u: "regrow log_home (lm_cap t * 2) t = Some u" "tallied log_home u f" "lm_cap u = lm_cap t * 2" "lm_len u = lm_len t"
        by (rule tallied_regrow [OF t(1) pow2_double [OF tallied_cap [OF t(1)]]]) (use room in simp)
      obtain q where q: "probe (\<lambda>i. lm_tbl u i = None) (lm_cap u) (masked (lm_cap u) (log_home h)) = Some q"
          "tallied log_home (u\<lparr>lm_tbl := (lm_tbl u)(q := Some (h, 1)), lm_len := lm_len u + 1\<rparr>) (f(h := 1))"
        by (rule tallied_free [OF u(2) _ fresh(3)]) (use u(3,4) room in simp)
      have "ny_log_should_emit fmt s = Some (True, u\<lparr>lm_tbl := (lm_tbl u)(q := Some (h, 1)), lm_len := lm_len u + 1\<rparr>)"
        using fresh(1,2) assms(2-4) True u(1) q(1)
        by (simp add: ny_log_should_emit_def t_def [symmetric] Let_def log_insert_def log_entry_def)
      then show ?thesis
        using q(2) u(3,4) t(2,3) fresh(3) by (simp add: log_counts_def)
    next
      case False
      have "ny_log_should_emit fmt s = Some (True, t\<lparr>lm_tbl := (lm_tbl t)(p := Some (h, 1)), lm_len := lm_len t + 1\<rparr>)"
        using fresh(1,2) assms(2-4) False
        by (simp add: ny_log_should_emit_def t_def [symmetric] Let_def log_insert_def log_entry_def)
      then show ?thesis
        using fresh(3,4) t(2,3) False room(2) by (simp add: log_counts_def)
    qed
  qed
qed

interpretation log_table: emission_limiter ny_log_should_emit ny_hash64_fast_cstr
  "\<lambda>fmt. fmt \<noteq> None \<and> ny_hash64_fast_cstr fmt \<noteq> 0" 10 log_counts
  by unfold_locales (use log_emit_counts in blast)

lemma diag_ready:
  assumes "diag_counts s f"
  obtains t where
    "(if lm_cap s = 0 \<or> (lm_len s + 1) * 3 \<ge> lm_cap s * 2 then parse_diag_grow s else Some s) = Some t"
    "tallied parse_diag_hash t f" "2 \<le> lm_cap t" "(lm_len t + 1) * 3 < lm_cap t * 2"
proof (cases "lm_cap s = 0")
  case True
  then have "parse_diag_grow s = Some \<lparr>lm_tbl = (\<lambda>_. None), lm_cap = 1024, lm_len = 0\<rparr>" "f = (\<lambda>_. 0)"
    using assms by (cases s, simp add: parse_diag_grow_def regrow_def diag_counts_def)+
  then show thesis
    using that [of "\<lparr>lm_tbl = (\<lambda>_. None), lm_cap = 1024, lm_len = 0\<rparr>"] tallied_empty [OF pow2_1024, of parse_diag_hash] True by simp
next
  case False
  then have s: "tallied parse_diag_hash s f" "2 \<le> lm_cap s" "3 * lm_len s < 2 * lm_cap s"
    using assms by (simp_all add: diag_counts_def)
  show thesis
  proof (cases "(lm_len s + 1) * 3 \<ge> lm_cap s * 2")
    case grow: True
    obtain t where "regrow parse_diag_hash (lm_cap s * 2) s = Some t" "tallied parse_diag_hash t f" "lm_cap t = lm_cap s * 2" "lm_len t = lm_len s"
      by (rule tallied_regrow [OF s(1) pow2_double [OF tallied_cap [OF s(1)]]]) (use s in simp)
    then show thesis
      using that [of t] grow False s by (simp add: parse_diag_grow_def)
  qed (use that [of s] False s in simp)
qed

lemma diag_emit_counts:
  assumes "diag_counts s f" "f key + 1 < 2 ^ 31"
  shows "\<exists>s'. diag_emit key s = Some (f key < 3, s') \<and> diag_counts s' (f(key := Suc (f key)))"
proof -
  obtain t where t: "(if lm_cap s = 0 \<or> (lm_len s + 1) * 3 \<ge> lm_cap s * 2 then parse_diag_grow s else Some s) = Some t"
      "tallied parse_diag_hash t f" "2 \<le> lm_cap t" "(lm_len t + 1) * 3 < lm_cap t * 2"
    by (rule diag_ready [OF assms(1)])
  have room: "lm_len t < lm_cap t"
    using t(4) by presburger
  show ?thesis
    using t(2) room
  proof (cases rule: tallied_find [where k = key])
    case (known p)
    have "diag_emit key s = Some (f key < 3, t\<lparr>lm_tbl := (lm_tbl t)(p := Some (key, int (Suc (f key))))\<rparr>)"
      using known(1,2) assms(2) unfolding diag_emit_def t(1) by (simp add: bump_nat del: of_nat_Suc) linarith
    then show ?thesis
      using known(4) t(3,4) by (simp add: diag_counts_def)
  next
    case (fresh p)
    have "diag_emit key s = Some (True, t\<lparr>lm_tbl := (lm_tbl t)(p := Some (key, 1)), lm_len := lm_len t + 1\<rparr>)"
      using fresh(1,2) unfolding diag_emit_def t(1) by simp
    then show ?thesis
      using fresh(3,4) t(3,4) by (simp add: diag_counts_def)
  qed
qed

definition diag_call :: "string option \<times> int \<times> int \<times> string option \<times> string option \<Rightarrow> string limiter \<Rightarrow> (bool \<times> string limiter) option" where
  "diag_call d s = (case d of (filename, line, col, msg, got) \<Rightarrow> parser_diag_should_emit filename line col msg got s)"

definition diag_call_key :: "string option \<times> int \<times> int \<times> string option \<times> string option \<Rightarrow> string" where
  "diag_call_key d = (case d of (filename, line, col, msg, got) \<Rightarrow> diag_key filename line col msg got)"

interpretation diag_table: emission_limiter diag_call diag_call_key "\<lambda>_. True" 3 diag_counts
  by unfold_locales
    (auto simp: diag_call_def diag_call_key_def parser_diag_should_emit_def intro: diag_emit_counts split: prod.splits)

lemma passes_nth:
  "length (passes key limit (\<lambda>_. 0) ms) = length ms"
  "i < length ms \<Longrightarrow> passes key limit (\<lambda>_. 0) ms ! i \<longleftrightarrow> count_list (map key (take i ms)) (key (ms ! i)) < limit"
  by (simp_all add: passes_def)

lemma repeated_passes:
  assumes "length bs = length (replicate n m)"
    "\<forall>i<length (replicate n m). bs ! i \<longleftrightarrow> count_list (map key (take i (replicate n m))) (key (replicate n m ! i)) < limit"
  shows "bs = map (\<lambda>i. i < limit) [0..<n]"
proof -
  have c: "count_list (replicate i x) x = i" for i and x :: 'b
    by (induction i) simp_all
  show ?thesis
    by (rule nth_equalityI) (use assms in \<open>simp_all add: c\<close>)
qed

text \<open>
  Starting from the empty table, every call of \<open>ny_log_should_emit\<close> returns, and the answer to
  the \<open>i\<close>-th message is yes exactly when fewer than ten of the messages before it had its hash;
  growing the table loses no count. The messages have a nonzero hash, which is the mark of a used
  slot, and there are fewer than \<open>2\<^sup>3\<^sup>1\<close> of them, the range of the counters.
\<close>

theorem log_emit_limit:
  assumes "\<forall>fmt\<in>set ms. fmt \<noteq> None \<and> ny_hash64_fast_cstr fmt \<noteq> 0" "length ms < 2 ^ 31"
  shows "\<exists>bs s'. run_emit ny_log_should_emit ms empty_limiter = Some (bs, s') \<and> length bs = length ms \<and>
    (\<forall>i<length ms. bs ! i \<longleftrightarrow>
       count_list (map ny_hash64_fast_cstr (take i ms)) (ny_hash64_fast_cstr (ms ! i)) < 10)"
proof -
  have "log_counts empty_limiter (\<lambda>_. 0)"
    by (simp add: log_counts_def empty_limiter_def)
  from log_table.run_passes [OF this assms(1)] assms(2) show ?thesis
    by (auto simp: passes_nth)
qed

theorem log_emit_limit_witness:
  "ny_hash64_fast_cstr (Some [65]) \<noteq> 0 \<and>
   (\<exists>s'. run_emit ny_log_should_emit (replicate 12 (Some [65])) empty_limiter = Some (map (\<lambda>i. i < 10) [0..<12], s'))"
proof -
  let ?ms = "replicate 12 (Some [65]) :: byte_seq option list"
  have h: "\<forall>fmt\<in>set ?ms. fmt \<noteq> None \<and> ny_hash64_fast_cstr fmt \<noteq> 0"
    by code_simp
  have "length ?ms < 2 ^ 31"
    by simp
  then obtain bs s' where bs: "run_emit ny_log_should_emit ?ms empty_limiter = Some (bs, s')" "length bs = length ?ms"
      "\<forall>i<length ?ms. bs ! i \<longleftrightarrow> count_list (map ny_hash64_fast_cstr (take i ?ms)) (ny_hash64_fast_cstr (?ms ! i)) < 10"
    using log_emit_limit [OF h] by blast
  show ?thesis
    using h bs(1) repeated_passes [OF bs(2,3)] by auto
qed

text \<open>
  C26: starting from the empty table, every call of \<open>parser_diag_should_emit\<close> returns, and the
  \<open>i\<close>-th diagnostic is let through exactly when fewer than three of the diagnostics before it had
  its key, the first 1023 characters of file, line, column, message and token.
\<close>

theorem diag_emit_limit:
  assumes "length ds < 2 ^ 31"
  shows "\<exists>bs s'. run_emit diag_call ds empty_limiter = Some (bs, s') \<and> length bs = length ds \<and>
    (\<forall>i<length ds. bs ! i \<longleftrightarrow> count_list (map diag_call_key (take i ds)) (diag_call_key (ds ! i)) < 3)"
proof -
  have "diag_counts empty_limiter (\<lambda>_. 0)"
    by (simp add: diag_counts_def empty_limiter_def)
  from diag_table.run_passes [OF this, of ds] assms show ?thesis
    by (auto simp: passes_nth)
qed

theorem diag_emit_limit_witness:
  "length (replicate 5 (None, 1, 2, Some ''expected'', None)) < 2 ^ 31 \<and>
   (\<exists>bs s'. run_emit diag_call (replicate 5 (None, 1, 2, Some ''expected'', None)) empty_limiter = Some (bs, s') \<and>
      bs = [True, True, True, False, False])"
proof -
  let ?ds = "replicate 5 (None, 1, 2, Some ''expected'', None) :: (string option \<times> int \<times> int \<times> string option \<times> string option) list"
  have h: "length ?ds < 2 ^ 31"
    by simp
  obtain bs s' where bs: "run_emit diag_call ?ds empty_limiter = Some (bs, s')" "length bs = length ?ds"
      "\<forall>i<length ?ds. bs ! i \<longleftrightarrow> count_list (map diag_call_key (take i ?ds)) (diag_call_key (?ds ! i)) < 3"
    using diag_emit_limit [OF h] by blast
  show ?thesis
    using h bs(1) repeated_passes [OF bs(2,3)] by (auto simp: upt_rec)
qed

end
