(* ===== verification/Parser_Core.thy ===== *)
theory Parser_Core
  imports Lexer Emit_Limits
begin

text \<open>
  The state of the parser and its basic operations, from \<open>src/parse/parser.h\<close>, \<open>src/parse/priv.h\<close> and
  \<open>src/parse/core.c\<close>. The table of diagnostics is a global variable of the source and a field
  here. A parsing function returns an \<open>outcome\<close>: reaching the error limit ends the process
  (\<open>Exit\<close>), reading through \<open>NULL\<close> or writing behind a buffer is a \<open>Fault\<close>, and \<open>Stuck\<close> is a computation
  that does not end within its fuel.
\<close>

section \<open>Outcomes\<close>

datatype 'a outcome = Ret 'a | Exit | Fault | Stuck

fun and_then :: "'a outcome \<Rightarrow> ('a \<Rightarrow> 'b outcome) \<Rightarrow> 'b outcome" where
  "and_then (Ret x) f = f x"
| "and_then Exit f = Exit"
| "and_then Fault f = Fault"
| "and_then Stuck f = Stuck"

section \<open>State\<close>

record 's parser_t =
  pa_lex :: "'s lexer_t"
  pa_cur :: token_t
  pa_prev :: token_t
  pa_filename :: string
  pa_current_impl_owner :: "string option"
  pa_error_count :: int
  pa_lex_error_count_seen :: int
  pa_error_limit :: int
  pa_had_error :: bool
  pa_skipped_newline :: bool
  pa_stop_expr_at_newline :: bool
  pa_last_error_line :: int
  pa_last_error_col :: int
  pa_last_error_end_col :: int
  pa_last_error_msg :: string
  pa_last_error_hint :: string
  pa_block_depth :: int
  pa_loop_depth :: int
  pa_quiet :: bool
  pa_exit_on_limit :: bool
  pa_diags :: "string limiter"

abbreviation cur_kind :: "'s parser_t \<Rightarrow> token_kind" where
  "cur_kind p \<equiv> tok_kind (pa_cur p)"

definition cur_text :: "'s parser_t \<Rightarrow> string" where
  "cur_text p = tok_text (lx_src (pa_lex p)) (pa_cur p)"

text \<open>The errors of the lexer that the parser has not counted yet.\<close>

definition count_lex_errors :: "'s parser_t \<Rightarrow> 's parser_t" where
  "count_lex_errors p =
     (if lx_error_count (pa_lex p) > pa_lex_error_count_seen p then
        (let delta = lx_error_count (pa_lex p) - pa_lex_error_count_seen p;
             p1 = p\<lparr>pa_lex_error_count_seen := lx_error_count (pa_lex p), pa_had_error := True,
                    pa_error_count := pa_error_count p + delta\<rparr>
         in if pa_error_limit p1 > 0 \<and> pa_error_count p1 \<ge> pa_error_limit p1
            then p1\<lparr>pa_cur := (pa_cur p1)\<lparr>tok_kind := NY_T_EOF\<rparr>\<rparr> else p1)
      else p)"

definition parser_advance :: "'s sym_ops \<Rightarrow> 's parser_t \<Rightarrow> 's parser_t" where
  "parser_advance ops p =
     (case lexer_next ops (pa_lex p) of
        (tok, lx) \<Rightarrow>
          let p1 = count_lex_errors (p\<lparr>pa_prev := pa_cur p, pa_cur := tok, pa_lex := lx\<rparr>)
          in p1\<lparr>pa_skipped_newline := lx_skipped_newline (pa_lex p1)\<rparr>)"

definition parser_match :: "'s sym_ops \<Rightarrow> token_kind \<Rightarrow> 's parser_t \<Rightarrow> bool \<times> 's parser_t" where
  "parser_match ops kind p = (if cur_kind p = kind then (True, parser_advance ops p) else (False, p))"

text \<open>A look at the next token. The lexer is a copy; what it interns stays in the table of symbols.\<close>

definition parser_peek :: "'s sym_ops \<Rightarrow> 's parser_t \<Rightarrow> token_t \<times> 's parser_t" where
  "parser_peek ops p =
     (case lexer_next ops (pa_lex p) of
        (tok, lx) \<Rightarrow> (tok, p\<lparr>pa_lex := (pa_lex p)\<lparr>lx_syms := lx_syms lx\<rparr>\<rparr>))"

section \<open>Diagnostics\<close>

fun keyword_name :: "keyword_kind \<Rightarrow> string" where
  "keyword_name NY_T_FN = ''fn''"
| "keyword_name NY_T_RETURN = ''return''"
| "keyword_name NY_T_IF = ''if''"
| "keyword_name NY_T_ELSE = ''else''"
| "keyword_name NY_T_WHILE = ''while''"
| "keyword_name NY_T_FOR = ''for''"
| "keyword_name NY_T_IN = ''in''"
| "keyword_name NY_T_TRUE = ''true''"
| "keyword_name NY_T_FALSE = ''false''"
| "keyword_name NY_T_TRY = ''try''"
| "keyword_name NY_T_CATCH = ''catch''"
| "keyword_name NY_T_USE = ''use''"
| "keyword_name NY_T_GOTO = ''goto''"
| "keyword_name NY_T_LAMBDA = ''lambda''"
| "keyword_name NY_T_DEFER = ''defer''"
| "keyword_name NY_T_BREAK = ''break''"
| "keyword_name NY_T_CONTINUE = ''continue''"
| "keyword_name NY_T_ELIF = ''elif''"
| "keyword_name NY_T_ASM = ''asm''"
| "keyword_name NY_T_AS = ''as''"
| "keyword_name NY_T_COMPTIME = ''comptime''"
| "keyword_name NY_T_STRUCT = ''struct''"
| "keyword_name NY_T_MATCH = ''match''"
| "keyword_name NY_T_EMBED = ''embed''"
| "keyword_name NY_T_SIZEOF = ''sizeof''"
| "keyword_name NY_T_EXTERN = ''extern''"
| "keyword_name NY_T_DEF = ''def''"
| "keyword_name NY_T_MUT = ''mut''"
| "keyword_name NY_T_NIL = ''nil''"
| "keyword_name NY_T_DEL = ''del''"
| "keyword_name NY_T_MODULE = ''module''"
| "keyword_name NY_T_ENUM = ''enum''"

fun operator_name :: "operator_kind \<Rightarrow> string" where
  "operator_name NY_T_PLUS = ''+''"
| "operator_name NY_T_MINUS = ''-''"
| "operator_name NY_T_STAR = ''*''"
| "operator_name NY_T_SLASH = ''/''"
| "operator_name NY_T_PERCENT = ''%''"
| "operator_name NY_T_EQ = ''==''"
| "operator_name NY_T_NEQ = ''!=''"
| "operator_name NY_T_LT = ''<''"
| "operator_name NY_T_GT = ''>''"
| "operator_name NY_T_LE = ''<=''"
| "operator_name NY_T_GE = ''>=''"
| "operator_name NY_T_AND = ''&&''"
| "operator_name NY_T_OR = ''||''"
| "operator_name NY_T_NOT = ''!''"
| "operator_name NY_T_ASSIGN = ''=''"
| "operator_name NY_T_PLUS_EQ = ''+=''"
| "operator_name NY_T_MINUS_EQ = ''-=''"
| "operator_name NY_T_STAR_EQ = ''*=''"
| "operator_name NY_T_SLASH_EQ = ''/=''"
| "operator_name NY_T_PERCENT_EQ = ''%=''"
| "operator_name NY_T_POW_EQ = ''^=''"
| "operator_name NY_T_BITXOR_EQ = ''^^=''"
| "operator_name NY_T_LSHIFT_EQ = ''<<=''"
| "operator_name NY_T_RSHIFT_EQ = ''>>=''"
| "operator_name NY_T_ARROW = ''->''"
| "operator_name NY_T_BITOR = ''|''"
| "operator_name NY_T_BITAND = ''&''"
| "operator_name NY_T_POW = ''^''"
| "operator_name NY_T_BITXOR = ''^^''"
| "operator_name NY_T_LSHIFT = ''<<''"
| "operator_name NY_T_RSHIFT = ''>>''"
| "operator_name NY_T_BITNOT = ''~''"

fun punct_name :: "punct_kind \<Rightarrow> string" where
  "punct_name NY_T_LPAREN = ''(''"
| "punct_name NY_T_RPAREN = '')''"
| "punct_name NY_T_LBRACE = ''{''"
| "punct_name NY_T_RBRACE = ''}''"
| "punct_name NY_T_LBRACK = ''[''"
| "punct_name NY_T_RBRACK = '']''"
| "punct_name NY_T_COMMA = '',''"
| "punct_name NY_T_COLON = '':''"
| "punct_name NY_T_SEMI = '';''"
| "punct_name NY_T_DOT = ''.''"
| "punct_name NY_T_RANGE = ''..''"
| "punct_name NY_T_ELLIPSIS = ''...''"
| "punct_name NY_T_QUESTION = ''?''"
| "punct_name NY_T_AT = ''@''"
| "punct_name NY_T_HASH = ''#''"
| "punct_name NY_T_PLUS_PLUS = ''++''"
| "punct_name NY_T_MINUS_MINUS = ''--''"
| "punct_name NY_T_PIPE = ''|>''"
| "punct_name NY_T_QUESTION_QUESTION = ''??''"
| "punct_name NY_T_QUESTION_DOT = ''?.''"

fun parser_token_name :: "token_kind \<Rightarrow> string" where
  "parser_token_name NY_T_EOF = ''EOF''"
| "parser_token_name NY_T_IDENT = ''identifier''"
| "parser_token_name NY_T_NUMBER = ''number''"
| "parser_token_name NY_T_STRING = ''string''"
| "parser_token_name NY_T_FSTRING = ''f-string''"
| "parser_token_name (Kw k) = keyword_name k"
| "parser_token_name (Op k) = operator_name k"
| "parser_token_name (Punct k) = punct_name k"
| "parser_token_name NY_T_ERROR = ''error''"

definition token_desc :: "string \<Rightarrow> token_t \<Rightarrow> string" where
  "token_desc src tok =
     (let kind = parser_token_name (tok_kind tok)
      in if tok_kind tok = NY_T_IDENT \<or> tok_kind tok = NY_T_NUMBER \<or> tok_kind tok = NY_T_STRING
         then kind @ '' '' @ [squote] @ take 24 (tok_text src tok) @ [squote] @ (if tok_len tok > 24 then ''...'' else [])
         else kind)"

text \<open>The part of \<open>print_error_line\<close> behind the table: what is printed is not modelled.\<close>

definition record_error :: "int \<Rightarrow> int \<Rightarrow> int \<Rightarrow> string \<Rightarrow> string option \<Rightarrow> 's parser_t \<Rightarrow> 's parser_t outcome" where
  "record_error line col span_len msg hint p =
     (let p1 = p\<lparr>pa_had_error := True, pa_error_count := pa_error_count p + 1, pa_last_error_line := line,
                 pa_last_error_col := col, pa_last_error_end_col := col + (if span_len > 0 then span_len else 1),
                 pa_last_error_msg := take 255 msg, pa_last_error_hint := take 255 (case hint of None \<Rightarrow> [] | Some h \<Rightarrow> h)\<rparr>
      in if pa_error_limit p1 > 0 \<and> pa_error_count p1 \<ge> pa_error_limit p1 then
           (if pa_exit_on_limit p1 then Exit
            else Ret (p1\<lparr>pa_cur := (pa_cur p1)\<lparr>tok_kind := NY_T_EOF\<rparr>, pa_error_limit := 0\<rparr>))
         else Ret p1)"

definition print_error_line ::
  "string option \<Rightarrow> int \<Rightarrow> int \<Rightarrow> int \<Rightarrow> string \<Rightarrow> string \<Rightarrow> string option \<Rightarrow> 's parser_t \<Rightarrow> 's parser_t outcome" where
  "print_error_line filename line col span_len msg got hint p =
     (let out_file = (case filename of Some f \<Rightarrow> f | None \<Rightarrow> pa_filename p)
      in case parser_diag_should_emit (Some out_file) line col (Some msg) (Some got) (pa_diags p) of
           None \<Rightarrow> Stuck
         | Some (emit, diags) \<Rightarrow>
             let p1 = p\<lparr>pa_diags := diags\<rparr>
             in if \<not> emit then Ret p1 else record_error line col span_len msg hint p1)"

definition parser_error :: "token_t \<Rightarrow> string \<Rightarrow> string option \<Rightarrow> 's parser_t \<Rightarrow> 's parser_t outcome" where
  "parser_error tok msg hint p =
     print_error_line (tok_filename tok) (tok_line tok) (tok_col tok) (int (tok_len tok)) msg
       (token_desc (lx_src (pa_lex p)) tok)
       (if hint = None \<and> tok_kind tok = NY_T_EOF then Some ''check for missing ';' or unmatched brace'' else hint) p"

text \<open>\<open>parser_expect\<close> with \<open>parser_expect_slow\<close>.\<close>

definition parser_expect ::
  "'s sym_ops \<Rightarrow> token_kind \<Rightarrow> string option \<Rightarrow> string option \<Rightarrow> 's parser_t \<Rightarrow> 's parser_t outcome" where
  "parser_expect ops kind msg hint p =
     (if cur_kind p = kind then Ret (parser_advance ops p)
      else
        and_then
          (case msg of
             None \<Rightarrow>
               print_error_line (tok_filename (pa_cur p)) (tok_line (pa_cur p)) (tok_col (pa_cur p)) (int (tok_len (pa_cur p)))
                 (''expected '' @ parser_token_name kind) (token_desc (lx_src (pa_lex p)) (pa_cur p))
                 (case hint of None \<Rightarrow> Some ''check syntax'' | Some h \<Rightarrow> Some h) p
           | Some m \<Rightarrow> parser_error (pa_cur p) m hint p)
          (\<lambda>p1. Ret (if cur_kind p1 \<noteq> NY_T_EOF then parser_advance ops p1 else p1)))"

text \<open>A token before the first one, \<open>memset\<close> to zero.\<close>

definition zero_token :: token_t where
  "zero_token = \<lparr>tok_kind = NY_T_EOF, tok_lexeme = 0, tok_len = 0, tok_sym_id = 0, tok_hash = Some 0,
     tok_line = 0, tok_real_line = Some 0, tok_col = 0, tok_filename = None\<rparr>"

definition parser_init_with_arena_opts ::
  "'s sym_ops \<Rightarrow> string \<Rightarrow> string option \<Rightarrow> bool \<Rightarrow> 's \<Rightarrow> string limiter \<Rightarrow> 's parser_t" where
  "parser_init_with_arena_opts ops src filename quiet syms diags =
     (let file = (case filename of Some f \<Rightarrow> f | None \<Rightarrow> ''<input>'');
          lx = (lexer_init ops (Some src) (Some file) syms)\<lparr>lx_quiet := quiet\<rparr>
      in parser_advance ops
           \<lparr>pa_lex = lx, pa_cur = zero_token, pa_prev = zero_token, pa_filename = file, pa_current_impl_owner = None,
            pa_error_count = 0, pa_lex_error_count_seen = 0, pa_error_limit = 10, pa_had_error = False,
            pa_skipped_newline = False, pa_stop_expr_at_newline = False, pa_last_error_line = 0, pa_last_error_col = 0,
            pa_last_error_end_col = 0, pa_last_error_msg = [], pa_last_error_hint = [], pa_block_depth = 0,
            pa_loop_depth = 0, pa_quiet = quiet, pa_exit_on_limit = True, pa_diags = diags\<rparr>)"

end
