(* ===== verification/Parser_Ast.thy ===== *)
theory Parser_Ast
  imports Parser_Core Parser_Literals
begin

text \<open>
  The syntax trees of \<open>src/parse/ast.h\<close> that the modelled part of the parser builds, and what its functions
  share. A pointer that may be \<open>NULL\<close> is an option. Names are kept as texts, not as pointers to
  their interned copies.
\<close>

section \<open>Expressions and statements\<close>

datatype (dead 'f, dead 'x) expr =
    NY_E_IDENT token_t string nat "u64 option"
  | NY_E_LITERAL token_t "'f literal_t"
  | NY_E_UNARY token_t string "('f, 'x) expr option"
  | NY_E_BINARY token_t string "('f, 'x) expr option" "('f, 'x) expr option"
  | NY_E_LOGICAL token_t string "('f, 'x) expr option" "('f, 'x) expr option"
  | NY_E_TERNARY token_t "('f, 'x) expr option" "('f, 'x) expr option" "('f, 'x) expr option"
  | NY_E_CALL token_t "('f, 'x) expr option" "(string option \<times> ('f, 'x) expr option) list"
  | NY_E_MEMCALL token_t "('f, 'x) expr option" string "(string option \<times> ('f, 'x) expr option) list"
  | NY_E_INDEX token_t "('f, 'x) expr option" "('f, 'x) expr option" "('f, 'x) expr option" "('f, 'x) expr option"
  | NY_E_LAMBDA token_t "string option" "('f, 'x) param list" "('f, 'x) stmt option" bool
  | NY_E_FN token_t "string option" "('f, 'x) param list" "('f, 'x) stmt option" bool
  | NY_E_LIST token_t "('f, 'x) expr option list"
  | NY_E_TUPLE token_t "('f, 'x) expr option list"
  | NY_E_DICT token_t "(('f, 'x) expr option \<times> ('f, 'x) expr option) list"
  | NY_E_SET token_t "('f, 'x) expr option list"
  | NY_E_ASM token_t string string "('f, 'x) expr option list"
  | NY_E_COMPTIME token_t "('f, 'x) stmt"
  | NY_E_FSTRING token_t "('f, 'x) fpart list"
  | NY_E_INFERRED_MEMBER token_t string
  | NY_E_EMBED token_t string
  | NY_E_MATCH token_t "('f, 'x) expr option" "('f, 'x) arm list" "('f, 'x) stmt option"
  | NY_E_MEMBER token_t "('f, 'x) expr option" string
  | NY_E_DEREF token_t "('f, 'x) expr"
  | NY_E_SIZEOF token_t "('f, 'x) expr option" "string option"
  | NY_E_TRY token_t "('f, 'x) expr option"
and (dead 'f, dead 'x) param = Param "string option" string "('f, 'x) expr option"
and (dead 'f, dead 'x) fpart = FStr string | FExpr "('f, 'x) expr option"
and (dead 'f, dead 'x) arm = Arm "('f, 'x) expr list" "('f, 'x) expr option" "('f, 'x) stmt"
and (dead 'f, dead 'x) stmt =
    NY_S_BLOCK token_t bool "('f, 'x) stmt list"
  | NY_S_EXPR token_t "('f, 'x) expr option"
  | NY_S_RETURN token_t "('f, 'x) expr option"
  | NY_S_IF token_t "('f, 'x) stmt option" "('f, 'x) expr option" "('f, 'x) stmt option" "('f, 'x) stmt option"
  | NY_S_MATCH token_t "('f, 'x) expr option" "('f, 'x) arm list" "('f, 'x) stmt option"
  | NY_S_WHILE token_t "bool \<times> bool \<times> bool" "('f, 'x) stmt option" "('f, 'x) expr option" "('f, 'x) stmt option" "('f, 'x) stmt option"
  | NY_S_FOR token_t "bool \<times> bool \<times> bool" "('f, 'x) stmt option" "('f, 'x) expr option" "('f, 'x) stmt option" "('f, 'x) stmt option"
  | NY_S_FOR_IN token_t "bool \<times> bool \<times> bool" string "string option" "('f, 'x) expr option" "('f, 'x) stmt option"
  | NY_S_TRY token_t "('f, 'x) stmt" "string option" "('f, 'x) stmt"
  | NY_S_GOTO token_t string
  | NY_S_BREAK token_t
  | NY_S_CONTINUE token_t
  | NY_S_DEFER token_t "('f, 'x) stmt"
  | NY_S_VAR token_t "string list" "('f, 'x) expr option list" bool bool
  | NY_S_OTHER token_t 'x

end
