(* ===== verification/Parser_Names.thy ===== *)
theory Parser_Names
  imports Parser_Core
begin

text \<open>
  The loops of the parser over single tokens, and the names of types: \<open>src/parse/priv.h\<close> and the
  first part of \<open>src/parse/expr.c\<close>. A loop ends because each round reads a token, and the token
  that does not move the lexer is the end of the file.
\<close>

section \<open>Reading on\<close>

lemma advance_forward:
  "forward (pa_lex p) (pa_lex (parser_advance ops p))"
  "cur_kind (parser_advance ops p) \<noteq> NY_T_EOF \<Longrightarrow>
     lx_pos (pa_lex p) < lx_pos (pa_lex (parser_advance ops p)) \<and> lx_pos (pa_lex p) < length (lx_src (pa_lex p))"
  using lexer_next_moves [of "pa_lex p" ops]
  by (auto simp: parser_advance_def count_lex_errors_def Let_def split: prod.splits if_splits)

definition unread :: "'s parser_t \<Rightarrow> nat" where
  "unread p = length (lx_src (pa_lex p)) - lx_pos (pa_lex p) + (if cur_kind p = NY_T_EOF then 0 else 1)"

lemma unread_advance: "cur_kind p \<noteq> NY_T_EOF \<Longrightarrow> unread (parser_advance ops p) < unread p"
  using advance_forward(1) [of p ops] advance_forward(2) [of ops p] by (auto simp: unread_def forward_def)

function parser_sync_stmt_boundary :: "'s sym_ops \<Rightarrow> 's parser_t \<Rightarrow> 's parser_t" where
  "parser_sync_stmt_boundary ops p =
     (if cur_kind p \<noteq> NY_T_EOF \<and> cur_kind p \<noteq> Punct NY_T_SEMI \<and> cur_kind p \<noteq> Punct NY_T_RBRACE
      then parser_sync_stmt_boundary ops (parser_advance ops p)
      else if cur_kind p = Punct NY_T_SEMI then parser_advance ops p else p)"
  by pat_completeness auto
termination
  by (relation "measure (\<lambda>(ops, p). unread p)") (auto simp: unread_advance)

declare parser_sync_stmt_boundary.simps [simp del]

text \<open>\<open>while (parser_match(p, kind)) depth++\<close>, for a kind other than the end of the file.\<close>

function match_all :: "'s sym_ops \<Rightarrow> token_kind \<Rightarrow> 's parser_t \<Rightarrow> nat \<times> 's parser_t" where
  "match_all ops kind p =
     (if cur_kind p = kind \<and> kind \<noteq> NY_T_EOF
      then (case match_all ops kind (parser_advance ops p) of (n, p') \<Rightarrow> (Suc n, p'))
      else (0, p))"
  by pat_completeness auto
termination
  by (relation "measure (\<lambda>(ops, kind, p). unread p)") (auto simp: unread_advance)

declare match_all.simps [simp del]

text \<open>
  \<open>*p = save\<close>: everything but the global tables, the diagnostics and the symbols, is as before.
\<close>

definition restore :: "'s parser_t \<Rightarrow> 's parser_t \<Rightarrow> 's parser_t" where
  "restore save p =
     save\<lparr>pa_diags := pa_diags p, pa_lex := (pa_lex save)\<lparr>lx_syms := lx_syms (pa_lex p)\<rparr>\<rparr>"

text \<open>The parts of a name behind dots: the name, whether every dot is followed by a part, and the state.\<close>

definition name_kind :: "bool \<Rightarrow> token_kind \<Rightarrow> bool" where
  "name_kind numbers k \<longleftrightarrow> k = NY_T_IDENT \<or> numbers \<and> k = NY_T_NUMBER"

function dotted_parts :: "'s sym_ops \<Rightarrow> bool \<Rightarrow> string \<Rightarrow> 's parser_t \<Rightarrow> string \<times> bool \<times> 's parser_t" where
  "dotted_parts ops numbers name p =
     (if cur_kind p = Punct NY_T_DOT then
        (let p1 = parser_advance ops p
         in if name_kind numbers (cur_kind p1)
            then dotted_parts ops numbers (name @ ''.'' @ cur_text p1) (parser_advance ops p1)
            else (name, False, p1))
      else (name, True, p))"
  by pat_completeness auto
termination
proof (relation "measure (\<lambda>(ops, numbers, name, p). unread p)")
  fix ops :: "'s sym_ops" and numbers name and p p1 :: "'s parser_t"
  assume a: "cur_kind p = Punct NY_T_DOT" "p1 = parser_advance ops p" "name_kind numbers (cur_kind p1)"
  have "cur_kind p \<noteq> NY_T_EOF" "cur_kind p1 \<noteq> NY_T_EOF"
    using a(1,3) by (auto simp: name_kind_def)
  then show "((ops, numbers, name @ ''.'' @ cur_text p1, parser_advance ops p1), ops, numbers, name, p)
      \<in> measure (\<lambda>(ops, numbers, name, p). unread p)"
    using unread_advance [of p ops] unread_advance [of p1 ops] a(2) by simp
qed simp

declare dotted_parts.simps [simp del]

section \<open>Names of types\<close>

text \<open>
  \<open>strcmp(buf, "self") == 0\<close>. The buffer has no terminator yet: \<open>junk\<close> is what the allocated block holds behind
  the name.
\<close>

definition buf_is_self :: "string \<Rightarrow> string \<Rightarrow> bool" where
  "buf_is_self junk name \<longleftrightarrow> takeWhile (\<lambda>c. c \<noteq> NUL) (name @ junk) = ''self''"

definition impl_name :: "string \<Rightarrow> 's parser_t \<Rightarrow> string \<Rightarrow> string" where
  "impl_name junk p name =
     (case pa_current_impl_owner p of Some owner \<Rightarrow> if buf_is_self junk name then owner else name | None \<Rightarrow> name)"

text \<open>
  The name between the parentheses of \<open>sizeof\<close>, if it is one. The buffer has 64 bytes, and
  the first part is copied without looking at its length.
\<close>

definition parse_type_name :: "'s sym_ops \<Rightarrow> string \<Rightarrow> 's parser_t \<Rightarrow> (string option \<times> 's parser_t) outcome" where
  "parse_type_name ops junk save =
     (case match_all ops (Punct NY_T_QUESTION) save of
        (nullable_depth, p1) \<Rightarrow>
          (case match_all ops (Op NY_T_STAR) p1 of
             (ptr_depth, p2) \<Rightarrow>
               if cur_kind p2 \<noteq> NY_T_IDENT then Ret (None, restore save p2)
               else if tok_len (pa_cur p2) > 64 then Fault
               else
                 (case dotted_parts ops False (cur_text p2) (parser_advance ops p2) of
                    (name, complete, p3) \<Rightarrow>
                      if \<not> complete \<or> cur_kind p3 \<noteq> Punct NY_T_RPAREN then Ret (None, restore save p3)
                      else
                        Ret (Some (replicate nullable_depth (CHR ''?'') @ replicate ptr_depth (CHR ''*'') @ impl_name junk p3 name), p3))))"

text \<open>\<open>>>\<close> that closes two lists of arguments: the first half is read, the second becomes the token.\<close>

definition split_rshift :: "'s parser_t \<Rightarrow> 's parser_t" where
  "split_rshift p =
     (let tok = pa_cur p
      in p\<lparr>pa_cur := tok\<lparr>tok_kind := Op NY_T_GT, tok_lexeme := tok_lexeme tok + 1, tok_len := 1, tok_col := tok_col tok + 1\<rparr>\<rparr>)"

definition close_generic :: "'s sym_ops \<Rightarrow> 's parser_t \<Rightarrow> 's parser_t outcome" where
  "close_generic ops p =
     (if cur_kind p = Op NY_T_GT then Ret (parser_advance ops p)
      else if cur_kind p = Op NY_T_RSHIFT then Ret (split_rshift p)
      else parser_error (pa_cur p) (squote # ''>'' @ squote # '' after generic type arguments'') None p)"

text \<open>\<open>expr_parse_type_ref\<close>; the fuel bounds the nesting and the number of arguments.\<close>

fun expr_parse_type_ref ::
  "nat \<Rightarrow> 's sym_ops \<Rightarrow> string \<Rightarrow> string option \<Rightarrow> 's parser_t \<Rightarrow> (string option \<times> 's parser_t) outcome"
and generic_args ::
  "nat \<Rightarrow> 's sym_ops \<Rightarrow> string \<Rightarrow> bool \<Rightarrow> string \<Rightarrow> 's parser_t \<Rightarrow> (string \<times> 's parser_t) outcome" where
  "expr_parse_type_ref 0 ops junk err_msg p = Stuck"
| "expr_parse_type_ref (Suc n) ops junk err_msg p =
     (case match_all ops (Punct NY_T_QUESTION) p of
        (nullable_depth, p1) \<Rightarrow>
          (case match_all ops (Op NY_T_STAR) p1 of
             (ptr_depth, p2) \<Rightarrow>
               let prefix = replicate nullable_depth (CHR ''?'') @ replicate ptr_depth (CHR ''*'')
               in if \<not> name_kind True (cur_kind p2) then
                    and_then (parser_error (pa_cur p2) (case err_msg of None \<Rightarrow> ''expected type name'' | Some m \<Rightarrow> m) None p2)
                      (\<lambda>p3. Ret (None, p3))
                  else
                    (case dotted_parts ops True (cur_text p2) (parser_advance ops p2) of
                       (name, complete, p3) \<Rightarrow>
                         if \<not> complete then
                           and_then (parser_error (pa_cur p3) (''expected identifier after '' @ squote # ''.'' @ squote # '' in type'') None p3)
                             (\<lambda>p4. Ret (None, p4))
                         else
                           let name' = impl_name junk p3 name
                           in if cur_kind p3 = Op NY_T_LT then
                                and_then (generic_args n ops junk True (name' @ ''<'') (parser_advance ops p3))
                                  (\<lambda>(generic, p4). and_then (close_generic ops p4) (\<lambda>p5. Ret (Some (prefix @ generic @ ''>''), p5)))
                              else Ret (Some (prefix @ name'), p3))))"
| "generic_args 0 ops junk first generic p = Stuck"
| "generic_args (Suc n) ops junk first generic p =
     (if cur_kind p = Op NY_T_GT \<or> cur_kind p = Op NY_T_RSHIFT \<or> cur_kind p = NY_T_EOF then Ret (generic, p)
      else
        and_then (expr_parse_type_ref n ops junk (Some ''expected generic type argument'') p)
          (\<lambda>(arg, p1).
             case arg of
               None \<Rightarrow> Ret (generic, p1)
             | Some a \<Rightarrow>
                 let generic' = generic @ (if first then [] else '', '') @ a
                 in if cur_kind p1 = Punct NY_T_COMMA then generic_args n ops junk False generic' (parser_advance ops p1)
                    else Ret (generic', p1)))"

declare expr_parse_type_ref.simps [simp del] generic_args.simps [simp del]

definition builtin_type_names :: "string list" where
  "builtin_type_names =
     [''any'', ''int'', ''i8'', ''i16'', ''i32'', ''i64'', ''i128'', ''u8'', ''u16'', ''u32'', ''u64'', ''u128'', ''str'',
      ''char'', ''bool'', ''f32'', ''f64'', ''f128'', ''ptr'', ''fnptr'', ''number'', ''bigint'', ''bytes'', ''list'', ''dict'',
      ''set'', ''tuple'', ''range'', ''void'', ''seq'', ''handle'', ''vec2'', ''vec3'', ''vec4'']"

definition parser_token_is_builtin_type :: "'s parser_t \<Rightarrow> bool" where
  "parser_token_is_builtin_type p \<longleftrightarrow> cur_kind p = NY_T_IDENT \<and> cur_text p \<in> set builtin_type_names"

definition parser_type_ref_is_builtin_type :: "string option \<Rightarrow> bool" where
  "parser_type_ref_is_builtin_type type_name =
     (case type_name of
        None \<Rightarrow> False
      | Some t \<Rightarrow>
          t \<noteq> [] \<and>
          (let t1 = dropWhile (\<lambda>c. c = CHR ''?'' \<or> c = CHR ''*'') t
           in rev (takeWhile (\<lambda>c. c \<noteq> CHR ''.'') (rev t1)) \<in> set builtin_type_names))"

definition parser_token_can_start_type_ref :: "token_kind \<Rightarrow> bool" where
  "parser_token_can_start_type_ref k \<longleftrightarrow> k \<in> {NY_T_IDENT, NY_T_NUMBER, Punct NY_T_QUESTION, Op NY_T_STAR}"

definition parser_kind_after_return_type :: "token_kind \<Rightarrow> bool" where
  "parser_kind_after_return_type k \<longleftrightarrow>
     k \<in> {Punct NY_T_LBRACE, Op NY_T_ASSIGN, Punct NY_T_SEMI, Kw NY_T_AS, Kw NY_T_FN, Punct NY_T_RBRACE, NY_T_EOF}"

definition parser_parse_return_type_suffix ::
  "nat \<Rightarrow> 's sym_ops \<Rightarrow> string \<Rightarrow> string \<Rightarrow> 's parser_t \<Rightarrow> (string option \<times> 's parser_t) outcome" where
  "parser_parse_return_type_suffix n ops junk err_msg p =
     (if \<not> parser_token_can_start_type_ref (cur_kind p) then Ret (None, p)
      else
        and_then (expr_parse_type_ref n ops junk None (p\<lparr>pa_quiet := True\<rparr>))
          (\<lambda>(type, probe).
             let p1 = restore p probe
             in if type = None \<or> \<not> parser_kind_after_return_type (cur_kind probe) then Ret (None, p1)
                else expr_parse_type_ref n ops junk (Some err_msg) p1))"

text \<open>\<open>parser_parse_param_type_first\<close>: the type and the name of a parameter, or \<open>None\<close> after an error.\<close>

definition parser_parse_param_type_first ::
  "nat \<Rightarrow> 's sym_ops \<Rightarrow> string \<Rightarrow> 's parser_t \<Rightarrow> ((string option \<times> string) option \<times> 's parser_t) outcome" where
  "parser_parse_param_type_first n ops junk p0 =
     (case parser_peek ops p0 of
        (next, p) \<Rightarrow>
          if cur_kind p = NY_T_IDENT \<and> tok_kind next \<notin> {Punct NY_T_COLON, Punct NY_T_DOT, Op NY_T_LT, NY_T_IDENT}
          then Ret (Some (None, cur_text p), parser_advance ops p)
          else if \<not> parser_token_can_start_type_ref (cur_kind p) then
            and_then (parser_error (pa_cur p) ''param must be identifier or type'' None p) (\<lambda>p1. Ret (None, p1))
          else
            and_then (expr_parse_type_ref n ops junk (Some ''expected parameter type'') p)
              (\<lambda>(type, p1).
                 let p2 = snd (parser_match ops (Punct NY_T_COLON) p1)
                 in if cur_kind p2 \<noteq> NY_T_IDENT then
                      and_then (parser_error (pa_cur p2) ''expected parameter name after type''
                                 (Some (''write '' @ squote # ''Type name'' @ [squote])) p2)
                        (\<lambda>p3. Ret (None, p3))
                    else if parser_token_is_builtin_type p2 \<and> \<not> parser_type_ref_is_builtin_type type then
                      and_then (parser_error (pa_cur p2) ''typed parameters are type-first''
                                 (Some (''write '' @ squote # ''int value'' @ squote # '', not '' @ squote # ''value int'' @ [squote])) p2)
                        (\<lambda>p3. Ret (None, p3))
                    else Ret (Some (type, cur_text p2), parser_advance ops p2)))"

end
