(* ===== verification/Parser_Flow.thy ===== *)
theory Parser_Flow
  imports Parser_Ast Parser_Names
begin

text \<open>
  Blocks, conditionals and matches, from \<open>src/parse/stmtflow.c\<close>, \<open>src/parse/match.c\<close> and the statement
  parser of \<open>src/parse/stmt\<close>. The functions of the parser call each other; each of them takes a context
  with the functions it calls back and the fuel of its loops, and \<open>Parser_Stmt\<close> closes the recursion.
\<close>

section \<open>The context\<close>

type_synonym ('s, 'a) parsed = "('a \<times> 's parser_t) outcome"

record ('s, 'f, 'x) ctx =
  cx_ops :: "'s sym_ops"
  cx_strtod :: "string \<Rightarrow> 'f \<times> bool"
  cx_zero :: 'f
  cx_junk :: string
  cx_fuel :: nat
  cx_expr :: "int \<Rightarrow> 's parser_t \<Rightarrow> ('s, ('f, 'x) expr option) parsed"
  cx_unary :: "'s parser_t \<Rightarrow> ('s, ('f, 'x) expr option) parsed"
  cx_stmt :: "'s parser_t \<Rightarrow> ('s, ('f, 'x) stmt option) parsed"

abbreviation px_advance :: "('s, 'f, 'x) ctx \<Rightarrow> 's parser_t \<Rightarrow> 's parser_t" where
  "px_advance c p \<equiv> parser_advance (cx_ops c) p"

abbreviation px_match :: "('s, 'f, 'x) ctx \<Rightarrow> token_kind \<Rightarrow> 's parser_t \<Rightarrow> 's parser_t" where
  "px_match c k p \<equiv> snd (parser_match (cx_ops c) k p)"

abbreviation px_expect :: "('s, 'f, 'x) ctx \<Rightarrow> token_kind \<Rightarrow> string option \<Rightarrow> 's parser_t \<Rightarrow> 's parser_t outcome" where
  "px_expect c k msg p \<equiv> parser_expect (cx_ops c) k msg None p"

abbreviation px_sync :: "('s, 'f, 'x) ctx \<Rightarrow> 's parser_t \<Rightarrow> 's parser_t" where
  "px_sync c p \<equiv> parser_sync_stmt_boundary (cx_ops c) p"

abbreviation quoted :: "string \<Rightarrow> string" where
  "quoted w \<equiv> squote # w @ [squote]"

text \<open>An error, after which the function returns a value.\<close>

definition fail_with :: "token_t \<Rightarrow> string \<Rightarrow> string option \<Rightarrow> 'a \<Rightarrow> 's parser_t \<Rightarrow> ('s, 'a) parsed" where
  "fail_with tok msg hint v p = and_then (parser_error tok msg hint p) (\<lambda>p'. Ret (v, p'))"

definition int_node :: "token_t \<Rightarrow> i64 \<Rightarrow> ('f, 'x) expr" where
  "int_node tok v = NY_E_LITERAL tok \<lparr>lit_value = NY_LIT_INT v, lit_hint = NY_LIT_HINT_NONE, lit_hint_explicit = False\<rparr>"

text \<open>A call of a function that the parser names itself.\<close>

definition runtime_call ::
  "('s, 'f, 'x) ctx \<Rightarrow> token_t \<Rightarrow> string \<Rightarrow> u64 option \<Rightarrow> (string option \<times> ('f, 'x) expr option) list \<Rightarrow> 's parser_t \<Rightarrow>
     ('f, 'x) expr \<times> 's parser_t" where
  "runtime_call c tok name hash args p =
     (case sy_intern (cx_ops c) name (lx_syms (pa_lex p)) of
        (sid, syms) \<Rightarrow>
          (NY_E_CALL tok (Some (NY_E_IDENT tok name sid hash)) args, p\<lparr>pa_lex := (pa_lex p)\<lparr>lx_syms := syms\<rparr>\<rparr>))"

section \<open>Assignments through pointers\<close>

text \<open>The bytes of an operator token; the functions of \<open>expr.c\<close> and of \<open>stmt/core.c\<close> are the same.\<close>

definition stmt_token_is_assign_op :: "string \<Rightarrow> token_t \<Rightarrow> bool" where
  "stmt_token_is_assign_op src tok \<longleftrightarrow>
     tok_kind tok \<in> Op ` {NY_T_ASSIGN, NY_T_PLUS_EQ, NY_T_MINUS_EQ, NY_T_STAR_EQ, NY_T_SLASH_EQ, NY_T_PERCENT_EQ, NY_T_POW_EQ,
       NY_T_BITXOR_EQ, NY_T_LSHIFT_EQ, NY_T_RSHIFT_EQ} \<or>
     tok_text src tok \<in> {''+='', ''-='', ''*='', ''/='', ''%='', ''^=''}"

definition stmt_assign_op_is_plain :: "string \<Rightarrow> token_t \<Rightarrow> bool" where
  "stmt_assign_op_is_plain src tok \<longleftrightarrow> tok_kind tok = Op NY_T_ASSIGN \<or> tok_text src tok = ''=''"

definition stmt_assign_op_binary_kind :: "string \<Rightarrow> token_t \<Rightarrow> operator_kind" where
  "stmt_assign_op_binary_kind src tok =
     (let starts = (\<lambda>ch. tok_len tok = 2 \<and> src_at src (tok_lexeme tok) = ch); k = tok_kind tok
      in if k = Op NY_T_PLUS_EQ \<or> starts (CHR ''+'') then NY_T_PLUS
         else if k = Op NY_T_MINUS_EQ \<or> starts (CHR ''-'') then NY_T_MINUS
         else if k = Op NY_T_STAR_EQ \<or> starts (CHR ''*'') then NY_T_STAR
         else if k = Op NY_T_SLASH_EQ \<or> starts (CHR ''/'') then NY_T_SLASH
         else if k = Op NY_T_PERCENT_EQ \<or> starts (CHR ''%'') then NY_T_PERCENT
         else if k = Op NY_T_POW_EQ then NY_T_POW
         else if k = Op NY_T_BITXOR_EQ then NY_T_BITXOR
         else if k = Op NY_T_LSHIFT_EQ then NY_T_LSHIFT
         else if k = Op NY_T_RSHIFT_EQ then NY_T_RSHIFT
         else NY_T_PERCENT)"

text \<open>\<open>*target op= rhs\<close> as a call of the store.\<close>

definition store_call ::
  "('s, 'f, 'x) ctx \<Rightarrow> token_t \<Rightarrow> token_t \<Rightarrow> u64 option \<Rightarrow> ('f, 'x) expr \<Rightarrow> ('f, 'x) expr option \<Rightarrow> 's parser_t \<Rightarrow>
     ('f, 'x) expr \<times> 's parser_t" where
  "store_call c first assign_tok hash target rhs p =
     (let src = lx_src (pa_lex p);
          val = (if stmt_assign_op_is_plain src assign_tok then rhs
                 else Some (NY_E_BINARY zero_token (operator_name (stmt_assign_op_binary_kind src assign_tok))
                              (Some (NY_E_DEREF first target)) rhs))
      in runtime_call c first ''store64_i'' hash [(None, Some target), (None, val)] p)"

definition parse_assignment_rhs_expr :: "('s, 'f, 'x) ctx \<Rightarrow> 's parser_t \<Rightarrow> ('s, ('f, 'x) expr option) parsed" where
  "parse_assignment_rhs_expr c p =
     and_then (cx_expr c 0 (p\<lparr>pa_stop_expr_at_newline := True\<rparr>))
       (\<lambda>(rhs, p1). Ret (rhs, p1\<lparr>pa_stop_expr_at_newline := pa_stop_expr_at_newline p\<rparr>))"

definition parse_leading_deref_assign_stmt :: "('s, 'f, 'x) ctx \<Rightarrow> 's parser_t \<Rightarrow> ('s, ('f, 'x) stmt option) parsed" where
  "parse_leading_deref_assign_stmt c p =
     (if cur_kind p \<noteq> Op NY_T_STAR then Ret (None, p)
      else
        (case parser_peek (cx_ops c) p of
           (next, save) \<Rightarrow>
             if tok_kind next \<noteq> NY_T_IDENT then Ret (None, save)
             else
               let first = pa_cur save; p1 = px_advance c save; ident_tok = pa_cur p1;
                   target = NY_E_IDENT ident_tok (cur_text p1) (tok_sym_id ident_tok) (Some 0);
                   p2 = px_advance c p1; assign_tok = pa_cur p2
               in if \<not> stmt_token_is_assign_op (lx_src (pa_lex p2)) assign_tok then Ret (None, restore save p2)
                  else
                    and_then (parse_assignment_rhs_expr c (px_advance c p2))
                      (\<lambda>(rhs, p3).
                         let p4 = px_match c (Punct NY_T_SEMI) p3
                         in if rhs = None then fail_with assign_tok ''expected expression after dereference assignment'' None None p4
                            else
                              (case store_call c first assign_tok (Some 0) target rhs p4 of
                                 (call, p5) \<Rightarrow> Ret (Some (NY_S_EXPR first (Some call)), p5)))))"

section \<open>Blocks\<close>

fun push_flat :: "('f, 'x) stmt \<Rightarrow> ('f, 'x) stmt list" and push_all :: "('f, 'x) stmt list \<Rightarrow> ('f, 'x) stmt list" where
  "push_flat (NY_S_BLOCK tok transparent body) = (if transparent then push_all body else [NY_S_BLOCK tok transparent body])"
| "push_flat s = [s]"
| "push_all [] = []"
| "push_all (s # ss) = push_flat s @ push_all ss"

definition same_token :: "token_t \<Rightarrow> token_t \<Rightarrow> bool" where
  "same_token a b \<longleftrightarrow> tok_kind a = tok_kind b \<and> tok_lexeme a = tok_lexeme b \<and> tok_len a = tok_len b"

text \<open>A statement is appended, or the parser looks for the end of the wrong one.\<close>

definition parse_stmt_append_or_sync ::
  "('s, 'f, 'x) ctx \<Rightarrow> ('f, 'x) stmt list \<Rightarrow> 's parser_t \<Rightarrow> ('s, ('f, 'x) stmt list) parsed" where
  "parse_stmt_append_or_sync c out saved =
     and_then (parse_leading_deref_assign_stmt c saved)
       (\<lambda>(s0, p0).
          and_then (case s0 of None \<Rightarrow> cx_stmt c p0 | Some s \<Rightarrow> Ret (Some s, p0))
            (\<lambda>(s1, p1).
               and_then
                 (if cur_kind saved = Op NY_T_STAR \<and> stmt_token_is_assign_op (lx_src (pa_lex p1)) (pa_cur p1)
                  then parse_leading_deref_assign_stmt c (restore saved p1) else Ret (s1, p1))
                 (\<lambda>(s2, p2).
                    let p3 =
                          (case s2 of
                             Some s \<Rightarrow> p2
                           | None \<Rightarrow>
                               if pa_had_error p2 then
                                 (let q = px_sync c p2
                                  in if pa_block_depth q = 0 \<and> cur_kind q = Punct NY_T_RBRACE then px_advance c q else q)
                               else p2);
                        out' = (case s2 of Some s \<Rightarrow> out @ push_flat s | None \<Rightarrow> out);
                        p4 = (if same_token (pa_cur p3) (pa_cur saved) \<and> cur_kind p3 \<noteq> NY_T_EOF \<and> cur_kind p3 \<noteq> Punct NY_T_RBRACE
                              then px_advance c p3 else p3)
                    in Ret (out', p4))))"

definition parser_token_starts_file_level_decl :: "token_kind \<Rightarrow> bool" where
  "parser_token_starts_file_level_decl k \<longleftrightarrow>
     k \<in> {Kw NY_T_FN, Kw NY_T_USE, Kw NY_T_EXTERN, Kw NY_T_MODULE, Kw NY_T_STRUCT, Kw NY_T_ENUM, Kw NY_T_COMPTIME, Punct NY_T_AT}"

definition parser_block_allows_file_level_decls :: "string \<Rightarrow> token_t \<Rightarrow> bool" where
  "parser_block_allows_file_level_decls src lbrace =
     (let opened = take (tok_lexeme lbrace) src;
          start = length opened - length (takeWhile (\<lambda>ch. ch \<noteq> newline \<and> ch \<noteq> cr_char) (rev opened));
          line = start + length (takeWhile (\<lambda>ch. ch = CHR '' '' \<or> ch = tab_char) (drop start src))
      in src_at src line = CHR ''#'' \<or>
         line + 6 \<le> tok_lexeme lbrace \<and> src_slice src line 6 = ''module'' \<and>
         src_at src (line + 6) \<in> {CHR '' '', tab_char, CHR ''(''})"

definition parser_report_missing_rbrace_once :: "token_t \<Rightarrow> string \<Rightarrow> int \<Rightarrow> 's parser_t \<Rightarrow> 's parser_t outcome" where
  "parser_report_missing_rbrace_once at msg opened_line p =
     (if pa_last_error_line p = tok_line at \<and> pa_last_error_col p = tok_col at \<and> pa_last_error_msg p = msg then Ret p
      else
        parser_error at msg
          (Some (if tok_kind at = NY_T_EOF
                 then ''check for missing ';' or unmatched brace; close the block opened at line '' @ int_text opened_line
                 else ''close the block opened at line '' @ int_text opened_line @ '' before starting this top-level declaration'')) p)"

text \<open>The statements of a block, and whether the brace was found missing before a declaration.\<close>

fun block_loop ::
  "nat \<Rightarrow> ('s, 'f, 'x) ctx \<Rightarrow> token_t \<Rightarrow> bool \<Rightarrow> ('f, 'x) stmt list \<Rightarrow> 's parser_t \<Rightarrow> ('s, ('f, 'x) stmt list \<times> bool) parsed" where
  "block_loop 0 c tok allow out p = Stuck"
| "block_loop (Suc n) c tok allow out p =
     (if cur_kind p = Punct NY_T_RBRACE \<or> cur_kind p = NY_T_EOF then Ret ((out, False), p)
      else if \<not> allow \<and> tok_col (pa_cur p) \<le> 1 \<and> parser_token_starts_file_level_decl (cur_kind p) then
        and_then (parser_report_missing_rbrace_once (pa_cur p) (''missing '' @ quoted ''}'' @ '' before top-level declaration'') (tok_line tok) p)
          (\<lambda>p1. Ret ((out, True), p1))
      else and_then (parse_stmt_append_or_sync c out p) (\<lambda>(out', p1). block_loop n c tok allow out' p1))"

definition p_parse_block :: "('s, 'f, 'x) ctx \<Rightarrow> 's parser_t \<Rightarrow> ('s, ('f, 'x) stmt) parsed" where
  "p_parse_block c p =
     (let tok = pa_cur p
      in and_then (px_expect c (Punct NY_T_LBRACE) (Some (quoted ''{'')) p)
           (\<lambda>p1.
              let p2 = p1\<lparr>pa_block_depth := pa_block_depth p1 + 1\<rparr>
              in and_then (block_loop (cx_fuel c) c tok (parser_block_allows_file_level_decls (lx_src (pa_lex p2)) tok) [] p2)
                   (\<lambda>((body, recovered), p3).
                      let p4 = p3\<lparr>pa_block_depth := pa_block_depth p3 - 1\<rparr>
                      in and_then
                           (if cur_kind p4 = Punct NY_T_RBRACE then px_expect c (Punct NY_T_RBRACE) (Some (quoted ''}'')) p4
                            else if cur_kind p4 = NY_T_EOF
                            then parser_report_missing_rbrace_once (pa_cur p4) (''missing '' @ quoted ''}'' @ '' before end of file'') (tok_line tok) p4
                            else if \<not> recovered then px_expect c (Punct NY_T_RBRACE) (Some (quoted ''}'')) p4
                            else Ret p4)
                           (\<lambda>p5. Ret (NY_S_BLOCK tok False body, p5)))))"

definition ny_parse_stmt_or_block :: "('s, 'f, 'x) ctx \<Rightarrow> 's parser_t \<Rightarrow> ('s, ('f, 'x) stmt option) parsed" where
  "ny_parse_stmt_or_block c p =
     (if cur_kind p = Punct NY_T_LBRACE then and_then (p_parse_block c p) (\<lambda>(b, p1). Ret (Some b, p1))
      else
        and_then (cx_stmt c p)
          (\<lambda>(s, p1). Ret (case s of None \<Rightarrow> None | Some s' \<Rightarrow> Some (NY_S_BLOCK (pa_cur p) False [s']), p1)))"

section \<open>Conditionals\<close>

text \<open>A binding in the head of a conditional or a loop, and whether the head is in parentheses.\<close>

definition header_init :: "('s, 'f, 'x) ctx \<Rightarrow> 's parser_t \<Rightarrow> ('s, bool \<times> ('f, 'x) stmt option) parsed" where
  "header_init c p =
     (if cur_kind p = Punct NY_T_LPAREN then
        (case parser_peek (cx_ops c) p of
           (next, p1) \<Rightarrow>
             if tok_kind next = Kw NY_T_DEF \<or> tok_kind next = Kw NY_T_MUT then
               and_then (cx_stmt c (px_advance c p1)) (\<lambda>(s, p2). Ret ((True, s), px_match c (Punct NY_T_SEMI) p2))
             else Ret ((False, None), p1))
      else if cur_kind p = Kw NY_T_DEF \<or> cur_kind p = Kw NY_T_MUT then
        and_then (cx_stmt c p) (\<lambda>(s, p2). Ret ((False, s), px_match c (Punct NY_T_SEMI) p2))
      else Ret ((False, None), p))"

fun parse_if_internal :: "nat \<Rightarrow> ('s, 'f, 'x) ctx \<Rightarrow> token_t \<Rightarrow> 's parser_t \<Rightarrow> ('s, ('f, 'x) stmt) parsed" where
  "parse_if_internal 0 c tok p = Stuck"
| "parse_if_internal (Suc n) c tok p =
     and_then (header_init c p)
       (\<lambda>((header_paren, init), p1).
          and_then (cx_expr c 0 p1)
            (\<lambda>(test, p2).
               and_then (if header_paren then px_expect c (Punct NY_T_RPAREN) (Some (quoted '')'' @ '' after condition'')) p2 else Ret p2)
                 (\<lambda>p3.
                    and_then (ny_parse_stmt_or_block c p3)
                      (\<lambda>(conseq, p4).
                         let elif = (\<lambda>q. and_then (parse_if_internal n c (pa_cur q) (px_advance c q)) (\<lambda>(s, q1). Ret (Some s, q1)))
                         in and_then
                              (if cur_kind p4 = Kw NY_T_ELSE then
                                 (let p5 = px_advance c p4
                                  in if cur_kind p5 = Kw NY_T_IF then
                                       and_then (px_expect c (Kw NY_T_IF) (Some (quoted ''if'')) p5)
                                         (\<lambda>p6. and_then (parse_if_internal n c (pa_cur p5) p6) (\<lambda>(s, q). Ret (Some s, q)))
                                     else if cur_kind p5 = Kw NY_T_ELIF then elif p5
                                     else ny_parse_stmt_or_block c p5)
                               else if cur_kind p4 = Kw NY_T_ELIF then elif p4
                               else Ret (None, p4))
                              (\<lambda>(alt, p5). Ret (NY_S_IF tok init test conseq alt, p5))))))"

definition ny_parse_if_stmt :: "('s, 'f, 'x) ctx \<Rightarrow> 's parser_t \<Rightarrow> ('s, ('f, 'x) stmt) parsed" where
  "ny_parse_if_stmt c p =
     and_then (px_expect c (Kw NY_T_IF) (Some (quoted ''if'')) p) (\<lambda>p1. parse_if_internal (cx_fuel c) c (pa_cur p) p1)"

section \<open>Matches\<close>

definition ends_patterns :: "token_kind \<Rightarrow> bool" where
  "ends_patterns k \<longleftrightarrow>
     k \<in> {Kw NY_T_IF, Op NY_T_ARROW, Punct NY_T_COLON, Punct NY_T_LBRACE, Punct NY_T_RBRACE, Kw NY_T_ELSE, NY_T_EOF}"

text \<open>The patterns behind the first one, with or without a comma.\<close>

fun more_patterns :: "nat \<Rightarrow> ('s, 'f, 'x) ctx \<Rightarrow> ('f, 'x) expr list \<Rightarrow> 's parser_t \<Rightarrow> ('s, ('f, 'x) expr list) parsed" where
  "more_patterns 0 c pats p = Stuck"
| "more_patterns (Suc n) c pats p =
     (if cur_kind p \<noteq> Punct NY_T_COMMA \<and> ends_patterns (cur_kind p) then Ret (pats, p)
      else
        and_then (cx_expr c 0 (px_match c (Punct NY_T_COMMA) p))
          (\<lambda>(pat, p1).
             case pat of
               None \<Rightarrow> Ret (pats, px_sync c p1)
             | Some e \<Rightarrow> more_patterns n c (pats @ [e]) p1))"

definition match_conseq :: "('s, 'f, 'x) ctx \<Rightarrow> 's parser_t \<Rightarrow> ('s, ('f, 'x) stmt) parsed" where
  "match_conseq c p =
     (if cur_kind p = Op NY_T_ARROW then
        (let p1 = px_advance c p
         in if cur_kind p1 = Punct NY_T_LBRACE then p_parse_block c p1
            else
              and_then (cx_expr c 0 p1)
                (\<lambda>(e, p2). Ret (NY_S_BLOCK (pa_cur p1) False [NY_S_EXPR (pa_cur p1) e], px_match c (Punct NY_T_SEMI) p2)))
      else if cur_kind p = Punct NY_T_LBRACE then p_parse_block c p
      else
        and_then (parser_error (pa_cur p) (''expected '' @ quoted ''->'' @ '' or block after case patterns'') None p)
          (\<lambda>p1. Ret (NY_S_BLOCK (pa_cur p1) False [], px_sync c p1)))"

fun match_loop ::
  "nat \<Rightarrow> ('s, 'f, 'x) ctx \<Rightarrow> ('f, 'x) arm list \<Rightarrow> ('f, 'x) stmt option \<Rightarrow> 's parser_t \<Rightarrow>
     ('s, ('f, 'x) arm list \<times> ('f, 'x) stmt option) parsed" where
  "match_loop 0 c arms dflt p = Stuck"
| "match_loop (Suc n) c arms dflt p =
     (if cur_kind p = Punct NY_T_RBRACE \<or> cur_kind p = NY_T_EOF then Ret ((arms, dflt), p)
      else if cur_kind p = Kw NY_T_ELSE then
        and_then (p_parse_block c (px_advance c p)) (\<lambda>(b, p1). match_loop n c arms (Some b) p1)
      else
        and_then (cx_expr c 0 p)
          (\<lambda>(first, p1).
             case first of
               None \<Rightarrow> match_loop n c arms dflt (px_sync c p1)
             | Some e \<Rightarrow>
                 and_then (more_patterns (cx_fuel c) c [e] p1)
                   (\<lambda>(pats, p2).
                      and_then (if cur_kind p2 = Kw NY_T_IF then cx_expr c 0 (px_advance c p2) else Ret (None, p2))
                        (\<lambda>(guard, p3).
                           and_then (match_conseq c p3)
                             (\<lambda>(conseq, p4). match_loop n c (arms @ [Arm pats guard conseq]) dflt p4)))))"

definition p_parse_match ::
  "('s, 'f, 'x) ctx \<Rightarrow> 's parser_t \<Rightarrow> ('s, ('f, 'x) expr option \<times> ('f, 'x) arm list \<times> ('f, 'x) stmt option) parsed" where
  "p_parse_match c p =
     and_then (cx_expr c 0 (px_advance c p))
       (\<lambda>(test, p1).
          and_then (px_expect c (Punct NY_T_LBRACE) (Some (quoted ''{'')) p1)
            (\<lambda>p2.
               and_then (match_loop (cx_fuel c) c [] None p2)
                 (\<lambda>((arms, dflt), p3).
                    and_then (px_expect c (Punct NY_T_RBRACE) (Some (quoted ''}'')) p3) (\<lambda>p4. Ret ((test, arms, dflt), p4)))))"

end
