(* ===== verification/Parser_Expr.thy ===== *)
theory Parser_Expr
  imports Parser_Flow
begin

text \<open>
  The expression parser of \<open>src/parse/expr.c\<close>: primary expressions, postfix and prefix operators,
  and binary operators by precedence climbing.
\<close>

section \<open>Precedence\<close>

fun operator_precedence :: "operator_kind \<Rightarrow> int" where
  "operator_precedence NY_T_OR = 1"
| "operator_precedence NY_T_AND = 2"
| "operator_precedence NY_T_EQ = 3"
| "operator_precedence NY_T_NEQ = 3"
| "operator_precedence NY_T_LT = 4"
| "operator_precedence NY_T_GT = 4"
| "operator_precedence NY_T_LE = 4"
| "operator_precedence NY_T_GE = 4"
| "operator_precedence NY_T_PLUS = 5"
| "operator_precedence NY_T_MINUS = 5"
| "operator_precedence NY_T_STAR = 6"
| "operator_precedence NY_T_SLASH = 6"
| "operator_precedence NY_T_PERCENT = 6"
| "operator_precedence NY_T_POW = 8"
| "operator_precedence NY_T_BITOR = 7"
| "operator_precedence NY_T_BITAND = 7"
| "operator_precedence NY_T_BITXOR = 7"
| "operator_precedence NY_T_LSHIFT = 7"
| "operator_precedence NY_T_RSHIFT = 7"
| "operator_precedence _ = 0"

fun precedence :: "token_kind \<Rightarrow> int" where
  "precedence (Op k) = operator_precedence k"
| "precedence (Punct k) =
     (if k = NY_T_RANGE then 4 else if k = NY_T_PIPE then 1 else if k = NY_T_QUESTION_QUESTION then 2 else 0)"
| "precedence _ = 0"

text \<open>
  The look ahead from a question mark: whether a colon follows on the line, outside of brackets.
\<close>

fun colon_ahead :: "int \<Rightarrow> string \<Rightarrow> bool" where
  "colon_ahead depth [] = False"
| "colon_ahead depth (ch # s) =
     (if ch = newline \<or> ch = CHR '';'' then False
      else if ch \<in> set ''([{'' then colon_ahead (depth + 1) s
      else if ch \<in> set '')]}'' then colon_ahead (depth - 1) s
      else if ch = CHR '':'' \<and> depth = 0 then True
      else colon_ahead depth s)"

definition found_colon :: "'s parser_t \<Rightarrow> bool" where
  "found_colon p = colon_ahead 0 (drop (lx_pos (pa_lex p)) (lx_src (pa_lex p)))"

section \<open>Named fields\<close>

fun expr_is_type_like_ident :: "('f, 'x) expr option \<Rightarrow> bool" where
  "expr_is_type_like_ident (Some (NY_E_IDENT tok name sid hash)) =
     (let ch = src_at name 0 in char_le (CHR ''A'') ch \<and> char_le ch (CHR ''Z'') \<or> ch = CHR ''_'')"
| "expr_is_type_like_ident e = False"

text \<open>The look at two tokens works on a copy of the parser.\<close>

definition expr_lbrace_starts_named_fields :: "('s, 'f, 'x) ctx \<Rightarrow> 's parser_t \<Rightarrow> bool \<times> 's parser_t" where
  "expr_lbrace_starts_named_fields c p =
     (let scan = px_advance c p
      in if cur_kind scan \<noteq> NY_T_IDENT \<and> cur_kind scan \<noteq> NY_T_STRING then (False, restore p scan)
         else (let scan' = px_advance c scan in (cur_kind scan' = Punct NY_T_COLON, restore p scan')))"

function skip_braces :: "'s sym_ops \<Rightarrow> int \<Rightarrow> 's parser_t \<Rightarrow> 's parser_t" where
  "skip_braces ops depth p =
     (let p1 = parser_advance ops p;
          depth' = (if cur_kind p = Punct NY_T_LBRACE then depth + 1 else if cur_kind p = Punct NY_T_RBRACE then depth - 1 else depth)
      in if cur_kind p = Punct NY_T_RBRACE \<and> depth' \<le> 0 then p1
         else if cur_kind p1 \<noteq> NY_T_EOF then skip_braces ops depth' p1
         else p1)"
  by pat_completeness auto
termination
proof (relation "measure (\<lambda>(ops, depth, p). length (lx_src (pa_lex p)) - lx_pos (pa_lex p))")
  fix ops :: "'s sym_ops" and depth depth' :: int and p p1 :: "'s parser_t"
  assume "p1 = parser_advance ops p" "cur_kind p1 \<noteq> NY_T_EOF"
  then show "((ops, depth', p1), ops, depth, p) \<in> measure (\<lambda>(ops, depth, p). length (lx_src (pa_lex p)) - lx_pos (pa_lex p))"
    using advance_forward(1) [of p ops] advance_forward(2) [of ops p] by (auto simp: forward_def diff_less_mono2)
qed simp

declare skip_braces.simps [simp del]

definition expr_skip_balanced_brace :: "('s, 'f, 'x) ctx \<Rightarrow> 's parser_t \<Rightarrow> 's parser_t" where
  "expr_skip_balanced_brace c p = (if cur_kind p \<noteq> Punct NY_T_LBRACE then p else skip_braces (cx_ops c) 0 p)"

section \<open>Values of conditionals\<close>

text \<open>A token whose text is a constant of the program and not a part of the source.\<close>

definition constant_tok :: "token_t \<Rightarrow> token_kind \<Rightarrow> nat \<Rightarrow> token_t" where
  "constant_tok tok kind len = tok\<lparr>tok_kind := kind, tok_lexeme := 0, tok_len := len\<rparr>"

definition expr_nil_literal :: "token_t \<Rightarrow> ('f, 'x) expr" where
  "expr_nil_literal tok = int_node (constant_tok tok (Kw NY_T_NIL) 3) 0"

fun stmt_tok :: "('f, 'x) stmt \<Rightarrow> token_t" where
  "stmt_tok (NY_S_BLOCK t _ _) = t"
| "stmt_tok (NY_S_EXPR t _) = t"
| "stmt_tok (NY_S_RETURN t _) = t"
| "stmt_tok (NY_S_IF t _ _ _ _) = t"
| "stmt_tok (NY_S_MATCH t _ _ _) = t"
| "stmt_tok (NY_S_WHILE t _ _ _ _ _) = t"
| "stmt_tok (NY_S_FOR t _ _ _ _ _) = t"
| "stmt_tok (NY_S_FOR_IN t _ _ _ _ _) = t"
| "stmt_tok (NY_S_TRY t _ _ _) = t"
| "stmt_tok (NY_S_GOTO t _) = t"
| "stmt_tok (NY_S_BREAK t) = t"
| "stmt_tok (NY_S_CONTINUE t) = t"
| "stmt_tok (NY_S_DEFER t _) = t"
| "stmt_tok (NY_S_VAR t _ _ _ _) = t"
| "stmt_tok (NY_S_OTHER t _) = t"

definition error_if :: "bool \<Rightarrow> token_t \<Rightarrow> string \<Rightarrow> string option \<Rightarrow> 's parser_t \<Rightarrow> 's parser_t outcome" where
  "error_if b tok msg hint p = (if b then parser_error tok msg hint p else Ret p)"

function stmt_value_expr :: "token_t \<Rightarrow> string \<Rightarrow> ('f, 'x) stmt option \<Rightarrow> 's parser_t \<Rightarrow> ('s, ('f, 'x) expr) parsed" where
  "stmt_value_expr tok branch s0 p =
     (case s0 of
        None \<Rightarrow> Ret (expr_nil_literal tok, p)
      | Some s \<Rightarrow>
          (case s of
             NY_S_BLOCK t transparent body \<Rightarrow>
               (case body of
                  [] \<Rightarrow> Ret (expr_nil_literal tok, p)
                | [s1] \<Rightarrow> stmt_value_expr tok branch (Some s1) p
                | _ \<Rightarrow>
                    fail_with tok ''if expression branch must be a single value-producing statement''
                      (Some ''use a value expression in the branch or keep the multi-statement form as an if statement'')
                      (expr_nil_literal tok) p)
           | NY_S_EXPR t e \<Rightarrow> Ret (case e of Some v \<Rightarrow> v | None \<Rightarrow> expr_nil_literal tok, p)
           | NY_S_RETURN t e \<Rightarrow> Ret (case e of Some v \<Rightarrow> v | None \<Rightarrow> expr_nil_literal tok, p)
           | NY_S_IF t init test conseq alt \<Rightarrow>
               and_then (error_if (init \<noteq> None) t ''if expression does not support init bindings yet''
                          (Some ''bind the value before the if expression'') p)
                 (\<lambda>p1.
                    and_then (error_if (alt = None) t ''if expression requires an else branch''
                               (Some ''write if(cond){ value } else { fallback }'') p1)
                      (\<lambda>p2.
                         and_then (stmt_value_expr t ''then'' conseq p2)
                           (\<lambda>(then_expr, p3).
                              and_then (case alt of Some a \<Rightarrow> stmt_value_expr t ''else'' (Some a) p3 | None \<Rightarrow> Ret (expr_nil_literal t, p3))
                                (\<lambda>(else_expr, p4). Ret (NY_E_TERNARY t test (Some then_expr) (Some else_expr), p4)))))
           | _ \<Rightarrow>
               fail_with (stmt_tok s) (''if expression '' @ branch @ '' branch does not produce a value'')
                 (Some ''use an expression branch, for example if(cond){ value } else { fallback }'')
                 (expr_nil_literal (stmt_tok s)) p))"
  by pat_completeness auto
termination
  by (relation "measure (\<lambda>(tok, branch, s, p). case s of None \<Rightarrow> 0 | Some s' \<Rightarrow> Suc (size s'))") (auto split: option.splits)

declare stmt_value_expr.simps [simp del]

section \<open>Calls and members\<close>

fun call_args ::
  "nat \<Rightarrow> ('s, 'f, 'x) ctx \<Rightarrow> (string option \<times> ('f, 'x) expr option) list \<Rightarrow> 's parser_t \<Rightarrow>
     ('s, (string option \<times> ('f, 'x) expr option) list) parsed" where
  "call_args 0 c args p = Stuck"
| "call_args (Suc n) c args p =
     (if cur_kind p = Punct NY_T_RPAREN then Ret (args, p)
      else
        and_then
          (if cur_kind p = NY_T_IDENT then
             (case parser_peek (cx_ops c) p of
                (next, p1) \<Rightarrow>
                  if tok_kind next = Op NY_T_ASSIGN \<or> tok_kind next = Punct NY_T_COLON then
                    and_then (cx_expr c 0 (px_advance c (px_advance c p1))) (\<lambda>(v, p2). Ret ((Some (cur_text p1), v), p2))
                  else and_then (cx_expr c 0 p1) (\<lambda>(v, p2). Ret ((None, v), p2)))
           else and_then (cx_expr c 0 p) (\<lambda>(v, p2). Ret ((None, v), p2)))
          (\<lambda>(arg, p2).
             if cur_kind p2 = Punct NY_T_COMMA then call_args n c (args @ [arg]) (px_advance c p2)
             else Ret (args @ [arg], p2)))"

definition parse_call_arg_list ::
  "('s, 'f, 'x) ctx \<Rightarrow> string option \<Rightarrow> 's parser_t \<Rightarrow> ('s, (string option \<times> ('f, 'x) expr option) list) parsed" where
  "parse_call_arg_list c close_msg p =
     and_then (call_args (cx_fuel c) c [] p)
       (\<lambda>(args, p1). and_then (px_expect c (Punct NY_T_RPAREN) close_msg p1) (\<lambda>p2. Ret (args, p2)))"

text \<open>The name behind a dot, a member or the call of one; the parser stands on the name.\<close>

definition member_access ::
  "('s, 'f, 'x) ctx \<Rightarrow> string option \<Rightarrow> ('f, 'x) expr option \<Rightarrow> 's parser_t \<Rightarrow> ('s, ('f, 'x) expr) parsed" where
  "member_access c close_msg target p =
     (let id_tok = pa_cur p; name = cur_text p; p1 = px_advance c p
      in if cur_kind p1 = Punct NY_T_LPAREN then
           and_then (parse_call_arg_list c close_msg (px_advance c p1)) (\<lambda>(args, p2). Ret (NY_E_MEMCALL id_tok target name args, p2))
         else Ret (NY_E_MEMBER id_tok target name, p1))"

text \<open>\<open>[start:stop:step]\<close>; an omitted stop is the largest index.\<close>

definition parse_index :: "('s, 'f, 'x) ctx \<Rightarrow> ('f, 'x) expr option \<Rightarrow> 's parser_t \<Rightarrow> ('s, ('f, 'x) expr) parsed" where
  "parse_index c target p =
     (let p1 = px_advance c p; tok = pa_cur p1; colon = Punct NY_T_COLON; close = Punct NY_T_RBRACK
      in and_then
           (if cur_kind p1 = close then Ret ((None, None, None), p1)
            else
              and_then (if cur_kind p1 = colon then Ret (None, p1) else cx_expr c 0 p1)
                (\<lambda>(start, p2).
                   if cur_kind p2 \<noteq> colon then Ret ((start, None, None), p2)
                   else
                     let p3 = px_advance c p2
                     in and_then
                          (if cur_kind p3 = colon \<or> cur_kind p3 = close then Ret (Some (int_node (pa_cur p3) 0x3fffffff), p3)
                           else cx_expr c 0 p3)
                          (\<lambda>(stop, p4).
                             if cur_kind p4 \<noteq> colon then Ret ((start, stop, None), p4)
                             else
                               let p5 = px_advance c p4
                               in if cur_kind p5 = close then Ret ((start, stop, None), p5)
                                  else and_then (cx_expr c 0 p5) (\<lambda>(step, p6). Ret ((start, stop, step), p6)))))
           (\<lambda>((start, stop, step), p7).
              and_then (px_expect c close None p7) (\<lambda>p8. Ret (NY_E_INDEX tok target start stop step, p8))))"

section \<open>Primary expressions\<close>

definition expr_parse_dotted_ident :: "('s, 'f, 'x) ctx \<Rightarrow> string \<Rightarrow> 's parser_t \<Rightarrow> ('s, string option) parsed" where
  "expr_parse_dotted_ident c what p =
     (if \<not> name_kind True (cur_kind p) then fail_with (pa_cur p) what None None p
      else
        (case dotted_parts (cx_ops c) True (cur_text p) (px_advance c p) of
           (name, complete, p1) \<Rightarrow>
             if complete then Ret (Some name, p1)
             else fail_with (pa_cur p1) (''expected identifier after '' @ quoted ''.'') None None p1))"

definition expr_comptime_table_matcher :: "string \<Rightarrow> string" where
  "expr_comptime_table_matcher table_name =
     (let leaf = rev (takeWhile (\<lambda>ch. ch \<noteq> CHR ''.'') (rev table_name))
      in take (length table_name - length leaf) table_name @ ''_ct_table_'' @ leaf)"

definition parse_ct_table_match_expr :: "('s, 'f, 'x) ctx \<Rightarrow> token_t \<Rightarrow> 's parser_t \<Rightarrow> ('s, ('f, 'x) expr option) parsed" where
  "parse_ct_table_match_expr c tok p =
     and_then (expr_parse_dotted_ident c (''expected table name after '' @ quoted ''comptime match'') p)
       (\<lambda>(table, p1).
          case table of
            None \<Rightarrow> Ret (None, p1)
          | Some name \<Rightarrow>
              and_then (parser_expect (cx_ops c) (Punct NY_T_LPAREN) (Some (quoted ''('' @ '' after comptime match table name''))
                         (Some ''write comptime match Table(value, default)'') p1)
                (\<lambda>p2.
                   and_then (cx_expr c 0 p2)
                     (\<lambda>(key, p3).
                        and_then (px_expect c (Punct NY_T_COMMA) (Some (quoted '','' @ '' after comptime match key'')) p3)
                          (\<lambda>p4.
                             and_then (cx_expr c 0 p4)
                               (\<lambda>(fallback, p5).
                                  and_then (px_expect c (Punct NY_T_RPAREN) (Some (quoted '')'' @ '' after comptime match default'')) p5)
                                    (\<lambda>p6.
                                       let matcher = expr_comptime_table_matcher name
                                       in Ret (Some (NY_E_CALL tok
                                            (Some (NY_E_IDENT (constant_tok tok (tok_kind tok) (length matcher)) matcher 0 (Some 0)))
                                            [(None, key), (None, fallback)]), p6)))))))"

definition parse_comptime :: "('s, 'f, 'x) ctx \<Rightarrow> 's parser_t \<Rightarrow> ('s, ('f, 'x) expr option) parsed" where
  "parse_comptime c p =
     (let tok = pa_cur p; p1 = px_advance c p
      in if cur_kind p1 = Kw NY_T_MATCH then parse_ct_table_match_expr c tok (px_advance c p1)
         else
           and_then
             (if cur_kind p1 = Punct NY_T_LBRACE then p_parse_block c p1
              else and_then (cx_expr c 0 p1) (\<lambda>(v, p2). Ret (NY_S_BLOCK tok False [NY_S_RETURN tok v], p2)))
             (\<lambda>(body, p2). Ret (Some (NY_E_COMPTIME tok body), p2)))"

definition parse_ident :: "('s, 'f, 'x) ctx \<Rightarrow> 's parser_t \<Rightarrow> ('s, ('f, 'x) expr option) parsed" where
  "parse_ident c p =
     (let tok = pa_cur p; name = cur_text p; ident = NY_E_IDENT tok name (tok_sym_id tok) (tok_hash tok)
      in and_then (error_if (name = ''null'' \<or> name = ''None'') tok (''unrecognised identifier '' @ quoted name)
                    (Some (''did you mean '' @ quoted ''0'' @ '' or '' @ quoted ''nil'' @ ''?'')) (px_advance c p))
           (\<lambda>p1.
              if name = ''expand'' then and_then (cx_expr c 0 p1) (\<lambda>(arg, p2). Ret (Some (NY_E_CALL tok (Some ident) [(None, arg)]), p2))
              else Ret (Some ident, p1)))"

fun report :: "token_t \<Rightarrow> string list \<Rightarrow> 's parser_t \<Rightarrow> 's parser_t outcome" where
  "report tok [] p = Ret p"
| "report tok (msg # msgs) p = and_then (parser_error tok msg None p) (report tok msgs)"

definition parse_number :: "('s, 'f, 'x) ctx \<Rightarrow> 's parser_t \<Rightarrow> ('s, ('f, 'x) expr option) parsed" where
  "parse_number c p =
     (case number_literal (cx_strtod c) (cx_zero c) (cur_text p) of
        (lit, msgs) \<Rightarrow> and_then (report (pa_cur p) msgs (px_advance c p)) (\<lambda>p1. Ret (Some (NY_E_LITERAL (pa_cur p) lit), p1)))"

definition parse_sizeof :: "('s, 'f, 'x) ctx \<Rightarrow> 's parser_t \<Rightarrow> ('s, ('f, 'x) expr option) parsed" where
  "parse_sizeof c p =
     and_then (px_expect c (Punct NY_T_LPAREN) (Some (quoted ''('')) (px_advance c p))
       (\<lambda>p1.
          and_then (parse_type_name (cx_ops c) (cx_junk c) p1)
            (\<lambda>(type_name, p2).
               and_then (case type_name of None \<Rightarrow> cx_expr c 0 p2 | Some t \<Rightarrow> Ret (None, p2))
                 (\<lambda>(target, p3).
                    and_then (px_expect c (Punct NY_T_RPAREN) (Some (quoted '')'')) p3)
                      (\<lambda>p4. Ret (Some (NY_E_SIZEOF (pa_cur p) target type_name), p4)))))"

text \<open>
  The expressions of an f-string are read by parsers of their own. What comes back from them is the tree
  and the global tables: their errors are not counted in the parser that reads the string.
\<close>

fun fstring_exprs :: "('s, 'f, 'x) ctx \<Rightarrow> fstring_part list \<Rightarrow> 's parser_t \<Rightarrow> ('s, ('f, 'x) fpart list) parsed" where
  "fstring_exprs c [] p = Ret ([], p)"
| "fstring_exprs c (NY_FSP_STR w # parts) p = and_then (fstring_exprs c parts p) (\<lambda>(ps, p1). Ret (FStr w # ps, p1))"
| "fstring_exprs c (NY_FSP_EXPR src # parts) p =
     (let sub = parser_init_with_arena_opts (cx_ops c) src (lx_filename (pa_lex p)) (pa_quiet p) (lx_syms (pa_lex p)) (pa_diags p)
      in and_then (cx_expr c 0 sub)
           (\<lambda>(e, sub').
              and_then (fstring_exprs c parts (restore p sub')) (\<lambda>(ps, p1). Ret (FExpr e # ps, p1))))"

definition parse_fstring_expr :: "('s, 'f, 'x) ctx \<Rightarrow> 's parser_t \<Rightarrow> ('s, ('f, 'x) expr option) parsed" where
  "parse_fstring_expr c p =
     (case parse_fstring (cur_text p) of
        (parts, unterminated) \<Rightarrow>
          and_then (fstring_exprs c parts (px_advance c p))
            (\<lambda>(ps, p1).
               and_then (error_if unterminated (pa_cur p) ''unterminated interpolation in f-string'' None p1)
                 (\<lambda>p2. Ret (Some (NY_E_FSTRING (pa_cur p) ps), p2))))"

text \<open>\<open>, e\<close> as often as it comes; a comma may stand before the closing token.\<close>

fun comma_items ::
  "nat \<Rightarrow> ('s, 'f, 'x) ctx \<Rightarrow> token_kind option \<Rightarrow> ('f, 'x) expr option list \<Rightarrow> 's parser_t \<Rightarrow> ('s, ('f, 'x) expr option list) parsed" where
  "comma_items 0 c close es p = Stuck"
| "comma_items (Suc n) c close es p =
     (if cur_kind p \<noteq> Punct NY_T_COMMA then Ret (es, p)
      else
        let p1 = px_advance c p
        in if Some (cur_kind p1) = close then Ret (es, p1)
           else and_then (cx_expr c 0 p1) (\<lambda>(e, p2). comma_items n c close (es @ [e]) p2))"

fun comma_pairs ::
  "nat \<Rightarrow> ('s, 'f, 'x) ctx \<Rightarrow> (('f, 'x) expr option \<times> ('f, 'x) expr option) list \<Rightarrow> 's parser_t \<Rightarrow>
     ('s, (('f, 'x) expr option \<times> ('f, 'x) expr option) list) parsed" where
  "comma_pairs 0 c es p = Stuck"
| "comma_pairs (Suc n) c es p =
     (if cur_kind p \<noteq> Punct NY_T_COMMA then Ret (es, p)
      else
        let p1 = px_advance c p
        in if cur_kind p1 = Punct NY_T_RBRACE then Ret (es, p1)
           else
             and_then (cx_expr c 0 p1)
               (\<lambda>(k, p2).
                  and_then (px_expect c (Punct NY_T_COLON) None p2)
                    (\<lambda>p3. and_then (cx_expr c 0 p3) (\<lambda>(v, p4). comma_pairs n c (es @ [(k, v)]) p4))))"

text \<open>A sequence that has begun, up to the token that closes it.\<close>

definition items_until ::
  "('s, 'f, 'x) ctx \<Rightarrow> token_kind \<Rightarrow> (('f, 'x) expr option list \<Rightarrow> ('f, 'x) expr) \<Rightarrow> ('f, 'x) expr option list \<Rightarrow> 's parser_t \<Rightarrow>
     ('s, ('f, 'x) expr option) parsed" where
  "items_until c close node es p =
     and_then (comma_items (cx_fuel c) c (Some close) es p)
       (\<lambda>(es', p1). and_then (px_expect c close None p1) (\<lambda>p2. Ret (Some (node es'), p2)))"

definition parse_paren :: "('s, 'f, 'x) ctx \<Rightarrow> 's parser_t \<Rightarrow> ('s, ('f, 'x) expr option) parsed" where
  "parse_paren c p =
     (let tok = pa_cur p; p1 = px_advance c p; close = Punct NY_T_RPAREN
      in if cur_kind p1 = close then Ret (Some (NY_E_TUPLE tok []), px_advance c p1)
         else
           and_then (cx_expr c 0 p1)
             (\<lambda>(inner, p2).
                if cur_kind p2 = Punct NY_T_COMMA then items_until c close (NY_E_TUPLE tok) [inner] p2
                else and_then (px_expect c close None p2) (\<lambda>p3. Ret (inner, p3))))"

definition parse_list :: "('s, 'f, 'x) ctx \<Rightarrow> 's parser_t \<Rightarrow> ('s, ('f, 'x) expr option) parsed" where
  "parse_list c p =
     (let tok = pa_cur p; p1 = px_advance c p; close = Punct NY_T_RBRACK
      in if cur_kind p1 = close then and_then (px_expect c close None p1) (\<lambda>p2. Ret (Some (NY_E_LIST tok []), p2))
         else and_then (cx_expr c 0 p1) (\<lambda>(e, p2). items_until c close (NY_E_LIST tok) [e] p2))"

definition parse_dict_or_set :: "('s, 'f, 'x) ctx \<Rightarrow> 's parser_t \<Rightarrow> ('s, ('f, 'x) expr option) parsed" where
  "parse_dict_or_set c p =
     (let tok = pa_cur p; p1 = px_advance c p; close = Punct NY_T_RBRACE
      in if cur_kind p1 = close then and_then (px_expect c close None p1) (\<lambda>p2. Ret (Some (NY_E_DICT tok []), p2))
         else
           and_then (cx_expr c 0 p1)
             (\<lambda>(first, p2).
                if cur_kind p2 = Punct NY_T_COLON then
                  and_then (cx_expr c 0 (px_advance c p2))
                    (\<lambda>(v, p3).
                       and_then (comma_pairs (cx_fuel c) c [(first, v)] p3)
                         (\<lambda>(pairs, p4). and_then (px_expect c close None p4) (\<lambda>p5. Ret (Some (NY_E_DICT tok pairs), p5))))
                else items_until c close (NY_E_SET tok) [first] p2))"

text \<open>A string argument of \<open>asm\<close> or \<open>embed\<close>: the token at hand, whatever it is, is decoded.\<close>

definition string_arg :: "('s, 'f, 'x) ctx \<Rightarrow> string \<Rightarrow> 's parser_t \<Rightarrow> ('s, string) parsed" where
  "string_arg c msg p =
     and_then (px_expect c NY_T_STRING (Some msg) p) (\<lambda>p1. Ret (parser_decode_string (cur_text p), p1))"

definition parse_asm :: "('s, 'f, 'x) ctx \<Rightarrow> 's parser_t \<Rightarrow> ('s, ('f, 'x) expr option) parsed" where
  "parse_asm c p =
     and_then (px_expect c (Punct NY_T_LPAREN) None (px_advance c p))
       (\<lambda>p1.
          and_then (string_arg c ''assembly code string'' p1)
            (\<lambda>(code, p2).
               and_then (if cur_kind p2 = Punct NY_T_COMMA then string_arg c ''constraints string'' (px_advance c p2) else Ret ([], p2))
                 (\<lambda>(constraints, p3).
                    and_then (comma_items (cx_fuel c) c None [] p3)
                      (\<lambda>(args, p4).
                         and_then (px_expect c (Punct NY_T_RPAREN) None p4)
                           (\<lambda>p5. Ret (Some (NY_E_ASM (pa_cur p) code constraints args), p5))))))"

definition parse_embed :: "('s, 'f, 'x) ctx \<Rightarrow> 's parser_t \<Rightarrow> ('s, ('f, 'x) expr option) parsed" where
  "parse_embed c p =
     and_then (px_expect c (Punct NY_T_LPAREN) None (px_advance c p))
       (\<lambda>p1.
          and_then (string_arg c ''file path string'' p1)
            (\<lambda>(path, p2).
               and_then (px_expect c (Punct NY_T_RPAREN) None p2) (\<lambda>p3. Ret (Some (NY_E_EMBED (pa_cur p) path), p3))))"

text \<open>
  The parameters of a function; the result says whether the last one takes all further arguments,
  and whether an error ended the list.
\<close>

fun lambda_params ::
  "nat \<Rightarrow> ('s, 'f, 'x) ctx \<Rightarrow> ('f, 'x) param list \<Rightarrow> 's parser_t \<Rightarrow> ('s, ('f, 'x) param list \<times> bool \<times> bool) parsed" where
  "lambda_params 0 c params p = Stuck"
| "lambda_params (Suc n) c params p =
     (if cur_kind p = Punct NY_T_RPAREN then Ret ((params, False, False), p)
      else
        let variadic = (cur_kind p = Punct NY_T_ELLIPSIS)
        in and_then (parser_parse_param_type_first (cx_fuel c) (cx_ops c) (cx_junk c) (px_match c (Punct NY_T_ELLIPSIS) p))
             (\<lambda>(pr, p1).
                case pr of
                  None \<Rightarrow> Ret ((params, variadic, True), p1)
                | Some (type, name) \<Rightarrow>
                    and_then (if cur_kind p1 = Op NY_T_ASSIGN then cx_expr c 0 (px_advance c p1) else Ret (None, p1))
                      (\<lambda>(dflt, p2).
                         let params' = params @ [Param type name dflt]
                         in if variadic then
                              and_then (error_if (cur_kind p2 = Punct NY_T_COMMA) (pa_cur p2) ''variadic parameter must be the last one'' None p2)
                                (\<lambda>p3. Ret ((params', True, False), p3))
                            else if cur_kind p2 \<noteq> Punct NY_T_COMMA then Ret ((params', False, False), p2)
                            else lambda_params n c params' (px_advance c p2))))"

definition lambda_return_type :: "('s, 'f, 'x) ctx \<Rightarrow> 's parser_t \<Rightarrow> ('s, string option) parsed" where
  "lambda_return_type c p =
     (if cur_kind p = Punct NY_T_COLON then
        (let p1 = px_advance c p
         in and_then (parser_error (pa_prev p1) ''old function return separator''
                       (Some (''write '' @ quoted ''fn(params) RetType { ... }'' @ '', without '' @ quoted '':'')) p1)
              (\<lambda>p2.
                 if cur_kind p2 \<notin> {Punct NY_T_LBRACE, Op NY_T_ASSIGN, NY_T_EOF}
                 then and_then (expr_parse_type_ref (cx_fuel c) (cx_ops c) (cx_junk c) (Some ''expected return type'') p2) (\<lambda>(t, p3). Ret (None, p3))
                 else Ret (None, p2)))
      else if cur_kind p = Op NY_T_ARROW then
        and_then (parser_error (pa_cur p) (''function return types do not use '' @ quoted ''->'')
                   (Some (''write '' @ quoted ''fn(params) RetType { ... }'')) p)
          (\<lambda>p1.
             and_then (expr_parse_type_ref (cx_fuel c) (cx_ops c) (cx_junk c) (Some (''expected return type after '' @ quoted ''->'')) (px_advance c p1))
               (\<lambda>(t, p2). Ret (None, p2)))
      else parser_parse_return_type_suffix (cx_fuel c) (cx_ops c) (cx_junk c) ''expected return type'' p)"

definition lambda_body :: "('s, 'f, 'x) ctx \<Rightarrow> 's parser_t \<Rightarrow> ('s, ('f, 'x) stmt) parsed" where
  "lambda_body c p =
     (if cur_kind p = Punct NY_T_LBRACE then p_parse_block c p
      else
        and_then (cx_expr c 0 p)
          (\<lambda>(e, p1). Ret (NY_S_BLOCK (pa_cur p) False (case e of None \<Rightarrow> [] | Some v \<Rightarrow> [NY_S_RETURN (pa_cur p) (Some v)]), p1)))"

definition parse_lambda :: "('s, 'f, 'x) ctx \<Rightarrow> 's parser_t \<Rightarrow> ('s, ('f, 'x) expr option) parsed" where
  "parse_lambda c p =
     (let tok = pa_cur p; node = (if tok_kind tok = Kw NY_T_FN then NY_E_FN tok else NY_E_LAMBDA tok)
      in and_then (px_expect c (Punct NY_T_LPAREN) None (px_advance c p))
           (\<lambda>p1.
              and_then (lambda_params (cx_fuel c) c [] p1)
                (\<lambda>((params, variadic, failed), p2).
                   if failed then Ret (Some (node None params None variadic), p2)
                   else
                     and_then (px_expect c (Punct NY_T_RPAREN) None p2)
                       (\<lambda>p3.
                          and_then (lambda_return_type c p3)
                            (\<lambda>(return_type, p4).
                               and_then (lambda_body c p4)
                                 (\<lambda>(body, p5). Ret (Some (node return_type params (Some body) variadic), p5)))))))"

definition parse_dot_member :: "('s, 'f, 'x) ctx \<Rightarrow> 's parser_t \<Rightarrow> ('s, ('f, 'x) expr option) parsed" where
  "parse_dot_member c p =
     (let p1 = px_advance c p
      in if cur_kind p1 \<noteq> NY_T_IDENT then fail_with (pa_cur p1) ''member access expects identifier'' None None p1
         else Ret (Some (NY_E_INFERRED_MEMBER (pa_cur p) (cur_text p1)), px_advance c p1))"

definition literal_node :: "token_t \<Rightarrow> 'f lit_value \<Rightarrow> ('f, 'x) expr" where
  "literal_node tok v = NY_E_LITERAL tok \<lparr>lit_value = v, lit_hint = NY_LIT_HINT_NONE, lit_hint_explicit = False\<rparr>"

definition parse_primary :: "('s, 'f, 'x) ctx \<Rightarrow> 's parser_t \<Rightarrow> ('s, ('f, 'x) expr option) parsed" where
  "parse_primary c p =
     (let tok = pa_cur p
      in case tok_kind tok of
           Kw NY_T_COMPTIME \<Rightarrow> parse_comptime c p
         | NY_T_IDENT \<Rightarrow> parse_ident c p
         | NY_T_NUMBER \<Rightarrow> parse_number c p
         | Kw NY_T_TRUE \<Rightarrow> Ret (Some (literal_node tok (NY_LIT_BOOL True)), px_advance c p)
         | Kw NY_T_FALSE \<Rightarrow> Ret (Some (literal_node tok (NY_LIT_BOOL False)), px_advance c p)
         | Kw NY_T_NIL \<Rightarrow> Ret (Some (int_node tok 0), px_advance c p)
         | Kw NY_T_SIZEOF \<Rightarrow> parse_sizeof c p
         | NY_T_STRING \<Rightarrow> Ret (Some (literal_node tok (NY_LIT_STR (parser_decode_string (cur_text p)))), px_advance c p)
         | NY_T_FSTRING \<Rightarrow> parse_fstring_expr c p
         | Kw NY_T_MATCH \<Rightarrow> and_then (p_parse_match c p) (\<lambda>((test, arms, dflt), p1). Ret (Some (NY_E_MATCH tok test arms dflt), p1))
         | Kw NY_T_IF \<Rightarrow>
             and_then (ny_parse_if_stmt c p)
               (\<lambda>(s, p1). and_then (stmt_value_expr tok [] (Some s) p1) (\<lambda>(e, p2). Ret (Some e, p2)))
         | Punct NY_T_DOT \<Rightarrow> parse_dot_member c p
         | Punct NY_T_LPAREN \<Rightarrow> parse_paren c p
         | Punct NY_T_LBRACK \<Rightarrow> parse_list c p
         | Punct NY_T_LBRACE \<Rightarrow> parse_dict_or_set c p
         | Kw NY_T_ASM \<Rightarrow> parse_asm c p
         | Kw NY_T_EMBED \<Rightarrow> parse_embed c p
         | Kw NY_T_LAMBDA \<Rightarrow> parse_lambda c p
         | Kw NY_T_FN \<Rightarrow> parse_lambda c p
         | Op NY_T_ASSIGN \<Rightarrow>
             fail_with tok (''unexpected '' @ quoted ''='') (Some (''did you mean '' @ quoted ''=='' @ ''?'')) None p
         | k \<Rightarrow> fail_with tok (take 63 (''unexpected token '' @ quoted (parser_token_name k))) None None p)"

section \<open>Postfix and prefix operators\<close>

text \<open>\<open>target?.name\<close>: the target stands in the condition and in the access.\<close>

definition optional_access :: "('s, 'f, 'x) ctx \<Rightarrow> token_t \<Rightarrow> ('f, 'x) expr option \<Rightarrow> 's parser_t \<Rightarrow> ('s, ('f, 'x) expr) parsed" where
  "optional_access c qdot_tok target p =
     and_then (member_access c None target p)
       (\<lambda>(access, p1).
          Ret (NY_E_TERNARY qdot_tok target (Some access) (Some (int_node (constant_tok zero_token (Kw NY_T_NIL) 3) 0)), p1))"

fun postfix_loop :: "nat \<Rightarrow> ('s, 'f, 'x) ctx \<Rightarrow> ('f, 'x) expr option \<Rightarrow> 's parser_t \<Rightarrow> ('s, ('f, 'x) expr option) parsed" where
  "postfix_loop 0 c e p = Stuck"
| "postfix_loop (Suc n) c e p =
     (let again = (\<lambda>r. and_then r (\<lambda>(e', p'). postfix_loop n c (Some e') p')); k = cur_kind p
      in if k = Punct NY_T_QUESTION then
           (if found_colon p then Ret (e, p) else again (Ret (NY_E_TRY (pa_cur p) e, px_advance c p)))
         else if k = Punct NY_T_LPAREN then
           (if pa_skipped_newline p then Ret (e, p)
            else
              let p1 = px_advance c p
              in again (and_then (parse_call_arg_list c None p1) (\<lambda>(args, p2). Ret (NY_E_CALL (pa_cur p1) e args, p2))))
         else if k = Punct NY_T_DOT then
           (let p1 = px_advance c p
            in if cur_kind p1 \<noteq> NY_T_IDENT then fail_with (pa_cur p1) ''member access expects identifier'' None e p1
               else again (member_access c None e p1))
         else if k = Punct NY_T_QUESTION_DOT then
           (let p1 = px_advance c p
            in if cur_kind p1 \<noteq> NY_T_IDENT then fail_with (pa_cur p1) ''optional access expects identifier'' None e p1
               else again (optional_access c (pa_cur p) e p1))
         else if k = Punct NY_T_LBRACK then
           (if pa_skipped_newline p then Ret (e, p) else again (parse_index c e p))
         else if k = Punct NY_T_LBRACE \<and> \<not> pa_skipped_newline p \<and> expr_is_type_like_ident e then
           (case expr_lbrace_starts_named_fields c p of
              (named, p1) \<Rightarrow>
                if named then
                  and_then (parser_error (pa_cur p1) ''named-field struct literals are not supported''
                             (Some ''use Type(value, value) positional constructor syntax'') p1)
                    (\<lambda>p2. Ret (e, expr_skip_balanced_brace c p2))
                else Ret (e, p1))
         else Ret (e, p))"

definition parse_postfix :: "('s, 'f, 'x) ctx \<Rightarrow> 's parser_t \<Rightarrow> ('s, ('f, 'x) expr option) parsed" where
  "parse_postfix c p = and_then (parse_primary c p) (\<lambda>(e, p1). postfix_loop (cx_fuel c) c e p1)"

definition starts_expr :: "token_kind \<Rightarrow> bool" where
  "starts_expr k \<longleftrightarrow>
     k \<in> {NY_T_IDENT, NY_T_NUMBER, NY_T_STRING, NY_T_FSTRING} \<union>
         Kw ` {NY_T_TRUE, NY_T_FALSE, NY_T_NIL, NY_T_SIZEOF, NY_T_COMPTIME, NY_T_MATCH, NY_T_ASM, NY_T_EMBED, NY_T_LAMBDA, NY_T_FN} \<union>
         Punct ` {NY_T_DOT, NY_T_LBRACK, NY_T_LBRACE} \<union> Op ` {NY_T_MINUS, NY_T_NOT, NY_T_BITAND, NY_T_BITNOT}"

text \<open>A prefix operator on what the operand parser returns.\<close>

definition prefix_op :: "token_t \<Rightarrow> string \<Rightarrow> string \<Rightarrow> ('s, ('f, 'x) expr option) parsed \<Rightarrow> ('s, ('f, 'x) expr option) parsed" where
  "prefix_op tok op msg operand =
     and_then operand
       (\<lambda>(e, p1). if e = None then fail_with tok msg None None p1 else Ret (Some (NY_E_UNARY tok op e), p1))"

definition parse_borrow :: "('s, 'f, 'x) ctx \<Rightarrow> 's parser_t \<Rightarrow> ('s, ('f, 'x) expr option) parsed" where
  "parse_borrow c p =
     and_then (cx_unary c (px_advance c p))
       (\<lambda>(arg, p1).
          if arg = None then fail_with (pa_cur p) (''expected expression after borrow operator '' @ quoted ''&'') None None p1
          else
            (case runtime_call c (pa_cur p) ''borrow'' (Some (ny_hash64 (map byte_of ''borrow''))) [(None, arg)] p1 of
               (call, p2) \<Rightarrow> Ret (Some call, p2)))"

definition parse_deref :: "('s, 'f, 'x) ctx \<Rightarrow> 's parser_t \<Rightarrow> ('s, ('f, 'x) expr option) parsed" where
  "parse_deref c p =
     and_then (cx_unary c (px_advance c p))
       (\<lambda>(target, p1).
          case target of
            None \<Rightarrow> fail_with (pa_cur p) (''expected expression after dereference operator '' @ quoted ''*'') None None p1
          | Some t \<Rightarrow>
              if stmt_token_is_assign_op (lx_src (pa_lex p1)) (pa_cur p1) then
                and_then (cx_expr c 0 (px_advance c p1))
                  (\<lambda>(rhs, p2).
                     if rhs = None then fail_with (pa_cur p1) ''expected expression after dereference assignment'' None None p2
                     else
                       (case store_call c (pa_cur p) (pa_cur p1) (Some (ny_hash64 (map byte_of ''store64_i''))) t rhs p2 of
                          (call, p3) \<Rightarrow> Ret (Some call, p3)))
              else Ret (Some (NY_E_DEREF (pa_cur p) t), p1))"

definition parse_unary :: "('s, 'f, 'x) ctx \<Rightarrow> 's parser_t \<Rightarrow> ('s, ('f, 'x) expr option) parsed" where
  "parse_unary c p =
     (let tok = pa_cur p; k = cur_kind p
      in if k = NY_T_IDENT then
           (case parser_peek (cx_ops c) p of
              (next, p1) \<Rightarrow>
                if cur_text p = ''async'' \<and> tok_kind next \<noteq> Punct NY_T_LPAREN \<and> starts_expr (tok_kind next) then
                  prefix_op tok ''async'' (''expected expression after '' @ quoted ''async'') (cx_unary c (px_advance c p1))
                else if cur_text p = ''await'' \<and> tok_kind next \<noteq> Punct NY_T_LPAREN \<and> starts_expr (tok_kind next) then
                  prefix_op tok ''await'' (''expected expression after '' @ quoted ''await'') (cx_unary c (px_advance c p1))
                else parse_postfix c p1)
         else if k = Op NY_T_MINUS \<or> k = Op NY_T_NOT \<or> k = Op NY_T_BITNOT then
           prefix_op tok (if k = Op NY_T_MINUS then ''-'' else if k = Op NY_T_NOT then ''!'' else ''~'')
             ''expected expression after unary operator'' (cx_expr c (precedence (Op NY_T_POW)) (px_advance c p))
         else if k = Op NY_T_BITAND then parse_borrow c p
         else if k = Op NY_T_STAR then parse_deref c p
         else parse_postfix c p)"

section \<open>Binary operators\<close>

text \<open>
  What stands behind \<open>|>\<close>, and whether the caller returns at once. The source reads \<open>rhs->kind\<close> without
  asking whether the operand could be parsed.
\<close>

definition parse_pipe ::
  "('s, 'f, 'x) ctx \<Rightarrow> token_t \<Rightarrow> int \<Rightarrow> ('f, 'x) expr option \<Rightarrow> 's parser_t \<Rightarrow> ('s, ('f, 'x) expr option \<times> bool) parsed" where
  "parse_pipe c pipe_tok pcur left p =
     (if cur_kind p = Punct NY_T_LBRACK then
        and_then (cx_expr c 0 (px_advance c p))
          (\<lambda>(idx, p1).
             and_then (px_expect c (Punct NY_T_RBRACK) (Some (quoted '']'' @ '' in piped index'')) p1)
               (\<lambda>p2. Ret ((Some (NY_E_INDEX (pa_cur p) left idx None None), False), p2)))
      else if cur_kind p = Punct NY_T_DOT then
        (let p1 = px_advance c p
         in if cur_kind p1 \<noteq> NY_T_IDENT
            then fail_with (pa_cur p1) (''expected identifier after '' @ quoted ''|> .'') None (left, True) p1
            else
              and_then (member_access c (Some (quoted '')'' @ '' in piped member call'')) left p1) (\<lambda>(e, p2). Ret ((Some e, False), p2)))
      else
        and_then (cx_expr c (pcur + 1) p)
          (\<lambda>(rhs, p1).
             case rhs of
               None \<Rightarrow> Fault
             | Some (NY_E_CALL t callee args) \<Rightarrow> Ret ((Some (NY_E_CALL t callee ((None, left) # args)), False), p1)
             | Some r \<Rightarrow> Ret ((Some (NY_E_CALL pipe_tok (Some r) [(None, left)]), False), p1)))"

text \<open>The node of a binary operator; \<open>left ?? right\<close> has the left operand twice.\<close>

definition binary_node :: "token_t \<Rightarrow> string \<Rightarrow> ('f, 'x) expr option \<Rightarrow> ('f, 'x) expr option \<Rightarrow> ('f, 'x) expr" where
  "binary_node op text left right =
     (if tok_kind op = Punct NY_T_QUESTION_QUESTION then NY_E_TERNARY op left left right
      else if tok_kind op = Op NY_T_AND then NY_E_LOGICAL op ''&&'' left right
      else if tok_kind op = Op NY_T_OR then NY_E_LOGICAL op ''||'' left right
      else NY_E_BINARY op text left right)"

fun binary_loop ::
  "nat \<Rightarrow> ('s, 'f, 'x) ctx \<Rightarrow> int \<Rightarrow> ('f, 'x) expr option \<Rightarrow> 's parser_t \<Rightarrow> ('s, ('f, 'x) expr option \<times> bool) parsed" where
  "binary_loop 0 c prec left p = Stuck"
| "binary_loop (Suc n) c prec left p =
     (let op = pa_cur p; pcur = precedence (tok_kind op)
      in if pa_stop_expr_at_newline p \<and> pa_skipped_newline p \<or> pcur < prec \<or> pcur = 0 then Ret ((left, False), p)
         else if tok_kind op = Punct NY_T_PIPE then
           and_then (parse_pipe c op pcur left (px_advance c p))
             (\<lambda>((left', done), p1). if done then Ret ((left', True), p1) else binary_loop n c prec left' p1)
         else
           and_then (cx_expr c (if tok_kind op = Op NY_T_POW then pcur else pcur + 1) (px_advance c p))
             (\<lambda>(right, p1). binary_loop n c prec (Some (binary_node op (cur_text p) left right)) p1))"

definition parse_ternary :: "('s, 'f, 'x) ctx \<Rightarrow> ('f, 'x) expr option \<Rightarrow> 's parser_t \<Rightarrow> ('s, ('f, 'x) expr option) parsed" where
  "parse_ternary c left p =
     and_then (cx_expr c 0 (px_advance c p))
       (\<lambda>(true_expr, p1).
          and_then (parser_expect (cx_ops c) (Punct NY_T_COLON) (Some '':'') (Some (''ternary operator requires '' @ quoted '':'')) p1)
            (\<lambda>p2.
               and_then (cx_expr c 0 p2)
                 (\<lambda>(false_expr, p3). Ret (Some (NY_E_TERNARY (pa_cur p) left true_expr false_expr), p3))))"

definition p_parse_expr :: "('s, 'f, 'x) ctx \<Rightarrow> int \<Rightarrow> 's parser_t \<Rightarrow> ('s, ('f, 'x) expr option) parsed" where
  "p_parse_expr c prec p =
     and_then (parse_unary c p)
       (\<lambda>(left, p1).
          and_then (binary_loop (cx_fuel c) c prec left p1)
            (\<lambda>((left', done), p2).
               if \<not> done \<and> prec = 0 \<and> cur_kind p2 = Punct NY_T_QUESTION \<and> found_colon p2 then parse_ternary c left' p2
               else Ret (left', p2)))"

end
