(* ===== verification/Parser_Stmt.thy ===== *)
theory Parser_Stmt
  imports Parser_Expr
begin

text \<open>
  Loops, jumps and the dispatch of statements, from \<open>src/parse/stmtflow.c\<close> and \<open>src/parse/stmt/dispatch.c\<close>,
  and the recursion of the whole parser. The statements that declare (modules, types, functions,
  templates, bindings) and those that begin with a name are read by functions that are parameters.
\<close>

section \<open>Loops and jumps\<close>

definition parse_incrdecr_stmt :: "('s, 'f, 'x) ctx \<Rightarrow> 's parser_t \<Rightarrow> ('s, ('f, 'x) stmt option) parsed" where
  "parse_incrdecr_stmt c p =
     (let op_tok = pa_cur p; is_inc = (tok_kind op_tok = Punct NY_T_PLUS_PLUS); p1 = px_advance c p
      in if cur_kind p1 \<noteq> NY_T_IDENT then
           fail_with (pa_cur p1) (''expected identifier after '' @ quoted (if is_inc then ''++'' else ''--'')) None None p1
         else
           let id_tok = pa_cur p1; name = cur_text p1;
               sum = NY_E_BINARY zero_token (if is_inc then ''+'' else ''-'')
                 (Some (NY_E_IDENT id_tok name (tok_sym_id id_tok) (Some 0))) (Some (int_node op_tok 1))
           in Ret (Some (NY_S_VAR op_tok [name] [Some sum] False False), px_advance c p1))"

text \<open>The attributes of a loop behind an at sign: unroll, vectorize, nounroll.\<close>

fun loop_attrs :: "nat \<Rightarrow> ('s, 'f, 'x) ctx \<Rightarrow> bool \<times> bool \<times> bool \<Rightarrow> 's parser_t \<Rightarrow> ('s, bool \<times> bool \<times> bool) parsed" where
  "loop_attrs 0 c attrs p = Stuck"
| "loop_attrs (Suc n) c attrs p =
     (let unroll = fst attrs; vectorize = fst (snd attrs); nounroll = snd (snd attrs);
          word = (case cur_kind p of NY_T_IDENT \<Rightarrow> True | NY_T_NUMBER \<Rightarrow> True | NY_T_STRING \<Rightarrow> True | NY_T_FSTRING \<Rightarrow> True
                  | Kw k \<Rightarrow> True | _ \<Rightarrow> False);
          next = (\<lambda>new. let p1 = px_advance c p
                        in if cur_kind p1 = Punct NY_T_COMMA then loop_attrs n c new (px_advance c p1) else Ret (new, p1));
          name = cur_text p
      in if \<not> word then Ret (attrs, p)
         else if name = ''unroll'' then next (True, vectorize, nounroll)
         else if name = ''nounroll'' then next (unroll, vectorize, True)
         else if name = ''vectorize'' \<or> name = ''simd'' then next (unroll, True, nounroll)
         else Ret (attrs, p))"

definition opt_attrs :: "('s, 'f, 'x) ctx \<Rightarrow> 's parser_t \<Rightarrow> ('s, bool \<times> bool \<times> bool) parsed" where
  "opt_attrs c p =
     (if cur_kind p = Punct NY_T_AT then loop_attrs (cx_fuel c) c (False, False, False) (px_advance c p)
      else Ret ((False, False, False), p))"

definition loop_body :: "('s, 'f, 'x) ctx \<Rightarrow> 's parser_t \<Rightarrow> ('s, ('f, 'x) stmt option) parsed" where
  "loop_body c p =
     and_then (ny_parse_stmt_or_block c (p\<lparr>pa_loop_depth := pa_loop_depth p + 1\<rparr>))
       (\<lambda>(body, p1). Ret (body, p1\<lparr>pa_loop_depth := pa_loop_depth p1 - 1\<rparr>))"

definition update_stmt :: "('s, 'f, 'x) ctx \<Rightarrow> 's parser_t \<Rightarrow> ('s, ('f, 'x) stmt option) parsed" where
  "update_stmt c p =
     (if cur_kind p = Punct NY_T_PLUS_PLUS \<or> cur_kind p = Punct NY_T_MINUS_MINUS then parse_incrdecr_stmt c p else cx_stmt c p)"

definition ny_parse_while_stmt :: "('s, 'f, 'x) ctx \<Rightarrow> 's parser_t \<Rightarrow> ('s, ('f, 'x) stmt option) parsed" where
  "ny_parse_while_stmt c p =
     and_then (opt_attrs c p)
       (\<lambda>(attrs, p1).
          and_then (px_expect c (Kw NY_T_WHILE) (Some (quoted ''while'')) p1)
            (\<lambda>p2.
               and_then (header_init c p2)
                 (\<lambda>((header_paren, init), p3).
                    and_then (cx_expr c 0 p3)
                      (\<lambda>(test, p4).
                         and_then
                           (if cur_kind p4 = Punct NY_T_PLUS_PLUS \<or> cur_kind p4 = Punct NY_T_MINUS_MINUS \<or>
                               header_paren \<and> cur_kind p4 \<noteq> Punct NY_T_RPAREN
                            then update_stmt c p4 else Ret (None, p4))
                           (\<lambda>(update, p5).
                              and_then (if header_paren then px_expect c (Punct NY_T_RPAREN) (Some (quoted '')'' @ '' after while condition'')) p5 else Ret p5)
                                (\<lambda>p6.
                                   and_then (loop_body c p6)
                                     (\<lambda>(body, p7). Ret (Some (NY_S_WHILE (pa_cur p) attrs init test update body), p7))))))))"

text \<open>The loop of the form of C, behind an opened parenthesis or not.\<close>

definition for_c_style ::
  "('s, 'f, 'x) ctx \<Rightarrow> token_t \<Rightarrow> bool \<times> bool \<times> bool \<Rightarrow> bool \<Rightarrow> 's parser_t \<Rightarrow> ('s, ('f, 'x) stmt option) parsed" where
  "for_c_style c tok attrs has_paren p =
     and_then (cx_stmt c p)
       (\<lambda>(init, p1).
          if init = None then Ret (None, p1)
          else
            and_then (cx_expr c 0 (px_match c (Punct NY_T_SEMI) p1))
              (\<lambda>(cond, p2).
                 let p3 = px_match c (Punct NY_T_SEMI) p2
                 in and_then (if cur_kind p3 \<noteq> Punct NY_T_LBRACE \<and> cur_kind p3 \<noteq> Punct NY_T_RPAREN then update_stmt c p3 else Ret (None, p3))
                      (\<lambda>(update, p4).
                         and_then (if has_paren then px_expect c (Punct NY_T_RPAREN) (Some (quoted '')'' @ '' after for header'')) p4 else Ret p4)
                           (\<lambda>p5. and_then (loop_body c p5) (\<lambda>(body, p6). Ret (Some (NY_S_FOR tok attrs init cond update body), p6))))))"

text \<open>The loop over a sequence; the parser stands on the variable.\<close>

definition for_in_style ::
  "('s, 'f, 'x) ctx \<Rightarrow> token_t \<Rightarrow> bool \<times> bool \<times> bool \<Rightarrow> bool \<Rightarrow> 's parser_t \<Rightarrow> ('s, ('f, 'x) stmt option) parsed" where
  "for_in_style c tok attrs iter_paren p =
     (let iter_var = cur_text p; p1 = px_advance c p; p2 = px_match c (Punct NY_T_COMMA) p1;
          indexed = (cur_kind p1 = Punct NY_T_COMMA)
      in if indexed \<and> cur_kind p2 \<noteq> NY_T_IDENT then Ret (None, p2)
         else
           and_then (px_expect c (Kw NY_T_IN) (Some (quoted ''in'' @ '' after for loop variable'')) (if indexed then px_advance c p2 else p2))
             (\<lambda>p3.
                and_then (cx_expr c 0 p3)
                  (\<lambda>(iterable, p4).
                     and_then (if iter_paren then px_expect c (Punct NY_T_RPAREN) (Some (quoted '')'' @ '' after for header'')) p4 else Ret p4)
                       (\<lambda>p5.
                          and_then (loop_body c p5)
                            (\<lambda>(body, p6).
                               Ret (Some (NY_S_FOR_IN tok attrs iter_var (if indexed then Some (cur_text p2) else None) iterable body), p6))))))"

definition ny_parse_for_stmt :: "('s, 'f, 'x) ctx \<Rightarrow> 's parser_t \<Rightarrow> ('s, ('f, 'x) stmt option) parsed" where
  "ny_parse_for_stmt c p =
     and_then (opt_attrs c p)
       (\<lambda>(attrs, p1).
          and_then (px_expect c (Kw NY_T_FOR) (Some (quoted ''for'')) p1)
            (\<lambda>p2.
               let binds = (\<lambda>k. k = Kw NY_T_DEF \<or> k = Kw NY_T_MUT);
                   (next1, p3) = (if cur_kind p2 = Punct NY_T_LPAREN then parser_peek (cx_ops c) p2 else (zero_token, p2));
                   has_paren = (cur_kind p2 = Punct NY_T_LPAREN \<and> binds (tok_kind next1));
                   p4 = (if has_paren then px_advance c p3 else p3)
               in if has_paren \<or> binds (cur_kind p4) then for_c_style c (pa_cur p) attrs has_paren p4
                  else
                    let (next2, p5) = (if cur_kind p4 = Punct NY_T_LPAREN then parser_peek (cx_ops c) p4 else (zero_token, p4));
                        iter_paren = (cur_kind p4 = Punct NY_T_LPAREN \<and> tok_kind next2 = NY_T_IDENT);
                        p6 = (if iter_paren then px_advance c p5 else p5);
                        (next3, p7) = (if cur_kind p6 = NY_T_IDENT then parser_peek (cx_ops c) p6 else (zero_token, p6))
                    in if cur_kind p6 = NY_T_IDENT \<and> (tok_kind next3 = Kw NY_T_IN \<or> tok_kind next3 = Punct NY_T_COMMA)
                       then for_in_style c (pa_cur p) attrs iter_paren p7
                       else
                         fail_with (pa_cur p7) ''for expects an iterator binding''
                           (Some ''use Nytrix iterator syntax such as `for x in 0..n { ... }`; ';' starts a comment'') None p7))"

definition ny_parse_try_stmt :: "('s, 'f, 'x) ctx \<Rightarrow> 's parser_t \<Rightarrow> ('s, ('f, 'x) stmt option) parsed" where
  "ny_parse_try_stmt c p =
     and_then (px_expect c (Kw NY_T_TRY) (Some (quoted ''try'')) p)
       (\<lambda>p1.
          and_then (p_parse_block c (p1\<lparr>pa_loop_depth := 0\<rparr>))
            (\<lambda>(body, p2).
               and_then (px_expect c (Kw NY_T_CATCH) (Some (quoted ''catch'')) (p2\<lparr>pa_loop_depth := pa_loop_depth p1\<rparr>))
                 (\<lambda>p3.
                    and_then
                      (if cur_kind p3 = Punct NY_T_LPAREN then
                         (let p4 = px_advance c p3; named = (cur_kind p4 = NY_T_IDENT)
                          in and_then (px_expect c (Punct NY_T_RPAREN) None (if named then px_advance c p4 else p4))
                               (\<lambda>p5. Ret (if named then Some (cur_text p4) else None, p5)))
                       else if cur_kind p3 = NY_T_IDENT then
                         (case parser_peek (cx_ops c) p3 of
                            (next, p4) \<Rightarrow>
                              Ret (if tok_kind next = Punct NY_T_LBRACE then (Some (cur_text p3), px_advance c p4) else (None, p4)))
                       else Ret (None, p3))
                      (\<lambda>(err, p6).
                         and_then (p_parse_block c p6)
                           (\<lambda>(handler, p7). Ret (Some (NY_S_TRY (pa_cur p) body err handler), p7))))))"

definition ny_parse_return_stmt :: "('s, 'f, 'x) ctx \<Rightarrow> 's parser_t \<Rightarrow> ('s, ('f, 'x) stmt option) parsed" where
  "ny_parse_return_stmt c p =
     and_then (px_expect c (Kw NY_T_RETURN) (Some (quoted ''return'')) p)
       (\<lambda>p1.
          and_then (if cur_kind p1 \<noteq> Punct NY_T_SEMI \<and> cur_kind p1 \<noteq> Punct NY_T_RBRACE then cx_expr c 0 p1 else Ret (None, p1))
            (\<lambda>(v, p2). Ret (Some (NY_S_RETURN (pa_cur p) v), px_match c (Punct NY_T_SEMI) p2)))"

definition ny_parse_goto_stmt :: "('s, 'f, 'x) ctx \<Rightarrow> 's parser_t \<Rightarrow> ('s, ('f, 'x) stmt option) parsed" where
  "ny_parse_goto_stmt c p =
     and_then (px_expect c (Kw NY_T_GOTO) (Some (quoted ''goto'')) p)
       (\<lambda>p1.
          if cur_kind p1 \<noteq> NY_T_IDENT then Ret (None, p1)
          else Ret (Some (NY_S_GOTO (pa_cur p) (cur_text p1)), px_match c (Punct NY_T_SEMI) (px_advance c p1)))"

text \<open>\<open>ny_parse_break_stmt\<close> and \<open>ny_parse_continue_stmt\<close>.\<close>

definition parse_jump ::
  "('s, 'f, 'x) ctx \<Rightarrow> keyword_kind \<Rightarrow> (token_t \<Rightarrow> ('f, 'x) stmt) \<Rightarrow> 's parser_t \<Rightarrow> ('s, ('f, 'x) stmt option) parsed" where
  "parse_jump c k node p =
     and_then (px_expect c (Kw k) (Some (quoted (keyword_name k))) p)
       (\<lambda>p1.
          and_then (error_if (pa_loop_depth p1 \<le> 0) (pa_cur p) (quoted (keyword_name k) @ '' used outside of a loop'')
                     (Some ''put this inside a while/for body'') p1)
            (\<lambda>p2. Ret (Some (node (pa_cur p)), px_match c (Punct NY_T_SEMI) p2)))"

section \<open>Statements\<close>

text \<open>An expression as a statement; an assignment through a pointer becomes a store.\<close>

definition parse_expr_stmt :: "('s, 'f, 'x) ctx \<Rightarrow> 's parser_t \<Rightarrow> ('s, ('f, 'x) stmt option) parsed" where
  "parse_expr_stmt c p =
     and_then (cx_expr c 0 p)
       (\<lambda>(e, p1).
          let plain = Ret (Some (NY_S_EXPR (pa_cur p) e), px_match c (Punct NY_T_SEMI) p1)
          in case e of
               None \<Rightarrow> Ret (None, px_sync c p1)
             | Some (NY_E_DEREF t target) \<Rightarrow>
                 if stmt_token_is_assign_op (lx_src (pa_lex p1)) (pa_cur p1) then
                   and_then (cx_expr c 0 (px_advance c p1))
                     (\<lambda>(rhs, p2).
                        let src = lx_src (pa_lex p2);
                            val = (if stmt_assign_op_is_plain src (pa_cur p1) then rhs
                                   else Some (NY_E_BINARY zero_token (operator_name (stmt_assign_op_binary_kind src (pa_cur p1))) e rhs))
                        in case runtime_call c (pa_cur p) ''store64_i'' (Some 0) [(None, Some target), (None, val)]
                                  (px_match c (Punct NY_T_SEMI) p2) of
                             (call, p3) \<Rightarrow> Ret (Some (NY_S_EXPR (pa_cur p) (Some call)), p3))
                 else plain
             | _ \<Rightarrow> plain)"

definition parse_star_stmt :: "('s, 'f, 'x) ctx \<Rightarrow> 's parser_t \<Rightarrow> ('s, ('f, 'x) stmt option) parsed" where
  "parse_star_stmt c p =
     (let first = pa_cur p; p1 = px_advance c p
      in and_then
           (if cur_kind p1 = NY_T_IDENT
            then Ret (Some (NY_E_IDENT (pa_cur p1) (cur_text p1) (tok_sym_id (pa_cur p1)) (Some 0)), px_advance c p1)
            else cx_expr c 0 p1)
           (\<lambda>(target, p2).
              case target of
                None \<Rightarrow> Ret (None, px_sync c p2)
              | Some t \<Rightarrow>
                  if stmt_token_is_assign_op (lx_src (pa_lex p2)) (pa_cur p2) then
                    and_then (cx_expr c 0 (px_advance c p2))
                      (\<lambda>(rhs, p3).
                         case store_call c first (pa_cur p2) (Some 0) t rhs (px_match c (Punct NY_T_SEMI) p3) of
                           (call, p4) \<Rightarrow> Ret (Some (NY_S_EXPR first (Some call)), p4))
                  else Ret (Some (NY_S_EXPR first (Some (NY_E_DEREF first t))), px_match c (Punct NY_T_SEMI) p2)))"

text \<open>
  Whether a brace opens a dictionary: the look ahead runs on a copy of the parser up to the end of the
  first element.
\<close>

function dict_scan :: "'s sym_ops \<Rightarrow> int \<Rightarrow> int \<Rightarrow> int \<Rightarrow> 's parser_t \<Rightarrow> bool \<times> 's parser_t" where
  "dict_scan ops paren bracket brace p =
     (let k = cur_kind p; flat = (paren = 0 \<and> bracket = 0 \<and> brace = 0); p1 = parser_advance ops p
      in if k = NY_T_EOF then (False, p)
         else if flat \<and> k = Punct NY_T_COLON then (True, p)
         else if flat \<and> (k = Punct NY_T_COMMA \<or> k = Punct NY_T_RBRACE) then (False, p)
         else if k = Punct NY_T_LPAREN then dict_scan ops (paren + 1) bracket brace p1
         else if k = Punct NY_T_RPAREN then dict_scan ops (paren - 1) bracket brace p1
         else if k = Punct NY_T_LBRACK then dict_scan ops paren (bracket + 1) brace p1
         else if k = Punct NY_T_RBRACK then dict_scan ops paren (bracket - 1) brace p1
         else if k = Punct NY_T_LBRACE then dict_scan ops paren bracket (brace + 1) p1
         else if k = Punct NY_T_RBRACE then (if brace = 0 then (False, p) else dict_scan ops paren bracket (brace - 1) p1)
         else dict_scan ops paren bracket brace p1)"
  by pat_completeness auto
termination
  by (relation "measure (\<lambda>(ops, paren, bracket, brace, p). unread p)") (auto simp: unread_advance)

declare dict_scan.simps [simp del]

definition stmt_lbrace_starts_dict_literal :: "('s, 'f, 'x) ctx \<Rightarrow> 's parser_t \<Rightarrow> bool \<times> 's parser_t" where
  "stmt_lbrace_starts_dict_literal c p =
     (let scan = px_advance c p
      in if cur_kind scan \<noteq> NY_T_STRING \<and> cur_kind scan \<noteq> NY_T_NUMBER then (False, restore p scan)
         else (case dict_scan (cx_ops c) 0 0 0 scan of (b, scan') \<Rightarrow> (b, restore p scan')))"

record ('s, 'f, 'x) others =
  ot_stmt :: "('s, 'f, 'x) ctx \<Rightarrow> 's parser_t \<Rightarrow> ('s, ('f, 'x) stmt option) parsed"
  ot_comptime_for :: "('s, 'f, 'x) ctx \<Rightarrow> 's parser_t \<Rightarrow> ('s, bool \<times> ('f, 'x) stmt option) parsed"

definition parse_plain_expr_stmt :: "('s, 'f, 'x) ctx \<Rightarrow> 's parser_t \<Rightarrow> ('s, ('f, 'x) stmt option) parsed" where
  "parse_plain_expr_stmt c p =
     and_then (cx_expr c 0 p)
       (\<lambda>(e, p1).
          if e = None then Ret (None, px_sync c p1) else Ret (Some (NY_S_EXPR (pa_cur p) e), px_match c (Punct NY_T_SEMI) p1))"

definition dispatch_stmt :: "('s, 'f, 'x) others \<Rightarrow> ('s, 'f, 'x) ctx \<Rightarrow> 's parser_t \<Rightarrow> ('s, ('f, 'x) stmt option) parsed" where
  "dispatch_stmt ot c p =
     (let tok = pa_cur p; some = (\<lambda>r. and_then r (\<lambda>(s, p1). Ret (Some s, p1)))
      in case tok_kind tok of
           Punct NY_T_SEMI \<Rightarrow> Ret (None, px_advance c p)
         | Kw NY_T_IF \<Rightarrow> some (ny_parse_if_stmt c p)
         | Kw NY_T_ELIF \<Rightarrow>
             and_then (parser_error tok (quoted ''elif'' @ '' without '' @ quoted ''if'')
                        (Some (''check if you forgot the preceding '' @ quoted ''if'' @ '' block'')) p)
               (\<lambda>p1. Ret (None, px_advance c p1))
         | Kw NY_T_WHILE \<Rightarrow> ny_parse_while_stmt c p
         | Kw NY_T_FOR \<Rightarrow>
             and_then (ot_comptime_for ot c p) (\<lambda>((handled, s), p1). if handled then Ret (s, p1) else ny_parse_for_stmt c p1)
         | Kw NY_T_TRY \<Rightarrow> ny_parse_try_stmt c p
         | Kw NY_T_RETURN \<Rightarrow> ny_parse_return_stmt c p
         | Kw NY_T_BREAK \<Rightarrow> parse_jump c NY_T_BREAK NY_S_BREAK p
         | Kw NY_T_CONTINUE \<Rightarrow> parse_jump c NY_T_CONTINUE NY_S_CONTINUE p
         | Kw NY_T_GOTO \<Rightarrow> ny_parse_goto_stmt c p
         | Kw NY_T_MATCH \<Rightarrow> and_then (p_parse_match c p) (\<lambda>((test, arms, dflt), p1). Ret (Some (NY_S_MATCH tok test arms dflt), p1))
         | Kw NY_T_DEFER \<Rightarrow> and_then (p_parse_block c (px_advance c p)) (\<lambda>(b, p1). Ret (Some (NY_S_DEFER tok b), p1))
         | Punct NY_T_PLUS_PLUS \<Rightarrow> and_then (parse_incrdecr_stmt c p) (\<lambda>(s, p1). Ret (s, if s = None then p1 else px_match c (Punct NY_T_SEMI) p1))
         | Punct NY_T_MINUS_MINUS \<Rightarrow> and_then (parse_incrdecr_stmt c p) (\<lambda>(s, p1). Ret (s, if s = None then p1 else px_match c (Punct NY_T_SEMI) p1))
         | Op NY_T_STAR \<Rightarrow> parse_star_stmt c p
         | Punct NY_T_LBRACE \<Rightarrow>
             (case stmt_lbrace_starts_dict_literal c p of
                (dict, p1) \<Rightarrow> if dict then parse_plain_expr_stmt c p1 else some (p_parse_block c p1))
         | k \<Rightarrow>
             if k \<in> {NY_T_IDENT, Punct NY_T_HASH, Punct NY_T_AT} \<union>
                 Kw ` {NY_T_USE, NY_T_MODULE, NY_T_STRUCT, NY_T_ENUM, NY_T_EXTERN, NY_T_FN, NY_T_COMPTIME, NY_T_MUT, NY_T_DEF, NY_T_DEL}
             then ot_stmt ot c p
             else parse_expr_stmt c p)"

definition p_parse_stmt :: "('s, 'f, 'x) others \<Rightarrow> ('s, 'f, 'x) ctx \<Rightarrow> 's parser_t \<Rightarrow> ('s, ('f, 'x) stmt option) parsed" where
  "p_parse_stmt ot c p =
     (if cur_kind p = Op NY_T_STAR then
        and_then (parse_leading_deref_assign_stmt c p)
          (\<lambda>(s, p1). case s of Some s' \<Rightarrow> Ret (Some s', p1) | None \<Rightarrow> dispatch_stmt ot c p1)
      else dispatch_stmt ot c p)"

section \<open>The recursion\<close>

text \<open>The functions that are called back, with fuel for their depth.\<close>

record ('s, 'f) settings =
  su_ops :: "'s sym_ops"
  su_strtod :: "string \<Rightarrow> 'f \<times> bool"
  su_zero :: 'f
  su_junk :: string

primrec parsers :: "('s, 'f) settings \<Rightarrow> ('s, 'f, 'x) others \<Rightarrow> nat \<Rightarrow> ('s, 'f, 'x) ctx" where
  "parsers u ot 0 =
     \<lparr>cx_ops = su_ops u, cx_strtod = su_strtod u, cx_zero = su_zero u, cx_junk = su_junk u, cx_fuel = 0,
      cx_expr = (\<lambda>_ _. Stuck), cx_unary = (\<lambda>_. Stuck), cx_stmt = (\<lambda>_. Stuck)\<rparr>"
| "parsers u ot (Suc n) =
     (let c = parsers u ot n
      in c\<lparr>cx_fuel := Suc n, cx_expr := p_parse_expr c, cx_unary := parse_unary c, cx_stmt := p_parse_stmt ot c\<rparr>)"

section \<open>Programs\<close>

fun program_loop :: "nat \<Rightarrow> ('s, 'f, 'x) ctx \<Rightarrow> ('f, 'x) stmt list \<Rightarrow> 's parser_t \<Rightarrow> ('s, ('f, 'x) stmt list) parsed" where
  "program_loop 0 c out p = Stuck"
| "program_loop (Suc n) c out p =
     (if cur_kind p = NY_T_EOF then Ret (out, p)
      else and_then (parse_stmt_append_or_sync c out p) (\<lambda>(out', p1). program_loop n c out' p1))"

text \<open>The statements of a program, without the string that documents it.\<close>

definition take_doc :: "('f, 'x) stmt list \<Rightarrow> string option \<times> ('f, 'x) stmt list" where
  "take_doc body =
     (case body of
        NY_S_EXPR t (Some (NY_E_LITERAL t' lit)) # rest \<Rightarrow>
          (case lit_value lit of NY_LIT_STR w \<Rightarrow> (Some w, rest) | _ \<Rightarrow> (None, body))
      | _ \<Rightarrow> (None, body))"

definition parse_program :: "('s, 'f, 'x) ctx \<Rightarrow> 's parser_t \<Rightarrow> ('s, string option \<times> ('f, 'x) stmt list) parsed" where
  "parse_program c p = and_then (program_loop (cx_fuel c) c [] p) (\<lambda>(body, p1). Ret (take_doc body, p1))"

end
