(* ===== verification/Parser_Errors.thy ===== *)
theory Parser_Errors
  imports Parser_Stmt Emit_Limits_Correct Lexer_Correct
begin

text \<open>
  What happens when an operand is missing: which errors the parser counts, and where it does not stop.
\<close>

section \<open>Reporting\<close>

definition error_key :: "token_t \<Rightarrow> string \<Rightarrow> 's parser_t \<Rightarrow> string" where
  "error_key tok msg p =
     diag_key (Some (case tok_filename tok of Some f \<Rightarrow> f | None \<Rightarrow> pa_filename p)) (tok_line tok) (tok_col tok) (Some msg)
       (Some (token_desc (lx_src (pa_lex p)) tok))"

lemma and_then_assoc: "and_then (and_then m f) g = and_then m (\<lambda>x. and_then (f x) g)"
  by (cases m) simp_all

lemma and_then_Ret: "and_then m f = Ret y \<longleftrightarrow> (\<exists>x. m = Ret x \<and> f x = Ret y)"
  by (cases m) simp_all

text \<open>With a table that counts, an error is recorded exactly when it has come fewer than three times.\<close>

lemma parser_error_counts:
  assumes "diag_counts (pa_diags p) f" "f (error_key tok msg p) + 1 < 2 ^ 31"
  obtains d hint' where "diag_counts d (f(error_key tok msg p := Suc (f (error_key tok msg p))))"
    "parser_error tok msg hint p =
       (if f (error_key tok msg p) < 3
        then record_error (tok_line tok) (tok_col tok) (int (tok_len tok)) msg hint' (p\<lparr>pa_diags := d\<rparr>)
        else Ret (p\<lparr>pa_diags := d\<rparr>))"
proof -
  obtain d where d: "diag_emit (error_key tok msg p) (pa_diags p) = Some (f (error_key tok msg p) < 3, d)"
      "diag_counts d (f(error_key tok msg p := Suc (f (error_key tok msg p))))"
    using diag_emit_counts [OF assms] by blast
  define hint' where "hint' = (if hint = None \<and> tok_kind tok = NY_T_EOF then Some ''check for missing ';' or unmatched brace'' else hint)"
  have "parser_error tok msg hint p =
      print_error_line (tok_filename tok) (tok_line tok) (tok_col tok) (int (tok_len tok)) msg (token_desc (lx_src (pa_lex p)) tok) hint' p"
    by (simp only: parser_error_def hint'_def)
  then have "parser_error tok msg hint p =
      (if f (error_key tok msg p) < 3
       then record_error (tok_line tok) (tok_col tok) (int (tok_len tok)) msg hint' (p\<lparr>pa_diags := d\<rparr>)
       else Ret (p\<lparr>pa_diags := d\<rparr>))"
    using d(1) by (simp add: print_error_line_def parser_diag_should_emit_def error_key_def Let_def)
  then show ?thesis
    by (rule that [OF d(2)])
qed

lemma error_keeps:
  assumes "parser_error tok msg hint p = Ret p1"
  shows "cur_kind p1 = cur_kind p \<or> cur_kind p1 = NY_T_EOF" "pa_lex p1 = pa_lex p"
    "tok_lexeme (pa_cur p1) = tok_lexeme (pa_cur p)" "tok_len (pa_cur p1) = tok_len (pa_cur p)"
  using assms
  by (auto simp: parser_error_def print_error_line_def record_error_def Let_def split: option.splits prod.splits if_splits)

section \<open>Missing operands\<close>

text \<open>Tokens that neither begin an expression nor continue one.\<close>

definition stray :: "token_kind \<Rightarrow> bool" where
  "stray k \<longleftrightarrow> k = NY_T_EOF \<or> k \<in> Punct ` {NY_T_RPAREN, NY_T_RBRACE, NY_T_RBRACK, NY_T_COMMA, NY_T_COLON, NY_T_SEMI}"

definition stray_msg :: "token_kind \<Rightarrow> string" where
  "stray_msg k = take 63 (''unexpected token '' @ quoted (parser_token_name k))"

lemma stray_primary: "stray (cur_kind p) \<Longrightarrow> parse_primary c p = fail_with (pa_cur p) (stray_msg (cur_kind p)) None None p"
  by (auto simp: stray_def parse_primary_def stray_msg_def Let_def)

lemma stray_postfix: "stray (cur_kind p) \<Longrightarrow> postfix_loop (Suc n) c e p = Ret (e, p)"
  by (auto simp: stray_def)

lemma stray_binary: "stray (cur_kind p) \<Longrightarrow> binary_loop (Suc n) c prec left p = Ret ((left, False), p)"
  by (auto simp: stray_def)

lemma stray_unary: "stray (cur_kind p) \<Longrightarrow> parse_unary c p = parse_postfix c p"
  by (auto simp: stray_def parse_unary_def)

lemma error_stray: "parser_error tok msg hint p = Ret p1 \<Longrightarrow> stray (cur_kind p) \<Longrightarrow> stray (cur_kind p1)"
  using error_keeps(1) [of tok msg hint p p1] by (auto simp: stray_def)

lemma stray_expr:
  assumes "stray (cur_kind p)" "0 < cx_fuel c"
  shows "p_parse_expr c prec p = fail_with (pa_cur p) (stray_msg (cur_kind p)) None None p"
proof -
  obtain n where n: "cx_fuel c = Suc n"
    using assms(2) gr0_implies_Suc by blast
  show ?thesis
  proof (cases "parser_error (pa_cur p) (stray_msg (cur_kind p)) None p")
    case (Ret p1)
    have s: "stray (cur_kind p1)"
      using error_stray [OF Ret assms(1)] .
    then have "cur_kind p1 \<noteq> Punct NY_T_QUESTION"
      by (auto simp: stray_def)
    then show ?thesis
      using Ret s assms(1) n
      by (simp add: p_parse_expr_def stray_unary parse_postfix_def stray_primary fail_with_def stray_postfix stray_binary
          del: postfix_loop.simps binary_loop.simps)
  qed (use assms(1) in \<open>simp_all add: p_parse_expr_def stray_unary parse_postfix_def stray_primary fail_with_def\<close>)
qed

lemma parsers_fields: "cx_ops (parsers u ot n) = su_ops u" "cx_fuel (parsers u ot n) = n"
  by (induction n) (simp_all add: Let_def)

lemma parsers_Suc:
  "cx_expr (parsers u ot (Suc n)) = p_parse_expr (parsers u ot n)"
  "cx_unary (parsers u ot (Suc n)) = parse_unary (parsers u ot n)"
  "cx_stmt (parsers u ot (Suc n)) = p_parse_stmt ot (parsers u ot n)"
  by (simp_all add: Let_def)

declare parsers.simps [simp del]

section \<open>A brace that closes nothing\<close>

text \<open>The diagnostic has been reported often enough, and the table can still count it \<open>n\<close> times.\<close>

definition muted :: "token_t \<Rightarrow> string \<Rightarrow> nat \<Rightarrow> 's parser_t \<Rightarrow> bool" where
  "muted tok msg n p \<longleftrightarrow> (\<exists>f. diag_counts (pa_diags p) f \<and> 3 \<le> f (error_key tok msg p) \<and> f (error_key tok msg p) + n < 2 ^ 31)"

lemma muted_error:
  assumes "muted tok msg (Suc n) p"
  obtains d where "parser_error tok msg hint p = Ret (p\<lparr>pa_diags := d\<rparr>)" "muted tok msg n (p\<lparr>pa_diags := d\<rparr>)"
proof -
  let ?k = "error_key tok msg p"
  obtain f where f: "diag_counts (pa_diags p) f" "3 \<le> f ?k" "f ?k + Suc n < 2 ^ 31"
    using assms by (auto simp: muted_def)
  then have "f ?k + 1 < 2 ^ 31"
    by linarith
  then obtain d hint' where d: "diag_counts d (f(?k := Suc (f ?k)))"
      "parser_error tok msg hint p =
        (if f ?k < 3 then record_error (tok_line tok) (tok_col tok) (int (tok_len tok)) msg hint' (p\<lparr>pa_diags := d\<rparr>)
         else Ret (p\<lparr>pa_diags := d\<rparr>))"
    by (rule parser_error_counts [OF f(1)])
  have "error_key tok msg (p\<lparr>pa_diags := d\<rparr>) = ?k"
    by (simp add: error_key_def split: option.splits)
  then have "muted tok msg n (p\<lparr>pa_diags := d\<rparr>)"
    unfolding muted_def using d(1) f(2,3) by (intro exI [of _ "f(?k := Suc (f ?k))"]) simp
  then show ?thesis
    using that d(2) f(2) by simp
qed

abbreviation rbrace :: token_kind where
  "rbrace \<equiv> Punct NY_T_RBRACE"

lemma stray_rbrace: "stray rbrace"
  by (simp add: stray_def)

lemma rbrace_stmt:
  assumes "cur_kind p = rbrace" "muted (pa_cur p) (stray_msg rbrace) (Suc n) p"
  obtains d where "p_parse_stmt ot (parsers u ot (Suc (Suc m))) p = Ret (None, p\<lparr>pa_diags := d\<rparr>)"
    "muted (pa_cur p) (stray_msg rbrace) n (p\<lparr>pa_diags := d\<rparr>)"
proof -
  obtain d where d: "parser_error (pa_cur p) (stray_msg rbrace) None p = Ret (p\<lparr>pa_diags := d\<rparr>)"
      "muted (pa_cur p) (stray_msg rbrace) n (p\<lparr>pa_diags := d\<rparr>)"
    by (rule muted_error [OF assms(2)])
  have "p_parse_expr (parsers u ot (Suc m)) 0 p = Ret (None, p\<lparr>pa_diags := d\<rparr>)"
    using stray_expr [of p "parsers u ot (Suc m)" 0] assms(1) stray_rbrace d(1) by (simp add: parsers_fields fail_with_def)
  then have "p_parse_stmt ot (parsers u ot (Suc (Suc m))) p = Ret (None, p\<lparr>pa_diags := d\<rparr>)"
    using assms(1)
    by (simp add: p_parse_stmt_def dispatch_stmt_def parse_expr_stmt_def parsers_Suc parsers_fields parser_sync_stmt_boundary.simps image_iff)
  then show ?thesis
    using that d(2) by blast
qed

lemma rbrace_round:
  assumes "cur_kind p = rbrace" "muted (pa_cur p) (stray_msg rbrace) (Suc n) p" "\<not> pa_had_error p"
  obtains d where "parse_stmt_append_or_sync (parsers u ot (Suc (Suc (Suc m)))) out p = Ret (out, p\<lparr>pa_diags := d\<rparr>)"
    "muted (pa_cur p) (stray_msg rbrace) n (p\<lparr>pa_diags := d\<rparr>)"
proof -
  obtain d where d: "p_parse_stmt ot (parsers u ot (Suc (Suc m))) p = Ret (None, p\<lparr>pa_diags := d\<rparr>)"
      "muted (pa_cur p) (stray_msg rbrace) n (p\<lparr>pa_diags := d\<rparr>)"
    by (rule rbrace_stmt [OF assms(1,2)])
  have "parse_stmt_append_or_sync (parsers u ot (Suc (Suc (Suc m)))) out p = Ret (out, p\<lparr>pa_diags := d\<rparr>)"
    using d(1) assms(1,3)
    by (simp add: parse_stmt_append_or_sync_def parse_leading_deref_assign_stmt_def parsers_Suc parsers_fields Let_def)
  then show ?thesis
    using that d(2) by blast
qed

lemma rbrace_program_loop:
  assumes "cur_kind p = rbrace" "muted (pa_cur p) (stray_msg rbrace) n p" "\<not> pa_had_error p"
  shows "program_loop n (parsers u ot (Suc (Suc (Suc m)))) out p = Stuck"
  using assms
proof (induction n arbitrary: p)
  case (Suc n)
  obtain d where d: "parse_stmt_append_or_sync (parsers u ot (Suc (Suc (Suc m)))) out p = Ret (out, p\<lparr>pa_diags := d\<rparr>)"
      "muted (pa_cur p) (stray_msg rbrace) n (p\<lparr>pa_diags := d\<rparr>)"
    by (rule rbrace_round [OF Suc.prems])
  then show ?case
    using Suc.IH [of "p\<lparr>pa_diags := d\<rparr>"] Suc.prems by simp
qed simp


text \<open>The parser on a text, for the examples.\<close>

definition sample_settings :: "(string list, unit) settings" where
  "sample_settings = \<lparr>su_ops = list_symbols, su_strtod = (\<lambda>_. ((), False)), su_zero = (), su_junk = []\<rparr>"

definition sample_others :: "(string list, unit, unit) others" where
  "sample_others = \<lparr>ot_stmt = (\<lambda>c. parse_expr_stmt c), ot_comptime_for = (\<lambda>c p. Ret ((False, None), p))\<rparr>"

definition sample_parser :: "string \<Rightarrow> string limiter \<Rightarrow> string list parser_t" where
  "sample_parser src d = parser_init_with_arena_opts list_symbols src None False [] d"

lemma sample_diags: "sample_parser src d = (sample_parser src empty_limiter)\<lparr>pa_diags := d\<rparr>"
  by (simp add: sample_parser_def parser_init_with_arena_opts_def parser_advance_def count_lex_errors_def Let_def split: prod.splits)

lemma empty_counts: "diag_counts empty_limiter (\<lambda>_. 0)"
  by (simp add: diag_counts_def empty_limiter_def)

lemma next_report:
  assumes "diag_counts d ((\<lambda>_. 0)(k := n))" "n < 3"
  shows "\<exists>d'. diag_emit k d = Some (True, d') \<and> diag_counts d' ((\<lambda>_. 0)(k := Suc n))"
proof -
  have "((\<lambda>_. 0)(k := n)) k + 1 < 2 ^ 31"
    using assms(2) by simp
  then show ?thesis
    using diag_emit_counts [OF assms(1), of k] assms(2) by simp
qed

lemma three_reports: "\<exists>d. run_emit diag_emit [k, k, k] empty_limiter = Some ([True, True, True], d) \<and> diag_counts d ((\<lambda>_. 0)(k := 3))"
proof -
  have "diag_counts empty_limiter ((\<lambda>_. 0)(k := 0))"
    using empty_counts by (simp add: fun_upd_idem)
  then obtain d1 where d1: "diag_emit k empty_limiter = Some (True, d1)" "diag_counts d1 ((\<lambda>_. 0)(k := Suc 0))"
    using next_report [of empty_limiter k 0] by auto
  obtain d2 where d2: "diag_emit k d1 = Some (True, d2)" "diag_counts d2 ((\<lambda>_. 0)(k := Suc (Suc 0)))"
    using next_report [OF d1(2)] by auto
  obtain d3 where d3: "diag_emit k d2 = Some (True, d3)" "diag_counts d3 ((\<lambda>_. 0)(k := Suc (Suc (Suc 0))))"
    using next_report [OF d2(2)] by auto
  show ?thesis
    using d1(1) d2(1) d3 by (simp add: numeral_3_eq_3)
qed


lemma error_returns:
  assumes "lm_cap (pa_diags p) = 0" "lm_len (pa_diags p) = 0" "pa_error_count p + 1 < pa_error_limit p"
  obtains p' where "parser_error tok msg hint p = Ret p'" "pa_had_error p'"
proof -
  have c: "diag_counts (pa_diags p) (\<lambda>_. 0)"
    using assms(1,2) by (simp add: diag_counts_def)
  obtain d hint' where "parser_error tok msg hint p =
      (if (0 :: nat) < 3 then record_error (tok_line tok) (tok_col tok) (int (tok_len tok)) msg hint' (p\<lparr>pa_diags := d\<rparr>)
       else Ret (p\<lparr>pa_diags := d\<rparr>))"
    by (rule parser_error_counts [OF c, of tok msg]) simp_all
  then show ?thesis
    using that assms(3) by (simp add: record_error_def)
qed

section \<open>Errors inside of f-strings\<close>

lemma restore_keeps [simp]:
  "pa_had_error (restore p q) = pa_had_error p" "pa_error_count (restore p q) = pa_error_count p"
  by (simp_all add: restore_def)

lemma fstring_exprs_keep:
  "fstring_exprs c parts p = Ret (ps, p') \<Longrightarrow> pa_had_error p' = pa_had_error p \<and> pa_error_count p' = pa_error_count p"
  by (induction c parts p arbitrary: ps p' rule: fstring_exprs.induct) (fastforce simp: and_then_Ret Let_def)+

text \<open>
  C22: no error inside of the expressions of an f-string is counted. The parsers that read them have error
  counts of their own, which are dropped: when the braces are balanced, reading the string leaves
  \<open>had_error\<close> and the number of errors as they are behind its token.
\<close>

theorem fstring_errors_lost:
  assumes "parse_fstring_expr c p = Ret (e, p')" "\<not> snd (parse_fstring (cur_text p))"
  shows "pa_had_error p' = pa_had_error (parser_advance (cx_ops c) p) \<and>
    pa_error_count p' = pa_error_count (parser_advance (cx_ops c) p)"
proof -
  obtain parts where parts: "parse_fstring (cur_text p) = (parts, False)"
    using assms(2) by (metis prod.collapse)
  then have "\<exists>ps. fstring_exprs c parts (parser_advance (cx_ops c) p) = Ret (ps, p')"
    using assms(1) by (auto simp: parse_fstring_expr_def and_then_Ret error_if_def)
  then show ?thesis
    using fstring_exprs_keep by blast
qed

theorem fstring_errors_lost_witness:
  "\<exists>e p' sub'. parse_fstring_expr (parsers sample_settings sample_others 3) (sample_parser [CHR ''f'', dquote, CHR ''{'', CHR '')'', CHR ''}'', dquote] empty_limiter) = Ret (e, p') \<and>
     \<not> pa_had_error p' \<and> pa_error_count p' = 0 \<and>
     cx_expr (parsers sample_settings sample_others 3) 0 (parser_init_with_arena_opts list_symbols '')'' (Some ''<input>'') False [''<input>''] empty_limiter) =
       Ret (None, sub') \<and> pa_had_error sub'"
proof -
  let ?c = "parsers sample_settings sample_others 3"
  let ?p = "sample_parser [CHR ''f'', dquote, CHR ''{'', CHR '')'', CHR ''}'', dquote] empty_limiter"
  let ?q = "parser_advance list_symbols ?p"
  let ?sub = "parser_init_with_arena_opts list_symbols '')'' (Some ''<input>'') False [''<input>''] empty_limiter"
  have parts: "parse_fstring (cur_text ?p) = ([NY_FSP_EXPR '')''], False)"
    by code_simp
  have q: "lx_filename (pa_lex ?q) = Some ''<input>''" "lx_syms (pa_lex ?q) = [''<input>'']" "pa_quiet ?q = False"
    by code_simp+
  have q2: "pa_diags ?q = empty_limiter"
    by (simp add: sample_parser_def parser_init_with_arena_opts_def parser_advance_def count_lex_errors_def Let_def split: prod.splits)
  have q3: "\<not> pa_had_error ?q" "pa_error_count ?q = 0"
    by code_simp+
  have sub: "stray (cur_kind ?sub)" "lm_cap (pa_diags ?sub) = 0" "lm_len (pa_diags ?sub) = 0" "pa_error_count ?sub + 1 < pa_error_limit ?sub"
    by (code_simp, code_simp, code_simp, code_simp)
  obtain sub' where sub': "parser_error (pa_cur ?sub) (stray_msg (cur_kind ?sub)) None ?sub = Ret sub'" "pa_had_error sub'"
    by (rule error_returns [OF sub(2-4)])
  have e: "cx_expr ?c 0 ?sub = Ret (None, sub')"
    using stray_expr [OF sub(1), of "parsers sample_settings sample_others 2"] sub'(1) parsers_Suc(1) [of sample_settings sample_others 2]
    by (simp add: parsers_fields fail_with_def numeral_3_eq_3 numeral_2_eq_2)
  have ops: "cx_ops ?c = list_symbols"
    by (simp add: parsers_fields sample_settings_def)
  have r: "parse_fstring_expr ?c ?p = Ret (Some (NY_E_FSTRING (pa_cur ?p) [FExpr None]), restore ?q sub')"
    using e by (simp add: parse_fstring_expr_def parts ops q q2 error_if_def)
  have "\<not> snd (parse_fstring (cur_text ?p))"
    by (simp add: parts)
  from fstring_errors_lost [OF r this] show ?thesis
    using r e sub'(2) q3 ops by auto
qed

section \<open>A pipe to nowhere\<close>

text \<open>
  C21: \<open>|>\<close> without an operand behind it reads through a null pointer. Whenever the parser stands on the
  pipe with a left operand, the next token neither begins nor continues an expression and the error limit is
  not reached by reporting it, \<open>p_parse_expr\<close> reads the kind of the missing operand.
\<close>

theorem pipe_null_operand:
  fixes p :: "'s parser_t"
  assumes "parse_unary (parsers u ot (Suc (Suc n))) p = Ret (left, p1)" "cur_kind p1 = Punct NY_T_PIPE" "prec \<le> 1"
    "\<not> (pa_stop_expr_at_newline p1 \<and> pa_skipped_newline p1)"
    "stray (cur_kind (parser_advance (su_ops u) p1))"
    "parser_error (pa_cur (parser_advance (su_ops u) p1)) (stray_msg (cur_kind (parser_advance (su_ops u) p1))) None
       (parser_advance (su_ops u) p1) = Ret p2"
  shows "p_parse_expr (parsers u ot (Suc (Suc n))) prec p = Fault"
proof -
  let ?q = "parser_advance (su_ops u) p1"
  have rhs: "cx_expr (parsers u ot (Suc (Suc n))) 2 ?q = Ret (None, p2)"
    using assms(5,6) by (simp add: parsers_Suc stray_expr parsers_fields fail_with_def)
  have "parse_pipe (parsers u ot (Suc (Suc n))) (pa_cur p1) 1 left ?q = Fault"
    using assms(5) rhs by (auto simp: parse_pipe_def stray_def)
  then show ?thesis
    using assms(1-4) by (auto simp: p_parse_expr_def parsers_fields Let_def)
qed

text \<open>Names that are not treated specially, and tokens that end an operand.\<close>

definition plain_name :: "string \<Rightarrow> bool" where
  "plain_name w \<longleftrightarrow> w \<notin> {''async'', ''await'', ''null'', ''None'', ''expand''}"

definition ends_operand :: "token_kind \<Rightarrow> bool" where
  "ends_operand k \<longleftrightarrow>
     k \<notin> Punct ` {NY_T_QUESTION, NY_T_LPAREN, NY_T_DOT, NY_T_QUESTION_DOT, NY_T_LBRACK, NY_T_LBRACE}"

lemma postfix_ends: "ends_operand (cur_kind p) \<Longrightarrow> postfix_loop (Suc n) c e p = Ret (e, p)"
  by (auto simp: ends_operand_def Let_def)

lemma unary_ident:
  assumes "cur_kind p = NY_T_IDENT" "plain_name (cur_text p)" "0 < cx_fuel c"
    "parser_peek (cx_ops c) p = (nt, p0)" "ends_operand (cur_kind (parser_advance (cx_ops c) p0))"
  shows "parse_unary c p =
    Ret (Some (NY_E_IDENT (pa_cur p) (cur_text p) (tok_sym_id (pa_cur p)) (tok_hash (pa_cur p))), parser_advance (cx_ops c) p0)"
proof -
  obtain n where n: "cx_fuel c = Suc n"
    using assms(3) gr0_implies_Suc by blast
  have p0: "pa_cur p0 = pa_cur p" "cur_text p0 = cur_text p"
    using assms(4) by (auto simp: parser_peek_def cur_text_def split: prod.splits)
  show ?thesis
    using assms(1,2,4,5) p0 n
    by (simp add: parse_unary_def plain_name_def parse_postfix_def parse_primary_def parse_ident_def error_if_def postfix_ends Let_def
        del: postfix_loop.simps)
qed

theorem pipe_null_operand_witness:
  "p_parse_expr (parsers sample_settings sample_others 5) 0 (sample_parser ''x |> )'' empty_limiter) = Fault"
proof -
  let ?p = "sample_parser ''x |> )'' empty_limiter" and ?c = "parsers sample_settings sample_others 5"
  define p0 where "p0 = snd (parser_peek list_symbols ?p)"
  define p1 where "p1 = parser_advance list_symbols p0"
  let ?q = "parser_advance (su_ops sample_settings) p1"
  have p: "cur_kind ?p = NY_T_IDENT" "plain_name (cur_text ?p)"
    by (code_simp, code_simp)
  have p1: "cur_kind p1 = Punct NY_T_PIPE" "\<not> pa_skipped_newline p1"
    unfolding p1_def p0_def by (code_simp, code_simp)
  have q: "stray (cur_kind ?q)" "lm_cap (pa_diags ?q) = 0" "lm_len (pa_diags ?q) = 0" "pa_error_count ?q + 1 < pa_error_limit ?q"
    unfolding p1_def p0_def by (code_simp, code_simp, code_simp, code_simp)
  have ops: "cx_ops ?c = list_symbols" "su_ops sample_settings = list_symbols"
    by (simp_all add: parsers_fields sample_settings_def)
  obtain left where left: "parse_unary ?c ?p = Ret (left, p1)"
    using unary_ident [OF p, of ?c "fst (parser_peek list_symbols ?p)" p0] p1(1) ops(1) p0_def p1_def
    by (auto simp: parsers_fields ends_operand_def)
  obtain p2 where p2: "parser_error (pa_cur ?q) (stray_msg (cur_kind ?q)) None ?q = Ret p2"
    by (rule error_returns [OF q(2-4)])
  show ?thesis
    using pipe_null_operand [of sample_settings sample_others 3 ?p left p1 0 p2] left p1 q(1) p2 by (simp add: eval_nat_numeral)
qed

end
