(* ===== verification/Parser_Climb.thy ===== *)
theory Parser_Climb
  imports Parser_Errors
begin

text \<open>
  Precedence climbing reads operator expressions the way the table of precedences says: printing a tree with
  the parentheses it needs and parsing the tokens gives the tree back.
\<close>

section \<open>Trees and their tokens\<close>

datatype tree = Name string | Num string | Pre token_kind tree | Bin token_kind tree tree

type_synonym spelling = "token_kind \<times> string"

definition spelled :: "token_kind \<Rightarrow> spelling" where
  "spelled k = (k, parser_token_name k)"

abbreviation pow_kind :: token_kind where
  "pow_kind \<equiv> Op NY_T_POW"

text \<open>How tightly the root of a tree binds.\<close>

fun root_prec :: "tree \<Rightarrow> int" where
  "root_prec (Pre k t) = 8"
| "root_prec (Bin k l r) = precedence k"
| "root_prec _ = 10"

definition parens :: "spelling list \<Rightarrow> spelling list" where
  "parens ts = spelled (Punct NY_T_LPAREN) # ts @ [spelled (Punct NY_T_RPAREN)]"

text \<open>Operators of the same precedence group to the left, but for the power.\<close>

fun toks :: "int \<Rightarrow> tree \<Rightarrow> spelling list" where
  "toks prec (Name w) = [(NY_T_IDENT, w)]"
| "toks prec (Num w) = [(NY_T_NUMBER, w)]"
| "toks prec (Pre k t) = (let ts = spelled k # toks 8 t in if 8 < prec then parens ts else ts)"
| "toks prec (Bin k l r) =
     (let q = precedence k;
          ts = toks (if k = pow_kind then q + 1 else q) l @ spelled k # toks (if k = pow_kind then q else q + 1) r
      in if q < prec then parens ts else ts)"

fun wf_tree :: "('s, 'f) settings \<Rightarrow> tree \<Rightarrow> bool" where
  "wf_tree u (Name w) \<longleftrightarrow> plain_name w"
| "wf_tree u (Num w) \<longleftrightarrow> snd (number_literal (su_strtod u) (su_zero u) w) = []"
| "wf_tree u (Pre k t) \<longleftrightarrow> k \<in> Op ` {NY_T_MINUS, NY_T_NOT, NY_T_BITNOT} \<and> wf_tree u t"
| "wf_tree u (Bin k l r) \<longleftrightarrow> 0 < precedence k \<and> k \<noteq> Punct NY_T_PIPE \<and> wf_tree u l \<and> wf_tree u r"

text \<open>What the parser makes of a tree.\<close>

primrec denotes :: "('s, 'f) settings \<Rightarrow> tree \<Rightarrow> ('f, 'x) expr \<Rightarrow> bool" where
  "denotes u (Name w) = (\<lambda>e. case e of NY_E_IDENT tok name sid hash \<Rightarrow> name = w | _ \<Rightarrow> False)"
| "denotes u (Num w) = (\<lambda>e. case e of NY_E_LITERAL tok lit \<Rightarrow> lit = fst (number_literal (su_strtod u) (su_zero u) w) | _ \<Rightarrow> False)"
| "denotes u (Pre k t) = (\<lambda>e. case e of NY_E_UNARY tok op (Some e1) \<Rightarrow> op = parser_token_name k \<and> denotes u t e1 | _ \<Rightarrow> False)"
| "denotes u (Bin k l r) =
     (\<lambda>e. case e of
        NY_E_BINARY tok op (Some a) (Some b) \<Rightarrow>
          k \<notin> {Op NY_T_AND, Op NY_T_OR, Punct NY_T_QUESTION_QUESTION} \<and> op = parser_token_name k \<and> denotes u l a \<and> denotes u r b
      | NY_E_LOGICAL tok op (Some a) (Some b) \<Rightarrow>
          k \<in> {Op NY_T_AND, Op NY_T_OR} \<and> op = parser_token_name k \<and> denotes u l a \<and> denotes u r b
      | NY_E_TERNARY tok (Some a) (Some a') (Some b) \<Rightarrow>
          k = Punct NY_T_QUESTION_QUESTION \<and> a' = a \<and> denotes u l a \<and> denotes u r b
      | _ \<Rightarrow> False)"

section \<open>Reading tokens\<close>

text \<open>The parser looks at the token behind an identifier before it reads on.\<close>

definition next_state :: "'s sym_ops \<Rightarrow> 's parser_t \<Rightarrow> 's parser_t" where
  "next_state ops p = parser_advance ops (if cur_kind p = NY_T_IDENT then snd (parser_peek ops p) else p)"

fun read_toks :: "'s sym_ops \<Rightarrow> spelling list \<Rightarrow> 's parser_t \<Rightarrow> 's parser_t option" where
  "read_toks ops [] p = Some p"
| "read_toks ops ((k, w) # ts) p = (if cur_kind p = k \<and> cur_text p = w then read_toks ops ts (next_state ops p) else None)"

lemma read_append: "read_toks ops (xs @ ys) p = Option.bind (read_toks ops xs p) (read_toks ops ys)"
  by (induction ops xs p rule: read_toks.induct) simp_all

lemma stop_advance [simp]: "pa_stop_expr_at_newline (parser_advance ops p) = pa_stop_expr_at_newline p"
  by (simp add: parser_advance_def count_lex_errors_def Let_def split: prod.splits)

lemma stop_read: "read_toks ops ts p = Some p' \<Longrightarrow> pa_stop_expr_at_newline p' = pa_stop_expr_at_newline p"
  by (induction ops ts p rule: read_toks.induct)
    (auto simp: next_state_def parser_peek_def split: if_splits prod.splits)

lemma toks_parens: "toks prec t = (if root_prec t < prec then parens (toks 0 t) else toks 0 t)" if "prec \<le> 9" "wf_tree u t"
  using that by (cases t) (auto simp: Let_def)

lemma toks_nonempty: "0 < length (toks prec t)"
  by (cases t) (auto simp: parens_def Let_def)

text \<open>The number of operators that the loop reads for a tree, and the precedence that ends it.\<close>

fun spine :: "int \<Rightarrow> tree \<Rightarrow> nat" where
  "spine prec (Bin k l r) =
     (if precedence k < prec then 0 else Suc (spine (if k = pow_kind then precedence k + 1 else precedence k) l))"
| "spine prec t = 0"

fun bound :: "tree \<Rightarrow> int" where
  "bound (Pre k t) = 8"
| "bound (Bin k l r) = (if k = pow_kind then 8 else precedence k + 1)"
| "bound t = 100"

lemma spine_less: "spine prec t < length (toks prec t)"
proof (induction t arbitrary: prec)
  case (Bin k l r)
  show ?case
    using Bin.IH(1) [of "if k = pow_kind then precedence k + 1 else precedence k"]
    by (simp add: Let_def parens_def del: precedence.simps)
qed (auto simp: Let_def parens_def)

lemma operator_prec_le: "operator_precedence k \<le> 8 \<and> (operator_precedence k = 8 \<longleftrightarrow> k = NY_T_POW)"
  by (cases k) simp_all

lemma prec_le: "precedence k \<le> 8" "precedence k = 8 \<longleftrightarrow> k = pow_kind" "0 \<le> precedence k"
proof -
  have "0 \<le> operator_precedence j" for j
    by (cases j) simp_all
  then show "precedence k \<le> 8" "precedence k = 8 \<longleftrightarrow> k = pow_kind" "0 \<le> precedence k"
    using operator_prec_le by (cases k; simp)+
qed

lemma operator_kinds:
  assumes "0 < precedence k"
  shows "ends_operand k" "k \<noteq> NY_T_IDENT"
  using assms by (cases k; auto simp: ends_operand_def)+

section \<open>Operands\<close>

lemma unary_number:
  assumes "cur_kind p = NY_T_NUMBER" "snd (number_literal (cx_strtod c) (cx_zero c) (cur_text p)) = []" "0 < cx_fuel c"
    "ends_operand (cur_kind (parser_advance (cx_ops c) p))"
  shows "parse_unary c p =
    Ret (Some (NY_E_LITERAL (pa_cur p) (fst (number_literal (cx_strtod c) (cx_zero c) (cur_text p)))), parser_advance (cx_ops c) p)"
proof -
  obtain n where n: "cx_fuel c = Suc n"
    using assms(3) gr0_implies_Suc by blast
  obtain lit where lit: "number_literal (cx_strtod c) (cx_zero c) (cur_text p) = (lit, [])"
    using assms(2) by (metis prod.collapse)
  show ?thesis
    using assms(1,4) n lit
    by (simp add: parse_unary_def parse_postfix_def parse_primary_def parse_number_def postfix_ends Let_def del: postfix_loop.simps)
qed

lemma unary_paren:
  assumes "cur_kind p = Punct NY_T_LPAREN" "0 < cx_fuel c" "cur_kind (parser_advance (cx_ops c) p) \<noteq> Punct NY_T_RPAREN"
    "cx_expr c 0 (parser_advance (cx_ops c) p) = Ret (Some e, p1)" "cur_kind p1 = Punct NY_T_RPAREN"
    "ends_operand (cur_kind (parser_advance (cx_ops c) p1))"
  shows "parse_unary c p = Ret (Some e, parser_advance (cx_ops c) p1)"
proof -
  obtain n where n: "cx_fuel c = Suc n"
    using assms(2) gr0_implies_Suc by blast
  show ?thesis
    using assms(1,3-6) n
    by (simp add: parse_unary_def parse_postfix_def parse_primary_def parse_paren_def parser_expect_def postfix_ends Let_def
        del: postfix_loop.simps)
qed

lemma unary_prefix:
  assumes "cur_kind p \<in> Op ` {NY_T_MINUS, NY_T_NOT, NY_T_BITNOT}" "cx_expr c 8 (parser_advance (cx_ops c) p) = Ret (Some e, p1)"
  shows "parse_unary c p = Ret (Some (NY_E_UNARY (pa_cur p) (parser_token_name (cur_kind p)) (Some e)), p1)"
  using assms by (auto simp: parse_unary_def prefix_op_def Let_def)

lemma binary_stops:
  "precedence (cur_kind p) < prec \<or> precedence (cur_kind p) = 0 \<Longrightarrow> binary_loop (Suc n) c prec left p = Ret ((left, False), p)"
  by (auto simp: Let_def)

lemma binary_steps:
  assumes "\<not> pa_stop_expr_at_newline p" "prec \<le> precedence (cur_kind p)" "0 < precedence (cur_kind p)" "cur_kind p \<noteq> Punct NY_T_PIPE"
    "cx_expr c (if cur_kind p = pow_kind then precedence (cur_kind p) else precedence (cur_kind p) + 1) (parser_advance (cx_ops c) p) = Ret (right, p1)"
  shows "binary_loop (Suc n) c prec left p = binary_loop n c prec (Some (binary_node (pa_cur p) (cur_text p) left right)) p1"
  using assms by (simp add: Let_def)

lemma binary_node_denotes:
  assumes "denotes u l a" "denotes u r b" "text = parser_token_name (tok_kind tok)"
  shows "denotes u (Bin (tok_kind tok) l r) (binary_node tok text (Some a) (Some b))"
  using assms by (auto simp: binary_node_def)

section \<open>The round trip\<close>

text \<open>What the first operand and the loop make of the tokens of a tree without outer parentheses.\<close>

definition climbs ::
  "('s, 'f) settings \<Rightarrow> ('s, 'f, 'x) others \<Rightarrow> nat \<Rightarrow> int \<Rightarrow> nat \<Rightarrow> tree \<Rightarrow> 's parser_t \<Rightarrow> 's parser_t \<Rightarrow> bool" where
  "climbs u ot N prec k t p p' \<longleftrightarrow>
     (\<exists>e. denotes u t e \<and>
        (\<forall>m. and_then (parse_unary (parsers u ot N) p) (\<lambda>(left, p1). binary_loop (m + k) (parsers u ot N) prec left p1) =
             binary_loop m (parsers u ot N) prec (Some e) p'))"

lemma climbs_unary: "parse_unary (parsers u ot N) p = Ret (Some e, p') \<Longrightarrow> denotes u t e \<Longrightarrow> climbs u ot N prec 0 t p p'"
  by (auto simp: climbs_def)

lemma climbs_expr:
  assumes "climbs u ot N prec k t p p'" "k < N" "precedence (cur_kind p') < prec \<or> precedence (cur_kind p') = 0"
    "ends_operand (cur_kind p')"
  obtains e where "p_parse_expr (parsers u ot N) prec p = Ret (Some e, p')" "denotes u t e"
proof -
  obtain m where m: "N = Suc m + k"
    using assms(2) by (metis add_Suc less_iff_Suc_add add.commute)
  obtain e where e: "denotes u t e" "and_then (parse_unary (parsers u ot N) p) (\<lambda>(left, p1). binary_loop (Suc m + k) (parsers u ot N) prec left p1) =
      binary_loop (Suc m) (parsers u ot N) prec (Some e) p'"
    using assms(1) unfolding climbs_def by blast
  have "and_then (parse_unary (parsers u ot N) p) (\<lambda>(left, p1). binary_loop N (parsers u ot N) prec left p1) = Ret ((Some e, False), p')"
    using e(2) m binary_stops [OF assms(3)] by (simp del: binary_loop.simps)
  then obtain left p1 where l: "parse_unary (parsers u ot N) p = Ret (left, p1)" "binary_loop N (parsers u ot N) prec left p1 = Ret ((Some e, False), p')"
    by (auto simp: and_then_Ret simp del: binary_loop.simps)
  have "cur_kind p' \<noteq> Punct NY_T_QUESTION"
    using assms(4) by (auto simp: ends_operand_def)
  then have "p_parse_expr (parsers u ot N) prec p = Ret (Some e, p')"
    using l by (simp add: p_parse_expr_def parsers_fields del: binary_loop.simps)
  then show ?thesis
    using that e(1) by blast
qed

text \<open>A tree in the place of an operand that asks for a precedence.\<close>

definition readable :: "('s, 'f) settings \<Rightarrow> tree \<Rightarrow> nat \<Rightarrow> 's parser_t \<Rightarrow> 's parser_t \<Rightarrow> int \<Rightarrow> bool" where
  "readable u t N p p' prec \<longleftrightarrow>
     read_toks (su_ops u) (toks prec t) p = Some p' \<and> length (toks prec t) \<le> N \<and> ends_operand (cur_kind p') \<and>
     \<not> pa_stop_expr_at_newline p \<and> wf_tree u t"

lemma first_not_rparen:
  assumes "read_toks ops (toks prec t) p = Some p'" "wf_tree u t"
  shows "cur_kind p \<noteq> Punct NY_T_RPAREN"
  using assms
proof (induction t arbitrary: prec p p')
  case (Bin k l r)
  show ?case
    using Bin.prems Bin.IH(1) [of "if k = pow_kind then precedence k + 1 else precedence k" p]
    by (auto simp: Let_def parens_def spelled_def read_append Option.bind_eq_Some_conv split: if_splits)
qed (auto simp: Let_def parens_def spelled_def split: if_splits)

definition climbable :: "('s, 'f) settings \<Rightarrow> ('s, 'f, 'x) others \<Rightarrow> tree \<Rightarrow> bool" where
  "climbable u ot t \<longleftrightarrow>
     (\<forall>N p p' prec. readable u t N p p' 0 \<longrightarrow> prec \<le> root_prec t \<longrightarrow> precedence (cur_kind p') < bound t \<longrightarrow>
        climbs u ot N prec (spine 0 t) t p p')"

lemma climb_operand:
  assumes IH: "climbable u ot t"
    and t: "readable u t N p p' q" "q \<le> 9" "prec \<le> q" "root_prec t < q \<or> precedence (cur_kind p') < bound t"
  shows "climbs u ot N prec (spine q t) t p p'"
proof (cases "root_prec t < q")
  case False
  have "toks q t = toks 0 t" "spine q t = spine 0 t"
    using False t(1,2) toks_parens [of q u t] prec_le(3) by (cases t; auto simp: readable_def)+
  then show ?thesis
    using IH t False by (simp add: climbable_def readable_def)
next
  case True
  have ts: "toks q t = parens (toks 0 t)" "spine q t = 0"
    using True t(1,2) toks_parens [of q u t] by (cases t; auto simp: readable_def)+
  define p1 where "p1 = parser_advance (su_ops u) p"
  obtain p2 where p2: "read_toks (su_ops u) (toks 0 t) p1 = Some p2" "cur_kind p2 = Punct NY_T_RPAREN" "p' = parser_advance (su_ops u) p2"
      "cur_kind p = Punct NY_T_LPAREN"
    using t(1) ts(1)
    by (auto simp: readable_def parens_def spelled_def read_append Option.bind_eq_Some_conv next_state_def p1_def split: if_splits)
  obtain M where M: "N = Suc M" "length (toks 0 t) < M"
    using t(1) ts(1) by (cases N) (auto simp: readable_def parens_def)
  have r: "readable u t M p1 p2 0"
    using t(1) p2(1,2) M(2) by (auto simp: readable_def p1_def ends_operand_def)
  have b: "precedence (cur_kind p2) < bound t" "0 \<le> root_prec t"
    using p2(2) prec_le(3) by (cases t; auto simp: add_strict_increasing2)+
  have "climbs u ot M 0 (spine 0 t) t p1 p2"
    using IH r b unfolding climbable_def by blast
  then obtain e where e: "p_parse_expr (parsers u ot M) 0 p1 = Ret (Some e, p2)" "denotes u t e"
    by (rule climbs_expr) (use p2(2) M(2) spine_less [of 0 t] r in \<open>auto simp: readable_def\<close>)
  have "cur_kind p1 \<noteq> Punct NY_T_RPAREN"
    using first_not_rparen [OF p2(1)] t(1) by (auto simp: readable_def)
  then have "parse_unary (parsers u ot N) p = Ret (Some e, p')"
    using unary_paren [of p "parsers u ot N" e p2] p2 e(1) t(1) M(1)
    by (simp add: parsers_fields parsers_Suc p1_def readable_def)
  then show ?thesis
    using climbs_unary e(2) ts(2) by simp
qed

lemma parsers_float: "cx_strtod (parsers u ot n) = su_strtod u" "cx_zero (parsers u ot n) = su_zero u"
  by (induction n) (simp_all add: parsers.simps Let_def)

lemma left_bound:
  assumes "ql = (if k = pow_kind then precedence k + 1 else precedence k)" "\<not> root_prec l < ql"
  shows "precedence k < bound l"
  using assms prec_le(1,2) [of k] prec_le(1,2) by (cases l) (fastforce split: if_splits)+

lemma right_bound:
  assumes "i < qr" "qr \<le> 8" "\<not> root_prec r < qr"
  shows "i < bound r"
  using assms by (cases r) (auto simp: prec_le)

lemma climb_pre:
  assumes "climbable u ot t" "readable u (Pre k t) N p p' 0" "prec \<le> root_prec (Pre k t)" "precedence (cur_kind p') < bound (Pre k t)"
  shows "climbs u ot N prec (spine 0 (Pre k t)) (Pre k t) p p'"
proof -
  define p1 where "p1 = parser_advance (su_ops u) p"
  have k: "k \<in> Op ` {NY_T_MINUS, NY_T_NOT, NY_T_BITNOT}"
    using assms(2) by (simp add: readable_def)
  have p: "cur_kind p = k" "read_toks (su_ops u) (toks 8 t) p1 = Some p'"
    using assms(2) k by (auto simp: readable_def spelled_def Let_def next_state_def p1_def split: if_splits)
  obtain M where M: "N = Suc M" "length (toks 8 t) \<le> M"
    using assms(2) by (cases N) (auto simp: readable_def Let_def)
  have r: "readable u t M p1 p' 8"
    using assms(2) p(2) M(2) by (simp add: readable_def p1_def)
  have b: "precedence (cur_kind p') < 8"
    using assms(4) by simp
  have "climbs u ot M 8 (spine 8 t) t p1 p'"
    by (rule climb_operand [OF assms(1) r]) (use right_bound [OF b] in auto)
  then obtain e where e: "p_parse_expr (parsers u ot M) 8 p1 = Ret (Some e, p')" "denotes u t e"
    by (rule climbs_expr) (use b M(2) spine_less [of 8 t] r in \<open>auto simp: readable_def\<close>)
  have "parse_unary (parsers u ot N) p = Ret (Some (NY_E_UNARY (pa_cur p) (parser_token_name k) (Some e)), p')"
    using unary_prefix [of p "parsers u ot N" e p'] k p(1) e(1) M(1) by (simp add: parsers_Suc parsers_fields p1_def)
  then show ?thesis
    using e(2) by (simp add: climbs_unary)
qed

lemma climb_bin:
  assumes "climbable u ot l" "climbable u ot r" "readable u (Bin k l r) N p p' 0" "prec \<le> root_prec (Bin k l r)"
    "precedence (cur_kind p') < bound (Bin k l r)"
  shows "climbs u ot N prec (spine 0 (Bin k l r)) (Bin k l r) p p'"
proof -
  define q where "q = precedence k"
  define ql where "ql = (if k = pow_kind then q + 1 else q)"
  define qr where "qr = (if k = pow_kind then q else q + 1)"
  have k: "0 < q" "k \<noteq> Punct NY_T_PIPE" "wf_tree u l" "wf_tree u r"
    using assms(3) by (simp_all add: readable_def q_def)
  have ts: "toks 0 (Bin k l r) = toks ql l @ spelled k # toks qr r"
    using k(1) by (simp add: Let_def ql_def qr_def q_def)
  obtain p1 where p1: "read_toks (su_ops u) (toks ql l) p = Some p1" "cur_kind p1 = k" "cur_text p1 = parser_token_name k"
      "read_toks (su_ops u) (toks qr r) (next_state (su_ops u) p1) = Some p'"
    using assms(3) ts by (auto simp: readable_def read_append spelled_def Option.bind_eq_Some_conv split: if_splits)
  define p2 where "p2 = parser_advance (su_ops u) p1"
  have op: "ends_operand k" "next_state (su_ops u) p1 = p2"
    using operator_kinds [of k] k(1) p1(2) by (auto simp: q_def p2_def next_state_def)
  obtain M where M: "N = Suc M" "length (toks qr r) \<le> M" "length (toks ql l) \<le> N"
    using assms(3) ts by (cases N) (auto simp: readable_def)
  have rl: "readable u l N p p1 ql"
    using assms(3) p1(1,2) M(3) op(1) k(3) by (simp add: readable_def)
  have rr: "readable u r M p2 p' qr"
    using assms(3) p1(4) M(2) op(2) k(4) stop_read [OF p1(1)] by (simp add: readable_def p2_def)
  have q: "ql \<le> 9" "qr \<le> 8" "prec \<le> ql" "precedence (cur_kind p') < qr" "q \<le> qr"
    using assms(4,5) prec_le(1,2) [of k] by (auto simp: ql_def qr_def q_def split: if_splits)
  have "climbs u ot N prec (spine ql l) l p p1"
  proof (rule climb_operand [OF assms(1) rl q(1,3)])
    have "ql = (if k = pow_kind then precedence k + 1 else precedence k)"
      by (simp add: ql_def q_def)
    then show "root_prec l < ql \<or> precedence (cur_kind p1) < bound l"
      using left_bound p1(2) by blast
  qed
  then obtain el where el: "denotes u l el" "\<And>m. and_then (parse_unary (parsers u ot N) p) (\<lambda>(left, p1). binary_loop (m + spine ql l) (parsers u ot N) prec left p1) =
      binary_loop m (parsers u ot N) prec (Some el) p1"
    unfolding climbs_def by blast
  have "climbs u ot M qr (spine qr r) r p2 p'"
    by (rule climb_operand [OF assms(2) rr]) (use right_bound [OF q(4,2)] q(2) in auto)
  then obtain er where er: "p_parse_expr (parsers u ot M) qr p2 = Ret (Some er, p')" "denotes u r er"
    by (rule climbs_expr) (use q(4) M(2) spine_less [of qr r] rr in \<open>auto simp: readable_def\<close>)
  let ?e = "binary_node (pa_cur p1) (parser_token_name k) (Some el) (Some er)"
  have "and_then (parse_unary (parsers u ot N) p) (\<lambda>(left, p1). binary_loop (m + Suc (spine ql l)) (parsers u ot N) prec left p1) =
      binary_loop m (parsers u ot N) prec (Some ?e) p'" for m
  proof -
    have "binary_loop (Suc m) (parsers u ot N) prec (Some el) p1 = binary_loop m (parsers u ot N) prec (Some ?e) p'"
      using binary_steps [of p1 prec "parsers u ot N" "Some er" p' m "Some el"] assms(3,4) k(1,2) p1(2,3) er(1) M(1) stop_read [OF p1(1)]
      by (simp add: readable_def q_def qr_def parsers_fields parsers_Suc p2_def del: binary_loop.simps split: if_splits)
    then show ?thesis
      using el(2) [of "Suc m"] by (simp del: binary_loop.simps)
  qed
  moreover have "denotes u (Bin k l r) ?e"
    using binary_node_denotes [OF el(1) er(2), of "parser_token_name k" "pa_cur p1"] p1(2) by simp
  moreover have "spine 0 (Bin k l r) = Suc (spine ql l)"
    using k(1) by (simp add: ql_def q_def)
  ultimately show ?thesis
    unfolding climbs_def by (simp only:) blast
qed

lemma climb: "climbable u ot t"
proof (induction t)
  case (Name w)
  show ?case
    unfolding climbable_def
  proof (intro allI impI)
    fix N and p p' :: "'a parser_t" and prec :: int
    assume "readable u (Name w) N p p' 0"
    then have "cur_kind p = NY_T_IDENT" "cur_text p = w" "p' = parser_advance (su_ops u) (snd (parser_peek (su_ops u) p))" "0 < N"
      "ends_operand (cur_kind p')" "plain_name w"
      by (auto simp: readable_def next_state_def split: if_splits)
    then show "climbs u ot N prec (spine 0 (Name w)) (Name w) p p'"
      using unary_ident [of p "parsers u ot N" "fst (parser_peek (su_ops u) p)" "snd (parser_peek (su_ops u) p)"]
      by (simp add: parsers_fields climbs_unary)
  qed
next
  case (Num w)
  show ?case
    unfolding climbable_def
  proof (intro allI impI)
    fix N and p p' :: "'a parser_t" and prec :: int
    assume "readable u (Num w) N p p' 0"
    then have "cur_kind p = NY_T_NUMBER" "cur_text p = w" "p' = parser_advance (su_ops u) p" "0 < N" "ends_operand (cur_kind p')"
      "snd (number_literal (su_strtod u) (su_zero u) w) = []"
      by (auto simp: readable_def next_state_def split: if_splits)
    then show "climbs u ot N prec (spine 0 (Num w)) (Num w) p p'"
      using unary_number [of p "parsers u ot N"] by (simp add: parsers_fields parsers_float climbs_unary)
  qed
next
  case (Pre k t)
  then show ?case
    unfolding climbable_def [of u ot "Pre k t"] using climb_pre by blast
next
  case (Bin k l r)
  then show ?case
    unfolding climbable_def [of u ot "Bin k l r"] using climb_bin by blast
qed

text \<open>
  C18: operator expressions are parsed by precedence and associativity. Take any tree of names, numbers, prefix
  and binary operators (all but the pipe), write its tokens with parentheses exactly where the table of
  precedences demands them, and let the parser stand at the first of them, with a token behind that does not
  continue the expression: \<open>p_parse_expr\<close> returns, reads exactly these tokens and builds the nodes of the tree.
  Fuel for one level per token is enough.
\<close>

theorem precedence_roundtrip:
  assumes "wf_tree u t" "read_toks (su_ops u) (toks 0 t) p = Some p'" "length (toks 0 t) \<le> N"
    "\<not> pa_stop_expr_at_newline p" "precedence (cur_kind p') = 0" "ends_operand (cur_kind p')"
  shows "\<exists>e. p_parse_expr (parsers u ot N) 0 p = Ret (Some e, p') \<and> denotes u t e"
proof -
  have r: "readable u t N p p' 0"
    using assms by (simp add: readable_def)
  have b: "0 \<le> root_prec t" "precedence (cur_kind p') < bound t"
    using assms(5) prec_le(3) by (cases t; auto simp: add_strict_increasing2)+
  have "climbs u ot N 0 (spine 0 t) t p p'"
    using climb [of u ot t] r b unfolding climbable_def by blast
  then show ?thesis
    by (rule climbs_expr) (use assms spine_less [of 0 t] in auto)
qed

definition sample_tree :: tree where
  "sample_tree = Bin (Op NY_T_MINUS) (Num ''1'') (Bin (Op NY_T_MINUS) (Num ''2'') (Name ''x''))"

theorem precedence_roundtrip_witness:
  "\<exists>e p'. p_parse_expr (parsers sample_settings sample_others 7) 0 (sample_parser ''1-(2-x)'' empty_limiter) = Ret (Some e, p') \<and>
     denotes sample_settings sample_tree e"
proof -
  let ?p = "sample_parser ''1-(2-x)'' empty_limiter"
  have wf: "wf_tree sample_settings sample_tree" and len: "length (toks 0 sample_tree) \<le> 7" and stop: "\<not> pa_stop_expr_at_newline ?p"
    by code_simp+
  have "case read_toks list_symbols (toks 0 sample_tree) ?p of
      None \<Rightarrow> False | Some p' \<Rightarrow> precedence (cur_kind p') = 0 \<and> ends_operand (cur_kind p')"
    by code_simp
  then obtain p' where "read_toks (su_ops sample_settings) (toks 0 sample_tree) ?p = Some p'" "precedence (cur_kind p') = 0"
      "ends_operand (cur_kind p')"
    by (auto simp: sample_settings_def split: option.splits)
  then show ?thesis
    using precedence_roundtrip [OF wf _ len stop] by blast
qed

end
