(* ===== verification/Parser_Progress.thy ===== *)
theory Parser_Progress
  imports Parser_Errors
begin

text \<open>
  The parser returns. What is still to be read, counted in bytes, gets smaller with every token, and each
  function that calls another one back or goes round its loop has read a token before, but for the
  statement that is an expression. So fuel for two levels per byte is enough, for the depth of the recursion
  and for the rounds of the loops. The table of diagnostics keeps a free slot, so that reporting an
  error returns, too.
\<close>

section \<open>The table of diagnostics\<close>

definition diag_table_ok :: "string limiter \<Rightarrow> bool" where
  "diag_table_ok s \<longleftrightarrow>
     lm_cap s = 0 \<and> lm_len s = 0 \<or>
     (\<exists>M. counted parse_diag_hash (lm_cap s) (lm_tbl s) M \<and> card (dom M) = lm_len s) \<and> 2 \<le> lm_cap s \<and> 3 * lm_len s < 2 * lm_cap s"

lemma diag_table_ok_empty: "diag_table_ok empty_limiter"
  by (simp add: diag_table_ok_def empty_limiter_def)

lemma table_ready:
  assumes "diag_table_ok s"
  obtains t M where
    "(if lm_cap s = 0 \<or> (lm_len s + 1) * 3 \<ge> lm_cap s * 2 then parse_diag_grow s else Some s) = Some t"
    "counted parse_diag_hash (lm_cap t) (lm_tbl t) M" "card (dom M) = lm_len t" "2 \<le> lm_cap t" "(lm_len t + 1) * 3 < lm_cap t * 2"
proof (cases "lm_cap s = 0")
  case True
  then have "parse_diag_grow s = Some \<lparr>lm_tbl = (\<lambda>_. None), lm_cap = 1024, lm_len = 0\<rparr>"
    using assms by (cases s) (simp add: parse_diag_grow_def regrow_def diag_table_ok_def)
  then show thesis
    using that [of "\<lparr>lm_tbl = (\<lambda>_. None), lm_cap = 1024, lm_len = 0\<rparr>" Map.empty] counted_empty [OF pow2_1024, of parse_diag_hash] True by simp
next
  case False
  then obtain M where M: "counted parse_diag_hash (lm_cap s) (lm_tbl s) M" "card (dom M) = lm_len s"
    and s: "2 \<le> lm_cap s" "3 * lm_len s < 2 * lm_cap s"
    using assms by (auto simp: diag_table_ok_def)
  show thesis
  proof (cases "(lm_len s + 1) * 3 \<ge> lm_cap s * 2")
    case grow: True
    have "pow2 (lm_cap s * 2)"
      using M(1) pow2_double by (simp add: counted_def slots_ok_def)
    then obtain t' where "regrow parse_diag_hash (lm_cap s * 2) s = Some (s\<lparr>lm_tbl := t', lm_cap := lm_cap s * 2\<rparr>)"
        "counted parse_diag_hash (lm_cap s * 2) t' M"
      using regrow_counted [OF M(1), of "lm_cap s * 2"] M(2) s by fastforce
    then show thesis
      using that [of "s\<lparr>lm_tbl := t', lm_cap := lm_cap s * 2\<rparr>" M] grow False s M(2) by (simp add: parse_diag_grow_def)
  qed (use that [of s M] False s M in simp)
qed

lemma diag_emit_returns:
  assumes "diag_table_ok s"
  obtains b s' where "diag_emit key s = Some (b, s')" "diag_table_ok s'"
proof -
  obtain t M where t: "(if lm_cap s = 0 \<or> (lm_len s + 1) * 3 \<ge> lm_cap s * 2 then parse_diag_grow s else Some s) = Some t"
      "counted parse_diag_hash (lm_cap t) (lm_tbl t) M" "card (dom M) = lm_len t" "2 \<le> lm_cap t" "(lm_len t + 1) * 3 < lm_cap t * 2"
    by (rule table_ready [OF assms])
  have fin: "finite (dom M)" and room: "card (dom M) < lm_cap t"
    using t(2,3,5) by (simp_all add: counted_def slots_ok_def)
  obtain p where p: "find_slot parse_diag_hash key t = Some p"
      "case lm_tbl t p of None \<Rightarrow> (key = key \<longrightarrow> M key = None) \<and> (\<forall>c. M key = None \<longrightarrow> counted parse_diag_hash (lm_cap t) ((lm_tbl t)(p := Some (key, c))) (M(key \<mapsto> c)))
       | Some (k', c) \<Rightarrow> k' = key \<and> key = key \<and> M key = Some c \<and> (\<forall>c'. counted parse_diag_hash (lm_cap t) ((lm_tbl t)(p := Some (key, c'))) (M(key \<mapsto> c')))"
    unfolding find_slot_def by (rule counted_find [where P = "\<lambda>k'. k' = key" and k = key, OF t(2) room]) assumption
  show thesis
  proof (cases "lm_tbl t p")
    case None
    have "counted parse_diag_hash (lm_cap t) ((lm_tbl t)(p := Some (key, 1))) (M(key \<mapsto> 1))" "card (dom (M(key \<mapsto> 1))) = lm_len t + 1"
      using p(2) None fin t(3) by (simp_all add: card_insert_if domIff)
    then have "diag_table_ok (t\<lparr>lm_tbl := (lm_tbl t)(p := Some (key, 1)), lm_len := lm_len t + 1\<rparr>)"
      unfolding diag_table_ok_def using t(4,5) by auto
    then show thesis
      using that p(1) None unfolding diag_emit_def t(1) by simp
  next
    case (Some e)
    obtain c where e: "e = (key, c)" and m: "M key = Some c"
        and k: "\<And>c'. counted parse_diag_hash (lm_cap t) ((lm_tbl t)(p := Some (key, c'))) (M(key \<mapsto> c'))"
      using p(2) Some by (cases e) simp
    have "card (dom (M(key \<mapsto> bump c))) = lm_len t"
      using m t(3) by (simp add: insert_absorb domI)
    then have "diag_table_ok (t\<lparr>lm_tbl := (lm_tbl t)(p := Some (key, bump c))\<rparr>)"
      unfolding diag_table_ok_def using k [of "bump c"] t(4,5) by (auto simp del: dom_fun_upd)
    then show thesis
      using that p(1) Some e unfolding diag_emit_def t(1) by simp
  qed
qed

section \<open>What is left to read\<close>

definition weight :: "'s parser_t \<Rightarrow> nat" where
  "weight p = tok_len (pa_cur p) + (length (lx_src (pa_lex p)) - lx_pos (pa_lex p))"

text \<open>
  A state of the parser: the lexer is inside of the source, the token has the text of its kind, and only the
  token at the end of the source is empty.
\<close>

definition alive :: "'s parser_t \<Rightarrow> bool" where
  "alive p \<longleftrightarrow>
     lexer_ok (pa_lex p) \<and> diag_table_ok (pa_diags p) \<and>
     (cur_kind p \<noteq> NY_T_EOF \<longrightarrow> token_shape (cur_kind p) (cur_text p) \<and> 0 < tok_len (pa_cur p)) \<and>
     (tok_len (pa_cur p) = 0 \<longrightarrow> lx_pos (pa_lex p) = length (lx_src (pa_lex p)))"

text \<open>In the same source, something has been read, or the token is the same; reaching the error limit turns it into the end of the file.\<close>

definition onward :: "'s parser_t \<Rightarrow> 's parser_t \<Rightarrow> bool" where
  "onward p q \<longleftrightarrow>
     lx_src (pa_lex q) = lx_src (pa_lex p) \<and>
     (weight q < weight p \<or> weight q = weight p \<and> (cur_kind q = NY_T_EOF \<or> same_token (pa_cur q) (pa_cur p)))"

lemma onward_refl [simp, intro]: "onward p p"
  by (simp add: onward_def same_token_def)

lemma onward_trans: "onward p q \<Longrightarrow> onward q r \<Longrightarrow> onward p r"
  by (auto simp: onward_def same_token_def)

lemma onward_weight: "onward p q \<Longrightarrow> weight q \<le> weight p"
  by (auto simp: onward_def)

text \<open>Only the token, the position and the table count.\<close>

lemma weight_updates [simp]:
  "weight (p\<lparr>pa_diags := d\<rparr>) = weight p" "weight (p\<lparr>pa_quiet := b\<rparr>) = weight p"
  "weight (p\<lparr>pa_stop_expr_at_newline := b\<rparr>) = weight p" "weight (p\<lparr>pa_block_depth := i\<rparr>) = weight p"
  "weight (p\<lparr>pa_loop_depth := i\<rparr>) = weight p" "weight (p\<lparr>pa_lex := (pa_lex p)\<lparr>lx_syms := y\<rparr>\<rparr>) = weight p"
  by (simp_all add: weight_def)

lemma onward_updates [simp]:
  "onward a (p\<lparr>pa_diags := d\<rparr>) = onward a p" "onward a (p\<lparr>pa_quiet := b\<rparr>) = onward a p"
  "onward a (p\<lparr>pa_stop_expr_at_newline := b\<rparr>) = onward a p" "onward a (p\<lparr>pa_block_depth := i\<rparr>) = onward a p"
  "onward a (p\<lparr>pa_loop_depth := i\<rparr>) = onward a p" "onward a (p\<lparr>pa_lex := (pa_lex p)\<lparr>lx_syms := y\<rparr>\<rparr>) = onward a p"
  by (simp_all add: onward_def)

lemma alive_updates [simp]:
  "alive (p\<lparr>pa_quiet := b\<rparr>) = alive p"
  "alive (p\<lparr>pa_stop_expr_at_newline := b\<rparr>) = alive p" "alive (p\<lparr>pa_block_depth := i\<rparr>) = alive p"
  "alive (p\<lparr>pa_loop_depth := i\<rparr>) = alive p" "alive (p\<lparr>pa_lex := (pa_lex p)\<lparr>lx_syms := y\<rparr>\<rparr>) = alive p"
  by (simp_all add: alive_def lexer_ok_def cur_text_def)

lemma diags_advance [simp]: "pa_diags (parser_advance ops p) = pa_diags p"
  by (simp add: parser_advance_def count_lex_errors_def Let_def split: prod.splits)

lemma advance_token:
  assumes "lexer_ok (pa_lex p)"
  obtains k where "token_in (pa_lex p) ((pa_cur (parser_advance ops p))\<lparr>tok_kind := k\<rparr>) (pa_lex (parser_advance ops p))"
    "cur_kind (parser_advance ops p) = k \<or> cur_kind (parser_advance ops p) = NY_T_EOF"
proof -
  obtain t lx where n: "lexer_next ops (pa_lex p) = (t, lx)"
    by (cases "lexer_next ops (pa_lex p)")
  then have "token_in (pa_lex p) t lx"
    using lexer_next_token [of "pa_lex p" ops] assms by (simp add: lexer_ok_def)
  then show ?thesis
    using that [of "tok_kind t"] by (auto simp: parser_advance_def n count_lex_errors_def Let_def split: if_splits)
qed

lemma advance_ok:
  assumes ok: "lexer_ok (pa_lex p)" and d: "diag_table_ok (pa_diags p)"
  shows "alive (parser_advance ops p)" "weight (parser_advance ops p) \<le> length (lx_src (pa_lex p)) - lx_pos (pa_lex p)"
proof -
  let ?q = "parser_advance ops p"
  obtain k where k: "token_in (pa_lex p) ((pa_cur ?q)\<lparr>tok_kind := k\<rparr>) (pa_lex ?q)" "cur_kind ?q = k \<or> cur_kind ?q = NY_T_EOF"
    by (rule advance_token [OF ok])
  have f: "forward (pa_lex p) (pa_lex ?q)" "lx_pos (pa_lex p) + tok_len (pa_cur ?q) \<le> lx_pos (pa_lex ?q)"
      "tok_len (pa_cur ?q) = 0 \<longrightarrow> k = NY_T_EOF \<and> peek (pa_lex ?q) = NUL" "token_shape k (cur_text ?q)"
    using k(1) by (auto simp: token_in_def cur_text_def tok_text_def forward_def)
  have ok': "lexer_ok (pa_lex ?q)"
    by (rule lexer_ok_forward [OF ok f(1)])
  then show "alive ?q"
    using d f(3,4) k(2) peek_NUL_end [OF ok'] by (auto simp: alive_def)
  show "weight ?q \<le> length (lx_src (pa_lex p)) - lx_pos (pa_lex p)"
    using f(1,2) ok ok' by (simp add: weight_def forward_def lexer_ok_def)
qed

lemma advance_bounds:
  assumes "alive p"
  shows "alive (parser_advance ops p)" "weight (parser_advance ops p) + tok_len (pa_cur p) \<le> weight p"
  using advance_ok [of p ops] assms by (simp_all add: alive_def weight_def)

lemma alive_advance [simp, intro]: "alive p \<Longrightarrow> alive (parser_advance ops p)"
  by (rule advance_bounds)

lemma alive_token: "alive p \<Longrightarrow> cur_kind p \<noteq> NY_T_EOF \<Longrightarrow> 0 < tok_len (pa_cur p)"
  by (auto simp: alive_def)

lemma weight_advance: "alive p \<Longrightarrow> cur_kind p \<noteq> NY_T_EOF \<Longrightarrow> weight (parser_advance ops p) < weight p"
  using advance_bounds(2) [of p ops] alive_token [of p] by linarith

lemma alive_empty: "alive p \<Longrightarrow> weight p = 0 \<Longrightarrow> cur_kind p = NY_T_EOF"
  by (auto simp: alive_def weight_def)

lemma onward_advance1: "alive p \<Longrightarrow> onward p (parser_advance ops p)"
  supply [simp] = forward_src [OF advance_forward(1)]
proof (cases "tok_len (pa_cur p) = 0")
  case True
  assume a: "alive p"
  then have "weight p = 0"
    using True by (simp add: alive_def weight_def)
  then show ?thesis
    using advance_bounds [OF a, of ops] alive_empty [of "parser_advance ops p"] by (simp add: onward_def)
qed (use advance_bounds(2) [of p ops] in \<open>simp add: onward_def\<close>)

lemma onward_advance [intro]: "onward a p \<Longrightarrow> alive p \<Longrightarrow> onward a (parser_advance ops p)"
  using onward_advance1 onward_trans by blast

section \<open>Functions that return\<close>

text \<open>The outcome is no endless computation, and the state behind it is further on.\<close>

definition moves :: "'s parser_t \<Rightarrow> 's parser_t outcome \<Rightarrow> bool" where
  "moves p r \<longleftrightarrow> (case r of Ret q \<Rightarrow> alive q \<and> onward p q | Stuck \<Rightarrow> False | _ \<Rightarrow> True)"

definition settles :: "'s parser_t \<Rightarrow> ('s, 'a) parsed \<Rightarrow> bool" where
  "settles p r \<longleftrightarrow> (case r of Ret (v, q) \<Rightarrow> alive q \<and> onward p q | Stuck \<Rightarrow> False | _ \<Rightarrow> True)"

named_theorems settle

lemma settles_Ret [settle]: "alive q \<Longrightarrow> onward p q \<Longrightarrow> settles p (Ret (v, q))"
  by (simp add: settles_def)

lemma settles_ends [simp, intro]: "settles p Exit" "settles p Fault"
  by (simp_all add: settles_def)

lemma moves_Ret [settle]: "alive q \<Longrightarrow> onward p q \<Longrightarrow> moves p (Ret q)"
  by (simp add: moves_def)

lemma settles_case: "(\<And>x y. z = (x, y) \<Longrightarrow> settles p (f x y)) \<Longrightarrow> settles p (case z of (x, y) \<Rightarrow> f x y)"
  by (cases z) simp

lemma settles_from: "settles q r \<Longrightarrow> onward p q \<Longrightarrow> settles p r"
  by (auto simp: settles_def intro: onward_trans split: outcome.splits)

lemma moves_from: "moves q r \<Longrightarrow> onward p q \<Longrightarrow> moves p r"
  by (auto simp: moves_def intro: onward_trans split: outcome.splits)

lemma settles_bind [settle]:
  "settles p m \<Longrightarrow> (\<And>v q. alive q \<Longrightarrow> onward p q \<Longrightarrow> settles p (f v q)) \<Longrightarrow> settles p (and_then m (\<lambda>(v, q). f v q))"
  by (cases m) (auto simp: settles_def)

lemma settles_split [settle]:
  "(\<And>x y. settles p (f x y)) \<Longrightarrow> settles p (case z of (x, y) \<Rightarrow> f x y)"
  "(\<And>x y. settles p (g x y q)) \<Longrightarrow> settles p ((case z of (x, y) \<Rightarrow> g x y) q)"
  "settles p r \<Longrightarrow> (\<And>x. settles p (h x)) \<Longrightarrow> settles p (case v of None \<Rightarrow> r | Some x \<Rightarrow> h x)"
  by (simp_all split: prod.splits option.splits)

lemma settles_then [settle]:
  "moves p m \<Longrightarrow> (\<And>q. alive q \<Longrightarrow> onward p q \<Longrightarrow> settles p (f q)) \<Longrightarrow> settles p (and_then m f)"
  by (cases m) (auto simp: moves_def)

lemma moves_then [settle]:
  "moves p m \<Longrightarrow> (\<And>q. alive q \<Longrightarrow> onward p q \<Longrightarrow> moves p (f q)) \<Longrightarrow> moves p (and_then m f)"
  by (cases m) (auto simp: moves_def)

lemma settles_if [settle]:
  "(b \<Longrightarrow> settles p x) \<Longrightarrow> (\<not> b \<Longrightarrow> settles p y) \<Longrightarrow> settles p (if b then x else y)"
  "(b \<Longrightarrow> moves p m) \<Longrightarrow> (\<not> b \<Longrightarrow> moves p n) \<Longrightarrow> moves p (if b then m else n)"
  by simp_all

subsection \<open>Errors\<close>

lemma moves_record: "alive p \<Longrightarrow> moves p (record_error line col span_len msg hint p)"
  by (simp add: moves_def record_error_def Let_def alive_def onward_def weight_def same_token_def cur_text_def)

lemma moves_print: "alive p \<Longrightarrow> moves p (print_error_line filename line col span_len msg got hint p)"
proof -
  assume a: "alive p"
  let ?key = "diag_key (Some (case filename of None \<Rightarrow> pa_filename p | Some f \<Rightarrow> f)) line col (Some msg) (Some got)"
  have t: "diag_table_ok (pa_diags p)"
    using a by (simp add: alive_def)
  obtain b d where d: "diag_emit ?key (pa_diags p) = Some (b, d)" "diag_table_ok d"
    by (rule diag_emit_returns [OF t])
  have "alive (p\<lparr>pa_diags := d\<rparr>)"
    using a d(2) by (simp add: alive_def cur_text_def)
  then have "moves p (if \<not> b then Ret (p\<lparr>pa_diags := d\<rparr>) else record_error line col span_len msg hint (p\<lparr>pa_diags := d\<rparr>))"
    by (intro settles_if moves_Ret moves_from [OF moves_record]) simp_all
  then show ?thesis
    by (simp only: print_error_line_def parser_diag_should_emit_def d(1) Let_def option.case prod.case)
qed

lemma moves_error [settle]: "alive q \<Longrightarrow> onward p q \<Longrightarrow> moves p (parser_error tok msg hint q)"
  unfolding parser_error_def by (rule moves_from [OF moves_print])

lemma moves_expect [settle]: "alive q \<Longrightarrow> onward p q \<Longrightarrow> moves p (parser_expect ops kind msg hint q)"
proof (cases msg)
  case None
  assume "alive q" "onward p q"
  then show ?thesis
    unfolding parser_expect_def None option.case
    by (intro settles_if moves_Ret moves_then moves_from [OF moves_print]) auto
next
  case (Some m)
  assume "alive q" "onward p q"
  then show ?thesis
    unfolding parser_expect_def Some option.case by (intro settles_if moves_Ret moves_then moves_error) auto
qed

lemma settles_fail [settle]: "alive q \<Longrightarrow> onward p q \<Longrightarrow> settles p (fail_with tok msg hint v q)"
  unfolding fail_with_def by (intro settle)

lemma moves_error_if [settle]: "alive q \<Longrightarrow> onward p q \<Longrightarrow> moves p (error_if b tok msg hint q)"
  unfolding error_if_def by (intro settle)

lemma moves_report [settle]: "alive q \<Longrightarrow> onward p q \<Longrightarrow> moves p (report tok msgs q)"
  by (induction tok msgs q rule: report.induct) (auto intro!: settle)


subsection \<open>Steps over tokens\<close>

lemma onward_match [intro]: "onward a p \<Longrightarrow> alive p \<Longrightarrow> onward a (snd (parser_match ops k p))"
  by (auto simp: parser_match_def)

lemma alive_match [simp, intro]: "alive p \<Longrightarrow> alive (snd (parser_match ops k p))"
  by (auto simp: parser_match_def)

lemma sync_moves: "alive p \<Longrightarrow> alive (parser_sync_stmt_boundary ops p) \<and> onward p (parser_sync_stmt_boundary ops p)"
proof (induction ops p rule: parser_sync_stmt_boundary.induct)
  case (1 ops p)
  then show ?case
    by (subst (1 2) parser_sync_stmt_boundary.simps) (auto intro: onward_trans [OF onward_advance1])
qed

lemma alive_sync [simp, intro]: "alive p \<Longrightarrow> alive (parser_sync_stmt_boundary ops p)"
  and onward_sync [intro]: "onward a p \<Longrightarrow> alive p \<Longrightarrow> onward a (parser_sync_stmt_boundary ops p)"
  using sync_moves onward_trans by blast+

text \<open>Behind a statement that could not be read stands a closing brace or the end of the file, unless a token has been read.\<close>

lemma sync_stops:
  "alive p \<Longrightarrow> weight (parser_sync_stmt_boundary ops p) < weight p \<or> cur_kind (parser_sync_stmt_boundary ops p) \<in> {NY_T_EOF, Punct NY_T_RBRACE}"
proof (cases "cur_kind p \<in> {NY_T_EOF, Punct NY_T_RBRACE}")
  case True
  then show ?thesis
    by (subst (2) parser_sync_stmt_boundary.simps) auto
next
  case False
  assume a: "alive p"
  then have "weight (parser_advance ops p) < weight p"
    using False by (intro weight_advance) auto
  then show ?thesis
    using False sync_moves [OF alive_advance [OF a], of ops ops]
      onward_weight [of "parser_advance ops p" "parser_sync_stmt_boundary ops (parser_advance ops p)"]
    by (simp add: parser_sync_stmt_boundary.simps [of ops p])
qed

lemma match_all_moves: "match_all ops k p = (n, q) \<Longrightarrow> alive p \<Longrightarrow> alive q \<and> onward p q"
proof (induction ops k p arbitrary: n q rule: match_all.induct)
  case (1 ops k p)
  show ?case
  proof (cases "cur_kind p = k \<and> k \<noteq> NY_T_EOF")
    case True
    obtain m r where r: "match_all ops k (parser_advance ops p) = (m, r)"
      by (cases "match_all ops k (parser_advance ops p)")
    then have "q = r"
      using "1.prems"(1) True by (subst (asm) match_all.simps) simp
    then show ?thesis
      using "1.IH" [OF True r] "1.prems"(2) onward_trans [OF onward_advance1] by blast
  qed (use "1.prems" in \<open>subst (asm) match_all.simps; auto\<close>)
qed

lemma dotted_parts_moves: "dotted_parts ops numbers name p = (n, b, q) \<Longrightarrow> alive p \<Longrightarrow> alive q \<and> onward p q"
proof (induction ops numbers name p arbitrary: n b q rule: dotted_parts.induct)
  case (1 ops numbers name p)
  let ?p1 = "parser_advance ops p"
  show ?case
  proof (cases "cur_kind p = Punct NY_T_DOT \<and> name_kind numbers (cur_kind ?p1)")
    case True
    then have "alive q \<and> onward (parser_advance ops ?p1) q"
      using "1.IH" [of ?p1 n b q] "1.prems" by (subst (asm) (2) dotted_parts.simps) (auto simp: Let_def)
    then show ?thesis
      using "1.prems"(2) by (meson alive_advance onward_advance onward_refl onward_trans)
  next
    case False
    then show ?thesis
      using "1.prems" by (subst (asm) dotted_parts.simps) (auto simp: Let_def split: if_splits)
  qed
qed

lemma restore_moves [simp]: "weight (restore p q) = weight p" "onward a (restore p q) = onward a p"
  by (simp_all add: restore_def weight_def onward_def)

lemma alive_restore [simp, intro]: "alive p \<Longrightarrow> alive q \<Longrightarrow> alive (restore p q)"
  by (simp add: restore_def alive_def lexer_ok_def cur_text_def)

lemma peek_moves: "parser_peek ops p = (t, q) \<Longrightarrow> weight q = weight p \<and> alive q = alive p \<and> onward a q = onward a p \<and> pa_cur q = pa_cur p"
  by (auto simp: parser_peek_def split: prod.splits)

lemma runtime_call_moves: "runtime_call c tok name hash args p = (e, q) \<Longrightarrow> alive q = alive p \<and> onward a q = onward a p"
  by (auto simp: runtime_call_def split: prod.splits)

lemma store_call_moves: "store_call c first assign_tok hash target rhs p = (e, q) \<Longrightarrow> alive q = alive p \<and> onward a q = onward a p"
  unfolding store_call_def Let_def by (rule runtime_call_moves)

lemma skip_braces_moves: "alive p \<Longrightarrow> alive (skip_braces ops depth p) \<and> onward p (skip_braces ops depth p)"
proof (induction ops depth p rule: skip_braces.induct)
  case (1 ops depth p)
  show ?case
    using "1.IH" [OF refl refl] "1.prems"
    by (subst (1 2) skip_braces.simps) (auto simp: Let_def intro: onward_trans [OF onward_advance1])
qed

lemma skip_brace_moves [simp, intro]:
  "alive p \<Longrightarrow> alive (expr_skip_balanced_brace c p)" "onward a p \<Longrightarrow> alive p \<Longrightarrow> onward a (expr_skip_balanced_brace c p)"
  using skip_braces_moves [of p "cx_ops c" 0] by (auto simp: expr_skip_balanced_brace_def intro: onward_trans)

lemma named_fields_moves:
  "expr_lbrace_starts_named_fields c p = (b, q) \<Longrightarrow> alive p \<Longrightarrow> alive q \<and> onward a q = onward a p"
  by (auto simp: expr_lbrace_starts_named_fields_def Let_def split: if_splits)

lemma dict_scan_alive: "alive p \<Longrightarrow> alive (snd (dict_scan ops paren bracket brace p))"
proof (induction ops paren bracket brace p rule: dict_scan.induct)
  case (1 ops paren bracket brace p)
  show ?case
    using "1.IH" "1.prems" by (subst dict_scan.simps) (simp add: Let_def)
qed

lemma dict_literal_moves:
  "stmt_lbrace_starts_dict_literal c p = (b, q) \<Longrightarrow> alive p \<Longrightarrow> alive q \<and> weight q = weight p \<and> onward a q = onward a p \<and> pa_cur q = pa_cur p"
proof -
  assume "stmt_lbrace_starts_dict_literal c p = (b, q)" "alive p"
  moreover have "pa_cur (restore p r) = pa_cur p" for r
    by (simp add: restore_def)
  ultimately show ?thesis
    using dict_scan_alive [of "parser_advance (cx_ops c) p" "cx_ops c" 0 0 0]
    by (auto simp: stmt_lbrace_starts_dict_literal_def Let_def split: if_splits prod.splits)
qed


section \<open>Names of types\<close>

lemma type_name_settles [settle]:
  assumes "alive q" "onward p q"
  shows "settles p (parse_type_name ops junk q)"
proof -
  obtain n p1 m p2 where m: "match_all ops (Punct NY_T_QUESTION) q = (n, p1)" "match_all ops (Op NY_T_STAR) p1 = (m, p2)"
    by (metis surj_pair)
  have p2: "alive p2" "onward p p2"
    using match_all_moves [OF m(1) assms(1)] match_all_moves [OF m(2)] assms(2) by (auto intro: onward_trans)
  obtain name b p3 where d: "dotted_parts ops False (cur_text p2) (parser_advance ops p2) = (name, b, p3)"
    by (metis surj_pair)
  have "alive p3" "onward p p3"
    using dotted_parts_moves [OF d] p2 by (auto intro: onward_trans)
  then show ?thesis
    unfolding parse_type_name_def m d prod.case using p2 assms by (intro settle) auto
qed

lemma split_rshift_moves:
  assumes "alive q" "onward p q" "cur_kind q = Op NY_T_RSHIFT"
  shows "alive (split_rshift q) \<and> onward p (split_rshift q)"
proof -
  have t: "take (tok_len (pa_cur q)) (drop (tok_lexeme (pa_cur q)) (lx_src (pa_lex q))) = ''>>''"
    using assms(1,3) by (simp add: alive_def cur_text_def tok_text_def src_slice_def)
  have "length (take (tok_len (pa_cur q)) (drop (tok_lexeme (pa_cur q)) (lx_src (pa_lex q)))) = 2"
    unfolding t by simp
  then have len: "2 \<le> tok_len (pa_cur q)"
    by simp
  have "take 1 (drop 1 (take (tok_len (pa_cur q)) (drop (tok_lexeme (pa_cur q)) (lx_src (pa_lex q))))) = ''>''"
    unfolding t by simp
  then have "take 1 (drop (Suc (tok_lexeme (pa_cur q))) (lx_src (pa_lex q))) = ''>''"
    using len by (simp add: drop_take)
  then have "alive (split_rshift q)"
    using assms(1) by (simp add: alive_def split_rshift_def Let_def cur_text_def tok_text_def src_slice_def)
  moreover have "onward q (split_rshift q)"
    using len by (simp add: onward_def weight_def split_rshift_def Let_def)
  ultimately show ?thesis
    using assms(2) onward_trans by blast
qed

lemma close_generic_moves [settle]: "alive q \<Longrightarrow> onward p q \<Longrightarrow> moves p (close_generic ops q)"
  unfolding close_generic_def by (intro settle) (auto dest: split_rshift_moves)

text \<open>The parts of a type reference that all functions read first.\<close>

lemma type_ref_head:
  assumes "alive q" "onward p q" "match_all ops (Punct NY_T_QUESTION) q = (n, p1)" "match_all ops (Op NY_T_STAR) p1 = (m, p2)"
  shows "alive p2 \<and> onward p p2 \<and> weight p2 \<le> weight q"
  using match_all_moves [OF assms(3,1)] match_all_moves [OF assms(4)] assms(2) onward_weight by (meson onward_trans)

lemma type_refs_settle:
  "(\<forall>p q e. alive q \<longrightarrow> onward p q \<longrightarrow> weight q < n \<longrightarrow> settles p (expr_parse_type_ref n ops junk e q)) \<and>
   (\<forall>p q b g. alive q \<longrightarrow> onward p q \<longrightarrow> weight q + 1 < n \<longrightarrow> settles p (generic_args n ops junk b g q))"
proof (induction n)
  case (Suc n)
  have "settles p (expr_parse_type_ref (Suc n) ops junk e q)" if "alive q" "onward p q" "weight q < Suc n" for p q e
  proof -
    obtain k p1 m p2 where m: "match_all ops (Punct NY_T_QUESTION) q = (k, p1)" "match_all ops (Op NY_T_STAR) p1 = (m, p2)"
      by (metis surj_pair)
    note p2 = type_ref_head [OF that(1,2) m]
    obtain name b p3 where d: "dotted_parts ops True (cur_text p2) (parser_advance ops p2) = (name, b, p3)"
      by (metis surj_pair)
    have p3: "alive p3" "onward p p3" "onward (parser_advance ops p2) p3"
      using dotted_parts_moves [OF d] p2 by (auto intro: onward_trans)
    have args: "settles p (generic_args n ops junk True g (parser_advance ops p3))" if "name_kind True (cur_kind p2)" "cur_kind p3 = Op NY_T_LT" for g
    proof -
      have "weight (parser_advance ops p2) < weight p2" "weight (parser_advance ops p3) < weight p3"
        using that p2 p3 by (auto intro!: weight_advance simp: name_kind_def)
      then have "weight (parser_advance ops p3) + 1 < n"
        using p2 onward_weight [OF p3(3)] \<open>weight q < Suc n\<close> by linarith
      then show ?thesis
        using Suc.IH p3 by blast
    qed
    show ?thesis
      unfolding expr_parse_type_ref.simps m d prod.case Let_def using p2 p3 args by (intro settle) auto
  qed
  moreover have "settles p (generic_args (Suc n) ops junk b g q)" if "alive q" "onward p q" "weight q + 1 < Suc n" for p q b g
  proof -
    have "settles q (generic_args (Suc n) ops junk b g q)"
    proof (cases "cur_kind q = Op NY_T_GT \<or> cur_kind q = Op NY_T_RSHIFT \<or> cur_kind q = NY_T_EOF")
      case False
      have "settles q (expr_parse_type_ref n ops junk (Some ''expected generic type argument'') q)"
        using Suc.IH that by simp
      moreover have "settles q (generic_args n ops junk False g' (parser_advance ops r))"
        if "alive r" "onward q r" "cur_kind r = Punct NY_T_COMMA" for r g'
      proof -
        have "weight (parser_advance ops r) + 1 < n"
          using weight_advance [OF that(1), of ops] onward_weight [OF that(2)] that(3) \<open>weight q + 1 < Suc n\<close> by simp
        then show ?thesis
          using Suc.IH that by blast
      qed
      ultimately show ?thesis
        using False that(1) unfolding generic_args.simps Let_def by (intro settle) auto
    qed (use that(1) in \<open>auto simp: generic_args.simps intro!: settle\<close>)
    then show ?thesis
      using that(2) by (rule settles_from)
  qed
  ultimately show ?case
    by blast
qed simp

lemma type_ref_settles: "weight q < n \<Longrightarrow> alive q \<Longrightarrow> onward p q \<Longrightarrow> settles p (expr_parse_type_ref n ops junk e q)"
  using type_refs_settle by blast

lemma return_type_settles:
  assumes "weight q < n" "alive q" "onward p q"
  shows "settles p (parser_parse_return_type_suffix n ops junk msg q)"
proof (cases "expr_parse_type_ref n ops junk None (q\<lparr>pa_quiet := True\<rparr>)")
  case (Ret r)
  obtain type probe where r: "r = (type, probe)"
    by (cases r)
  have "settles q (expr_parse_type_ref n ops junk None (q\<lparr>pa_quiet := True\<rparr>))"
    using assms by (intro type_ref_settles) simp_all
  then have "alive probe"
    by (simp add: Ret r settles_def)
  then show ?thesis
    unfolding parser_parse_return_type_suffix_def Let_def Ret r and_then.simps prod.case
    using assms by (intro settle type_ref_settles) auto
qed (use assms type_ref_settles [of "q\<lparr>pa_quiet := True\<rparr>" n q ops junk None] in
      \<open>auto simp: parser_parse_return_type_suffix_def settles_def split: if_splits\<close>)

lemma param_type_settles:
  assumes "weight q < n" "alive q" "onward p q"
  shows "settles p (parser_parse_param_type_first n ops junk q)"
proof -
  obtain nx q1 where k: "parser_peek ops q = (nx, q1)"
    by (metis surj_pair)
  have "weight q1 < n" "alive q1" "onward p q1"
    using peek_moves [OF k, of p] assms by simp_all
  then show ?thesis
    unfolding parser_parse_param_type_first_def k prod.case Let_def by (intro settle type_ref_settles) auto
qed

end
