(* ===== verification/Parser_Serve.thy ===== *)
theory Parser_Serve
  imports Parser_Progress
begin

text \<open>
  Each function of the parser returns, when the functions it calls back do so for what is left to read: what a
  context has to promise, and the functions for blocks, conditionals and matches.
\<close>

section \<open>Contexts\<close>

text \<open>A function that returns, and that has read something unless the value says otherwise.\<close>

definition feeds :: "('a \<Rightarrow> bool) \<Rightarrow> 's parser_t \<Rightarrow> ('s, 'a) parsed \<Rightarrow> bool" where
  "feeds P p r \<longleftrightarrow> settles p r \<and> (\<forall>v q. r = Ret (v, q) \<longrightarrow> weight q < weight p \<or> P v)"

lemma feeds_settles: "feeds P p r \<Longrightarrow> settles p r"
  by (simp add: feeds_def)

lemma feeds_Ret: "alive q \<Longrightarrow> onward p q \<Longrightarrow> P v \<Longrightarrow> feeds P p (Ret (v, q))"
  by (simp add: feeds_def settles_Ret)

lemma feeds_from: "settles p' r \<Longrightarrow> onward p p' \<Longrightarrow> weight p' < weight p \<Longrightarrow> feeds P p r"
  using settles_from [of p' r p] onward_weight [of p'] by (fastforce simp: feeds_def settles_def)

lemma feeds_fail: "alive q \<Longrightarrow> onward p q \<Longrightarrow> P v \<Longrightarrow> feeds P p (fail_with tok msg hint v q)"
  using settles_fail [of q p tok msg hint v] by (auto simp: feeds_def fail_with_def and_then_Ret)

lemma feeds_weaken: "feeds P q r \<Longrightarrow> onward p q \<Longrightarrow> feeds P p r"
  using settles_from [of q r p] onward_weight [of p q] by (fastforce simp: feeds_def)

lemma feeds_then:
  "moves p m \<Longrightarrow> (\<And>q. alive q \<Longrightarrow> onward p q \<Longrightarrow> feeds P p (f q)) \<Longrightarrow> feeds P p (and_then m f)"
  by (cases m) (auto simp: moves_def feeds_def)

lemma feeds_if: "(b \<Longrightarrow> feeds P p x) \<Longrightarrow> (\<not> b \<Longrightarrow> feeds P p y) \<Longrightarrow> feeds P p (if b then x else y)"
  by simp

lemma feeds_bind:
  assumes "feeds P p m" "\<And>v q. alive q \<Longrightarrow> onward p q \<Longrightarrow> settles q (f v q)"
    "\<And>v q. alive q \<Longrightarrow> onward p q \<Longrightarrow> P v \<Longrightarrow> feeds Q q (f v q)"
  shows "feeds Q p (and_then m (\<lambda>(v, q). f v q))"
proof (cases m)
  case (Ret x)
  obtain v q where x: "x = (v, q)"
    by (cases x)
  have q: "alive q" "onward p q" "weight q < weight p \<or> P v"
    using assms(1) by (simp_all add: Ret x feeds_def settles_def)
  show ?thesis
  proof (cases "P v")
    case True
    then show ?thesis
      using assms(3) [OF q(1,2)] onward_weight [OF q(2)] settles_from [OF _ q(2)] by (fastforce simp: Ret x feeds_def)
  next
    case False
    then show ?thesis
      using feeds_from [OF assms(2) [OF q(1,2), of v] q(2)] q(3) by (simp add: Ret x)
  qed
qed (use assms(1) in \<open>auto simp: feeds_def settles_def\<close>)

text \<open>
  The context reads every expression of fewer than \<open>ke\<close> and every statement of fewer than \<open>ks\<close> bytes.
\<close>

definition serves :: "nat \<Rightarrow> nat \<Rightarrow> ('s, 'f, 'x) ctx \<Rightarrow> bool" where
  "serves ke ks c \<longleftrightarrow>
     ks \<le> ke \<and> ke < cx_fuel c \<and>
     (\<forall>p prec. alive p \<longrightarrow> weight p < ke \<longrightarrow> feeds (\<lambda>v. v = None) p (cx_expr c prec p)) \<and>
     (\<forall>p. alive p \<longrightarrow> weight p < ke \<longrightarrow> feeds (\<lambda>v. v = None) p (cx_unary c p)) \<and>
     (\<forall>p. alive p \<longrightarrow> weight p < ks \<longrightarrow> settles p (cx_stmt c p))"

lemma serves_expr:
  assumes "serves ke ks c" "alive q" "onward p q" "weight p < ke"
  shows "settles p (cx_expr c prec q)" "settles p (cx_unary c q)"
proof -
  have "settles q (cx_expr c prec q)" "settles q (cx_unary c q)"
    using assms onward_weight [OF assms(3)] by (simp_all add: serves_def feeds_def)
  then show "settles p (cx_expr c prec q)" "settles p (cx_unary c q)"
    using settles_from assms(3) by blast+
qed

lemma served:
  assumes "serves ke ks c"
  shows "alive q \<Longrightarrow> onward p q \<Longrightarrow> weight p < ks \<Longrightarrow> settles p (cx_expr c prec q)"
    "alive q \<Longrightarrow> onward p q \<Longrightarrow> weight p < ks \<Longrightarrow> settles p (cx_unary c q)"
    "alive q \<Longrightarrow> onward p q \<Longrightarrow> weight p < ks \<Longrightarrow> settles p (cx_stmt c q)"
proof -
  assume a: "alive q" "onward p q" "weight p < ks"
  then have "weight p < ke" "settles q (cx_stmt c q)"
    using assms onward_weight [OF a(2)] by (simp_all add: serves_def)
  then show "settles p (cx_expr c prec q)" "settles p (cx_unary c q)" "settles p (cx_stmt c q)"
    using serves_expr [OF assms a(1,2)] settles_from a(2) by blast+
qed

lemma fuel_enough: "serves ke ks c \<Longrightarrow> onward p q \<Longrightarrow> weight p < ks \<Longrightarrow> weight q < cx_fuel c"
  using onward_weight [of p q] by (simp add: serves_def)

section \<open>Assignments and blocks\<close>

lemma assignment_rhs_settles:
  assumes "serves ke ks c" "alive q" "onward p q" "weight p < ks"
  shows "settles p (parse_assignment_rhs_expr c q)"
  unfolding parse_assignment_rhs_expr_def using assms by (intro settle served [OF assms(1)]) auto

lemma deref_assign_settles:
  assumes s: "serves ke ks c" "alive q" "onward p q" "weight p < ke" and w: "weight q \<le> ks"
  shows "settles p (parse_leading_deref_assign_stmt c q)"
proof (cases "cur_kind q = Op NY_T_STAR")
  case True
  obtain nx q1 where k: "parser_peek (cx_ops c) q = (nx, q1)"
    by (metis surj_pair)
  have q1: "alive q1" "onward p q1" "weight (px_advance c q1) < ks"
    using peek_moves [OF k, of p] s w weight_advance [of q1 "cx_ops c"] True by auto
  have rhs: "settles p (parse_assignment_rhs_expr c (px_advance c (px_advance c (px_advance c q1))))"
    by (rule settles_from [OF assignment_rhs_settles [OF s(1) _ _ q1(3)]]) (use q1 in auto)
  have store: "settles p (case store_call c first assign_tok hash target rhs r of (call, p5) \<Rightarrow> Ret (Some (NY_S_EXPR first (Some call)), p5))"
    if "alive r" "onward p r" for first assign_tok hash target rhs r
    by (rule settles_case) (use that store_call_moves in \<open>metis settles_Ret\<close>)
  show ?thesis
    unfolding parse_leading_deref_assign_stmt_def k prod.case Let_def using True q1 s by (intro settle rhs store) auto
qed (use s in \<open>auto simp: parse_leading_deref_assign_stmt_def intro!: settle\<close>)

text \<open>A round of a loop reads a token, or ends before a closing brace or the end of the file.\<close>

definition rounds :: "'s parser_t \<Rightarrow> ('s, 'a) parsed \<Rightarrow> bool" where
  "rounds p r \<longleftrightarrow>
     settles p r \<and> (\<forall>v q. r = Ret (v, q) \<longrightarrow> weight q < weight p \<or> cur_kind q = NY_T_EOF \<or> cur_kind q = Punct NY_T_RBRACE)"

lemma rounds_bind:
  "settles p m \<Longrightarrow> (\<And>v q. alive q \<Longrightarrow> onward p q \<Longrightarrow> rounds p (f v q)) \<Longrightarrow> rounds p (and_then m (\<lambda>(v, q). f v q))"
  by (cases m) (auto simp: settles_def rounds_def)

lemma append_or_sync_rounds:
  assumes s: "serves ke ks c" "alive p" "weight p < ks"
  shows "rounds p (parse_stmt_append_or_sync c out p)"
proof -
  have w: "weight p < ke" "weight p \<le> ks"
    using s by (auto simp: serves_def)
  have last: "rounds p (Ret (out', if same_token (pa_cur q) (pa_cur p) \<and> cur_kind q \<noteq> NY_T_EOF \<and> cur_kind q \<noteq> Punct NY_T_RBRACE
                              then px_advance c q else q))" if "alive q" "onward p q" for q and out' :: "('b, 'c) stmt list"
    using that weight_advance [OF that(1), of "cx_ops c"] onward_weight [OF that(2)]
    by (auto simp: rounds_def onward_def intro!: settle)
  have deref: "settles p (parse_leading_deref_assign_stmt c q)" if "alive q" "onward p q" for q
    using deref_assign_settles [OF s(1) that w(1)] onward_weight [OF that(2)] w(2) by simp
  show ?thesis
    unfolding parse_stmt_append_or_sync_def Let_def
    by (intro rounds_bind settle served [OF s(1)] deref last) (use s in \<open>auto split: option.splits\<close>)
qed

text \<open>The rest of a loop whose rounds are of this kind.\<close>

definition rests :: "nat \<Rightarrow> 's parser_t \<Rightarrow> bool" where
  "rests n q \<longleftrightarrow> weight q < n \<or> 0 < n \<and> (cur_kind q = NY_T_EOF \<or> cur_kind q = Punct NY_T_RBRACE)"

lemma rounds_again:
  assumes "rounds q r" "onward p q" "alive q" "rests (Suc n) q" "cur_kind q \<noteq> NY_T_EOF" "cur_kind q \<noteq> Punct NY_T_RBRACE"
    "\<And>v q'. alive q' \<Longrightarrow> onward p q' \<Longrightarrow> rests n q' \<Longrightarrow> settles p (f v q')"
  shows "settles p (and_then r (\<lambda>(v, q'). f v q'))"
proof (cases r)
  case (Ret x)
  obtain v q' where x: "x = (v, q')"
    by (cases x)
  have q': "alive q'" "onward q q'" "weight q' < weight q \<or> cur_kind q' = NY_T_EOF \<or> cur_kind q' = Punct NY_T_RBRACE"
    using assms(1) by (simp_all add: Ret x rounds_def settles_def)
  moreover have "0 < weight q"
    using alive_empty [OF assms(3)] assms(5) by (cases "weight q") auto
  ultimately have "rests n q'"
    using assms(4-6) by (auto simp: rests_def)
  then show ?thesis
    using assms(2,7) q' onward_trans by (simp add: Ret x) blast
qed (use assms(1) in \<open>auto simp: rounds_def settles_def\<close>)

lemma missing_rbrace_moves [settle]: "alive q \<Longrightarrow> onward p q \<Longrightarrow> moves p (parser_report_missing_rbrace_once at msg opened_line q)"
  unfolding parser_report_missing_rbrace_once_def by (intro settle)

lemma block_loop_settles:
  assumes s: "serves ke ks c" and w: "weight p < ks"
  shows "alive q \<Longrightarrow> onward p q \<Longrightarrow> rests n q \<Longrightarrow> settles p (block_loop n c tok allow out q)"
proof (induction n arbitrary: q out)
  case (Suc n)
  have "rounds q (parse_stmt_append_or_sync c out q)"
    using append_or_sync_rounds [OF s Suc.prems(1)] onward_weight [OF Suc.prems(2)] w by simp
  then show ?case
    unfolding block_loop.simps
    by (intro settle rounds_again [OF _ Suc.prems(2,1,3)] Suc.IH) (use Suc.prems in auto)
qed (simp add: rests_def)

lemma fuel_rests: "serves ke ks c \<Longrightarrow> onward p q \<Longrightarrow> weight p < ks \<Longrightarrow> rests (cx_fuel c) q"
  by (simp add: rests_def fuel_enough)

lemma block_settles:
  assumes "serves ke ks c" "alive q" "onward p q" "weight p < ks"
  shows "settles p (p_parse_block c q)"
  unfolding p_parse_block_def Let_def
  by (intro settle block_loop_settles [OF assms(1,4)] fuel_rests [OF assms(1) _ assms(4)]) (use assms in auto)

text \<open>A block that begins with its brace.\<close>

lemma block_at_brace_settles:
  assumes "serves ke ks c" "alive q" "weight q \<le> ks" "cur_kind q = Punct NY_T_LBRACE"
  shows "settles q (p_parse_block c q)"
proof -
  let ?q = "px_advance c q"
  have "weight ?q < ks"
    using weight_advance [OF assms(2), of "cx_ops c"] assms(3,4) by simp
  moreover have "px_expect c (Punct NY_T_LBRACE) msg q = Ret ?q" for msg
    using assms(4) by (simp add: parser_expect_def)
  ultimately have "settles ?q (p_parse_block c q)"
    unfolding p_parse_block_def Let_def
    by (simp only: and_then.simps)
      (intro settle block_loop_settles [OF assms(1)] fuel_rests [OF assms(1), of ?q]; use assms in auto)
  then show ?thesis
    using settles_from onward_advance1 [OF assms(2)] by blast
qed

lemma stmt_or_block_settles:
  assumes "serves ke ks c" "alive q" "onward p q" "weight p < ks"
  shows "settles p (ny_parse_stmt_or_block c q)"
  unfolding ny_parse_stmt_or_block_def
  by (intro settle served [OF assms(1)] block_settles [OF assms(1)]) (use assms in auto)

section \<open>Conditionals and matches\<close>

lemma settles_peek:
  assumes "alive q" "onward p q" "\<And>t r. alive r \<Longrightarrow> onward p r \<Longrightarrow> pa_cur r = pa_cur q \<Longrightarrow> weight r = weight q \<Longrightarrow> settles p (f t r)"
  shows "settles p (case parser_peek ops q of (t, r) \<Rightarrow> f t r)"
  by (rule settles_case) (use assms peek_moves in metis)

lemma header_init_settles:
  assumes "serves ke ks c" "alive q" "onward p q" "weight p < ks"
  shows "settles p (header_init c q)"
  unfolding header_init_def
  by (intro settles_peek settle served [OF assms(1)]) (use assms in auto)

lemma parse_if_settles:
  assumes s: "serves ke ks c"
  shows "alive q \<Longrightarrow> weight q < ks \<Longrightarrow> weight q < n \<Longrightarrow> settles q (parse_if_internal n c tok q)"
proof (induction n arbitrary: q tok)
  case (Suc n)
  have again: "settles q (parse_if_internal n c t (px_advance c r))" if "alive r" "onward q r" "cur_kind r \<noteq> NY_T_EOF" for r t
    by (rule settles_from [OF Suc.IH])
      (use that weight_advance [OF that(1,3), of "cx_ops c"] onward_weight [OF that(2)] Suc.prems in auto)
  have elif: "settles q (and_then (px_expect c (Kw NY_T_IF) msg r) (\<lambda>p6. and_then (parse_if_internal n c t p6) (\<lambda>(x, r'). Ret (Some x, r'))))"
    if "alive r" "onward q r" "cur_kind r = Kw NY_T_IF" for r t msg
    using again [OF that(1,2), of t] that(3) by (simp add: parser_expect_def) (intro settle)
  show ?case
    unfolding parse_if_internal.simps Let_def
    by (intro settle header_init_settles [OF s] served [OF s] stmt_or_block_settles [OF s] again elif) (use Suc.prems in auto)
qed simp

lemma if_stmt_settles:
  assumes "serves ke ks c" "alive q" "onward p (px_advance c q)" "weight p < ks" "cur_kind q = Kw NY_T_IF"
  shows "settles p (ny_parse_if_stmt c q)"
  unfolding ny_parse_if_stmt_def
  using assms onward_weight [OF assms(3)] fuel_enough [OF assms(1,3,4)] settles_from [OF parse_if_settles [OF assms(1)] assms(3)]
  by (simp add: parser_expect_def)

lemma eaten_bind:
  assumes "serves ke ks c" "alive r" "weight r < ks"
    "\<And>v q. alive q \<Longrightarrow> onward r q \<Longrightarrow> (\<And>e. v = Some e \<Longrightarrow> weight q < weight r) \<Longrightarrow> settles r (f v q)"
  shows "settles r (and_then (cx_expr c prec r) (\<lambda>(v, q). f v q))"
proof (cases "cx_expr c prec r")
  case (Ret x)
  obtain v q where x: "x = (v, q)"
    by (cases x)
  have "feeds (\<lambda>v. v = None) r (cx_expr c prec r)"
    using assms(1-3) by (simp add: serves_def)
  then show ?thesis
    using assms(4) [of q v] by (auto simp: Ret x settles_def feeds_def)
qed (use served(1) [OF assms(1,2) onward_refl assms(3), of prec] in \<open>auto simp: settles_def\<close>)

lemma more_patterns_settles:
  assumes s: "serves ke ks c"
  shows "alive q \<Longrightarrow> weight q < ks \<Longrightarrow> weight q < n \<Longrightarrow> settles q (more_patterns n c pats q)"
proof (induction n arbitrary: q pats)
  case (Suc n)
  let ?r = "px_match c (Punct NY_T_COMMA) q"
  have r: "alive ?r" "onward q ?r"
    using Suc.prems(1) by auto
  note le = onward_weight [OF r(2)]
  have "settles ?r (case v of None \<Rightarrow> Ret (pats, px_sync c p1) | Some e \<Rightarrow> more_patterns n c (pats @ [e]) p1)"
    if "alive p1" "onward ?r p1" "\<And>e. v = Some e \<Longrightarrow> weight p1 < weight ?r" for v p1
  proof (cases v)
    case (Some e)
    have "settles p1 (more_patterns n c (pats @ [e]) p1)"
      by (rule Suc.IH) (use that Some le Suc.prems in \<open>auto simp: less_Suc_eq_le\<close>)
    then show ?thesis
      using that(2) Some settles_from by simp
  qed (use that in \<open>auto intro!: settle\<close>)
  then have "settles ?r (and_then (cx_expr c 0 ?r)
      (\<lambda>(pat, p1). case pat of None \<Rightarrow> Ret (pats, px_sync c p1) | Some e \<Rightarrow> more_patterns n c (pats @ [e]) p1))"
    by (intro eaten_bind [OF s r(1)]) (use le Suc.prems in auto)
  then show ?case
    unfolding more_patterns.simps using settles_from [OF _ r(2)] Suc.prems(1) by (auto intro!: settles_Ret)
qed simp

lemma match_conseq_settles:
  assumes "serves ke ks c" "alive q" "onward p q" "weight p < ks"
  shows "settles p (match_conseq c q)"
  unfolding match_conseq_def Let_def by (intro settle served [OF assms(1)] block_settles [OF assms(1)]) (use assms in auto)


lemma match_arm_settles:
  assumes s: "serves ke ks c" and p1: "alive p1" "weight p1 < ks"
    and again: "\<And>q arms. alive q \<Longrightarrow> onward p1 q \<Longrightarrow> settles p1 (match_loop n c arms dflt q)"
  shows "settles p1 (and_then (more_patterns (cx_fuel c) c [e] p1)
    (\<lambda>(pats, p2).
       and_then (if cur_kind p2 = Kw NY_T_IF then cx_expr c 0 (px_advance c p2) else Ret (None, p2))
         (\<lambda>(guard, p3). and_then (match_conseq c p3) (\<lambda>(conseq, p4). match_loop n c (arms @ [Arm pats guard conseq]) dflt p4))))"
  by (intro settle more_patterns_settles [OF s p1] fuel_enough [OF s onward_refl p1(2)] served [OF s] match_conseq_settles [OF s] again)
    (use p1 in auto)

lemma match_loop_settles:
  assumes s: "serves ke ks c"
  shows "alive q \<Longrightarrow> weight q < ks \<Longrightarrow> rests n q \<Longrightarrow> settles q (match_loop n c arms dflt q)"
proof (induction n arbitrary: q arms dflt)
  case (Suc n)
  consider (stop) "cur_kind q = Punct NY_T_RBRACE \<or> cur_kind q = NY_T_EOF" | (dflt) "cur_kind q = Kw NY_T_ELSE"
    | (arm) "cur_kind q \<noteq> Punct NY_T_RBRACE" "cur_kind q \<noteq> NY_T_EOF" "cur_kind q \<noteq> Kw NY_T_ELSE"
    by blast
  then show ?case
  proof cases
    case stop
    then show ?thesis
      using Suc.prems(1) by (auto intro!: settle)
  next
    case dflt
    let ?r = "px_advance c q"
    have r: "alive ?r" "weight ?r < weight q" "weight ?r < n"
      using weight_advance [OF Suc.prems(1), of "cx_ops c"] dflt Suc.prems by (auto simp: rests_def)
    have again: "settles ?r (match_loop n c arms d p1)" if "alive p1" "onward ?r p1" for p1 d
      by (rule settles_from [OF Suc.IH that(2)]) (use that onward_weight [OF that(2)] r Suc.prems in \<open>auto simp: rests_def\<close>)
    have "settles ?r (and_then (p_parse_block c ?r) (\<lambda>(b, p1). match_loop n c arms (Some b) p1))"
      by (intro settle block_settles [OF s] again) (use r Suc.prems in auto)
    then show ?thesis
      using dflt settles_from onward_advance1 [OF Suc.prems(1)] by auto
  next
    case arm
    have w: "0 < weight q" "weight q < Suc n"
      using alive_empty [OF Suc.prems(1)] arm Suc.prems(3) by (auto simp: rests_def)
    have "settles q (case first of None \<Rightarrow> match_loop n c arms dflt (px_sync c p1)
        | Some e \<Rightarrow> and_then (more_patterns (cx_fuel c) c [e] p1)
            (\<lambda>(pats, p2).
               and_then (if cur_kind p2 = Kw NY_T_IF then cx_expr c 0 (px_advance c p2) else Ret (None, p2))
                 (\<lambda>(guard, p3). and_then (match_conseq c p3) (\<lambda>(conseq, p4). match_loop n c (arms @ [Arm pats guard conseq]) dflt p4))))"
      if p1: "alive p1" "onward q p1" "\<And>e. first = Some e \<Longrightarrow> weight p1 < weight q" for first p1
    proof (cases first)
      case None
      have "rests n (px_sync c p1)"
        using sync_stops [OF p1(1), of "cx_ops c"] onward_weight [OF p1(2)] w by (auto simp: rests_def)
      moreover have "onward q (px_sync c p1)"
        using p1 by blast
      ultimately show ?thesis
        using None Suc.IH [of "px_sync c p1"] p1(1) onward_weight [of q "px_sync c p1"] Suc.prems(2) settles_from by fastforce
    next
      case (Some e)
      have less: "weight p1 < n" "weight p1 < ks"
        using p1(3) [OF Some] w Suc.prems(2) by auto
      have "settles p1 (match_loop n c as dflt p4)" if "alive p4" "onward p1 p4" for p4 as
        by (rule settles_from [OF Suc.IH that(2)]) (use that onward_weight [OF that(2)] less in \<open>auto simp: rests_def\<close>)
      then show ?thesis
        unfolding Some option.case by (intro settles_from [OF match_arm_settles [OF s p1(1) less(2)] p1(2)])
    qed
    then have "settles q (and_then (cx_expr c 0 q) (\<lambda>(first, p1). case first of None \<Rightarrow> match_loop n c arms dflt (px_sync c p1)
        | Some e \<Rightarrow> and_then (more_patterns (cx_fuel c) c [e] p1)
            (\<lambda>(pats, p2).
               and_then (if cur_kind p2 = Kw NY_T_IF then cx_expr c 0 (px_advance c p2) else Ret (None, p2))
                 (\<lambda>(guard, p3). and_then (match_conseq c p3) (\<lambda>(conseq, p4). match_loop n c (arms @ [Arm pats guard conseq]) dflt p4)))))"
      by (rule eaten_bind [OF s Suc.prems(1,2)])
    then show ?thesis
      using arm by simp
  qed
qed (simp add: rests_def)

lemma match_settles:
  assumes "serves ke ks c" "alive q" "onward p (px_advance c q)" "weight p < ks"
  shows "settles p (p_parse_match c q)"
proof -
  have "settles p (match_loop (cx_fuel c) c [] None r)" if "alive r" "onward p r" for r
    by (rule settles_from [OF match_loop_settles [OF assms(1)] that(2)])
      (use that assms(4) onward_weight [OF that(2)] fuel_rests [OF assms(1) that(2) assms(4)] in auto)
  then show ?thesis
    unfolding p_parse_match_def by (intro settle served [OF assms(1)]) (use assms in auto)
qed

end
