(* ===== verification/Parser_Total.thy ===== *)
theory Parser_Total
  imports Parser_Serve
begin

text \<open>
  The expression parser and the statements return, and so does the whole parser with fuel for two levels
  per byte.
\<close>

section \<open>Expressions\<close>

lemma value_expr_settles: "alive q \<Longrightarrow> onward p q \<Longrightarrow> settles p (stmt_value_expr tok branch s q)"
proof (induction tok branch s q arbitrary: p rule: stmt_value_expr.induct)
  case (1 tok branch s q)
  note IH = "1.IH" and prems = "1.prems"
  show ?case
  proof (cases s)
    case (Some st)
    show ?thesis
    proof (cases st)
      case (NY_S_BLOCK t transparent body)
      then show ?thesis
        using Some IH(1) prems
        by (subst stmt_value_expr.simps) (auto split: list.splits intro!: settles_Ret settles_fail)
    next
      case (NY_S_IF t init test conseq alt)
      show ?thesis
        unfolding Some NY_S_IF stmt_value_expr.simps [of tok branch "Some (NY_S_IF t init test conseq alt)" q] option.case stmt.case
        by (cases alt; simp only: option.case; intro settle IH(2-3) [OF Some NY_S_IF]; use prems in auto)
    qed (use prems Some in \<open>subst stmt_value_expr.simps; auto intro!: settles_Ret settles_fail\<close>)+
  qed (use prems in \<open>subst stmt_value_expr.simps; auto intro!: settles_Ret\<close>)
qed

lemma call_args_settles:
  assumes s: "serves ke ks c"
  shows "alive q \<Longrightarrow> weight q < ks \<Longrightarrow> weight q < n \<Longrightarrow> settles q (call_args n c args q)"
proof (induction n arbitrary: q args)
  case (Suc n)
  have again: "settles q (call_args n c as (px_advance c r))" if "alive r" "onward q r" "cur_kind r = Punct NY_T_COMMA" for r as
    by (rule settles_from [OF Suc.IH])
      (use that weight_advance [OF that(1), of "cx_ops c"] onward_weight [OF that(2)] Suc.prems in auto)
  show ?case
    unfolding call_args.simps by (intro settles_peek settle served [OF s] again) (use Suc.prems in auto)
qed simp

text \<open>A loop with the fuel of the context, from a state further back.\<close>

lemma loop_from:
  assumes "serves ke ks c" "alive q" "onward p q" "weight p < ks"
    "\<And>q. alive q \<Longrightarrow> weight q < ks \<Longrightarrow> weight q < cx_fuel c \<Longrightarrow> settles q (f q)"
  shows "settles p (f q)"
  using assms(2-5) fuel_enough [OF assms(1,3,4)] onward_weight [OF assms(3)] settles_from [of q "f q" p] by simp

lemma call_arg_list_settles:
  assumes "serves ke ks c" "alive q" "onward p q" "weight p < ks"
  shows "settles p (parse_call_arg_list c close_msg q)"
proof -
  have "settles p (call_args (cx_fuel c) c [] q)"
    by (rule loop_from [OF assms], rule call_args_settles [OF assms(1)])
  then show ?thesis
    unfolding parse_call_arg_list_def by (intro settle)
qed

lemma member_access_settles:
  assumes "serves ke ks c" "alive q" "onward p q" "weight p < ks"
  shows "settles p (member_access c close_msg target q)"
  unfolding member_access_def Let_def by (intro settle call_arg_list_settles [OF assms(1)]) (use assms in auto)

lemma index_settles:
  assumes "serves ke ks c" "alive q" "onward p (px_advance c q)" "weight p < ks"
  shows "settles p (parse_index c target q)"
  unfolding parse_index_def Let_def by (intro settle served [OF assms(1)]) (use assms in auto)

lemma dotted_ident_settles [settle]:
  assumes "alive q" "onward p q"
  shows "settles p (expr_parse_dotted_ident c what q)"
proof -
  obtain name b r where d: "dotted_parts (cx_ops c) True (cur_text q) (px_advance c q) = (name, b, r)"
    by (metis surj_pair)
  have "alive r" "onward p r"
    using dotted_parts_moves [OF d] assms by (auto intro: onward_trans)
  then show ?thesis
    unfolding expr_parse_dotted_ident_def d prod.case using assms by (intro settle)
qed

lemma ct_match_settles:
  assumes "serves ke ks c" "alive q" "onward p q" "weight p < ks"
  shows "settles p (parse_ct_table_match_expr c tok q)"
  unfolding parse_ct_table_match_expr_def Let_def by (intro settle served [OF assms(1)]) (use assms in auto)

lemma comma_items_settles:
  assumes s: "serves ke ks c"
  shows "alive q \<Longrightarrow> weight q < ks \<Longrightarrow> weight q < n \<Longrightarrow> settles q (comma_items n c close es q)"
proof (induction n arbitrary: q es)
  case (Suc n)
  show ?case
  proof (cases "cur_kind q = Punct NY_T_COMMA")
    case True
    let ?r = "px_advance c q"
    have r: "alive ?r" "weight ?r < n" "weight ?r < ks"
      using Suc.prems weight_advance [OF Suc.prems(1), of "cx_ops c"] True by auto
    have again: "settles ?r (comma_items n c close as p2)" if "alive p2" "onward ?r p2" for p2 as
      by (rule settles_from [OF Suc.IH that(2)]) (use that onward_weight [OF that(2)] r in auto)
    have "settles ?r (comma_items (Suc n) c close es q)"
      using True by (simp add: Let_def) (intro impI conjI settle served [OF s] again; use r in auto)
    then show ?thesis
      using settles_from onward_advance1 [OF Suc.prems(1)] by blast
  qed (use Suc.prems in \<open>auto intro!: settle\<close>)
qed simp

lemma comma_pairs_settles:
  assumes s: "serves ke ks c"
  shows "alive q \<Longrightarrow> weight q < ks \<Longrightarrow> weight q < n \<Longrightarrow> settles q (comma_pairs n c es q)"
proof (induction n arbitrary: q es)
  case (Suc n)
  show ?case
  proof (cases "cur_kind q = Punct NY_T_COMMA")
    case True
    let ?r = "px_advance c q"
    have r: "alive ?r" "weight ?r < n" "weight ?r < ks"
      using Suc.prems weight_advance [OF Suc.prems(1), of "cx_ops c"] True by auto
    have again: "settles ?r (comma_pairs n c as p2)" if "alive p2" "onward ?r p2" for p2 as
      by (rule settles_from [OF Suc.IH that(2)]) (use that onward_weight [OF that(2)] r in auto)
    have "settles ?r (comma_pairs (Suc n) c es q)"
      using True by (simp add: Let_def) (intro impI conjI settle served [OF s] again; use r in auto)
    then show ?thesis
      using settles_from onward_advance1 [OF Suc.prems(1)] by blast
  qed (use Suc.prems in \<open>auto intro!: settle\<close>)
qed simp

lemma items_settle:
  assumes "serves ke ks c" "alive q" "onward p q" "weight p < ks"
  shows "settles p (comma_items (cx_fuel c) c close es q)" "settles p (comma_pairs (cx_fuel c) c ps q)"
  by (rule loop_from [OF assms], rule comma_items_settles [OF assms(1)] comma_pairs_settles [OF assms(1)]; assumption)+

lemma items_until_settles:
  assumes "serves ke ks c" "alive q" "onward p q" "weight p < ks"
  shows "settles p (items_until c close node es q)"
  unfolding items_until_def by (intro settle items_settle [OF assms(1)]) (use assms in auto)

lemma lambda_params_settles:
  assumes s: "serves ke ks c"
  shows "alive q \<Longrightarrow> weight q < ks \<Longrightarrow> weight q < n \<Longrightarrow> settles q (lambda_params n c params q)"
proof (induction n arbitrary: q params)
  case (Suc n)
  have again: "settles q (lambda_params n c as (px_advance c r))" if "alive r" "onward q r" "cur_kind r = Punct NY_T_COMMA" for r as
    by (rule settles_from [OF Suc.IH])
      (use that weight_advance [OF that(1), of "cx_ops c"] onward_weight [OF that(2)] Suc.prems in auto)
  show ?case
    unfolding lambda_params.simps Let_def
    by (intro settle served [OF s] again param_type_settles fuel_enough [OF s _ Suc.prems(2)]) (use Suc.prems in auto)
qed simp


subsection \<open>Interpolated strings\<close>

lemma decode_length: "length (decode_fstring_expr quote s) \<le> length s"
  by (induction quote s rule: decode_fstring_expr.induct) auto

lemma fstring_parts_shorter: "NY_FSP_EXPR e \<in> set (fst (fstring_parts quote s)) \<Longrightarrow> length e < length s"
proof (induction quote s rule: fstring_parts.induct)
  case (1 quote s)
  note e = "1.prems" [unfolded fstring_parts.simps [of quote s]]
  consider (empty) "s = []" | (brace) "s \<noteq> []" "hd s = CHR ''{''" | (chunk) "s \<noteq> []" "hd s \<noteq> CHR ''{''"
    by blast
  then show ?case
  proof cases
    case brace
    obtain w r where b: "brace_scan 1 (tl s) = Some (w, r)"
      using e brace by (auto split: option.splits)
    have len: "length w < length s" "length r < length s"
      using brace_scan_split [OF b] brace(1) by (cases s; simp)+
    have "NY_FSP_EXPR e \<in> set (fst (fstring_parts quote r)) \<or> length e \<le> length w"
      using e brace decode_length [of quote w] decode_length [of quote "take n w" for n]
      by (auto simp: b [unfolded One_nat_def] Let_def split: option.splits intro: order_trans [OF decode_length])
    then show ?thesis
      using "1.IH"(1) [OF brace b refl refl] len by fastforce
  next
    case chunk
    obtain w r where t: "text_chunk s = (w, r)"
      by (cases "text_chunk s")
    have "length r < length s"
      using text_chunk_moves [OF chunk] t by simp
    then show ?thesis
      using "1.IH"(2) [OF chunk t [symmetric]] e chunk t by auto
  qed (use e in simp)
qed

lemma parse_fstring_shorter: "NY_FSP_EXPR e \<in> set (fst (parse_fstring w)) \<Longrightarrow> length e < length w"
  unfolding parse_fstring_def Let_def by (drule fstring_parts_shorter) auto

lemma parser_init_ok:
  assumes "diag_table_ok d"
  shows "alive (parser_init_with_arena_opts ops src filename quiet syms d)"
    "weight (parser_init_with_arena_opts ops src filename quiet syms d) \<le> length src"
proof -
  define f where "f = (case filename of Some f \<Rightarrow> f | None \<Rightarrow> ''<input>'')"
  define lx where "lx = (lexer_init ops (Some src) (Some f) syms)\<lparr>lx_quiet := quiet\<rparr>"
  have lx: "lexer_ok lx" "length (lx_src lx) - lx_pos lx \<le> length src"
    using lexer_ok_init [of ops "Some src" "Some f" syms] length_takeWhile_le [of "\<lambda>c. c \<noteq> NUL" src]
    by (auto simp: lx_def lexer_ok_def intro: diff_le_self [THEN order_trans])
  show "alive (parser_init_with_arena_opts ops src filename quiet syms d)"
    unfolding parser_init_with_arena_opts_def Let_def f_def [symmetric] lx_def [symmetric]
    by (rule advance_ok) (simp_all add: lx assms)
  show "weight (parser_init_with_arena_opts ops src filename quiet syms d) \<le> length src"
    unfolding parser_init_with_arena_opts_def Let_def f_def [symmetric] lx_def [symmetric]
    by (rule order_trans [OF advance_ok(2)]) (simp_all add: lx assms)
qed

lemma fstring_exprs_settle:
  assumes s: "serves ke ks c"
  shows "alive q \<Longrightarrow> onward p q \<Longrightarrow> \<forall>e. NY_FSP_EXPR e \<in> set parts \<longrightarrow> length e < ks \<Longrightarrow> settles p (fstring_exprs c parts q)"
proof (induction parts arbitrary: q)
  case Nil
  then show ?case
    unfolding fstring_exprs.simps by (intro settle)
next
  case (Cons part parts)
  show ?case
  proof (cases part)
    case (NY_FSP_STR w)
    have "settles p (fstring_exprs c parts q)"
      by (rule Cons.IH) (use Cons.prems in auto)
    then show ?thesis
      unfolding NY_FSP_STR fstring_exprs.simps by (intro settle)
  next
    case (NY_FSP_EXPR src)
    let ?sub = "parser_init_with_arena_opts (cx_ops c) src (lx_filename (pa_lex q)) (pa_quiet q) (lx_syms (pa_lex q)) (pa_diags q)"
    have d: "diag_table_ok (pa_diags q)" and len: "length src < ks"
      using Cons.prems(1,3) NY_FSP_EXPR by (auto simp: alive_def)
    have r: "settles ?sub (cx_expr c 0 ?sub)"
      by (rule served [OF s parser_init_ok(1) [OF d] onward_refl le_less_trans [OF parser_init_ok(2) [OF d] len]])
    show ?thesis
    proof (cases "cx_expr c 0 ?sub")
      case (Ret x)
      obtain e sub' where x: "x = (e, sub')"
        by (cases x)
      have "alive sub'"
        using r by (simp add: Ret x settles_def)
      then have "settles p (fstring_exprs c parts (restore q sub'))"
        using Cons.prems by (intro Cons.IH) simp_all
      then show ?thesis
        unfolding NY_FSP_EXPR fstring_exprs.simps Let_def Ret x and_then.simps prod.case by (intro settle)
    qed (use r in \<open>simp_all add: NY_FSP_EXPR settles_def Let_def\<close>)
  qed
qed

lemma fstring_settles:
  assumes "serves ke ks c" "alive q" "weight q \<le> ks" "onward p (px_advance c q)"
  shows "settles p (parse_fstring_expr c q)"
proof -
  obtain parts b where f: "parse_fstring (cur_text q) = (parts, b)"
    by (metis surj_pair)
  have "length (cur_text q) \<le> weight q"
    by (simp add: cur_text_def tok_text_def src_slice_def weight_def)
  then have "\<forall>e. NY_FSP_EXPR e \<in> set parts \<longrightarrow> length e < ks"
    using parse_fstring_shorter [of _ "cur_text q"] f assms(3) by fastforce
  then have "settles p (fstring_exprs c parts (px_advance c q))"
    using assms by (intro fstring_exprs_settle) auto
  then show ?thesis
    unfolding parse_fstring_expr_def f prod.case by (intro settle)
qed

subsection \<open>Primary expressions\<close>

lemma lambda_settles:
  assumes s: "serves ke ks c" and q: "alive q" "onward p (px_advance c q)" and w: "weight p < ks"
  shows "settles p (parse_lambda c q)"
proof -
  have params: "settles p (lambda_params (cx_fuel c) c [] r)" if "alive r" "onward p r" for r
    by (rule loop_from [OF s that w], rule lambda_params_settles [OF s])
  have ret: "settles p (lambda_return_type c r)" if "alive r" "onward p r" for r
    unfolding lambda_return_type_def Let_def
    by (intro settle type_ref_settles return_type_settles fuel_enough [OF s _ w]) (use that in auto)
  have body: "settles p (lambda_body c r)" if "alive r" "onward p r" for r
    unfolding lambda_body_def by (intro settle served [OF s] block_settles [OF s]) (use that w in auto)
  show ?thesis
    unfolding parse_lambda_def Let_def by (intro settle params ret body) (use q in auto)
qed

lemma primaries_settle:
  assumes s: "serves ke ks c" and q: "alive q" "onward p (px_advance c q)" and w: "weight p < ks"
  shows "settles p (parse_comptime c q)" "settles p (parse_ident c q)" "settles p (parse_number c q)" "settles p (parse_sizeof c q)"
    "settles p (parse_paren c q)" "settles p (parse_list c q)" "settles p (parse_dict_or_set c q)" "settles p (parse_asm c q)"
    "settles p (parse_embed c q)" "settles p (parse_dot_member c q)"
proof -
  note rules = settle served [OF s] block_settles [OF s] ct_match_settles [OF s] items_settle [OF s] items_until_settles [OF s]
  have str: "settles p (string_arg c msg r)" if "alive r" "onward p r" for r msg
    unfolding string_arg_def by (intro settle that)
  show "settles p (parse_comptime c q)"
    unfolding parse_comptime_def Let_def by (intro rules) (use q w in auto)
  show "settles p (parse_ident c q)"
    unfolding parse_ident_def Let_def by (intro rules) (use q w in auto)
  show "settles p (parse_number c q)"
    unfolding parse_number_def Let_def by (intro rules) (use q w in auto)
  show "settles p (parse_sizeof c q)"
    unfolding parse_sizeof_def Let_def by (intro rules) (use q w in auto)
  show "settles p (parse_paren c q)"
    unfolding parse_paren_def Let_def by (intro rules) (use q w in auto)
  show "settles p (parse_list c q)"
    unfolding parse_list_def Let_def by (intro rules) (use q w in auto)
  show "settles p (parse_dict_or_set c q)"
    unfolding parse_dict_or_set_def Let_def by (intro rules) (use q w in auto)
  show "settles p (parse_asm c q)"
    unfolding parse_asm_def Let_def by (intro rules str) (use q w in auto)
  show "settles p (parse_embed c q)"
    unfolding parse_embed_def Let_def by (intro rules str) (use q w in auto)
  show "settles p (parse_dot_member c q)"
    unfolding parse_dot_member_def Let_def by (intro rules) (use q w in auto)
qed


lemma primary_feeds:
  assumes s: "serves ke ks c" and q: "alive q" "weight q \<le> ks"
  shows "feeds (\<lambda>v. v = None) q (parse_primary c q)"
proof -
  let ?p = "px_advance c q"
  have p: "alive ?p" "onward q ?p" "weight ?p < weight q" "weight ?p < ks" if "cur_kind q \<noteq> NY_T_EOF"
    using q onward_advance1 [OF q(1)] weight_advance [OF q(1) that, of "cx_ops c"] by auto
  have step: "feeds (\<lambda>v. v = None) q r" if "cur_kind q \<noteq> NY_T_EOF" "settles ?p r" for r :: "('a, ('b, 'c) expr option) parsed"
    by (rule feeds_from [OF that(2)]) (use p [OF that(1)] in auto)
  have err: "feeds (\<lambda>v. v = None) q (fail_with tok msg hint None q)" for tok msg hint
    by (rule feeds_fail) (use q in auto)
  note prims = primaries_settle [OF s q(1) onward_refl] lambda_settles [OF s q(1) onward_refl] match_settles [OF s q(1) onward_refl]
    if_stmt_settles [OF s q(1) onward_refl] fstring_settles [OF s q onward_refl]
  show ?thesis
  proof (cases "cur_kind q = NY_T_EOF")
    case True
    show ?thesis
      unfolding parse_primary_def Let_def True token_kind.case by (rule err)
  next
    case False
    note step = step [OF False] and p = p [OF False]
    show ?thesis
    proof (cases "cur_kind q")
      case (Kw k)
      show ?thesis
        unfolding parse_primary_def Let_def Kw token_kind.case
        by (cases k; simp only: keyword_kind.case; (rule err | (rule step, intro settle prims value_expr_settles)); use p Kw in auto)
    next
      case (Op k)
      show ?thesis
        unfolding parse_primary_def Let_def Op token_kind.case by (cases k; simp only: operator_kind.case; rule err)
    next
      case (Punct k)
      show ?thesis
        unfolding parse_primary_def Let_def Punct token_kind.case
        by (cases k; simp only: punct_kind.case; (rule err | (rule step, intro settle prims)); use p Punct in auto)
    next
      case NY_T_IDENT
      show ?thesis
        unfolding parse_primary_def Let_def NY_T_IDENT token_kind.case by (rule step, intro prims) (use p in auto)
    next
      case NY_T_NUMBER
      show ?thesis
        unfolding parse_primary_def Let_def NY_T_NUMBER token_kind.case by (rule step, intro prims) (use p in auto)
    next
      case NY_T_STRING
      show ?thesis
        unfolding parse_primary_def Let_def NY_T_STRING token_kind.case by (rule step, intro settle) (use p in auto)
    next
      case NY_T_FSTRING
      show ?thesis
        unfolding parse_primary_def Let_def NY_T_FSTRING token_kind.case by (rule step, intro prims)
    next
      case NY_T_ERROR
      show ?thesis
        unfolding parse_primary_def Let_def NY_T_ERROR token_kind.case by (rule err)
    qed (use False in simp)
  qed
qed

subsection \<open>Operators\<close>

lemma postfix_loop_feeds:
  assumes s: "serves ke ks c"
  shows "alive q \<Longrightarrow> weight q \<le> ks \<Longrightarrow> weight q < n \<Longrightarrow> feeds (\<lambda>v. v = e) q (postfix_loop n c e q)"
proof (induction n arbitrary: q e)
  case (Suc n)
  let ?p = "px_advance c q" and ?again = "\<lambda>r. and_then r (\<lambda>(e', p'). postfix_loop n c (Some e') p')"
  have p: "alive ?p" "onward q ?p"
    using Suc.prems onward_advance1 by auto
  have less: "weight ?p < weight q" "weight ?p < ks" if "cur_kind q \<noteq> NY_T_EOF"
    using weight_advance [OF Suc.prems(1) that, of "cx_ops c"] Suc.prems by auto
  have again: "feeds (\<lambda>v. v = e) q (?again r)" if "cur_kind q \<noteq> NY_T_EOF" "settles ?p r" for r
  proof -
    have "settles ?p (postfix_loop n c (Some e') p')" if "alive p'" "onward ?p p'" for e' p'
      by (rule settles_from [OF feeds_settles [OF Suc.IH] that(2)])
        (use that onward_weight [OF that(2)] less [OF \<open>cur_kind q \<noteq> NY_T_EOF\<close>] Suc.prems in auto)
    then have "settles ?p (?again r)"
      by (intro settle that)
    then show ?thesis
      by (rule feeds_from [OF _ p(2) less(1) [OF that(1)]])
  qed
  have named: "feeds (\<lambda>v. v = e) q
      (case expr_lbrace_starts_named_fields c q of
         (named, p1) \<Rightarrow>
           if named then and_then (parser_error (pa_cur p1) msg hint p1) (\<lambda>p2. Ret (e, expr_skip_balanced_brace c p2)) else Ret (e, p1))" for msg hint
  proof -
    obtain b p1 where b: "expr_lbrace_starts_named_fields c q = (b, p1)"
      by (metis surj_pair)
    have "alive p1" "onward q p1"
      using named_fields_moves [OF b Suc.prems(1), of q] by auto
    then show ?thesis
      unfolding b prod.case by (intro feeds_if feeds_then feeds_Ret moves_error) auto
  qed
  show ?case
    unfolding postfix_loop.simps Let_def
    by (intro feeds_if again named feeds_Ret feeds_fail settle call_arg_list_settles [OF s] member_access_settles [OF s] index_settles [OF s])
      (use Suc.prems p less in \<open>auto simp: optional_access_def intro!: settle member_access_settles [OF s]\<close>)
qed simp


lemma postfix_feeds:
  assumes "serves ke ks c" "alive q" "weight q \<le> ks"
  shows "feeds (\<lambda>v. v = None) q (parse_postfix c q)"
proof -
  have loop: "feeds (\<lambda>v. v = e) r (postfix_loop (cx_fuel c) c e r)" if "alive r" "onward q r" for r e
    by (rule postfix_loop_feeds [OF assms(1) that(1)]) (use onward_weight [OF that(2)] assms in \<open>auto simp: serves_def\<close>)
  show ?thesis
    unfolding parse_postfix_def by (rule feeds_bind [OF primary_feeds [OF assms]]) (use loop feeds_settles in blast)+
qed

lemma unary_feeds:
  assumes s: "serves ke ks c" and q: "alive q" "weight q \<le> ks"
  shows "feeds (\<lambda>v. v = None) q (parse_unary c q)"
proof -
  have step: "feeds (\<lambda>v. v = None) q t" if "alive r" "onward q r" "weight r = weight q" "cur_kind r \<noteq> NY_T_EOF" "settles (px_advance c r) t"
    for r and t :: "('a, ('b, 'c) expr option) parsed"
    by (rule feeds_from [OF that(5)]) (use that weight_advance [OF that(1,4), of "cx_ops c"] in auto)
  have less: "weight (px_advance c r) < ks" if "alive r" "weight r = weight q" "cur_kind r \<noteq> NY_T_EOF" for r
    using weight_advance [OF that(1,3), of "cx_ops c"] that(2) q(2) by simp
  have prefix: "settles p (prefix_op tok op msg r)" if "settles p r" for p tok op msg and r :: "('a, ('b, 'c) expr option) parsed"
    unfolding prefix_op_def by (intro settle that)
  have borrow: "settles p (parse_borrow c r)" if "alive r" "onward p (px_advance c r)" "weight p < ks" for p r
  proof -
    have call: "settles p (case runtime_call c tok name hash args t of (call, p2) \<Rightarrow> Ret (Some call, p2))" if "alive t" "onward p t" for tok name hash args t
      by (rule settles_case) (use that runtime_call_moves in \<open>metis settles_Ret\<close>)
    show ?thesis
      unfolding parse_borrow_def by (intro call settle served [OF s]) (use that in auto)
  qed
  have deref: "settles p (parse_deref c r)" if "alive r" "onward p (px_advance c r)" "weight p < ks" for p r
  proof -
    have call: "settles p (case store_call c first tok hash target rhs t of (call, p2) \<Rightarrow> Ret (Some call, p2))" if "alive t" "onward p t"
      for first tok hash target rhs t
      by (rule settles_case) (use that store_call_moves in \<open>metis settles_Ret\<close>)
    show ?thesis
      unfolding parse_deref_def by (intro call settle served [OF s]) (use that in auto)
  qed
  show ?thesis
  proof (cases "cur_kind q = NY_T_IDENT")
    case True
    obtain nx r where k: "parser_peek (cx_ops c) q = (nx, r)"
      by (metis surj_pair)
    have r: "alive r" "onward q r" "weight r = weight q" "cur_kind r \<noteq> NY_T_EOF"
      using peek_moves [OF k, of q] q(1) True by auto
    have "settles (px_advance c r) (cx_unary c (px_advance c r))"
      by (rule served(2) [OF s]) (use r less in auto)
    then show ?thesis
      unfolding parse_unary_def Let_def k prod.case using True r q
      by (simp, intro conjI impI step [OF r] prefix feeds_weaken [OF postfix_feeds [OF s], of r]) auto
  next
    case False
    have e: "settles (px_advance c q) (cx_expr c prec (px_advance c q))" if "cur_kind q \<noteq> NY_T_EOF" for prec
      by (rule served(1) [OF s]) (use that q less in auto)
    show ?thesis
      unfolding parse_unary_def Let_def using False q less
      by (auto intro!: step [OF q(1) onward_refl refl] prefix borrow deref e postfix_feeds [OF s])
  qed
qed

lemma pipe_settles:
  assumes "serves ke ks c" "alive q" "onward p q" "weight p < ks"
  shows "settles p (parse_pipe c pipe_tok pcur left q)"
proof -
  have call: "settles p (case rhs of None \<Rightarrow> Fault
      | Some (NY_E_CALL t callee args) \<Rightarrow> Ret ((Some (NY_E_CALL t callee ((None, left) # args)), False), r)
      | Some x \<Rightarrow> Ret ((Some (NY_E_CALL pipe_tok (Some x) [(None, left)]), False), r))" if "alive r" "onward p r" for rhs r
    using that by (auto split: option.splits expr.splits intro!: settles_Ret)
  show ?thesis
    unfolding parse_pipe_def Let_def by (intro call settle served [OF assms(1)] member_access_settles [OF assms(1)]) (use assms in auto)
qed

lemma binary_loop_feeds:
  assumes s: "serves ke ks c"
  shows "alive q \<Longrightarrow> weight q \<le> ks \<Longrightarrow> weight q < n \<Longrightarrow> feeds (\<lambda>v. fst v = left) q (binary_loop n c prec left q)"
proof (induction n arbitrary: q left)
  case (Suc n)
  let ?p = "px_advance c q"
  show ?case
  proof (cases "precedence (cur_kind q) = 0")
    case False
    then have "cur_kind q \<noteq> NY_T_EOF"
      by auto
    then have less: "weight ?p < weight q" "weight ?p < ks"
      using weight_advance [OF Suc.prems(1), of "cx_ops c"] Suc.prems by auto
    have p: "alive ?p" "onward q ?p"
      using Suc.prems onward_advance1 by auto
    have again: "settles ?p (binary_loop n c prec l r)" if "alive r" "onward ?p r" for l r
      by (rule settles_from [OF feeds_settles [OF Suc.IH] that(2)]) (use that onward_weight [OF that(2)] less Suc.prems in auto)
    show ?thesis
      unfolding binary_loop.simps Let_def
      by (intro feeds_if feeds_Ret feeds_from [OF _ p(2) less(1)] settle pipe_settles [OF s] again served [OF s])
        (use Suc.prems p less in auto)
  qed (use Suc.prems in \<open>auto intro!: feeds_Ret\<close>)
qed simp

lemma ternary_settles:
  assumes "serves ke ks c" "alive q" "onward p (px_advance c q)" "weight p < ks"
  shows "settles p (parse_ternary c left q)"
  unfolding parse_ternary_def by (intro settle served [OF assms(1)]) (use assms in auto)

lemma parse_expr_feeds:
  assumes s: "serves ke ks c" and q: "alive q" "weight q \<le> ks"
  shows "feeds (\<lambda>v. v = None) q (p_parse_expr c prec q)"
proof -
  have loop: "feeds (\<lambda>v. fst v = left) r (binary_loop (cx_fuel c) c prec left r)" if "alive r" "onward q r" for left r
    by (rule binary_loop_feeds [OF s that(1)]) (use onward_weight [OF that(2)] q s in \<open>auto simp: serves_def\<close>)
  define k where "k = (\<lambda>(l, d) r. if \<not> d \<and> prec = 0 \<and> cur_kind r = Punct NY_T_QUESTION \<and> found_colon r
    then parse_ternary c l r else Ret (l, r))"
  have tail: "feeds (\<lambda>v. v = fst w) r (k w r)" if "alive r" "onward q r" for w r
  proof -
    obtain l d where w: "w = (l, d)"
      by (cases w)
    have "feeds (\<lambda>v. v = l) r (parse_ternary c l r)" if "cur_kind r = Punct NY_T_QUESTION"
    proof -
      have "weight (px_advance c r) < weight r" "weight (px_advance c r) < ks"
        using that weight_advance [OF \<open>alive r\<close>, of "cx_ops c"] onward_weight [OF \<open>onward q r\<close>] q(2) by auto
      then show ?thesis
        using feeds_from [OF ternary_settles [OF s \<open>alive r\<close> onward_refl]] onward_advance1 [OF \<open>alive r\<close>] by blast
    qed
    then show ?thesis
      unfolding w k_def prod.case fst_conv by (intro feeds_if feeds_Ret) (use that in auto)
  qed
  have rest: "feeds (\<lambda>v. v = left) r (and_then (binary_loop (cx_fuel c) c prec left r) (\<lambda>(w, p2). k w p2))"
    if r: "alive r" "onward q r" for left r
  proof (rule feeds_bind [OF loop [OF r]])
    show "settles p2 (k w p2)" if "alive p2" "onward r p2" for w p2
      using feeds_settles tail that r(2) onward_trans by blast
    show "feeds (\<lambda>v. v = left) p2 (k w p2)" if "alive p2" "onward r p2" "fst w = left" for w p2
      using tail [of p2 w] that r(2) onward_trans by blast
  qed
  then show ?thesis
    unfolding p_parse_expr_def k_def [symmetric]
    by (intro feeds_bind [OF unary_feeds [OF assms]]) (use feeds_settles in blast)+
qed


section \<open>Statements\<close>

lemma expect_at: "cur_kind q = k \<Longrightarrow> parser_expect ops k msg hint q = Ret (parser_advance ops q)"
  by (simp add: parser_expect_def)

lemma incrdecr_settles: "alive q \<Longrightarrow> onward p q \<Longrightarrow> settles p (parse_incrdecr_stmt c q)"
  unfolding parse_incrdecr_stmt_def Let_def by (intro settle) auto

lemma loop_body_settles:
  assumes "serves ke ks c" "alive q" "onward p q" "weight p < ks"
  shows "settles p (loop_body c q)"
  unfolding loop_body_def by (intro settle stmt_or_block_settles [OF assms(1)]) (use assms in auto)

lemma update_stmt_settles:
  assumes "serves ke ks c" "alive q" "onward p q" "weight p < ks"
  shows "settles p (update_stmt c q)"
  unfolding update_stmt_def by (intro settle incrdecr_settles served [OF assms(1)]) (use assms in auto)

lemma while_settles:
  assumes "serves ke ks c" "alive q" "onward p (px_advance c q)" "weight p < ks" "cur_kind q = Kw NY_T_WHILE"
  shows "settles p (ny_parse_while_stmt c q)"
proof -
  have attrs: "opt_attrs c q = Ret ((False, False, False), q)"
    using assms(5) by (simp add: opt_attrs_def)
  show ?thesis
    unfolding ny_parse_while_stmt_def attrs and_then.simps prod.case expect_at [OF assms(5)]
    by (intro settle header_init_settles [OF assms(1)] served [OF assms(1)] update_stmt_settles [OF assms(1)] loop_body_settles [OF assms(1)])
      (use assms in auto)
qed

lemma for_c_settles:
  assumes "serves ke ks c" "alive q" "onward p q" "weight p < ks"
  shows "settles p (for_c_style c tok attrs has_paren q)"
  unfolding for_c_style_def Let_def
  by (intro settle served [OF assms(1)] update_stmt_settles [OF assms(1)] loop_body_settles [OF assms(1)]) (use assms in auto)

lemma for_in_settles:
  assumes "serves ke ks c" "alive q" "onward p q" "weight p < ks"
  shows "settles p (for_in_style c tok attrs iter_paren q)"
  unfolding for_in_style_def Let_def
  by (intro settle served [OF assms(1)] loop_body_settles [OF assms(1)]) (use assms in auto)

lemma optional_peek:
  assumes "(if b then parser_peek ops q else (zero_token, q)) = (t, r)"
  shows "alive r = alive q \<and> onward a r = onward a q \<and> pa_cur r = pa_cur q"
  using assms peek_moves [of ops q t r a] by (cases b) auto

lemma for_settles:
  assumes s: "serves ke ks c" and q: "alive q" "onward p (px_advance c q)" "weight p < ks" "cur_kind q = Kw NY_T_FOR"
  shows "settles p (ny_parse_for_stmt c q)"
proof -
  let ?q = "px_advance c q"
  have attrs: "opt_attrs c q = Ret ((False, False, False), q)"
    using q(4) by (simp add: opt_attrs_def)
  obtain n1 p3 where n1: "(if cur_kind ?q = Punct NY_T_LPAREN then parser_peek (cx_ops c) ?q else (zero_token, ?q)) = (n1, p3)"
    by (metis surj_pair)
  have p3: "alive p3" "onward p p3"
    using optional_peek [OF n1, of p] q by auto
  have rest: "settles p (let (n2, p5) = (if cur_kind r = Punct NY_T_LPAREN then parser_peek (cx_ops c) r else (zero_token, r));
                 iter_paren = (cur_kind r = Punct NY_T_LPAREN \<and> tok_kind n2 = NY_T_IDENT);
                 p6 = (if iter_paren then px_advance c p5 else p5);
                 (n3, p7) = (if cur_kind p6 = NY_T_IDENT then parser_peek (cx_ops c) p6 else (zero_token, p6))
             in if cur_kind p6 = NY_T_IDENT \<and> (tok_kind n3 = Kw NY_T_IN \<or> tok_kind n3 = Punct NY_T_COMMA)
                then for_in_style c (pa_cur q) at iter_paren p7
                else fail_with (pa_cur p7) msg hint None p7)" if r: "alive r" "onward p r" for r at msg hint
    unfolding Let_def
  proof (intro settles_case)
    fix n2 p5 n3 p7
    assume n2: "(if cur_kind r = Punct NY_T_LPAREN then parser_peek (cx_ops c) r else (zero_token, r)) = (n2, p5)"
    let ?p6 = "if cur_kind r = Punct NY_T_LPAREN \<and> tok_kind n2 = NY_T_IDENT then px_advance c p5 else p5"
    assume n3: "(if cur_kind ?p6 = NY_T_IDENT then parser_peek (cx_ops c) ?p6 else (zero_token, ?p6)) = (n3, p7)"
    have "alive p7" "onward p p7"
      using optional_peek [OF n3, of p] optional_peek [OF n2, of p] r by auto
    then show "settles p (if cur_kind ?p6 = NY_T_IDENT \<and> (tok_kind n3 = Kw NY_T_IN \<or> tok_kind n3 = Punct NY_T_COMMA)
        then for_in_style c (pa_cur q) at (cur_kind r = Punct NY_T_LPAREN \<and> tok_kind n2 = NY_T_IDENT) p7 else fail_with (pa_cur p7) msg hint None p7)"
      by (intro settle for_in_settles [OF s] q)
  qed
  show ?thesis
    unfolding ny_parse_for_stmt_def attrs and_then.simps prod.case expect_at [OF q(4)] n1 Let_def
    by (intro settles_if rest [unfolded Let_def] for_c_settles [OF s]) (use p3 q in auto)
qed

lemma try_settles:
  assumes "serves ke ks c" "alive q" "onward p (px_advance c q)" "weight p < ks" "cur_kind q = Kw NY_T_TRY"
  shows "settles p (ny_parse_try_stmt c q)"
proof -
  have err: "settles p (case parser_peek ops r of (t, p4) \<Rightarrow> Ret (if tok_kind t = Punct NY_T_LBRACE then (Some (cur_text r), px_advance c p4) else (None, p4)))"
    if "alive r" "onward p r" for ops r
    by (rule settles_peek) (use that in \<open>auto intro!: settle\<close>)
  show ?thesis
    unfolding ny_parse_try_stmt_def expect_at [OF assms(5)] and_then.simps Let_def
    by (intro err settle block_settles [OF assms(1)]) (use assms in auto)
qed


lemma jumps_settle:
  assumes "serves ke ks c" "alive q" "onward p (px_advance c q)" "weight p < ks"
  shows "cur_kind q = Kw NY_T_RETURN \<Longrightarrow> settles p (ny_parse_return_stmt c q)"
    "cur_kind q = Kw NY_T_GOTO \<Longrightarrow> settles p (ny_parse_goto_stmt c q)"
    "cur_kind q = Kw k \<Longrightarrow> settles p (parse_jump c k node q)"
proof -
  show "settles p (ny_parse_return_stmt c q)" if "cur_kind q = Kw NY_T_RETURN"
    unfolding ny_parse_return_stmt_def expect_at [OF that] and_then.simps by (intro settle served [OF assms(1)]) (use assms in auto)
  show "settles p (ny_parse_goto_stmt c q)" if "cur_kind q = Kw NY_T_GOTO"
    unfolding ny_parse_goto_stmt_def expect_at [OF that] and_then.simps by (intro settle) (use assms in auto)
  show "settles p (parse_jump c k node q)" if "cur_kind q = Kw k"
    unfolding parse_jump_def expect_at [OF that] and_then.simps by (intro settle) (use assms in auto)
qed

text \<open>A statement that begins with an expression calls the expression parser at its first token.\<close>

lemma expr_stmt_settles:
  assumes s: "serves ke ks c" "alive q" "onward p q" "weight p < ke"
  shows "settles p (parse_expr_stmt c q)" "settles p (parse_plain_expr_stmt c q)"
proof -
  note rules = settle serves_expr [OF s(1)]
  have store: "settles p (case runtime_call c tok name hash args r of (call, p3) \<Rightarrow> Ret (Some (NY_S_EXPR t (Some call)), p3))"
    if "alive r" "onward p r" for tok name hash args r t
    by (rule settles_case) (use that runtime_call_moves in \<open>metis settles_Ret\<close>)
  have "settles p (case e of None \<Rightarrow> Ret (None, px_sync c p1)
      | Some (NY_E_DEREF t target) \<Rightarrow> if b then d target else Ret (x, px_match c (Punct NY_T_SEMI) p1)
      | Some _ \<Rightarrow> Ret (x, px_match c (Punct NY_T_SEMI) p1))"
    if "alive p1" "onward p p1" "\<And>target. settles p (d target)" for e p1 b d x
    using that by (auto split: option.splits expr.splits intro!: settles_Ret)
  note cases = this
  show "settles p (parse_expr_stmt c q)"
    unfolding parse_expr_stmt_def Let_def by (intro cases store rules) (use s in auto)
  show "settles p (parse_plain_expr_stmt c q)"
    unfolding parse_plain_expr_stmt_def by (intro rules) (use s in auto)
qed

lemma star_stmt_settles:
  assumes "serves ke ks c" "alive q" "onward p (px_advance c q)" "weight p < ks"
  shows "settles p (parse_star_stmt c q)"
proof -
  have store: "settles p (case store_call c first tok hash target rhs r of (call, p3) \<Rightarrow> Ret (Some (NY_S_EXPR t (Some call)), p3))"
    if "alive r" "onward p r" for first tok hash target rhs r t
    by (rule settles_case) (use that store_call_moves in \<open>metis settles_Ret\<close>)
  show ?thesis
    unfolding parse_star_stmt_def Let_def by (intro store settle served [OF assms(1)]) (use assms in auto)
qed

text \<open>
  What the parsers of the other statements promise: called with a context that reads what is left, they return
  with a state further on, and the parser of compile-time loops goes back when it does not handle the loop.
\<close>

definition others_return :: "('s, 'f, 'x) others \<Rightarrow> bool" where
  "others_return ot \<longleftrightarrow>
     (\<forall>ke ks c p. serves ke ks c \<longrightarrow> alive p \<longrightarrow> weight p \<le> ks \<longrightarrow> weight p < ke \<longrightarrow>
        settles p (ot_stmt ot c p) \<and> settles p (ot_comptime_for ot c p) \<and>
        (\<forall>s q. ot_comptime_for ot c p = Ret ((False, s), q) \<longrightarrow> pa_cur q = pa_cur p \<and> weight q = weight p))"

lemma comptime_for_settles:
  assumes s: "serves ke ks c" "others_return ot" and q: "alive q" "weight q \<le> ks" "weight q < ke" "cur_kind q = Kw NY_T_FOR"
  shows "settles q (and_then (ot_comptime_for ot c q) (\<lambda>((handled, s), p1). if handled then Ret (s, p1) else ny_parse_for_stmt c p1))"
proof -
  have o: "settles q (ot_comptime_for ot c q)"
    and same: "ot_comptime_for ot c q = Ret ((False, s'), p1) \<Longrightarrow> pa_cur p1 = pa_cur q \<and> weight p1 = weight q" for s' p1
    using s q(1-3) unfolding others_return_def by blast+
  show ?thesis
  proof (cases "ot_comptime_for ot c q")
    case (Ret x)
    obtain handled s' p1 where x: "x = ((handled, s'), p1)"
      by (metis surj_pair)
    have p1: "alive p1" "onward q p1"
      using o by (simp_all add: Ret x settles_def)
    show ?thesis
    proof (cases handled)
      case False
      have p: "pa_cur p1 = pa_cur q" "weight p1 = weight q"
        using same [of s' p1] Ret x False by simp_all
      have "settles (px_advance c p1) (ny_parse_for_stmt c p1)"
        by (rule for_settles [OF s(1) p1(1) onward_refl]) (use p q weight_advance [OF p1(1), of "cx_ops c"] in auto)
      then have "settles q (ny_parse_for_stmt c p1)"
        using settles_from onward_advance [OF p1(2,1)] by blast
      then show ?thesis
        using False by (simp add: Ret x)
    qed (use p1 in \<open>simp add: Ret x settles_Ret\<close>)
  qed (use o in \<open>simp_all add: settles_def\<close>)
qed

lemma dispatch_settles:
  assumes s: "serves ke ks c" "others_return ot" and q: "alive q" "weight q \<le> ks" "weight q < ke"
  shows "settles q (dispatch_stmt ot c q)"
proof -
  let ?p = "px_advance c q"
  have step: "settles q r" if "settles ?p r" for r :: "('a, ('b, 'c) stmt option) parsed"
    by (rule settles_from [OF that onward_advance1 [OF q(1)]])
  have w: "weight ?p < ks" if "cur_kind q \<noteq> NY_T_EOF"
    using weight_advance [OF q(1) that, of "cx_ops c"] q(2) by simp
  have ot: "settles q (ot_stmt ot c q)"
    using s q unfolding others_return_def by blast
  have ex: "settles q (parse_expr_stmt c q)"
    by (rule expr_stmt_settles [OF s(1) q(1) onward_refl q(3)])
  have brace: "settles q (case stmt_lbrace_starts_dict_literal c q of
      (dict, p1) \<Rightarrow> if dict then parse_plain_expr_stmt c p1 else and_then (p_parse_block c p1) (\<lambda>(s, p1). Ret (Some s, p1)))"
    if "cur_kind q = Punct NY_T_LBRACE"
  proof -
    obtain b p1 where b: "stmt_lbrace_starts_dict_literal c q = (b, p1)"
      by (metis surj_pair)
    have p1: "alive p1" "onward q p1" "weight p1 = weight q" "cur_kind p1 = Punct NY_T_LBRACE"
      using dict_literal_moves [OF b q(1), of q] that by auto
    have "settles q (p_parse_block c p1)"
      by (rule settles_from [OF block_at_brace_settles [OF s(1) p1(1)] p1(2)]) (use p1 q in auto)
    then show ?thesis
      unfolding b prod.case by (intro settle expr_stmt_settles [OF s(1)]) (use p1 q in auto)
  qed
  note prims = while_settles [OF s(1) q(1) onward_refl] try_settles [OF s(1) q(1) onward_refl] jumps_settle [OF s(1) q(1) onward_refl]
    match_settles [OF s(1) q(1) onward_refl] if_stmt_settles [OF s(1) q(1) onward_refl] star_stmt_settles [OF s(1) q(1) onward_refl]
    block_settles [OF s(1) _ onward_refl] incrdecr_settles comptime_for_settles [OF s q] brace
  have elif: "settles q (and_then (parser_error tok msg hint q) (\<lambda>p1. Ret (v, px_advance c p1)))" for tok msg hint and v :: "('b, 'c) stmt option"
    by (intro settle) (use q in auto)
  show ?thesis
  proof (cases "cur_kind q")
    case (Kw k)
    show ?thesis
      unfolding dispatch_stmt_def Let_def Kw token_kind.case
      by (cases k; simp only: keyword_kind.case; (intro settles_if ot ex | rule elif comptime_for_settles [OF s q] | (rule step, intro settle prims));
          use q Kw w in auto)
  next
    case (Op k)
    show ?thesis
      unfolding dispatch_stmt_def Let_def Op token_kind.case
      by (cases k; simp only: operator_kind.case; (intro settles_if ot ex | (rule step, intro prims)); use q Op w in auto)
  next
    case (Punct k)
    show ?thesis
      unfolding dispatch_stmt_def Let_def Punct token_kind.case
      by (cases k; simp only: punct_kind.case; (intro settles_if ot ex | rule brace | intro settle incrdecr_settles); use q Punct w in auto)
  qed (simp only: dispatch_stmt_def Let_def token_kind.case; intro settles_if ot ex)+
qed

lemma parse_stmt_settles:
  assumes s: "serves ke ks c" "others_return ot" and q: "alive q" "weight q \<le> ks" "weight q < ke"
  shows "settles q (p_parse_stmt ot c q)"
proof -
  have "settles q (dispatch_stmt ot c p1)" if "alive p1" "onward q p1" for p1
    by (rule settles_from [OF dispatch_settles [OF s that(1)] that(2)]) (use onward_weight [OF that(2)] q in auto)
  then show ?thesis
    unfolding p_parse_stmt_def by (intro settle deref_assign_settles [OF s(1)]) (use q in auto)
qed

section \<open>The whole parser\<close>

text \<open>Two levels for every byte that is left to read.\<close>

lemma parsers_serve:
  assumes "others_return ot"
  shows "serves (Suc n div 2) (n div 2) (parsers u ot (Suc n))"
proof (induction n)
  case 0
  show ?case
    by (simp add: serves_def parsers_fields)
next
  case (Suc n)
  show ?case
    unfolding serves_def parsers_Suc parsers_fields
  proof (intro conjI allI impI)
    fix p :: "'a parser_t" and prec
    assume "alive p" "weight p < Suc (Suc n) div 2"
    then show "feeds (\<lambda>v. v = None) p (p_parse_expr (parsers u ot (Suc n)) prec p)" "feeds (\<lambda>v. v = None) p (parse_unary (parsers u ot (Suc n)) p)"
      by (auto intro!: parse_expr_feeds [OF Suc.IH] unary_feeds [OF Suc.IH])
  next
    fix p :: "'a parser_t"
    assume "alive p" "weight p < Suc n div 2"
    then show "settles p (p_parse_stmt ot (parsers u ot (Suc n)) p)"
      by (intro parse_stmt_settles [OF Suc.IH assms]) auto
  qed auto
qed

lemma not_stuck: "settles p r \<Longrightarrow> r \<noteq> Stuck"
  by (auto simp: settles_def)

lemma program_loop_settles:
  assumes s: "serves ke ks c" and b: "CHR ''}'' \<notin> set (lx_src (pa_lex p))" and w: "weight p < ks"
  shows "alive q \<Longrightarrow> onward p q \<Longrightarrow> rests n q \<Longrightarrow> settles p (program_loop n c out q)"
proof (induction n arbitrary: q out)
  case (Suc n)
  have "cur_kind q \<noteq> Punct NY_T_RBRACE"
  proof
    assume "cur_kind q = Punct NY_T_RBRACE"
    then have "cur_text q = ''}''"
      using Suc.prems(1) by (simp add: alive_def)
    then have "CHR ''}'' \<in> set (take (tok_len (pa_cur q)) (drop (tok_lexeme (pa_cur q)) (lx_src (pa_lex q))))"
      by (simp add: cur_text_def tok_text_def src_slice_def)
    then have "CHR ''}'' \<in> set (lx_src (pa_lex q))"
      by (meson in_set_takeD in_set_dropD)
    then show False
      using b Suc.prems(2) by (simp add: onward_def)
  qed
  moreover have "rounds q (parse_stmt_append_or_sync c out q)"
    using append_or_sync_rounds [OF s Suc.prems(1)] onward_weight [OF Suc.prems(2)] w by simp
  ultimately show ?case
    unfolding program_loop.simps
    by (intro settle rounds_again [OF _ Suc.prems(2,1,3)] Suc.IH) (use Suc.prems in auto)
qed (simp add: rests_def)

lemma program_settles:
  assumes "serves ke ks c" "CHR ''}'' \<notin> set (lx_src (pa_lex p))" "weight p < ks" "alive p"
  shows "settles p (parse_program c p)"
proof -
  have "settles p (program_loop (cx_fuel c) c [] p)"
    by (rule program_loop_settles [OF assms(1-3)]) (use assms fuel_rests [OF assms(1) onward_refl assms(3)] in auto)
  then show ?thesis
    unfolding parse_program_def by (intro settle)
qed

lemma init_src: "lx_src (pa_lex (parser_init_with_arena_opts ops src filename quiet syms d)) = takeWhile (\<lambda>ch. ch \<noteq> NUL) src"
  by (simp add: parser_init_with_arena_opts_def Let_def forward_src [OF advance_forward(1)])


lemma sample_others_return: "others_return sample_others"
  by (auto simp: others_return_def sample_others_def intro!: settles_Ret expr_stmt_settles)


end
