(* ===== verification/Spec2Isabelle.thy ===== *)
theory Spec2Isabelle
  imports Nyir_Pipeline_Correct Nyir_Binary_Correct Nyir_Typemap_Correct Proof_Cert_Correct Lexer_Symbols Bigint_Gf2 Parser_Literals_Correct Emit_Limits_Correct Parser_Climb Parser_Total
begin

text \<open>
  \<^bold>\<open>A verification library for the Nytrix compiler and runtime.\<close>

  Nytrix (\<open>src/\<close>) is a compiler, JIT and runtime written in C. Source text is lexed and parsed
  (\<open>src/parse\<close>), type checked and lowered (\<open>src/code\<close>), either to LLVM or to the native
  intermediate representation NYIR (\<open>src/code/native/ir\<close>), which is verified, optimised,
  interpreted, written to disk and compiled to object files; the runtime (\<open>src/rt\<close>) holds values,
  big integers, memory and the checker of proof certificates; \<open>src/base\<close> holds hashing, the string
  interner and other utilities used everywhere. The development models the parts with the
  program's own algorithms, definition by definition and in the order of the code.

  \<^bold>\<open>Theories and sources.\<close>

  \<^item> \<open>Prelude\<close>: machine integers (a C \<open>int64_t\<close> is a \<open>64 word\<close> read by \<open>sint\<close>), chains of guarded
    early returns, generic lemmas.
  \<^item> \<open>Nyir_Types\<close> (\<open>ir.h\<close>): opcodes, comparison codes, effect bits, the instruction and function
    records. \<open>Nyir_Build\<close> (\<open>ir/init.c\<close>): call arguments, effects, operand normalisation, metadata,
    \<open>ny_nir_emit\<close>, \<open>ny_nir_inst_discard\<close>.
  \<^item> \<open>Nyir_Verify\<close> (\<open>ir/verify.c\<close>, first part and \<open>ny_nir_validate_constraints\<close>): the verifier as a
    function to \<open>nir_error option\<close>, every check in source order. \<open>Nyir_Verify_Facts\<close>: what a verified
    function satisfies.
  \<^item> \<open>Nyir_Eval\<close> (\<open>ir/eval.c\<close>): the interpreter. One step is \<open>eval_step\<close>; the loop has the step budget
    of the source (a parameter or 1000000), so it is total by counting steps down, and running
    out of budget is the error the source reports. \<open>Nyir_Sem\<close> gives the step function its control
    skeleton (a core semantics without the bookkeeping of statistics) and the run relation that the
    optimizer proofs use; \<open>Nyir_Sim\<close> holds the simulation locales.
  \<^item> \<open>Nyir_Analysis\<close> (\<open>ir/verify.c\<close>, value facts): checked arithmetic, ranges, \<open>ny_nir_analyze_values\<close>.
    \<open>Nyir_Range_Sound\<close>: the ranges contain the values the machine computes, but for or and xor.
  \<^item> \<open>Nyir_Opt\<close> (\<open>ir/opt.c\<close>): the passes and the two pipelines. \<open>Nyir_Refresh_Correct\<close>,
    \<open>Nyir_Fold_Correct\<close>, \<open>Nyir_Copy_Correct\<close>, \<open>Nyir_Peephole_Correct\<close>, \<open>Nyir_Cfg_Correct\<close>,
    \<open>Nyir_Dce_Correct\<close>, \<open>Nyir_Compact_Correct\<close>: each pass preserves finished runs, as interpretations of
    the simulation locales. \<open>Nyir_Pipeline_Correct\<close> composes them. \<open>Nyir_Samples\<close> holds the
    functions the witnesses run.
  \<^item> \<open>Nyir_Binary\<close> (\<open>ir/binary.c\<close>): the binary file format as byte lists. \<open>Nyir_Binary_Correct\<close>: the locale
    \<open>codec\<close>, interpreted on each field format, and the round trip of whole functions.
  \<^item> \<open>Nyir_Typemap\<close> (\<open>ir/init.c\<close>, type map): union-find on the parent array with path compression, and the
    loops over the instructions. \<open>Nyir_Typemap_Correct\<close>: the locale \<open>partition_structure\<close> states what the
    loops need of such a structure; it is interpreted on the parent array, and the type map is the
    least solution of its constraints.
  \<^item> \<open>Proof_Cert\<close> and \<open>Proof_Cert_Correct\<close> (\<open>rt/proof.c\<close>): digest, parser, evaluator and check of
    certificates of propositional tautologies; soundness, decision and round trip.
  \<^item> \<open>Base_Hash\<close> (\<open>base/util.c\<close>, \<open>base/util.h\<close>, \<open>base/hash.c\<close>) and \<open>Intern\<close>, \<open>Intern_Correct\<close>
    (\<open>base/intern.c\<close>): hashing and the interner. The probing loops are \<open>partial_function (option)\<close>; the
    load limits keep a slot free, so under the invariant they return. The locale \<open>interner\<close> is the
    contract the rest of the compiler relies on, interpreted on the operations of the source.
  \<^item> \<open>Lexer_State\<close>, \<open>Lexer\<close> (\<open>parse/lexer.c\<close>, \<open>parse/lexer.h\<close>): character classes, scans, the lexer record, and
    every handler up to \<open>lexer_next\<close>, \<open>dup_string_token\<close> and \<open>parse_use_name\<close>. The loops are total
    functions: each round moves the position towards the end (\<open>forward\<close>), and so is the recursion of
    \<open>lexer_next\<close> after an error. \<open>Lexer_Correct\<close>: fast scans, keyword table, shapes of tokens, the tiling of
    the source, string bodies, the buffer of module names. \<open>Lexer_Symbols\<close>: the locale \<open>symbol_table\<close> is what
    the lexer needs of the interner; it is interpreted on the interner of \<open>Intern\<close>, so that symbol
    numbers identify names over the whole token stream.
  \<^item> \<open>Parser_Literals\<close>, \<open>Parser_Literals_Correct\<close> (\<open>parse/expr.c\<close>, \<open>parse/core.c\<close>): number suffixes, integer and float
    literals, escapes, string tokens and the parts of f-strings; values are exact, strings go through lexer
    and parser unchanged, unescaping stays inside its buffer.
  \<^item> \<open>Emit_Limits\<close>, \<open>Emit_Limits_Correct\<close> (\<open>base/util.c\<close>, \<open>parse/core.c\<close>): the counting tables of log messages and
    of diagnostics. The locale \<open>emission_limiter\<close> is interpreted on both; a table that grows keeps its counts.
  \<^item> \<open>Parser_Core\<close> (\<open>parse/core.c\<close>, \<open>parse/priv.h\<close>, \<open>parse/parser.h\<close>): the parser record, advancing, matching, expecting, reporting
    with the error limit. A parser function yields an \<open>outcome\<close>: \<open>Ret\<close> of a value and the new state, \<open>Exit\<close> where the
    source calls \<open>exit\<close>, \<open>Fault\<close> where it reads through a null pointer or past a buffer, \<open>Stuck\<close> when the fuel is used up.
    \<open>Parser_Ast\<close> (\<open>parse/ast.h\<close>): expressions and statements. \<open>Parser_Names\<close>: recovery, type names, type references.
    \<open>Parser_Flow\<close> (\<open>match.c\<close>, parts of \<open>stmtflow.c\<close> and \<open>stmt/core.c\<close>), \<open>Parser_Expr\<close> (\<open>expr.c\<close>) and \<open>Parser_Stmt\<close> (\<open>stmtflow.c\<close>,
    \<open>stmt/dispatch.c\<close>): the mutually recursive functions take the recursive calls from the record \<open>ctx\<close>; \<open>parsers u ot n\<close>
    ties the knot \<open>n\<close> levels deep, and the loops of a level have as much fuel. The record \<open>others\<close> stands for the
    statements that are not modelled, \<open>cx_junk\<close> for the uninitialised bytes behind an unterminated buffer.
  \<^item> \<open>Parser_Errors\<close>: what happens at stray tokens: the recovery that never moves, errors of f-strings that are not counted, the
    pipe without an operand. \<open>Parser_Climb\<close>: trees of operators, written with the least parentheses, are read back by
    \<open>p_parse_expr\<close>; fuel for one level per token is enough.
  \<^item> \<open>Parser_Progress\<close>, \<open>Parser_Serve\<close>, \<open>Parser_Total\<close>: the parser returns. \<open>weight\<close> is the number of bytes left to read; \<open>settles\<close> says
    that a function returns and does not go back, \<open>serves\<close> that a context does so for less than a weight. By induction
    \<open>parsers u ot n\<close> serves half of \<open>n\<close>, so two levels per byte are enough fuel. \<open>others_return\<close> is what the parameters promise.
  \<^item> \<open>Rt_Value\<close> (\<open>rt/shared.h\<close>), \<open>Bigint\<close> (\<open>rt/bigint.c\<close>): tagged integers and big integer objects.
    128-bit arithmetic is integer arithmetic with its wrap-around written out. \<open>Bigint_Correct\<close>: limb
    arithmetic is integer arithmetic, so fast paths and GMP agree; \<open>Bigint_Gf2\<close>: polynomials over
    GF(2) against carry-less multiplication. The GMP functions are parameters; \<open>gmp_documented\<close> and
    \<open>gmp_bits_documented\<close> are their documented behaviour. The GF(2) loops are \<open>partial_function (option)\<close>,
    shown to return for nonnegative polynomials and not to return for a negative one.

  \<^bold>\<open>Modelling conventions.\<close> Allocation never fails and arrays have the capacity the code gives
  them; \<open>NULL\<close> function arguments, which the code rejects first, are left out, except where a pointer may
  legitimately be \<open>NULL\<close>. Signed overflow, undefined in C, wraps as the code is compiled to do.
  Floating-point operations, the call resolver, string addresses and the addresses \<open>malloc\<close> returns
  are parameters of the definitions that use them. Printing, timing and statistics of passes are not
  modelled.

  \<^bold>\<open>What the modelling showed.\<close> The range of a bitwise or is unsound and lets the peephole pass
  miscompile; copy propagation miscompiles loops that redefine the source of a copy; the certificate
  parser compares a length with a difference that can underflow; converting a big integer to a machine
  integer overwrites the stack; GF(2) reduction of negative numbers need not end; a module name with a
  first part of more than 64 bytes overflows its buffer, and names run on into the next line; token
  positions drift after directives and in tokens that span lines; the range of a number suffix is not
  enforced; a stray brace whose diagnostic has been suppressed hangs the parser; errors inside of f-strings
  are not counted; a pipe without an operand reads through a null pointer. Each is a theorem.

  \<^bold>\<open>Not modelled.\<close> Lowering from the AST, the machine back ends and object files, LLVM code
  generation and type inference (LLVM and libclang bindings over the full syntax tree), the
  declarations, bindings, templates and compile-time forms of the parser, the garbage collector and raw memory of the runtime, the system and foreign function
  interfaces, and the command line tools, which are input, output and process control.
\<close>

end
